(* ===== verification/Prelude.thy ===== *)
theory Prelude
  imports Main "HOL-Library.Word" "HOL-Library.Char_ord" "HOL-Library.List_Lexorder"
    "HOL-Library.Multiset"
begin

text \<open>
  Shared vocabulary of the development: the Rust types the station uses (durations,
  instants, 64-bit words, ordered maps), the generic list lemmas that several
  components need, and the interface of an ordered map with its implementation as a
  strictly sorted association list (Rust's \<open>BTreeMap\<close>, whose iteration order is the
  order of its keys).
\<close>

unbundle bit_operations_syntax

named_theorems store_simps \<open>laws of the ordered map\<close>
named_theorems spacing_simps \<open>rewriting of the adjacency checks\<close>
named_theorems resume_simps \<open>projections of the resume state\<close>

section \<open>Rust types\<close>

text \<open>
  A \<open>std::time::Duration\<close> is a number of nanoseconds, a \<open>time::OffsetDateTime\<close> is the
  signed number of nanoseconds since the Unix epoch, a \<open>u64\<close> is a 64-bit word. A
  \<open>usize\<close> is a natural number: the code indexes lists with it, and a list shorter
  than the address space never makes it wrap. A \<open>Result<T, String>\<close> is a sum whose
  left side is the error.
\<close>

type_synonym duration = nat
type_synonym instant = int
type_synonym u64 = "64 word"
type_synonym 'a result = "string + 'a"

definition nanos_per_sec :: int where
  "nanos_per_sec = 1000000000"

definition dur_of_millis :: "nat \<Rightarrow> duration" where
  "dur_of_millis ms = ms * 1000000"

definition dur_of_secs :: "nat \<Rightarrow> duration" where
  "dur_of_secs s = s * 1000000000"

definition dur_as_secs :: "duration \<Rightarrow> nat" where
  "dur_as_secs d = d div 1000000000"

text \<open>\<open>unix_timestamp\<close> floors to whole seconds; \<open>from_unix_timestamp\<close> scales back.\<close>

definition unix_timestamp :: "instant \<Rightarrow> int" where
  "unix_timestamp t = t div nanos_per_sec"

definition at_unix :: "int \<Rightarrow> instant" where
  "at_unix s = s * nanos_per_sec"

lemma unix_timestamp_at_unix [simp]: "unix_timestamp (at_unix s) = s"
  by (simp add: unix_timestamp_def at_unix_def nanos_per_sec_def)

lemma at_unix_less_iff [simp]: "at_unix a < at_unix b \<longleftrightarrow> a < b"
  by (simp add: at_unix_def nanos_per_sec_def)

lemma at_unix_le_iff [simp]: "at_unix a \<le> at_unix b \<longleftrightarrow> a \<le> b"
  by (simp add: at_unix_def nanos_per_sec_def)

lemma at_unix_timestamp_le: "at_unix (unix_timestamp t) \<le> t"
  by (simp add: unix_timestamp_def at_unix_def nanos_per_sec_def)

lemma less_at_unix_iff: "t < at_unix s \<longleftrightarrow> unix_timestamp t < s"
  by (simp add: unix_timestamp_def at_unix_def nanos_per_sec_def, linarith)

lemma at_unix_le_iff_timestamp: "at_unix s \<le> t \<longleftrightarrow> s \<le> unix_timestamp t"
  using less_at_unix_iff [of t s] by linarith

lemma unix_timestamp_mono: "s \<le> t \<Longrightarrow> unix_timestamp s \<le> unix_timestamp t"
  by (simp add: unix_timestamp_def nanos_per_sec_def zdiv_mono1)

section \<open>Decimal rendering\<close>

text \<open>What \<open>{}\<close> prints for an unsigned integer, and \<open>{:02}\<close> for a two-digit field.\<close>

definition digit_char :: "nat \<Rightarrow> char" where
  "digit_char n = char_of (48 + n)"

fun dec :: "nat \<Rightarrow> string" where
  "dec n = (if n < 10 then [digit_char n] else dec (n div 10) @ [digit_char (n mod 10)])"

declare dec.simps [simp del]

definition dec_int :: "int \<Rightarrow> string" where
  "dec_int i = (if i < 0 then ''-'' @ dec (nat (- i)) else dec (nat i))"

definition dec2 :: "nat \<Rightarrow> string" where
  "dec2 n = (if n < 10 then ''0'' @ dec n else dec n)"

section \<open>Results\<close>

definition bind_res :: "'a result \<Rightarrow> ('a \<Rightarrow> 'b result) \<Rightarrow> 'b result" where
  "bind_res r f = (case r of Inl e \<Rightarrow> Inl e | Inr x \<Rightarrow> f x)"

lemma bind_res_simps [simp]:
  "bind_res (Inl e) f = Inl e"
  "bind_res (Inr x) f = f x"
  by (simp_all add: bind_res_def)

lemma bind_res_Inr_iff:
  "bind_res r f = Inr y \<longleftrightarrow> (\<exists>x. r = Inr x \<and> f x = Inr y)"
  by (cases r) simp_all

lemma bind_res_InrE:
  assumes "bind_res r f = Inr y"
  obtains x where "r = Inr x" "f x = Inr y"
  using assms by (auto simp: bind_res_Inr_iff)

text \<open>\<open>map_err\<close>: the caller prefixes the callee's message.\<close>

definition map_err :: "(string \<Rightarrow> string) \<Rightarrow> 'a result \<Rightarrow> 'a result" where
  "map_err g r = (case r of Inl e \<Rightarrow> Inl (g e) | Inr x \<Rightarrow> Inr x)"

lemma map_err_simps [simp]: "map_err g (Inl e) = Inl (g e)" "map_err g (Inr x) = Inr x"
  by (simp_all add: map_err_def)

lemma map_err_Inr_iff [simp]: "map_err g r = Inr x \<longleftrightarrow> r = Inr x"
  by (cases r) (simp_all add: map_err_def)

text \<open>A loop over a list that stops at the first error (\<open>?\<close> inside a \<open>for\<close>).\<close>

fun map_res :: "('a \<Rightarrow> 'b result) \<Rightarrow> 'a list \<Rightarrow> 'b list result" where
  "map_res f [] = Inr []"
| "map_res f (x # xs) = bind_res (f x) (\<lambda>y. bind_res (map_res f xs) (\<lambda>ys. Inr (y # ys)))"

lemma map_res_length: "map_res f xs = Inr ys \<Longrightarrow> length ys = length xs"
  by (induction xs arbitrary: ys) (auto simp: bind_res_Inr_iff)

lemma map_res_nth: "map_res f xs = Inr ys \<Longrightarrow> i < length xs \<Longrightarrow> f (xs ! i) = Inr (ys ! i)"
proof (induction xs arbitrary: ys i)
  case Nil
  then show ?case by simp
next
  case (Cons x xs)
  then show ?case by (cases i) (auto simp: bind_res_Inr_iff)
qed

section \<open>Lists\<close>

text \<open>\<open>Iterator::position\<close>: the index of the first element that satisfies a predicate.\<close>

fun position :: "('a \<Rightarrow> bool) \<Rightarrow> 'a list \<Rightarrow> nat option" where
  "position P [] = None"
| "position P (x # xs) = (if P x then Some 0 else map_option Suc (position P xs))"

lemma find_SomeD: "find P xs = Some x \<Longrightarrow> x \<in> set xs \<and> P x"
  by (auto simp: find_Some_iff)

lemma position_None_iff: "position P xs = None \<longleftrightarrow> (\<forall>x\<in>set xs. \<not> P x)"
  by (induction xs) auto

lemma position_SomeD:
  "position P xs = Some i \<Longrightarrow> i < length xs \<and> P (xs ! i) \<and> (\<forall>j<i. \<not> P (xs ! j))"
proof (induction xs arbitrary: i)
  case Nil
  then show ?case by simp
next
  case (Cons x xs)
  show ?case
  proof (cases "P x")
    case True
    with Cons.prems show ?thesis by simp
  next
    case False
    with Cons.prems obtain k where k: "position P xs = Some k" "i = Suc k" by auto
    from Cons.IH [OF k(1)] False k(2) show ?thesis
      by (auto simp: nth_Cons split: nat.splits)
  qed
qed

lemma position_Some_less: "position P xs = Some i \<Longrightarrow> i < length xs"
  by (blast dest: position_SomeD)

text \<open>\<open>Iterator::rposition\<close>: the index of the last such element.\<close>

fun rposition :: "('a \<Rightarrow> bool) \<Rightarrow> 'a list \<Rightarrow> nat option" where
  "rposition P [] = None"
| "rposition P (x # xs) =
     (case rposition P xs of Some i \<Rightarrow> Some (Suc i) | None \<Rightarrow> if P x then Some 0 else None)"

lemma rposition_None_iff: "rposition P xs = None \<longleftrightarrow> (\<forall>x\<in>set xs. \<not> P x)"
  by (induction xs) (auto split: option.splits)

lemma rposition_SomeD:
  "rposition P xs = Some i \<Longrightarrow>
     i < length xs \<and> P (xs ! i) \<and> (\<forall>j. i < j \<longrightarrow> j < length xs \<longrightarrow> \<not> P (xs ! j))"
proof (induction xs arbitrary: i)
  case Nil
  then show ?case by simp
next
  case (Cons x xs)
  show ?case
  proof (cases "rposition P xs")
    case None
    with Cons.prems have "P x" "i = 0" by (auto split: if_splits)
    moreover from None have "\<forall>y\<in>set xs. \<not> P y" by (simp add: rposition_None_iff)
    ultimately show ?thesis by (auto simp: nth_Cons split: nat.splits)
  next
    case (Some k)
    with Cons.prems have "i = Suc k" by simp
    with Cons.IH [OF Some] show ?thesis
      by (auto simp: nth_Cons split: nat.splits)
  qed
qed

text \<open>\<open>Iterator::min_by_key\<close>: the first element whose key is least.\<close>

fun min_by_key :: "('a \<Rightarrow> 'k :: linorder) \<Rightarrow> 'a list \<Rightarrow> 'a option" where
  "min_by_key f [] = None"
| "min_by_key f (x # xs) =
     (case min_by_key f xs of None \<Rightarrow> Some x | Some y \<Rightarrow> if f x \<le> f y then Some x else Some y)"

lemma min_by_key_None_iff [simp]: "min_by_key f xs = None \<longleftrightarrow> xs = []"
  by (cases xs) (auto split: option.splits)

lemma min_by_key_SomeD:
  "min_by_key f xs = Some x \<Longrightarrow> x \<in> set xs \<and> (\<forall>y\<in>set xs. f x \<le> f y)"
  by (induction xs arbitrary: x) (fastforce split: option.splits if_splits)+

text \<open>\<open>Vec::swap\<close> and \<open>Vec::remove\<close> on indices the callers keep in range.\<close>

definition swap_at :: "nat \<Rightarrow> nat \<Rightarrow> 'a list \<Rightarrow> 'a list" where
  "swap_at i j xs = xs[i := xs ! j, j := xs ! i]"

lemma length_swap_at [simp]: "length (swap_at i j xs) = length xs"
  by (simp add: swap_at_def)

lemma mset_swap_at [simp]:
  "i < length xs \<Longrightarrow> j < length xs \<Longrightarrow> mset (swap_at i j xs) = mset xs"
  by (simp add: swap_at_def mset_swap)

lemma set_swap_at [simp]:
  "i < length xs \<Longrightarrow> j < length xs \<Longrightarrow> set (swap_at i j xs) = set xs"
  using mset_swap_at [of i xs j] by (metis set_mset_mset)

lemma swap_at_swap_at:
  "i < length xs \<Longrightarrow> j < length xs \<Longrightarrow> swap_at i j (swap_at i j xs) = xs"
  by (rule nth_equalityI) (auto simp: swap_at_def nth_list_update)

definition remove_at :: "nat \<Rightarrow> 'a list \<Rightarrow> 'a list" where
  "remove_at i xs = take i xs @ drop (Suc i) xs"

lemma length_remove_at: "i < length xs \<Longrightarrow> length (remove_at i xs) = length xs - 1"
  by (simp add: remove_at_def)

lemma mset_remove_at: "i < length xs \<Longrightarrow> add_mset (xs ! i) (mset (remove_at i xs)) = mset xs"
proof -
  assume i: "i < length xs"
  have "mset xs = mset (take i xs @ xs ! i # drop (Suc i) xs)"
    using i by (simp add: id_take_nth_drop [symmetric])
  then show ?thesis by (simp add: remove_at_def)
qed

text \<open>The last \<open>n\<close> elements: what is left after \<open>drain(..len - n)\<close>.\<close>

definition keep_last :: "nat \<Rightarrow> 'a list \<Rightarrow> 'a list" where
  "keep_last n xs = drop (length xs - n) xs"

lemma length_keep_last [simp]: "length (keep_last n xs) = min n (length xs)"
  by (simp add: keep_last_def)

lemma set_keep_last: "set (keep_last n xs) \<subseteq> set xs"
  by (simp add: keep_last_def set_drop_subset)

lemma rev_keep_last: "rev (keep_last n xs) = take n (rev xs)"
  by (cases "n \<le> length xs") (simp_all add: keep_last_def rev_drop)

lemma keep_last_all: "length xs \<le> n \<Longrightarrow> keep_last n xs = xs"
  by (simp add: keep_last_def)

lemma sum_list_take_le: "sum_list (take n xs) \<le> sum_list (xs :: nat list)"
  by (metis append_take_drop_id le_add1 sum_list_append)

lemma sum_list_take_mono: "m \<le> n \<Longrightarrow> sum_list (take m xs) \<le> sum_list (take n (xs :: nat list))"
  using sum_list_take_le [of m "take n xs"] by (simp add: min_absorb1)

lemma distinct_subset_length: "distinct xs \<Longrightarrow> set xs \<subseteq> set ys \<Longrightarrow> length xs \<le> length ys"
  by (metis card_length card_mono distinct_card finite_set le_trans)

section \<open>Ordered maps\<close>

text \<open>
  The contract the clients of an ordered map rely on: a lookup after an insertion, and
  an invariant every operation keeps.
\<close>

locale ordered_store =
  fixes ok :: "'m \<Rightarrow> bool"
    and none :: "'m"
    and get :: "'m \<Rightarrow> 'k \<Rightarrow> 'v option"
    and put :: "'k \<Rightarrow> 'v \<Rightarrow> 'm \<Rightarrow> 'm"
  assumes ok_none: "ok none"
    and get_none: "get none k = None"
    and ok_put: "ok m \<Longrightarrow> ok (put k v m)"
    and get_put: "ok m \<Longrightarrow> get (put k v m) k' = (if k' = k then Some v else get m k')"
begin

text \<open>Loading a list of pairs, as a \<open>collect()\<close> into the map does: the last pair wins.\<close>

definition puts :: "('k \<times> 'v) list \<Rightarrow> 'm \<Rightarrow> 'm" where
  "puts kvs m = fold (\<lambda>(k, v). put k v) kvs m"

lemma ok_puts: "ok m \<Longrightarrow> ok (puts kvs m)"
  by (induction kvs arbitrary: m) (auto simp: puts_def ok_put)

lemma get_puts: "ok m \<Longrightarrow> get (puts kvs m) k = (case map_of (rev kvs) k of Some v \<Rightarrow> Some v | None \<Rightarrow> get m k)"
proof (induction kvs arbitrary: m)
  case Nil
  then show ?case by (simp add: puts_def)
next
  case (Cons kv kvs)
  obtain a b where ab: "kv = (a, b)" by (cases kv)
  have "get (puts (kv # kvs) m) k = get (puts kvs (put a b m)) k"
    by (simp add: puts_def ab)
  also have "\<dots> = (case map_of (rev kvs) k of Some v \<Rightarrow> Some v | None \<Rightarrow> get (put a b m) k)"
    by (rule Cons.IH) (simp add: Cons.prems ok_put)
  finally show ?case
    by (auto simp: ab get_put Cons.prems map_add_def split: option.splits)
qed

lemma get_puts_distinct:
  assumes "distinct (map fst kvs)" and "(k, v) \<in> set kvs"
  shows "get (puts kvs none) k = Some v"
proof -
  have "map_of (rev kvs) k = Some v"
    using assms by (simp add: map_of_eq_Some_iff rev_map [symmetric])
  then show ?thesis by (simp add: get_puts ok_none)
qed

end

text \<open>The implementation: a strictly sorted association list.\<close>

type_synonym ('k, 'v) btree = "('k \<times> 'v) list"

definition bt_ok :: "('k::linorder, 'v) btree \<Rightarrow> bool" where
  "bt_ok m \<longleftrightarrow> sorted_wrt (<) (map fst m)"

fun bt_insert :: "'k::linorder \<Rightarrow> 'v \<Rightarrow> ('k, 'v) btree \<Rightarrow> ('k, 'v) btree" where
  "bt_insert k v [] = [(k, v)]"
| "bt_insert k v ((a, b) # m) =
     (if k < a then (k, v) # (a, b) # m
      else if k = a then (k, v) # m
      else (a, b) # bt_insert k v m)"

abbreviation bt_get :: "('k, 'v) btree \<Rightarrow> 'k \<Rightarrow> 'v option" where
  "bt_get \<equiv> map_of"

lemma bt_ok_Nil [simp, intro]: "bt_ok []"
  by (simp add: bt_ok_def)

lemma keys_bt_insert [store_simps]: "fst ` set (bt_insert k v m) = insert k (fst ` set m)"
  by (induction k v m rule: bt_insert.induct) auto

lemma set_bt_insert_subset: "set (bt_insert k v m) \<subseteq> insert (k, v) (set m)"
  by (induction k v m rule: bt_insert.induct) auto

lemma bt_ok_insert [simp, store_simps]: "bt_ok m \<Longrightarrow> bt_ok (bt_insert k v m)"
proof (induction k v m rule: bt_insert.induct)
  case (1 k v)
  then show ?case by (simp add: bt_ok_def)
next
  case (2 k v a b m)
  have "\<forall>x\<in>fst ` set m. a < x" using "2.prems" by (auto simp: bt_ok_def)
  then show ?case
    using "2" keys_bt_insert [of k v m]
    by (auto simp: bt_ok_def simp del: set_map) (auto dest: less_trans)
qed

lemma bt_get_insert [simp, store_simps]:
  "bt_get (bt_insert k v m) k' = (if k' = k then Some v else bt_get m k')"
  by (induction k v m rule: bt_insert.induct) auto

lemma bt_ok_distinct: "bt_ok m \<Longrightarrow> distinct (map fst m)"
  by (simp add: bt_ok_def strict_sorted_iff)

lemma bt_ok_filter [simp]: "bt_ok m \<Longrightarrow> bt_ok (filter P m)"
  by (induction m) (auto simp: bt_ok_def)

lemma bt_ok_map_snd [simp]: "bt_ok (map (\<lambda>(k, v). (k, f k v)) m) \<longleftrightarrow> bt_ok m"
  by (simp add: bt_ok_def case_prod_beta comp_def cong: map_cong)

lemma bt_get_filter:
  "bt_ok m \<Longrightarrow> bt_get (filter P m) k = (case bt_get m k of None \<Rightarrow> None | Some v \<Rightarrow> if P (k, v) then Some v else None)"
  by (induction m) (auto simp: bt_ok_def split: option.splits dest!: map_of_SomeD)

lemma bt_get_map_snd: "bt_get (map (\<lambda>(k, v). (k, f k v)) m) k = map_option (f k) (bt_get m k)"
  by (induction m) auto

interpretation bt: ordered_store bt_ok "[]" bt_get bt_insert
  by unfold_locales simp_all

text \<open>\<open>HashMap<String, Duration>\<close> values are only summed and counted, so their order is immaterial.\<close>

definition mean_duration :: "('k, duration) btree \<Rightarrow> duration" where
  "mean_duration m = (if m = [] then 0 else sum_list (map snd m) div length m)"

lemma mean_duration_bounds:
  assumes "m \<noteq> []"
  shows "Min (snd ` set m) \<le> mean_duration m \<and> mean_duration m \<le> Max (snd ` set m)"
proof -
  have len: "0 < length m" using assms by simp
  have lo: "length m * Min (snd ` set m) \<le> sum_list (map snd m)"
    using sum_list_mono [of m "\<lambda>_. Min (snd ` set m)" snd]
    by (simp add: sum_list_triv)
  have hi: "sum_list (map snd m) \<le> length m * Max (snd ` set m)"
    using sum_list_mono [of m snd "\<lambda>_. Max (snd ` set m)"]
    by (simp add: sum_list_triv)
  have "Min (snd ` set m) \<le> sum_list (map snd m) div length m"
    using lo len by (simp add: less_eq_div_iff_mult_less_eq mult.commute)
  moreover have "sum_list (map snd m) div length m \<le> Max (snd ` set m)"
    using div_le_mono [OF hi, of "length m"] len by simp
  ultimately show ?thesis using assms by (simp add: mean_duration_def)
qed

end
