(* ===== verification/Strings.thy ===== *)
theory Strings
  imports Prelude
begin

text \<open>
  The string operations of the Rust standard library that the configuration parsers use:
  \<open>trim\<close>, \<open>split\<close>, \<open>split_once\<close>, \<open>join\<close>, integer parsing, and the quoting of \<open>{:?}\<close>; and
  the facts behind every parse/print round trip.
\<close>

named_theorems parse_simps \<open>parsing what was printed\<close>

definition is_space :: "char \<Rightarrow> bool" where
  "is_space c \<longleftrightarrow> of_char c \<in> {9, 10, 11, 12, 13, 32 :: nat}"

definition trim :: "string \<Rightarrow> string" where
  "trim s = rev (dropWhile is_space (rev (dropWhile is_space s)))"

definition trimmed :: "string \<Rightarrow> bool" where
  "trimmed s \<longleftrightarrow> s = [] \<or> (\<not> is_space (hd s) \<and> \<not> is_space (last s))"

fun split_on :: "char \<Rightarrow> string \<Rightarrow> string list" where
  "split_on c [] = [[]]"
| "split_on c (x # xs) =
     (if x = c then [] # split_on c xs
      else case split_on c xs of [] \<Rightarrow> [[x]] | y # ys \<Rightarrow> (x # y) # ys)"

definition split_once :: "char \<Rightarrow> string \<Rightarrow> (string \<times> string) option" where
  "split_once c s =
     (if c \<in> set s then Some (takeWhile (\<lambda>x. x \<noteq> c) s, tl (dropWhile (\<lambda>x. x \<noteq> c) s)) else None)"

fun join :: "string \<Rightarrow> string list \<Rightarrow> string" where
  "join sep [] = []"
| "join sep [x] = x"
| "join sep (x # y # xs) = x @ sep @ join sep (y # xs)"

definition is_digit :: "char \<Rightarrow> bool" where
  "is_digit c \<longleftrightarrow> 48 \<le> (of_char c :: nat) \<and> (of_char c :: nat) \<le> 57"

definition digit_val :: "char \<Rightarrow> nat" where
  "digit_val c = of_char c - 48"

definition digits_value :: "string \<Rightarrow> nat" where
  "digits_value s = foldl (\<lambda>acc c. acc * 10 + digit_val c) 0 s"

text \<open>\<open>str::parse\<close> to an unsigned integer of maximum \<open>hi\<close>: an optional plus, then digits only.\<close>

definition parse_uint :: "nat \<Rightarrow> string \<Rightarrow> nat option" where
  "parse_uint hi s =
     (let ds = (case s of c # cs \<Rightarrow> if c = CHR ''+'' then cs else s | [] \<Rightarrow> s) in
      if ds \<noteq> [] \<and> list_all is_digit ds \<and> digits_value ds \<le> hi then Some (digits_value ds) else None)"

definition i64_max :: nat where "i64_max = 9223372036854775807"

definition parse_i64 :: "string \<Rightarrow> int option" where
  "parse_i64 s =
     (case s of
        c # cs \<Rightarrow>
          if c = CHR ''-''
          then (if cs \<noteq> [] \<and> list_all is_digit cs \<and> digits_value cs \<le> i64_max + 1
                then Some (- int (digits_value cs)) else None)
          else map_option int (parse_uint i64_max s)
      | [] \<Rightarrow> None)"

text \<open>\<open>{:?}\<close> of a string, for the characters an author can type.\<close>

definition debug_char :: "char \<Rightarrow> string" where
  "debug_char c =
     (if c = CHR 0x22 then [CHR 0x5C, CHR 0x22]
      else if c = CHR 0x5C then [CHR 0x5C, CHR 0x5C]
      else if c = CHR 0x0A then [CHR 0x5C, CHR ''n'']
      else if c = CHR 0x09 then [CHR 0x5C, CHR ''t'']
      else if c = CHR 0x0D then [CHR 0x5C, CHR ''r'']
      else [c])"

definition debug_str :: "string \<Rightarrow> string" where
  "debug_str s = [CHR 0x22] @ concat (map debug_char s) @ [CHR 0x22]"

text \<open>\<open>chars().count()\<close>: the bytes of a UTF-8 string that do not continue a character.\<close>

definition char_count :: "string \<Rightarrow> nat" where
  "char_count s = length (filter (\<lambda>c. (of_char c :: nat) div 64 \<noteq> 2) s)"

text \<open>Two characters of the messages that need their code: an apostrophe and a UTF-8 dash.\<close>

definition apos :: string where "apos = [CHR 0x27]"
definition em_dash :: string where "em_dash = [CHR 0xE2, CHR 0x80, CHR 0x94]"

section \<open>Trimming\<close>

lemma trim_idle [parse_simps]: "trimmed s \<Longrightarrow> trim s = s"
proof (cases s)
  case Nil
  then show ?thesis by (simp add: trim_def)
next
  case (Cons x xs)
  assume t: "trimmed s"
  have "dropWhile is_space s = s" using t Cons by (simp add: trimmed_def)
  moreover have "dropWhile is_space (rev s) = rev s"
    using t Cons by (cases "rev s") (auto simp: trimmed_def last_rev hd_rev [symmetric])
  ultimately show ?thesis by (simp add: trim_def)
qed

lemma trimmed_trim [intro, simp]: "trimmed (trim s)"
proof -
  have hd: "dropWhile is_space xs \<noteq> [] \<Longrightarrow> \<not> is_space (hd (dropWhile is_space xs))" for xs
    by (rule hd_dropWhile)
  let ?l = "dropWhile is_space s"
  let ?r = "dropWhile is_space (rev ?l)"
  have "\<not> is_space (hd (trim s))" if "trim s \<noteq> []"
  proof -
    have r: "?r \<noteq> []" using that by (simp add: trim_def)
    obtain pre where pre: "rev ?l = pre @ ?r"
      by (metis takeWhile_dropWhile_id)
    then have "?l = rev ?r @ rev pre" by (metis rev_append rev_rev_ident)
    then have "hd ?l = hd (rev ?r)" using r by (metis hd_append2 rev_is_Nil_conv)
    moreover have "?l \<noteq> []" using r by (metis dropWhile.simps(1) rev.simps(1))
    ultimately show ?thesis using hd [of s] by (simp add: trim_def)
  qed
  moreover have "\<not> is_space (last (trim s))" if "trim s \<noteq> []"
    using that hd [of "rev ?l"] by (simp add: trim_def last_rev)
  ultimately show ?thesis by (auto simp: trimmed_def)
qed

lemma set_trim: "set (trim s) \<subseteq> set s"
proof -
  have dw: "set (dropWhile P xs) \<subseteq> set xs" for P :: "char \<Rightarrow> bool" and xs
    by (metis set_dropWhileD subsetI)
  show ?thesis using dw [of is_space "rev (dropWhile is_space s)"] dw [of is_space s]
    by (auto simp: trim_def)
qed

section \<open>Splitting\<close>

lemma split_on_nonempty [simp]: "split_on c s \<noteq> []"
  by (induction s) (auto split: list.splits)

lemma split_on_parts: "p \<in> set (split_on c s) \<Longrightarrow> c \<notin> set p \<and> set p \<subseteq> set s"
proof (induction s arbitrary: p)
  case Nil
  then show ?case by simp
next
  case (Cons x xs)
  obtain y ys where y: "split_on c xs = y # ys" by (cases "split_on c xs") simp_all
  show ?case
  proof (cases "x = c")
    case True
    then show ?thesis using Cons.prems Cons.IH [of p] by auto
  next
    case False
    then have "p = x # y \<or> p \<in> set ys" using Cons.prems y by auto
    then show ?thesis using False Cons.IH [of p] Cons.IH [of y] y by auto
  qed
qed

lemma split_on_free: "c \<notin> set s \<Longrightarrow> split_on c s = [s]"
  by (induction s) auto

lemma split_on_append: "c \<notin> set s \<Longrightarrow> split_on c (s @ c # t) = s # split_on c t"
  by (induction s) auto

lemma split_on_join [parse_simps]:
  "xs \<noteq> [] \<Longrightarrow> \<forall>x\<in>set xs. c \<notin> set x \<Longrightarrow> split_on c (join [c] xs) = xs"
  by (induction "[c]" xs rule: join.induct) (simp_all add: split_on_free split_on_append)

lemma split_once_append [parse_simps]: "c \<notin> set s \<Longrightarrow> split_once c (s @ c # t) = Some (s, t)"
  by (induction s) (auto simp: split_once_def)

lemma split_once_free: "c \<notin> set s \<Longrightarrow> split_once c s = None"
  by (simp add: split_once_def)

lemma split_once_SomeD: "split_once c s = Some (a, b) \<Longrightarrow> c \<notin> set a \<and> s = a @ c # b"
proof -
  assume "split_once c s = Some (a, b)"
  then have c: "c \<in> set s" and a: "a = takeWhile (\<lambda>x. x \<noteq> c) s" and b: "b = tl (dropWhile (\<lambda>x. x \<noteq> c) s)"
    by (auto simp: split_once_def split: if_splits)
  have ne: "dropWhile (\<lambda>x. x \<noteq> c) s \<noteq> []" using c by (auto simp: dropWhile_eq_Nil_conv)
  then have "hd (dropWhile (\<lambda>x. x \<noteq> c) s) = c" using hd_dropWhile [OF ne] by simp
  then have "dropWhile (\<lambda>x. x \<noteq> c) s = c # b" using ne b by (metis list.collapse)
  then have "s = a @ c # b" using a by (metis takeWhile_dropWhile_id)
  moreover have "c \<notin> set a" using a by (auto dest: set_takeWhileD)
  ultimately show ?thesis by simp
qed

section \<open>Numbers\<close>

lemma digit_char_code: "n < 10 \<Longrightarrow> (of_char (digit_char n) :: nat) = 48 + n"
  by (simp add: digit_char_def)

lemma dec_nonempty [simp]: "dec n \<noteq> []"
  by (subst dec.simps) simp

lemma dec_digits [simp]: "list_all is_digit (dec n)"
proof (induction n rule: dec.induct)
  case (1 n)
  show ?case
    by (subst dec.simps) (auto simp: "1.IH" is_digit_def digit_char_code)
qed

lemma digits_value_snoc: "digits_value (s @ [c]) = digits_value s * 10 + digit_val c"
  by (simp add: digits_value_def)

lemma digits_value_dec [simp, parse_simps]: "digits_value (dec n) = n"
proof (induction n rule: dec.induct)
  case (1 n)
  show ?case
  proof (cases "n < 10")
    case True
    then show ?thesis
      by (subst dec.simps) (simp add: digits_value_def digit_val_def digit_char_code)
  next
    case False
    then show ?thesis
      by (subst dec.simps) (simp add: digits_value_snoc "1.IH" digit_val_def digit_char_code)
  qed
qed

lemma digit_not: "is_digit c \<Longrightarrow> c \<noteq> CHR ''-'' \<and> c \<noteq> CHR ''+'' \<and> c \<noteq> CHR '':'' \<and> \<not> is_space c"
  by (auto simp: is_digit_def is_space_def)

lemma dec_chars: "c \<in> set (dec n) \<Longrightarrow> is_digit c"
  using dec_digits [of n] by (simp add: list_all_iff)

lemma dec_free [simp]: "CHR ''-'' \<notin> set (dec n)" "CHR ''+'' \<notin> set (dec n)" "CHR '':'' \<notin> set (dec n)"
  using dec_chars digit_not by blast+

lemma dec_trimmed [simp]: "trimmed (dec n)"
  using dec_chars [of "hd (dec n)" n] dec_chars [of "last (dec n)" n] digit_not
  by (auto simp: trimmed_def)

lemma parse_uint_dec [parse_simps]: "n \<le> hi \<Longrightarrow> parse_uint hi (dec n) = Some n"
  by (cases "dec n") (use dec_free(2) [of n] dec_digits [of n] digits_value_dec [of n] in
      \<open>auto simp: parse_uint_def Let_def\<close>)

lemma parse_i64_dec [parse_simps]: "n \<le> i64_max \<Longrightarrow> parse_i64 (dec n) = Some (int n)"
  using dec_free(1) [of n] parse_uint_dec [of n i64_max]
  by (cases "dec n") (auto simp: parse_i64_def)

lemma parse_i64_bound: "parse_i64 s = Some i \<Longrightarrow> i \<le> int i64_max"
  by (auto simp: parse_i64_def parse_uint_def Let_def split: list.splits if_splits)

end
