(* ===== verification/Mixer.thy ===== *)
theory Mixer
  imports Prelude Complex_Main "HOL-Library.Log_Nat"
begin

text \<open>
  The station's deterministic dice: the SplitMix64 step shared by \<open>pattern.rs\<close> and
  \<open>catalog/order.rs\<close>, seed mixing, FNV-1a, the keyed roll of a pattern visit, and the two
  Fisher-Yates shuffles (the catalog's, driven by a running state, and the rotation's,
  driven by a key per index) over one interface. The mixer is proved injective, so
  different coordinates never share a roll by accident of the mixing.

  A finite \<open>f64\<close> is modelled by the rational it stands for and every inexact operation by
  an explicit rounding to 53 significant bits, ties to even. Infinities and NaN do not
  occur: the configuration loader refuses non-finite numbers.
\<close>

section \<open>Binary64 arithmetic\<close>

type_synonym f64 = rat

definition two_pow :: "int \<Rightarrow> rat" where
  "two_pow k = (if 0 \<le> k then 2 ^ nat k else 1 / 2 ^ nat (- k))"

text \<open>The exponent \<open>e\<close> with \<open>2^e \<le> |x| < 2^(e+1)\<close>, read off numerator and denominator.\<close>

definition f64_exponent :: "rat \<Rightarrow> int" where
  "f64_exponent x =
     (let (n, d) = quotient_of \<bar>x\<bar>;
          e = int (floorlog 2 (nat n)) - int (floorlog 2 (nat d))
      in if two_pow e \<le> \<bar>x\<bar> then e else e - 1)"

definition round_half_even :: "rat \<Rightarrow> int" where
  "round_half_even q =
     (let f = \<lfloor>q\<rfloor>; r = q - of_int f in
      if r < 1 / 2 then f
      else if r > 1 / 2 then f + 1
      else if even f then f else f + 1)"

definition f64_round :: "rat \<Rightarrow> f64" where
  "f64_round x =
     (if x = 0 then 0
      else let quantum = two_pow (max (f64_exponent x - 52) (- 1074))
           in of_int (round_half_even (x / quantum)) * quantum)"

definition f64_add :: "f64 \<Rightarrow> f64 \<Rightarrow> f64" where "f64_add a b = f64_round (a + b)"
definition f64_sub :: "f64 \<Rightarrow> f64 \<Rightarrow> f64" where "f64_sub a b = f64_round (a - b)"
definition f64_mul :: "f64 \<Rightarrow> f64 \<Rightarrow> f64" where "f64_mul a b = f64_round (a * b)"

lemma two_pow_pos [simp]: "0 < two_pow k"
  by (simp add: two_pow_def)

lemma round_half_even_nonneg: "0 \<le> q \<Longrightarrow> 0 \<le> round_half_even q"
  by (auto simp: round_half_even_def Let_def)

lemma round_half_even_close: "\<bar>of_int (round_half_even q) - q\<bar> \<le> 1 / 2"
proof -
  have "of_int \<lfloor>q\<rfloor> \<le> q" "q < of_int \<lfloor>q\<rfloor> + 1" by linarith+
  then show ?thesis by (auto simp: round_half_even_def Let_def abs_le_iff)
qed

lemma f64_round_0 [simp]: "f64_round 0 = 0"
  by (simp add: f64_round_def)

lemma f64_round_nonneg: "0 \<le> x \<Longrightarrow> 0 \<le> f64_round x"
  by (simp add: f64_round_def Let_def round_half_even_nonneg less_imp_le)

section \<open>SplitMix64\<close>

definition golden :: u64 where "golden = 0x9E3779B97F4A7C15"
definition mul1 :: u64 where "mul1 = 0xBF58476D1CE4E5B9"
definition mul2 :: u64 where "mul2 = 0x94D049BB133111EB"
definition mul3 :: u64 where "mul3 = 0xD6E8FEB86659FD93"

text \<open>The output mixing of one step, and the step itself: the new state and the output.\<close>

definition finish_mix :: "u64 \<Rightarrow> u64" where
  "finish_mix s =
     (let z = (s XOR drop_bit 30 s) * mul1;
          z = (z XOR drop_bit 27 z) * mul2
      in z XOR drop_bit 31 z)"

definition splitmix64 :: "u64 \<Rightarrow> u64 \<times> u64" where
  "splitmix64 state = (let s = state + golden in (s, finish_mix s))"

definition next_u64 :: "u64 \<Rightarrow> u64 \<times> u64" where
  "next_u64 state =
     (let s = state + golden;
          z = (s XOR drop_bit 30 s) * mul1;
          z = (z XOR drop_bit 27 z) * mul2
      in (s, z XOR drop_bit 31 z))"

definition mix_seed :: "u64 \<Rightarrow> u64 \<Rightarrow> u64" where
  "mix_seed a b = snd (splitmix64 (a * golden + b * mul1))"

text \<open>A visit's keyed roll over \<open>(seed, cycle, step, nonce)\<close>.\<close>

record roll_key =
  rk_seed :: u64
  rk_cycle :: u64
  rk_step :: u64

definition u64_at :: "roll_key \<Rightarrow> u64 \<Rightarrow> u64" where
  "u64_at k nonce =
     snd (splitmix64 (rk_seed k * golden + rk_cycle k * mul1 + rk_step k * mul2 + nonce * mul3))"

text \<open>
  The top 53 bits over \<open>2^53\<close>: both the conversion and the division are exact in
  binary64, so no rounding applies.
\<close>

definition unit_of :: "u64 \<Rightarrow> f64" where
  "unit_of x = of_nat (unat (drop_bit 11 x)) / 2 ^ 53"

definition unit_at :: "roll_key \<Rightarrow> u64 \<Rightarrow> f64" where
  "unit_at k nonce = unit_of (u64_at k nonce)"

definition fnv_offset :: u64 where "fnv_offset = 0xcbf29ce484222325"
definition fnv_prime :: u64 where "fnv_prime = 0x00000100000001b3"

definition fnv1a_64 :: "string \<Rightarrow> u64" where
  "fnv1a_64 s = fold (\<lambda>byte hash. (hash XOR of_char byte) * fnv_prime) s fnv_offset"

definition rotation_fnv1a :: "string \<Rightarrow> u64" where
  "rotation_fnv1a s = foldl (\<lambda>h b. (h XOR of_char b) * 0x0100000001b3) 0xcbf29ce484222325 s"

lemma rotation_fnv1a_eq: "rotation_fnv1a s = fnv1a_64 s"
  by (simp add: rotation_fnv1a_def fnv1a_64_def foldl_conv_fold fnv_offset_def fnv_prime_def)

lemma next_u64_eq: "next_u64 s = splitmix64 s"
  by (simp add: next_u64_def splitmix64_def finish_mix_def Let_def)

subsection \<open>The mixer is injective\<close>

lemma xorshift_inj:
  assumes "32 \<le> 2 * k" and "(x :: u64) XOR drop_bit k x = y XOR drop_bit k y"
  shows "x = y"
proof -
  have "x XOR y = (x XOR drop_bit k x) XOR drop_bit k x XOR y"
    by (simp add: xor.assoc)
  also have "\<dots> = (y XOR drop_bit k y) XOR drop_bit k x XOR y"
    by (simp only: assms(2))
  also have "\<dots> = drop_bit k (x XOR y)"
    by (simp add: ac_simps)
  finally have z: "x XOR y = drop_bit k (x XOR y)" .
  have e: "unat (drop_bit k w) = unat w div 2 ^ k" for w :: u64
    using unsigned_less [of w, where ?'a = nat]
    by (simp add: unsigned_drop_bit_eq drop_bit_eq_div [where 'a = nat] take_bit_nat_eq_self)
  have "unat (x XOR y) div 2 ^ k = unat (x XOR y)"
    using arg_cong [OF z, of unat] unfolding e by (rule sym)
  moreover have "1 < (2 :: nat) ^ k" using assms(1) by (intro one_less_power) simp_all
  ultimately have "unat (x XOR y) = 0"
    using div_less_dividend [of "2 ^ k" "unat (x XOR y)"] by (metis gr0I less_irrefl)
  then have zero: "x XOR y = 0" by (simp only: unat_eq_0)
  have "x = (x XOR y) XOR y" by (simp add: xor.assoc)
  then show ?thesis by (simp add: zero)
qed

lemma mult_inj_word:
  assumes "c * ci = (1 :: u64)" and "x * c = y * c"
  shows "x = y"
proof -
  have "x * (c * ci) = y * (c * ci)"
    unfolding mult.assoc [symmetric] assms(2) by (rule refl)
  then show ?thesis unfolding assms(1) mult_1_right .
qed

lemma mul1_inverse: "mul1 * 0x96DE1B173F119089 = 1" by (simp add: mul1_def)
lemma mul2_inverse: "mul2 * 0x319642B2D24D8EC3 = 1" by (simp add: mul2_def)
lemma mul3_inverse: "mul3 * 0xCFEE444D8B59A89B = 1" by (simp add: mul3_def)
lemma golden_inverse: "golden * 0xF1DE83E19937733D = 1" by (simp add: golden_def)

lemma finish_mix_inj: "finish_mix x = finish_mix y \<Longrightarrow> x = y"
  unfolding finish_mix_def Let_def
  by (rule xorshift_inj [where k = 30], simp, rule mult_inj_word [OF mul1_inverse],
      rule xorshift_inj [where k = 27], simp, rule mult_inj_word [OF mul2_inverse],
      rule xorshift_inj [where k = 31], simp, assumption)

lemma splitmix64_inj: "snd (splitmix64 x) = snd (splitmix64 y) \<Longrightarrow> x = y"
  by (auto simp: splitmix64_def Let_def dest: finish_mix_inj)

lemma mix_seed_inj_right: "mix_seed a b = mix_seed a b' \<Longrightarrow> b = b'"
  unfolding mix_seed_def
  by (drule splitmix64_inj) (simp add: mult_inj_word [OF mul1_inverse])

lemma mix_seed_inj_left: "mix_seed a b = mix_seed a' b \<Longrightarrow> a = a'"
  unfolding mix_seed_def
  by (drule splitmix64_inj) (simp add: mult_inj_word [OF golden_inverse])

text \<open>
  A roll is never shared by accident: with the other coordinates fixed, two
  visits that differ in the cycle only, in the step only, or two decisions of one visit
  that differ in the nonce only, roll different 64-bit values.
\<close>

theorem roll_coordinates_distinct:
  "(u64_at (k\<lparr>rk_cycle := c\<rparr>) n = u64_at (k\<lparr>rk_cycle := c'\<rparr>) n) = (c = c') \<and>
   (u64_at (k\<lparr>rk_step := t\<rparr>) n = u64_at (k\<lparr>rk_step := t'\<rparr>) n) = (t = t') \<and>
   (u64_at k n = u64_at k n') = (n = n')"
proof -
  have lin: "snd (splitmix64 (a + x * m + b)) = snd (splitmix64 (a + y * m + b)) \<longleftrightarrow> x = y"
    if "m * mi = 1" for a b x y m mi :: u64
    using mult_inj_word [OF that] by (auto dest!: splitmix64_inj)
  have lin0: "snd (splitmix64 (a + x * m)) = snd (splitmix64 (a + y * m)) \<longleftrightarrow> x = y"
    if "m * mi = 1" for a x y m mi :: u64
    using lin [OF that, of a x 0 y] by simp
  show ?thesis
    unfolding u64_at_def
    by (simp add: lin [OF mul2_inverse] lin0 [OF mul3_inverse])
      (simp add: add.assoc lin [OF mul1_inverse, simplified add.assoc])
qed

lemma unit_of_range: "0 \<le> unit_of x \<and> unit_of x < 1"
proof -
  have "drop_bit 11 x = x div 2 ^ 11" by (simp add: drop_bit_eq_div)
  then have "unat (drop_bit 11 x) = unat x div 2 ^ 11" by (simp add: unat_div_distrib)
  also have "\<dots> < 2 ^ 53" using unsigned_less [of x, where ?'a = nat] by simp
  finally have "(of_nat (unat (drop_bit 11 x)) :: rat) < of_nat (2 ^ 53)"
    by (simp only: of_nat_less_iff)
  then have lt: "(of_nat (unat (drop_bit 11 x)) :: rat) < 2 ^ 53" by (simp only: of_nat_power of_nat_numeral)
  have "(0 :: rat) \<le> of_nat (unat (drop_bit 11 x))" by (rule of_nat_0_le_iff)
  with lt show ?thesis
    unfolding unit_of_def by (intro conjI divide_nonneg_pos) (simp_all only: divide_less_eq_1_pos zero_less_power zero_less_numeral)
qed

section \<open>Fisher-Yates\<close>

text \<open>
  \<open>for i in (1..n).rev()\<close>: the chooser gives the partner of position \<open>i\<close> and its next
  state; the caller starts at \<open>i = n - 1\<close>.
\<close>

fun fisher_yates :: "(nat \<Rightarrow> 's \<Rightarrow> nat \<times> 's) \<Rightarrow> nat \<Rightarrow> 's \<Rightarrow> 'a list \<Rightarrow> 'a list" where
  "fisher_yates partner 0 s xs = xs"
| "fisher_yates partner (Suc i) s xs =
     (let (j, s') = partner (Suc i) s in fisher_yates partner i s' (swap_at (Suc i) j xs))"

locale partner_chooser =
  fixes partner :: "nat \<Rightarrow> 's \<Rightarrow> nat \<times> 's"
  assumes partner_le: "fst (partner i s) \<le> i"
begin

lemma mset_fisher_yates:
  "i < length xs \<or> xs = [] \<and> i = 0 \<Longrightarrow> mset (fisher_yates partner i s xs) = mset xs"
proof (induction i arbitrary: s xs)
  case 0
  then show ?case by simp
next
  case (Suc i)
  obtain j s' where c: "partner (Suc i) s = (j, s')" by (cases "partner (Suc i) s")
  have "j \<le> Suc i" using partner_le [of "Suc i" s] c by simp
  then show ?case using Suc.prems by (simp add: c Suc.IH)
qed

text \<open>Positions above the start are never touched.\<close>

lemma nth_fisher_yates_above:
  "i < length xs \<Longrightarrow> i < p \<Longrightarrow> p < length xs \<Longrightarrow> fisher_yates partner i s xs ! p = xs ! p"
proof (induction i arbitrary: s xs)
  case (Suc i)
  obtain j s' where c: "partner (Suc i) s = (j, s')" by (cases "partner (Suc i) s")
  have "j \<le> Suc i" using partner_le [of "Suc i" s] c by simp
  then show ?case using Suc by (simp add: c swap_at_def)
qed simp

end

text \<open>
  \<open>(r % (i as u64 + 1)) as usize\<close> is the remainder of the natural number \<open>r\<close> stands for:
  \<open>i + 1\<close> is at most a list's length, far below \<open>2^64\<close>.
\<close>

definition stream_partner :: "nat \<Rightarrow> u64 \<Rightarrow> nat \<times> u64" where
  "stream_partner i state = (let (state', r) = next_u64 state in (unat r mod (i + 1), state'))"

definition seeded_shuffle :: "'a list \<Rightarrow> u64 \<Rightarrow> 'a list" where
  "seeded_shuffle ids seed = fisher_yates stream_partner (length ids - 1) seed ids"

definition keyed_partner :: "u64 \<Rightarrow> nat \<Rightarrow> unit \<Rightarrow> nat \<times> unit" where
  "keyed_partner seed i u = (unat (mix_seed seed (of_nat i)) mod (i + 1), ())"

definition keyed_shuffle :: "'a list \<Rightarrow> u64 \<Rightarrow> 'a list" where
  "keyed_shuffle order seed = fisher_yates (keyed_partner seed) (length order - 1) () order"

interpretation stream: partner_chooser stream_partner
  by unfold_locales (simp add: stream_partner_def case_prod_unfold Let_def less_Suc_eq_le [symmetric])

interpretation keyed: partner_chooser "keyed_partner seed" for seed
  by unfold_locales (simp add: keyed_partner_def less_Suc_eq_le [symmetric])

lemma mset_seeded_shuffle [simp]: "mset (seeded_shuffle ids seed) = mset ids"
  unfolding seeded_shuffle_def by (rule stream.mset_fisher_yates) (cases ids; simp)

lemma mset_keyed_shuffle [simp]: "mset (keyed_shuffle order seed) = mset order"
  unfolding keyed_shuffle_def by (rule keyed.mset_fisher_yates) (cases order; simp)

lemma set_keyed_shuffle [simp]: "set (keyed_shuffle order seed) = set order"
  using mset_keyed_shuffle by (metis set_mset_mset)

lemma length_keyed_shuffle [simp]: "length (keyed_shuffle order seed) = length order"
  using mset_keyed_shuffle by (metis size_mset)

text \<open>
  \<open>order: random\<close> only rearranges: the seeded shuffle of a pool's ids is a
  permutation of them for every seed, and so is the rotation's keyed shuffle.
\<close>

theorem shuffles_permute:
  "mset (seeded_shuffle ids seed) = mset ids \<and> mset (keyed_shuffle ids seed) = mset ids"
  by (simp add: mset_keyed_shuffle)

end
