(* ===== verification/Constrain.thy ===== *)
theory Constrain
  imports Prelude
begin

text \<open>
  The adjacency pass of \<open>constrain.rs\<close>: how far apart two items sit on the two axes
  (list positions and wall-clock time), when two items clash, the greedy ordering with
  its swap repair, and the recency window a pool keeps while it draws. The abstract
  specification is \<open>spaced\<close>: no two items of the list, and no item of the list with one
  already aired, clash at their true distance. The early exits of the code (it stops
  walking back once both axes are exhausted) are proved to lose nothing.
\<close>

section \<open>Items, gaps and limits\<close>

record item_keys =
  ik_id :: string
  ik_group :: "string list"
  ik_duration :: duration

definition item_keys_new :: "string \<Rightarrow> item_keys" where
  "item_keys_new i = \<lparr>ik_id = i, ik_group = [], ik_duration = 0\<rparr>"

definition shares_group_with :: "item_keys \<Rightarrow> item_keys \<Rightarrow> bool" where
  "shares_group_with a b \<longleftrightarrow>
     ik_group a \<noteq> [] \<and> ik_group b \<noteq> [] \<and>
     list_ex (\<lambda>v. List.member (ik_group b) v) (ik_group a)"

datatype repeat_gap = GapPositions nat | GapDuration duration

record reach =
  reach_positions :: nat
  reach_duration :: duration

definition reach_default :: reach where
  "reach_default = \<lparr>reach_positions = 0, reach_duration = 0\<rparr>"

definition reach_is_unconstrained :: "reach \<Rightarrow> bool" where
  "reach_is_unconstrained r \<longleftrightarrow> reach_positions r = 0 \<and> reach_duration r = 0"

definition reach_widen :: "reach \<Rightarrow> reach \<Rightarrow> reach" where
  "reach_widen a b =
     \<lparr>reach_positions = max (reach_positions a) (reach_positions b),
      reach_duration = max (reach_duration a) (reach_duration b)\<rparr>"

record limits =
  lim_no_repeat :: repeat_gap
  lim_separate :: nat

definition limits_default :: limits where
  "limits_default = \<lparr>lim_no_repeat = GapPositions 0, lim_separate = 0\<rparr>"

definition limits_reach :: "limits \<Rightarrow> reach" where
  "limits_reach l =
     (let (no_repeat_positions, no_repeat_duration) =
            (case lim_no_repeat l of GapPositions n \<Rightarrow> (n, 0) | GapDuration d \<Rightarrow> (0, d))
      in \<lparr>reach_positions = max no_repeat_positions (lim_separate l),
          reach_duration = no_repeat_duration\<rparr>)"

definition limits_is_unconstrained :: "limits \<Rightarrow> bool" where
  "limits_is_unconstrained l \<longleftrightarrow> reach_is_unconstrained (limits_reach l)"

record ordering =
  ord_order :: "nat list"
  ord_unresolved :: nat

section \<open>Distances and clashes\<close>

record distance =
  d_positions :: nat
  d_elapsed :: duration

definition axes_exhausted :: "nat \<Rightarrow> duration \<Rightarrow> reach \<Rightarrow> bool" where
  "axes_exhausted positions elapsed bound \<longleftrightarrow>
     positions > reach_positions bound \<and>
     (reach_duration bound = 0 \<or> elapsed > reach_duration bound)"

fun gap_conflict :: "repeat_gap \<Rightarrow> distance \<Rightarrow> bool" where
  "gap_conflict (GapPositions n) d = (n > 0 \<and> d_positions d \<le> n)"
| "gap_conflict (GapDuration within) d = (within \<noteq> 0 \<and> d_elapsed d \<le> within)"

definition conflict :: "item_keys \<Rightarrow> item_keys \<Rightarrow> limits \<Rightarrow> limits \<Rightarrow> distance \<Rightarrow> bool" where
  "conflict a b la lb d \<longleftrightarrow>
     (ik_id a = ik_id b \<and>
        (gap_conflict (lim_no_repeat la) d \<or> gap_conflict (lim_no_repeat lb) d)) \<or>
     (d_positions d \<le> max (lim_separate la) (lim_separate lb) \<and> shares_group_with a b)"

text \<open>
  The accumulator of every backward walk: \<open>positions += 1; elapsed += duration\<close> over
  the elements nearest first, each paired with its distance.
\<close>

fun distances :: "('a \<Rightarrow> duration) \<Rightarrow> nat \<Rightarrow> duration \<Rightarrow> 'a list \<Rightarrow> ('a \<times> distance) list" where
  "distances dur p e [] = []"
| "distances dur p e (x # xs) =
     (x, \<lparr>d_positions = Suc p, d_elapsed = e + dur x\<rparr>) # distances dur (Suc p) (e + dur x) xs"

abbreviation exhausted_at :: "reach \<Rightarrow> distance \<Rightarrow> bool" where
  "exhausted_at bound d \<equiv> axes_exhausted (d_positions d) (d_elapsed d) bound"

definition walk_back :: "item_keys list \<Rightarrow> reach \<Rightarrow> (item_keys \<times> distance) list" where
  "walk_back history bound =
     takeWhile (\<lambda>(x, d). \<not> exhausted_at bound d) (distances ik_duration 0 0 (rev history))"

definition history_needed :: "item_keys list \<Rightarrow> limits \<Rightarrow> nat" where
  "history_needed history l =
     (if limits_is_unconstrained l then 0 else length (walk_back history (limits_reach l)))"

definition conflicts_with_recent :: "item_keys list \<Rightarrow> item_keys \<Rightarrow> limits \<Rightarrow> bool" where
  "conflicts_with_recent recent cand l \<longleftrightarrow>
     \<not> limits_is_unconstrained l \<and>
     list_ex (\<lambda>(prev, d). conflict cand prev l limits_default d) (walk_back recent (limits_reach l))"

section \<open>The greedy pass\<close>

text \<open>
  The loop of \<open>violates\<close> over what this pass placed: \<open>Some\<close> of the value it returns
  early, \<open>None\<close> when it falls through to the seam.
\<close>

fun violates_placed ::
  "item_keys list \<Rightarrow> limits list \<Rightarrow> reach \<Rightarrow> nat \<Rightarrow> (nat \<times> distance) list \<Rightarrow> bool option" where
  "violates_placed items lims bound cand [] = None"
| "violates_placed items lims bound cand ((placed, d) # ds) =
     (if exhausted_at bound d then Some False
      else if conflict (items ! cand) (items ! placed) (lims ! cand) (lims ! placed) d
        then Some True
      else violates_placed items lims bound cand ds)"

definition violates ::
  "nat list \<Rightarrow> nat \<Rightarrow> item_keys list \<Rightarrow> limits list \<Rightarrow> reach \<Rightarrow> item_keys list \<Rightarrow> bool" where
  "violates out cand items lims bound preceding =
     (let dur = (\<lambda>i. ik_duration (items ! i));
          mine = lims ! cand in
      case violates_placed items lims bound cand (distances dur 0 0 (rev out)) of
        Some answer \<Rightarrow> answer
      | None \<Rightarrow>
          list_ex (\<lambda>(prev, d). conflict (items ! cand) prev mine limits_default d)
            (takeWhile (\<lambda>(prev, d). \<not> exhausted_at (limits_reach mine) d)
              (distances ik_duration (length out) (sum_list (map dur out)) (rev preceding))))"

function greedy ::
  "item_keys list \<Rightarrow> limits list \<Rightarrow> reach \<Rightarrow> item_keys list \<Rightarrow> nat list \<Rightarrow> nat list \<Rightarrow> nat list" where
  "greedy items lims bound preceding out pending =
     (if pending = [] then out
      else
        let pick = (case position (\<lambda>cand. \<not> violates out cand items lims bound preceding) pending of
                      Some i \<Rightarrow> i | None \<Rightarrow> 0)
        in greedy items lims bound preceding (out @ [pending ! pick]) (remove_at pick pending))"
  by pat_completeness auto
termination
proof (relation "measure (\<lambda>(items, lims, bound, preceding, out, pending). length pending)")
  fix items lims bound preceding out pending pick
  assume ne: "pending \<noteq> []"
    and pick: "pick = (case position (\<lambda>cand. \<not> violates out cand items lims bound preceding) pending of
                         Some i \<Rightarrow> i | None \<Rightarrow> 0)"
  have "pick < length pending"
    using ne by (auto simp: pick dest: position_Some_less split: option.splits)
  then show "((items, lims, bound, preceding, out @ [pending ! pick], remove_at pick pending),
      items, lims, bound, preceding, out, pending)
      \<in> measure (\<lambda>(items, lims, bound, preceding, out, pending). length pending)"
    using ne by (simp add: length_remove_at)
qed simp

declare greedy.simps [simp del]

section \<open>Counting violations and the swap repair\<close>

definition duration_prefix :: "nat list \<Rightarrow> item_keys list \<Rightarrow> duration list" where
  "duration_prefix order items =
     map (\<lambda>i. sum_list (map (\<lambda>idx. ik_duration (items ! idx)) (take i order))) [0..<Suc (length order)]"

text \<open>Position \<open>i\<close> against position \<open>i + d\<close>, with the elapsed time read off the prefix sums.\<close>

definition forward_distance :: "duration list \<Rightarrow> nat \<Rightarrow> nat \<Rightarrow> distance" where
  "forward_distance prefix i d = \<lparr>d_positions = d, d_elapsed = prefix ! (i + d) - prefix ! i\<rparr>"

definition forward_conflict ::
  "nat list \<Rightarrow> item_keys list \<Rightarrow> limits list \<Rightarrow> duration list \<Rightarrow> nat \<Rightarrow> nat \<Rightarrow> bool" where
  "forward_conflict order items lims prefix i d \<longleftrightarrow>
     conflict (items ! (order ! i)) (items ! (order ! (i + d))) (lims ! (order ! i))
       (lims ! (order ! (i + d))) (forward_distance prefix i d)"

definition seam_distances ::
  "duration list \<Rightarrow> item_keys list \<Rightarrow> nat \<Rightarrow> (item_keys \<times> distance) list" where
  "seam_distances prefix preceding i = distances ik_duration i (prefix ! i) (rev preceding)"

definition seam_conflict :: "nat list \<Rightarrow> item_keys list \<Rightarrow> limits list \<Rightarrow> nat \<Rightarrow> item_keys \<times> distance \<Rightarrow> bool" where
  "seam_conflict order items lims i pd =
     (case pd of (prev, d) \<Rightarrow>
       conflict (items ! (order ! i)) prev (lims ! (order ! i)) limits_default d)"

definition violation_count ::
  "nat list \<Rightarrow> item_keys list \<Rightarrow> limits list \<Rightarrow> reach \<Rightarrow> item_keys list \<Rightarrow> nat" where
  "violation_count order items lims bound preceding =
     (let n = length order; prefix = duration_prefix order items in
      sum_list (map (\<lambda>i.
        length (filter (forward_conflict order items lims prefix i)
          (takeWhile (\<lambda>d. \<not> exhausted_at bound (forward_distance prefix i d)) [1..<n - i])) +
        length (filter (seam_conflict order items lims i)
          (takeWhile (\<lambda>(prev, d). \<not> exhausted_at (limits_reach (lims ! (order ! i))) d)
            (seam_distances prefix preceding i))))
        [0..<n]))"

definition violating_positions ::
  "nat list \<Rightarrow> item_keys list \<Rightarrow> limits list \<Rightarrow> reach \<Rightarrow> item_keys list \<Rightarrow> nat list" where
  "violating_positions order items lims bound preceding =
     (let n = length order; prefix = duration_prefix order items in
      filter (\<lambda>i.
        list_ex (\<lambda>d. \<not> exhausted_at bound (forward_distance prefix i d) \<and>
                     forward_conflict order items lims prefix i d) [1..<n - i] \<or>
        list_ex (\<lambda>(prev, d). \<not> exhausted_at (limits_reach (lims ! (order ! i))) d \<and>
                     seam_conflict order items lims i (prev, d))
          (seam_distances prefix preceding i))
        [0..<n])"

definition max_repair_rounds :: nat where
  "max_repair_rounds = 10000"

text \<open>The first improving swap of a violating position with any other position.\<close>

definition improving_swap ::
  "nat list \<Rightarrow> item_keys list \<Rightarrow> limits list \<Rightarrow> reach \<Rightarrow> item_keys list \<Rightarrow> nat \<Rightarrow> (nat \<times> nat) option" where
  "improving_swap order items lims bound preceding best =
     find (\<lambda>(i, j). i \<noteq> j \<and> violation_count (swap_at i j order) items lims bound preceding < best)
       (List.product (violating_positions order items lims bound preceding) [0..<length order])"

fun repair_rounds ::
  "nat \<Rightarrow> nat list \<Rightarrow> item_keys list \<Rightarrow> limits list \<Rightarrow> reach \<Rightarrow> item_keys list \<Rightarrow> nat \<Rightarrow> nat list \<times> nat" where
  "repair_rounds 0 order items lims bound preceding best = (order, best)"
| "repair_rounds (Suc rounds) order items lims bound preceding best =
     (if best = 0 then (order, 0)
      else case improving_swap order items lims bound preceding best of
        None \<Rightarrow> (order, best)
      | Some (i, j) \<Rightarrow>
          repair_rounds rounds (swap_at i j order) items lims bound preceding
            (violation_count (swap_at i j order) items lims bound preceding))"

definition repair ::
  "nat list \<Rightarrow> item_keys list \<Rightarrow> limits list \<Rightarrow> reach \<Rightarrow> item_keys list \<Rightarrow> nat list \<times> nat" where
  "repair order items lims bound preceding =
     repair_rounds max_repair_rounds order items lims bound preceding
       (violation_count order items lims bound preceding)"

definition limits_bound :: "limits list \<Rightarrow> reach" where
  "limits_bound lims = fold (\<lambda>l b. reach_widen b (limits_reach l)) lims reach_default"

definition order_constrained ::
  "item_keys list \<Rightarrow> limits list \<Rightarrow> item_keys list \<Rightarrow> ordering" where
  "order_constrained items lims preceding =
     (let total = length items; bound = limits_bound lims in
      if reach_is_unconstrained bound \<or> total = 0
      then \<lparr>ord_order = [0..<total], ord_unresolved = 0\<rparr>
      else
        let (order, unresolved) =
              repair (greedy items lims bound preceding [] [0..<total]) items lims bound preceding
        in \<lparr>ord_order = order, ord_unresolved = unresolved\<rparr>)"

definition any_constrained :: "limits list \<Rightarrow> bool" where
  "any_constrained lims \<longleftrightarrow> list_ex (\<lambda>l. \<not> limits_is_unconstrained l) lims"


section \<open>The early exits lose nothing\<close>

definition within_reach :: "limits \<Rightarrow> reach \<Rightarrow> bool" where
  "within_reach l b \<longleftrightarrow>
     reach_positions (limits_reach l) \<le> reach_positions b \<and>
     reach_duration (limits_reach l) \<le> reach_duration b"

lemma within_reach_refl [simp, intro]: "within_reach l (limits_reach l)"
  by (simp add: within_reach_def)

lemma within_reach_default [simp, intro]: "within_reach limits_default b"
  by (simp add: within_reach_def limits_default_def limits_reach_def)

lemma no_conflict_when_exhausted:
  assumes "axes_exhausted p e b" and "p \<le> d_positions d" and "e \<le> d_elapsed d"
    and "within_reach la b" and "within_reach lb b"
  shows "\<not> conflict x y la lb d"
  using assms
  by (cases "lim_no_repeat la"; cases "lim_no_repeat lb")
    (auto simp: conflict_def axes_exhausted_def within_reach_def limits_reach_def)

lemma within_reach_widen:
  "within_reach l b \<Longrightarrow> within_reach l (reach_widen b r)"
  "within_reach l (reach_widen b (limits_reach l))"
  by (auto simp: within_reach_def reach_widen_def)

lemma within_reach_fold:
  "l \<in> set lims \<or> within_reach l b \<Longrightarrow>
     within_reach l (fold (\<lambda>l b. reach_widen b (limits_reach l)) lims b)"
proof (induction lims arbitrary: b)
  case Nil
  then show ?case by simp
next
  case (Cons m ms)
  have "l \<in> set ms \<or> within_reach l (reach_widen b (limits_reach m))"
    using Cons.prems by (auto intro: within_reach_widen)
  then show ?case using Cons.IH by simp
qed

lemma within_limits_bound: "l \<in> set lims \<Longrightarrow> within_reach l (limits_bound lims)"
  by (simp add: limits_bound_def within_reach_fold)

lemma length_distances [simp]: "length (distances dur p e xs) = length xs"
  by (induction xs arbitrary: p e) auto

lemma nth_distances:
  "k < length xs \<Longrightarrow>
     distances dur p e xs ! k =
       (xs ! k, \<lparr>d_positions = p + Suc k, d_elapsed = e + sum_list (map dur (take (Suc k) xs))\<rparr>)"
proof (induction xs arbitrary: p e k)
  case Nil
  then show ?case by simp
next
  case (Cons x xs)
  show ?case
  proof (cases k)
    case 0
    then show ?thesis by simp
  next
    case (Suc j)
    then show ?thesis using Cons.IH [of j "Suc p" "e + dur x"] Cons.prems by simp
  qed
qed

lemma distances_append:
  "distances dur p e (xs @ ys) =
     distances dur p e xs @ distances dur (p + length xs) (e + sum_list (map dur xs)) ys"
  by (induction xs arbitrary: p e) (auto simp: add.assoc)

lemma distances_mono:
  assumes "i \<le> j" and "j < length xs"
  shows "d_positions (snd (distances dur p e xs ! i)) \<le> d_positions (snd (distances dur p e xs ! j))"
    and "d_elapsed (snd (distances dur p e xs ! i)) \<le> d_elapsed (snd (distances dur p e xs ! j))"
proof -
  have "sum_list (take (Suc i) (map dur xs)) \<le> sum_list (take (Suc j) (map dur xs))"
    using assms by (intro sum_list_take_mono) simp
  then show "d_elapsed (snd (distances dur p e xs ! i)) \<le> d_elapsed (snd (distances dur p e xs ! j))"
    using assms by (simp add: nth_distances take_map)
  show "d_positions (snd (distances dur p e xs ! i)) \<le> d_positions (snd (distances dur p e xs ! j))"
    using assms by (simp add: nth_distances)
qed

lemma filter_takeWhile_not:
  assumes "\<And>i j. i \<le> j \<Longrightarrow> j < length xs \<Longrightarrow> stop (xs ! i) \<Longrightarrow> \<not> hit (xs ! j)"
  shows "filter hit (takeWhile (\<lambda>x. \<not> stop x) xs) = filter hit xs"
  using assms
proof (induction xs)
  case Nil
  then show ?case by simp
next
  case (Cons x xs)
  show ?case
  proof (cases "stop x")
    case True
    have "\<not> hit y" if "y \<in> set (x # xs)" for y
      using that Cons.prems [of 0] True by (metis in_set_conv_nth le0 nth_Cons_0)
    then show ?thesis using True by (simp add: filter_False)
  next
    case False
    have "filter hit (takeWhile (\<lambda>x. \<not> stop x) xs) = filter hit xs"
      by (rule Cons.IH) (use Cons.prems [of "Suc _" "Suc _"] in auto)
    then show ?thesis using False by simp
  qed
qed

text \<open>The backward walk, cut off at exhaustion, sees every clash there is.\<close>

lemma filter_walk:
  assumes "within_reach la b"
    and "\<And>x d. hit (x, d) \<Longrightarrow> \<exists>y z lb. within_reach lb b \<and> conflict y z la lb d"
  shows "filter hit (takeWhile (\<lambda>(x, d). \<not> exhausted_at b d) (distances dur p e xs)) =
         filter hit (distances dur p e xs)"
proof -
  let ?ds = "distances dur p e xs"
  have "filter hit (takeWhile (\<lambda>xd. \<not> exhausted_at b (snd xd)) ?ds) = filter hit ?ds"
  proof (rule filter_takeWhile_not)
    fix i j
    assume ij: "i \<le> j" "j < length ?ds" and ex: "exhausted_at b (snd (?ds ! i))"
    obtain x d where xd: "?ds ! j = (x, d)" by (cases "?ds ! j")
    have "\<not> conflict y z la lb d" if "within_reach lb b" for y z lb
      using no_conflict_when_exhausted [OF ex _ _ assms(1) that, of d]
        distances_mono [of i j xs dur p e] ij xd by simp
    then show "\<not> hit (?ds ! j)" using assms(2) [of x d] xd by auto
  qed
  then show ?thesis by (simp add: case_prod_unfold)
qed

lemma list_ex_walk:
  assumes "within_reach la b"
    and "\<And>x d. hit (x, d) \<Longrightarrow> \<exists>y z lb. within_reach lb b \<and> conflict y z la lb d"
  shows "list_ex hit (takeWhile (\<lambda>(x, d). \<not> exhausted_at b d) (distances dur p e xs)) =
         list_ex hit (distances dur p e xs)"
proof -
  have ex: "list_ex hit ys \<longleftrightarrow> filter hit ys \<noteq> []" for ys
    by (auto simp: list_ex_iff filter_empty_conv)
  show ?thesis
    unfolding ex
    by (subst filter_walk [where la = la]) (rule assms, erule assms(2), rule refl)
qed

lemma limits_unconstrained_no_conflict:
  assumes "limits_is_unconstrained l" and "0 < d_positions d"
  shows "\<not> conflict x y l limits_default d"
  using assms
  by (cases "lim_no_repeat l")
    (auto simp: limits_is_unconstrained_def reach_is_unconstrained_def limits_reach_def conflict_def
      limits_default_def)

lemma distances_positive: "(x, d) \<in> set (distances dur p e xs) \<Longrightarrow> p < d_positions d"
  by (induction xs arbitrary: p e) (fastforce dest: Suc_lessD)+

lemma conflicts_with_recent_all:
  "conflicts_with_recent recent cand l \<longleftrightarrow>
     list_ex (\<lambda>(prev, d). conflict cand prev l limits_default d) (distances ik_duration 0 0 (rev recent))"
proof (cases "limits_is_unconstrained l")
  case True
  then show ?thesis
    by (auto simp: conflicts_with_recent_def list_ex_iff limits_unconstrained_no_conflict
        dest: distances_positive)
next
  case False
  have "list_ex (\<lambda>(prev, d). conflict cand prev l limits_default d) (walk_back recent (limits_reach l)) =
        list_ex (\<lambda>(prev, d). conflict cand prev l limits_default d) (distances ik_duration 0 0 (rev recent))"
    unfolding walk_back_def by (rule list_ex_walk [where la = l]) auto
  with False show ?thesis by (simp add: conflicts_with_recent_def)
qed

section \<open>The specification of the pass\<close>

text \<open>
  The durations that air from position \<open>i\<close> up to position \<open>j\<close>, and the two kinds of
  clash at their true distance: between two positions of the list, and between a
  position and the \<open>k\<close>-th most recently aired item.
\<close>

definition elapsed_between :: "nat list \<Rightarrow> item_keys list \<Rightarrow> nat \<Rightarrow> nat \<Rightarrow> duration" where
  "elapsed_between order items i j = sum_list (map (\<lambda>k. ik_duration (items ! (order ! k))) [i..<j])"

definition pair_clash :: "nat list \<Rightarrow> item_keys list \<Rightarrow> limits list \<Rightarrow> nat \<Rightarrow> nat \<Rightarrow> bool" where
  "pair_clash order items lims i j \<longleftrightarrow>
     conflict (items ! (order ! i)) (items ! (order ! j)) (lims ! (order ! i)) (lims ! (order ! j))
       \<lparr>d_positions = j - i, d_elapsed = elapsed_between order items i j\<rparr>"

definition seam_clash ::
  "nat list \<Rightarrow> item_keys list \<Rightarrow> limits list \<Rightarrow> item_keys list \<Rightarrow> nat \<Rightarrow> nat \<Rightarrow> bool" where
  "seam_clash order items lims preceding i k \<longleftrightarrow>
     conflict (items ! (order ! i)) (rev preceding ! k) (lims ! (order ! i)) limits_default
       \<lparr>d_positions = i + Suc k,
        d_elapsed = elapsed_between order items 0 i +
          sum_list (map ik_duration (take (Suc k) (rev preceding)))\<rparr>"

definition clash_count ::
  "nat list \<Rightarrow> item_keys list \<Rightarrow> limits list \<Rightarrow> item_keys list \<Rightarrow> nat" where
  "clash_count order items lims preceding =
     length (filter (\<lambda>(i, j). i < j \<and> pair_clash order items lims i j)
       (List.product [0..<length order] [0..<length order])) +
     length (filter (\<lambda>(i, k). seam_clash order items lims preceding i k)
       (List.product [0..<length order] [0..<length preceding]))"

lemma clash_count_card:
  "clash_count order items lims preceding =
     card {(i, j). i < j \<and> j < length order \<and> pair_clash order items lims i j} +
     card {(i, k). i < length order \<and> k < length preceding \<and>
                   seam_clash order items lims preceding i k}"
proof -
  have len: "length (filter P (List.product [0..<n] [0..<m])) = card {x. x \<in> {0..<n} \<times> {0..<m} \<and> P x}"
    for P :: "nat \<times> nat \<Rightarrow> bool" and n m
    using distinct_card [of "filter P (List.product [0..<n] [0..<m])"]
    by (simp add: distinct_product conj_commute)
  show ?thesis
    unfolding clash_count_def len
    by (intro arg_cong2 [where f = plus] arg_cong [where f = card]) auto
qed

definition spaced ::
  "nat list \<Rightarrow> item_keys list \<Rightarrow> limits list \<Rightarrow> item_keys list \<Rightarrow> bool" where
  "spaced order items lims preceding \<longleftrightarrow>
     (\<forall>j < length order. \<forall>i < j. \<not> pair_clash order items lims i j) \<and>
     (\<forall>i < length order. \<forall>k < length preceding. \<not> seam_clash order items lims preceding i k)"

lemma clash_sets_finite:
  "finite {(i, j). i < j \<and> j < (n::nat) \<and> P i j}"
  "finite {(i, k). i < (n::nat) \<and> k < (m::nat) \<and> Q i k}"
proof -
  have "{(i, j). i < j \<and> j < n \<and> P i j} \<subseteq> {..<n} \<times> {..<n}" by auto
  then show "finite {(i, j). i < j \<and> j < n \<and> P i j}" by (rule finite_subset) simp
  have "{(i, k). i < n \<and> k < m \<and> Q i k} \<subseteq> {..<n} \<times> {..<m}" by auto
  then show "finite {(i, k). i < n \<and> k < m \<and> Q i k}" by (rule finite_subset) simp
qed

lemma clash_count_0_iff: "clash_count order items lims preceding = 0 \<longleftrightarrow> spaced order items lims preceding"
  using clash_sets_finite(1) [of "length order" "pair_clash order items lims"]
    clash_sets_finite(2) [of "length order" "length preceding" "seam_clash order items lims preceding"]
  by (auto simp: clash_count_card spaced_def card_eq_0_iff)

subsection \<open>Prefix sums\<close>

lemma map_nth_take: "i \<le> length xs \<Longrightarrow> map f (take i xs) = map (\<lambda>k. f (xs ! k)) [0..<i]"
  by (rule nth_equalityI) auto

lemma nth_duration_prefix:
  "i \<le> length order \<Longrightarrow> duration_prefix order items ! i = elapsed_between order items 0 i"
  by (simp add: duration_prefix_def elapsed_between_def map_nth_take del: upt_Suc)

lemma elapsed_between_split:
  "i \<le> j \<Longrightarrow> elapsed_between order items 0 j = elapsed_between order items 0 i + elapsed_between order items i j"
  using upt_add_eq_append [of 0 i "j - i"] by (simp add: elapsed_between_def)

lemma elapsed_between_mono:
  "j \<le> k \<Longrightarrow> elapsed_between order items i j \<le> elapsed_between order items i k"
proof (cases "i \<le> j")
  case True
  assume "j \<le> k"
  with True have "[i..<k] = [i..<j] @ [j..<k]"
    using upt_add_eq_append [of i j "k - j"] by simp
  then show ?thesis by (simp add: elapsed_between_def)
qed (simp add: elapsed_between_def)

lemma forward_distance_eq:
  "i + d \<le> length order \<Longrightarrow>
     forward_distance (duration_prefix order items) i d =
       \<lparr>d_positions = d, d_elapsed = elapsed_between order items i (i + d)\<rparr>"
  using elapsed_between_split [of i "i + d" order items]
  by (simp add: forward_distance_def nth_duration_prefix)

lemma forward_conflict_eq:
  "i + d < length order \<Longrightarrow>
     forward_conflict order items lims (duration_prefix order items) i d =
       pair_clash order items lims i (i + d)"
  by (simp add: forward_conflict_def pair_clash_def forward_distance_eq)

subsection \<open>The count is exact\<close>

definition well_indexed :: "nat list \<Rightarrow> item_keys list \<Rightarrow> limits list \<Rightarrow> bool" where
  "well_indexed order items lims \<longleftrightarrow>
     length items = length lims \<and> (\<forall>x\<in>set order. x < length items)"

lemma well_indexed_lims: "well_indexed order items lims \<Longrightarrow> i < length order \<Longrightarrow> lims ! (order ! i) \<in> set lims"
  by (auto simp: well_indexed_def)

lemma forward_filter:
  assumes wi: "well_indexed order items lims" and i: "i < length order"
  shows "filter (forward_conflict order items lims (duration_prefix order items) i)
           (takeWhile (\<lambda>d. \<not> exhausted_at (limits_bound lims) (forward_distance (duration_prefix order items) i d))
             [Suc 0..<length order - i]) =
         filter (\<lambda>d. pair_clash order items lims i (i + d)) [Suc 0..<length order - i]"
proof -
  let ?p = "duration_prefix order items"
  have "filter (forward_conflict order items lims ?p i)
          (takeWhile (\<lambda>d. \<not> exhausted_at (limits_bound lims) (forward_distance ?p i d)) [Suc 0..<length order - i]) =
        filter (forward_conflict order items lims ?p i) [Suc 0..<length order - i]"
  proof (rule filter_takeWhile_not)
    fix a b
    assume ab: "a \<le> b" "b < length [Suc 0..<length order - i]"
      and ex: "exhausted_at (limits_bound lims) (forward_distance ?p i ([Suc 0..<length order - i] ! a))"
    have nth: "[Suc 0..<length order - i] ! a = Suc a" "[Suc 0..<length order - i] ! b = Suc b"
      using ab by (auto simp: nth_upt)
    have b: "i + Suc b < length order" using ab i by simp
    have "\<not> conflict (items ! (order ! i)) (items ! (order ! (i + Suc b))) (lims ! (order ! i))
            (lims ! (order ! (i + Suc b))) (forward_distance ?p i (Suc b))"
      using ex ab b
      by (intro no_conflict_when_exhausted [OF ex] within_limits_bound well_indexed_lims [OF wi])
        (auto simp: nth forward_distance_eq elapsed_between_mono)
    then show "\<not> forward_conflict order items lims ?p i ([Suc 0..<length order - i] ! b)"
      by (simp add: nth forward_conflict_def)
  qed
  also have "\<dots> = filter (\<lambda>d. pair_clash order items lims i (i + d)) [Suc 0..<length order - i]"
    by (rule filter_cong) (auto simp: forward_conflict_eq)
  finally show ?thesis .
qed

lemma seam_filter:
  assumes i: "i < length order"
  shows "filter (seam_conflict order items lims i)
           (takeWhile (\<lambda>(prev, d). \<not> exhausted_at (limits_reach (lims ! (order ! i))) d)
             (seam_distances (duration_prefix order items) preceding i)) =
         filter (seam_conflict order items lims i) (seam_distances (duration_prefix order items) preceding i)"
  unfolding seam_distances_def
  by (rule filter_walk [where la = "lims ! (order ! i)"]) (auto simp: seam_conflict_def)

lemma length_filter_conv_card': "length (filter P xs) = card {k. k < length xs \<and> P (xs ! k)}"
  by (rule length_filter_conv_card)

lemma seam_filter_card:
  assumes i: "i < length order"
  shows "length (filter (seam_conflict order items lims i)
           (seam_distances (duration_prefix order items) preceding i)) =
         card {k. k < length preceding \<and> seam_clash order items lims preceding i k}"
proof -
  have "{k. k < length preceding \<and>
          seam_conflict order items lims i (seam_distances (duration_prefix order items) preceding i ! k)} =
        {k. k < length preceding \<and> seam_clash order items lims preceding i k}"
    using i
    by (auto simp: seam_distances_def seam_conflict_def seam_clash_def nth_distances nth_duration_prefix)
  then show ?thesis by (simp add: length_filter_conv_card seam_distances_def)
qed

lemma forward_filter_card:
  assumes i: "i < length order"
  shows "length (filter (\<lambda>d. pair_clash order items lims i (i + d)) [Suc 0..<length order - i]) =
         card {j. i < j \<and> j < length order \<and> pair_clash order items lims i j}"
proof -
  let ?A = "{d. d \<in> {Suc 0..<length order - i} \<and> pair_clash order items lims i (i + d)}"
  have "length (filter (\<lambda>d. pair_clash order items lims i (i + d)) [Suc 0..<length order - i]) = card ?A"
    using distinct_card [of "filter (\<lambda>d. pair_clash order items lims i (i + d)) [Suc 0..<length order - i]"]
    by (simp add: conj_commute)
  moreover have "(\<lambda>d. i + d) ` ?A = {j. i < j \<and> j < length order \<and> pair_clash order items lims i j}"
  proof (intro equalityI subsetI)
    fix j assume "j \<in> {j. i < j \<and> j < length order \<and> pair_clash order items lims i j}"
    then have "j = i + (j - i)" "j - i \<in> ?A" by auto
    then show "j \<in> (\<lambda>d. i + d) ` ?A" by blast
  qed auto
  ultimately show ?thesis
    using card_image [of "\<lambda>d. i + d" ?A] by simp
qed

lemma card_pairs:
  assumes "\<And>i. i < (n::nat) \<Longrightarrow> finite (B i)"
  shows "card {(i, j). i < n \<and> j \<in> B i} = (\<Sum>i = 0..<n. card (B i))"
proof -
  have "{(i, j). i < n \<and> j \<in> B i} = (SIGMA i : {0..<n}. B i)" by auto
  then show ?thesis using assms by (simp add: card_SigmaI)
qed

theorem violation_count_exact:
  assumes wi: "well_indexed order items lims"
  shows "violation_count order items lims (limits_bound lims) preceding =
         clash_count order items lims preceding"
proof -
  let ?n = "length order" and ?p = "duration_prefix order items"
  let ?B = "\<lambda>i. {j. i < j \<and> j < ?n \<and> pair_clash order items lims i j}"
  let ?S = "\<lambda>i. {k. k < length preceding \<and> seam_clash order items lims preceding i k}"
  have "violation_count order items lims (limits_bound lims) preceding =
        (\<Sum>i\<leftarrow>[0..<?n]. card (?B i) + card (?S i))"
    unfolding violation_count_def Let_def One_nat_def
    by (intro arg_cong [where f = sum_list] map_cong refl)
      (simp add: forward_filter [OF wi] seam_filter seam_filter_card forward_filter_card)
  also have "\<dots> = (\<Sum>i = 0..<?n. card (?B i)) + (\<Sum>i = 0..<?n. card (?S i))"
    by (simp add: interv_sum_list_conv_sum_set_nat sum.distrib)
  also have "(\<Sum>i = 0..<?n. card (?B i)) = card {(i, j). i < ?n \<and> j \<in> ?B i}"
    by (rule card_pairs [symmetric]) simp
  also have "{(i, j). i < ?n \<and> j \<in> ?B i} = {(i, j). i < j \<and> j < ?n \<and> pair_clash order items lims i j}"
    by auto
  also have "(\<Sum>i = 0..<?n. card (?S i)) = card {(i, k). i < ?n \<and> k \<in> ?S i}"
    by (rule card_pairs [symmetric]) simp
  finally show ?thesis by (simp add: clash_count_card)
qed

section \<open>The pass permutes the list\<close>

lemma pick_less:
  "pending \<noteq> [] \<Longrightarrow>
     (case position P pending of Some i \<Rightarrow> i | None \<Rightarrow> 0) < length pending"
  by (auto dest: position_Some_less split: option.splits)

lemma mset_greedy:
  "mset (greedy items lims bound preceding out pending) = mset out + mset pending"
proof (induction items lims bound preceding out pending rule: greedy.induct)
  case (1 items lims bound preceding out pending)
  show ?case
  proof (cases "pending = []")
    case True
    then show ?thesis by (simp add: greedy.simps)
  next
    case False
    let ?pick = "case position (\<lambda>cand. \<not> violates out cand items lims bound preceding) pending of
                   Some i \<Rightarrow> i | None \<Rightarrow> 0"
    have "mset (out @ [pending ! ?pick]) + mset (remove_at ?pick pending) = mset out + mset pending"
      using mset_remove_at [OF pick_less [OF False]] by simp
    then show ?thesis
      using "1.IH" [OF False refl] by (subst greedy.simps) (simp add: False Let_def)
  qed
qed

lemma length_greedy [simp]:
  "length (greedy items lims bound preceding out pending) = length out + length pending"
  using mset_greedy [THEN arg_cong [where f = size]] by simp

lemma violating_positions_less: "i \<in> set (violating_positions order items lims bound preceding) \<Longrightarrow> i < length order"
  by (simp add: violating_positions_def Let_def)

lemma improving_swapD:
  assumes "improving_swap order items lims bound preceding best = Some (i, j)"
  shows "i < length order" and "j < length order"
    and "violation_count (swap_at i j order) items lims bound preceding < best"
proof -
  have "(i, j) \<in> set (List.product (violating_positions order items lims bound preceding) [0..<length order]) \<and>
      violation_count (swap_at i j order) items lims bound preceding < best"
    using assms unfolding improving_swap_def find_Some_iff by (metis (mono_tags, lifting) case_prodD nth_mem)
  then show "i < length order" and "j < length order"
    and "violation_count (swap_at i j order) items lims bound preceding < best"
    by (auto dest: violating_positions_less)
qed

lemma mset_repair_rounds:
  "mset (fst (repair_rounds rounds order items lims bound preceding best)) = mset order"
proof (induction rounds arbitrary: order best)
  case 0
  then show ?case by simp
next
  case (Suc rounds)
  show ?case
  proof (cases "improving_swap order items lims bound preceding best")
    case (Some ij)
    then obtain i j where "improving_swap order items lims bound preceding best = Some (i, j)"
      by (cases ij) auto
    then show ?thesis by (simp add: Suc.IH improving_swapD)
  qed simp
qed

lemma repair_rounds_count:
  assumes "best = violation_count order items lims bound preceding"
  shows "snd (repair_rounds rounds order items lims bound preceding best) =
         violation_count (fst (repair_rounds rounds order items lims bound preceding best))
           items lims bound preceding"
  using assms
  by (induction rounds arbitrary: order best) (auto split: option.splits)

lemma repair_rounds_le:
  "snd (repair_rounds rounds order items lims bound preceding best) \<le> best"
proof (induction rounds arbitrary: order best)
  case 0
  then show ?case by simp
next
  case (Suc rounds)
  show ?case
  proof (cases "improving_swap order items lims bound preceding best")
    case (Some ij)
    then obtain i j where ij: "improving_swap order items lims bound preceding best = Some (i, j)"
      by (cases ij) auto
    show ?thesis
      using Suc.IH [of "swap_at i j order"] improving_swapD(3) [OF ij] ij
      by (auto intro: order_trans less_imp_le)
  qed simp
qed

text \<open>Each round strictly lowers the count, so that many rounds reach a local optimum.\<close>

lemma repair_rounds_optimal:
  assumes "best \<le> rounds"
  shows "snd (repair_rounds rounds order items lims bound preceding best) = 0 \<or>
         improving_swap (fst (repair_rounds rounds order items lims bound preceding best))
           items lims bound preceding
           (snd (repair_rounds rounds order items lims bound preceding best)) = None"
  using assms
proof (induction rounds arbitrary: order best)
  case 0
  then show ?case by simp
next
  case (Suc rounds)
  show ?case
  proof (cases "improving_swap order items lims bound preceding best")
    case (Some ij)
    then obtain i j where ij: "improving_swap order items lims bound preceding best = Some (i, j)"
      by (cases ij) auto
    have "violation_count (swap_at i j order) items lims bound preceding \<le> rounds"
      using improving_swapD(3) [OF ij] Suc.prems by simp
    from Suc.IH [OF this, of "swap_at i j order"] ij show ?thesis by auto
  qed simp
qed

lemma mset_order_constrained:
  "mset (ord_order (order_constrained items lims preceding)) = mset [0..<length items]"
  using mset_repair_rounds
    [of max_repair_rounds "greedy items lims (limits_bound lims) preceding [] [0..<length items]"]
  by (auto simp: order_constrained_def Let_def repair_def mset_greedy split: prod.splits)
    (metis fst_conv mset_greedy add_0 mset.simps(1))+

lemma well_indexed_perm:
  assumes "mset order = mset [0..<length items]" and "length items = length lims"
  shows "well_indexed order items lims"
proof -
  have "set order = {0..<length items}"
    using assms(1) by (metis set_mset_mset set_upt)
  then show ?thesis using assms(2) by (simp add: well_indexed_def)
qed

text \<open>
  The adjacency pass only reorders: for every list, limits and seam, the
  returned order is a permutation of the positions of the list, so no item is lost,
  duplicated or invented, whatever the constraints ask.
\<close>

theorem order_constrained_permutes:
  "mset (ord_order (order_constrained items lims preceding)) = mset [0..<length items]"
  by (rule mset_order_constrained)

section \<open>The reported count and the satisfied list\<close>

lemma unconstrained_no_conflict:
  assumes "reach_is_unconstrained b" and "within_reach la b" and "within_reach lb b" and "0 < d_positions d"
  shows "\<not> conflict x y la lb d"
  using assms by (intro no_conflict_when_exhausted [of "d_positions d" "d_elapsed d" b])
    (auto simp: axes_exhausted_def reach_is_unconstrained_def)

lemma unconstrained_spaced:
  assumes un: "reach_is_unconstrained (limits_bound lims)" and wi: "well_indexed order items lims"
  shows "spaced order items lims preceding"
proof -
  have w: "within_reach (lims ! (order ! i)) (limits_bound lims)" if "i < length order" for i
    using well_indexed_lims [OF wi that] by (rule within_limits_bound)
  show ?thesis
    using w unconstrained_no_conflict [OF un]
    by (auto simp: spaced_def pair_clash_def seam_clash_def)
qed

lemma identity_well_indexed: "length items = length lims \<Longrightarrow> well_indexed [0..<length items] items lims"
  by (rule well_indexed_perm) simp_all

lemma order_constrained_cases:
  assumes "length items = length lims"
  obtains (trivial) "order_constrained items lims preceding = \<lparr>ord_order = [0..<length items], ord_unresolved = 0\<rparr>"
      "spaced [0..<length items] items lims preceding"
    | (run) "order_constrained items lims preceding =
          (let r = repair (greedy items lims (limits_bound lims) preceding [] [0..<length items])
                     items lims (limits_bound lims) preceding
           in \<lparr>ord_order = fst r, ord_unresolved = snd r\<rparr>)"
proof (cases "reach_is_unconstrained (limits_bound lims) \<or> length items = 0")
  case True
  have "spaced [0..<length items] items lims preceding"
    using True unconstrained_spaced [OF _ identity_well_indexed [OF assms]]
    by (auto simp: spaced_def)
  with True show ?thesis by (intro trivial) (auto simp: order_constrained_def Let_def)
next
  case False
  then show ?thesis
    by (intro run) (auto simp: order_constrained_def Let_def split: prod.splits)
qed

text \<open>
  The reported number of unresolved violations is exact: it is the number of
  clashing pairs, inside the list and across the seam, of the order returned, counted at
  their true distances with none of the code's early exits. In particular the pass
  reports \<open>0\<close> exactly when the returned order satisfies every constraint.
\<close>

theorem order_constrained_unresolved_exact:
  assumes "length items = length lims"
  shows "let r = order_constrained items lims preceding in
     ord_unresolved r = clash_count (ord_order r) items lims preceding \<and>
     (ord_unresolved r = 0 \<longleftrightarrow> spaced (ord_order r) items lims preceding)"
proof -
  define r where "r = order_constrained items lims preceding"
  have wi: "well_indexed (ord_order r) items lims"
    unfolding r_def by (rule well_indexed_perm [OF mset_order_constrained assms(1)])
  have eq: "ord_unresolved r = clash_count (ord_order r) items lims preceding"
  proof (rule order_constrained_cases [OF assms(1), of preceding])
    assume "order_constrained items lims preceding = \<lparr>ord_order = [0..<length items], ord_unresolved = 0\<rparr>"
      and "spaced [0..<length items] items lims preceding"
    then show ?thesis by (simp add: r_def clash_count_0_iff)
  next
    let ?g = "greedy items lims (limits_bound lims) preceding [] [0..<length items]"
    assume run: "order_constrained items lims preceding =
        (let r = repair ?g items lims (limits_bound lims) preceding
         in \<lparr>ord_order = fst r, ord_unresolved = snd r\<rparr>)"
    have "ord_unresolved r = violation_count (ord_order r) items lims (limits_bound lims) preceding"
      using repair_rounds_count [OF refl] by (simp add: r_def run Let_def repair_def)
    then show ?thesis by (simp add: violation_count_exact [OF wi])
  qed
  then show ?thesis
    by (simp add: r_def [symmetric] clash_count_0_iff)
qed

theorem order_constrained_unresolved_exact_witness:
  "let r = order_constrained [item_keys_new ''a'', item_keys_new ''a'']
             (replicate 2 \<lparr>lim_no_repeat = GapPositions 1, lim_separate = 0\<rparr>) [] in
   ord_unresolved r = 1 \<and>
   clash_count (ord_order r) [item_keys_new ''a'', item_keys_new ''a'']
     (replicate 2 \<lparr>lim_no_repeat = GapPositions 1, lim_separate = 0\<rparr>) [] = 1"
proof -
  let ?items = "[item_keys_new ''a'', item_keys_new ''a'']"
  let ?lims = "replicate 2 \<lparr>lim_no_repeat = GapPositions 1, lim_separate = 0\<rparr>"
  have "ord_unresolved (order_constrained ?items ?lims []) = 1"
    by code_simp
  then show ?thesis
    using order_constrained_unresolved_exact [of ?items ?lims "[]"] by (simp add: Let_def)
qed

text \<open>A satisfied order is left as written.\<close>

lemma conflict_commute: "conflict a b la lb d \<longleftrightarrow> conflict b a lb la d"
  by (auto simp: conflict_def shares_group_with_def list_ex_iff max.commute)

lemma violates_placed_SomeTrue:
  "violates_placed items lims bound cand ds = Some True \<Longrightarrow>
     \<exists>(placed, d)\<in>set ds. conflict (items ! cand) (items ! placed) (lims ! cand) (lims ! placed) d"
  by (induction items lims bound cand ds rule: violates_placed.induct) (auto split: if_splits)

lemma violatesD:
  assumes "violates out cand items lims bound preceding"
  shows "(\<exists>m<length out. conflict (items ! cand) (items ! (rev out ! m)) (lims ! cand) (lims ! (rev out ! m))
            \<lparr>d_positions = Suc m,
             d_elapsed = sum_list (map (\<lambda>i. ik_duration (items ! i)) (take (Suc m) (rev out)))\<rparr>) \<or>
         (\<exists>k<length preceding. conflict (items ! cand) (rev preceding ! k) (lims ! cand) limits_default
            \<lparr>d_positions = length out + Suc k,
             d_elapsed = sum_list (map (\<lambda>i. ik_duration (items ! i)) out) +
               sum_list (map ik_duration (take (Suc k) (rev preceding)))\<rparr>)"
proof (cases "violates_placed items lims bound cand
         (distances (\<lambda>i. ik_duration (items ! i)) 0 0 (rev out))")
  case None
  then obtain prev d where "(prev, d) \<in> set (distances ik_duration (length out)
      (sum_list (map (\<lambda>i. ik_duration (items ! i)) out)) (rev preceding))"
    and "conflict (items ! cand) prev (lims ! cand) limits_default d"
    using assms by (auto simp: violates_def Let_def list_ex_iff dest!: set_takeWhileD)
  then show ?thesis
    by (auto simp: in_set_conv_nth nth_distances)
next
  case (Some answer)
  then have "answer" using assms by (simp add: violates_def)
  with Some obtain placed d where "(placed, d) \<in> set (distances (\<lambda>i. ik_duration (items ! i)) 0 0 (rev out))"
    and "conflict (items ! cand) (items ! placed) (lims ! cand) (lims ! placed) d"
    using violates_placed_SomeTrue by fastforce
  then show ?thesis
    by (auto simp: in_set_conv_nth nth_distances)
qed

lemma elapsed_between_upt:
  "i \<le> j \<Longrightarrow> j \<le> n \<Longrightarrow>
     elapsed_between [0..<n] items i j = sum_list (map (\<lambda>k. ik_duration (items ! k)) [i..<j])"
  unfolding elapsed_between_def by (intro arg_cong [where f = sum_list] map_cong) auto

lemma take_rev_upt: "m \<le> k \<Longrightarrow> take m (rev [0..<k]) = rev [k - m..<k]"
  by (simp add: take_rev)

lemma spaced_not_violates:
  assumes sp: "spaced [0..<n] items lims preceding" and k: "k < n"
  shows "\<not> violates [0..<k] k items lims bound preceding"
proof
  assume "violates [0..<k] k items lims bound preceding"
  then consider (pair) m where "m < k" "conflict (items ! k) (items ! (k - Suc m)) (lims ! k) (lims ! (k - Suc m))
            \<lparr>d_positions = Suc m, d_elapsed = elapsed_between [0..<n] items (k - Suc m) k\<rparr>"
    | (seam) j where "j < length preceding" "seam_clash [0..<n] items lims preceding k j"
    using violatesD [of "[0..<k]" k items lims bound preceding] k
    by (auto simp: rev_nth take_rev_upt elapsed_between_upt seam_clash_def rev_map [symmetric] simp flip: rev_map)
  then show False
  proof cases
    case pair
    then have "pair_clash [0..<n] items lims (k - Suc m) k"
      using k by (simp add: pair_clash_def conflict_commute Suc_diff_Suc)
    then show False using sp k pair(1) by (auto simp: spaced_def)
  next
    case seam
    then show False using sp k by (auto simp: spaced_def)
  qed
qed

lemma greedy_keeps:
  assumes "\<And>k. k < n \<Longrightarrow> \<not> violates [0..<k] k items lims bound preceding" and "k \<le> n"
  shows "greedy items lims bound preceding [0..<k] [k..<n] = [0..<n]"
  using assms(2)
proof (induction "n - k" arbitrary: k)
  case 0
  then show ?case by (simp add: greedy.simps)
next
  case (Suc m)
  then have k: "k < n" by simp
  then have "position (\<lambda>cand. \<not> violates [0..<k] cand items lims bound preceding) [k..<n] = Some 0"
    using assms(1) [of k] by (simp add: upt_conv_Cons)
  moreover have "[0..<k] @ [[k..<n] ! 0] = [0..<Suc k]" and "remove_at 0 [k..<n] = [Suc k..<n]"
    using k by (simp_all add: remove_at_def upt_conv_Cons)
  ultimately show ?case
    using Suc.hyps(1) [of "Suc k"] Suc.hyps(2) k by (subst greedy.simps) (simp add: Let_def del: upt_Suc)
qed

text \<open>
  A list that already satisfies its constraints, within itself and across the
  seam, is returned as written with nothing reported.
\<close>

theorem order_constrained_keeps_satisfied:
  assumes "length items = length lims" and sp: "spaced [0..<length items] items lims preceding"
  shows "order_constrained items lims preceding = \<lparr>ord_order = [0..<length items], ord_unresolved = 0\<rparr>"
proof (rule order_constrained_cases [OF assms(1), of preceding])
  let ?b = "limits_bound lims" and ?id = "[0..<length items]"
  assume run: "order_constrained items lims preceding =
      (let r = repair (greedy items lims ?b preceding [] ?id) items lims ?b preceding
       in \<lparr>ord_order = fst r, ord_unresolved = snd r\<rparr>)"
  have "greedy items lims ?b preceding [] ?id = ?id"
    using greedy_keeps [where k = 0, OF spaced_not_violates [OF sp]] by simp
  moreover have "violation_count ?id items lims ?b preceding = 0"
    by (subst violation_count_exact [OF identity_well_indexed [OF assms(1)]])
      (simp only: clash_count_0_iff sp)
  ultimately show ?thesis
    by (simp add: run Let_def repair_def max_repair_rounds_def numeral_eq_Suc)
qed

theorem order_constrained_keeps_satisfied_witness:
  "order_constrained [item_keys_new ''a'', item_keys_new ''b'', item_keys_new ''a'']
     (replicate 3 \<lparr>lim_no_repeat = GapPositions 1, lim_separate = 0\<rparr>) [item_keys_new ''b''] =
   \<lparr>ord_order = [0, 1, 2], ord_unresolved = 0\<rparr>"
proof -
  let ?items = "[item_keys_new ''a'', item_keys_new ''b'', item_keys_new ''a'']"
  let ?lims = "replicate 3 \<lparr>lim_no_repeat = GapPositions 1, lim_separate = 0\<rparr>"
  have "clash_count [0..<length ?items] ?items ?lims [item_keys_new ''b''] = 0"
    by code_simp
  then have "spaced [0..<length ?items] ?items ?lims [item_keys_new ''b'']"
    by (simp only: clash_count_0_iff)
  from order_constrained_keeps_satisfied [OF _ this] show ?thesis
    by (simp add: upt_rec)
qed

text \<open>
  The swap repair terminates at a local optimum: what it leaves is never more
  than what the greedy pass left, and, when the greedy pass left at most
  \<open>MAX_REPAIR_ROUNDS\<close> clashes, no exchange of a violating position with any other
  position of the returned order has fewer clashes.
\<close>

theorem repair_local_optimum:
  assumes "mset order = mset [0..<length items]" and "length items = length lims"
  shows "let (final, left) = repair order items lims (limits_bound lims) preceding in
     mset final = mset order \<and> left = clash_count final items lims preceding \<and>
     left \<le> clash_count order items lims preceding \<and>
     (clash_count order items lims preceding \<le> max_repair_rounds \<longrightarrow>
        (\<forall>i\<in>set (violating_positions final items lims (limits_bound lims) preceding).
          \<forall>j<length final. left = 0 \<or>
            left \<le> clash_count (swap_at i j final) items lims preceding))"
proof -
  let ?b = "limits_bound lims"
  let ?r = "repair_rounds max_repair_rounds order items lims ?b preceding (violation_count order items lims ?b preceding)"
  have exact: "violation_count o' items lims ?b preceding = clash_count o' items lims preceding"
    if "mset o' = mset order" for o'
    using that assms by (intro violation_count_exact well_indexed_perm) simp_all
  have perm: "mset (fst ?r) = mset order" by (rule mset_repair_rounds)
  have count: "snd ?r = clash_count (fst ?r) items lims preceding"
    using repair_rounds_count [OF refl] exact [OF perm] by simp
  have le: "snd ?r \<le> clash_count order items lims preceding"
    using repair_rounds_le [of _ order items lims ?b preceding "violation_count order items lims ?b preceding"]
      exact [of order] by simp
  have opt: "snd ?r = 0 \<or> snd ?r \<le> clash_count (swap_at i j (fst ?r)) items lims preceding"
    if le: "clash_count order items lims preceding \<le> max_repair_rounds"
      and i: "i \<in> set (violating_positions (fst ?r) items lims ?b preceding)"
      and j: "j < length (fst ?r)" for i j
  proof (cases "i = j")
    case True
    then show ?thesis using j count by (simp add: swap_at_def)
  next
    case False
    have "mset (swap_at i j (fst ?r)) = mset order"
      using i j perm by (simp add: violating_positions_less)
    then have "violation_count (swap_at i j (fst ?r)) items lims ?b preceding =
        clash_count (swap_at i j (fst ?r)) items lims preceding" by (rule exact)
    moreover have "snd ?r = 0 \<or>
        improving_swap (fst ?r) items lims ?b preceding (snd ?r) = None"
      using le exact [of order] by (intro repair_rounds_optimal) simp
    ultimately show ?thesis
      using i j False by (fastforce simp: improving_swap_def find_None_iff)
  qed
  show ?thesis
    using perm count le opt unfolding repair_def by (auto split: prod.split)
qed

theorem repair_local_optimum_witness:
  "mset [0, 1::nat] = mset [0..<length [item_keys_new ''a'', item_keys_new ''a'']] \<and>
   snd (repair [0, 1] [item_keys_new ''a'', item_keys_new ''a'']
     (replicate 2 \<lparr>lim_no_repeat = GapPositions 1, lim_separate = 0\<rparr>)
     (limits_bound (replicate 2 \<lparr>lim_no_repeat = GapPositions 1, lim_separate = 0\<rparr>)) []) \<le>
   clash_count [0, 1] [item_keys_new ''a'', item_keys_new ''a'']
     (replicate 2 \<lparr>lim_no_repeat = GapPositions 1, lim_separate = 0\<rparr>) []"
  using repair_local_optimum [of "[0, 1]" "[item_keys_new ''a'', item_keys_new ''a'']"
      "replicate 2 \<lparr>lim_no_repeat = GapPositions 1, lim_separate = 0\<rparr>" "[]"]
  by (auto split: prod.splits simp: upt_rec)

section \<open>The recency window\<close>

text \<open>
  A pool that draws keeps only as much of what it emitted as a later check could still
  reach. The contract between the window and its client: a history trimmed to what is
  needed answers every later check as the untrimmed one.
\<close>

locale recency_window =
  fixes clash :: "'h list \<Rightarrow> 'c \<Rightarrow> bool"
    and needed :: "'h list \<Rightarrow> nat"
  assumes trim: "clash (keep_last (needed h) h @ later) c \<longleftrightarrow> clash (h @ later) c"
begin

definition remember :: "'h list \<Rightarrow> 'h list \<Rightarrow> 'h list" where
  "remember h fresh = (let h' = h @ fresh in keep_last (needed h') h')"

lemma remember_clash: "clash (remember h fresh @ later) c \<longleftrightarrow> clash (h @ fresh @ later) c"
  by (simp add: remember_def Let_def trim)

text \<open>However many draws are folded in, the window answers as the whole history.\<close>

lemma remember_run:
  "clash (fold (\<lambda>fresh h. remember h fresh) draws h @ later) c \<longleftrightarrow> clash (h @ concat draws @ later) c"
proof (induction draws arbitrary: h later)
  case Nil
  then show ?case by simp
next
  case (Cons d ds)
  have "clash (fold (\<lambda>fresh h. remember h fresh) ds (remember h d) @ later) c \<longleftrightarrow>
        clash (remember h d @ concat ds @ later) c" by (rule Cons.IH)
  also have "\<dots> \<longleftrightarrow> clash (h @ d @ concat ds @ later) c" by (rule remember_clash)
  finally show ?case by simp
qed

lemma remember_subset: "set (remember h fresh) \<subseteq> set h \<union> set fresh"
  using set_keep_last [of "needed (h @ fresh)" "h @ fresh"] by (simp add: remember_def Let_def)

end

lemma history_needed_le: "history_needed h l \<le> length h"
  by (simp add: history_needed_def walk_back_def length_takeWhile_le [THEN order_trans])

lemma beyond_needed_no_conflict:
  assumes un: "\<not> limits_is_unconstrained l"
    and j: "history_needed h l \<le> j" "j < length h"
    and p: "j < d_positions d" and e: "sum_list (map ik_duration (take (Suc j) (rev h))) \<le> d_elapsed d"
  shows "\<not> conflict x y l limits_default d"
proof -
  let ?ds = "distances ik_duration 0 0 (rev h)" and ?k = "history_needed h l"
  have k: "?k = length (takeWhile (\<lambda>(x, d). \<not> exhausted_at (limits_reach l) d) ?ds)"
    using un by (simp add: history_needed_def walk_back_def)
  have klen: "?k < length ?ds" using j by simp
  have "exhausted_at (limits_reach l) (snd (?ds ! ?k))"
    using nth_length_takeWhile [of "\<lambda>(x, d). \<not> exhausted_at (limits_reach l) d" ?ds] klen k
    by (simp add: case_prod_unfold)
  then have ex: "axes_exhausted (Suc ?k) (sum_list (map ik_duration (take (Suc ?k) (rev h)))) (limits_reach l)"
    using klen by (simp add: nth_distances)
  have "sum_list (map ik_duration (take (Suc ?k) (rev h))) \<le> d_elapsed d"
    using e sum_list_take_mono [of "Suc ?k" "Suc j" "map ik_duration (rev h)"] j(1) by (simp add: take_map)
  then show ?thesis
    using p j(1) by (intro no_conflict_when_exhausted [OF ex]) auto
qed

lemma conflicts_with_recent_trim:
  "conflicts_with_recent (keep_last (history_needed h l) h @ later) c l \<longleftrightarrow>
   conflicts_with_recent (h @ later) c l"
proof (cases "limits_is_unconstrained l")
  case True
  then show ?thesis by (simp add: conflicts_with_recent_def)
next
  case False
  let ?k = "history_needed h l" and ?p = "length later" and ?e = "sum_list (map ik_duration (rev later))"
  let ?hit = "\<lambda>(prev, d). conflict c prev l limits_default d"
  let ?ds = "distances ik_duration ?p ?e (rev h)"
  have split: "?ds = distances ik_duration ?p ?e (take ?k (rev h)) @
      distances ik_duration (?p + ?k) (?e + sum_list (map ik_duration (take ?k (rev h)))) (drop ?k (rev h))"
    using distances_append [of ik_duration ?p ?e "take ?k (rev h)" "drop ?k (rev h)"]
      history_needed_le [of h l] by (simp add: min_absorb2)
  have far: "\<not> ?hit x" if "x \<in> set (distances ik_duration (?p + ?k)
      (?e + sum_list (map ik_duration (take ?k (rev h)))) (drop ?k (rev h)))" for x
  proof -
    from that obtain i where i: "i < length h - ?k"
      and x: "x = (drop ?k (rev h) ! i, \<lparr>d_positions = ?p + ?k + Suc i,
        d_elapsed = ?e + sum_list (map ik_duration (take ?k (rev h))) +
          sum_list (map ik_duration (take (Suc i) (drop ?k (rev h))))\<rparr>)"
      by (auto simp: in_set_conv_nth nth_distances)
    have "take (Suc (?k + i)) (rev h) = take ?k (rev h) @ take (Suc i) (drop ?k (rev h))"
      using take_add [of ?k "Suc i" "rev h"] by simp
    then show ?thesis
      using i unfolding x by (simp add: beyond_needed_no_conflict [OF False, where j = "?k + i" and h = h])
  qed
  then have "list_ex ?hit ?ds \<longleftrightarrow> list_ex ?hit (distances ik_duration ?p ?e (take ?k (rev h)))"
    unfolding split by (auto simp: list_ex_iff)
  then show ?thesis
    by (simp add: conflicts_with_recent_all rev_keep_last distances_append)
qed

interpretation own_window: recency_window
  "\<lambda>h c. conflicts_with_recent h c l" "\<lambda>h. history_needed h l" for l
  by unfold_locales (rule conflicts_with_recent_trim)

text \<open>
  The recency window forgets nothing that matters: after any number of draws,
  each folded in and trimmed to \<open>history_needed\<close>, the draw-time check answers for every
  candidate exactly as it would on the complete, untrimmed history, on both axes.
\<close>

theorem trimmed_window_complete:
  "conflicts_with_recent (fold (\<lambda>fresh h. keep_last (history_needed (h @ fresh) l) (h @ fresh)) draws h) c l \<longleftrightarrow>
   conflicts_with_recent (h @ concat draws) c l"
  using own_window.remember_run [of l draws h "[]" c]
  by (simp add: own_window.remember_def Let_def)

text \<open>
  Claim C13. The draw-time check, which stops walking back once both axes are exhausted,
  is the plain statement: the candidate clashes with some emitted item at that item's
  true distance (its position from the end, and the airtime from its start).
\<close>

theorem conflicts_with_recent_spec:
  "conflicts_with_recent recent cand l \<longleftrightarrow>
     (\<exists>k<length recent. conflict cand (rev recent ! k) l limits_default
        \<lparr>d_positions = Suc k, d_elapsed = sum_list (map ik_duration (take (Suc k) (rev recent)))\<rparr>)"
  by (simp add: conflicts_with_recent_all list_ex_length nth_distances cong: conj_cong)

end
