(* ===== verification/Arcs.thy ===== *)
theory Arcs
  imports Strings "HOL-Library.Product_Lexorder"
begin

text \<open>
  \<open>config/arcs.rs\<close>: the named episode ranges that cut a show's long season into
  pseudo-seasons. How a range is read, what a show's declaration must satisfy to load, and
  where an episode falls. A path only names its file in an error, so it is a string.
\<close>

record arc_decl =
  ad_name :: string
  ad_episodes :: string

record arc_file =
  af_show :: string
  af_arcs :: "arc_decl list"

record arc_range =
  ar_name :: string
  ar_first :: int
  ar_last :: int

datatype arc_bucket = Named string | Trailing

record show_arcs =
  sa_show :: string
  sa_arcs :: "arc_range list"

type_synonym arcs = "(string, show_arcs) btree"

definition arc_range_text :: "arc_range \<Rightarrow> string" where
  "arc_range_text a = dec_int (ar_first a) @ ''-'' @ dec_int (ar_last a)"

definition max_episode :: int where "max_episode = 1000000"

section \<open>Reading a range\<close>

definition episode_number :: "string \<Rightarrow> int result" where
  "episode_number s =
     (let bad = Inl (''is not a range like '' @ debug_str ''21-40'' @ '' or an episode like '' @ debug_str ''7'' @
                     '' (1 to 1000000)'')
      in case parse_i64 (trim s) of
           None \<Rightarrow> bad
         | Some n \<Rightarrow> if 1 \<le> n \<and> n \<le> max_episode then Inr n else bad)"

definition parse_range :: "string \<Rightarrow> (int \<times> int) result" where
  "parse_range s =
     bind_res
       (case split_once (CHR ''-'') s of
          Some (a, b) \<Rightarrow>
            bind_res (episode_number a) (\<lambda>first.
              if trim b = [] then Inr (first, max_episode)
              else bind_res (episode_number b) (\<lambda>last. Inr (first, last)))
        | None \<Rightarrow> bind_res (episode_number s) (\<lambda>n. Inr (n, n)))
       (\<lambda>(first, last). if first > last then Inl ''starts after it ends'' else Inr (first, last))"

section \<open>One show's declaration\<close>

definition show_error :: "string \<Rightarrow> string \<Rightarrow> string" where
  "show_error title e = ''show '' @ debug_str title @ '': '' @ e"

definition read_arc :: "string \<Rightarrow> arc_decl \<Rightarrow> arc_range result" where
  "read_arc title decl =
     (if trim (ad_name decl) = [] then Inl (show_error title ''an arc has an empty name'')
      else bind_res
        (map_err (\<lambda>e. show_error title
             (''arc '' @ debug_str (ad_name decl) @ '' episodes '' @ debug_str (ad_episodes decl) @ '' '' @ e))
           (parse_range (ad_episodes decl)))
        (\<lambda>(first, last). Inr \<lparr>ar_name = ad_name decl, ar_first = first, ar_last = last\<rparr>))"

fun repeated_name :: "string list \<Rightarrow> arc_range list \<Rightarrow> string option" where
  "repeated_name seen [] = None"
| "repeated_name seen (a # as) =
     (if ar_name a \<in> set seen then Some (ar_name a) else repeated_name (ar_name a # seen) as)"

text \<open>
  The contiguity loop. An arc that starts below the expected episode with no arc before it
  would panic; a range starts at 1 or later, so it does not happen.
\<close>

fun check_tiling :: "string \<Rightarrow> int \<Rightarrow> arc_range option \<Rightarrow> arc_range list \<Rightarrow> unit result" where
  "check_tiling title nxt prev [] = Inr ()"
| "check_tiling title nxt prev (a # as) =
     (if ar_first a < nxt then
        (case prev of
           None \<Rightarrow> Inl ''an arc starts below 1 only after another arc''
         | Some p \<Rightarrow> Inl (show_error title
             (''arcs '' @ debug_str (ar_name p) @ '' ('' @ arc_range_text p @ '') and '' @ debug_str (ar_name a) @
              '' ('' @ arc_range_text a @ '') overlap'')))
      else if ar_first a > nxt then
        Inl (show_error title
          (''episodes '' @ dec_int nxt @ ''-'' @ dec_int (ar_first a - 1) @ '' belong to no arc ('' @
           (case prev of
              Some p \<Rightarrow> ''between '' @ debug_str (ar_name p) @ '' and '' @ debug_str (ar_name a)
            | None \<Rightarrow> ''before '' @ debug_str (ar_name a) @ ''; arcs start at episode 1'') @ '')''))
      else check_tiling title (ar_last a + 1) (Some a) as)"

definition parse_show :: "arc_file \<Rightarrow> show_arcs result" where
  "parse_show f =
     (let title = af_show f in
      if af_arcs f = [] then Inl (show_error title ''arcs is empty'')
      else bind_res (map_res (read_arc title) (af_arcs f)) (\<lambda>arcs.
        let arcs = sort_key (\<lambda>a. (ar_first a, ar_last a)) arcs in
        case repeated_name [] arcs of
          Some name \<Rightarrow> Inl (show_error title (''arc name '' @ debug_str name @ '' is used twice''))
        | None \<Rightarrow> bind_res (check_tiling title 1 None arcs) (\<lambda>_. Inr \<lparr>sa_show = title, sa_arcs = arcs\<rparr>)))"

section \<open>The declared shows\<close>

fun load_files ::
  "arcs \<Rightarrow> (string, string) btree \<Rightarrow> (string \<times> arc_file) list \<Rightarrow> arcs result" where
  "load_files by_show seen [] = Inr by_show"
| "load_files by_show seen ((path, file) # files) =
     (if trim (af_show file) = [] then Inl (''arcs in '' @ path @ '': show is empty'')
      else case bt_get seen (af_show file) of
        Some first \<Rightarrow>
          Inl (''show '' @ debug_str (af_show file) @ '' has arcs declared twice: in '' @ first @ '' and in '' @ path)
      | None \<Rightarrow>
          bind_res (map_err (\<lambda>e. ''arcs in '' @ path @ '': '' @ e) (parse_show file)) (\<lambda>s.
            load_files (bt_insert (af_show file) s by_show) (bt_insert (af_show file) path seen) files))"

definition arcs_from_files :: "(string \<times> arc_file) list \<Rightarrow> arcs result" where
  "arcs_from_files files = load_files [] [] files"

definition arcs_is_empty :: "arcs \<Rightarrow> bool" where
  "arcs_is_empty arcs \<longleftrightarrow> arcs = []"

definition has_arc_named :: "string \<Rightarrow> arcs \<Rightarrow> bool" where
  "has_arc_named name arcs \<longleftrightarrow> list_ex (\<lambda>(_, s). list_ex (\<lambda>a. ar_name a = name) (sa_arcs s)) arcs"

definition arc_names :: "arcs \<Rightarrow> string list" where
  "arc_names arcs = remdups_adj (sort (concat (map (\<lambda>(_, s). map ar_name (sa_arcs s)) arcs)))"

definition in_arc :: "int \<Rightarrow> arc_range \<Rightarrow> bool" where
  "in_arc e a \<longleftrightarrow> ar_first a \<le> e \<and> e \<le> ar_last a"

definition bucket_of :: "arcs \<Rightarrow> string \<Rightarrow> int \<Rightarrow> arc_bucket option" where
  "bucket_of arcs title absolute =
     map_option (\<lambda>s. case find (in_arc absolute) (sa_arcs s) of Some a \<Rightarrow> Named (ar_name a) | None \<Rightarrow> Trailing)
       (bt_get arcs title)"

section \<open>A loaded show is tiled\<close>

text \<open>The arcs follow each other from \<open>n\<close> on with no hole and no overlap.\<close>

fun tiles :: "int \<Rightarrow> arc_range list \<Rightarrow> bool" where
  "tiles n [] = True"
| "tiles n (a # as) = (ar_first a = n \<and> ar_first a \<le> ar_last a \<and> tiles (ar_last a + 1) as)"

lemma check_tiling_iff:
  assumes "\<forall>a\<in>set as. ar_first a \<le> ar_last a"
  shows "check_tiling title n prev as = Inr () \<longleftrightarrow> tiles n as"
  using assms
proof (induction as arbitrary: n prev)
  case Nil
  then show ?case by simp
next
  case (Cons a as)
  then show ?case by (cases prev) auto
qed

lemma repeated_name_None: "repeated_name seen as = None \<longleftrightarrow> distinct (map ar_name as) \<and> set (map ar_name as) \<inter> set seen = {}"
  by (induction as arbitrary: seen) auto

lemma episode_number_range: "episode_number s = Inr n \<Longrightarrow> 1 \<le> n \<and> n \<le> max_episode"
  by (auto simp: episode_number_def Let_def split: option.splits if_splits)

lemma parse_range_bounds:
  assumes "parse_range s = Inr (a, b)"
  shows "1 \<le> a \<and> a \<le> b \<and> b \<le> max_episode"
  using assms by (auto simp: parse_range_def bind_res_Inr_iff max_episode_def dest!: episode_number_range
      split: option.splits if_splits prod.splits)

lemma read_arc_bounds:
  "read_arc title d = Inr a \<Longrightarrow> ar_name a = ad_name d \<and> 1 \<le> ar_first a \<and> ar_first a \<le> ar_last a \<and> ar_last a \<le> max_episode"
  using parse_range_bounds [of "ad_episodes d"]
  by (auto simp: read_arc_def bind_res_Inr_iff split: if_splits)

lemma tiles_bounds: "tiles n as \<Longrightarrow> a \<in> set as \<Longrightarrow> n \<le> ar_first a \<and> ar_first a \<le> ar_last a \<and> ar_last a \<le> ar_last (last as)"
proof (induction as arbitrary: n a)
  case Nil
  then show ?case by simp
next
  case (Cons b as)
  have rest: "x \<in> set as \<Longrightarrow> ar_last b + 1 \<le> ar_first x \<and> ar_first x \<le> ar_last x \<and> ar_last x \<le> ar_last (last as)" for x
    using Cons.IH [of "ar_last b + 1" x] Cons.prems(1) by auto
  show ?case
  proof (cases "as = []")
    case True
    then show ?thesis using Cons.prems by auto
  next
    case False
    then have "ar_last b \<le> ar_last (last as)" using rest [of "last as"] by simp
    then show ?thesis using False Cons.prems rest [of a] by auto
  qed
qed

lemma tiles_cover: "tiles n as \<Longrightarrow> n \<le> e \<Longrightarrow> as \<noteq> [] \<Longrightarrow> e \<le> ar_last (last as) \<Longrightarrow> \<exists>a\<in>set as. in_arc e a"
proof (induction as arbitrary: n)
  case Nil
  then show ?case by simp
next
  case (Cons b as)
  then show ?case by (cases "e \<le> ar_last b") (auto simp: in_arc_def split: if_splits)
qed

lemma tiles_unique: "tiles n as \<Longrightarrow> a \<in> set as \<Longrightarrow> b \<in> set as \<Longrightarrow> in_arc e a \<Longrightarrow> in_arc e b \<Longrightarrow> a = b"
proof (induction as arbitrary: n)
  case Nil
  then show ?case by simp
next
  case (Cons c as)
  have "x \<in> set as \<Longrightarrow> ar_last c + 1 \<le> ar_first x" for x
    using Cons.prems(1) tiles_bounds [of "ar_last c + 1" as x] by simp
  then show ?case using Cons.prems Cons.IH [of "ar_last c + 1"] by (fastforce simp: in_arc_def)
qed

lemma parse_show_tiles:
  assumes "parse_show f = Inr s"
  shows "sa_show s = af_show f \<and> sa_arcs s \<noteq> [] \<and> tiles 1 (sa_arcs s) \<and> distinct (map ar_name (sa_arcs s)) \<and>
         mset (map ar_name (sa_arcs s)) = mset (map ad_name (af_arcs f)) \<and> (\<forall>a\<in>set (sa_arcs s). ar_last a \<le> max_episode)"
proof -
  from assms obtain as where as: "map_res (read_arc (af_show f)) (af_arcs f) = Inr as" and ne: "af_arcs f \<noteq> []"
    and rest: "(case repeated_name [] (sort_key (\<lambda>a. (ar_first a, ar_last a)) as) of
          Some name \<Rightarrow> Inl (show_error (af_show f) (''arc name '' @ debug_str name @ '' is used twice''))
        | None \<Rightarrow> bind_res (check_tiling (af_show f) 1 None (sort_key (\<lambda>a. (ar_first a, ar_last a)) as))
             (\<lambda>_. Inr \<lparr>sa_show = af_show f, sa_arcs = sort_key (\<lambda>a. (ar_first a, ar_last a)) as\<rparr>)) = Inr s"
    by (auto simp: parse_show_def Let_def bind_res_Inr_iff split: if_splits)
  define sorted_arcs where "sorted_arcs = sort_key (\<lambda>a. (ar_first a, ar_last a)) as"
  have len: "length as = length (af_arcs f)" using as by (rule map_res_length)
  have each: "i < length as \<Longrightarrow> ar_name (as ! i) = ad_name (af_arcs f ! i) \<and> ar_first (as ! i) \<le> ar_last (as ! i) \<and>
      ar_last (as ! i) \<le> max_episode" for i
    using map_res_nth [OF as, of i] read_arc_bounds [of "af_show f" "af_arcs f ! i" "as ! i"] len by simp
  then have names: "map ar_name as = map ad_name (af_arcs f)" using len by (auto intro: nth_equalityI)
  have ok: "\<forall>a\<in>set as. ar_first a \<le> ar_last a \<and> ar_last a \<le> max_episode" using each by (auto simp: in_set_conv_nth)
  have d: "distinct (map ar_name sorted_arcs)" and t: "check_tiling (af_show f) 1 None sorted_arcs = Inr ()"
    and s: "s = \<lparr>sa_show = af_show f, sa_arcs = sorted_arcs\<rparr>"
    using rest unfolding sorted_arcs_def [symmetric]
    by (cases "repeated_name [] sorted_arcs"; simp add: bind_res_Inr_iff repeated_name_None)+
  have "tiles 1 sorted_arcs" using t ok check_tiling_iff [of sorted_arcs] by (simp add: sorted_arcs_def)
  moreover have "sorted_arcs \<noteq> []" 
    using len ne by (metis length_0_conv length_sort sorted_arcs_def)
  moreover have "mset (map ar_name sorted_arcs) = mset (map ad_name (af_arcs f))"
    by (simp add: sorted_arcs_def names [symmetric])
  ultimately show ?thesis using d ok by (simp add: s sorted_arcs_def)
qed

text \<open>
  A show whose declaration loads is cut without hole or overlap: its arcs carry the
  declared names, each once, start at episode 1, and every episode up to the end of the last
  arc is in exactly one of them.
\<close>

theorem show_arcs_tile:
  assumes "parse_show f = Inr s"
  shows "sa_show s = af_show f \<and> sa_arcs s \<noteq> [] \<and> distinct (map ar_name (sa_arcs s)) \<and>
         mset (map ar_name (sa_arcs s)) = mset (map ad_name (af_arcs f)) \<and>
         (\<forall>e. 1 \<le> e \<and> e \<le> ar_last (last (sa_arcs s)) \<longrightarrow> (\<exists>!a. a \<in> set (sa_arcs s) \<and> in_arc e a)) \<and>
         (\<forall>e. e < 1 \<or> ar_last (last (sa_arcs s)) < e \<longrightarrow> (\<forall>a\<in>set (sa_arcs s). \<not> in_arc e a))"
proof -
  note s = parse_show_tiles [OF assms]
  then have t: "tiles 1 (sa_arcs s)" and ne: "sa_arcs s \<noteq> []" by simp_all
  have "\<exists>!a. a \<in> set (sa_arcs s) \<and> in_arc e a" if "1 \<le> e" "e \<le> ar_last (last (sa_arcs s))" for e
    using tiles_cover [OF t that(1) ne that(2)] tiles_unique [OF t] by blast
  moreover have "\<not> in_arc e a" if "e < 1 \<or> ar_last (last (sa_arcs s)) < e" "a \<in> set (sa_arcs s)" for e a
    using tiles_bounds [OF t that(2)] that(1) by (auto simp: in_arc_def)
  ultimately show ?thesis using s by blast
qed

definition jojo :: arc_file where
  "jojo = \<lparr>af_show = ''JoJo'',
           af_arcs = [\<lparr>ad_name = ''Battle'', ad_episodes = ''10-26''\<rparr>, \<lparr>ad_name = ''Phantom'', ad_episodes = '' 1 - 9 ''\<rparr>]\<rparr>"

lemma jojo_ranges:
  "parse_range ''10-26'' = Inr (10, 26)" "parse_range '' 1 - 9 '' = Inr (1, 9)" "trim ''Battle'' \<noteq> []" "trim ''Phantom'' \<noteq> []"
  by (simp_all add: parse_range_def split_once_def episode_number_def Let_def trim_def is_space_def parse_i64_def
      parse_uint_def is_digit_def digits_value_def digit_val_def max_episode_def i64_max_def)

lemma jojo_loads:
  "parse_show jojo = Inr \<lparr>sa_show = ''JoJo'',
     sa_arcs = [\<lparr>ar_name = ''Phantom'', ar_first = 1, ar_last = 9\<rparr>, \<lparr>ar_name = ''Battle'', ar_first = 10, ar_last = 26\<rparr>]\<rparr>"
  by (simp add: parse_show_def jojo_def read_arc_def jojo_ranges map_err_def Let_def)

theorem show_arcs_tile_witness: "\<exists>!a. a \<in> {\<lparr>ar_name = ''Phantom'', ar_first = 1, ar_last = 9\<rparr>,
    \<lparr>ar_name = ''Battle'', ar_first = 10, ar_last = 26\<rparr>} \<and> in_arc 9 a"
  using show_arcs_tile [OF jojo_loads] by simp

section \<open>What a load declares\<close>

lemma load_files_shows:
  assumes "load_files by_show seen files = Inr arcs" and "bt_ok by_show" and "bt_ok seen"
  shows "bt_ok arcs \<and> distinct (map (af_show \<circ> snd) files) \<and>
         (\<forall>f\<in>snd ` set files. bt_get seen (af_show f) = None \<and> (\<exists>s. parse_show f = Inr s \<and> bt_get arcs (af_show f) = Some s)) \<and>
         (\<forall>title. title \<notin> af_show ` snd ` set files \<longrightarrow> bt_get arcs title = bt_get by_show title)"
  using assms
proof (induction by_show seen files rule: load_files.induct)
  case (1 by_show seen)
  then show ?case by simp
next
  case (2 by_show seen path decl files)
  have ne: "trim (af_show decl) \<noteq> []"
    using "2.prems"(1) by (cases "trim (af_show decl) = []") simp_all
  have new: "bt_get seen (af_show decl) = None"
    using "2.prems"(1) ne by (cases "bt_get seen (af_show decl)") simp_all
  obtain s where s: "parse_show decl = Inr s"
    and rest: "load_files (bt_insert (af_show decl) s by_show) (bt_insert (af_show decl) path seen) files = Inr arcs"
    using "2.prems"(1) ne new by (cases "parse_show decl") (simp_all add: map_err_def)
  have oks: "bt_ok (bt_insert (af_show decl) s by_show)" "bt_ok (bt_insert (af_show decl) path seen)"
    using "2.prems"(2,3) by simp_all
  note ih = "2.IH" [OF ne new rest oks]
  have here: "bt_get arcs (af_show decl) = Some s"
    using ih by (cases "af_show decl \<in> af_show ` snd ` set files") auto
  show ?case using ih s new here by (auto split: if_splits)
qed

text \<open>
  Where an episode falls: in a station whose arcs load every declared show is
  declared once; an episode inside one of its arcs falls in that arc, any other in the
  trailing bucket, and a show with no file has no bucket at all.
\<close>

theorem bucket_follows_arcs:
  assumes "arcs_from_files files = Inr arcs"
  shows "distinct (map (af_show \<circ> snd) files) \<and>
         (\<forall>f\<in>snd ` set files. \<exists>s. parse_show f = Inr s \<and>
            (\<forall>e. (\<forall>a\<in>set (sa_arcs s). in_arc e a \<longrightarrow> bucket_of arcs (af_show f) e = Some (Named (ar_name a))) \<and>
                 ((\<forall>a\<in>set (sa_arcs s). \<not> in_arc e a) \<longrightarrow> bucket_of arcs (af_show f) e = Some Trailing))) \<and>
         (\<forall>title e. title \<notin> af_show ` snd ` set files \<longrightarrow> bucket_of arcs title e = None)"
proof -
  note l = load_files_shows [OF assms [unfolded arcs_from_files_def] bt_ok_Nil bt_ok_Nil]
  have "bucket_of arcs (af_show f) e = Some (Named (ar_name a))"
    if parsed: "parse_show f = Inr s" and got: "bt_get arcs (af_show f) = Some s" and mem: "a \<in> set (sa_arcs s)"
      and inside: "in_arc e a" for f s e a
  proof -
    have "tiles 1 (sa_arcs s)" using parse_show_tiles [OF parsed] by simp
    moreover obtain b where b: "find (in_arc e) (sa_arcs s) = Some b"
      using mem inside by (cases "find (in_arc e) (sa_arcs s)") (auto simp: find_None_iff)
    ultimately show ?thesis using got mem inside b find_SomeD [OF b] tiles_unique [of 1 "sa_arcs s" b a e]
      by (simp add: bucket_of_def)
  qed
  moreover have "bucket_of arcs (af_show f) e = Some Trailing"
    if "bt_get arcs (af_show f) = Some s" "\<forall>a\<in>set (sa_arcs s). \<not> in_arc e a" for f s e
  proof -
    have "find (in_arc e) (sa_arcs s) = None" using that(2) by (simp add: find_None_iff)
    then show ?thesis by (simp add: bucket_of_def that(1))
  qed
  moreover have "bucket_of arcs title e = None" if "title \<notin> af_show ` snd ` set files" for title e
    using l that by (simp add: bucket_of_def)
  ultimately show ?thesis using l by blast
qed

theorem bucket_follows_arcs_witness:
  "\<exists>arcs. arcs_from_files [(''jojo.yml'', jojo)] = Inr arcs \<and> bucket_of arcs ''Naruto'' 4 = None"
proof -
  have "trim (af_show jojo) \<noteq> []" by (simp add: jojo_def trim_def is_space_def)
  then obtain arcs where a: "arcs_from_files [(''jojo.yml'', jojo)] = Inr arcs"
    by (simp add: arcs_from_files_def jojo_loads map_err_def)
  then show ?thesis using bucket_follows_arcs [OF a] by (auto simp: jojo_def)
qed

section \<open>Printing a range\<close>

text \<open>
  Ranges round trip: the text of an arc, as the load errors print it, reads back to
  the same two episodes.
\<close>

theorem arc_range_roundtrip:
  assumes "1 \<le> ar_first a" and "ar_first a \<le> ar_last a" and "ar_last a \<le> max_episode"
  shows "parse_range (arc_range_text a) = Inr (ar_first a, ar_last a)"
proof -
  have num: "episode_number (dec n) = Inr (int n)" if "1 \<le> n" "int n \<le> max_episode" for n
    using that by (simp add: episode_number_def Let_def parse_simps i64_max_def max_episode_def)
  obtain m n where "ar_first a = int m" "ar_last a = int n" using assms by (metis dual_order.trans nonneg_int_cases zero_le_one)
  moreover have "split_once (CHR ''-'') (dec m @ CHR ''-'' # dec n) = Some (dec m, dec n)"
    by (rule split_once_append) simp
  ultimately show ?thesis using assms num [of m] num [of n]
    by (simp add: parse_range_def arc_range_text_def dec_int_def trim_idle)
qed

theorem arc_range_roundtrip_witness: "parse_range (arc_range_text \<lparr>ar_name = ''x'', ar_first = 21, ar_last = 40\<rparr>) = Inr (21, 40)"
  using arc_range_roundtrip [of "\<lparr>ar_name = ''x'', ar_first = 21, ar_last = 40\<rparr>"] by (simp add: max_episode_def)

end
