(* ===== verification/Config.thy ===== *)
theory Config
  imports Strings Mixer Constrain Arcs
begin

text \<open>
  What a channel author writes: the pool and pattern-step records of \<open>config/pool.rs\<close> with
  the parsers and printers of their scalar fields, the sort order of \<open>config/order.rs\<close>, the
  adjacency constraints of \<open>config/constraints.rs\<close>, and the rotating seed and temperature
  of \<open>config/variety.rs\<close>. The duration syntax is the \<open>humantime\<close> crate's, a parameter.
\<close>

section \<open>JSON values\<close>

text \<open>\<open>serde_json::Value\<close>; an object is a \<open>BTreeMap\<close>, so it is kept sorted by key.\<close>

datatype json =
    JNull
  | JBool bool
  | JInt int
  | JFloat rat
  | JString string
  | JArray "json list"
  | JObject "(string \<times> json) list"


definition obj_insert :: "string \<Rightarrow> json \<Rightarrow> json \<Rightarrow> json" where
  "obj_insert k v blob = (case blob of JObject kvs \<Rightarrow> JObject (bt_insert k v kvs) | _ \<Rightarrow> blob)"

section \<open>Sort orders\<close>

datatype dir = Asc | Desc

record field_sort =
  fs_field :: string
  fs_dir :: dir

datatype order = Manual | Random | Fields "field_sort list"

fun dir_str :: "dir \<Rightarrow> string" where
  "dir_str Asc = ''asc''"
| "dir_str Desc = ''desc''"

definition episode_default :: order where
  "episode_default =
     Fields [\<lparr>fs_field = ''season'', fs_dir = Asc\<rparr>, \<lparr>fs_field = ''episode'', fs_dir = Asc\<rparr>]"

text \<open>One comma-separated term; \<open>whole\<close> is the authored string the first error quotes.\<close>

definition parse_term :: "string \<Rightarrow> string \<Rightarrow> field_sort result" where
  "parse_term whole raw =
     (let t = trim raw in
      if t = [] then Inl (''empty order term in '' @ debug_str whole)
      else bind_res
        (case split_once (CHR '':'') t of
           Some (field, d) \<Rightarrow>
             if d = ''asc'' then Inr (trim field, Asc)
             else if d = ''desc'' then Inr (trim field, Desc)
             else Inl (''invalid sort direction '' @ debug_str d @ '' in '' @ debug_str t @ '' (want asc or desc)'')
         | None \<Rightarrow> Inr (t, Asc))
        (\<lambda>(field, d).
           if field = [] then Inl (''empty field name in order term '' @ debug_str t)
           else Inr \<lparr>fs_field = field, fs_dir = d\<rparr>))"

definition removed_collection :: string where
  "removed_collection =
     ''order = '' @ debug_str ''collection'' @ '' was removed (#107): a collection's authored '' @
     ''order belongs to the collection, not to the items, so it rides on a '' @
     ''kind = '' @ debug_str ''collection'' @ '' entry instead of on a block's order''"

definition removed_score :: string where
  "removed_score =
     ''order = '' @ debug_str ''score'' @ '' was removed (#108): a relevance score is not derivable '' @
     ''from the items being ordered, so it cannot be a bare order keyword. '' @
     ''Scoring is unspecified '' @ em_dash @ '' if it lands as a per-item column, sort on it '' @
     ''directly (e.g. '' @ debug_str ''score:desc'' @ '')''"

definition parse_order :: "string \<Rightarrow> order result" where
  "parse_order s =
     (if s = ''manual'' then Inr Manual
      else if s = ''random'' then Inr Random
      else if s = ''collection'' then Inl removed_collection
      else if s = ''score'' then Inl removed_score
      else bind_res (map_res (parse_term s) (split_on (CHR '','') s)) (\<lambda>terms. Inr (Fields terms)))"

fun to_order_string :: "order \<Rightarrow> string" where
  "to_order_string Manual = ''manual''"
| "to_order_string Random = ''random''"
| "to_order_string (Fields terms) =
     join '','' (map (\<lambda>t. fs_field t @ '':'' @ dir_str (fs_dir t)) terms)"

section \<open>Pools\<close>

datatype group_by = ByShow | BySeason

datatype take_spec = Count nat | Range nat nat | All

fun take_bounds :: "take_spec \<Rightarrow> (nat \<times> nat) option" where
  "take_bounds (Count n) = Some (n, n)"
| "take_bounds (Range lo hi) = Some (lo, hi)"
| "take_bounds All = None"

text \<open>
  What the YAML front end hands the visitor: a number, a string, or a map whose values are
  read as \<open>i64\<close> (an error where they are not).
\<close>

datatype take_input = TakeNum int | TakeStr string | TakeMap "(string \<times> int result) list"

definition range_take :: "int \<Rightarrow> int \<Rightarrow> take_spec result" where
  "range_take lo hi =
     (if lo < 0 \<or> hi < 0 then Inl (''take range '' @ dec_int lo @ ''-'' @ dec_int hi @ '' has a negative bound'')
      else if lo > hi then Inl (''take range '' @ dec_int lo @ ''-'' @ dec_int hi @ '' has min above max'')
      else if lo = hi then Inr (Count (nat lo))
      else Inr (Range (nat lo) (nat hi)))"

definition bad_take :: "string \<Rightarrow> string" where
  "bad_take other =
     ''invalid take '' @ debug_str other @ '' (want a positive integer, a range such as '' @
     debug_str ''2-4'' @ '', or '' @ debug_str ''all'' @ '')''"

fun take_map ::
  "int option \<Rightarrow> int option \<Rightarrow> (string \<times> int result) list \<Rightarrow> (int option \<times> int option) result" where
  "take_map lo hi [] = Inr (lo, hi)"
| "take_map lo hi ((key, v) # kvs) =
     (if key = ''min'' then bind_res v (\<lambda>n. take_map (Some n) hi kvs)
      else if key = ''max'' then bind_res v (\<lambda>n. take_map lo (Some n) kvs)
      else Inl (''unknown take field '' @ debug_str key @ '' (want min and max)''))"

fun parse_take :: "take_input \<Rightarrow> take_spec result" where
  "parse_take (TakeNum v) =
     (if v < 0 then Inl (''take = '' @ dec_int v @ '' is negative (want a positive integer or '' @ debug_str ''all'' @ '')'')
      else Inr (Count (nat v)))"
| "parse_take (TakeStr s) =
     (if s = ''all'' then Inr All
      else case split_once (CHR ''-'') s of
        None \<Rightarrow> Inl (bad_take s)
      | Some (lo, hi) \<Rightarrow>
          (case (parse_i64 (trim lo), parse_i64 (trim hi)) of
             (Some lo, Some hi) \<Rightarrow> range_take lo hi
           | _ \<Rightarrow> Inl (bad_take s)))"
| "parse_take (TakeMap kvs) =
     bind_res (take_map None None kvs) (\<lambda>(lo, hi).
       case (lo, hi) of
         (Some lo, Some hi) \<Rightarrow> range_take lo hi
       | _ \<Rightarrow> Inl ''a take range needs both min and max'')"

fun print_take :: "take_spec \<Rightarrow> take_input" where
  "print_take (Count n) = TakeNum (int n)"
| "print_take (Range lo hi) = TakeStr (dec lo @ ''-'' @ dec hi)"
| "print_take All = TakeStr ''all''"

datatype take_from = FromStart | FromEnd | FromRandom
datatype select = RoundRobin | SelectRandom
datatype rotate = Visit | Slot | Span duration
datatype advance = Restart | ResumeAdvance
datatype cursor_scope = ChannelScope | GlobalScope
datatype on_short = NextSeries | Wrap | Short

definition min_span :: duration where
  "min_span = dur_of_secs 86400"

definition subsec_nanos :: "duration \<Rightarrow> nat" where
  "subsec_nanos d = d mod 1000000000"

text \<open>\<open>format\<close> is \<open>humantime::format_duration\<close>, \<open>parse\<close> its inverse \<open>parse_duration\<close>.\<close>

definition span_label :: "(duration \<Rightarrow> string) \<Rightarrow> duration \<Rightarrow> string" where
  "span_label format d =
     (let secs = dur_as_secs d in
      if subsec_nanos d = 0 \<and> secs > 0 \<and> secs mod (7 * 86400) = 0 then dec (secs div (7 * 86400)) @ ''w''
      else if subsec_nanos d = 0 \<and> secs > 0 \<and> secs mod 86400 = 0 then dec (secs div 86400) @ ''d''
      else format d)"

fun rotate_span :: "rotate \<Rightarrow> duration option" where
  "rotate_span (Span d) = Some d"
| "rotate_span Visit = None"
| "rotate_span Slot = None"

fun print_rotate :: "(duration \<Rightarrow> string) \<Rightarrow> rotate \<Rightarrow> string" where
  "print_rotate format Visit = ''visit''"
| "print_rotate format Slot = ''slot''"
| "print_rotate format (Span d) = format d"

definition parse_rotate :: "(string \<Rightarrow> duration option) \<Rightarrow> string \<Rightarrow> rotate result" where
  "parse_rotate parse text =
     (if text = ''visit'' then Inr Visit
      else if text = ''slot'' then Inr Slot
      else case parse text of
        None \<Rightarrow> Inl (''rotate: '' @ debug_str text @ '' is not `visit`, `slot` or a span like `1d`, `1w`, `4w`'')
      | Some d \<Rightarrow>
          if d < min_span then Inl (''rotate: a span must be at least 1d (got '' @ debug_str text @ '')'')
          else Inr (Span d))"

section \<open>Adjacency constraints\<close>

definition min_assumed_item_secs :: nat where
  "min_assumed_item_secs = 60"

datatype no_repeat_within = Positions nat | WithinDuration duration

definition div_ceil :: "nat \<Rightarrow> nat \<Rightarrow> nat" where
  "div_ceil a b = (a + b - 1) div b"

fun no_repeat_reach :: "no_repeat_within \<Rightarrow> nat" where
  "no_repeat_reach (Positions n) = n"
| "no_repeat_reach (WithinDuration d) = div_ceil (dur_as_secs d) min_assumed_item_secs"

record constraints =
  c_no_repeat_within :: "no_repeat_within option"
  c_separate_by :: "string option"
  c_separate_min_gap :: "nat option"

definition constraints_default :: constraints where
  "constraints_default = \<lparr>c_no_repeat_within = None, c_separate_by = None, c_separate_min_gap = None\<rparr>"

definition no_repeat_gap :: "constraints \<Rightarrow> no_repeat_within" where
  "no_repeat_gap c = (case c_no_repeat_within c of Some g \<Rightarrow> g | None \<Rightarrow> Positions 0)"

definition separate_gap :: "constraints \<Rightarrow> nat" where
  "separate_gap c =
     (case c_separate_by c of
        Some _ \<Rightarrow> (case c_separate_min_gap c of Some n \<Rightarrow> n | None \<Rightarrow> 1)
      | None \<Rightarrow> 0)"

definition constraints_reach :: "constraints \<Rightarrow> nat" where
  "constraints_reach c = max (no_repeat_reach (no_repeat_gap c)) (separate_gap c)"

text \<open>The limits the adjacency pass works with, as the resolver converts them.\<close>

definition limits_of :: "constraints \<Rightarrow> limits" where
  "limits_of c =
     \<lparr>lim_no_repeat = (case no_repeat_gap c of Positions n \<Rightarrow> GapPositions n | WithinDuration d \<Rightarrow> GapDuration d),
      lim_separate = separate_gap c\<rparr>"

section \<open>Rotating seed and temperature\<close>

definition min_rotate :: duration where
  "min_rotate = dur_of_secs 3600"

record seed_rotate =
  sr_rotate :: duration
  sr_cycle :: "u64 list option"

datatype seed_spec = FixedSeed u64 | RotateSeed seed_rotate

record temperature_rotate =
  tr_rotate :: duration
  tr_cycle :: "f64 list option"
  tr_between :: "(f64 \<times> f64) option"

datatype temperature_spec = FixedTemperature f64 | RotateTemperature temperature_rotate

definition rotate_problem :: "(duration \<Rightarrow> string) \<Rightarrow> string \<Rightarrow> duration \<Rightarrow> string option" where
  "rotate_problem format field d =
     (if d < min_rotate
      then Some (field @ ''.rotate must be at least '' @ format min_rotate @ '' (got '' @ format d @ '')'')
      else None)"

fun seed_problem :: "(duration \<Rightarrow> string) \<Rightarrow> seed_spec \<Rightarrow> string option" where
  "seed_problem format (FixedSeed n) = None"
| "seed_problem format (RotateSeed r) =
     (case rotate_problem format ''seed'' (sr_rotate r) of
        Some p \<Rightarrow> Some p
      | None \<Rightarrow>
          if sr_cycle r = Some [] then Some ''seed.cycle must list at least one seed'' else None)"

section \<open>The pool record\<close>

text \<open>
  The fields the walk reads. \<open>p_carried\<close> stands for the ones the core only carries to the
  plugin (\<open>profile\<close>, \<open>profile_files\<close>, \<open>ignore_keywords\<close>); \<open>guide\<close> and \<open>tracks\<close> are handed on
  unread, as the JSON they serialise to.
\<close>

record pool =
  p_name :: string
  p_expr :: "string option"
  p_plugin :: "string option"
  p_sources :: "(string, string) btree option"
  p_groups :: "string list"
  p_order :: "order option"
  p_bucket_order :: "order option"
  p_group_by :: group_by
  p_select :: select
  p_rotate :: rotate
  p_advance :: advance
  p_cursor_scope :: cursor_scope
  p_on_short :: on_short
  p_seed :: "seed_spec option"
  p_temperature :: "temperature_spec option"
  p_constraints :: "constraints option"
  p_arcs :: "arcs option"
  p_config :: "json option"
  p_capabilities :: "string list"
  p_datastores :: "(string \<times> string) list"
  p_label :: "string option"
  p_advisory :: "string option"
  p_guide :: "json option"
  p_tracks :: "json option"
  p_carried :: json

definition stamp_display :: "pool \<Rightarrow> json option \<Rightarrow> json option" where
  "stamp_display p metadata =
     (case p_label p of
        None \<Rightarrow> metadata
      | Some label \<Rightarrow>
          let blob = (case metadata of None \<Rightarrow> JObject [] | Some b \<Rightarrow> b);
              blob = obj_insert ''pool_label'' (JString label) blob
          in Some (case p_advisory p of
               None \<Rightarrow> blob
             | Some advisory \<Rightarrow> obj_insert ''pool_advisory'' (JString advisory) blob))"

definition pool_constraints :: "pool \<Rightarrow> constraints option \<Rightarrow> constraints" where
  "pool_constraints p block =
     (case p_constraints p of
        Some c \<Rightarrow> c
      | None \<Rightarrow> (case block of Some c \<Rightarrow> c | None \<Rightarrow> constraints_default))"

text \<open>The most a step may take, and a plugin's override may ask for.\<close>

definition max_take :: nat where "max_take = 10000"

record pattern_step =
  ps_pool :: string
  ps_take :: take_spec
  ps_from :: take_from
  ps_chance :: f64

section \<open>Round trips\<close>

text \<open>What the parser can produce: a field has no separator in it and no blank around it.\<close>

definition field_ok :: "string \<Rightarrow> bool" where
  "field_ok f \<longleftrightarrow> f \<noteq> [] \<and> trimmed f \<and> CHR '','' \<notin> set f \<and> CHR '':'' \<notin> set f"

fun order_ok :: "order \<Rightarrow> bool" where
  "order_ok (Fields terms) = (terms \<noteq> [] \<and> (\<forall>t\<in>set terms. field_ok (fs_field t)))"
| "order_ok Manual = True"
| "order_ok Random = True"

lemma dir_str_cases: "dir_str d \<in> {''asc'', ''desc''}"
  by (cases d) simp_all

lemma parse_term_ok:
  assumes "parse_term whole raw = Inr t" and "CHR '','' \<notin> set raw"
  shows "field_ok (fs_field t)"
proof -
  have comma: "CHR '','' \<notin> set (trim raw)" using assms(2) set_trim by blast
  have ne: "trim raw \<noteq> []" using assms(1) by (auto simp: parse_term_def)
  show ?thesis
  proof (cases "split_once (CHR '':'') (trim raw)")
    case None
    then have "CHR '':'' \<notin> set (trim raw)" by (simp add: split_once_def split: if_splits)
    then show ?thesis using assms(1) None ne comma
      by (auto simp: parse_term_def Let_def field_ok_def)
  next
    case (Some fd)
    obtain f d where fd: "fd = (f, d)" by (cases fd)
    note s = split_once_SomeD [OF Some [unfolded fd]]
    have "CHR '':'' \<notin> set (trim f)" "CHR '','' \<notin> set (trim f)"
      using s comma set_trim [of f] by (auto simp: subset_iff)
    moreover have "fs_field t = trim f" "trim f \<noteq> []"
      using assms(1) ne by (auto simp: parse_term_def Let_def Some fd split: if_splits)
    ultimately show ?thesis by (simp add: field_ok_def)
  qed
qed

lemma parse_term_print:
  assumes "field_ok (fs_field t)"
  shows "parse_term whole (fs_field t @ '':'' @ dir_str (fs_dir t)) = Inr t"
proof -
  let ?s = "fs_field t @ CHR '':'' # dir_str (fs_dir t)"
  have "trimmed ?s"
    using assms by (cases "fs_dir t") (auto simp: field_ok_def trimmed_def is_space_def)
  then have trim: "trim ?s = ?s" by (rule trim_idle)
  have split: "split_once (CHR '':'') ?s = Some (fs_field t, dir_str (fs_dir t))"
    using assms by (intro split_once_append) (simp add: field_ok_def)
  obtain f d where t: "t = \<lparr>fs_field = f, fs_dir = d\<rparr>" by (cases t)
  have "trim (f @ CHR '':'' # dir_str d) = f @ CHR '':'' # dir_str d"
    and "split_once (CHR '':'') (f @ CHR '':'' # dir_str d) = Some (f, dir_str d)"
    using trim split by (simp_all add: t)
  then show ?thesis
    using assms by (cases d) (simp_all add: t parse_term_def Let_def field_ok_def trim_idle)
qed

lemma map_res_okD: "map_res f xs = Inr ys \<Longrightarrow> y \<in> set ys \<Longrightarrow> \<exists>x\<in>set xs. f x = Inr y"
  by (induction xs arbitrary: ys) (auto simp: bind_res_Inr_iff)

lemma map_res_all: "\<forall>x\<in>set xs. f (g x) = Inr x \<Longrightarrow> map_res f (map g xs) = Inr xs"
  by (induction xs) auto

lemma parse_order_ok: "parse_order s = Inr ord \<Longrightarrow> order_ok ord"
proof (cases ord)
  case (Fields terms)
  assume "parse_order s = Inr ord"
  then have m: "map_res (parse_term s) (split_on (CHR '','') s) = Inr terms"
    using Fields by (auto simp: parse_order_def bind_res_Inr_iff split: if_splits)
  then have "terms \<noteq> []" using map_res_length [OF m] by (metis length_0_conv split_on_nonempty)
  moreover have "field_ok (fs_field t)" if "t \<in> set terms" for t
    using map_res_okD [OF m that] parse_term_ok split_on_parts by blast
  ultimately show ?thesis by (simp add: Fields)
qed simp_all

lemma joined_terms_colon:
  "terms \<noteq> [] \<Longrightarrow> CHR '':'' \<in> set (join '','' (map (\<lambda>t. fs_field t @ '':'' @ dir_str (fs_dir t)) terms))"
  by (cases terms; cases "tl terms") auto

lemma parse_order_print: "order_ok ord \<Longrightarrow> parse_order (to_order_string ord) = Inr ord"
proof (cases ord)
  case (Fields terms)
  assume ok: "order_ok ord"
  let ?ps = "map (\<lambda>t. fs_field t @ '':'' @ dir_str (fs_dir t)) terms"
  have "CHR '','' \<notin> set p" if p: "p \<in> set ?ps" for p
  proof -
    obtain t where t: "t \<in> set terms" "p = fs_field t @ '':'' @ dir_str (fs_dir t)"
      using p by (auto simp only: set_map image_iff)
    then show ?thesis using ok Fields by (cases "fs_dir t") (auto simp: field_ok_def)
  qed
  then have split: "split_on (CHR '','') (join '','' ?ps) = ?ps"
    using ok Fields by (intro split_on_join) auto
  have "map_res (parse_term s) ?ps = Inr terms" for s
    using ok Fields by (intro map_res_all) (simp add: parse_term_print [simplified])
  moreover have "join '','' ?ps \<notin> {''manual'', ''random'', ''collection'', ''score''}"
    using joined_terms_colon [of terms] ok Fields by auto
  ultimately show ?thesis by (simp add: parse_order_def split [simplified] Fields)
qed (simp_all add: parse_order_def)

text \<open>
  Whatever sort order the parser accepts is well formed (at least one term,
  every field non-empty, trimmed and free of separators), and serialising it and parsing
  it back gives the same order; so the config fingerprint and a saved file keep it.
\<close>

theorem order_roundtrip:
  assumes "parse_order s = Inr ord"
  shows "order_ok ord \<and> parse_order (to_order_string ord) = Inr ord"
  using parse_order_ok [OF assms] parse_order_print by simp

theorem order_roundtrip_witness:
  "parse_order (to_order_string (Fields [\<lparr>fs_field = ''season'', fs_dir = Asc\<rparr>, \<lparr>fs_field = ''year'', fs_dir = Desc\<rparr>]))
     = Inr (Fields [\<lparr>fs_field = ''season'', fs_dir = Asc\<rparr>, \<lparr>fs_field = ''year'', fs_dir = Desc\<rparr>])"
proof -
  have "parse_order '' season , year:desc'' =
      Inr (Fields [\<lparr>fs_field = ''season'', fs_dir = Asc\<rparr>, \<lparr>fs_field = ''year'', fs_dir = Desc\<rparr>])"
    by code_simp
  from order_roundtrip [OF this] show ?thesis by simp
qed

text \<open>A take the loader can hold: a proper range within \<open>i64\<close>.\<close>

fun take_ok :: "take_spec \<Rightarrow> bool" where
  "take_ok (Range lo hi) = (lo < hi \<and> hi \<le> i64_max)"
| "take_ok (Count n) = True"
| "take_ok All = True"

lemma print_take_parse: "take_ok t \<Longrightarrow> parse_take (print_take t) = Inr t"
proof (cases t)
  case (Range lo hi)
  assume "take_ok t"
  moreover have "dec lo @ ''-'' @ dec hi \<noteq> ''all''"
    using dec_chars [of "hd (dec lo)" lo] by (cases "dec lo") (auto simp: is_digit_def)
  moreover have "split_once (CHR ''-'') (dec lo @ CHR ''-'' # dec hi) = Some (dec lo, dec hi)"
    by (simp add: split_once_append)
  ultimately show ?thesis
    by (simp add: Range trim_idle parse_i64_dec range_take_def)
qed simp_all

lemma range_take_ok: "range_take lo hi = Inr t \<Longrightarrow> hi \<le> int i64_max \<Longrightarrow> take_ok t"
  by (auto simp: range_take_def split: if_splits)

lemma parse_take_ok:
  assumes "parse_take v = Inr t" and "\<forall>kvs. v = TakeMap kvs \<longrightarrow> (\<forall>(k, n)\<in>set kvs. \<forall>i. n = Inr i \<longrightarrow> i \<le> int i64_max)"
  shows "take_ok t"
proof (cases v)
  case (TakeNum n)
  then show ?thesis using assms(1) by (auto split: if_splits)
next
  case (TakeStr s)
  then show ?thesis using assms(1)
    by (auto split: if_splits option.splits dest!: parse_i64_bound dest: range_take_ok)
next
  case (TakeMap kvs)
  have inv: "hi' = None \<or> the hi' \<le> int i64_max"
    if "take_map lo hi ks = Inr (lo', hi')" "\<forall>(k, n)\<in>set ks. \<forall>i. n = Inr i \<longrightarrow> i \<le> int i64_max"
      "hi = None \<or> the hi \<le> int i64_max" for lo hi ks lo' hi'
    using that by (induction lo hi ks rule: take_map.induct) (auto simp: bind_res_Inr_iff split: if_splits)
  obtain lo hi where m: "take_map None None kvs = Inr (Some lo, Some hi)" and r: "range_take lo hi = Inr t"
    using assms(1) TakeMap by (auto simp: bind_res_def split: sum.splits option.splits)
  have "hi \<le> int i64_max" using inv [OF m] assms(2) TakeMap by simp
  with r show ?thesis by (rule range_take_ok)
qed

text \<open>
  Every \<open>take\<close> the visitor accepts (a count, a range written either way, or
  \<open>all\<close>) is a count, \<open>all\<close>, or a range with \<open>min < max\<close>, and it survives being written out
  and read back.
\<close>

theorem take_roundtrip:
  assumes "parse_take v = Inr t"
    and "\<forall>kvs. v = TakeMap kvs \<longrightarrow> (\<forall>(k, n)\<in>set kvs. \<forall>i. n = Inr i \<longrightarrow> i \<le> int i64_max)"
  shows "take_ok t \<and> parse_take (print_take t) = Inr t"
  using parse_take_ok [OF assms] print_take_parse by simp

theorem take_roundtrip_witness:
  "parse_take (print_take (Range 2 4)) = Inr (Range 2 4)"
proof -
  have "parse_take (TakeMap [(''max'', Inr 4), (''min'', Inr 2)]) = Inr (Range 2 4)" by code_simp
  moreover have "\<forall>kvs. TakeMap [(''max'', Inr 4), (''min'', Inr 2)] = TakeMap kvs \<longrightarrow>
      (\<forall>(k, n)\<in>set kvs. \<forall>i. n = Inr i \<longrightarrow> i \<le> int i64_max)"
    by (simp add: i64_max_def)
  ultimately show ?thesis by (blast dest: take_roundtrip)
qed

section \<open>How much history a rule needs\<close>

lemma distances_elapsed:
  assumes "i < length xs"
  shows "snd (distances dur p e xs ! i) = \<lparr>d_positions = p + Suc i, d_elapsed = e + sum_list (map dur (take (Suc i) xs))\<rparr>"
  using assms
proof (induction xs arbitrary: p e i)
  case Nil
  then show ?case by simp
next
  case (Cons x xs)
  then show ?case by (cases i) (simp_all add: add.assoc)
qed

text \<open>
  The number of recently aired items the resolver fetches for a block's
  constraints is enough for the adjacency pass: as long as no item is shorter than the
  assumed minute, the pass never looks further back than \<open>Constraints::reach\<close>.
\<close>

theorem constraints_reach_suffices:
  assumes "\<forall>k\<in>set history. dur_of_secs min_assumed_item_secs \<le> ik_duration k"
  shows "history_needed history (limits_of c) \<le> constraints_reach c"
proof (rule ccontr)
  let ?b = "limits_reach (limits_of c)"
  let ?n = "history_needed history (limits_of c)"
  let ?ds = "distances ik_duration 0 0 (rev history)"
  assume far: "\<not> ?n \<le> constraints_reach c"
  then have n: "?n = length (walk_back history ?b)" "0 < ?n"
    by (auto simp: history_needed_def split: if_splits)
  let ?i = "?n - 1"
  have i: "?i < length (walk_back history ?b)" using n by simp
  have len: "length (distances f p e ys) = length ys" for f :: "item_keys \<Rightarrow> nat" and p e ys
    by (induction f p e ys rule: distances.induct) simp_all
  have ih: "?i < length (rev history)"
    using i length_takeWhile_le [of _ ?ds] by (simp add: walk_back_def len order.strict_trans2)
  have "\<not> exhausted_at ?b (snd (?ds ! ?i))"
  proof -
    have "walk_back history ?b ! ?i \<in> set (walk_back history ?b)" using i by simp
    then have "\<not> exhausted_at ?b (snd (walk_back history ?b ! ?i))"
      unfolding walk_back_def by (auto dest: set_takeWhileD)
    moreover have "walk_back history ?b ! ?i = ?ds ! ?i"
      using i unfolding walk_back_def by (rule takeWhile_nth)
    ultimately show ?thesis by simp
  qed
  then have near: "\<not> axes_exhausted ?n (sum_list (map ik_duration (take ?n (rev history)))) ?b"
    using ih n(2) by (simp add: distances_elapsed)
  have sum: "?n * dur_of_secs min_assumed_item_secs \<le> sum_list (map ik_duration (take ?n (rev history)))"
  proof -
    have "length (take ?n (rev history)) = ?n" using ih n(2) by simp
    moreover have "\<forall>k\<in>set (take ?n (rev history)). dur_of_secs min_assumed_item_secs \<le> ik_duration k"
      using assms by (auto dest: in_set_takeD)
    ultimately show ?thesis
      using sum_list_mono [of "take ?n (rev history)" "\<lambda>_. dur_of_secs min_assumed_item_secs" ik_duration]
      by (simp add: sum_list_triv)
  qed
  show False
  proof (cases "no_repeat_gap c")
    case (Positions m)
    then have "\<not> max m (separate_gap c) < ?n"
      using near by (simp add: axes_exhausted_def limits_reach_def limits_of_def)
    then have "?n \<le> max m (separate_gap c)" by (simp only: not_less)
    then show ?thesis using far Positions by (simp add: constraints_reach_def)
  next
    case (WithinDuration d)
    then have "?n \<le> separate_gap c \<or> sum_list (map ik_duration (take ?n (rev history))) \<le> d"
      using near by (auto simp: axes_exhausted_def limits_reach_def limits_of_def)
    then have "?n * 60 * 1000000000 \<le> d"
      using sum far by (auto simp: constraints_reach_def dur_of_secs_def min_assumed_item_secs_def)
    then have "?n * 60 \<le> dur_as_secs d" by (simp add: dur_as_secs_def less_eq_div_iff_mult_less_eq)
    then have "?n \<le> div_ceil (dur_as_secs d) min_assumed_item_secs"
      by (simp add: div_ceil_def min_assumed_item_secs_def less_eq_div_iff_mult_less_eq)
    then show ?thesis using far WithinDuration by (simp add: constraints_reach_def)
  qed
qed

definition day_rule :: constraints where
  "day_rule = constraints_default\<lparr>c_no_repeat_within := Some (WithinDuration (dur_of_secs 150))\<rparr>"

theorem constraints_reach_suffices_witness:
  "history_needed (replicate 9 \<lparr>ik_id = ''a'', ik_group = [], ik_duration = dur_of_secs 60\<rparr>) (limits_of day_rule) \<le> 3"
proof -
  have "\<forall>k\<in>set (replicate 9 \<lparr>ik_id = ''a'', ik_group = [], ik_duration = dur_of_secs 60\<rparr>).
      dur_of_secs min_assumed_item_secs \<le> ik_duration k"
    by (simp add: min_assumed_item_secs_def)
  from constraints_reach_suffices [OF this, of day_rule] show ?thesis
    by (simp add: day_rule_def constraints_default_def constraints_reach_def no_repeat_gap_def separate_gap_def
        div_ceil_def dur_as_secs_def dur_of_secs_def min_assumed_item_secs_def)
qed

end
