(* ===== verification/Variety.thy ===== *)
theory Variety
  imports Config
begin

text \<open>
  \<open>variety.rs\<close>: which seed and temperature a pool draws with at an instant, when either
  next changes, and the period a \<open>rotate: <span>\<close> pool holds its series for. The local
  clock is the offset function of the station's time zone (the \<open>time_tz\<close> database, a
  parameter): whole seconds east of UTC at an instant.
\<close>

definition derived_seed_base :: u64 where "derived_seed_base = 0x5EED0F574710A5C3"
definition temperature_base :: u64 where "temperature_base = 0x7E3BE7A70DE51A2B"

definition default_seed :: seed_spec where
  "default_seed = RotateSeed \<lparr>sr_rotate = dur_of_secs 86400, sr_cycle = None\<rparr>"

record dice =
  dice_seed :: u64
  dice_temperature :: f64
  dice_seed_period :: "int option"
  dice_temperature_period :: "int option"

definition fixed_dice :: "u64 \<Rightarrow> dice" where
  "fixed_dice seed =
     \<lparr>dice_seed = seed, dice_temperature = 0, dice_seed_period = None, dice_temperature_period = None\<rparr>"

definition dice_rotates :: "dice \<Rightarrow> bool" where
  "dice_rotates d \<longleftrightarrow> dice_seed_period d \<noteq> None \<or> dice_temperature_period d \<noteq> None"

definition period_label :: "int option \<Rightarrow> string" where
  "period_label p = (case p of None \<Rightarrow> ''-'' | Some p \<Rightarrow> dec_int p)"

text \<open>\<open>{:016x}\<close>: sixteen hexadecimal digits.\<close>

definition hex_digit :: "nat \<Rightarrow> char" where
  "hex_digit n = (if n < 10 then char_of (48 + n) else char_of (87 + n))"

definition hex16 :: "u64 \<Rightarrow> string" where
  "hex16 w = map (\<lambda>i. hex_digit (unat (drop_bit (4 * i) w AND 15))) (rev [0..<16])"

text \<open>\<open>pool_json\<close> is \<open>serde_json::to_string\<close> and \<open>f64_str\<close> is \<open>{}\<close> of an \<open>f64\<close>.\<close>

definition list_key :: "(pool \<Rightarrow> string) \<Rightarrow> (f64 \<Rightarrow> string) \<Rightarrow> dice \<Rightarrow> pool \<Rightarrow> string option" where
  "list_key pool_json f64_str d p =
     (if \<not> dice_rotates d then None
      else Some (''s'' @ hex16 (dice_seed d) @ ''.'' @ period_label (dice_seed_period d) @
                 ''/t'' @ f64_str (dice_temperature d) @ ''.'' @ period_label (dice_temperature_period d) @
                 ''/c'' @ hex16 (fnv1a_64 (pool_json p))))"

section \<open>The local clock\<close>

text \<open>\<open>OffsetDateTime::from_unix_timestamp\<close> refuses a year outside \<open>-9999..9999\<close>.\<close>

definition from_unix_timestamp :: "int \<Rightarrow> instant option" where
  "from_unix_timestamp s = (if -377705116800 \<le> s \<and> s \<le> 253402300799 then Some (at_unix s) else None)"

definition local_secs :: "(instant \<Rightarrow> int) \<Rightarrow> instant \<Rightarrow> int" where
  "local_secs offset t = unix_timestamp t + offset t"

definition cadence_secs :: "duration \<Rightarrow> int" where
  "cadence_secs d = int (max (dur_as_secs d) 1)"

definition period_of :: "int \<Rightarrow> duration \<Rightarrow> int" where
  "period_of local d = local div cadence_secs d"

definition local_to_utc :: "(instant \<Rightarrow> int) \<Rightarrow> int \<Rightarrow> instant \<Rightarrow> instant" where
  "local_to_utc offset local near =
     (let guess = (case from_unix_timestamp (local - offset near) of Some t \<Rightarrow> t | None \<Rightarrow> 0)
      in case from_unix_timestamp (local - offset guess) of Some t \<Rightarrow> t | None \<Rightarrow> guess)"

section \<open>Resolved values\<close>

record variety =
  v_seed :: "seed_spec option"
  v_temperature :: "temperature_spec option"
  v_channel :: string
  v_offset :: "instant \<Rightarrow> int"

definition variety_new ::
  "seed_spec option \<Rightarrow> temperature_spec option \<Rightarrow> string \<Rightarrow> (instant \<Rightarrow> int) \<Rightarrow> variety" where
  "variety_new seed temperature name offset =
     \<lparr>v_seed = seed, v_temperature = temperature, v_channel = trim name, v_offset = offset\<rparr>"

definition variety_fixed :: "u64 \<Rightarrow> variety" where
  "variety_fixed seed =
     \<lparr>v_seed = Some (FixedSeed seed), v_temperature = None, v_channel = [], v_offset = (\<lambda>_. 0)\<rparr>"

definition channel_salt :: "variety \<Rightarrow> u64" where
  "channel_salt v = fnv1a_64 (v_channel v)"

definition pool_salt :: "variety \<Rightarrow> pool option \<Rightarrow> u64" where
  "pool_salt v p =
     (let name = (case p of None \<Rightarrow> [] | Some p \<Rightarrow> p_name p) in fnv1a_64 (v_channel v @ ''/'' @ name))"

text \<open>\<open>list[p.rem_euclid(len)]\<close>; validation refuses an empty cycle, on which Rust would panic.\<close>

definition cycle_at :: "'a list \<Rightarrow> int \<Rightarrow> 'a" where
  "cycle_at xs p = xs ! nat (p mod int (length xs))"

definition seed_for :: "seed_spec \<Rightarrow> u64 \<Rightarrow> int \<Rightarrow> u64 \<times> int option" where
  "seed_for spec salt local =
     (case spec of
        FixedSeed n \<Rightarrow> (n, None)
      | RotateSeed r \<Rightarrow>
          let p = period_of local (sr_rotate r) in
          (case sr_cycle r of
             Some xs \<Rightarrow> cycle_at xs p
           | None \<Rightarrow> mix_seed (mix_seed derived_seed_base salt) (word_of_int p), Some p))"

definition temperature_for :: "temperature_spec option \<Rightarrow> u64 \<Rightarrow> int \<Rightarrow> f64 \<times> int option" where
  "temperature_for spec salt local =
     (case spec of
        None \<Rightarrow> (0, None)
      | Some (FixedTemperature t) \<Rightarrow> (t, None)
      | Some (RotateTemperature r) \<Rightarrow>
          let p = period_of local (tr_rotate r);
              between = (case tr_between r of
                Some (lo, hi) \<Rightarrow>
                  let draw = mix_seed (mix_seed temperature_base salt) (word_of_int p)
                  in f64_add lo (f64_mul (f64_sub hi lo) (unit_of draw))
              | None \<Rightarrow> 0)
          in (case tr_cycle r of
                Some xs \<Rightarrow> if xs \<noteq> [] then cycle_at xs p else between
              | None \<Rightarrow> between, Some p))"

definition seed_source :: "variety \<Rightarrow> pool option \<Rightarrow> seed_spec \<times> u64" where
  "seed_source v p =
     (case (Option.bind p p_seed, v_seed v) of
        (Some s, _) \<Rightarrow> (s, pool_salt v p)
      | (None, Some s) \<Rightarrow> (s, channel_salt v)
      | (None, None) \<Rightarrow> (default_seed, channel_salt v))"

definition temperature_source :: "variety \<Rightarrow> pool option \<Rightarrow> temperature_spec option \<times> u64" where
  "temperature_source v p =
     (case (Option.bind p p_temperature, v_temperature v) of
        (Some t, _) \<Rightarrow> (Some t, pool_salt v p)
      | (None, t) \<Rightarrow> (t, channel_salt v))"

definition dice_at :: "variety \<Rightarrow> instant \<Rightarrow> pool option \<Rightarrow> dice" where
  "dice_at v t p =
     (let local = local_secs (v_offset v) t;
          (seed_spec, seed_salt) = seed_source v p;
          (seed, seed_period) = seed_for seed_spec seed_salt local;
          (temp_spec, temp_salt) = temperature_source v p;
          (temperature, temperature_period) = temperature_for temp_spec temp_salt local
      in \<lparr>dice_seed = seed, dice_temperature = temperature, dice_seed_period = seed_period,
          dice_temperature_period = temperature_period\<rparr>)"

section \<open>Rollovers\<close>

fun seed_cadence :: "seed_spec option \<Rightarrow> duration list" where
  "seed_cadence (Some (RotateSeed r)) = [sr_rotate r]"
| "seed_cadence _ = []"

fun temperature_cadence :: "temperature_spec option \<Rightarrow> duration list" where
  "temperature_cadence (Some (RotateTemperature r)) = [tr_rotate r]"
| "temperature_cadence _ = []"

definition cadences :: "variety \<Rightarrow> pool list \<Rightarrow> duration list" where
  "cadences v pools =
     seed_cadence (Some (case v_seed v of Some s \<Rightarrow> s | None \<Rightarrow> default_seed)) @
     concat (map (\<lambda>p. seed_cadence (p_seed p)) pools) @
     temperature_cadence (v_temperature v) @
     concat (map (\<lambda>p. temperature_cadence (p_temperature p)) pools)"

definition hour :: int where
  "hour = 3600 * nanos_per_sec"

fun past_gap :: "nat \<Rightarrow> (instant \<Rightarrow> int) \<Rightarrow> instant \<Rightarrow> duration \<Rightarrow> int \<Rightarrow> instant \<Rightarrow> instant" where
  "past_gap 0 offset after c current t = t"
| "past_gap (Suc n) offset after c current t =
     (if t > after \<and> period_of (local_secs offset t) c \<noteq> current then t
      else past_gap n offset after c current (t + hour))"

definition cadence_rollover :: "(instant \<Rightarrow> int) \<Rightarrow> instant \<Rightarrow> duration \<Rightarrow> instant" where
  "cadence_rollover offset after c =
     (let secs = cadence_secs c;
          current = local_secs offset after div secs
      in past_gap 48 offset after c current (local_to_utc offset ((current + 1) * secs) after))"

definition next_rollover :: "variety \<Rightarrow> instant \<Rightarrow> pool list \<Rightarrow> instant option" where
  "next_rollover v after pools =
     (case map (cadence_rollover (v_offset v) after) (cadences v pools) of
        [] \<Rightarrow> None
      | t # ts \<Rightarrow> Some (foldl min t ts))"

definition week_secs :: int where "week_secs = 7 * 86400"
definition first_monday_secs :: int where "first_monday_secs = 4 * 86400"

definition span_anchor :: "duration \<Rightarrow> int" where
  "span_anchor d = (if cadence_secs d mod week_secs = 0 then first_monday_secs else 0)"

definition span_period :: "variety \<Rightarrow> instant \<Rightarrow> duration \<Rightarrow> instant \<times> instant" where
  "span_period v t d =
     (let secs = cadence_secs d;
          anchor = span_anchor d;
          start = anchor + (local_secs (v_offset v) t - anchor) div secs * secs
      in (local_to_utc (v_offset v) start t, local_to_utc (v_offset v) (start + secs) t))"

section \<open>A rollover lies ahead\<close>

lemma cadence_secs_pos [simp]: "0 < cadence_secs d"
  by (simp add: cadence_secs_def)

lemma past_gap_after: "after < t + int n * hour \<Longrightarrow> after < past_gap n offset after c current t"
  by (induction n offset after c current t rule: past_gap.induct) (simp_all add: algebra_simps)

text \<open>An instant far enough from the ends of the calendar for a cadence of \<open>c\<close>.\<close>

definition mid_calendar :: "instant \<Rightarrow> duration \<Rightarrow> bool" where
  "mid_calendar t c \<longleftrightarrow> \<bar>unix_timestamp t\<bar> + cadence_secs c \<le> 253000000000"

definition civil_offset :: "(instant \<Rightarrow> int) \<Rightarrow> bool" where
  "civil_offset offset \<longleftrightarrow> (\<forall>t. \<bar>offset t\<bar> \<le> 86400)"

lemma next_multiple:
  assumes "0 < (c :: int)"
  shows "l < (l div c + 1) * c" and "(l div c + 1) * c \<le> l + c" and "l div c * c \<le> l"
  using div_mult_mod_eq [of l c] pos_mod_bound [OF assms, of l] pos_mod_sign [OF assms, of l]
  unfolding distrib_right mult_1 by linarith+

lemma same_multiple:
  assumes "0 < (c :: int)" and "l div c * c \<le> l'" and "l' < (l div c + 1) * c"
  shows "l' div c = l div c"
proof -
  have "\<not> l div c + 1 \<le> l' div c"
    using mult_right_mono [of "l div c + 1" "l' div c" c] next_multiple(3) [OF assms(1), of l'] assms(1,3)
    by linarith
  moreover have "l div c \<le> l' div c" using zdiv_mono1 [OF assms(2,1)] assms(1) by simp
  ultimately show ?thesis by simp
qed

lemma next_boundary_range:
  assumes "mid_calendar t c" and "\<bar>off\<bar> \<le> 86400"
  defines "L \<equiv> ((unix_timestamp t + off) div cadence_secs c + 1) * cadence_secs c"
  shows "unix_timestamp t + off < L" and "L \<le> unix_timestamp t + off + cadence_secs c"
    and "\<bar>off'\<bar> \<le> 86400 \<Longrightarrow> from_unix_timestamp (L - off') = Some (at_unix (L - off'))"
proof -
  let ?l = "unix_timestamp t + off"
  let ?c = "cadence_secs c"
  show lo: "?l < L" and hi: "L \<le> ?l + ?c"
    unfolding L_def by (rule next_multiple [OF cadence_secs_pos])+
  show "from_unix_timestamp (L - off') = Some (at_unix (L - off'))" if "\<bar>off'\<bar> \<le> 86400"
    using lo hi that assms(1,2) cadence_secs_pos [of c] unfolding from_unix_timestamp_def mid_calendar_def
    by auto
qed

lemma cadence_rollover_after:
  assumes "civil_offset offset" and "mid_calendar after c"
  shows "after < cadence_rollover offset after c"
proof -
  let ?L = "(local_secs offset after div cadence_secs c + 1) * cadence_secs c"
  let ?guess = "at_unix (?L - offset after)"
  have off: "\<bar>offset t\<bar> \<le> 86400" for t using assms(1) by (simp add: civil_offset_def)
  note range = next_boundary_range [OF assms(2) off [of after], folded local_secs_def]
  have eq: "local_to_utc offset ?L after = at_unix (?L - offset ?guess)"
    using range(3) [OF off [of after]] range(3) [OF off [of ?guess]]
    by (simp add: local_to_utc_def)
  have "unix_timestamp after < ?L - offset ?guess + 172800"
    using range(1) off [of after] off [of ?guess] by (simp add: local_secs_def)
  then have "after < at_unix (?L - offset ?guess + 172800)" by (simp add: less_at_unix_iff)
  also have "\<dots> = at_unix (?L - offset ?guess) + int 48 * hour"
    by (simp add: at_unix_def hour_def algebra_simps)
  finally show ?thesis by (simp add: cadence_rollover_def Let_def eq past_gap_after)
qed

lemma foldl_min_mem: "foldl min t ts \<in> set (t # ts)"
  by (induction ts arbitrary: t) (auto simp: min_def)

lemma foldl_min_le: "x \<in> set (t # ts) \<Longrightarrow> foldl min t ts \<le> (x :: int)"
proof (induction ts arbitrary: t x)
  case Nil
  then show ?case by simp
next
  case (Cons u us)
  show ?case
  proof (cases "x \<in> set us")
    case True
    then show ?thesis using Cons.IH [of x "min t u"] by simp
  next
    case False
    then have "min t u \<le> x" using Cons.prems by (auto simp: min_def)
    have "foldl min (min t u) us \<le> min t u" by (rule Cons.IH) simp
    also note \<open>min t u \<le> x\<close>
    finally show ?thesis by simp
  qed
qed

lemma next_rollover_cases:
  assumes "next_rollover v after pools = Some r"
  shows "\<exists>c\<in>set (cadences v pools). r = cadence_rollover (v_offset v) after c"
    and "\<forall>c\<in>set (cadences v pools). r \<le> cadence_rollover (v_offset v) after c"
proof -
  let ?rs = "map (cadence_rollover (v_offset v) after) (cadences v pools)"
  obtain t ts where rs: "?rs = t # ts" and r: "r = foldl min t ts"
    using assms by (auto simp: next_rollover_def split: list.splits)
  have "r \<in> set ?rs" unfolding rs r by (rule foldl_min_mem)
  then show "\<exists>c\<in>set (cadences v pools). r = cadence_rollover (v_offset v) after c" by auto
  have "r \<le> x" if "x \<in> set ?rs" for x using that unfolding rs r by (rule foldl_min_le)
  then show "\<forall>c\<in>set (cadences v pools). r \<le> cadence_rollover (v_offset v) after c" by simp
qed

text \<open>
  The next rollover is strictly in the future whatever the time zone does: for
  any offset function within a day of UTC, however it jumps at a transition, the hourly
  search past a gap ends after the instant it started from. A generation cut at the
  rollover therefore always makes progress.
\<close>

theorem next_rollover_progresses:
  assumes "civil_offset (v_offset v)" and "\<forall>c\<in>set (cadences v pools). mid_calendar after c"
    and "next_rollover v after pools = Some r"
  shows "after < r"
proof -
  obtain c where "c \<in> set (cadences v pools)" "r = cadence_rollover (v_offset v) after c"
    using next_rollover_cases(1) [OF assms(3)] by blast
  then show ?thesis using assms(1,2) cadence_rollover_after by simp
qed

text \<open>A zone that springs forward an hour at the epoch, asked in the hour before.\<close>

definition jumping_variety :: variety where
  "jumping_variety = variety_new None None ''c'' (\<lambda>t. if t < 0 then - 21600 else - 18000)"

theorem next_rollover_progresses_witness:
  "case next_rollover jumping_variety (at_unix (- 60)) [] of None \<Rightarrow> False | Some r \<Rightarrow> at_unix (- 60) < r"
proof -
  have "civil_offset (v_offset jumping_variety)"
    by (simp add: civil_offset_def jumping_variety_def variety_new_def)
  moreover have "\<forall>c\<in>set (cadences jumping_variety []). mid_calendar (at_unix (- 60)) c"
    by (simp add: cadences_def jumping_variety_def variety_new_def default_seed_def mid_calendar_def
        cadence_secs_def dur_as_secs_def dur_of_secs_def)
  moreover obtain r where "next_rollover jumping_variety (at_unix (- 60)) [] = Some r"
    by (simp add: next_rollover_def cadences_def jumping_variety_def variety_new_def default_seed_def)
  ultimately show ?thesis using next_rollover_progresses by fastforce
qed

section \<open>Values hold for a period\<close>

lemma cadence_rollover_const:
  assumes const: "\<And>t. offset t = off" and "\<bar>off\<bar> \<le> 86400" and "mid_calendar after c"
  shows "cadence_rollover offset after c =
           at_unix ((local_secs offset after div cadence_secs c + 1) * cadence_secs c - off)"
proof -
  let ?L = "(local_secs offset after div cadence_secs c + 1) * cadence_secs c"
  note range = next_boundary_range [OF assms(3,2), folded local_secs_def]
  have L: "?L = ((unix_timestamp after + off) div cadence_secs c + 1) * cadence_secs c"
    by (simp add: local_secs_def const)
  have eq: "local_to_utc offset ?L after = at_unix (?L - off)"
    using range(3) [OF assms(2)] by (simp add: local_to_utc_def const L)
  have "after < at_unix (?L - off)"
    using range(1) by (simp add: L less_at_unix_iff)
  moreover have "period_of (local_secs offset (at_unix (?L - off))) c \<noteq> local_secs offset after div cadence_secs c"
    by (simp add: local_secs_def const period_of_def less_imp_neq [OF cadence_secs_pos, symmetric])
  ultimately show ?thesis
    by (simp add: cadence_rollover_def Let_def eq numeral_eq_Suc)
qed

lemma period_constant:
  assumes const: "\<And>t. offset t = off" and "\<bar>off\<bar> \<le> 86400" and "mid_calendar after c"
    and "after \<le> t" and "t < cadence_rollover offset after c"
  shows "period_of (local_secs offset t) c = period_of (local_secs offset after) c"
proof -
  let ?l = "local_secs offset after" and ?l' = "local_secs offset t" and ?c = "cadence_secs c"
  have "?l \<le> ?l'" using assms(4) by (simp add: local_secs_def const unix_timestamp_mono)
  then have "?l div ?c * ?c \<le> ?l'" using next_multiple(3) [OF cadence_secs_pos, of ?l c] by linarith
  moreover have "?l' < (?l div ?c + 1) * ?c"
    using assms(5) by (simp add: cadence_rollover_const [OF const assms(2,3)] less_at_unix_iff local_secs_def const)
  ultimately show ?thesis unfolding period_of_def by (intro same_multiple cadence_secs_pos)
qed

lemma seed_for_cong:
  "(\<And>c. c \<in> set (seed_cadence (Some s)) \<Longrightarrow> period_of l c = period_of l' c) \<Longrightarrow> seed_for s salt l = seed_for s salt l'"
  by (cases s) (simp_all add: seed_for_def)

lemma temperature_for_cong:
  "(\<And>c. c \<in> set (temperature_cadence s) \<Longrightarrow> period_of l c = period_of l' c) \<Longrightarrow>
     temperature_for s salt l = temperature_for s salt l'"
  by (cases s; cases "the s") (auto simp: temperature_for_def)

lemma seed_source_cadence:
  assumes "case p of None \<Rightarrow> True | Some q \<Rightarrow> q \<in> set pools"
  shows "set (seed_cadence (Some (fst (seed_source v p)))) \<subseteq> set (cadences v pools)"
  using assms
  by (cases p; cases "Option.bind p p_seed"; cases "v_seed v") (force simp: seed_source_def cadences_def)+

lemma temperature_source_cadence:
  assumes "case p of None \<Rightarrow> True | Some q \<Rightarrow> q \<in> set pools"
  shows "set (temperature_cadence (fst (temperature_source v p))) \<subseteq> set (cadences v pools)"
  using assms
  by (cases p; cases "Option.bind p p_temperature") (force simp: temperature_source_def cadences_def)+

text \<open>
  On a clock with a fixed offset, the dice of the channel and of every pool
  passed to \<open>next_rollover\<close> hold until the instant it returns: between a generation's
  start and the rollover it is cut at, no seed, no temperature and no period changes,
  so the whole generation draws with one set of dice.
\<close>

theorem dice_hold_until_rollover:
  assumes "\<And>t. v_offset v t = off" and "\<bar>off\<bar> \<le> 86400"
    and "\<forall>c\<in>set (cadences v pools). mid_calendar after c"
    and "after \<le> t" and "case next_rollover v after pools of None \<Rightarrow> True | Some r \<Rightarrow> t < r"
    and "case p of None \<Rightarrow> True | Some q \<Rightarrow> q \<in> set pools"
  shows "dice_at v t p = dice_at v after p"
proof -
  have same: "period_of (local_secs (v_offset v) t) c = period_of (local_secs (v_offset v) after) c"
    if c: "c \<in> set (cadences v pools)" for c
  proof -
    have "cadences v pools \<noteq> []" using c by auto
    then obtain r where r: "next_rollover v after pools = Some r"
      by (cases "cadences v pools") (simp_all add: next_rollover_def)
    then have "t < cadence_rollover (v_offset v) after c"
      using next_rollover_cases(2) [OF r] c assms(5) by fastforce
    then show ?thesis using period_constant assms(1-4) c by blast
  qed
  have "seed_for (fst (seed_source v p)) salt (local_secs (v_offset v) t) =
      seed_for (fst (seed_source v p)) salt (local_secs (v_offset v) after)" for salt
    using same seed_source_cadence [OF assms(6)] by (intro seed_for_cong) blast
  moreover have "temperature_for (fst (temperature_source v p)) salt (local_secs (v_offset v) t) =
      temperature_for (fst (temperature_source v p)) salt (local_secs (v_offset v) after)" for salt
    using same temperature_source_cadence [OF assms(6)] by (intro temperature_for_cong) blast
  ultimately show ?thesis by (simp add: dice_at_def Let_def case_prod_unfold)
qed

definition plain_variety :: variety where
  "plain_variety = variety_new None None ''c'' (\<lambda>_. - 21600)"

theorem dice_hold_until_rollover_witness:
  "dice_at plain_variety (at_unix 90000) None = dice_at plain_variety (at_unix 30000) None"
proof -
  have mid: "\<forall>c\<in>set (cadences plain_variety []). mid_calendar (at_unix 30000) c"
    by (simp add: cadences_def plain_variety_def variety_new_def default_seed_def mid_calendar_def
        cadence_secs_def dur_as_secs_def dur_of_secs_def)
  have cads: "cadences plain_variety [] = [dur_of_secs 86400]"
    by (simp add: cadences_def plain_variety_def variety_new_def default_seed_def)
  have off: "v_offset plain_variety t = - 21600" for t
    by (simp add: plain_variety_def variety_new_def)
  have "next_rollover plain_variety (at_unix 30000) [] = Some (at_unix 108000)"
    using cadence_rollover_const [of "v_offset plain_variety" "- 21600" "at_unix 30000" "dur_of_secs 86400"] mid cads off
    by (simp add: next_rollover_def local_secs_def cadence_secs_def dur_as_secs_def dur_of_secs_def)
  then show ?thesis
    using dice_hold_until_rollover [of plain_variety "- 21600" "[]" "at_unix 30000" "at_unix 90000" None] off mid
    by simp
qed

section \<open>Derived seeds and spans\<close>

text \<open>
  A rotating seed with no authored cycle really changes: at two instants of
  different periods (fewer than \<open>2^64\<close> apart) the channel, or a pool with a seed of its
  own, draws with different seeds.
\<close>

theorem derived_seeds_differ:
  assumes "fst (seed_source v p) = RotateSeed r" and "sr_cycle r = None"
    and "period_of (local_secs (v_offset v) t) (sr_rotate r) = i"
    and "period_of (local_secs (v_offset v) t') (sr_rotate r) = j"
    and "i \<noteq> j" and "\<bar>i - j\<bar> < 2 ^ 64"
  shows "dice_seed (dice_at v t p) \<noteq> dice_seed (dice_at v t' p)"
proof -
  have "(word_of_int i :: u64) \<noteq> word_of_int j"
  proof
    assume "(word_of_int i :: u64) = word_of_int j"
    then have "i mod 2 ^ 64 = j mod 2 ^ 64"
      by (simp add: word_of_int_eq_iff take_bit_eq_mod)
    then have "2 ^ 64 dvd i - j" by (simp add: mod_eq_dvd_iff)
    then show False using dvd_imp_le_int [of "i - j" "2 ^ 64"] assms(5,6) by simp
  qed
  then show ?thesis
    using assms(1-4) mix_seed_inj_right
    by (auto simp: dice_at_def Let_def case_prod_unfold seed_for_def)
qed

theorem derived_seeds_differ_witness:
  "dice_seed (dice_at plain_variety (at_unix 30000) None) \<noteq> dice_seed (dice_at plain_variety (at_unix 110000) None)"
proof -
  have "fst (seed_source plain_variety None) = RotateSeed \<lparr>sr_rotate = dur_of_secs 86400, sr_cycle = None\<rparr>"
    by (simp add: seed_source_def plain_variety_def variety_new_def default_seed_def)
  then show ?thesis
    by (rule derived_seeds_differ [where i = 0 and j = 1])
      (simp_all add: plain_variety_def variety_new_def local_secs_def period_of_def cadence_secs_def
        dur_as_secs_def dur_of_secs_def)
qed

text \<open>
  On a clock with a fixed offset, the period of a \<open>rotate: <span>\<close> pool holds
  the instant asked about, is exactly one span long, is the same period for every instant
  in it, and ends where the next one begins; a span of whole weeks starts on a Monday.
\<close>

theorem span_period_tiles:
  assumes "\<And>t. v_offset v t = off" and "\<bar>off\<bar> \<le> 86400" and "mid_calendar t d"
  defines "start \<equiv> fst (span_period v t d)" and "stop \<equiv> snd (span_period v t d)"
  shows "start \<le> t \<and> t < stop \<and> stop - start = cadence_secs d * nanos_per_sec \<and>
         (\<forall>t'. start \<le> t' \<and> t' < stop \<and> mid_calendar t' d \<longrightarrow> span_period v t' d = (start, stop)) \<and>
         (mid_calendar stop d \<longrightarrow> fst (span_period v stop d) = stop) \<and>
         (cadence_secs d mod week_secs = 0 \<longrightarrow>
            (local_secs (v_offset v) start - first_monday_secs) mod week_secs = 0)"
proof -
  let ?c = "cadence_secs d" and ?a = "span_anchor d"
  define first where "first u = ?a + (unix_timestamp u + off - ?a) div ?c * ?c" for u
  have anchor: "0 \<le> ?a" "?a \<le> 345600" by (simp_all add: span_anchor_def first_monday_secs_def)
  have within: "first u \<le> unix_timestamp u + off" "unix_timestamp u + off < first u + ?c" for u
    using next_multiple [OF cadence_secs_pos, of "unix_timestamp u + off - ?a" d]
    by (simp_all add: first_def distrib_right)
  have period: "span_period v u d = (at_unix (first u - off), at_unix (first u + ?c - off))"
    if "mid_calendar u d" for u
  proof -
    have "from_unix_timestamp (first u - off) = Some (at_unix (first u - off))"
      and "from_unix_timestamp (first u + ?c - off) = Some (at_unix (first u + ?c - off))"
      using that within [of u] assms(2) cadence_secs_pos [of d]
      unfolding from_unix_timestamp_def mid_calendar_def by auto
    then show ?thesis
      by (simp add: span_period_def Let_def local_secs_def assms(1) local_to_utc_def first_def [symmetric])
  qed
  have se: "start = at_unix (first t - off)" "stop = at_unix (first t + ?c - off)"
    using period [OF assms(3)] by (simp_all add: start_def stop_def)
  have inside: "start \<le> t" "t < stop"
    using within [of t] by (simp_all add: se at_unix_le_iff_timestamp less_at_unix_iff)
  have same: "first u = first t" if "start \<le> u" "u < stop" for u
  proof -
    have "first t \<le> unix_timestamp u + off" "unix_timestamp u + off < first t + ?c"
      using that by (simp_all add: se at_unix_le_iff_timestamp less_at_unix_iff)
    then have "(unix_timestamp u + off - ?a) div ?c = (unix_timestamp t + off - ?a) div ?c"
      by (intro same_multiple) (simp_all add: first_def distrib_right)
    then show ?thesis by (simp add: first_def)
  qed
  have "first stop = first t + ?c"
    by (simp add: first_def se algebra_simps less_imp_neq [OF cadence_secs_pos, symmetric])
  then have "mid_calendar stop d \<longrightarrow> fst (span_period v stop d) = stop"
    using period [of stop] by (simp add: se)
  moreover have "stop - start = ?c * nanos_per_sec"
    by (simp add: se at_unix_def algebra_simps)
  moreover have "(local_secs (v_offset v) start - first_monday_secs) mod week_secs = 0" if "?c mod week_secs = 0"
  proof -
    have "local_secs (v_offset v) start - first_monday_secs = (unix_timestamp t + off - ?a) div ?c * ?c"
      using that by (simp add: local_secs_def assms(1) se first_def span_anchor_def)
    then show ?thesis using that by (simp add: mod_eq_0_iff_dvd)
  qed
  moreover have "\<forall>t'. start \<le> t' \<and> t' < stop \<and> mid_calendar t' d \<longrightarrow> span_period v t' d = (start, stop)"
    using same period by (simp add: se)
  ultimately show ?thesis using inside by blast
qed

theorem span_period_tiles_witness:
  "fst (span_period plain_variety (at_unix 1000000) (dur_of_secs 604800)) \<le> at_unix 1000000 \<and>
   (local_secs (v_offset plain_variety) (fst (span_period plain_variety (at_unix 1000000) (dur_of_secs 604800)))
      - first_monday_secs) mod week_secs = 0"
proof -
  obtain t d where t: "t = at_unix 1000000" and d: "d = dur_of_secs 604800" by blast
  have off: "v_offset plain_variety t = - 21600" for t
    by (simp add: plain_variety_def variety_new_def)
  have small: "\<bar>- 21600 :: int\<bar> \<le> 86400" by simp
  have mid: "mid_calendar t d"
    by (simp add: t d mid_calendar_def cadence_secs_def dur_as_secs_def dur_of_secs_def)
  have week: "cadence_secs d mod week_secs = 0"
    by (simp add: d cadence_secs_def dur_as_secs_def dur_of_secs_def week_secs_def)
  note tiles = span_period_tiles [OF off small mid]
  from tiles have "fst (span_period plain_variety t d) \<le> t" by (rule conjunct1)
  moreover from tiles have "cadence_secs d mod week_secs = 0 \<longrightarrow>
      (local_secs (v_offset plain_variety) (fst (span_period plain_variety t d)) - first_monday_secs) mod week_secs = 0"
    by (elim conjE)
  note mp [OF this week]
  ultimately show ?thesis unfolding t d by (rule conjI)
qed

end
