(* ===== verification/Resume.thy ===== *)
theory Resume
  imports Config
begin

text \<open>
  The \<open>.resume\<close> sidecar of \<open>resume.rs\<close>: what one channel persists between generations,
  the checkpoint trail that lets a wipe rewind the scheduling state, and the frozen lists
  that live exactly as long as a rewind can land on them. The abstraction is
  \<open>state_at\<close>: the trail as a function from an instant to the state that holds there.
\<close>

section \<open>The sidecar's data\<close>

record hold =
  hold_series :: string
  hold_title :: "string option"
  hold_period_start :: instant
  hold_period_end :: instant

record pool_resume =
  pr_next :: "string option"
  pr_cycle :: nat
  pr_step :: nat
  pr_done :: nat
  pr_pattern :: "string option"
  pr_list :: "string option"
  pr_lap :: "string list"
  pr_drawn :: "string list"
  pr_hold :: "hold option"

definition pool_resume_default :: pool_resume where
  "pool_resume_default =
     \<lparr>pr_next = None, pr_cycle = 0, pr_step = 0, pr_done = 0, pr_pattern = None, pr_list = None,
      pr_lap = [], pr_drawn = [], pr_hold = None\<rparr>"

record rotation_draw =
  rd_member :: string
  rd_at :: instant

record rotation_resume =
  rr_cycle :: nat
  rr_drawn :: "string list"
  rr_recent :: "rotation_draw list"

definition rotation_resume_default :: rotation_resume where
  "rotation_resume_default = \<lparr>rr_cycle = 0, rr_drawn = [], rr_recent = []\<rparr>"

record frozen_extra =
  fe_metadata :: "json option"
  fe_take :: "nat option"

record frozen_list =
  fl_key :: string
  fl_ids :: "string list"
  fl_extras :: "(string, frozen_extra) btree"

text \<open>
  The four fields a checkpoint, a generation's progress and the sidecar share; the
  other two records extend them.
\<close>

record progress =
  st_pools :: "(string, pool_resume) btree"
  st_position :: nat
  st_slot_positions :: "(string, nat) btree"
  st_rotations :: "(string, rotation_resume) btree"

record checkpoint = progress +
  cp_start :: instant

record resume_map = progress +
  rm_version :: nat
  rm_checkpoints :: "checkpoint list"
  rm_config_id :: "string option"
  rm_lists :: "(string, frozen_list list) btree"

definition state_of :: "'z progress_scheme \<Rightarrow> progress" where
  "state_of m =
     \<lparr>st_pools = st_pools m, st_position = st_position m, st_slot_positions = st_slot_positions m,
      st_rotations = st_rotations m\<rparr>"

definition checkpoint_of :: "instant \<Rightarrow> 'z progress_scheme \<Rightarrow> checkpoint" where
  "checkpoint_of start p =
     \<lparr>st_pools = st_pools p, st_position = st_position p, st_slot_positions = st_slot_positions p,
      st_rotations = st_rotations p, cp_start = start\<rparr>"

definition current_version :: nat where "current_version = 1"

definition resume_new :: resume_map where
  "resume_new =
     \<lparr>st_pools = [], st_position = 0, st_slot_positions = [], st_rotations = [],
      rm_version = current_version, rm_checkpoints = [], rm_config_id = None, rm_lists = []\<rparr>"

definition resume_pool :: "resume_map \<Rightarrow> string \<Rightarrow> pool_resume option" where
  "resume_pool m name = bt_get (st_pools m) name"

definition resume_is_empty :: "resume_map \<Rightarrow> bool" where
  "resume_is_empty m \<longleftrightarrow>
     st_pools m = [] \<and> st_position m = 0 \<and> st_slot_positions m = [] \<and> st_rotations m = []"

section \<open>The checkpoint trail\<close>

definition checkpoint_push :: "instant \<Rightarrow> resume_map \<Rightarrow> resume_map" where
  "checkpoint_push start m = m\<lparr>rm_checkpoints := rm_checkpoints m @ [checkpoint_of start m]\<rparr>"

definition checkpoint_at :: "instant \<Rightarrow> progress \<Rightarrow> resume_map \<Rightarrow> resume_map" where
  "checkpoint_at start p m =
     (let skip = (case rm_checkpoints m of
            [] \<Rightarrow> False
          | cs \<Rightarrow> (let latest = last cs in
              cp_start latest \<ge> start \<or>
              (st_pools latest = st_pools p \<and> st_position latest = st_position p \<and>
               st_slot_positions latest = st_slot_positions p \<and> st_rotations latest = st_rotations p)))
      in if skip then m
         else m\<lparr>rm_checkpoints := rm_checkpoints m @ [checkpoint_of start p]\<rparr>)"

text \<open>Which \<open>(pool, list key)\<close> pairs the current state or a surviving checkpoint names.\<close>

definition wanted_lists :: "resume_map \<Rightarrow> (string \<times> string) list" where
  "wanted_lists m =
     concat (map (\<lambda>pools. List.map_filter (\<lambda>(name, pool). map_option (\<lambda>key. (name, key)) (pr_list pool)) pools)
       (st_pools m # map st_pools (rm_checkpoints m)))"

definition prune_lists :: "resume_map \<Rightarrow> resume_map" where
  "prune_lists m =
     (let wanted = wanted_lists m;
          kept = map (\<lambda>(name, ls). (name, filter (\<lambda>l. (name, fl_key l) \<in> set wanted) ls)) (rm_lists m)
      in m\<lparr>rm_lists := filter (\<lambda>(_, ls). ls \<noteq> []) kept\<rparr>)"

definition prune_elapsed :: "instant \<Rightarrow> resume_map \<Rightarrow> resume_map" where
  "prune_elapsed now m = m\<lparr>rm_checkpoints := filter (\<lambda>c. cp_start c > now) (rm_checkpoints m)\<rparr>"

definition adopt :: "resume_map \<Rightarrow> instant \<Rightarrow> resume_map \<Rightarrow> resume_map" where
  "adopt next now m =
     prune_lists (prune_elapsed now
       (next\<lparr>rm_checkpoints := rm_checkpoints m, rm_config_id := rm_config_id m\<rparr>))"

text \<open>The \<open>while\<close> pops the newest draws; the list is walked from its end.\<close>

fun forget_draws :: "instant \<Rightarrow> rotation_draw list \<Rightarrow> string list \<Rightarrow> rotation_draw list \<times> string list" where
  "forget_draws instant [] drawn = ([], drawn)"
| "forget_draws instant (d # newest_first) drawn =
     (if rd_at d \<ge> instant
      then forget_draws instant newest_first (filter (\<lambda>m. m \<noteq> rd_member d) drawn)
      else (d # newest_first, drawn))"

definition forget_rotation :: "instant \<Rightarrow> rotation_resume \<Rightarrow> rotation_resume" where
  "forget_rotation instant r =
     (let (left, drawn) = forget_draws instant (rev (rr_recent r)) (rr_drawn r)
      in r\<lparr>rr_recent := rev left, rr_drawn := drawn\<rparr>)"

definition forget_rotation_draws_from :: "instant \<Rightarrow> resume_map \<Rightarrow> resume_map" where
  "forget_rotation_draws_from instant m =
     m\<lparr>st_rotations := map (\<lambda>(name, r). (name, forget_rotation instant r)) (st_rotations m)\<rparr>"

definition rewind_to :: "instant \<Rightarrow> resume_map \<Rightarrow> (resume_map \<times> instant) option" where
  "rewind_to instant m =
     (case rposition (\<lambda>c. cp_start c \<le> instant) (rm_checkpoints m) of
        None \<Rightarrow> None
      | Some idx \<Rightarrow>
          let cp = rm_checkpoints m ! idx in
          Some (m\<lparr>st_pools := st_pools cp, st_position := st_position cp,
                  st_slot_positions := st_slot_positions cp, st_rotations := st_rotations cp,
                  rm_checkpoints := take idx (rm_checkpoints m)\<rparr>, cp_start cp))"

section \<open>Loading\<close>

record generation_state =
  gs_resume :: resume_map
  gs_cursor :: "(string, string) btree"
  gs_global_cursor :: "(string, string) btree"
  gs_tail :: "string list"

text \<open>The derived \<open>Default\<close>: unlike \<open>new\<close>, its version is zero.\<close>

definition resume_default :: resume_map where
  "resume_default = resume_new\<lparr>rm_version := 0\<rparr>"

definition generation_state_empty :: generation_state where
  "generation_state_empty = \<lparr>gs_resume = resume_default, gs_cursor = [], gs_global_cursor = [], gs_tail = []\<rparr>"

definition is_fresh :: "generation_state \<Rightarrow> bool" where
  "is_fresh s \<longleftrightarrow> resume_is_empty (gs_resume s) \<and> gs_cursor s = []"

datatype resume_load = Fresh | Loaded | Discarded string

text \<open>
  Reading the file: \<open>NotFound\<close> starts fresh, another failure is the caller's error, and
  bytes go through \<open>decode\<close> (\<open>serde_json\<close>, a parameter). A version the binary does not
  know is discarded, never guessed at.
\<close>

datatype 'b read_outcome = ReadBytes 'b | ReadNotFound | ReadFailed string

definition parse_sidecar :: "('b \<Rightarrow> resume_map result) \<Rightarrow> 'b \<Rightarrow> resume_map \<times> resume_load" where
  "parse_sidecar decode bytes =
     (case decode bytes of
        Inr m \<Rightarrow>
          if rm_version m = current_version then (m, Loaded)
          else (resume_new,
                Discarded (''sidecar version '' @ dec (rm_version m) @ '' is not '' @ dec current_version))
      | Inl e \<Rightarrow> (resume_new, Discarded e))"

definition load_sidecar :: "('b \<Rightarrow> resume_map result) \<Rightarrow> 'b read_outcome \<Rightarrow> (resume_map \<times> resume_load) result" where
  "load_sidecar decode outcome =
     (case outcome of
        ReadNotFound \<Rightarrow> Inr (resume_new, Fresh)
      | ReadFailed e \<Rightarrow> Inl e
      | ReadBytes bytes \<Rightarrow> Inr (parse_sidecar decode bytes))"

record hold_row =
  hr_pool :: string
  hr_series :: string
  hr_title :: string
  hr_period_start :: instant
  hr_period_end :: instant

definition read_holds :: "('b \<Rightarrow> resume_map result) \<Rightarrow> 'b read_outcome \<Rightarrow> instant \<Rightarrow> hold_row list" where
  "read_holds decode outcome now =
     (case outcome of
        ReadBytes bytes \<Rightarrow>
          List.map_filter (\<lambda>(pool, state). case pr_hold state of
              None \<Rightarrow> None
            | Some h \<Rightarrow>
                if hold_period_end h > now
                then Some \<lparr>hr_pool = pool, hr_series = hold_series h,
                           hr_title = (case hold_title h of Some t \<Rightarrow> t | None \<Rightarrow> hold_series h),
                           hr_period_start = hold_period_start h, hr_period_end = hold_period_end h\<rparr>
                else None)
            (st_pools (fst (parse_sidecar decode bytes)))
      | _ \<Rightarrow> [])"

text \<open>
  What the daemon records for one generation: the state entering it at \<open>from\<close>, then the
  state at every item boundary after \<open>from\<close>.
\<close>

definition checkpoint_generation :: "instant \<Rightarrow> (instant \<times> progress) list \<Rightarrow> resume_map \<Rightarrow> resume_map" where
  "checkpoint_generation from spans m =
     fold (\<lambda>(start, p) m. if start > from then checkpoint_at start p m else m) spans
       (checkpoint_push from m)"

text \<open>
  After a wipe: rewind to where the surviving schedule ends, or, when no checkpoint
  covers it, forget the rotation draws made for what was wiped.
\<close>

definition rewind_or_forget :: "instant \<Rightarrow> resume_map \<Rightarrow> resume_map" where
  "rewind_or_forget frontier m =
     (case rewind_to frontier m of
        Some (m', _) \<Rightarrow> m'
      | None \<Rightarrow> forget_rotation_draws_from frontier m)"

section \<open>The trail as a function of time\<close>

definition state_at :: "resume_map \<Rightarrow> instant \<Rightarrow> progress option" where
  "state_at m t =
     map_option (\<lambda>i. state_of (rm_checkpoints m ! i)) (rposition (\<lambda>c. cp_start c \<le> t) (rm_checkpoints m))"

definition trail_ok :: "resume_map \<Rightarrow> bool" where
  "trail_ok m \<longleftrightarrow> sorted_wrt (<) (map cp_start (rm_checkpoints m))"

definition covers :: "resume_map \<Rightarrow> instant \<Rightarrow> bool" where
  "covers m t \<longleftrightarrow> rm_checkpoints m \<noteq> [] \<and> cp_start (last (rm_checkpoints m)) \<ge> t"

lemma state_of_checkpoint_of [resume_simps, simp]: "state_of (checkpoint_of s p) = state_of p"
  by (simp add: state_of_def checkpoint_of_def)

lemma state_of_progress [resume_simps, simp]: "state_of (p :: progress) = p"
  by (simp add: state_of_def)

lemma cp_start_checkpoint_of [resume_simps, simp]: "cp_start (checkpoint_of s p) = s"
  by (simp add: checkpoint_of_def)

lemma rposition_snoc:
  "rposition P (xs @ [x]) = (if P x then Some (length xs) else rposition P xs)"
  by (induction xs) (auto split: option.splits)

lemma state_at_snoc:
  "rm_checkpoints m' = rm_checkpoints m @ [c] \<Longrightarrow>
     state_at m' t = (if cp_start c \<le> t then Some (state_of c) else state_at m t)"
  by (auto simp: state_at_def rposition_snoc nth_append map_option_case
      split: option.splits dest: rposition_SomeD)

lemma trail_ok_last:
  "trail_ok m \<Longrightarrow> c \<in> set (rm_checkpoints m) \<Longrightarrow> cp_start c \<le> cp_start (last (rm_checkpoints m))"
  by (cases "rm_checkpoints m" rule: rev_cases) (auto simp: trail_ok_def sorted_wrt_append)

lemma state_at_beyond_last:
  "rm_checkpoints m \<noteq> [] \<Longrightarrow> cp_start (last (rm_checkpoints m)) \<le> t \<Longrightarrow>
     state_at m t = Some (state_of (last (rm_checkpoints m)))"
  by (cases "rm_checkpoints m" rule: rev_cases) (simp_all add: state_at_def rposition_snoc)

lemma checkpoint_at_cases:
  obtains (skip) "checkpoint_at s p m = m" "covers m s"
    | (same) "checkpoint_at s p m = m" "\<not> covers m s" "rm_checkpoints m \<noteq> []"
        "state_of (last (rm_checkpoints m)) = p"
    | (push) "rm_checkpoints (checkpoint_at s p m) = rm_checkpoints m @ [checkpoint_of s p]"
        "\<not> covers m s"
proof (cases "rm_checkpoints m")
  case Nil
  then show ?thesis by (intro push) (simp_all add: checkpoint_at_def covers_def)
next
  case (Cons c cs)
  let ?l = "last (rm_checkpoints m)"
  consider "cp_start ?l \<ge> s" | "\<not> cp_start ?l \<ge> s" "state_of ?l = p" | "\<not> cp_start ?l \<ge> s" "state_of ?l \<noteq> p"
    by blast
  then show ?thesis
  proof cases
    case 1
    then show ?thesis using Cons by (intro skip) (simp_all add: checkpoint_at_def covers_def Let_def)
  next
    case 2
    then show ?thesis using Cons
      by (intro same) (auto simp: checkpoint_at_def covers_def Let_def state_of_def)
  next
    case 3
    then have "\<not> (st_pools ?l = st_pools p \<and> st_position ?l = st_position p \<and>
        st_slot_positions ?l = st_slot_positions p \<and> st_rotations ?l = st_rotations p)"
      by (auto simp: state_of_def)
    with 3 show ?thesis using Cons
      by (intro push) (auto simp: checkpoint_at_def covers_def Let_def)
  qed
qed

lemma checkpoint_at_ok: "trail_ok m \<Longrightarrow> trail_ok (checkpoint_at s p m)"
proof (rule checkpoint_at_cases [of s p m])
  assume ok: "trail_ok m" and push: "rm_checkpoints (checkpoint_at s p m) = rm_checkpoints m @ [checkpoint_of s p]"
    and "\<not> covers m s"
  then have "cp_start c < s" if "c \<in> set (rm_checkpoints m)" for c
    using trail_ok_last [OF ok that] that by (cases "rm_checkpoints m") (auto simp: covers_def)
  then show ?thesis using ok by (auto simp: trail_ok_def push sorted_wrt_append)
qed simp_all

lemma checkpoint_at_state:
  "trail_ok m \<Longrightarrow> state_at (checkpoint_at s p m) t = (if \<not> covers m s \<and> s \<le> t then Some p else state_at m t)"
  by (rule checkpoint_at_cases [of s p m])
    (auto simp: state_at_snoc [of "checkpoint_at s p m"] covers_def intro!: state_at_beyond_last)

lemma checkpoint_at_covers: "trail_ok m \<Longrightarrow> covers (checkpoint_at s p m) t \<Longrightarrow> covers m t \<or> t \<le> s"
  by (rule checkpoint_at_cases [of s p m]) (auto simp: covers_def)

text \<open>
  The contract of a trail: recording a state at a new boundary makes it the answer from
  there on, and leaves every earlier answer alone.
\<close>

locale rewind_trail =
  fixes ok :: "'m \<Rightarrow> bool"
    and answer :: "'m \<Rightarrow> instant \<Rightarrow> 's option"
    and reached :: "'m \<Rightarrow> instant \<Rightarrow> bool"
    and mark :: "instant \<Rightarrow> 's \<Rightarrow> 'm \<Rightarrow> 'm"
  assumes mark_ok: "ok m \<Longrightarrow> ok (mark s p m)"
    and mark_at: "ok m \<Longrightarrow> answer (mark s p m) t = (if \<not> reached m s \<and> s \<le> t then Some p else answer m t)"
    and mark_reached: "ok m \<Longrightarrow> reached (mark s p m) t \<Longrightarrow> reached m t \<or> t \<le> s"
begin

definition marks :: "(instant \<times> 's) list \<Rightarrow> 'm \<Rightarrow> 'm" where
  "marks bs m = fold (\<lambda>(s, p) m. mark s p m) bs m"

lemma marks_snoc: "marks (bs @ [(s, p)]) m = mark s p (marks bs m)"
  by (simp add: marks_def)

lemma marks_ok: "ok m \<Longrightarrow> ok (marks bs m)"
proof (induction bs rule: rev_induct)
  case Nil
  then show ?case by (simp add: marks_def)
next
  case (snoc b bs)
  then show ?case by (cases b) (simp add: marks_snoc mark_ok)
qed

lemma marks_reached: "ok m \<Longrightarrow> reached (marks bs m) t \<Longrightarrow> reached m t \<or> (\<exists>s\<in>fst ` set bs. t \<le> s)"
proof (induction bs rule: rev_induct)
  case Nil
  then show ?case by (simp add: marks_def)
next
  case (snoc b bs)
  then show ?case by (cases b) (auto simp: marks_snoc dest!: mark_reached [OF marks_ok])
qed

lemma marks_at:
  assumes "ok m" and "sorted_wrt (<) (map fst bs)" and "\<forall>s\<in>fst ` set bs. \<not> reached m s"
  shows "answer (marks bs m) t =
           (case rev (filter (\<lambda>(s, p). s \<le> t) bs) of [] \<Rightarrow> answer m t | (s, p) # _ \<Rightarrow> Some p)"
  using assms
proof (induction bs rule: rev_induct)
  case Nil
  then show ?case by (simp add: marks_def)
next
  case (snoc b bs)
  obtain s p where b: "b = (s, p)" by (cases b)
  have "\<not> reached (marks bs m) s"
    using marks_reached [OF snoc.prems(1), of bs s] snoc.prems(2,3)
    by (fastforce simp: b sorted_wrt_append)
  then show ?case
    using snoc by (simp add: b marks_snoc mark_at marks_ok sorted_wrt_append)
qed

lemma marks_at_boundary:
  assumes "ok m" and "sorted_wrt (<) (map fst bs)" and "\<forall>s\<in>fst ` set bs. \<not> reached m s"
    and "(s, p) \<in> set bs"
  shows "answer (marks bs m) s = Some p"
proof -
  obtain xs ys where bs: "bs = xs @ (s, p) # ys" using assms(4) by (meson split_list)
  have "filter (\<lambda>(s', p). s' \<le> s) ys = []"
    using assms(2) by (auto simp: bs sorted_wrt_append filter_empty_conv)
  then have "rev (filter (\<lambda>(s', p). s' \<le> s) bs) = (s, p) # rev (filter (\<lambda>(s', p). s' \<le> s) xs)"
    by (simp add: bs)
  then show ?thesis by (simp add: marks_at [OF assms(1-3)])
qed

end

interpretation trail: rewind_trail trail_ok state_at covers checkpoint_at
  by unfold_locales (simp_all add: checkpoint_at_ok checkpoint_at_state checkpoint_at_covers)

section \<open>Rewinding\<close>

lemma rewind_to_cases:
  obtains (none) "rewind_to t m = None" "\<forall>c\<in>set (rm_checkpoints m). t < cp_start c"
    | (some) i c where "i < length (rm_checkpoints m)" "c = rm_checkpoints m ! i" "cp_start c \<le> t"
        "\<And>j. i < j \<Longrightarrow> j < length (rm_checkpoints m) \<Longrightarrow> t < cp_start (rm_checkpoints m ! j)"
        "rewind_to t m =
           Some (m\<lparr>st_pools := st_pools c, st_position := st_position c, st_slot_positions := st_slot_positions c,
                   st_rotations := st_rotations c, rm_checkpoints := take i (rm_checkpoints m)\<rparr>, cp_start c)"
        "state_at m t = Some (state_of c)"
proof (cases "rposition (\<lambda>c. cp_start c \<le> t) (rm_checkpoints m)")
  case None
  then have "\<forall>c\<in>set (rm_checkpoints m). t < cp_start c" by (simp add: rposition_None_iff not_le)
  with None show ?thesis by (intro none) (simp_all add: rewind_to_def)
next
  case (Some i)
  from rposition_SomeD [OF Some] show ?thesis
    by (intro some [of i]) (auto simp: rewind_to_def state_at_def Some Let_def not_le)
qed

lemma rewind_to_state: "map_option (\<lambda>(m', _). state_of m') (rewind_to t m) = state_at m t"
  by (rule rewind_to_cases [of t m])
    (auto simp: state_of_def state_at_def rposition_None_iff not_le)

lemma rewind_to_checkpoints:
  "rewind_to t m = Some (m', s) \<Longrightarrow> trail_ok m \<Longrightarrow>
     rm_checkpoints m' = filter (\<lambda>c. cp_start c < s) (rm_checkpoints m)"
proof (rule rewind_to_cases [of t m])
  fix i c
  let ?cs = "rm_checkpoints m"
  assume "rewind_to t m = Some (m', s)" and ok: "trail_ok m" and i: "i < length ?cs" and c: "c = ?cs ! i"
    and eq: "rewind_to t m = Some (m\<lparr>st_pools := st_pools c, st_position := st_position c,
        st_slot_positions := st_slot_positions c, st_rotations := st_rotations c,
        rm_checkpoints := take i ?cs\<rparr>, cp_start c)"
  then have m': "rm_checkpoints m' = take i ?cs" and s: "s = cp_start c" by auto
  have split: "?cs = take i ?cs @ c # drop (Suc i) ?cs"
    using i by (simp add: c id_take_nth_drop [symmetric])
  have "sorted_wrt (<) (map cp_start (take i ?cs @ c # drop (Suc i) ?cs))"
    using ok split by (simp add: trail_ok_def)
  then have "filter (\<lambda>c'. cp_start c' < cp_start c) (take i ?cs @ c # drop (Suc i) ?cs) = take i ?cs"
    by (auto simp: sorted_wrt_append filter_empty_conv intro!: filter_True dest: less_asym)
  then show ?thesis using split m' s by simp
qed simp

text \<open>
  Rewinding restores exactly the latest state recorded at or before the
  instant (the abstract trail's answer there), reports where it holds, drops that
  checkpoint and every later one, and touches nothing else; when no checkpoint covers
  the instant it reports that instead.
\<close>

theorem rewind_to_latest:
  assumes "trail_ok m"
  shows "case rewind_to t m of
           None \<Rightarrow> state_at m t = None \<and> (\<forall>c\<in>set (rm_checkpoints m). t < cp_start c)
         | Some (m', s) \<Rightarrow>
             state_at m t = Some (state_of m') \<and> s \<le> t \<and>
             (\<forall>c\<in>set (rm_checkpoints m). cp_start c \<le> s \<or> t < cp_start c) \<and>
             rm_checkpoints m' = filter (\<lambda>c. cp_start c < s) (rm_checkpoints m) \<and> trail_ok m' \<and>
             rm_lists m' = rm_lists m \<and> rm_config_id m' = rm_config_id m \<and> rm_version m' = rm_version m"
proof (rule rewind_to_cases [of t m])
  assume "rewind_to t m = None" "\<forall>c\<in>set (rm_checkpoints m). t < cp_start c"
  then show ?thesis using rewind_to_state [of t m] by simp
next
  fix i c
  assume i: "i < length (rm_checkpoints m)" "c = rm_checkpoints m ! i" "cp_start c \<le> t"
    and later: "\<And>j. i < j \<Longrightarrow> j < length (rm_checkpoints m) \<Longrightarrow> t < cp_start (rm_checkpoints m ! j)"
    and eq: "rewind_to t m = Some (m\<lparr>st_pools := st_pools c, st_position := st_position c,
        st_slot_positions := st_slot_positions c, st_rotations := st_rotations c,
        rm_checkpoints := take i (rm_checkpoints m)\<rparr>, cp_start c)"
  have "cp_start d \<le> cp_start c \<or> t < cp_start d" if "d \<in> set (rm_checkpoints m)" for d
  proof -
    from that obtain j where j: "j < length (rm_checkpoints m)" "d = rm_checkpoints m ! j"
      by (auto simp: in_set_conv_nth)
    show ?thesis
    proof (cases "i < j")
      case True
      with later j show ?thesis by simp
    next
      case False
      then have "j < i \<or> j = i" by auto
      with assms i j show ?thesis
        by (auto simp: trail_ok_def sorted_wrt_iff_nth_less intro: less_imp_le)
    qed
  qed
  moreover have "trail_ok (m\<lparr>st_pools := p1, st_position := p2, st_slot_positions := p3, st_rotations := p4,
      rm_checkpoints := take i (rm_checkpoints m)\<rparr>)" for p1 p2 p3 p4
    using assms by (simp add: trail_ok_def take_map [symmetric] sorted_wrt_take)
  moreover note rewind_to_checkpoints [OF eq assms] rewind_to_state [of t m]
  ultimately show ?thesis using i eq by simp
qed

text \<open>A small trail: two boundaries, at 10 and 20, with the list position telling them apart.\<close>

definition sample_trail :: resume_map where
  "sample_trail =
     resume_new\<lparr>st_position := 9,
       rm_checkpoints :=
         [checkpoint_of 10 (resume_new\<lparr>st_position := 3\<rparr>), checkpoint_of 20 (resume_new\<lparr>st_position := 5\<rparr>)]\<rparr>"

theorem rewind_to_latest_witness:
  "case rewind_to 15 sample_trail of None \<Rightarrow> False | Some (m', s) \<Rightarrow> s = 10 \<and> st_position m' = 3 \<and> rm_checkpoints m' = []"
proof -
  have "trail_ok sample_trail" by (simp add: trail_ok_def sample_trail_def)
  from rewind_to_latest [OF this, of 15] show ?thesis
    by (simp add: rewind_to_def sample_trail_def Let_def checkpoint_of_def)
qed

section \<open>One generation's checkpoints\<close>

lemma checkpoint_push_state:
  "state_at (checkpoint_push s m) t = (if s \<le> t then Some (state_of m) else state_at m t)"
  by (simp add: checkpoint_push_def state_at_snoc [of _ m "checkpoint_of s m"])

lemma checkpoint_push_ok:
  assumes "trail_ok m" and "\<not> covers m s"
  shows "trail_ok (checkpoint_push s m)"
proof -
  have "cp_start c < s" if "c \<in> set (rm_checkpoints m)" for c
    using trail_ok_last [OF assms(1) that] that assms(2) by (cases "rm_checkpoints m") (auto simp: covers_def)
  then show ?thesis using assms(1) by (auto simp: trail_ok_def checkpoint_push_def sorted_wrt_append)
qed

lemma checkpoint_push_covers: "covers (checkpoint_push s m) t \<longleftrightarrow> t \<le> s"
  by (simp add: checkpoint_push_def covers_def)

lemma checkpoint_generation_marks:
  "checkpoint_generation from spans m =
     trail.marks (filter (\<lambda>(s, p). from < s) spans) (checkpoint_push from m)"
proof -
  have "fold (\<lambda>(start, p) m. if start > from then checkpoint_at start p m else m) spans k =
      trail.marks (filter (\<lambda>(s, p). from < s) spans) k" for k
    by (induction spans arbitrary: k) (auto simp: trail.marks_def)
  then show ?thesis by (simp add: checkpoint_generation_def)
qed

lemma sorted_spans_filter: "sorted_wrt (<) (map fst spans) \<Longrightarrow> sorted_wrt (<) (map fst (filter P spans))"
  by (induction spans) auto

lemma checkpoint_generation_state:
  assumes "trail_ok m" and "\<not> covers m from" and "sorted_wrt (<) (map fst spans)"
  shows "state_at (checkpoint_generation from spans m) t =
           (case rev (filter (\<lambda>(s, p). from < s \<and> s \<le> t) spans) of
              (s, p) # _ \<Rightarrow> Some p
            | [] \<Rightarrow> if from \<le> t then Some (state_of m) else state_at m t)"
proof -
  let ?bs = "filter (\<lambda>(s, p). from < s) spans"
  have "state_at (trail.marks ?bs (checkpoint_push from m)) t =
      (case rev (filter (\<lambda>(s, p). s \<le> t) ?bs) of
         [] \<Rightarrow> state_at (checkpoint_push from m) t | (s, p) # _ \<Rightarrow> Some p)"
    by (rule trail.marks_at)
      (auto simp: checkpoint_push_ok assms sorted_spans_filter checkpoint_push_covers)
  moreover have "filter (\<lambda>(s, p). s \<le> t) ?bs = filter (\<lambda>(s, p). from < s \<and> s \<le> t) spans"
    by (simp add: case_prod_unfold conj_commute)
  ultimately show ?thesis
    by (simp add: checkpoint_generation_marks checkpoint_push_state split: list.splits)
qed

text \<open>
  Claim C12. After one generation that begins at \<open>from\<close> has been checkpointed, a wipe
  whose surviving schedule ends at any item boundary of it rewinds to exactly the state
  the resolver reported for that boundary: no item is lost or repeated. A wipe back to
  its start rewinds to the state that entered it.
\<close>

theorem generation_rewinds_exactly:
  assumes "trail_ok m" and "\<not> covers m from" and "sorted_wrt (<) (map fst spans)"
  shows "(\<forall>(s, p)\<in>set spans. from < s \<longrightarrow>
            map_option (\<lambda>(m', _). state_of m') (rewind_to s (checkpoint_generation from spans m)) = Some p) \<and>
         map_option (\<lambda>(m', _). state_of m') (rewind_to from (checkpoint_generation from spans m)) = Some (state_of m)"
proof -
  have "state_at (checkpoint_generation from spans m) s = Some p" if sp: "(s, p) \<in> set spans" "from < s" for s p
  proof -
    obtain xs ys where spans: "spans = xs @ (s, p) # ys" using sp(1) by (meson split_list)
    have "filter (\<lambda>(s', p). from < s' \<and> s' \<le> s) ys = []"
      using assms(3) by (auto simp: spans sorted_wrt_append filter_empty_conv)
    then show ?thesis using sp(2)
      by (subst checkpoint_generation_state [OF assms]) (simp add: spans)
  qed
  moreover have "state_at (checkpoint_generation from spans m) from = Some (state_of m)"
  proof -
    have "filter (\<lambda>(s, p). from < s \<and> s \<le> from) spans = []" by (auto simp: filter_empty_conv)
    then show ?thesis by (simp add: checkpoint_generation_state [OF assms])
  qed
  ultimately show ?thesis by (auto simp: rewind_to_state)
qed

definition progress_at :: "nat \<Rightarrow> progress" where
  "progress_at n = \<lparr>st_pools = [], st_position = n, st_slot_positions = [], st_rotations = []\<rparr>"

theorem generation_rewinds_exactly_witness:
  "map_option (\<lambda>(m', _). state_of m')
     (rewind_to 40 (checkpoint_generation 30 [(30, progress_at 9), (40, progress_at 10), (50, progress_at 11)] sample_trail))
     = Some (progress_at 10)"
proof -
  have "trail_ok sample_trail" "\<not> covers sample_trail 30"
    by (simp_all add: trail_ok_def covers_def sample_trail_def)
  from generation_rewinds_exactly [OF this, of "[(30, progress_at 9), (40, progress_at 10), (50, progress_at 11)]"]
  show ?thesis by simp
qed

section \<open>Adopting a generation's result\<close>

lemma wanted_lists_iff:
  "(name, key) \<in> set (wanted_lists m) \<longleftrightarrow>
     (\<exists>pools\<in>insert (st_pools m) (st_pools ` set (rm_checkpoints m)).
        \<exists>pr. (name, pr) \<in> set pools \<and> pr_list pr = Some key)"
proof -
  have one: "(name, key) \<in> set (List.map_filter (\<lambda>(name, pool). map_option (\<lambda>key. (name, key)) (pr_list pool)) pools)
      \<longleftrightarrow> (\<exists>pr. (name, pr) \<in> set pools \<and> pr_list pr = Some key)" for pools :: "(string, pool_resume) btree"
    by (induction pools) (auto simp: List.map_filter_simps split: option.splits)
  show ?thesis by (simp add: wanted_lists_def one)
qed

lemma prune_lists_simps [resume_simps]:
  "st_pools (prune_lists m) = st_pools m"
  "rm_checkpoints (prune_lists m) = rm_checkpoints m"
  "rm_config_id (prune_lists m) = rm_config_id m"
  "rm_version (prune_lists m) = rm_version m"
  "state_of (prune_lists m) = state_of m"
  by (simp_all add: prune_lists_def state_of_def Let_def)

lemma prune_elapsed_simps [resume_simps]:
  "st_pools (prune_elapsed now m) = st_pools m"
  "rm_checkpoints (prune_elapsed now m) = filter (\<lambda>c. now < cp_start c) (rm_checkpoints m)"
  "rm_config_id (prune_elapsed now m) = rm_config_id m"
  "rm_lists (prune_elapsed now m) = rm_lists m"
  "rm_version (prune_elapsed now m) = rm_version m"
  "state_of (prune_elapsed now m) = state_of m"
  by (simp_all add: prune_elapsed_def state_of_def)

text \<open>What is stored under one key of one pool.\<close>

definition stored_lists :: "resume_map \<Rightarrow> string \<Rightarrow> string \<Rightarrow> frozen_list list" where
  "stored_lists m name key =
     (case bt_get (rm_lists m) name of None \<Rightarrow> [] | Some ls \<Rightarrow> filter (\<lambda>l. fl_key l = key) ls)"

lemma stored_lists_prune:
  assumes "bt_ok (rm_lists m)"
  shows "stored_lists (prune_lists m) name key =
           (if (name, key) \<in> set (wanted_lists m) then stored_lists m name key else [])"
proof -
  let ?keep = "\<lambda>name ls. filter (\<lambda>l. (name, fl_key l) \<in> set (wanted_lists m)) ls"
  have lists: "rm_lists (prune_lists m) =
      filter (\<lambda>(_, ls). ls \<noteq> []) (map (\<lambda>(name, ls). (name, ?keep name ls)) (rm_lists m))"
    by (simp add: prune_lists_def)
  have "bt_get (rm_lists (prune_lists m)) name =
      (case bt_get (rm_lists m) name of None \<Rightarrow> None
       | Some ls \<Rightarrow> if ?keep name ls = [] then None else Some (?keep name ls))"
    unfolding lists using assms
    by (subst bt_get_filter) (auto simp: bt_get_map_snd split: option.splits)
  then have "stored_lists (prune_lists m) name key =
      (case bt_get (rm_lists m) name of None \<Rightarrow> [] | Some ls \<Rightarrow> filter (\<lambda>l. fl_key l = key) (?keep name ls))"
    by (auto simp: stored_lists_def filter_empty_conv split: option.splits)
  also have "\<dots> = (if (name, key) \<in> set (wanted_lists m) then stored_lists m name key else [])"
    by (auto simp: stored_lists_def filter_empty_conv split: option.splits intro!: filter_cong)
  finally show ?thesis .
qed

lemma rewind_to_lists: "rewind_to t m = Some (m', s) \<Longrightarrow> rm_lists m' = rm_lists m"
  by (rule rewind_to_cases [of t m]) auto

lemma rewind_to_pools:
  "rewind_to t m = Some (m', s) \<Longrightarrow> st_pools m' \<in> st_pools ` set (rm_checkpoints m)"
  by (rule rewind_to_cases [of t m]) auto

text \<open>
  Adopting a generation prunes the stored lists but never one a rewind can
  land on: whatever state the sidecar is later rewound to, or continues from, every
  frozen list that state names is stored exactly as the generation left it; and a list
  that survives is named by the current state or by a checkpoint still in the future.
\<close>

theorem adopt_keeps_reachable_lists:
  assumes "bt_ok (rm_lists next)"
  shows "(\<forall>m'. m' = adopt next now m \<or> (\<exists>t s. rewind_to t (adopt next now m) = Some (m', s)) \<longrightarrow>
            (\<forall>(name, pr)\<in>set (st_pools m'). \<forall>key. pr_list pr = Some key \<longrightarrow>
               stored_lists m' name key = stored_lists next name key)) \<and>
         (\<forall>name key. stored_lists (adopt next now m) name key \<noteq> [] \<longrightarrow>
            (\<exists>pools\<in>insert (st_pools next) (st_pools ` {c \<in> set (rm_checkpoints m). now < cp_start c}).
               \<exists>pr. (name, pr) \<in> set pools \<and> pr_list pr = Some key))"
proof -
  let ?n = "prune_elapsed now (next\<lparr>rm_checkpoints := rm_checkpoints m, rm_config_id := rm_config_id m\<rparr>)"
  have adopt: "adopt next now m = prune_lists ?n" by (simp add: adopt_def)
  have ok: "bt_ok (rm_lists ?n)" using assms by (simp add: resume_simps)
  have base: "stored_lists ?n name key = stored_lists next name key" for name key
    by (simp add: stored_lists_def resume_simps)
  have named: "stored_lists (adopt next now m) name key = stored_lists next name key"
    if "pools \<in> insert (st_pools ?n) (st_pools ` set (rm_checkpoints ?n))" "(name, pr) \<in> set pools" "pr_list pr = Some key"
    for pools name pr key
    using that by (auto simp: adopt stored_lists_prune [OF ok] base wanted_lists_iff)
  have "\<forall>(name, pr)\<in>set (st_pools m'). \<forall>key. pr_list pr = Some key \<longrightarrow> stored_lists m' name key = stored_lists next name key"
    if "m' = adopt next now m \<or> (\<exists>t s. rewind_to t (adopt next now m) = Some (m', s))" for m'
  proof -
    have "st_pools m' \<in> insert (st_pools ?n) (st_pools ` set (rm_checkpoints ?n))"
      using that rewind_to_pools [of _ "adopt next now m" m'] by (auto simp: adopt resume_simps)
    moreover have "stored_lists m' name key = stored_lists (adopt next now m) name key" for name key
      using that by (auto simp: stored_lists_def dest: rewind_to_lists)
    ultimately show ?thesis using named [of "st_pools m'"] by auto
  qed
  moreover have "\<exists>pools\<in>insert (st_pools next) (st_pools ` {c \<in> set (rm_checkpoints m). now < cp_start c}).
      \<exists>pr. (name, pr) \<in> set pools \<and> pr_list pr = Some key"
    if "stored_lists (adopt next now m) name key \<noteq> []" for name key
    using that by (auto simp: adopt stored_lists_prune [OF ok] wanted_lists_iff resume_simps split: if_splits)
  ultimately show ?thesis by blast
qed

definition pool_on_list :: "string \<Rightarrow> pool_resume" where
  "pool_on_list key = pool_resume_default\<lparr>pr_list := Some key\<rparr>"

definition list_under :: "string \<Rightarrow> string list \<Rightarrow> frozen_list" where
  "list_under key ids = \<lparr>fl_key = key, fl_ids = ids, fl_extras = []\<rparr>"

definition next_generation :: resume_map where
  "next_generation =
     resume_new\<lparr>st_pools := [(''p'', pool_on_list ''new'')],
       rm_lists := [(''p'', [list_under ''old'' [''a''], list_under ''gone'' [''b''], list_under ''new'' [''c'']])]\<rparr>"

definition rolled_trail :: resume_map where
  "rolled_trail =
     resume_new\<lparr>rm_checkpoints :=
       [checkpoint_of 10 (resume_new\<lparr>st_pools := [(''p'', pool_on_list ''gone'')]\<rparr>),
        checkpoint_of 20 (resume_new\<lparr>st_pools := [(''p'', pool_on_list ''old'')]\<rparr>)]\<rparr>"

theorem adopt_keeps_reachable_lists_witness:
  "stored_lists (adopt next_generation 15 rolled_trail) ''p'' ''new'' = [list_under ''new'' [''c'']] \<and>
   rm_lists (adopt next_generation 15 rolled_trail) =
     [(''p'', [list_under ''old'' [''a''], list_under ''new'' [''c'']])]"
proof -
  have ok: "bt_ok (rm_lists next_generation)" by (simp add: bt_ok_def next_generation_def)
  have pools: "st_pools (adopt next_generation 15 rolled_trail) = [(''p'', pool_on_list ''new'')]"
    by (simp add: adopt_def resume_simps next_generation_def)
  have "stored_lists (adopt next_generation 15 rolled_trail) ''p'' ''new'' = stored_lists next_generation ''p'' ''new''"
    using conjunct1 [OF adopt_keeps_reachable_lists [OF ok, of 15 rolled_trail],
        rule_format, OF disjI1 [OF refl], of "(''p'', pool_on_list ''new'')"]
    by (simp add: pools pool_on_list_def)
  moreover have "rm_lists (adopt next_generation 15 rolled_trail) =
      [(''p'', [list_under ''old'' [''a''], list_under ''new'' [''c'']])]"
    by code_simp
  ultimately show ?thesis by (simp add: stored_lists_def next_generation_def list_under_def)
qed

section \<open>A wipe with no checkpoint left\<close>

lemma forget_draws_spec:
  "sorted_wrt (\<lambda>a b. rd_at b \<le> rd_at a) ds \<Longrightarrow>
     forget_draws t ds drawn =
       (filter (\<lambda>d. rd_at d < t) ds,
        filter (\<lambda>m. \<forall>d\<in>set ds. t \<le> rd_at d \<longrightarrow> m \<noteq> rd_member d) drawn)"
proof (induction ds arbitrary: drawn)
  case Nil
  then show ?case by simp
next
  case (Cons d ds)
  show ?case
  proof (cases "t \<le> rd_at d")
    case True
    then show ?thesis using Cons by (simp add: conj_commute)
  next
    case False
    then have "\<forall>e\<in>set (d # ds). rd_at e < t" using Cons.prems by auto
    then have recent: "filter (\<lambda>e. rd_at e < t) (d # ds) = d # ds"
      and "\<forall>m\<in>set drawn. \<forall>e\<in>set (d # ds). t \<le> rd_at e \<longrightarrow> m \<noteq> rd_member e"
      by (simp_all add: filter_id_conv not_le [symmetric])
    then have drawn: "filter (\<lambda>m. \<forall>e\<in>set (d # ds). t \<le> rd_at e \<longrightarrow> m \<noteq> rd_member e) drawn = drawn"
      by (intro filter_True)
    show ?thesis unfolding recent drawn using False by simp
  qed
qed

lemma forget_rotation_spec:
  assumes "sorted_wrt (\<lambda>a b. rd_at a \<le> rd_at b) (rr_recent r)"
  shows "forget_rotation t r =
           r\<lparr>rr_recent := filter (\<lambda>d. rd_at d < t) (rr_recent r),
             rr_drawn := filter (\<lambda>m. \<forall>d\<in>set (rr_recent r). t \<le> rd_at d \<longrightarrow> m \<noteq> rd_member d) (rr_drawn r)\<rparr>"
proof -
  have "sorted_wrt (\<lambda>a b. rd_at b \<le> rd_at a) (rev (rr_recent r))"
    using assms by (simp add: sorted_wrt_rev)
  then show ?thesis by (simp add: forget_rotation_def forget_draws_spec rev_filter)
qed

text \<open>
  After a wipe, the rotation slots remember no draw made for what was wiped:
  with the draws in time order, whichever way the state is recovered, no draw at or
  after the frontier survives unless a checkpoint recorded it; and with no checkpoint
  left exactly the draws before the frontier stay, the members drawn since become
  drawable again in their round-robin pass, and the rest of the state is untouched.
\<close>

theorem wipe_forgets_draws:
  assumes "\<forall>(name, r)\<in>set (st_rotations m). sorted_wrt (\<lambda>a b. rd_at a \<le> rd_at b) (rr_recent r)"
  shows "case state_at m frontier of
           Some p \<Rightarrow> state_of (rewind_or_forget frontier m) = p
         | None \<Rightarrow>
             rewind_or_forget frontier m =
               m\<lparr>st_rotations := map (\<lambda>(name, r). (name, r\<lparr>
                   rr_recent := filter (\<lambda>d. rd_at d < frontier) (rr_recent r),
                   rr_drawn := filter (\<lambda>x. \<forall>d\<in>set (rr_recent r). frontier \<le> rd_at d \<longrightarrow> x \<noteq> rd_member d) (rr_drawn r)\<rparr>))
                 (st_rotations m)\<rparr>"
proof -
  have "forget_rotation_draws_from frontier m =
      m\<lparr>st_rotations := map (\<lambda>(name, r). (name, r\<lparr>
          rr_recent := filter (\<lambda>d. rd_at d < frontier) (rr_recent r),
          rr_drawn := filter (\<lambda>x. \<forall>d\<in>set (rr_recent r). frontier \<le> rd_at d \<longrightarrow> x \<noteq> rd_member d) (rr_drawn r)\<rparr>))
        (st_rotations m)\<rparr>"
    using assms unfolding forget_rotation_draws_from_def
    by (intro arg_cong [where f = "\<lambda>rs. m\<lparr>st_rotations := rs\<rparr>"] map_cong)
      (auto simp: forget_rotation_spec)
  then show ?thesis
    using rewind_to_state [of frontier m]
    by (auto simp: rewind_or_forget_def split: option.splits)
qed

definition two_draws :: resume_map where
  "two_draws =
     resume_new\<lparr>st_rotations := [(''slot'',
       \<lparr>rr_cycle = 2, rr_drawn = [''a'', ''b''],
        rr_recent = [\<lparr>rd_member = ''a'', rd_at = 10\<rparr>, \<lparr>rd_member = ''b'', rd_at = 20\<rparr>]\<rparr>)]\<rparr>"

theorem wipe_forgets_draws_witness:
  "st_rotations (rewind_or_forget 15 two_draws) =
     [(''slot'', \<lparr>rr_cycle = 2, rr_drawn = [''a''], rr_recent = [\<lparr>rd_member = ''a'', rd_at = 10\<rparr>]\<rparr>)]"
proof -
  have "\<forall>(name, r)\<in>set (st_rotations two_draws). sorted_wrt (\<lambda>a b. rd_at a \<le> rd_at b) (rr_recent r)"
    by (simp add: two_draws_def)
  from wipe_forgets_draws [OF this, of 15] show ?thesis
    by (simp add: state_at_def two_draws_def resume_new_def)
qed

end
