(* ===== verification/Catalog.thy ===== *)
theory Catalog
  imports Config
begin

text \<open>
  What the scheduler asks the catalog database (\<open>catalog/\<close>), and the parts of the answers
  that are not SQL: the tag namespace a field reads (\<open>model.rs\<close>) and the order a set of ids
  is put in (\<open>Catalog::resolve_order\<close>).
\<close>

section \<open>Fields\<close>

datatype tag_ns = NsGenre | NsLabel | NsCast | NsDirector | NsWriter | NsProducer | NsCountry

definition query_fields :: "(string \<times> tag_ns) list" where
  "query_fields =
     [(''genres'', NsGenre), (''labels'', NsLabel), (''cast'', NsCast), (''directors'', NsDirector),
      (''writers'', NsWriter), (''producers'', NsProducer), (''countries'', NsCountry)]"

definition from_query_field :: "string \<Rightarrow> tag_ns option" where
  "from_query_field name = map_of query_fields name"

definition for_separate_by :: "string \<Rightarrow> tag_ns result" where
  "for_separate_by field =
     (case from_query_field field of
        Some ns \<Rightarrow> Inr ns
      | None \<Rightarrow> Inl (''separate_by = '' @ debug_str field @ '' is not a multi-valued field (expected one of: '' @
                     join '', '' (map fst query_fields) @ '')''))"

section \<open>Queries\<close>

text \<open>The two columns of a catalog row the walk reads.\<close>

record cat_entry =
  ce_show :: "string option"
  ce_title :: string

text \<open>
  What the walk asks the catalog database. Every query is SQL against a file the station
  does not generate, so the answers are a parameter; an \<open>Inl\<close> is the query's error.
\<close>

record catalog =
  cat_query :: "string \<Rightarrow> string list result"
  cat_sort :: "field_sort list \<Rightarrow> string list \<Rightarrow> string list result"
  cat_durations :: "string list \<Rightarrow> (string, int) btree result"
  cat_show_ids :: "string list \<Rightarrow> (string, string) btree result"
  cat_seasons :: "string list \<Rightarrow> (string, int) btree result"
  cat_arc_positions :: "string list \<Rightarrow> (string, string \<times> int) btree result"
  cat_tags :: "string \<Rightarrow> tag_ns \<Rightarrow> string list result"
  cat_episodes_for_shows :: "string list \<Rightarrow> (string, string list) btree result"
  cat_sources :: "((string \<times> string) \<times> string) list result"
  cat_entries :: "string list \<Rightarrow> (string, cat_entry) btree result"

section \<open>Ordering\<close>

definition resolve_order :: "catalog \<Rightarrow> string list \<Rightarrow> order \<Rightarrow> u64 \<Rightarrow> string list result" where
  "resolve_order cat ids ord seed =
     (if ids = [] then Inr []
      else case ord of
        Manual \<Rightarrow> Inr ids
      | Random \<Rightarrow> Inr (seeded_shuffle (sort ids) seed)
      | Fields terms \<Rightarrow> cat_sort cat terms ids)"

text \<open>
  \<open>order: random\<close> is a function of the set and the seed alone: whatever order the
  ids arrive in, the arrangement is the same, and it holds each of them as often as it came.
\<close>

theorem random_order_by_set:
  assumes "mset ids = mset ids'"
  shows "resolve_order cat ids Random seed = resolve_order cat ids' Random seed \<and>
         (\<exists>out. resolve_order cat ids Random seed = Inr out \<and> mset out = mset ids)"
proof -
  have "sort ids = sort ids'" using assms by (metis properties_for_sort mset_sort sorted_sort)
  moreover have "ids = [] \<longleftrightarrow> ids' = []" using assms by auto
  moreover have "mset (seeded_shuffle (sort ids) seed) = mset ids"
    by simp
  ultimately show ?thesis by (simp add: resolve_order_def)
qed

definition sample_catalog :: catalog where
  "sample_catalog =
     \<lparr>cat_query = (\<lambda>_. Inr []), cat_sort = (\<lambda>_ ids. Inr ids), cat_durations = (\<lambda>_. Inr []),
      cat_show_ids = (\<lambda>_. Inr []), cat_seasons = (\<lambda>_. Inr []), cat_arc_positions = (\<lambda>_. Inr []),
      cat_tags = (\<lambda>_ _. Inr []), cat_episodes_for_shows = (\<lambda>_. Inr []), cat_sources = Inr [],
      cat_entries = (\<lambda>_. Inr [])\<rparr>"

theorem random_order_by_set_witness:
  "resolve_order sample_catalog [''b'', ''a'', ''c''] Random 7 = resolve_order sample_catalog [''a'', ''b'', ''c''] Random 7"
  using random_order_by_set [of "[''b'', ''a'', ''c'']" "[''a'', ''b'', ''c'']" sample_catalog 7] by simp

end
