(* ===== verification/PatternPool.thy ===== *)
theory PatternPool
  imports Variety Resume Catalog
begin

text \<open>
  A pool mid-walk (\<open>PoolRuntime\<close> of \<open>pattern.rs\<close>) and the channel's aired history: the
  series with their cursors, the eligibility checks, the choice of a series, one visit to a
  pattern step, and what a pool writes to and carries over from the sidecar. Every method
  that takes \<open>&mut self\<close> returns the updated runtime (and history) beside its result.
\<close>

named_theorems pool_simps \<open>what an operation leaves alone\<close>

section \<open>Runtimes\<close>

definition max_catalog_duration_ms :: int where
  "max_catalog_duration_ms = 24 * 60 * 60 * 1000"

definition usable_runtimes :: "(string, int) btree \<Rightarrow> (string, duration) btree" where
  "usable_runtimes raw =
     map (\<lambda>(i, ms). (i, dur_of_millis (nat ms)))
       (filter (\<lambda>(_, ms). ms > 0 \<and> ms \<le> max_catalog_duration_ms) raw)"

definition pool_runtimes :: "catalog \<Rightarrow> string list \<Rightarrow> ((string, duration) btree \<times> duration) result" where
  "pool_runtimes cat ids =
     bind_res (cat_durations cat ids) (\<lambda>raw.
       let runtimes = usable_runtimes raw in Inr (runtimes, mean_duration runtimes))"

text \<open>\<open>HashMap::extend\<close>.\<close>

definition bt_extend :: "('k::linorder, 'v) btree \<Rightarrow> ('k, 'v) btree \<Rightarrow> ('k, 'v) btree" where
  "bt_extend m extra = fold (\<lambda>(k, v). bt_insert k v) extra m"

section \<open>Series\<close>

definition max_cycles :: nat where "max_cycles = 10000"
definition random_rerolls :: nat where "random_rerolls = 8"
definition reroll_stride :: u64 where "reroll_stride = 2 ^ 32"
definition from_stride :: u64 where "from_stride = 2 ^ 48"
definition take_stride :: u64 where "take_stride = 2 ^ 56"

record series =
  s_key :: string
  s_show_key :: string
  s_ids :: "string list"
  s_cursor :: nat
  s_finished :: bool

definition advance_to :: "nat \<Rightarrow> series \<Rightarrow> series" where
  "advance_to to s =
     (let finished = to \<ge> length (s_ids s)
      in s\<lparr>s_finished := finished, s_cursor := (if finished then 0 else to)\<rparr>)"

definition series_remaining :: "series \<Rightarrow> nat" where
  "series_remaining s = length (s_ids s) - s_cursor s"

record pool_keys =
  pk_groups :: "(string, string list) btree"
  pk_durations :: "(string, duration) btree"
  pk_mean_duration :: duration

definition pool_keys_default :: pool_keys where
  "pool_keys_default = \<lparr>pk_groups = [], pk_durations = [], pk_mean_duration = 0\<rparr>"

definition keys_of :: "pool_keys \<Rightarrow> string \<Rightarrow> item_keys" where
  "keys_of k i =
     \<lparr>ik_id = i,
      ik_group = (case bt_get (pk_groups k) i of Some g \<Rightarrow> g | None \<Rightarrow> []),
      ik_duration = (case bt_get (pk_durations k) i of Some d \<Rightarrow> d | None \<Rightarrow> pk_mean_duration k)\<rparr>"

definition keys_many :: "pool_keys \<Rightarrow> string list \<Rightarrow> item_keys list" where
  "keys_many k ids = map (keys_of k) ids"

section \<open>The channel's aired history\<close>

record channel_rule =
  cr_gap :: no_repeat_within
  cr_aired :: "string list"
  cr_nominal :: duration

record channel_history =
  ch_catalog :: catalog
  ch_limits :: limits
  ch_recent :: "item_keys list"
  ch_durations :: "(string, duration) btree"
  ch_asked :: "string list"
  ch_mean :: duration
  ch_nominal :: duration
  ch_blocked :: nat
  ch_forced :: nat

definition ch_is_unconstrained :: "channel_history \<Rightarrow> bool" where
  "ch_is_unconstrained ch \<longleftrightarrow> limits_is_unconstrained (ch_limits ch)"

definition ch_allows :: "channel_history \<Rightarrow> string \<Rightarrow> bool" where
  "ch_allows ch i \<longleftrightarrow> \<not> conflicts_with_recent (ch_recent ch) (item_keys_new i) (ch_limits ch)"

text \<open>\<open>asked.insert\<close> is true for an id not seen before, so a repeated id is asked once.\<close>

fun newly_asked :: "string list \<Rightarrow> string list \<Rightarrow> string list \<times> string list" where
  "newly_asked asked [] = ([], asked)"
| "newly_asked asked (i # ids) =
     (if i \<in> set asked then newly_asked asked ids
      else let (missing, asked') = newly_asked (i # asked) ids in (i # missing, asked'))"

definition ch_measure :: "string list \<Rightarrow> channel_history \<Rightarrow> channel_history" where
  "ch_measure ids ch =
     (let (missing, asked) = newly_asked (ch_asked ch) ids;
          ch = ch\<lparr>ch_asked := asked\<rparr>
      in if missing = [] then ch
         else case pool_runtimes (ch_catalog ch) missing of
           Inl e \<Rightarrow> ch
         | Inr (found, _) \<Rightarrow>
             let durations = bt_extend (ch_durations ch) found
             in ch\<lparr>ch_durations := durations,
                   ch_mean := (if durations \<noteq> [] then mean_duration durations else ch_mean ch)\<rparr>)"

text \<open>Appending to a window and dropping what the rule can no longer reach.\<close>

definition trim_recent :: "limits \<Rightarrow> item_keys list \<Rightarrow> item_keys list" where
  "trim_recent l recent = keep_last (history_needed recent l) recent"

definition ch_remember :: "string list \<Rightarrow> channel_history \<Rightarrow> channel_history" where
  "ch_remember ids ch =
     (if ch_is_unconstrained ch \<or> ids = [] then ch
      else
        let ch = (case lim_no_repeat (ch_limits ch) of GapDuration d \<Rightarrow> ch_measure ids ch | GapPositions n \<Rightarrow> ch);
            fallback = (if ch_mean ch = 0 then ch_nominal ch else ch_mean ch);
            recent = ch_recent ch @ map (\<lambda>i. \<lparr>ik_id = i, ik_group = [],
              ik_duration = (case bt_get (ch_durations ch) i of Some d \<Rightarrow> d | None \<Rightarrow> fallback)\<rparr>) ids
        in ch\<lparr>ch_recent := trim_recent (ch_limits ch) recent\<rparr>)"

definition gap_of :: "no_repeat_within \<Rightarrow> repeat_gap" where
  "gap_of g = (case g of Positions n \<Rightarrow> GapPositions n | WithinDuration d \<Rightarrow> GapDuration d)"

definition channel_history_new :: "catalog \<Rightarrow> channel_rule option \<Rightarrow> channel_history" where
  "channel_history_new cat rule =
     (let history = \<lparr>ch_catalog = cat, ch_limits = limits_default, ch_recent = [], ch_durations = [],
            ch_asked = [], ch_mean = 0, ch_nominal = 0, ch_blocked = 0, ch_forced = 0\<rparr>
      in case rule of
           None \<Rightarrow> history
         | Some r \<Rightarrow>
             ch_remember (cr_aired r)
               (history\<lparr>ch_nominal := cr_nominal r,
                        ch_limits := \<lparr>lim_no_repeat = gap_of (cr_gap r), lim_separate = 0\<rparr>\<rparr>))"

section \<open>The runtime of one pool\<close>

record pool_runtime =
  rt_cfg :: pool
  rt_series :: "series list"
  rt_rotation :: nat
  rt_limits :: limits
  rt_keys :: pool_keys
  rt_recent :: "item_keys list"
  rt_forced :: nat
  rt_runtimes :: "(string, duration) btree"
  rt_mean_runtime :: duration
  rt_take_overrides :: "(string, nat) btree"
  rt_drawn :: "string list"
  rt_exhausted :: bool
  rt_refills :: nat
  rt_list_key :: "string option"
  rt_lap :: "string list"
  rt_visit_resumable :: bool
  rt_hold :: "hold option"
  rt_series_titles :: "(string, string) btree"
  rt_period :: "(instant \<times> instant) option"

definition runtime_of :: "pool_runtime \<Rightarrow> string list \<Rightarrow> duration" where
  "runtime_of rt ids =
     sum_list (map (\<lambda>i. case bt_get (rt_runtimes rt) i of Some d \<Rightarrow> d | None \<Rightarrow> rt_mean_runtime rt) ids)"

definition is_dry :: "pool_runtime \<Rightarrow> bool" where
  "is_dry rt \<longleftrightarrow> rt_series rt = []"

definition series_at :: "pool_runtime \<Rightarrow> nat \<Rightarrow> nat option" where
  "series_at rt i = (let n = length (rt_series rt) in if n > 0 then Some (i mod n) else None)"

definition series_after :: "pool_runtime \<Rightarrow> nat \<Rightarrow> nat option" where
  "series_after rt si = series_at rt (si + 1)"

definition pick :: "pool_runtime \<Rightarrow> roll_key \<Rightarrow> u64 \<Rightarrow> nat option" where
  "pick rt roll nonce =
     (case p_select (rt_cfg rt) of
        RoundRobin \<Rightarrow> series_at rt (rt_rotation rt)
      | SelectRandom \<Rightarrow> series_at rt (unat (u64_at roll nonce)))"

definition next_id :: "pool_runtime \<Rightarrow> nat \<Rightarrow> string option" where
  "next_id rt si =
     (let s = rt_series rt ! si in
      if s_cursor s < length (s_ids s) then Some (s_ids s ! s_cursor s)
      else case s_ids s of [] \<Rightarrow> None | i # _ \<Rightarrow> Some i)"

definition own_allows :: "pool_runtime \<Rightarrow> nat \<Rightarrow> bool" where
  "own_allows rt si =
     (case next_id rt si of
        Some i \<Rightarrow> \<not> conflicts_with_recent (rt_recent rt) (keys_of (rt_keys rt) i) (rt_limits rt)
      | None \<Rightarrow> True)"

definition channel_allows :: "pool_runtime \<Rightarrow> nat \<Rightarrow> channel_history \<Rightarrow> bool" where
  "channel_allows rt si ch = (case next_id rt si of None \<Rightarrow> True | Some i \<Rightarrow> ch_allows ch i)"

definition rested :: "pool_runtime \<Rightarrow> nat \<Rightarrow> bool" where
  "rested rt si \<longleftrightarrow>
     (let s = rt_series rt ! si in
      p_advance (rt_cfg rt) = ResumeAdvance \<and> length (s_ids s) > 1 \<and> s_finished s \<and> s_key s \<in> set (rt_lap rt))"

definition admits :: "pool_runtime \<Rightarrow> nat \<Rightarrow> channel_history \<Rightarrow> bool" where
  "admits rt si ch \<longleftrightarrow> \<not> rested rt si \<and> own_allows rt si \<and> channel_allows rt si ch"

definition note_blocked :: "pool_runtime \<Rightarrow> nat \<Rightarrow> channel_history \<Rightarrow> channel_history" where
  "note_blocked rt si ch =
     (if own_allows rt si \<and> \<not> channel_allows rt si ch then ch\<lparr>ch_blocked := ch_blocked ch + 1\<rparr> else ch)"

definition is_unconstrained :: "pool_runtime \<Rightarrow> channel_history \<Rightarrow> bool" where
  "is_unconstrained rt ch \<longleftrightarrow>
     limits_is_unconstrained (rt_limits rt) \<and> ch_is_unconstrained ch \<and>
     \<not> list_ex (rested rt) [0..<length (rt_series rt)]"

text \<open>The series from \<open>start\<close> on, wrapping.\<close>

definition round_from :: "pool_runtime \<Rightarrow> nat \<Rightarrow> nat list" where
  "round_from rt start = map (\<lambda>step. (start + step) mod length (rt_series rt)) [0..<length (rt_series rt)]"

definition own_eligible_from :: "pool_runtime \<Rightarrow> nat \<Rightarrow> nat \<times> pool_runtime" where
  "own_eligible_from rt start =
     (case find (\<lambda>si. \<not> rested rt si \<and> own_allows rt si) (round_from rt start) of
        Some si \<Rightarrow> (si, rt)
      | None \<Rightarrow>
          if limits_is_unconstrained (rt_limits rt) then (start, rt)
          else case find (own_allows rt) (round_from rt start) of
            Some si \<Rightarrow> (si, rt)
          | None \<Rightarrow> (start, rt\<lparr>rt_forced := rt_forced rt + 1\<rparr>))"

definition scan_from :: "pool_runtime \<Rightarrow> nat \<Rightarrow> channel_history \<Rightarrow> nat \<times> pool_runtime \<times> channel_history" where
  "scan_from rt start ch =
     (case find (\<lambda>si. admits rt si ch) (round_from rt start) of
        Some si \<Rightarrow> (si, rt, ch)
      | None \<Rightarrow>
          let (si, rt) = own_eligible_from rt start
          in (si, rt, if channel_allows rt si ch then ch else ch\<lparr>ch_forced := ch_forced ch + 1\<rparr>))"

definition eligible_from ::
  "pool_runtime \<Rightarrow> nat \<Rightarrow> channel_history \<Rightarrow> nat option \<times> pool_runtime \<times> channel_history" where
  "eligible_from rt start ch =
     (if is_unconstrained rt ch then (Some start, rt, ch)
      else if rt_series rt = [] then (None, rt, ch)
      else let (si, rt, ch) = scan_from rt start (note_blocked rt start ch) in (Some si, rt, ch))"

text \<open>The reroll loop: the first of the keyed attempts that lands on an admitted series.\<close>

definition reroll :: "pool_runtime \<Rightarrow> roll_key \<Rightarrow> u64 \<Rightarrow> channel_history \<Rightarrow> nat option" where
  "reroll rt roll nonce ch =
     find (\<lambda>si. admits rt si ch)
       (List.map_filter
         (\<lambda>attempt. series_at rt (unat (u64_at roll (nonce + of_nat attempt * reroll_stride))))
         [1..<random_rerolls + 1])"

definition eligible_pick ::
  "pool_runtime \<Rightarrow> roll_key \<Rightarrow> u64 \<Rightarrow> channel_history \<Rightarrow> nat option \<times> pool_runtime \<times> channel_history" where
  "eligible_pick rt roll nonce ch =
     (case pick rt roll nonce of
        None \<Rightarrow> (None, rt, ch)
      | Some first \<Rightarrow>
          if is_unconstrained rt ch \<or> admits rt first ch then (Some first, rt, ch)
          else
            let ch = note_blocked rt first ch;
                scan = (let (si, rt, ch) = scan_from rt first ch in (Some si, rt, ch))
            in case p_select (rt_cfg rt) of
                 RoundRobin \<Rightarrow> scan
               | SelectRandom \<Rightarrow>
                   (case reroll rt roll nonce ch of Some si \<Rightarrow> (Some si, rt, ch) | None \<Rightarrow> scan))"

definition hold_on :: "pool_runtime \<Rightarrow> nat \<Rightarrow> instant \<times> instant \<Rightarrow> hold" where
  "hold_on rt si period =
     (let key = s_key (rt_series rt ! si) in
      \<lparr>hold_series = key, hold_title = bt_get (rt_series_titles rt) key,
       hold_period_start = fst period, hold_period_end = snd period\<rparr>)"

definition hold_pick ::
  "instant \<times> instant \<Rightarrow> pool_runtime \<Rightarrow> roll_key \<Rightarrow> u64 \<Rightarrow> channel_history \<Rightarrow>
     nat option \<times> pool_runtime \<times> channel_history" where
  "hold_pick period rt roll nonce ch =
     (case eligible_pick rt roll nonce ch of
        (None, rt, ch) \<Rightarrow> (None, rt, ch)
      | (Some si, rt, ch) \<Rightarrow> (Some si, rt\<lparr>rt_hold := Some (hold_on rt si period)\<rparr>, ch))"

definition held_series :: "pool_runtime \<Rightarrow> (hold \<times> nat) option" where
  "held_series rt =
     (case rt_hold rt of
        None \<Rightarrow> None
      | Some h \<Rightarrow> map_option (Pair h) (position (\<lambda>s. s_key s = hold_series h) (rt_series rt)))"

definition first_series ::
  "pool_runtime \<Rightarrow> roll_key \<Rightarrow> u64 \<Rightarrow> channel_history \<Rightarrow> nat option \<times> pool_runtime \<times> channel_history" where
  "first_series rt roll nonce ch =
     (case rt_period rt of
        None \<Rightarrow> eligible_pick rt roll nonce ch
      | Some period \<Rightarrow>
          (case held_series rt of
             None \<Rightarrow> hold_pick period rt roll nonce ch
           | Some (h, si) \<Rightarrow>
               if hold_period_start h = fst period \<and> \<not> s_finished (rt_series rt ! si)
               then (Some si,
                     rt\<lparr>rt_hold := Some (h\<lparr>hold_title := bt_get (rt_series_titles rt) (hold_series h)\<rparr>)\<rparr>, ch)
               else if p_select (rt_cfg rt) = RoundRobin
               then hold_pick period
                 (rt\<lparr>rt_rotation := (case series_after rt si of Some r \<Rightarrow> r | None \<Rightarrow> si)\<rparr>) roll nonce ch
               else hold_pick period rt roll nonce ch))"

definition is_films_only :: "pool_runtime \<Rightarrow> bool" where
  "is_films_only rt \<longleftrightarrow>
     rt_series rt \<noteq> [] \<and> list_all (\<lambda>s. length (s_ids s) = 1 \<and> s_key s = s_ids s ! 0) (rt_series rt)"

definition rt_remember :: "string list \<Rightarrow> pool_runtime \<Rightarrow> pool_runtime" where
  "rt_remember ids rt =
     (if limits_is_unconstrained (rt_limits rt) \<or> ids = [] then rt
      else rt\<lparr>rt_recent := trim_recent (rt_limits rt) (rt_recent rt @ keys_many (rt_keys rt) ids)\<rparr>)"

definition insert_all :: "string list \<Rightarrow> string list \<Rightarrow> string list" where
  "insert_all ids drawn = fold List.insert ids drawn"

definition take_from :: "nat \<Rightarrow> nat \<Rightarrow> pool_runtime \<Rightarrow> string list \<times> pool_runtime" where
  "take_from si want rt =
     (let s = rt_series rt ! si;
          n = min want (series_remaining s);
          out = take n (drop (s_cursor s) (s_ids s))
      in (out, rt\<lparr>rt_series := (rt_series rt)[si := advance_to (s_cursor s + n) s],
                  rt_drawn := insert_all out (rt_drawn rt)\<rparr>))"

definition total_ids :: "pool_runtime \<Rightarrow> nat" where
  "total_ids rt = sum_list (map (\<lambda>s. length (s_ids s)) (rt_series rt))"

definition is_drained :: "pool_runtime \<Rightarrow> bool" where
  "is_drained rt \<longleftrightarrow> rt_series rt \<noteq> [] \<and> length (rt_drawn rt) \<ge> total_ids rt"

definition extend_with ::
  "series list \<Rightarrow> pool_keys \<Rightarrow> (string, duration) btree \<Rightarrow> pool_runtime \<Rightarrow> nat \<times> pool_runtime" where
  "extend_with fresh keys runtimes rt =
     (let known = map s_key (rt_series rt);
          arrivals = filter (\<lambda>s. s_key s \<notin> set known) fresh;
          added = sum_list (map (\<lambda>s. length (s_ids s)) arrivals);
          rt1 = rt\<lparr>rt_series := rt_series rt @ arrivals\<rparr>
      in if added = 0 then (0, rt1)
         else
           let runtimes' = bt_extend (rt_runtimes rt) runtimes;
               keys' = (rt_keys rt)\<lparr>pk_groups := bt_extend (pk_groups (rt_keys rt)) (pk_groups keys),
                                    pk_durations := bt_extend (pk_durations (rt_keys rt)) (pk_durations keys)\<rparr>;
               mean = mean_duration runtimes';
               rt2 = rt1\<lparr>rt_rotation := length (rt_series rt), rt_runtimes := runtimes'\<rparr>
           in (added,
               if runtimes' \<noteq> [] then rt2\<lparr>rt_mean_runtime := mean, rt_keys := keys'\<lparr>pk_mean_duration := mean\<rparr>\<rparr>
               else rt2\<lparr>rt_keys := keys'\<rparr>))"

definition take_override_for :: "pool_runtime \<Rightarrow> nat \<Rightarrow> nat option" where
  "take_override_for rt si =
     (case List.map_filter (bt_get (rt_take_overrides rt)) (s_ids (rt_series rt ! si)) of
        [] \<Rightarrow> None
      | n # _ \<Rightarrow> Some n)"

section \<open>One visit\<close>

datatype draw = DrawCount nat | DrawAll

definition resolve_take :: "take_spec \<Rightarrow> roll_key \<Rightarrow> draw" where
  "resolve_take t roll =
     (case t of
        Range lo hi \<Rightarrow>
          let spread = (hi - lo) + 1
          in DrawCount (lo + unat (u64_at roll take_stride) mod spread)
      | Count n \<Rightarrow> DrawCount n
      | All \<Rightarrow> DrawAll)"

definition take_exceeds :: "nat \<Rightarrow> string" where
  "take_exceeds n = ''take = '' @ dec n @ '' exceeds the maximum of '' @ dec max_take"

text \<open>
  The draw loop of \<open>serve\<close>: the series to draw from next, what was drawn so far, how much
  each series contributed, and the last one that did.
\<close>

record serving =
  sv_current :: "nat option"
  sv_out :: "string list"
  sv_contributed :: "(nat, nat) btree"
  sv_last :: "nat option"
  sv_rt :: pool_runtime
  sv_ch :: channel_history

definition fill_short ::
  "on_short \<Rightarrow> nat \<Rightarrow> pool_runtime \<Rightarrow> channel_history \<Rightarrow> nat option \<times> pool_runtime \<times> channel_history" where
  "fill_short policy si rt ch =
     (case policy of
        NextSeries \<Rightarrow>
          (case series_after rt si of None \<Rightarrow> (None, rt, ch) | Some nxt \<Rightarrow> eligible_from rt nxt ch)
      | Wrap \<Rightarrow>
          let rt' = (if \<not> limits_is_unconstrained (rt_limits rt) \<and> \<not> own_allows rt si
                     then rt\<lparr>rt_forced := rt_forced rt + 1\<rparr> else rt);
              ch' = (if \<not> channel_allows rt' si ch then ch\<lparr>ch_forced := ch_forced ch + 1\<rparr> else ch)
          in (Some si, rt', ch')
      | Short \<Rightarrow> (None, rt, ch))"

fun serve_loop :: "nat \<Rightarrow> nat \<Rightarrow> serving \<Rightarrow> serving" where
  "serve_loop 0 want sv = sv"
| "serve_loop (Suc rounds) want sv =
     (case sv_current sv of
        None \<Rightarrow> sv
      | Some si \<Rightarrow>
          let (taken, rt) = take_from si (want - length (sv_out sv)) (sv_rt sv) in
          if taken = [] then sv\<lparr>sv_rt := rt\<rparr>
          else
            let before = (case bt_get (sv_contributed sv) si of Some n \<Rightarrow> n | None \<Rightarrow> 0);
                out = sv_out sv @ taken;
                sv = sv\<lparr>sv_contributed := bt_insert si (before + length taken) (sv_contributed sv),
                        sv_last := Some si, sv_out := out,
                        sv_rt := rt_remember taken rt, sv_ch := ch_remember taken (sv_ch sv)\<rparr>
            in if length out \<ge> want then sv
               else
                 let (current, rt, ch) = fill_short (p_on_short (rt_cfg (sv_rt sv))) si (sv_rt sv) (sv_ch sv)
                 in serve_loop rounds want (sv\<lparr>sv_current := current, sv_rt := rt, sv_ch := ch\<rparr>))"

definition seat_position :: "take_from \<Rightarrow> nat \<Rightarrow> roll_key \<Rightarrow> u64 \<Rightarrow> series \<Rightarrow> nat" where
  "seat_position src want roll nonce s =
     (let last_start = length (s_ids s) - want in
      case src of
        FromStart \<Rightarrow> s_cursor s
      | FromEnd \<Rightarrow> last_start
      | FromRandom \<Rightarrow> unat (u64_at roll (nonce + from_stride)) mod (last_start + 1))"

definition seat_cursor :: "take_from \<Rightarrow> nat \<Rightarrow> nat \<Rightarrow> roll_key \<Rightarrow> u64 \<Rightarrow> pool_runtime \<Rightarrow> pool_runtime" where
  "seat_cursor src si want roll nonce rt =
     rt\<lparr>rt_series := (rt_series rt)[si :=
       (rt_series rt ! si)\<lparr>s_cursor := seat_position src want roll nonce (rt_series rt ! si)\<rparr>]\<rparr>"

text \<open>After the loop: the hold follows the series that finished the visit.\<close>

definition pass_hold :: "nat option \<Rightarrow> nat option \<Rightarrow> pool_runtime \<Rightarrow> pool_runtime" where
  "pass_hold first final rt =
     (case (rt_hold rt, final) of
        (Some h, Some si) \<Rightarrow>
          if rt_period rt \<noteq> None \<and> Some si \<noteq> first
          then let key = s_key (rt_series rt ! si)
               in rt\<lparr>rt_hold := Some (h\<lparr>hold_series := key, hold_title := bt_get (rt_series_titles rt) key\<rparr>)\<rparr>
          else rt
      | _ \<Rightarrow> rt)"

definition all_in_lap :: "pool_runtime \<Rightarrow> bool" where
  "all_in_lap rt \<longleftrightarrow> list_all (\<lambda>s. s_key s \<in> set (rt_lap rt)) (rt_series rt)"

definition note_lap :: "nat list \<Rightarrow> pool_runtime \<Rightarrow> pool_runtime" where
  "note_lap served rt =
     (let rt = rt\<lparr>rt_lap := fold (\<lambda>si. insort_insert (s_key (rt_series rt ! si))) served (rt_lap rt)\<rparr>
      in if all_in_lap rt then rt\<lparr>rt_lap := []\<rparr> else rt)"

definition park :: "nat \<Rightarrow> (nat, nat) btree \<Rightarrow> nat option \<Rightarrow> pool_runtime \<Rightarrow> pool_runtime" where
  "park want contributed final rt =
     (case final of
        Some si \<Rightarrow>
          if p_select (rt_cfg rt) = RoundRobin
          then let served_all = (case bt_get contributed si of Some n \<Rightarrow> n | None \<Rightarrow> 0) \<ge> want;
                   drained = (s_cursor (rt_series rt ! si) = 0)
               in rt\<lparr>rt_rotation :=
                    (if served_all \<or> drained then (case series_after rt si of Some r \<Rightarrow> r | None \<Rightarrow> si) else si)\<rparr>
          else rt
      | None \<Rightarrow> rt)"

definition override_for :: "pool_runtime \<Rightarrow> nat option \<Rightarrow> nat option" where
  "override_for rt first =
     (case p_rotate (rt_cfg rt) of
        Slot \<Rightarrow> None
      | _ \<Rightarrow> Option.bind first (take_override_for rt))"

text \<open>How many items a visit draws; \<open>None\<close> is \<open>all\<close> with nothing to empty.\<close>

definition serve_size :: "pool_runtime \<Rightarrow> draw \<Rightarrow> nat option \<Rightarrow> nat \<Rightarrow> nat option" where
  "serve_size rt want first already =
     (case (override_for rt first, want, first) of
        (Some n, _, _) \<Rightarrow> Some (n - already)
      | (None, DrawCount n, _) \<Rightarrow> Some (n - already)
      | (None, DrawAll, Some si) \<Rightarrow> Some (series_remaining (rt_series rt ! si))
      | (None, DrawAll, None) \<Rightarrow> None)"

definition over_max :: "pool_runtime \<Rightarrow> draw \<Rightarrow> nat option \<Rightarrow> nat option" where
  "over_max rt want first =
     (case (override_for rt first, want) of
        (Some n, _) \<Rightarrow> if n > max_take then Some n else None
      | (None, DrawCount n) \<Rightarrow> if n > max_take then Some n else None
      | (None, DrawAll) \<Rightarrow> None)"

definition finish_serve :: "take_from \<Rightarrow> nat \<Rightarrow> nat option \<Rightarrow> serving \<Rightarrow> pool_runtime" where
  "finish_serve src want first sv =
     (let rt = pass_hold first (sv_last sv) (sv_rt sv);
          rt = note_lap (map fst (sv_contributed sv)) rt;
          rt = rt\<lparr>rt_visit_resumable := (length (sv_contributed sv) = 1 \<and> src = FromStart)\<rparr>
      in park want (sv_contributed sv) (sv_last sv) rt)"

definition serve ::
  "draw \<Rightarrow> take_from \<Rightarrow> roll_key \<Rightarrow> u64 \<Rightarrow> nat \<Rightarrow> pool_runtime \<Rightarrow> channel_history \<Rightarrow>
     (string list \<times> pool_runtime \<times> channel_history) result" where
  "serve want src roll nonce already rt ch =
     (let (first, rt, ch) = first_series rt roll nonce ch in
      case serve_size rt want first already of
        None \<Rightarrow> Inr ([], rt, ch)
      | Some quota \<Rightarrow>
          (case over_max rt want first of
             Some n \<Rightarrow> Inl (take_exceeds n)
           | None \<Rightarrow>
               let rt = (case first of
                     Some si \<Rightarrow> if src \<noteq> FromStart then seat_cursor src si quota roll nonce rt else rt
                   | None \<Rightarrow> rt);
                   sv = serve_loop (quota + length (rt_series rt) + 1) quota
                     \<lparr>sv_current = first, sv_out = [], sv_contributed = [], sv_last = None, sv_rt = rt, sv_ch = ch\<rparr>
               in Inr (sv_out sv, finish_serve src quota first sv, sv_ch sv)))"

text \<open>The \<open>rotate: slot\<close> loop: one-item serves, each with the slot index as its nonce.\<close>

fun serve_slots ::
  "nat list \<Rightarrow> take_from \<Rightarrow> roll_key \<Rightarrow> string list \<Rightarrow> pool_runtime \<Rightarrow> channel_history \<Rightarrow>
     (string list \<times> pool_runtime \<times> channel_history) result" where
  "serve_slots [] src roll out rt ch = Inr (out, rt, ch)"
| "serve_slots (slot # slots) src roll out rt ch =
     (if is_dry rt then Inr (out, rt, ch)
      else bind_res (serve (DrawCount 1) src roll (of_nat slot) 0 rt ch)
        (\<lambda>(ids, rt, ch). serve_slots slots src roll (out @ ids) rt ch))"

definition visit ::
  "take_spec \<Rightarrow> take_from \<Rightarrow> roll_key \<Rightarrow> nat \<Rightarrow> pool_runtime \<Rightarrow> channel_history \<Rightarrow>
     (string list \<times> pool_runtime \<times> channel_history) result" where
  "visit t src roll already rt ch =
     (let rt = rt\<lparr>rt_visit_resumable := False\<rparr>;
          want = resolve_take t roll
      in if want = DrawCount 0 \<or> is_dry rt then Inr ([], rt, ch)
         else case p_rotate (rt_cfg rt) of
           Slot \<Rightarrow>
             let n = (case want of DrawCount n \<Rightarrow> n | DrawAll \<Rightarrow> 1)
             in if n > max_take then Inl (take_exceeds n)
                else bind_res (serve_slots [0..<n] src roll [] rt ch)
                  (\<lambda>(out, rt, ch). Inr (out, rt\<lparr>rt_visit_resumable := False\<rparr>, ch))
         | Visit \<Rightarrow> serve want src roll 0 already rt ch
         | Span _ \<Rightarrow> serve want src roll 0 already rt ch)"

section \<open>Between generations and across a rollover\<close>

definition to_resume :: "nat \<Rightarrow> nat \<Rightarrow> nat \<Rightarrow> pool_runtime \<Rightarrow> pool_resume" where
  "to_resume cycle step already rt =
     (let resumes = (p_advance (rt_cfg rt) = ResumeAdvance) in
      \<lparr>pr_next = (case p_select (rt_cfg rt) of
           RoundRobin \<Rightarrow> map_option (\<lambda>i. s_key (rt_series rt ! i)) (series_at rt (rt_rotation rt))
         | SelectRandom \<Rightarrow> None),
       pr_cycle = (if resumes then cycle else 0),
       pr_step = (if resumes then step else 0),
       pr_done = (if resumes then already else 0),
       pr_pattern = None,
       pr_list = rt_list_key rt,
       pr_lap = (if resumes then rt_lap rt else []),
       pr_drawn = (if resumes \<and> rt_list_key rt \<noteq> None then sort (rt_drawn rt) else []),
       pr_hold = rt_hold rt\<rparr>)"

text \<open>Collecting into a \<open>BTreeSet\<close>: sorted, each element once.\<close>

definition bset_of :: "'a::linorder list \<Rightarrow> 'a list" where
  "bset_of xs = fold insort_insert xs []"

definition open_after_rollover :: "pool_resume \<Rightarrow> pool_runtime \<Rightarrow> pool_runtime" where
  "open_after_rollover prev rt =
     (let held = map s_key (rt_series rt);
          rt = rt\<lparr>rt_lap := bset_of (filter (\<lambda>k. k \<in> set held) (pr_lap prev))\<rparr>;
          rt = (if all_in_lap rt then rt\<lparr>rt_lap := []\<rparr> else rt)
      in rt\<lparr>rt_rotation :=
           (case position (\<lambda>s. s_key s \<notin> set (rt_lap rt)) (rt_series rt) of Some i \<Rightarrow> i | None \<Rightarrow> 0)\<rparr>)"

definition last_aired :: "series list \<Rightarrow> (string \<times> string) list" where
  "last_aired ss = map (\<lambda>s. (s_key s, s_ids s ! (s_cursor s - 1))) (filter (\<lambda>s. s_cursor s > 0) ss)"

definition carry_series :: "series list \<Rightarrow> series \<Rightarrow> series" where
  "carry_series old s =
     (let finished = (s_key s \<in> s_key ` set (filter s_finished old));
          s = s\<lparr>s_finished := finished\<rparr>
      in case map_of (rev (last_aired old)) (s_key s) of
           None \<Rightarrow> s
         | Some aired \<Rightarrow>
             (case position (\<lambda>i. i = aired) (s_ids s) of
                None \<Rightarrow> s
              | Some pos \<Rightarrow> s\<lparr>s_cursor := (pos + 1) mod length (s_ids s)\<rparr>))"

definition carry_into :: "pool_runtime \<Rightarrow> pool_runtime \<Rightarrow> pool_runtime" where
  "carry_into old fresh =
     (let series = map (carry_series (rt_series old)) (rt_series fresh);
          held = concat (map s_ids series)
      in fresh\<lparr>rt_series := series, rt_recent := rt_recent old, rt_forced := rt_forced fresh + rt_forced old,
               rt_drawn := filter (\<lambda>i. i \<in> set held) (rt_drawn old)\<rparr>)"

section \<open>What the choice of a series leaves alone\<close>

text \<open>
  Choosing a series moves the rotation, the hold and the clash count and nothing else; a
  draw also moves cursors and windows. \<open>outline\<close> is what no draw ever changes.
\<close>

definition steered :: "pool_runtime \<Rightarrow> pool_runtime \<Rightarrow> bool" where
  "steered rt rt' \<longleftrightarrow> (\<exists>f r h. rt' = rt\<lparr>rt_forced := f, rt_rotation := r, rt_hold := h\<rparr>)"

definition series_outline :: "series \<Rightarrow> string \<times> string \<times> string list" where
  "series_outline s = (s_key s, s_show_key s, s_ids s)"

definition outline where
  "outline rt =
     (rt_cfg rt, map series_outline (rt_series rt), rt_limits rt, rt_keys rt, rt_runtimes rt, rt_mean_runtime rt,
      rt_take_overrides rt, rt_list_key rt, rt_series_titles rt, rt_period rt, rt_exhausted rt, rt_refills rt)"

definition pool_ids :: "pool_runtime \<Rightarrow> string list" where
  "pool_ids rt = concat (map s_ids (rt_series rt))"

lemma steered_refl [simp]: "steered rt rt"
  unfolding steered_def by (intro exI [of _ "rt_forced rt"] exI [of _ "rt_rotation rt"] exI [of _ "rt_hold rt"]) simp

lemma steered_trans: "steered a b \<Longrightarrow> steered b c \<Longrightarrow> steered a c"
  unfolding steered_def by (elim exE) (simp, blast)

lemma steered_forced [simp]: "steered rt (rt\<lparr>rt_forced := f\<rparr>)"
  unfolding steered_def by (intro exI [of _ f] exI [of _ "rt_rotation rt"] exI [of _ "rt_hold rt"]) simp

lemma steered_hold [simp]: "steered rt (rt\<lparr>rt_hold := h\<rparr>)"
  unfolding steered_def by (intro exI [of _ "rt_forced rt"] exI [of _ "rt_rotation rt"] exI [of _ h]) simp

lemma steered_rotation [simp]: "steered rt (rt\<lparr>rt_rotation := r\<rparr>)"
  unfolding steered_def by (intro exI [of _ "rt_forced rt"] exI [of _ r] exI [of _ "rt_hold rt"]) simp

lemma steeredD [pool_simps]:
  assumes "steered rt rt'"
  shows "rt_series rt' = rt_series rt" "rt_cfg rt' = rt_cfg rt" "rt_limits rt' = rt_limits rt"
    "rt_keys rt' = rt_keys rt" "rt_recent rt' = rt_recent rt" "rt_lap rt' = rt_lap rt" "rt_drawn rt' = rt_drawn rt"
    "rt_take_overrides rt' = rt_take_overrides rt" "outline rt' = outline rt" "rt_period rt' = rt_period rt"
  using assms by (auto simp: steered_def outline_def)

lemma outlineD:
  assumes "outline rt' = outline rt"
  shows "rt_cfg rt' = rt_cfg rt" "map s_ids (rt_series rt') = map s_ids (rt_series rt)"
    "map s_key (rt_series rt') = map s_key (rt_series rt)"
    "length (rt_series rt') = length (rt_series rt)" "rt_limits rt' = rt_limits rt" "rt_keys rt' = rt_keys rt"
    "rt_take_overrides rt' = rt_take_overrides rt" "rt_period rt' = rt_period rt" "rt_list_key rt' = rt_list_key rt"
    "pool_ids rt' = pool_ids rt"
proof -
  have m: "map series_outline (rt_series rt') = map series_outline (rt_series rt)"
    using assms by (simp add: outline_def)
  from arg_cong [OF m, of "map (\<lambda>(a, b, c). c)"]
  show i: "map s_ids (rt_series rt') = map s_ids (rt_series rt)"
    by (simp add: comp_def series_outline_def)
  from arg_cong [OF m, of "map (\<lambda>(a, b, c). a)"]
  show "map s_key (rt_series rt') = map s_key (rt_series rt)"
    by (simp add: comp_def series_outline_def)
  from arg_cong [OF m, of length] show "length (rt_series rt') = length (rt_series rt)" by simp
  show "pool_ids rt' = pool_ids rt" by (simp add: pool_ids_def i)
qed (use assms in \<open>simp_all add: outline_def\<close>)

lemma round_from_lt: "si \<in> set (round_from rt start) \<Longrightarrow> si < length (rt_series rt)"
proof -
  assume "si \<in> set (round_from rt start)"
  then obtain k where "k < length (rt_series rt)" "si = (start + k) mod length (rt_series rt)"
    by (auto simp: round_from_def)
  then show ?thesis by (metis mod_less_divisor not_less_zero gr_zeroI)
qed

lemma set_round_from: "set (round_from rt start) = {..<length (rt_series rt)}"
proof -
  let ?n = "length (rt_series rt)"
  have "i \<in> set (round_from rt start)" if i: "i < ?n" for i
  proof -
    define k where "k = (if start mod ?n \<le> i then i - start mod ?n else i + ?n - start mod ?n)"
    have m: "start mod ?n < ?n" using i by (intro mod_less_divisor) linarith
    then have k: "k < ?n" using i by (auto simp: k_def)
    have "(start + k) mod ?n = (start mod ?n + k) mod ?n" by (simp add: mod_add_left_eq)
    also have "\<dots> = i" using i m by (auto simp: k_def)
    finally have "i = (start + k) mod ?n" by simp
    then show ?thesis using k unfolding round_from_def by auto
  qed
  then show ?thesis by (auto dest: round_from_lt)
qed

lemma own_eligible_from_steered: "steered rt (snd (own_eligible_from rt start))"
  by (auto simp: own_eligible_from_def split: option.splits)

lemma own_eligible_from_range:
  "start < length (rt_series rt) \<Longrightarrow> fst (own_eligible_from rt start) < length (rt_series rt)"
  by (auto simp: own_eligible_from_def split: option.splits dest!: find_SomeD dest: round_from_lt)

lemma scan_from_steered: "scan_from rt start ch = (si, rt', ch') \<Longrightarrow> steered rt rt'"
  using own_eligible_from_steered [of rt start]
  by (auto simp: scan_from_def case_prod_unfold Let_def split: option.splits)

lemma scan_from_range:
  "scan_from rt start ch = (si, rt', ch') \<Longrightarrow> start < length (rt_series rt) \<Longrightarrow> si < length (rt_series rt)"
  using own_eligible_from_range [of start rt]
  by (auto simp: scan_from_def case_prod_unfold Let_def split: option.splits dest!: find_SomeD dest: round_from_lt)

lemma eligible_from_steered: "eligible_from rt start ch = (c, rt', ch') \<Longrightarrow> steered rt rt'"
  by (auto simp: eligible_from_def Let_def split: if_splits prod.splits dest: scan_from_steered)

lemma eligible_from_range:
  assumes "eligible_from rt start ch = (c, rt', ch')" and "start < length (rt_series rt)"
  shows "\<exists>si < length (rt_series rt). c = Some si"
proof (cases "is_unconstrained rt ch")
  case True
  with assms show ?thesis by (auto simp: eligible_from_def)
next
  case False
  obtain si rt2 ch2 where s: "scan_from rt start (note_blocked rt start ch) = (si, rt2, ch2)"
    by (metis prod.exhaust)
  have "rt_series rt \<noteq> []" using assms(2) by auto
  with False assms(1) s have "c = Some si" by (simp add: eligible_from_def)
  then show ?thesis using scan_from_range [OF s assms(2)] by simp
qed

lemma pick_range: "pick rt roll nonce = Some si \<Longrightarrow> si < length (rt_series rt)"
  by (auto simp: pick_def series_at_def Let_def split: select.splits if_splits)

lemma pick_None_iff: "pick rt roll nonce = None \<longleftrightarrow> is_dry rt"
  by (auto simp: pick_def series_at_def Let_def is_dry_def split: select.splits)

lemma eligible_pick_cases:
  assumes "eligible_pick rt roll nonce ch = (c, rt', ch')"
  obtains (dry) "is_dry rt" "c = None" "rt' = rt" "ch' = ch"
    | (first) si where "pick rt roll nonce = Some si" "is_unconstrained rt ch \<or> admits rt si ch" "c = Some si"
        "rt' = rt" "ch' = ch"
    | (rerolled) first si where "pick rt roll nonce = Some first"
        "reroll rt roll nonce (note_blocked rt first ch) = Some si" "c = Some si" "rt' = rt"
        "ch' = note_blocked rt first ch"
    | (scanned) first si where "pick rt roll nonce = Some first" "\<not> is_unconstrained rt ch" "\<not> admits rt first ch"
        "scan_from rt first (note_blocked rt first ch) = (si, rt', ch')" "c = Some si"
proof (cases "pick rt roll nonce")
  case None
  with assms show ?thesis using pick_None_iff [of rt roll nonce] by (intro dry) (simp_all add: eligible_pick_def)
next
  case (Some f)
  show ?thesis
  proof (cases "is_unconstrained rt ch \<or> admits rt f ch")
    case True
    with assms Some show ?thesis by (intro first [of f]) (auto simp: eligible_pick_def)
  next
    case False
    obtain si rt2 ch2 where s: "scan_from rt f (note_blocked rt f ch) = (si, rt2, ch2)"
      by (metis prod.exhaust)
    show ?thesis
    proof (cases "p_select (rt_cfg rt) = SelectRandom \<and> reroll rt roll nonce (note_blocked rt f ch) \<noteq> None")
      case True
      then obtain sj where "reroll rt roll nonce (note_blocked rt f ch) = Some sj" by blast
      with True assms Some False show ?thesis
        by (intro rerolled [of f sj]) (auto simp: eligible_pick_def Let_def)
    next
      case no: False
      then show ?thesis using assms Some False s
        by (intro scanned) (auto simp: eligible_pick_def Let_def split: select.splits)
    qed
  qed
qed

lemma reroll_spec:
  assumes "reroll rt roll nonce ch = Some si"
  shows "admits rt si ch \<and> si < length (rt_series rt)"
proof -
  have "admits rt si ch" and m: "si \<in> set (List.map_filter
      (\<lambda>attempt. series_at rt (unat (u64_at roll (nonce + of_nat attempt * reroll_stride)))) [1..<random_rerolls + 1])"
    using find_SomeD [OF assms [unfolded reroll_def]] by simp_all
  moreover from m have "si < length (rt_series rt)"
    by (auto simp: List.map_filter_def series_at_def Let_def split: if_splits)
  ultimately show ?thesis by simp
qed

lemma eligible_pick_steered: "eligible_pick rt roll nonce ch = (c, rt', ch') \<Longrightarrow> steered rt rt'"
  by (erule eligible_pick_cases) (auto dest: scan_from_steered)

lemma eligible_pick_range:
  "eligible_pick rt roll nonce ch = (c, rt', ch') \<Longrightarrow> \<not> is_dry rt \<Longrightarrow> \<exists>si < length (rt_series rt). c = Some si"
  by (erule eligible_pick_cases) (auto dest: pick_range reroll_spec scan_from_range)

lemma hold_pick_steered: "hold_pick period rt roll nonce ch = (c, rt', ch') \<Longrightarrow> steered rt rt'"
  by (auto simp: hold_pick_def split: prod.splits option.splits dest!: eligible_pick_steered
      intro: steered_trans [OF _ steered_hold])

lemma hold_pick_range:
  "hold_pick period rt roll nonce ch = (c, rt', ch') \<Longrightarrow> \<not> is_dry rt \<Longrightarrow> \<exists>si < length (rt_series rt). c = Some si"
  by (auto simp: hold_pick_def split: prod.splits option.splits dest!: eligible_pick_range)

lemma first_series_cases:
  obtains (free) "rt_period rt = None" "first_series rt roll nonce ch = eligible_pick rt roll nonce ch"
    | (held) h h' si where "held_series rt = Some (h, si)" "si < length (rt_series rt)"
        "first_series rt roll nonce ch = (Some si, rt\<lparr>rt_hold := Some h'\<rparr>, ch)"
    | (moved) period r where "rt_period rt = Some period"
        "first_series rt roll nonce ch = hold_pick period (rt\<lparr>rt_rotation := r\<rparr>) roll nonce ch"
proof (cases "rt_period rt")
  case None
  then show ?thesis by (intro free) (simp_all add: first_series_def)
next
  case (Some period)
  have same: "rt = rt\<lparr>rt_rotation := rt_rotation rt\<rparr>" by simp
  show ?thesis
  proof (cases "held_series rt")
    case None
    then show ?thesis using Some same by (intro moved [of period "rt_rotation rt"]) (simp_all add: first_series_def)
  next
    case h: (Some hs)
    obtain h0 si where hs: "hs = (h0, si)" by (cases hs)
    have si: "si < length (rt_series rt)"
      using h hs by (auto simp: held_series_def split: option.splits dest: position_Some_less)
    show ?thesis
    proof (cases "hold_period_start h0 = fst period \<and> \<not> s_finished (rt_series rt ! si)")
      case True
      then show ?thesis using Some h hs si
        by (intro held [of h0 si "h0\<lparr>hold_title := bt_get (rt_series_titles rt) (hold_series h0)\<rparr>"]) (simp_all add: first_series_def)
    next
      case no: False
      show ?thesis
      proof (cases "p_select (rt_cfg rt) = RoundRobin")
        case True
        then show ?thesis using Some h hs no
          by (intro moved [of period "case series_after rt si of Some r \<Rightarrow> r | None \<Rightarrow> si"])
            (auto simp: first_series_def)
      next
        case False
        then show ?thesis using Some h hs no
          by (intro moved [of period "rt_rotation rt"]) (auto simp: first_series_def)
      qed
    qed
  qed
qed

lemma first_series_steered:
  assumes "first_series rt roll nonce ch = (c, rt', ch')"
  shows "steered rt rt'"
proof (cases rule: first_series_cases [of rt roll nonce ch])
  case free
  show ?thesis using eligible_pick_steered [OF assms [unfolded free(2)]] .
next
  case (held h h' si)
  then show ?thesis using assms by simp
next
  case (moved period r)
  show ?thesis
    by (rule steered_trans [OF steered_rotation hold_pick_steered [OF assms [unfolded moved(2)]]])
qed

lemma first_series_range:
  assumes "first_series rt roll nonce ch = (c, rt', ch')" and "\<not> is_dry rt"
  shows "\<exists>si < length (rt_series rt). c = Some si"
proof (cases rule: first_series_cases [of rt roll nonce ch])
  case free
  show ?thesis using eligible_pick_range [OF assms(1) [unfolded free(2)] assms(2)] .
next
  case (held h h' si)
  then show ?thesis using assms by simp
next
  case (moved period r)
  show ?thesis
    using hold_pick_range [OF assms(1) [unfolded moved(2)]] assms(2) by (simp add: is_dry_def)
qed

section \<open>Eligibility\<close>

lemma note_blocked_simps [pool_simps, simp]:
  "ch_recent (note_blocked rt si ch) = ch_recent ch"
  "ch_limits (note_blocked rt si ch) = ch_limits ch"
  "ch_forced (note_blocked rt si ch) = ch_forced ch"
  by (simp_all add: note_blocked_def)

lemma channel_allows_note_blocked [simp]: "channel_allows rt sj (note_blocked rt si ch) = channel_allows rt sj ch"
  by (simp add: channel_allows_def ch_allows_def split: option.splits)

lemma admits_note_blocked [simp]: "admits rt sj (note_blocked rt si ch) = admits rt sj ch"
  by (simp add: admits_def)

lemma own_allows_unconstrained: "limits_is_unconstrained (rt_limits rt) \<Longrightarrow> own_allows rt si"
  by (simp add: own_allows_def conflicts_with_recent_def split: option.splits)

lemma unconstrained_admits: "is_unconstrained rt ch \<Longrightarrow> si < length (rt_series rt) \<Longrightarrow> admits rt si ch"
  by (auto simp: is_unconstrained_def admits_def own_allows_unconstrained channel_allows_def ch_allows_def
      ch_is_unconstrained_def conflicts_with_recent_def list_ex_iff split: option.splits)

lemma find_round_None: "find P (round_from rt start) = None \<longleftrightarrow> (\<forall>si < length (rt_series rt). \<not> P si)"
  by (auto simp: find_None_iff set_round_from)

text \<open>What a pool without any admissible series falls back to, and what it counts.\<close>

lemma own_eligible_from_spec:
  assumes "own_eligible_from rt start = (si, rt')" and "start < length (rt_series rt)"
  defines "n \<equiv> length (rt_series rt)"
  shows "((\<exists>sj<n. \<not> rested rt sj \<and> own_allows rt sj) \<longrightarrow> \<not> rested rt si \<and> own_allows rt si) \<and>
         ((\<exists>sj<n. own_allows rt sj) \<longrightarrow> own_allows rt si) \<and>
         rt' = rt\<lparr>rt_forced := rt_forced rt + (if \<exists>sj<n. own_allows rt sj then 0 else 1)\<rparr>"
proof (cases "find (\<lambda>si. \<not> rested rt si \<and> own_allows rt si) (round_from rt start)")
  case (Some sj)
  then have "sj < n" "\<not> rested rt sj" "own_allows rt sj"
    using find_SomeD [OF Some] round_from_lt by (auto simp: n_def)
  then show ?thesis using assms(1) Some by (auto simp: own_eligible_from_def)
next
  case None
  then have none: "\<forall>sj<n. \<not> (\<not> rested rt sj \<and> own_allows rt sj)" by (simp add: find_round_None n_def)
  show ?thesis
  proof (cases "limits_is_unconstrained (rt_limits rt)")
    case True
    then show ?thesis using assms(1,2) None none own_allows_unconstrained [OF True]
      by (auto simp: own_eligible_from_def n_def)
  next
    case False
    show ?thesis
    proof (cases "find (own_allows rt) (round_from rt start)")
      case nobody: None
      then have "\<forall>sj<n. \<not> own_allows rt sj" by (simp add: find_round_None n_def)
      then show ?thesis using assms(1) None False nobody none by (auto simp: own_eligible_from_def)
    next
      case (Some sj)
      then have "sj < n" "own_allows rt sj" using find_SomeD [OF Some] round_from_lt by (auto simp: n_def)
      then show ?thesis using assms(1) None False Some none by (auto simp: own_eligible_from_def)
    qed
  qed
qed

lemma scan_from_spec:
  assumes "scan_from rt start ch = (si, rt', ch')" and "start < length (rt_series rt)"
  defines "n \<equiv> length (rt_series rt)"
  shows "(admits rt si ch \<and> rt' = rt \<and> ch' = ch) \<or>
         ((\<forall>sj<n. \<not> admits rt sj ch) \<and>
          ((\<exists>sj<n. \<not> rested rt sj \<and> own_allows rt sj) \<longrightarrow> \<not> rested rt si \<and> own_allows rt si) \<and>
          ((\<exists>sj<n. own_allows rt sj) \<longrightarrow> own_allows rt si) \<and>
          rt_forced rt' = rt_forced rt + (if \<exists>sj<n. own_allows rt sj then 0 else 1) \<and>
          ch' = ch\<lparr>ch_forced := ch_forced ch + (if channel_allows rt si ch then 0 else 1)\<rparr>)"
proof (cases "find (\<lambda>si. admits rt si ch) (round_from rt start)")
  case (Some sj)
  then show ?thesis using assms(1) find_SomeD [OF Some] by (auto simp: scan_from_def)
next
  case None
  obtain sj rt2 where e: "own_eligible_from rt start = (sj, rt2)" by (metis prod.exhaust)
  have s: "steered rt rt2" using own_eligible_from_steered [of rt start] e by simp
  have "channel_allows rt2 sj ch = channel_allows rt sj ch"
    by (simp add: channel_allows_def next_id_def steeredD [OF s])
  then have eq: "si = sj" "rt' = rt2"
    "ch' = ch\<lparr>ch_forced := ch_forced ch + (if channel_allows rt si ch then 0 else 1)\<rparr>"
    using assms(1) None e by (auto simp: scan_from_def)
  have "\<forall>sj<n. \<not> admits rt sj ch" using None by (simp add: find_round_None n_def)
  then show ?thesis using own_eligible_from_spec [OF e assms(2), folded n_def] eq by auto
qed

text \<open>
  Claim C8. The series that opens a visit is one that may air (it is not sitting out its
  lap, and its next item clashes neither with the pool's own window nor with the channel's
  history) whenever the pool has such a series; then nothing is counted as forced. Only
  when there is none does the channel rule give way first (a series the pool itself
  allows), then the lap's rest, then the pool's own rule, and each forced clash is counted
  exactly once.
\<close>

theorem eligible_pick_spec:
  assumes "eligible_pick rt roll nonce ch = (c, rt', ch')" and "\<not> is_dry rt"
  shows "\<exists>si < length (rt_series rt). c = Some si \<and>
    ((admits rt si ch \<and> rt_forced rt' = rt_forced rt \<and> ch_forced ch' = ch_forced ch) \<or>
     ((\<forall>sj < length (rt_series rt). \<not> admits rt sj ch) \<and>
      ((\<exists>sj < length (rt_series rt). \<not> rested rt sj \<and> own_allows rt sj) \<longrightarrow> \<not> rested rt si \<and> own_allows rt si) \<and>
      ((\<exists>sj < length (rt_series rt). own_allows rt sj) \<longrightarrow> own_allows rt si) \<and>
      rt_forced rt' = rt_forced rt + (if \<exists>sj < length (rt_series rt). own_allows rt sj then 0 else 1) \<and>
      ch_forced ch' = ch_forced ch + (if channel_allows rt si ch then 0 else 1)))"
  using assms(1)
proof (cases rule: eligible_pick_cases)
  case dry
  with assms(2) show ?thesis by simp
next
  case (first si)
  then show ?thesis using pick_range unconstrained_admits by blast
next
  case (rerolled f si)
  from reroll_spec [OF rerolled(2)] show ?thesis using rerolled by auto
next
  case (scanned f si)
  have f: "f < length (rt_series rt)" using pick_range [OF scanned(1)] .
  have si: "si < length (rt_series rt)" using scan_from_range [OF scanned(4) f] .
  from scan_from_spec [OF scanned(4) f] show ?thesis
    by (elim disjE; intro exI [of _ si] conjI si scanned(5)) simp_all
qed

section \<open>A visit keeps the pool\<close>

definition series_ok :: "series \<Rightarrow> bool" where
  "series_ok s \<longleftrightarrow> s_ids s \<noteq> [] \<and> s_cursor s < length (s_ids s)"

definition pool_ok :: "pool_runtime \<Rightarrow> bool" where
  "pool_ok rt \<longleftrightarrow> list_all series_ok (rt_series rt)"

text \<open>Mid-visit, the series about to be drawn from may have its cursor anywhere.\<close>

definition pool_ok_but :: "nat option \<Rightarrow> pool_runtime \<Rightarrow> bool" where
  "pool_ok_but c rt \<longleftrightarrow>
     (\<forall>i < length (rt_series rt). s_ids (rt_series rt ! i) \<noteq> [] \<and>
        (c \<noteq> Some i \<longrightarrow> s_cursor (rt_series rt ! i) < length (s_ids (rt_series rt ! i))))"

lemma pool_ok_but_None: "pool_ok_but None rt \<longleftrightarrow> pool_ok rt"
  by (auto simp: pool_ok_but_def pool_ok_def list_all_length series_ok_def)

lemma pool_ok_imp_but: "pool_ok rt \<Longrightarrow> pool_ok_but c rt"
  by (auto simp: pool_ok_but_def pool_ok_def list_all_length series_ok_def)

lemma advance_to_ok: "s_ids s \<noteq> [] \<Longrightarrow> series_ok (advance_to to s)"
  by (simp add: advance_to_def series_ok_def Let_def)

lemma advance_to_simps [pool_simps, simp]:
  "s_key (advance_to to s) = s_key s" "s_show_key (advance_to to s) = s_show_key s" "s_ids (advance_to to s) = s_ids s"
  "series_outline (advance_to to s) = series_outline s"
  by (simp_all add: advance_to_def series_outline_def Let_def)

lemma map_outline_update:
  "series_outline s = series_outline (xs ! i) \<Longrightarrow> map series_outline (xs[i := s]) = map series_outline xs"
  by (cases "i < length xs") (simp_all add: map_update list_update_same_conv list_update_beyond)

lemma take_from_outline: "take_from si want rt = (out, rt') \<Longrightarrow> outline rt' = outline rt"
  by (auto simp: take_from_def outline_def Let_def map_outline_update)

lemma take_from_ok:
  assumes "take_from si want rt = (out, rt')" and "pool_ok_but (Some si) rt"
  shows "pool_ok rt'"
proof -
  let ?s = "rt_series rt ! si"
  have ss: "rt_series rt' = (rt_series rt)[si := advance_to (s_cursor ?s + min want (series_remaining ?s)) ?s]"
    using assms(1) by (auto simp: take_from_def Let_def)
  have "series_ok (rt_series rt' ! i)" if "i < length (rt_series rt)" for i
    using that assms(2) by (cases "i = si") (auto simp: ss pool_ok_but_def advance_to_ok, simp add: series_ok_def)
  then show ?thesis by (simp add: pool_ok_def list_all_length ss)
qed

lemma set_insert_all: "set (insert_all ids drawn) = set ids \<union> set drawn"
  unfolding insert_all_def by (induction ids arbitrary: drawn) auto

lemma take_from_emits:
  assumes "take_from si want rt = (out, rt')" and "si < length (rt_series rt)"
  shows "set out \<subseteq> set (s_ids (rt_series rt ! si))" and "set out \<subseteq> set (pool_ids rt)"
    and "length out = min want (series_remaining (rt_series rt ! si))"
    and "set (rt_drawn rt') = set (rt_drawn rt) \<union> set out"
proof -
  show out: "set out \<subseteq> set (s_ids (rt_series rt ! si))"
    using assms(1) by (auto simp: take_from_def Let_def dest!: in_set_takeD in_set_dropD)
  then show "set out \<subseteq> set (pool_ids rt)"
    using nth_mem [OF assms(2)] unfolding pool_ids_def by auto
  show "length out = min want (series_remaining (rt_series rt ! si))"
    using assms(1) by (auto simp: take_from_def Let_def series_remaining_def)
  show "set (rt_drawn rt') = set (rt_drawn rt) \<union> set out"
    using assms(1) by (auto simp: take_from_def Let_def set_insert_all)
qed

lemma rt_remember_simps [pool_simps, simp]:
  "rt_series (rt_remember ids rt) = rt_series rt" "outline (rt_remember ids rt) = outline rt"
  "rt_drawn (rt_remember ids rt) = rt_drawn rt" "rt_rotation (rt_remember ids rt) = rt_rotation rt"
  "rt_lap (rt_remember ids rt) = rt_lap rt" "rt_cfg (rt_remember ids rt) = rt_cfg rt"
  "rt_limits (rt_remember ids rt) = rt_limits rt"
  by (simp_all add: rt_remember_def outline_def)

lemma pool_ok_but_series: "rt_series rt' = rt_series rt \<Longrightarrow> pool_ok_but c rt' = pool_ok_but c rt"
  by (simp add: pool_ok_but_def)

lemma pool_ok_series: "rt_series rt' = rt_series rt \<Longrightarrow> pool_ok rt' = pool_ok rt"
  by (simp add: pool_ok_def)

lemma fill_short_steered: "fill_short policy si rt ch = (c, rt', ch') \<Longrightarrow> steered rt rt'"
  by (auto simp: fill_short_def Let_def split: on_short.splits option.splits dest: eligible_from_steered)

lemma fill_short_range:
  "fill_short policy si rt ch = (c, rt', ch') \<Longrightarrow> si < length (rt_series rt) \<Longrightarrow>
     (c = None \<and> policy = Short) \<or> (\<exists>sj < length (rt_series rt). c = Some sj)"
proof (cases policy)
  case NextSeries
  assume f: "fill_short policy si rt ch = (c, rt', ch')" and si: "si < length (rt_series rt)"
  have "series_after rt si = Some ((si + 1) mod length (rt_series rt))"
    using si by (cases "rt_series rt") (simp_all add: series_after_def series_at_def Let_def)
  moreover have "(si + 1) mod length (rt_series rt) < length (rt_series rt)"
    using si by (intro mod_less_divisor) linarith
  ultimately show ?thesis using f NextSeries eligible_from_range by (auto simp: fill_short_def)
qed (auto simp: fill_short_def Let_def)

definition index_ok :: "nat option \<Rightarrow> pool_runtime \<Rightarrow> bool" where
  "index_ok c rt \<longleftrightarrow> (\<forall>si. c = Some si \<longrightarrow> si < length (rt_series rt))"

text \<open>One round of the loop, unfolded once for every induction over it.\<close>

lemma serve_loop_cases:
  obtains (stop) "sv_current sv = None" "serve_loop (Suc rounds) want sv = sv"
    | (empty) si rt where "sv_current sv = Some si" "take_from si (want - length (sv_out sv)) (sv_rt sv) = ([], rt)"
        "serve_loop (Suc rounds) want sv = sv\<lparr>sv_rt := rt\<rparr>"
    | (full) si taken rt where "sv_current sv = Some si"
        "take_from si (want - length (sv_out sv)) (sv_rt sv) = (taken, rt)" "taken \<noteq> []"
        "length (sv_out sv @ taken) \<ge> want"
        "serve_loop (Suc rounds) want sv =
           sv\<lparr>sv_contributed := bt_insert si ((case bt_get (sv_contributed sv) si of Some n \<Rightarrow> n | None \<Rightarrow> 0) + length taken)
                (sv_contributed sv),
              sv_last := Some si, sv_out := sv_out sv @ taken,
              sv_rt := rt_remember taken rt, sv_ch := ch_remember taken (sv_ch sv)\<rparr>"
    | (more) si taken rt c rt2 ch2 where "sv_current sv = Some si"
        "take_from si (want - length (sv_out sv)) (sv_rt sv) = (taken, rt)" "taken \<noteq> []"
        "length (sv_out sv @ taken) < want"
        "fill_short (p_on_short (rt_cfg (rt_remember taken rt))) si (rt_remember taken rt) (ch_remember taken (sv_ch sv)) = (c, rt2, ch2)"
        "serve_loop (Suc rounds) want sv = serve_loop rounds want
           (sv\<lparr>sv_contributed := bt_insert si ((case bt_get (sv_contributed sv) si of Some n \<Rightarrow> n | None \<Rightarrow> 0) + length taken)
                (sv_contributed sv),
              sv_last := Some si, sv_out := sv_out sv @ taken, sv_current := c, sv_rt := rt2, sv_ch := ch2\<rparr>)"
proof (cases "sv_current sv")
  case None
  then show ?thesis by (intro stop) simp_all
next
  case (Some si)
  obtain taken rt where t: "take_from si (want - length (sv_out sv)) (sv_rt sv) = (taken, rt)" by (metis prod.exhaust)
  show ?thesis
  proof (cases "taken = []")
    case True
    then show ?thesis using Some t by (intro empty) simp_all
  next
    case ne: False
    show ?thesis
    proof (cases "length (sv_out sv @ taken) \<ge> want")
      case True
      then show ?thesis using Some t ne by (intro full) (simp_all add: Let_def)
    next
      case False
      obtain c rt2 ch2 where f: "fill_short (p_on_short (rt_cfg (rt_remember taken rt))) si (rt_remember taken rt)
          (ch_remember taken (sv_ch sv)) = (c, rt2, ch2)"
        by (metis prod.exhaust)
      show ?thesis
      proof (rule more [OF Some t ne _ f])
        show "length (sv_out sv @ taken) < want" using False by simp
      qed (use Some t ne False f in \<open>simp add: Let_def\<close>)
    qed
  qed
qed

declare serve_loop.simps(2) [simp del]

lemma steered_ok: "steered rt rt' \<Longrightarrow> pool_ok rt' = pool_ok rt"
  by (simp add: pool_ok_def steeredD)

lemma index_ok_fill:
  assumes "fill_short policy si rt ch = (c, rt', ch')" and "si < length (rt_series rt)"
  shows "index_ok c rt'"
  using fill_short_range [OF assms] steeredD(1) [OF fill_short_steered [OF assms(1)]]
  by (auto simp: index_ok_def)

lemma serve_loop_keeps:
  assumes "pool_ok_but (sv_current sv) (sv_rt sv)" and "index_ok (sv_current sv) (sv_rt sv)"
    and "rounds > 0 \<or> pool_ok (sv_rt sv)"
  shows "outline (sv_rt (serve_loop rounds want sv)) = outline (sv_rt sv) \<and>
         pool_ok (sv_rt (serve_loop rounds want sv)) \<and>
         set (sv_out (serve_loop rounds want sv)) \<subseteq> set (sv_out sv) \<union> set (pool_ids (sv_rt sv)) \<and>
         set (sv_out sv) \<subseteq> set (sv_out (serve_loop rounds want sv)) \<and>
         set (rt_drawn (sv_rt sv)) \<subseteq> set (rt_drawn (sv_rt (serve_loop rounds want sv))) \<and>
         set (rt_drawn (sv_rt (serve_loop rounds want sv))) \<union> set (sv_out sv) =
           set (rt_drawn (sv_rt sv)) \<union> set (sv_out (serve_loop rounds want sv))"
  using assms
proof (induction rounds arbitrary: sv)
  case 0
  then show ?case by auto
next
  case (Suc rounds)
  note ok = Suc.prems(1,2)
  show ?case
  proof (cases rule: serve_loop_cases [of sv rounds want])
    case stop
    then show ?thesis using ok by (simp add: pool_ok_but_None)
  next
    case (empty si rt)
    have si: "si < length (rt_series (sv_rt sv))" using ok empty by (simp add: index_ok_def)
    note t = take_from_emits(4) [OF empty(2) si]
    show ?thesis
      using take_from_outline [OF empty(2)] take_from_ok [OF empty(2)] t ok empty by simp
  next
    case (full si taken rt)
    have si: "si < length (rt_series (sv_rt sv))" using ok full by (simp add: index_ok_def)
    note t = take_from_emits(2,4) [OF full(2) si]
    have "pool_ok rt" using take_from_ok [OF full(2)] ok full(1) by simp
    then have "pool_ok (rt_remember taken rt)" by (simp add: pool_ok_series [of "rt_remember taken rt"])
    then show ?thesis using take_from_outline [OF full(2)] t full(5) by auto
  next
    case (more si taken rt c rt2 ch2)
    have si: "si < length (rt_series (sv_rt sv))" using ok more by (simp add: index_ok_def)
    note t = take_from_emits(2,4) [OF more(2) si]
    have o: "outline rt = outline (sv_rt sv)" using take_from_outline [OF more(2)] .
    have "pool_ok rt" using take_from_ok [OF more(2)] ok more(1) by simp
    then have r: "pool_ok (rt_remember taken rt)" by (simp add: pool_ok_series [of "rt_remember taken rt"])
    note st = fill_short_steered [OF more(5)]
    have si': "si < length (rt_series (rt_remember taken rt))" using si outlineD(4) [OF o] by simp
    let ?sv = "sv\<lparr>sv_contributed := bt_insert si ((case bt_get (sv_contributed sv) si of Some n \<Rightarrow> n | None \<Rightarrow> 0) + length taken)
              (sv_contributed sv),
            sv_last := Some si, sv_out := sv_out sv @ taken, sv_current := c, sv_rt := rt2, sv_ch := ch2\<rparr>"
    have p2: "pool_ok rt2" using r steered_ok [OF st] by simp
    have o2: "outline rt2 = outline (sv_rt sv)" using steeredD(9) [OF st] o by simp
    have d2: "rt_drawn rt2 = rt_drawn rt" using steeredD(7) [OF st] by simp
    have pre: "pool_ok_but (sv_current ?sv) (sv_rt ?sv)" "index_ok (sv_current ?sv) (sv_rt ?sv)"
        "rounds > 0 \<or> pool_ok (sv_rt ?sv)"
      using p2 pool_ok_imp_but index_ok_fill [OF more(5) si'] by simp_all
    note ih = Suc.IH [of ?sv, OF pre]
    have ids: "pool_ids rt2 = pool_ids (sv_rt sv)" using outlineD(10) [OF o2] .
    have out: "sv_out ?sv = sv_out sv @ taken" "sv_rt ?sv = rt2" by simp_all
    show ?thesis unfolding more(6)
      using ih t unfolding out o2 ids d2 set_append by blast
  qed
qed

lemma serve_loop_length:
  assumes "pool_ok (sv_rt sv)" and "sv_current sv = Some si" "si < length (rt_series (sv_rt sv))"
    and "p_on_short (rt_cfg (sv_rt sv)) \<noteq> Short \<or> want - length (sv_out sv) \<le> 1"
    and "length (sv_out sv) \<le> want" and "want - length (sv_out sv) < rounds"
  shows "length (sv_out (serve_loop rounds want sv)) = want"
  using assms
proof (induction rounds arbitrary: sv si)
  case 0
  then show ?case by simp
next
  case (Suc rounds)
  have but: "pool_ok_but (Some sj) (sv_rt sv)" for sj using Suc.prems(1) by (rule pool_ok_imp_but)
  have rem: "0 < series_remaining (rt_series (sv_rt sv) ! si)"
    using Suc.prems(1,3) by (simp add: pool_ok_def list_all_length series_ok_def series_remaining_def)
  show ?case
  proof (cases rule: serve_loop_cases [of sv rounds want])
    case stop
    then show ?thesis using Suc.prems(2) by simp
  next
    case (empty sj rt)
    then have "min (want - length (sv_out sv)) (series_remaining (rt_series (sv_rt sv) ! si)) = 0"
      using take_from_emits(3) [OF empty(2)] Suc.prems(2,3) by simp
    then show ?thesis using rem Suc.prems(5) empty(3) by simp
  next
    case (full sj taken rt)
    then have "length taken \<le> want - length (sv_out sv)"
      using take_from_emits(3) [OF full(2)] Suc.prems(2,3) by simp
    then show ?thesis using full(4,5) Suc.prems(5) by simp
  next
    case (more sj taken rt c rt2 ch2)
    have sj: "sj = si" using more(1) Suc.prems(2) by simp
    have len: "length taken = min (want - length (sv_out sv)) (series_remaining (rt_series (sv_rt sv) ! si))"
      using take_from_emits(3) [OF more(2)] Suc.prems(3) sj by simp
    have o: "outline rt = outline (sv_rt sv)" using take_from_outline [OF more(2)] .
    have "pool_ok rt" using take_from_ok [OF more(2) but] .
    then have r: "pool_ok (rt_remember taken rt)" by (simp add: pool_ok_series [of "rt_remember taken rt"])
    note st = fill_short_steered [OF more(5)]
    have si': "sj < length (rt_series (rt_remember taken rt))" using Suc.prems(3) sj outlineD(4) [OF o] by simp
    have cfg: "rt_cfg rt2 = rt_cfg (sv_rt sv)" using steeredD(2) [OF st] outlineD(1) [OF o] by simp
    have "1 < want - length (sv_out sv)" using more(3,4) by (cases taken) auto
    then have ns: "p_on_short (rt_cfg (sv_rt sv)) \<noteq> Short" using Suc.prems(4) by auto
    then have "p_on_short (rt_cfg (rt_remember taken rt)) \<noteq> Short" using outlineD(1) [OF o] by simp
    then obtain sk where c: "c = Some sk" "sk < length (rt_series (rt_remember taken rt))"
      using fill_short_range [OF more(5) si'] by auto
    have sk: "sk < length (rt_series rt2)" using c(2) steeredD(1) [OF st] by simp
    have "0 < length taken" using more(3) by simp
    then have "want - (length (sv_out sv) + length taken) < rounds"
      using Suc.prems(6) more(4) unfolding length_append by linarith
    then show ?thesis unfolding more(6)
      using more(4) ns steered_ok [OF st] r
      by (intro Suc.IH [of _ sk]) (simp_all add: c(1) sk cfg)
  qed
qed

text \<open>What the tail of \<open>serve\<close> leaves alone.\<close>

lemma pass_hold_steered: "steered rt (pass_hold first final rt)"
  by (auto simp: pass_hold_def Let_def split: option.splits)

lemma note_lap_simps [pool_simps, simp]:
  "rt_series (note_lap served rt) = rt_series rt" "outline (note_lap served rt) = outline rt"
  "rt_drawn (note_lap served rt) = rt_drawn rt" "rt_recent (note_lap served rt) = rt_recent rt"
  "rt_rotation (note_lap served rt) = rt_rotation rt" "rt_cfg (note_lap served rt) = rt_cfg rt"
  by (simp_all add: note_lap_def Let_def outline_def)

lemma park_steered: "steered rt (park want contributed final rt)"
  by (auto simp: park_def Let_def split: option.splits)

lemma finish_serve_keeps:
  "rt_series (finish_serve src want first sv) = rt_series (sv_rt sv)"
  "outline (finish_serve src want first sv) = outline (sv_rt sv)"
  "rt_drawn (finish_serve src want first sv) = rt_drawn (sv_rt sv)"
  "rt_recent (finish_serve src want first sv) = rt_recent (sv_rt sv)"
proof -
  let ?a = "pass_hold first (sv_last sv) (sv_rt sv)"
  let ?b = "note_lap (map fst (sv_contributed sv)) ?a"
  let ?c = "?b\<lparr>rt_visit_resumable := (length (sv_contributed sv) = 1 \<and> src = FromStart)\<rparr>"
  have f: "finish_serve src want first sv = park want (sv_contributed sv) (sv_last sv) ?c"
    by (simp add: finish_serve_def Let_def)
  note a = steeredD [OF pass_hold_steered [of "sv_rt sv" first "sv_last sv"]]
  note c = steeredD [OF park_steered [of ?c want "sv_contributed sv" "sv_last sv"]]
  have bc: "rt_series ?c = rt_series ?a" "outline ?c = outline ?a" "rt_drawn ?c = rt_drawn ?a" "rt_recent ?c = rt_recent ?a"
    using note_lap_simps(2) [of "map fst (sv_contributed sv)" ?a] by (simp_all add: outline_def)
  show "rt_series (finish_serve src want first sv) = rt_series (sv_rt sv)"
    unfolding f c(1) bc a(1) ..
  show "outline (finish_serve src want first sv) = outline (sv_rt sv)"
    unfolding f c(9) bc a(9) ..
  show "rt_drawn (finish_serve src want first sv) = rt_drawn (sv_rt sv)"
    unfolding f c(7) bc a(7) ..
  show "rt_recent (finish_serve src want first sv) = rt_recent (sv_rt sv)"
    unfolding f c(5) bc a(5) ..
qed

lemma seat_cursor_outline: "outline (seat_cursor src si want roll nonce rt) = outline rt"
  by (simp add: seat_cursor_def outline_def Let_def map_outline_update series_outline_def)

lemma pool_ok_but_update:
  assumes "pool_ok rt" and "rt_series rt' = (rt_series rt)[si := s]" and "s_ids s = s_ids (rt_series rt ! si)"
  shows "pool_ok_but (Some si) rt'"
  unfolding pool_ok_but_def
proof (intro allI impI)
  fix i
  assume i: "i < length (rt_series rt')"
  then have "series_ok (rt_series rt ! i)" using assms(1,2) by (simp add: pool_ok_def list_all_length)
  then show "s_ids (rt_series rt' ! i) \<noteq> [] \<and>
      (Some si \<noteq> Some i \<longrightarrow> s_cursor (rt_series rt' ! i) < length (s_ids (rt_series rt' ! i)))"
    using i assms(2,3) by (cases "i = si") (auto simp: series_ok_def)
qed

lemma seat_cursor_but:
  "pool_ok rt \<Longrightarrow> pool_ok_but (Some si) (seat_cursor src si want roll nonce rt)"
  by (erule pool_ok_but_update
      [where s = "(rt_series rt ! si)\<lparr>s_cursor := seat_position src want roll nonce (rt_series rt ! si)\<rparr>"])
    (simp_all add: seat_cursor_def)

lemma seat_position_less:
  assumes "series_ok s" and "0 < want"
  shows "seat_position src want roll nonce s < length (s_ids s)"
proof -
  let ?l = "length (s_ids s) - want"
  have "?l < length (s_ids s)" using assms by (simp add: series_ok_def)
  moreover have le: "k mod (?l + 1) \<le> ?l" for k using mod_less_divisor [of "?l + 1" k] by simp
  ultimately show ?thesis using assms(1) le_less_trans [OF le]
    by (cases src) (simp_all add: seat_position_def series_ok_def Let_def)
qed

lemma seat_cursor_ok:
  assumes "pool_ok rt" and "0 < want"
  shows "pool_ok (seat_cursor src si want roll nonce rt)"
proof -
  have "series_ok (rt_series (seat_cursor src si want roll nonce rt) ! i)" if i: "i < length (rt_series rt)" for i
  proof -
    have ok: "series_ok (rt_series rt ! i)" using assms(1) i by (simp add: pool_ok_def list_all_length)
    then show ?thesis using i seat_position_less [OF ok assms(2)]
      by (cases "i = si") (simp_all add: seat_cursor_def series_ok_def)
  qed
  then show ?thesis by (simp add: pool_ok_def list_all_length seat_cursor_def)
qed

lemma seat_cursor_drawn [simp]: "rt_drawn (seat_cursor src si want roll nonce rt) = rt_drawn rt"
  by (simp add: seat_cursor_def Let_def)

lemma seat_cursor_length [simp]: "length (rt_series (seat_cursor src si want roll nonce rt)) = length (rt_series rt)"
  by (simp add: seat_cursor_def Let_def)

definition seated :: "take_from \<Rightarrow> nat option \<Rightarrow> nat \<Rightarrow> roll_key \<Rightarrow> u64 \<Rightarrow> pool_runtime \<Rightarrow> pool_runtime" where
  "seated src first want roll nonce rt =
     (case first of Some si \<Rightarrow> if src \<noteq> FromStart then seat_cursor src si want roll nonce rt else rt | None \<Rightarrow> rt)"

definition opening_serve :: "nat option \<Rightarrow> pool_runtime \<Rightarrow> channel_history \<Rightarrow> serving" where
  "opening_serve first rt ch =
     \<lparr>sv_current = first, sv_out = [], sv_contributed = [], sv_last = None, sv_rt = rt, sv_ch = ch\<rparr>"

text \<open>A serve that returns, taken apart once for every lemma about it.\<close>

lemma serve_InrE:
  assumes "serve want src roll nonce already rt ch = Inr (out, rt', ch')"
  obtains (idle) "first_series rt roll nonce ch = (None, rt', ch')" "want = DrawAll" "out = []"
    | (served) first rt1 ch1 q where "first_series rt roll nonce ch = (first, rt1, ch1)"
        "serve_size rt1 want first already = Some q" "over_max rt1 want first = None"
        "out = sv_out (serve_loop (q + length (rt_series rt1) + 1) q (opening_serve first (seated src first q roll nonce rt1) ch1))"
        "rt' = finish_serve src q first (serve_loop (q + length (rt_series rt1) + 1) q (opening_serve first (seated src first q roll nonce rt1) ch1))"
        "ch' = sv_ch (serve_loop (q + length (rt_series rt1) + 1) q (opening_serve first (seated src first q roll nonce rt1) ch1))"
proof -
  obtain first rt1 ch1 where f: "first_series rt roll nonce ch = (first, rt1, ch1)" by (metis prod.exhaust)
  show ?thesis
  proof (cases "serve_size rt1 want first already")
    case None
    then have "want = DrawAll" "first = None" by (auto simp: serve_size_def split: option.splits draw.splits)
    then show ?thesis using None f assms by (intro idle) (simp_all add: serve_def)
  next
    case (Some q)
    then have om: "over_max rt1 want first = None"
      using assms f by (simp add: serve_def split: option.splits)
    have len: "length (rt_series (seated src first q roll nonce rt1)) = length (rt_series rt1)"
      by (simp add: seated_def split: option.splits)
    have "(case first of Some si \<Rightarrow> if src \<noteq> FromStart then seat_cursor src si q roll nonce rt1 else rt1 | None \<Rightarrow> rt1)
        = seated src first q roll nonce rt1" by (simp add: seated_def)
    then show ?thesis using Some om f assms
      by (intro served [OF f Some om]) (simp_all add: serve_def Let_def opening_serve_def len)
  qed
qed

lemma serve_keeps:
  assumes "serve want src roll nonce already rt ch = Inr (out, rt', ch')" and "pool_ok rt" and "\<not> is_dry rt"
  shows "outline rt' = outline rt \<and> pool_ok rt' \<and> set out \<subseteq> set (pool_ids rt) \<and>
         set (rt_drawn rt') = set (rt_drawn rt) \<union> set out"
  using assms(1)
proof (cases rule: serve_InrE)
  case idle
  then show ?thesis
    using first_series_range [OF idle(1) assms(3)] by auto
next
  case (served first rt1 ch1 q)
  note st = first_series_steered [OF served(1)]
  obtain si where si: "first = Some si" "si < length (rt_series rt)"
    using first_series_range [OF served(1) assms(3)] by blast
  let ?rt = "seated src first q roll nonce rt1"
  let ?sv = "opening_serve first ?rt ch1"
  have ok1: "pool_ok rt1" using assms(2) steered_ok [OF st] by simp
  have "pool_ok_but (sv_current ?sv) (sv_rt ?sv)" "index_ok (sv_current ?sv) (sv_rt ?sv)"
    using ok1 si steeredD(1) [OF st] pool_ok_imp_but [OF ok1] seat_cursor_but [OF ok1]
    by (auto simp: opening_serve_def seated_def index_ok_def)
  note keeps = serve_loop_keeps [OF this, of "q + length (rt_series rt1) + 1" q]
  have o: "outline ?rt = outline rt" using steeredD(9) [OF st] by (simp add: seated_def seat_cursor_outline si)
  have d: "rt_drawn ?rt = rt_drawn rt" using steeredD(7) [OF st] by (simp add: seated_def si)
  have p: "pool_ids ?rt = pool_ids rt" using outlineD(10) [OF o] .
  show ?thesis
    using keeps finish_serve_keeps pool_ok_series [OF finish_serve_keeps(1)]
    by (simp add: served(4,5) opening_serve_def o d p)
qed

lemma serve_length:
  assumes "serve want src roll nonce already rt ch = Inr (out, rt', ch')" and "pool_ok rt" and "\<not> is_dry rt"
    and "want = DrawCount n" and "rt_take_overrides rt = []"
    and "p_on_short (rt_cfg rt) \<noteq> Short \<or> n - already \<le> 1"
  shows "length out = n - already"
  using assms(1)
proof (cases rule: serve_InrE)
  case idle
  then show ?thesis using assms(4) by simp
next
  case (served first rt1 ch1 q)
  note st = first_series_steered [OF served(1)]
  obtain si where si: "first = Some si" "si < length (rt_series rt)"
    using first_series_range [OF served(1) assms(3)] by blast
  have "List.map_filter (\<lambda>x. None) xs = ([] :: nat list)" for xs :: "string list"
    by (induction xs) (simp_all add: List.map_filter_simps)
  then have none: "override_for rt1 first = None"
    using steeredD(8) [OF st] assms(5) by (simp add: override_for_def si take_override_for_def split: rotate.splits)
  have q: "q = n - already" using served(2) none assms(4) by (simp add: serve_size_def)
  let ?rt = "seated src first q roll nonce rt1"
  have ok1: "pool_ok rt1" using assms(2) steered_ok [OF st] by simp
  have len: "length (rt_series ?rt) = length (rt_series rt1)" by (simp add: seated_def si)
  show ?thesis
  proof (cases "q = 0")
    case True
    have "si < length (rt_series ?rt)" using si(2) len steeredD(1) [OF st] by simp
    moreover obtain taken rt2 where t: "take_from si 0 ?rt = (taken, rt2)" by (metis prod.exhaust)
    ultimately have "taken = []" using take_from_emits(3) [OF t] by simp
    then show ?thesis using t True served(4) q
      by (simp add: opening_serve_def serve_loop.simps(2) si)
  next
    case False
    have ok: "pool_ok ?rt" using ok1 seat_cursor_ok [OF ok1] False by (simp add: seated_def si)
    have cfg: "rt_cfg ?rt = rt_cfg rt"
      using steeredD(2) [OF st] by (simp add: seated_def si seat_cursor_def)
    have "length (sv_out (serve_loop (q + length (rt_series rt1) + 1) q (opening_serve first ?rt ch1))) = q"
      using ok si len steeredD(1) [OF st] cfg assms(6) q
      by (intro serve_loop_length [where si = si]) (simp_all add: opening_serve_def)
    then show ?thesis using served(4) q by simp
  qed
qed

lemma serve_returns:
  assumes "n \<le> max_take" and "rt_take_overrides rt = []" and "\<not> is_dry rt"
  shows "\<exists>out rt' ch'. serve (DrawCount n) src roll nonce already rt ch = Inr (out, rt', ch')"
proof -
  obtain first rt1 ch1 where f: "first_series rt roll nonce ch = (first, rt1, ch1)" by (metis prod.exhaust)
  have "List.map_filter (\<lambda>x. None) xs = ([] :: nat list)" for xs :: "string list"
    by (induction xs) (simp_all add: List.map_filter_simps)
  then have "override_for rt1 first = None"
    using steeredD(8) [OF first_series_steered [OF f]] assms(2)
    by (cases first) (simp_all add: override_for_def take_override_for_def split: rotate.splits)
  then show ?thesis using assms(1) f by (simp add: serve_def serve_size_def over_max_def Let_def)
qed

lemma is_dry_outline: "outline rt' = outline rt \<Longrightarrow> is_dry rt' = is_dry rt"
  using outlineD(4) [of rt' rt] by (simp add: is_dry_def) (metis length_0_conv)

lemma serve_slots_keeps:
  assumes "serve_slots slots src roll acc rt ch = Inr (out, rt', ch')" and "pool_ok rt"
  shows "outline rt' = outline rt \<and> pool_ok rt' \<and> set out \<subseteq> set acc \<union> set (pool_ids rt) \<and>
         set acc \<subseteq> set out \<and> set (rt_drawn rt) \<subseteq> set (rt_drawn rt') \<and>
         set (rt_drawn rt') \<union> set acc = set (rt_drawn rt) \<union> set out"
  using assms
proof (induction slots arbitrary: acc rt ch)
  case Nil
  then show ?case by auto
next
  case (Cons k slots)
  show ?case
  proof (cases "is_dry rt")
    case True
    with Cons.prems show ?thesis by auto
  next
    case False
    then obtain ids rt2 ch2 where s: "serve (DrawCount 1) src roll (of_nat k) 0 rt ch = Inr (ids, rt2, ch2)"
      and rest: "serve_slots slots src roll (acc @ ids) rt2 ch2 = Inr (out, rt', ch')"
      using Cons.prems(1) by (auto elim!: bind_res_InrE)
    note one = serve_keeps [OF s Cons.prems(2) False]
    then have o: "outline rt2 = outline rt" and "pool_ok rt2" by simp_all
    from Cons.IH [OF rest \<open>pool_ok rt2\<close>] one outlineD(10) [OF o] show ?thesis
      unfolding o set_append by auto
  qed
qed

lemma serve_slots_length:
  assumes "pool_ok rt" and "\<not> is_dry rt" and "rt_take_overrides rt = []"
  shows "\<exists>out rt' ch'. serve_slots slots src roll acc rt ch = Inr (out, rt', ch') \<and>
           length out = length acc + length slots"
  using assms
proof (induction slots arbitrary: acc rt ch)
  case Nil
  then show ?case by simp
next
  case (Cons k slots)
  obtain ids rt2 ch2 where s: "serve (DrawCount 1) src roll (of_nat k) 0 rt ch = Inr (ids, rt2, ch2)"
    using serve_returns [of 1 rt src roll "of_nat k" 0 ch] Cons.prems(2,3) by (force simp: max_take_def)
  have o: "outline rt2 = outline rt" and ok: "pool_ok rt2"
    using serve_keeps [OF s Cons.prems(1,2)] by simp_all
  have len: "length ids = 1" using serve_length [OF s Cons.prems(1,2) refl Cons.prems(3)] by simp
  obtain out rt' ch' where "serve_slots slots src roll (acc @ ids) rt2 ch2 = Inr (out, rt', ch')"
    "length out = length (acc @ ids) + length slots"
    using Cons.IH [of rt2 "acc @ ids" ch2] ok o Cons.prems(2,3) is_dry_outline [OF o] outlineD(7) [OF o] by auto
  then show ?case using s len Cons.prems(2) by simp
qed

lemma resumable_irrelevant [simp]:
  "outline (rt\<lparr>rt_visit_resumable := b\<rparr>) = outline rt" "pool_ok (rt\<lparr>rt_visit_resumable := b\<rparr>) = pool_ok rt"
  "pool_ids (rt\<lparr>rt_visit_resumable := b\<rparr>) = pool_ids rt" "is_dry (rt\<lparr>rt_visit_resumable := b\<rparr>) = is_dry rt"
  by (simp_all add: outline_def pool_ok_def pool_ids_def is_dry_def)

lemma visit_keeps:
  assumes "visit t src roll already rt ch = Inr (out, rt', ch')" and "pool_ok rt"
  shows "outline rt' = outline rt \<and> pool_ok rt' \<and> set out \<subseteq> set (pool_ids rt) \<and>
         set (rt_drawn rt') = set (rt_drawn rt) \<union> set out"
proof -
  let ?rt = "rt\<lparr>rt_visit_resumable := False\<rparr>"
  have ok: "pool_ok ?rt" using assms(2) by simp
  show ?thesis
  proof (cases "resolve_take t roll = DrawCount 0 \<or> is_dry rt")
    case True
    then have "visit t src roll already rt ch = Inr ([], ?rt, ch)" by (auto simp: visit_def Let_def)
    then show ?thesis using assms by auto
  next
    case False
    then have dry: "\<not> is_dry ?rt" by simp
    show ?thesis
    proof (cases "p_rotate (rt_cfg rt) = Slot")
      case True
      then obtain rt2 where slots: "serve_slots [0..<(case resolve_take t roll of DrawCount n \<Rightarrow> n | DrawAll \<Rightarrow> 1)]
          src roll [] ?rt ch = Inr (out, rt2, ch')" and rt': "rt' = rt2\<lparr>rt_visit_resumable := False\<rparr>"
        using assms(1) False by (auto simp: visit_def Let_def elim!: bind_res_InrE split: if_splits)
      show ?thesis using serve_slots_keeps [OF slots ok] unfolding rt' by auto
    next
      case no: False
      then have "serve (resolve_take t roll) src roll 0 already ?rt ch = Inr (out, rt', ch')"
        using assms(1) False by (simp add: visit_def Let_def split: rotate.splits)
      from serve_keeps [OF this ok dry] show ?thesis by simp
    qed
  qed
qed

text \<open>
  A visit never leaves the pool: every item it emits is one of the pool's, the
  set of series, their contents and the pool's configuration are unchanged, every cursor
  stays inside its series, and exactly what was emitted is added to the record of what
  aired this generation.
\<close>

theorem visit_stays_in_pool:
  assumes "visit t src roll already rt ch = Inr (out, rt', ch')" and "pool_ok rt"
  shows "set out \<subseteq> set (pool_ids rt) \<and> outline rt' = outline rt \<and> pool_ok rt' \<and>
         set (rt_drawn rt') = set (rt_drawn rt) \<union> set out"
  using visit_keeps [OF assms] by simp

lemma visit_draws:
  assumes "pool_ok rt" and "\<not> is_dry rt" and "rt_take_overrides rt = []"
    and "resolve_take t roll = DrawCount n" and "n \<le> max_take"
    and "p_on_short (rt_cfg rt) \<noteq> Short \<or> p_rotate (rt_cfg rt) = Slot"
  shows "\<exists>out rt' ch'. visit t src roll already rt ch = Inr (out, rt', ch') \<and>
           length out = (if p_rotate (rt_cfg rt) = Slot then n else n - already)"
proof -
  let ?rt = "rt\<lparr>rt_visit_resumable := False\<rparr>"
  have pre: "pool_ok ?rt" "\<not> is_dry ?rt" "rt_take_overrides ?rt = []" using assms(1-3) by simp_all
  show ?thesis
  proof (cases "n = 0")
    case True
    then show ?thesis using assms(2,4) by (simp add: visit_def Let_def)
  next
    case nz: False
    show ?thesis
    proof (cases "p_rotate (rt_cfg rt) = Slot")
      case True
      obtain out rt2 ch2 where "serve_slots [0..<n] src roll [] ?rt ch = Inr (out, rt2, ch2)" "length out = n"
        using serve_slots_length [OF pre, of "[0..<n]" src roll "[]" ch] by auto
      then show ?thesis using True nz assms(2,4,5) by (simp add: visit_def Let_def)
    next
      case False
      obtain out rt2 ch2 where s: "serve (DrawCount n) src roll 0 already ?rt ch = Inr (out, rt2, ch2)"
        using serve_returns [OF assms(5) pre(3,2)] by blast
      have "length out = n - already"
        using serve_length [OF s pre(1,2) refl pre(3)] assms(6) False by simp
      moreover have "visit t src roll already rt ch = Inr (out, rt2, ch2)"
        using s False nz assms(2,4) by (simp add: visit_def Let_def split: rotate.splits)
      ultimately show ?thesis using False by simp
    qed
  qed
qed

text \<open>
  Claim C5. Television does not run out: on a pool that resolved to anything, a visit
  asked for \<open>n\<close> items (a count, or a range once rolled) within the limit returns without an
  error and emits exactly \<open>n\<close> of them, less the ones that had already aired when the visit
  was cut, however short its series are, unless the author chose \<open>on_short: short\<close>; a
  \<open>rotate: slot\<close> visit always fills its slots.
\<close>

theorem visit_draws_exactly:
  assumes "pool_ok rt" and "\<not> is_dry rt" and "rt_take_overrides rt = []"
    and "resolve_take t roll = DrawCount n" and "n \<le> max_take"
    and "p_on_short (rt_cfg rt) \<noteq> Short \<or> p_rotate (rt_cfg rt) = Slot"
  shows "\<exists>out rt' ch'. visit t src roll already rt ch = Inr (out, rt', ch') \<and>
           length out = (if p_rotate (rt_cfg rt) = Slot then n else n - already)"
  using assms by (rule visit_draws)

text \<open>A pool of one film and one three-part show, drawn round robin.\<close>

definition sample_cfg :: pool where
  "sample_cfg =
     \<lparr>p_name = ''p'', p_expr = Some ''x'', p_plugin = None, p_sources = None, p_groups = [], p_order = None,
      p_bucket_order = None, p_group_by = ByShow, p_select = RoundRobin, p_rotate = Visit, p_advance = ResumeAdvance,
      p_cursor_scope = ChannelScope, p_on_short = NextSeries, p_seed = None, p_temperature = None,
      p_constraints = None, p_arcs = None, p_config = None, p_capabilities = [], p_datastores = [], p_label = None, p_advisory = None, p_guide = None, p_tracks = None, p_carried = JNull\<rparr>"

definition new_series :: "string \<Rightarrow> string list \<Rightarrow> series" where
  "new_series key ids = \<lparr>s_key = key, s_show_key = key, s_ids = ids, s_cursor = 0, s_finished = False\<rparr>"

definition sample_runtime :: "pool \<Rightarrow> series list \<Rightarrow> pool_runtime" where
  "sample_runtime cfg ss =
     \<lparr>rt_cfg = cfg, rt_series = ss, rt_rotation = 0, rt_limits = limits_default, rt_keys = pool_keys_default,
      rt_recent = [], rt_forced = 0, rt_runtimes = [], rt_mean_runtime = 0, rt_take_overrides = [], rt_drawn = [],
      rt_exhausted = False, rt_refills = 0, rt_list_key = None, rt_lap = [], rt_visit_resumable = False,
      rt_hold = None, rt_series_titles = [], rt_period = None\<rparr>"

definition sample_history :: channel_history where
  "sample_history = channel_history_new sample_catalog None"

definition sample_roll :: roll_key where
  "sample_roll = \<lparr>rk_seed = 34, rk_cycle = 0, rk_step = 0\<rparr>"

definition two_series :: pool_runtime where
  "two_series = sample_runtime sample_cfg [new_series ''m'' [''m''], new_series ''s'' [''e1'', ''e2'', ''e3'']]"

lemma two_series_ok: "pool_ok two_series" "\<not> is_dry two_series" "rt_take_overrides two_series = []"
  by (simp_all add: two_series_def sample_runtime_def pool_ok_def new_series_def series_ok_def is_dry_def)

theorem eligible_pick_spec_witness:
  "\<exists>si < length (rt_series two_series). fst (eligible_pick two_series sample_roll 0 sample_history) = Some si"
proof -
  obtain c rt' ch' where e: "eligible_pick two_series sample_roll 0 sample_history = (c, rt', ch')"
    by (metis prod.exhaust)
  from eligible_pick_spec [OF e two_series_ok(2)] e show ?thesis by auto
qed

theorem visit_stays_in_pool_witness:
  "\<exists>out rt' ch'. visit (Count 3) FromStart sample_roll 0 two_series sample_history = Inr (out, rt', ch') \<and>
     set out \<subseteq> {''m'', ''e1'', ''e2'', ''e3''}"
proof -
  have "\<exists>out rt' ch'. visit (Count 3) FromStart sample_roll 0 two_series sample_history = Inr (out, rt', ch')"
    using serve_returns [of 3 "two_series\<lparr>rt_visit_resumable := False\<rparr>" FromStart sample_roll 0 0 sample_history] two_series_ok
    by (simp add: visit_def resolve_take_def max_take_def two_series_def sample_runtime_def sample_cfg_def is_dry_def)
  then obtain out rt' ch' where v: "visit (Count 3) FromStart sample_roll 0 two_series sample_history = Inr (out, rt', ch')"
    by blast
  have "pool_ids two_series = [''m'', ''e1'', ''e2'', ''e3'']"
    by (simp add: pool_ids_def two_series_def sample_runtime_def new_series_def)
  then show ?thesis using visit_stays_in_pool [OF v two_series_ok(1)] v by auto
qed

theorem visit_draws_exactly_witness:
  "\<exists>out rt' ch'. visit (Count 3) FromEnd sample_roll 1 two_series sample_history = Inr (out, rt', ch') \<and> length out = 2"
proof -
  have "resolve_take (Count 3) sample_roll = DrawCount 3" by (simp add: resolve_take_def)
  from visit_draws_exactly [OF two_series_ok this, of FromEnd 1 sample_history] show ?thesis
    by (simp add: max_take_def two_series_def sample_runtime_def sample_cfg_def)
qed

end
