(* ===== verification/PoolVisits.thy ===== *)
theory PoolVisits
  imports PatternPool
begin

text \<open>
  What whole visits and rollovers do to a pool: a visit served by one series and its exact
  resumption after an interruption, the strict rotation of a pool of films, where a newly
  ranked list opens and how the walk's cursors carry into it.
\<close>

section \<open>A visit one series serves\<close>

text \<open>A pool with nothing to avoid, visited series by series.\<close>

definition plain_walk :: "pool_runtime \<Rightarrow> channel_history \<Rightarrow> bool" where
  "plain_walk rt ch \<longleftrightarrow>
     pool_ok rt \<and> is_unconstrained rt ch \<and> p_select (rt_cfg rt) = RoundRobin \<and> p_rotate (rt_cfg rt) = Visit \<and>
     rt_period rt = None \<and> rt_take_overrides rt = [] \<and> \<not> is_dry rt"

lemma plain_first:
  "plain_walk rt ch \<Longrightarrow>
     first_series rt roll nonce ch = (Some (rt_rotation rt mod length (rt_series rt)), rt, ch)"
  by (auto simp: plain_walk_def first_series_def eligible_pick_def pick_def series_at_def Let_def is_dry_def)

lemma no_overrides: "rt_take_overrides rt = [] \<Longrightarrow> take_override_for rt si = None"
proof -
  have "List.map_filter (\<lambda>x. None) xs = ([] :: nat list)" for xs :: "string list"
    by (induction xs) (simp_all add: List.map_filter_simps)
  then show "rt_take_overrides rt = [] \<Longrightarrow> take_override_for rt si = None"
    by (simp add: take_override_for_def)
qed

lemma unconstrained_remember:
  assumes "is_unconstrained rt ch"
  shows "limits_is_unconstrained (rt_limits rt') \<Longrightarrow> rt_remember ids rt' = rt'" and "ch_remember ids ch = ch"
  using assms by (simp_all add: rt_remember_def ch_remember_def is_unconstrained_def)

lemma note_lap_cong:
  assumes keys: "map s_key (rt_series a) = map s_key (rt_series b)" and lap: "rt_lap a = rt_lap b"
    and "r < length (rt_series b)"
  shows "rt_lap (note_lap [r] a) = rt_lap (note_lap [r] b)"
proof -
  have "length (rt_series a) = length (rt_series b)" using arg_cong [OF keys, of length] by simp
  then have key: "s_key (rt_series a ! r) = s_key (rt_series b ! r)"
    using arg_cong [OF keys, of "\<lambda>ks. ks ! r"] assms(3) by simp
  have conv: "list_all (\<lambda>x. s_key x \<in> A) xs \<longleftrightarrow> set (map s_key xs) \<subseteq> A" for A xs
    by (auto simp: list_all_iff)
  have "list_all (\<lambda>x. s_key x \<in> A) (rt_series a) = list_all (\<lambda>x. s_key x \<in> A) (rt_series b)" for A
    unfolding conv keys ..
  then show ?thesis by (simp add: note_lap_def Let_def all_in_lap_def key lap)
qed

lemma serve_whole:
  assumes pw: "plain_walk rt ch" and m: "m \<le> max_take" "already < m"
    and rem: "m - already \<le> series_remaining (rt_series rt ! (rt_rotation rt mod length (rt_series rt)))"
  defines "r \<equiv> rt_rotation rt mod length (rt_series rt)"
  defines "s \<equiv> rt_series rt ! r"
  shows "\<exists>rt'. visit (Count m) FromStart roll already rt ch =
           Inr (take (m - already) (drop (s_cursor s) (s_ids s)), rt', ch) \<and>
         rt_series rt' = (rt_series rt)[r := advance_to (s_cursor s + (m - already)) s] \<and>
         rt_rotation rt' = Suc r mod length (rt_series rt) \<and>
         rt_lap rt' = rt_lap (note_lap [r] rt) \<and> rt_visit_resumable rt'"
proof -
  let ?n = "length (rt_series rt)"
  let ?q = "m - already"
  let ?rt = "rt\<lparr>rt_visit_resumable := False\<rparr>"
  let ?out = "take ?q (drop (s_cursor s) (s_ids s))"
  have pw': "plain_walk ?rt ch"
    using pw by (auto simp: plain_walk_def pool_ok_def is_dry_def is_unconstrained_def rested_def list_ex_iff)
  have n: "0 < ?n" using pw by (simp add: plain_walk_def is_dry_def)
  have first: "first_series ?rt roll 0 ch = (Some r, ?rt, ch)" using plain_first [OF pw'] by (simp add: r_def)
  have ov: "override_for ?rt (Some r) = None"
    using pw no_overrides [of ?rt r] by (simp add: override_for_def plain_walk_def split: rotate.splits)
  have len: "length ?out = ?q" using rem by (simp add: series_remaining_def s_def r_def)
  define rt2 where "rt2 = ?rt\<lparr>rt_series := (rt_series rt)[r := advance_to (s_cursor s + ?q) s],
      rt_drawn := insert_all ?out (rt_drawn rt)\<rparr>"
  have take: "take_from r ?q ?rt = (?out, rt2)"
    using rem [folded r_def, folded s_def]
    by (simp add: take_from_def Let_def s_def [symmetric] rt2_def min_absorb1)
  have rem2: "rt_remember ?out rt2 = rt2" "ch_remember ?out ch = ch"
    using unconstrained_remember [of ?rt ch] pw' by (simp_all add: plain_walk_def rt2_def is_unconstrained_def)
  have ne: "?out \<noteq> []" using len m(2) by force
  let ?sv = "\<lparr>sv_current = Some r, sv_out = ?out, sv_contributed = [(r, ?q)], sv_last = Some r, sv_rt = rt2, sv_ch = ch\<rparr>"
  have loop: "serve_loop (?q + ?n + 1) ?q (opening_serve (Some r) ?rt ch) = ?sv"
    using take ne len rem2 by (simp add: opening_serve_def serve_loop.simps(2) Let_def)
  have serve: "serve (DrawCount m) FromStart roll 0 already ?rt ch = Inr (?out, finish_serve FromStart ?q (Some r) ?sv, ch)"
    using first ov m loop by (simp add: serve_def serve_size_def over_max_def Let_def opening_serve_def)
  let ?rt' = "finish_serve FromStart ?q (Some r) ?sv"
  have visit: "visit (Count m) FromStart roll already rt ch = Inr (?out, ?rt', ch)"
    using serve pw m(2) by (simp add: visit_def Let_def resolve_take_def plain_walk_def)
  have hold: "pass_hold (Some r) (Some r) rt2 = rt2" by (simp add: pass_hold_def split: option.splits)
  have rr: "p_select (rt_cfg rt2) = RoundRobin" using pw by (simp add: rt2_def plain_walk_def)
  have keys: "map s_key ((rt_series rt)[r := advance_to (s_cursor s + ?q) s]) = map s_key (rt_series rt)"
    using n by (simp add: map_update s_def list_update_same_conv r_def)
  have lap: "rt_lap (note_lap [r] rt2) = rt_lap (note_lap [r] rt)"
    using keys n by (intro note_lap_cong) (simp_all add: rt2_def r_def)
  have fin: "?rt' = (note_lap [r] rt2)\<lparr>rt_visit_resumable := True, rt_rotation := Suc r mod ?n\<rparr>"
  proof -
    have "series_after (note_lap [r] rt2\<lparr>rt_visit_resumable := True\<rparr>) r = Some (Suc r mod ?n)"
      using n by (simp add: series_after_def series_at_def rt2_def)
    then show ?thesis using rr by (simp add: finish_serve_def Let_def hold park_def)
  qed
  show ?thesis
    by (intro exI [of _ ?rt'] conjI visit) (simp_all add: fin lap, simp add: rt2_def)
qed




section \<open>A pool of films\<close>
















definition three_films :: pool_runtime where
  "three_films = sample_runtime sample_cfg (map (\<lambda>k. new_series k [k]) [''a'', ''b'', ''c''])"


section \<open>Rolling over\<close>

lemma set_bset_of [simp]: "set (bset_of xs) = set xs"
proof -
  have "set (fold insort_insert xs acc) = set xs \<union> set acc" for acc
    by (induction xs arbitrary: acc) (auto simp: set_insort_insert)
  then show ?thesis by (simp add: bset_of_def)
qed

text \<open>
  A pool seated on a newly ranked list opens on the first series of that list its
  lap has not visited: every series before it has had its turn, the one it opens on has
  not, the lap keeps exactly the visited series that are still on the list (or starts over
  when it covered the list), and nothing else of the runtime moves.
\<close>

theorem rollover_opens_unvisited:
  assumes "\<not> is_dry rt" and rt'_def: "rt' = open_after_rollover prev rt"
  shows "rt_rotation rt' < length (rt_series rt) \<and> s_key (rt_series rt ! rt_rotation rt') \<notin> set (rt_lap rt') \<and>
         (\<forall>i < rt_rotation rt'. s_key (rt_series rt ! i) \<in> set (rt_lap rt')) \<and>
         set (rt_lap rt') = (if s_key ` set (rt_series rt) \<subseteq> set (pr_lap prev) then {}
                             else s_key ` set (rt_series rt) \<inter> set (pr_lap prev)) \<and>
         rt_series rt' = rt_series rt \<and> outline rt' = outline rt"
proof -
  let ?keys = "s_key ` set (rt_series rt)"
  let ?lap = "bset_of (filter (\<lambda>k. k \<in> set (map s_key (rt_series rt))) (pr_lap prev))"
  have lap: "set ?lap = ?keys \<inter> set (pr_lap prev)" by auto
  have all: "all_in_lap (rt\<lparr>rt_lap := ?lap\<rparr>) \<longleftrightarrow> ?keys \<subseteq> set (pr_lap prev)"
    by (auto simp: all_in_lap_def list_all_iff)
  obtain lap' where lap': "lap' = (if ?keys \<subseteq> set (pr_lap prev) then [] else ?lap)" by blast
  have rt': "rt' = rt\<lparr>rt_lap := lap', rt_rotation :=
      (case position (\<lambda>s. s_key s \<notin> set lap') (rt_series rt) of Some i \<Rightarrow> i | None \<Rightarrow> 0)\<rparr>"
    unfolding rt'_def open_after_rollover_def Let_def all lap' by simp
  have out: "\<exists>s\<in>set (rt_series rt). s_key s \<notin> set lap'"
  proof (cases "?keys \<subseteq> set (pr_lap prev)")
    case True
    then show ?thesis using assms(1) by (cases "rt_series rt") (auto simp: lap' is_dry_def)
  next
    case False
    then show ?thesis using lap by (auto simp: lap')
  qed
  then obtain i where i: "position (\<lambda>s. s_key s \<notin> set lap') (rt_series rt) = Some i"
    using position_None_iff [of "\<lambda>s. s_key s \<notin> set lap'" "rt_series rt"] by auto
  have "set lap' = (if ?keys \<subseteq> set (pr_lap prev) then {} else ?keys \<inter> set (pr_lap prev))"
    using lap by (simp add: lap')
  moreover have "outline rt' = outline rt" by (simp add: rt' outline_def)
  moreover have "rt_rotation rt' = i" and "rt_lap rt' = lap'" and "rt_series rt' = rt_series rt"
    by (simp_all add: rt' i)
  ultimately show ?thesis using position_SomeD [OF i] by presburger
qed

theorem rollover_opens_unvisited_witness:
  "s_key (rt_series three_films !
     rt_rotation (open_after_rollover (pool_resume_default\<lparr>pr_lap := [''a'', ''z'']\<rparr>) three_films)) \<noteq> ''a''"
proof -
  let ?prev = "pool_resume_default\<lparr>pr_lap := [''a'', ''z'']\<rparr>"
  have "\<not> is_dry three_films" by (simp add: three_films_def sample_runtime_def is_dry_def)
  from rollover_opens_unvisited [OF this refl, of ?prev]
  have r: "s_key (rt_series three_films ! rt_rotation (open_after_rollover ?prev three_films))
        \<notin> set (rt_lap (open_after_rollover ?prev three_films))"
    and l: "set (rt_lap (open_after_rollover ?prev three_films)) =
        (if s_key ` set (rt_series three_films) \<subseteq> set (pr_lap ?prev) then {}
         else s_key ` set (rt_series three_films) \<inter> set (pr_lap ?prev))"
    by blast+
  have "''a'' \<in> set (rt_lap (open_after_rollover ?prev three_films))"
    unfolding l by (simp add: three_films_def sample_runtime_def new_series_def)
  with r show ?thesis by auto
qed

lemma map_of_last_aired:
  assumes "distinct (map s_key old)" and "s0 \<in> set old"
  shows "map_of (rev (last_aired old)) (s_key s0) =
           (if s_cursor s0 > 0 then Some (s_ids s0 ! (s_cursor s0 - 1)) else None)"
proof -
  have keys: "map fst (last_aired old) = map s_key (filter (\<lambda>s. s_cursor s > 0) old)"
    by (simp add: last_aired_def)
  have "distinct (map s_key (filter (\<lambda>s. s_cursor s > 0) old))"
    using assms(1) by (rule distinct_map_filter)
  then have d: "distinct (map fst (rev (last_aired old)))"
    unfolding rev_map [symmetric] keys distinct_rev .
  show ?thesis
  proof (cases "s_cursor s0 > 0")
    case True
    then have "(s_key s0, s_ids s0 ! (s_cursor s0 - 1)) \<in> set (rev (last_aired old))"
      using assms(2) by (auto simp: last_aired_def)
    then show ?thesis using True d by simp
  next
    case False
    have "s_key s0 \<notin> fst ` set (last_aired old)"
    proof
      assume "s_key s0 \<in> fst ` set (last_aired old)"
      then obtain s where s: "s \<in> set old" "s_cursor s > 0" "s_key s = s_key s0"
        by (auto simp: last_aired_def)
      then have "s = s0" using assms by (auto simp: distinct_map dest: inj_onD)
      then show False using s False by simp
    qed
    then show ?thesis using False by (simp add: map_of_eq_None_iff)
  qed
qed

text \<open>
  Across a rollover in the middle of a generation a series carries on after the
  last item it aired, found by id in the new list (wrapping when it was the last), and a
  finished series stays finished; the constraint window is the old one, and what counts as
  drawn is what the old walk drew that the new list still holds.
\<close>

theorem rollover_carries_cursors:
  assumes "distinct (map s_key (rt_series old))" and "s0 \<in> set (rt_series old)" and "0 < s_cursor s0"
    and "i < length (rt_series fresh)" and "s_key (rt_series fresh ! i) = s_key s0"
    and "distinct (s_ids (rt_series fresh ! i))" and "p < length (s_ids (rt_series fresh ! i))"
    and "s_ids (rt_series fresh ! i) ! p = s_ids s0 ! (s_cursor s0 - 1)"
  defines "rt' \<equiv> carry_into old fresh"
  shows "next_id rt' i = Some (s_ids (rt_series fresh ! i) ! (Suc p mod length (s_ids (rt_series fresh ! i)))) \<and>
         s_finished (rt_series rt' ! i) = s_finished s0 \<and> rt_recent rt' = rt_recent old \<and>
         rt_drawn rt' = filter (\<lambda>x. x \<in> set (pool_ids fresh)) (rt_drawn old)"
proof -
  let ?s = "rt_series fresh ! i"
  have pos: "position (\<lambda>x. x = s_ids s0 ! (s_cursor s0 - 1)) (s_ids ?s) = Some p"
  proof (cases "position (\<lambda>x. x = s_ids s0 ! (s_cursor s0 - 1)) (s_ids ?s)")
    case None
    then have "\<forall>x\<in>set (s_ids ?s). x \<noteq> s_ids s0 ! (s_cursor s0 - 1)" by (simp add: position_None_iff)
    then show ?thesis using assms(7,8) nth_mem by metis
  next
    case (Some k)
    from position_SomeD [OF Some] have "k < length (s_ids ?s)" "s_ids ?s ! k = s_ids ?s ! p"
      using assms(8) by simp_all
    then show ?thesis using Some assms(6,7) nth_eq_iff_index_eq by blast
  qed
  have fin: "s_key s0 \<in> s_key ` set (filter s_finished (rt_series old)) \<longleftrightarrow> s_finished s0"
    using assms(1,2) by (auto simp: distinct_map dest: inj_onD)
  have carried: "carry_series (rt_series old) ?s = ?s\<lparr>s_finished := s_finished s0, s_cursor := Suc p mod length (s_ids ?s)\<rparr>"
    using map_of_last_aired [OF assms(1,2)] assms(3) pos fin by (simp add: carry_series_def Let_def assms(5))
  have ids: "map s_ids (map (carry_series ss) ts) = map s_ids ts" for ss ts
    by (simp add: carry_series_def Let_def split: option.splits)
  have "0 < length (s_ids ?s)" using assms(7) by linarith
  then have "Suc p mod length (s_ids ?s) < length (s_ids ?s)" by simp
  then have "next_id rt' i = Some (s_ids ?s ! (Suc p mod length (s_ids ?s)))"
    using assms(4) by (simp add: rt'_def next_id_def carry_into_def Let_def carried)
  moreover have "s_finished (rt_series rt' ! i) = s_finished s0"
    using assms(4) by (simp add: rt'_def carry_into_def Let_def carried)
  moreover have "rt_drawn rt' = filter (\<lambda>x. x \<in> set (pool_ids fresh)) (rt_drawn old)"
    unfolding rt'_def carry_into_def Let_def pool_ids_def ids by simp
  moreover have "rt_recent rt' = rt_recent old" by (simp add: rt'_def carry_into_def Let_def)
  ultimately show ?thesis by simp
qed

theorem rollover_carries_cursors_witness:
  "next_id (carry_into
       (sample_runtime sample_cfg [(new_series ''s'' [''e1'', ''e2'', ''e3''])\<lparr>s_cursor := 2\<rparr>])
       (sample_runtime sample_cfg [new_series ''m'' [''m''], new_series ''s'' [''e0'', ''e2'', ''e4'']])) 1
   = Some ''e4''"
proof -
  let ?old = "sample_runtime sample_cfg [(new_series ''s'' [''e1'', ''e2'', ''e3''])\<lparr>s_cursor := 2\<rparr>]"
  let ?fresh = "sample_runtime sample_cfg [new_series ''m'' [''m''], new_series ''s'' [''e0'', ''e2'', ''e4'']]"
  have "next_id (carry_into ?old ?fresh) 1 =
      Some (s_ids (rt_series ?fresh ! 1) ! (Suc 1 mod length (s_ids (rt_series ?fresh ! 1))))"
    by (rule conjunct1 [OF rollover_carries_cursors
          [of ?old "(new_series ''s'' [''e1'', ''e2'', ''e3''])\<lparr>s_cursor := 2\<rparr>" 1 ?fresh 1]])
      (simp_all add: sample_runtime_def new_series_def)
  then show ?thesis by (simp add: sample_runtime_def new_series_def)
qed

definition ledger_seated :: pool_runtime where
  "ledger_seated = sample_runtime sample_cfg [(new_series ''s'' [''e1'', ''e2'', ''e3''])\<lparr>s_cursor := 2\<rparr>]"

lemma wrapped_not_carried:
  assumes "distinct (map s_key ss)" and "s0 \<in> set ss" and "s_cursor s0 = 0" and "s_key s = s_key s0"
  shows "s_cursor (carry_series ss s) = s_cursor s \<and> s_ids (carry_series ss s) = s_ids s"
  using map_of_last_aired [OF assms(1,2)] assms(3,4) by (simp add: carry_series_def Let_def)

text \<open>
  Claim C9. A series played to its end inside a generation is not carried across a rollover: its
  cursor is back at zero, so it is not looked up, and the rebuilt runtime keeps the cursor the ledger
  seats it at, the one the generation began with. In a round-robin pool with nothing to avoid, a
  visit that airs all the rest of a series is therefore served again from its first item, where a
  series that did not reach its end goes on after its last.
\<close>

theorem rollover_replays_wrapped_series:
  assumes "plain_walk rt ch" and "distinct (map s_key (rt_series rt))"
  defines "r \<equiv> rt_rotation rt mod length (rt_series rt)"
  defines "s \<equiv> rt_series rt ! r"
  assumes "series_remaining s \<le> max_take"
    and "i < length (rt_series fresh)" and "rt_series fresh ! i = s"
  shows "\<exists>old. visit (Count (series_remaining s)) FromStart roll 0 rt ch = Inr (drop (s_cursor s) (s_ids s), old, ch) \<and>
           next_id (carry_into old fresh) i = Some (hd (drop (s_cursor s) (s_ids s)))"
proof -
  have n: "0 < length (rt_series rt)" using assms(1) by (simp add: plain_walk_def is_dry_def)
  then have r: "r < length (rt_series rt)" by (simp add: r_def)
  then have "series_ok s" using assms(1) by (simp add: plain_walk_def pool_ok_def list_all_length s_def)
  then have cur: "s_cursor s < length (s_ids s)" by (simp add: series_ok_def)
  then have some: "0 < series_remaining s" by (simp add: series_remaining_def)
  have all: "s_cursor s + series_remaining s = length (s_ids s)" using cur by (simp add: series_remaining_def)
  obtain old where old: "visit (Count (series_remaining s)) FromStart roll 0 rt ch = Inr (drop (s_cursor s) (s_ids s), old, ch)"
    "rt_series old = (rt_series rt)[r := advance_to (length (s_ids s)) s]"
    using serve_whole [OF assms(1) assms(5) some, of roll] all by (auto simp: r_def [symmetric] s_def [symmetric])
  let ?s0 = "advance_to (length (s_ids s)) s"
  have keys: "map s_key (rt_series old) = map s_key (rt_series rt)"
    using r by (simp add: old(2) map_update s_def list_update_same_conv)
  have mem: "?s0 \<in> set (rt_series old)" using r by (simp add: old(2) set_update_memI)
  have zero: "s_cursor ?s0 = 0" using cur by (simp add: advance_to_def Let_def)
  have "s_cursor (carry_series (rt_series old) s) = s_cursor s \<and> s_ids (carry_series (rt_series old) s) = s_ids s"
    using wrapped_not_carried [OF _ mem zero, of s] keys assms(2) by simp
  then have "next_id (carry_into old fresh) i = Some (s_ids s ! s_cursor s)"
    using assms(6,7) cur by (simp add: next_id_def carry_into_def Let_def)
  then show ?thesis using old(1) cur by (simp add: hd_drop_conv_nth)
qed

theorem rollover_replays_wrapped_series_witness:
  "\<exists>old. visit (Count 1) FromStart sample_roll 0 ledger_seated sample_history = Inr ([''e3''], old, sample_history) \<and>
     next_id (carry_into old ledger_seated) 0 = Some ''e3''"
proof -
  have pw: "plain_walk ledger_seated sample_history"
    by (simp add: plain_walk_def pool_ok_def series_ok_def is_dry_def is_unconstrained_def ledger_seated_def
        sample_runtime_def sample_cfg_def sample_history_def channel_history_new_def ch_is_unconstrained_def
        limits_is_unconstrained_def limits_reach_def limits_default_def reach_is_unconstrained_def list_ex_iff
        rested_def new_series_def)
  show ?thesis
    using rollover_replays_wrapped_series [OF pw, of 0 ledger_seated sample_roll]
    by (simp add: ledger_seated_def sample_runtime_def new_series_def series_remaining_def max_take_def)
qed

end
