(* ===== verification/Score.thy ===== *)
theory Score
  imports Resume Variety Catalog
begin

text \<open>
  \<open>score.rs\<close> around the script engine: which compiled script and candidate sets a pool is
  ranked against (\<open>ScoreCache\<close>), what \<open>pick\<close> hands the script, and what it accepts back.
  The Rhai engine is a third-party interpreter, so a compiled script is a parameter: the
  functions it defines and what calling them returns.
\<close>

section \<open>Rhai values and scripts\<close>

text \<open>\<open>Dynamic\<close>: what the station looks into, and anything else by its type name and identity.\<close>

datatype dyn =
    DynMap "(string \<times> dyn) list"
  | DynArray "dyn list"
  | DynString string
  | DynInt int
  | DynUnit
  | DynOther string nat

fun dyn_type :: "dyn \<Rightarrow> string" where
  "dyn_type (DynMap _) = ''map''"
| "dyn_type (DynArray _) = ''array''"
| "dyn_type (DynString _) = ''string''"
| "dyn_type (DynInt _) = ''i64''"
| "dyn_type DynUnit = ''()''"
| "dyn_type (DynOther t _) = t"

text \<open>\<open>into_string\<close>, \<open>into_array\<close> and \<open>as_int\<close>: the value, or the type it has instead.\<close>

definition into_string :: "dyn \<Rightarrow> string result" where
  "into_string v = (case v of DynString s \<Rightarrow> Inr s | _ \<Rightarrow> Inl (dyn_type v))"

definition into_array :: "dyn \<Rightarrow> dyn list result" where
  "into_array v = (case v of DynArray xs \<Rightarrow> Inr xs | _ \<Rightarrow> Inl (dyn_type v))"

definition as_int :: "dyn \<Rightarrow> int result" where
  "as_int v = (case v of DynInt n \<Rightarrow> Inr n | _ \<Rightarrow> Inl (dyn_type v))"

definition ok_or :: "string \<Rightarrow> 'a option \<Rightarrow> 'a result" where
  "ok_or e v = (case v of Some x \<Rightarrow> Inr x | None \<Rightarrow> Inl e)"

lemma ok_or_Inr [simp]: "ok_or e v = Inr x \<longleftrightarrow> v = Some x"
  by (simp add: ok_or_def split: option.splits)

record narrowing =
  nw_excluded :: "string list"
  nw_required :: "string list option"

definition narrowing_none :: narrowing where
  "narrowing_none = \<lparr>nw_excluded = [], nw_required = None\<rparr>"

definition narrowing_is_empty :: "narrowing \<Rightarrow> bool" where
  "narrowing_is_empty n \<longleftrightarrow> nw_excluded n = [] \<and> nw_required n = None"

definition narrowing_keeps :: "narrowing \<Rightarrow> string \<Rightarrow> bool" where
  "narrowing_keeps n i \<longleftrightarrow>
     i \<notin> set (nw_excluded n) \<and> (case nw_required n of None \<Rightarrow> True | Some r \<Rightarrow> i \<in> set r)"

record profile =
  pf_entries :: "dyn list"
  pf_ignore :: "dyn list"
  pf_narrowing :: narrowing

definition profile_default :: profile where
  "profile_default = \<lparr>pf_entries = [], pf_ignore = [], pf_narrowing = narrowing_none\<rparr>"

record score_inputs =
  si_target_count :: nat
  si_recent :: "string list"
  si_now :: int
  si_account :: "int option"

record grants =
  gr_catalog_read :: bool
  gr_http :: bool
  gr_entry_ids :: "((string \<times> string) \<times> string) list option"
  gr_datastores :: "string list"

text \<open>\<open>ScoreCtx\<close>, the argument of \<open>pick\<close>; the HTTP budget is left out.\<close>

record plugin_ctx =
  pc_sets :: "dyn option"
  pc_pool :: string
  pc_config :: dyn
  pc_target_count :: nat
  pc_now :: int
  pc_recent :: "string list"
  pc_datastores :: "string list"
  pc_seed :: int
  pc_temperature :: f64
  pc_account :: "int option"
  pc_profile :: "dyn list option"
  pc_ignore :: "dyn list"
  pc_entry_ids :: "((string \<times> string) \<times> string) list option"
  pc_http :: bool

record plugin =
  pl_functions :: "string list"
  pl_sources :: "(string, dyn) btree result"
  pl_pick :: "plugin_ctx \<Rightarrow> dyn result"
  pl_audit :: "plugin_ctx \<Rightarrow> dyn list \<Rightarrow> dyn \<Rightarrow> (string, dyn) btree result"

text \<open>
  What the station asks of the engine and of the files beside it: compiling a script,
  turning catalog rows and a config into Rhai values and a Rhai value into JSON, a pool's
  taste profile, opening a datastore, the two renderings a list key is made of, and what the
  walk takes from the \<open>time\<close> crate.
\<close>

record engine =
  en_compile :: "string \<Rightarrow> plugin result"
  en_items :: "string list \<Rightarrow> dyn list result"
  en_config :: "json \<Rightarrow> dyn result"
  en_carrier :: "dyn \<Rightarrow> json option result"
  en_profile :: "pool \<Rightarrow> profile result"
  en_store :: "string \<Rightarrow> string \<Rightarrow> unit result"
  en_pool_json :: "pool \<Rightarrow> string"
  en_f64 :: "f64 \<Rightarrow> string"
  en_pattern_id :: "pattern_step list \<Rightarrow> string"
  en_humantime :: "duration \<Rightarrow> string"
  en_seconds_f64 :: "f64 \<Rightarrow> int"
  en_rfc3339 :: "instant \<Rightarrow> string"
  en_base_dir :: string

text \<open>\<open>Path::join\<close>: an absolute path replaces the base.\<close>

definition resolve_plugin_path :: "string \<Rightarrow> string \<Rightarrow> string" where
  "resolve_plugin_path base path =
     (case path of
        c # _ \<Rightarrow> if c = CHR ''/'' then path
                else if base = [] \<or> last base = CHR ''/'' then base @ path else base @ ''/'' @ path
      | [] \<Rightarrow> if base = [] \<or> last base = CHR ''/'' then base else base @ ''/'')"

definition scorer :: "string \<Rightarrow> string" where
  "scorer path = ''scorer plugin '' @ path"

section \<open>Candidate sets\<close>

text \<open>\<open>declared_sources\<close>: the pool's own table, or what the script's \<open>sources()\<close> returns.\<close>

definition declared_sources :: "plugin \<Rightarrow> string \<Rightarrow> (string, string) btree option \<Rightarrow> (string \<times> string) list result" where
  "declared_sources pl path table =
     (case table of
        Some t \<Rightarrow> Inr t
      | None \<Rightarrow>
          bind_res (map_err (\<lambda>e. scorer path @ '': sources(): '' @ e) (pl_sources pl)) (\<lambda>m.
            map_res (\<lambda>(name, v).
              bind_res (map_err (\<lambda>t. scorer path @ '': source '' @ debug_str name @ '' must be a CEL string, got '' @ t)
                          (into_string v))
                (\<lambda>cel. Inr (name, cel))) m))"

definition source_error_prefix :: "string \<Rightarrow> (string, string) btree option \<Rightarrow> string" where
  "source_error_prefix path table =
     (case table of Some _ \<Rightarrow> ''channel-authored source'' | None \<Rightarrow> scorer path @ '': source'')"

definition source_error :: "string \<Rightarrow> string \<Rightarrow> string \<Rightarrow> string \<Rightarrow> string" where
  "source_error whose name cel e = whose @ '' '' @ debug_str name @ '' ('' @ cel @ ''): '' @ e"

record cached_script =
  cs_plugin :: plugin
  cs_sets :: "(string, dyn) btree"

definition resolve_set ::
  "engine \<Rightarrow> catalog \<Rightarrow> string \<Rightarrow> narrowing \<Rightarrow> string \<times> string \<Rightarrow> (string \<times> dyn) result" where
  "resolve_set en cat whose nw src =
     (let (name, cel) = src in
      bind_res (map_err (source_error whose name cel) (cat_query cat cel)) (\<lambda>ids.
        let ids = (if narrowing_is_empty nw then ids else filter (narrowing_keeps nw) ids) in
        bind_res (map_err (\<lambda>e. whose @ '' '' @ debug_str name @ '': '' @ e) (en_items en ids)) (\<lambda>items.
          Inr (name, DynArray items))))"

definition compile_and_resolve ::
  "engine \<Rightarrow> catalog \<Rightarrow> string \<Rightarrow> (string, string) btree option \<Rightarrow> narrowing \<Rightarrow> cached_script result" where
  "compile_and_resolve en cat path table nw =
     bind_res (en_compile en path) (\<lambda>pl.
       bind_res (declared_sources pl path table) (\<lambda>declared.
         bind_res (map_res (resolve_set en cat (source_error_prefix path table) nw) declared) (\<lambda>sets.
           Inr \<lparr>cs_plugin = pl, cs_sets = fold (\<lambda>(k, v). bt_insert k v) sets []\<rparr>)))"

definition effective_sources :: "engine \<Rightarrow> string \<Rightarrow> (string, string) btree option \<Rightarrow> (string \<times> string) list result" where
  "effective_sources en path table = bind_res (en_compile en path) (\<lambda>pl. declared_sources pl path table)"

definition resolve_source_ids ::
  "engine \<Rightarrow> catalog \<Rightarrow> string \<Rightarrow> (string, string) btree option \<Rightarrow> string list result" where
  "resolve_source_ids en cat path table =
     bind_res (effective_sources en path table) (\<lambda>declared.
       bind_res (map_res (\<lambda>(name, cel).
           map_err (source_error (source_error_prefix path table) name cel) (cat_query cat cel)) declared)
         (\<lambda>idss. Inr (concat idss)))"

section \<open>The cache\<close>

record picked_item =
  pi_id :: string
  pi_metadata :: "json option"
  pi_take :: "nat option"

record picked_extra =
  pe_metadata :: "json option"
  pe_take :: "nat option"

type_synonym cache_key = "string \<times> (string, string) btree option \<times> narrowing"

record score_cache =
  sc_entries :: "cache_key \<Rightarrow> cached_script option"
  sc_extras :: "string \<times> string \<Rightarrow> picked_extra option"
  sc_profiles :: "string \<Rightarrow> profile option"

definition score_cache_new :: score_cache where
  "score_cache_new = \<lparr>sc_entries = Map.empty, sc_extras = Map.empty, sc_profiles = Map.empty\<rparr>"

definition pool_narrowing :: "score_cache \<Rightarrow> string \<Rightarrow> narrowing" where
  "pool_narrowing cache name = (case sc_profiles cache name of Some p \<Rightarrow> pf_narrowing p | None \<Rightarrow> narrowing_none)"

definition prepare ::
  "engine \<Rightarrow> catalog \<Rightarrow> string \<Rightarrow> (string, string) btree option \<Rightarrow> narrowing \<Rightarrow> score_cache \<Rightarrow> score_cache result" where
  "prepare en cat path table nw cache =
     (let key = (path, table, nw) in
      if sc_entries cache key \<noteq> None then Inr cache
      else bind_res (compile_and_resolve en cat path table nw) (\<lambda>s.
        Inr (cache\<lparr>sc_entries := (sc_entries cache)(key \<mapsto> s)\<rparr>)))"

definition prepare_pool :: "engine \<Rightarrow> catalog \<Rightarrow> pool \<Rightarrow> string \<Rightarrow> score_cache \<Rightarrow> score_cache result" where
  "prepare_pool en cat p path cache =
     bind_res (en_profile en p) (\<lambda>pf.
       let cache = cache\<lparr>sc_profiles := (sc_profiles cache)(p_name p \<mapsto> pf)\<rparr>
       in prepare en cat path (p_sources p) (pool_narrowing cache (p_name p)) cache)"

definition record_frozen :: "string \<Rightarrow> frozen_list \<Rightarrow> score_cache \<Rightarrow> score_cache" where
  "record_frozen name l cache =
     cache\<lparr>sc_extras := fold (\<lambda>(i, x) m. m((name, i) \<mapsto> \<lparr>pe_metadata = fe_metadata x, pe_take = fe_take x\<rparr>))
                         (fl_extras l) (sc_extras cache)\<rparr>"

definition has_extra :: "picked_item \<Rightarrow> bool" where
  "has_extra p \<longleftrightarrow> pi_metadata p \<noteq> None \<or> pi_take p \<noteq> None"

definition record_picked :: "string \<Rightarrow> picked_item list \<Rightarrow> score_cache \<Rightarrow> score_cache" where
  "record_picked name picked cache =
     cache\<lparr>sc_extras := fold (\<lambda>p m.
         if has_extra p then m((name, pi_id p) \<mapsto> \<lparr>pe_metadata = pi_metadata p, pe_take = pi_take p\<rparr>) else m)
       picked (sc_extras cache)\<rparr>"

section \<open>Grants\<close>

definition grants_from_names :: "string list \<Rightarrow> grants" where
  "grants_from_names names =
     \<lparr>gr_catalog_read = (''catalog_read'' \<in> set names), gr_http = (''http'' \<in> set names),
      gr_entry_ids = None, gr_datastores = []\<rparr>"

definition with_entry_ids :: "catalog \<Rightarrow> grants \<Rightarrow> grants result" where
  "with_entry_ids cat g =
     (if gr_catalog_read g then bind_res (cat_sources cat) (\<lambda>rows. Inr (g\<lparr>gr_entry_ids := Some rows\<rparr>)) else Inr g)"

fun with_datastores :: "engine \<Rightarrow> (string \<times> string) list \<Rightarrow> grants \<Rightarrow> grants result" where
  "with_datastores en [] g = Inr g"
| "with_datastores en ((name, path) # ds) g =
     bind_res (map_err (\<lambda>e. ''datastore '' @ debug_str name @ '' at '' @ debug_str path @ '': '' @ e) (en_store en name path))
       (\<lambda>_. with_datastores en ds (g\<lparr>gr_datastores := List.insert name (gr_datastores g)\<rparr>))"

definition pool_error :: "string \<Rightarrow> string \<Rightarrow> string" where
  "pool_error name e = ''pool '' @ debug_str name @ '': '' @ e"

definition pool_grants :: "engine \<Rightarrow> catalog \<Rightarrow> pool \<Rightarrow> grants result" where
  "pool_grants en cat p =
     map_err (pool_error (p_name p))
       (bind_res (with_entry_ids cat (grants_from_names (p_capabilities p))) (with_datastores en (p_datastores p)))"

section \<open>What a script may return\<close>

definition record_field :: "string \<Rightarrow> dyn \<Rightarrow> dyn option" where
  "record_field k v = (case v of DynMap kvs \<Rightarrow> map_of kvs k | _ \<Rightarrow> None)"

definition is_map :: "dyn \<Rightarrow> bool" where
  "is_map v \<longleftrightarrow> (case v of DynMap _ \<Rightarrow> True | _ \<Rightarrow> False)"

definition pick_item_error :: "string \<Rightarrow> nat \<Rightarrow> string \<Rightarrow> string" where
  "pick_item_error path index e = scorer path @ '': pick() item #'' @ dec index @ e"

definition parse_take_override :: "string \<Rightarrow> nat \<Rightarrow> string \<Rightarrow> dyn \<Rightarrow> nat result" where
  "parse_take_override path index entry v =
     bind_res (map_err (\<lambda>t. pick_item_error path index
          ('' ('' @ debug_str entry @ '')'' @ apos @ ''s `take` must be a whole number, got '' @ t)) (as_int v))
       (\<lambda>n. if n \<le> 0 then Inl (pick_item_error path index
               ('' ('' @ debug_str entry @ '') names a take override of '' @ dec_int n @ '', which must be positive''))
            else if nat n > max_take then Inl (pick_item_error path index
               ('' ('' @ debug_str entry @ '') names a take override of '' @ dec_int n @ '', which exceeds the maximum of '' @
                dec max_take))
            else Inr (nat n))"

definition parse_picked_item :: "engine \<Rightarrow> string \<Rightarrow> nat \<Rightarrow> dyn \<Rightarrow> picked_item result" where
  "parse_picked_item en path index v =
     (if \<not> is_map v then
        bind_res (map_err (\<lambda>t. pick_item_error path index
             ('' must be an entry_id string or a record naming one, got '' @ t)) (into_string v))
          (\<lambda>i. Inr \<lparr>pi_id = i, pi_metadata = None, pi_take = None\<rparr>)
      else
        bind_res (ok_or (pick_item_error path index '' is a record but names no `entry_id`'') (record_field ''entry_id'' v)) (\<lambda>e.
        bind_res (map_err (\<lambda>t. pick_item_error path index
             (apos @ ''s `entry_id` must be a string, got '' @ t)) (into_string e)) (\<lambda>entry.
        bind_res (case record_field ''metadata'' v of
             None \<Rightarrow> Inr None
           | Some mv \<Rightarrow> map_err (\<lambda>e. pick_item_error path index ('' ('' @ debug_str entry @ '') metadata: '' @ e)) (en_carrier en mv))
          (\<lambda>metadata.
        bind_res (case record_field ''take'' v of
             None \<Rightarrow> Inr None
           | Some tv \<Rightarrow> bind_res (parse_take_override path index entry tv) (\<lambda>n. Inr (Some n)))
          (\<lambda>take_override.
        Inr \<lparr>pi_id = entry, pi_metadata = metadata, pi_take = take_override\<rparr>)))))"

text \<open>\<open>parse_pick_envelope\<close>: the array of picks and the opaque workspace.\<close>

definition parse_pick_envelope :: "string \<Rightarrow> dyn \<Rightarrow> (dyn list \<times> dyn) result" where
  "parse_pick_envelope path v =
     (if \<not> is_map v then
        Inl (scorer path @ '': pick() must return #{ picks: [...], workspace: <opaque> }, got '' @ dyn_type v)
      else
        bind_res (ok_or (scorer path @ '': pick() must return #{ picks: [...], workspace: <opaque> } '' @ em_dash @ '' no `picks` key'')
             (record_field ''picks'' v)) (\<lambda>pv.
        bind_res (map_err (\<lambda>t. scorer path @ '': pick()'' @ apos @ ''s `picks` must be an array, got '' @ t) (into_array pv)) (\<lambda>picks.
        Inr (picks, case record_field ''workspace'' v of Some w \<Rightarrow> w | None \<Rightarrow> DynUnit))))"

fun collect_picks :: "engine \<Rightarrow> string \<Rightarrow> nat \<Rightarrow> string list \<Rightarrow> dyn list \<Rightarrow> picked_item list result" where
  "collect_picks en path i seen [] = Inr []"
| "collect_picks en path i seen (v # vs) =
     bind_res (parse_picked_item en path i v) (\<lambda>item.
       if pi_id item \<in> set seen then
         Inl (scorer path @ '': pick() returned '' @ debug_str (pi_id item) @ '' more than once'')
       else bind_res (collect_picks en path (Suc i) (pi_id item # seen) vs) (\<lambda>items. Inr (item # items)))"

section \<open>The audit records of a ranking\<close>

definition known_stages :: "string list" where
  "known_stages = [''pool'', ''select'', ''constraint'', ''pattern'']"

text \<open>
  Appending to the \<open>audit\<close> array of an object. The code takes the array out of the entry with
  an \<open>expect\<close>, which panics on a blob whose own \<open>audit\<close> is something else; a panic is an
  \<open>Inl\<close> carrying its message.
\<close>

definition audit_panic :: string where
  "audit_panic = ''`audit` is always inserted as an array''"

definition push_audit :: "json \<Rightarrow> (string \<times> json) list \<Rightarrow> json result" where
  "push_audit record kvs =
     (case bt_get kvs ''audit'' of
        None \<Rightarrow> Inr (JObject (bt_insert ''audit'' (JArray [record]) kvs))
      | Some (JArray rs) \<Rightarrow> Inr (JObject (bt_insert ''audit'' (JArray (rs @ [record])) kvs))
      | Some _ \<Rightarrow> Inl audit_panic)"

definition audit_error :: "string \<Rightarrow> string \<Rightarrow> string" where
  "audit_error path e = scorer path @ '': audit() '' @ e"

definition record_string :: "string \<Rightarrow> string \<Rightarrow> dyn \<Rightarrow> string \<Rightarrow> string result" where
  "record_string path entry record k =
     bind_res (ok_or (audit_error path (''record for '' @ debug_str entry @ '' names no `'' @ k @ ''`'')) (record_field k record))
       (\<lambda>v. map_err (\<lambda>t. audit_error path
          (''record for '' @ debug_str entry @ apos @ ''s `'' @ k @ ''` must be a string, got '' @ t)) (into_string v))"

definition record_guide :: "string \<Rightarrow> string \<Rightarrow> dyn \<Rightarrow> string option result" where
  "record_guide path entry record =
     (let whose = ''record for '' @ debug_str entry @ apos @ ''s `guide` '' in
      case record_field ''guide'' record of
        None \<Rightarrow> Inr None
      | Some v \<Rightarrow>
          bind_res (map_err (\<lambda>t. audit_error path (whose @ ''must be a string, got '' @ t)) (into_string v)) (\<lambda>s.
            if s = [] then Inl (audit_error path (whose @ ''must not be empty''))
            else if char_count s > 200 then
              Inl (audit_error path (whose @ ''must be at most 200 characters, got '' @ dec (char_count s)))
            else Inr (Some s)))"

definition record_detail :: "engine \<Rightarrow> string \<Rightarrow> string \<Rightarrow> dyn \<Rightarrow> json option result" where
  "record_detail en path entry record =
     (case record_field ''detail'' record of
        None \<Rightarrow> Inr None
      | Some v \<Rightarrow> map_err (\<lambda>e. audit_error path (''record for '' @ debug_str entry @ '' detail: '' @ e)) (en_carrier en v))"

definition opt_field :: "string \<Rightarrow> json option \<Rightarrow> (string, json) btree \<Rightarrow> (string, json) btree" where
  "opt_field k v kvs = (case v of None \<Rightarrow> kvs | Some j \<Rightarrow> bt_insert k j kvs)"

definition audit_record_json :: "string \<Rightarrow> string \<Rightarrow> string \<Rightarrow> string option \<Rightarrow> json option \<Rightarrow> json" where
  "audit_record_json stage by verdict guide detail =
     JObject (opt_field ''detail'' detail
       (opt_field ''guide'' (map_option JString guide)
         (bt_insert ''verdict'' (JString verdict)
           (bt_insert ''by'' (JString by) (bt_insert ''stage'' (JString stage) [])))))"

definition read_audit_record :: "engine \<Rightarrow> string \<Rightarrow> string \<Rightarrow> dyn \<Rightarrow> json result" where
  "read_audit_record en path entry record =
     (if \<not> is_map record then
        Inl (audit_error path (''record for '' @ debug_str entry @ '' must be a map, got '' @ dyn_type record))
      else bind_res (record_string path entry record ''stage'') (\<lambda>stage.
        if stage \<notin> set known_stages then
          Inl (audit_error path (''record for '' @ debug_str entry @ '' names unknown stage '' @ debug_str stage @ '' '' @
               em_dash @ '' known stages are: '' @ join '', '' known_stages))
        else bind_res (record_string path entry record ''by'') (\<lambda>by.
          bind_res (record_string path entry record ''verdict'') (\<lambda>verdict.
          bind_res (record_guide path entry record) (\<lambda>guide.
          bind_res (record_detail en path entry record) (\<lambda>detail.
            Inr (audit_record_json stage by verdict guide detail)))))))"

definition merge_record :: "engine \<Rightarrow> string \<Rightarrow> picked_item list \<Rightarrow> string \<times> dyn \<Rightarrow> picked_item list result" where
  "merge_record en path items er =
     (let (entry, record) = er in
      case position (\<lambda>p. pi_id p = entry) items of
        None \<Rightarrow> Inl (audit_error path (''named '' @ debug_str entry @ '', which pick() never returned''))
      | Some k \<Rightarrow>
          bind_res (read_audit_record en path entry record) (\<lambda>j.
            case (case pi_metadata (items ! k) of Some m \<Rightarrow> m | None \<Rightarrow> JObject []) of
              JObject kvs \<Rightarrow>
                bind_res (push_audit j kvs) (\<lambda>m. Inr (items[k := (items ! k)\<lparr>pi_metadata := Some m\<rparr>]))
            | _ \<Rightarrow> Inl (scorer path @ '': item '' @ debug_str entry @ apos @
                        ''s metadata is not an object, cannot attach an audit trail'')))"

fun merge_audit :: "engine \<Rightarrow> string \<Rightarrow> (string \<times> dyn) list \<Rightarrow> picked_item list \<Rightarrow> picked_item list result" where
  "merge_audit en path [] items = Inr items"
| "merge_audit en path (er # ers) items =
     bind_res (merge_record en path items er) (\<lambda>items. merge_audit en path ers items)"

section \<open>Ranking a pool\<close>

text \<open>\<open>(mixed & i64::MAX) as i64\<close>: the top bit is cleared, so the script sees no negative seed.\<close>

definition mixed_seed :: "u64 \<Rightarrow> string \<Rightarrow> int" where
  "mixed_seed seed name = uint (mix_seed seed (fnv1a_64 name) AND 0x7FFFFFFFFFFFFFFF)"

definition pool_config_dynamic :: "engine \<Rightarrow> json option \<Rightarrow> string \<Rightarrow> string \<Rightarrow> string \<Rightarrow> dyn result" where
  "pool_config_dynamic en config kind path name =
     (case config of
        None \<Rightarrow> Inr (DynMap [])
      | Some v \<Rightarrow> map_err (\<lambda>e. kind @ '' plugin '' @ path @ '': pool '' @ debug_str name @
                     '' config is not representable in Rhai: '' @ e) (en_config en v))"

definition missing_audit_fn :: "string \<Rightarrow> string" where
  "missing_audit_fn path =
     scorer path @ '' declares pool_provider but implements no audit(ctx, picks, workspace) '' @ em_dash @
     '' every pool_provider must explain its picks''"

definition plugin_context ::
  "score_cache \<Rightarrow> cached_script \<Rightarrow> score_inputs \<Rightarrow> dice \<Rightarrow> string \<Rightarrow> dyn \<Rightarrow> grants \<Rightarrow> plugin_ctx" where
  "plugin_context cache cs inputs d name config g =
     (let pf = (case sc_profiles cache name of Some p \<Rightarrow> p | None \<Rightarrow> profile_default) in
      \<lparr>pc_sets = (if gr_catalog_read g then Some (DynMap (cs_sets cs)) else None),
       pc_pool = name, pc_config = config, pc_target_count = si_target_count inputs, pc_now = si_now inputs,
       pc_recent = si_recent inputs, pc_datastores = gr_datastores g, pc_seed = mixed_seed (dice_seed d) name,
       pc_temperature = dice_temperature d, pc_account = si_account inputs,
       pc_profile = (if gr_catalog_read g then Some (pf_entries pf) else None), pc_ignore = pf_ignore pf,
       pc_entry_ids = (if gr_catalog_read g then gr_entry_ids g else None), pc_http = gr_http g\<rparr>)"

definition cache_key_of :: "score_cache \<Rightarrow> string \<Rightarrow> pool \<Rightarrow> cache_key" where
  "cache_key_of cache path p = (path, p_sources p, pool_narrowing cache (p_name p))"

definition not_prepared :: "string \<Rightarrow> string" where
  "not_prepared path =
     scorer path @ '': pick() called before prepare() '' @ em_dash @ '' this is a bug in etv-station, not in the script''"

definition picked_nothing :: "string \<Rightarrow> string" where
  "picked_nothing path = scorer path @ '' picked nothing '' @ em_dash @ '' an empty pool would silently shorten the channel''"

definition score_pick ::
  "engine \<Rightarrow> score_cache \<Rightarrow> string \<Rightarrow> score_inputs \<Rightarrow> dice \<Rightarrow> pool \<Rightarrow> grants \<Rightarrow> picked_item list result" where
  "score_pick en cache path inputs d p g =
     bind_res (ok_or (not_prepared path) (sc_entries cache (cache_key_of cache path p))) (\<lambda>cs.
     bind_res (pool_config_dynamic en (p_config p) ''scorer'' path (p_name p)) (\<lambda>config.
     let ctx = plugin_context cache cs inputs d (p_name p) config g; pl = cs_plugin cs in
     bind_res (map_err (\<lambda>e. scorer path @ '': pick(): '' @ e) (pl_pick pl ctx)) (\<lambda>envelope.
     bind_res (parse_pick_envelope path envelope) (\<lambda>(picks, workspace).
     bind_res (collect_picks en path 0 [] picks) (\<lambda>out.
     if out = [] then Inl (picked_nothing path)
     else if ''audit'' \<notin> set (pl_functions pl) then Inl (missing_audit_fn path)
     else bind_res (map_err (\<lambda>e. scorer path @ '': audit(): '' @ e) (pl_audit pl ctx picks workspace)) (\<lambda>records.
       merge_audit en path records out))))))"

section \<open>The cache never mixes pools up\<close>

definition cache_ok :: "engine \<Rightarrow> catalog \<Rightarrow> score_cache \<Rightarrow> bool" where
  "cache_ok en cat cache \<longleftrightarrow>
     (\<forall>path table nw s. sc_entries cache (path, table, nw) = Some s \<longrightarrow> compile_and_resolve en cat path table nw = Inr s)"

lemma cache_ok_new [simp]: "cache_ok en cat score_cache_new"
  by (simp add: cache_ok_def score_cache_new_def)

lemma prepare_ok:
  assumes "prepare en cat path table nw cache = Inr cache'" and "cache_ok en cat cache"
  shows "cache_ok en cat cache' \<and> sc_profiles cache' = sc_profiles cache \<and> sc_extras cache' = sc_extras cache \<and>
         (\<exists>s. sc_entries cache' (path, table, nw) = Some s \<and> compile_and_resolve en cat path table nw = Inr s) \<and>
         (\<forall>key s. sc_entries cache key = Some s \<longrightarrow> sc_entries cache' key = Some s)"
proof (cases "sc_entries cache (path, table, nw)")
  case (Some s)
  then show ?thesis using assms by (auto simp: prepare_def cache_ok_def)
next
  case None
  then obtain s where "compile_and_resolve en cat path table nw = Inr s"
      "cache' = cache\<lparr>sc_entries := (sc_entries cache)((path, table, nw) \<mapsto> s)\<rparr>"
    using assms(1) by (auto simp: prepare_def bind_res_Inr_iff)
  then show ?thesis using None assms(2) by (auto simp: cache_ok_def)
qed

text \<open>
  However the cache was filled before, preparing a pool leaves it ranked against the script
  compiled with that pool's own sources under that pool's own profile.
\<close>

lemma prepare_pool_spec:
  assumes "cache_ok en cat cache" and "prepare_pool en cat p path cache = Inr cache'"
  shows "cache_ok en cat cache' \<and>
         (\<exists>pf s. en_profile en p = Inr pf \<and> compile_and_resolve en cat path (p_sources p) (pf_narrowing pf) = Inr s \<and>
                 sc_entries cache' (cache_key_of cache' path p) = Some s) \<and>
         (\<forall>key s. sc_entries cache key = Some s \<longrightarrow> sc_entries cache' key = Some s) \<and>
         (\<forall>name. name \<noteq> p_name p \<longrightarrow> pool_narrowing cache' name = pool_narrowing cache name)"
proof -
  from assms(2) obtain pf where pf: "en_profile en p = Inr pf"
    and prep: "prepare en cat path (p_sources p) (pf_narrowing pf)
        (cache\<lparr>sc_profiles := (sc_profiles cache)(p_name p \<mapsto> pf)\<rparr>) = Inr cache'"
    by (auto simp: prepare_pool_def bind_res_Inr_iff pool_narrowing_def Let_def)
  have "cache_ok en cat (cache\<lparr>sc_profiles := (sc_profiles cache)(p_name p \<mapsto> pf)\<rparr>)"
    using assms(1) by (simp add: cache_ok_def)
  note p = prepare_ok [OF prep this]
  show ?thesis using p pf by (auto simp: cache_key_of_def pool_narrowing_def)
qed

section \<open>What a ranking returns\<close>

lemma collect_picks_spec:
  "collect_picks en path i seen vs = Inr items \<Longrightarrow>
     length items = length vs \<and> distinct (map pi_id items) \<and> set (map pi_id items) \<inter> set seen = {} \<and>
     (\<forall>k < length vs. parse_picked_item en path (i + k) (vs ! k) = Inr (items ! k))"
proof (induction en path i seen vs arbitrary: items rule: collect_picks.induct)
  case (1 en path i seen)
  then show ?case by simp
next
  case (2 en path i seen v vs)
  from "2.prems" obtain item rest where item: "parse_picked_item en path i v = Inr item"
    and new: "pi_id item \<notin> set seen"
    and rest: "collect_picks en path (Suc i) (pi_id item # seen) vs = Inr rest" and items: "items = item # rest"
    by (auto simp: bind_res_Inr_iff split: if_splits)
  note ih = "2.IH" [OF new rest]
  have "parse_picked_item en path (i + k) ((v # vs) ! k) = Inr ((item # rest) ! k)" if "k < length (v # vs)" for k
    using that ih item by (cases k) auto
  then show ?case using ih new by (auto simp: items)
qed

lemma parse_picked_item_take:
  assumes "parse_picked_item en path i v = Inr item" and "pi_take item = Some n"
  shows "0 < n \<and> n \<le> max_take"
proof -
  have "parse_take_override path i entry tv = Inr n \<Longrightarrow> 0 < n \<and> n \<le> max_take" for entry tv
    by (auto simp: parse_take_override_def bind_res_Inr_iff split: if_splits)
  then show ?thesis using assms
    by (auto simp: parse_picked_item_def bind_res_Inr_iff split: if_splits option.splits)
qed

lemma merge_record_keeps:
  assumes "merge_record en path items er = Inr items'"
  shows "map pi_id items' = map pi_id items \<and> map pi_take items' = map pi_take items \<and> fst er \<in> set (map pi_id items)"
proof -
  obtain entry rcd where er: "er = (entry, rcd)" by (cases er)
  from assms obtain k where k: "position (\<lambda>p. pi_id p = entry) items = Some k"
    by (cases "position (\<lambda>p. pi_id p = entry) items") (simp_all add: merge_record_def er)
  then obtain m where "items' = items[k := (items ! k)\<lparr>pi_metadata := Some m\<rparr>]"
    using assms
    by (cases "case pi_metadata (items ! k) of Some m \<Rightarrow> m | None \<Rightarrow> JObject []")
      (auto simp: merge_record_def er bind_res_Inr_iff)
  moreover have "k < length items \<and> pi_id (items ! k) = entry" using position_SomeD [OF k] by simp
  ultimately show ?thesis by (auto simp: er map_update intro!: list_update_same_conv [THEN iffD2])
qed

lemma merge_audit_keeps:
  "merge_audit en path ers items = Inr items' \<Longrightarrow>
     map pi_id items' = map pi_id items \<and> map pi_take items' = map pi_take items \<and> fst ` set ers \<subseteq> set (map pi_id items)"
proof (induction en path ers items rule: merge_audit.induct)
  case (1 en path items)
  then show ?case by simp
next
  case (2 en path er ers items)
  then obtain mid where mid: "merge_record en path items er = Inr mid" and rest: "merge_audit en path ers mid = Inr items'"
    by (auto simp: bind_res_Inr_iff)
  show ?case using merge_record_keeps [OF mid] "2.IH" [OF rest] by auto
qed

lemma score_pick_InrE:
  assumes "score_pick en cache path inputs d p g = Inr out"
  obtains cs config picks workspace parsed audits where
    "sc_entries cache (cache_key_of cache path p) = Some cs"
    "pl_pick (cs_plugin cs) (plugin_context cache cs inputs d (p_name p) config g) = Inr (DynMap picks)"
    "record_field ''picks'' (DynMap picks) = Some (DynArray workspace)"
    "collect_picks en path 0 [] workspace = Inr parsed" "parsed \<noteq> []" "merge_audit en path audits parsed = Inr out"
  using assms
  by (auto simp: score_pick_def Let_def bind_res_Inr_iff parse_pick_envelope_def is_map_def into_array_def
      split: if_splits dyn.splits)

text \<open>
  What a ranking hands the walk: at least one item, no entry twice, in the order the
  script listed them and one per element of its array, every take override between one and
  the maximum.
\<close>

theorem ranking_is_a_list_of_entries:
  assumes "score_pick en cache path inputs d p g = Inr out"
  shows "out \<noteq> [] \<and> distinct (map pi_id out) \<and>
         (\<forall>x\<in>set out. \<forall>n. pi_take x = Some n \<longrightarrow> 0 < n \<and> n \<le> max_take) \<and>
         (\<exists>ctx cs picks. sc_entries cache (cache_key_of cache path p) = Some cs \<and>
            (\<exists>e. pl_pick (cs_plugin cs) ctx = Inr e \<and> record_field ''picks'' e = Some (DynArray picks)) \<and>
            length out = length picks \<and>
            (\<forall>k < length picks. \<exists>x. parse_picked_item en path k (picks ! k) = Inr x \<and> pi_id x = pi_id (out ! k)))"
proof -
  obtain cs config e picks parsed records where cs: "sc_entries cache (cache_key_of cache path p) = Some cs"
    and e: "pl_pick (cs_plugin cs) (plugin_context cache cs inputs d (p_name p) config g) = Inr (DynMap e)"
    and picks: "record_field ''picks'' (DynMap e) = Some (DynArray picks)"
    and parsed: "collect_picks en path 0 [] picks = Inr parsed" and ne: "parsed \<noteq> []"
    and merged: "merge_audit en path records parsed = Inr out"
    using assms by (rule score_pick_InrE)
  note c = collect_picks_spec [OF parsed]
  note m = merge_audit_keeps [OF merged]
  have len: "length out = length parsed" using m by (metis length_map)
  have "0 < n \<and> n \<le> max_take" if mem: "x \<in> set out" and tk: "pi_take x = Some n" for x n
  proof -
    obtain k where k: "k < length out" "out ! k = x" using mem by (auto simp: in_set_conv_nth)
    then have "pi_take (parsed ! k) = Some n" using m len tk by (metis nth_map)
    then show ?thesis using c k len parse_picked_item_take [of en path k "picks ! k" "parsed ! k" n] by simp
  qed
  moreover have "pi_id (parsed ! k) = pi_id (out ! k)" if "k < length picks" for k
    using that m c len by (metis nth_map)
  ultimately show ?thesis using c m ne len cs e picks by (intro conjI) (auto, blast)
qed

section \<open>A small script\<close>

text \<open>A script that returns fixed values, and an engine that compiles every path to it.\<close>

definition script_returning :: "dyn list \<Rightarrow> (string \<times> dyn) list \<Rightarrow> plugin" where
  "script_returning picks records =
     \<lparr>pl_functions = [''pick'', ''audit''], pl_sources = Inr [], pl_pick = (\<lambda>_. Inr (DynMap [(''picks'', DynArray picks)])),
      pl_audit = (\<lambda>_ _ _. Inr records)\<rparr>"

definition engine_of :: "plugin \<Rightarrow> engine" where
  "engine_of pl =
     \<lparr>en_compile = (\<lambda>_. Inr pl), en_items = (\<lambda>ids. Inr (map DynString ids)), en_config = (\<lambda>_. Inr (DynMap [])),
      en_carrier = (\<lambda>v. Inr (Some (case v of DynMap [(k, DynInt n)] \<Rightarrow> JObject [(k, JInt n)] | _ \<Rightarrow> JNull))),
      en_profile = (\<lambda>_. Inr profile_default), en_store = (\<lambda>_ _. Inr ()), en_pool_json = p_name, en_f64 = (\<lambda>_. ''0''),
      en_pattern_id = (\<lambda>_. ''id''), en_humantime = (\<lambda>_. []), en_seconds_f64 = (\<lambda>s. floor (s * 10 ^ 9)),
      en_rfc3339 = (\<lambda>_. []), en_base_dir = ''/station''\<rparr>"

definition plain_pool :: pool where
  "plain_pool =
     \<lparr>p_name = ''p'', p_expr = None, p_plugin = Some ''/a'', p_sources = None, p_groups = [], p_order = None,
      p_bucket_order = None, p_group_by = ByShow, p_select = RoundRobin, p_rotate = Visit, p_advance = ResumeAdvance,
      p_cursor_scope = ChannelScope, p_on_short = NextSeries, p_seed = None, p_temperature = None,
      p_constraints = None, p_arcs = None, p_config = None, p_capabilities = [], p_datastores = [], p_label = None,
      p_advisory = None, p_guide = None, p_tracks = None, p_carried = JNull\<rparr>"

definition plain_inputs :: score_inputs where
  "plain_inputs = \<lparr>si_target_count = 4, si_recent = [], si_now = 0, si_account = None\<rparr>"

definition prepared_cache :: "plugin \<Rightarrow> score_cache" where
  "prepared_cache pl =
     \<lparr>sc_entries = [(''/a'', None, narrowing_none) \<mapsto> \<lparr>cs_plugin = pl, cs_sets = []\<rparr>], sc_extras = Map.empty,
      sc_profiles = [''p'' \<mapsto> profile_default]\<rparr>"

lemma prepare_plain_pool:
  "prepare_pool (engine_of (script_returning picks records)) sample_catalog plain_pool ''/a'' score_cache_new =
     Inr (prepared_cache (script_returning picks records))"
  by (simp add: prepare_pool_def engine_of_def pool_narrowing_def score_cache_new_def Let_def prepare_def profile_default_def
      compile_and_resolve_def declared_sources_def script_returning_def plain_pool_def prepared_cache_def)

lemma plain_ranking:
  "score_pick (engine_of (script_returning picks records)) (prepared_cache (script_returning picks records)) ''/a''
       plain_inputs (fixed_dice 0) plain_pool g =
     bind_res (collect_picks (engine_of (script_returning picks records)) ''/a'' 0 [] picks) (\<lambda>out.
       if out = [] then Inl (picked_nothing ''/a'')
       else merge_audit (engine_of (script_returning picks records)) ''/a'' records out)"
  by (simp add: score_pick_def cache_key_of_def prepared_cache_def plain_pool_def pool_narrowing_def profile_default_def
      ok_or_def pool_config_dynamic_def script_returning_def parse_pick_envelope_def is_map_def record_field_def into_array_def
      Let_def cong: if_cong)

lemma collect_bare:
  "distinct ids \<Longrightarrow> set ids \<inter> set seen = {} \<Longrightarrow>
     collect_picks en path i seen (map DynString ids) = Inr (map (\<lambda>x. \<lparr>pi_id = x, pi_metadata = None, pi_take = None\<rparr>) ids)"
  by (induction ids arbitrary: i seen) (auto simp: parse_picked_item_def is_map_def into_string_def)

theorem ranking_is_a_list_of_entries_witness:
  "\<exists>out. score_pick (engine_of (script_returning [DynString ''b'', DynString ''a''] []))
            (prepared_cache (script_returning [DynString ''b'', DynString ''a''] [])) ''/a'' plain_inputs (fixed_dice 0)
            plain_pool (grants_from_names []) = Inr out \<and> length out = 2 \<and> distinct (map pi_id out)"
proof -
  obtain out where out: "score_pick (engine_of (script_returning [DynString ''b'', DynString ''a''] []))
      (prepared_cache (script_returning [DynString ''b'', DynString ''a''] [])) ''/a'' plain_inputs (fixed_dice 0)
      plain_pool (grants_from_names []) = Inr out" and two: "length out = 2"
    using collect_bare [of "[''b'', ''a'']" "[]"] by (auto simp: plain_ranking)
  from ranking_is_a_list_of_entries [OF out] out two show ?thesis by blast
qed

definition clashing_picks :: "dyn list" where
  "clashing_picks = [DynMap [(''entry_id'', DynString ''a''), (''metadata'', DynMap [(''audit'', DynInt 1)])]]"

definition clashing_records :: "(string \<times> dyn) list" where
  "clashing_records = [(''a'', DynMap [(''stage'', DynString ''pool''), (''by'', DynString ''b''), (''verdict'', DynString ''v'')])]"

text \<open>What a merged record leaves of an item whose metadata holds a clashing key: the item, and nothing about it.\<close>

lemma clash_survives:
  assumes "merge_audit en path ers items = Inr items'" and "k < length items" and "distinct (map pi_id items)"
    and "pi_metadata (items ! k) = Some (JObject kvs)" and "bt_get kvs ''audit'' = Some v" and "\<forall>rs. v \<noteq> JArray rs"
  shows "items' ! k = items ! k \<and> pi_id (items ! k) \<notin> fst ` set ers"
  using assms
proof (induction en path ers items rule: merge_audit.induct)
  case (1 en path items)
  then show ?case by simp
next
  case (2 en path er ers items)
  obtain mid where mid: "merge_record en path items er = Inr mid" and rest: "merge_audit en path ers mid = Inr items'"
    using "2.prems"(1) by (auto simp: bind_res_Inr_iff)
  obtain entry rcd where er: "er = (entry, rcd)" by (cases er)
  from mid obtain j where j: "position (\<lambda>p. pi_id p = entry) items = Some j"
    by (cases "position (\<lambda>p. pi_id p = entry) items") (simp_all add: merge_record_def er)
  note at_j = position_SomeD [OF j]
  have "j \<noteq> k"
  proof
    assume "j = k"
    then have "push_audit x kvs = Inl audit_panic" for x
      using "2.prems"(5,6) by (cases v) (simp_all add: push_audit_def)
    then show False using mid j \<open>j = k\<close> "2.prems"(4) by (auto simp: merge_record_def er bind_res_Inr_iff)
  qed
  then have other: "pi_id (items ! k) \<noteq> entry"
    using at_j "2.prems"(2,3) by (metis length_map nth_eq_iff_index_eq nth_map)
  obtain m where m: "mid = items[j := (items ! j)\<lparr>pi_metadata := Some m\<rparr>]"
    using mid j by (cases "case pi_metadata (items ! j) of Some m \<Rightarrow> m | None \<Rightarrow> JObject []")
      (auto simp: merge_record_def er bind_res_Inr_iff)
  have ids: "map pi_id mid = map pi_id items" using merge_record_keeps [OF mid] by simp
  have same: "mid ! k = items ! k" using m \<open>j \<noteq> k\<close> by simp
  have "k < length mid" "distinct (map pi_id mid)" using ids "2.prems"(2,3) by (simp_all add: m)
  from "2.IH" [OF rest this] same "2.prems"(4-6) have "items' ! k = mid ! k \<and> pi_id (mid ! k) \<notin> fst ` set ers" by simp
  then show ?case using same other by (simp add: er)
qed

lemma merge_audit_append:
  "merge_audit en path (xs @ ys) items = bind_res (merge_audit en path xs items) (merge_audit en path ys)"
proof (induction xs arbitrary: items)
  case (Cons x xs)
  then show ?case by (cases "merge_record en path items x") simp_all
qed simp

text \<open>
  A plugin's metadata is opaque to the station, yet one key of it is not free: when
  \<open>pick()\<close> returns an item whose \<open>metadata\<close> holds an \<open>audit\<close> that is no array, the item is accepted,
  and the ranking panics as soon as \<open>audit()\<close> explains that item with a well-formed record,
  whatever records before it were merged.
\<close>

theorem audit_key_in_metadata_panics:
  assumes "sc_entries cache (cache_key_of cache path p) = Some cs"
    and "pool_config_dynamic en (p_config p) ''scorer'' path (p_name p) = Inr config"
    and "pl_pick (cs_plugin cs) (plugin_context cache cs inputs d (p_name p) config g) = Inr envelope"
    and "parse_pick_envelope path envelope = Inr (picks, workspace)" and "collect_picks en path 0 [] picks = Inr out"
    and "''audit'' \<in> set (pl_functions (cs_plugin cs))"
    and "pl_audit (cs_plugin cs) (plugin_context cache cs inputs d (p_name p) config g) picks workspace = Inr (before @ (entry, record) # after)"
    and "merge_audit en path before out = Inr merged" and "read_audit_record en path entry record = Inr j"
    and "item \<in> set out" and "pi_id item = entry" and "pi_metadata item = Some (JObject kvs)"
    and "bt_get kvs ''audit'' = Some v" and "\<forall>rs. v \<noteq> JArray rs"
  shows "score_pick en cache path inputs d p g = Inl audit_panic"
proof -
  have distinct: "distinct (map pi_id out)" using collect_picks_spec [OF assms(5)] by simp
  obtain k where k: "k < length out" "out ! k = item" using assms(10) by (auto simp: in_set_conv_nth)
  have same: "merged ! k = item"
    using clash_survives [OF assms(8) k(1) distinct] k(2) assms(12-14) by simp
  have ids: "map pi_id merged = map pi_id out" using merge_audit_keeps [OF assms(8)] by simp
  then have len: "length merged = length out" by (metis length_map)
  have "position (\<lambda>x. pi_id x = entry) merged = Some k"
  proof (cases "position (\<lambda>x. pi_id x = entry) merged")
    case None
    then have "pi_id (merged ! k) \<noteq> entry" using k(1) len by (simp add: position_None_iff)
    then show ?thesis using same assms(11) by simp
  next
    case (Some i)
    from position_SomeD [OF Some] have "i < length merged" "pi_id (merged ! i) = pi_id (merged ! k)" using same assms(11) by simp_all
    then have "map pi_id merged ! i = map pi_id merged ! k" "i < length (map pi_id merged)" "k < length (map pi_id merged)"
      using k(1) len by simp_all
    then have "i = k" using distinct ids by (simp only: nth_eq_iff_index_eq)
    then show ?thesis using Some by simp
  qed
  moreover have "push_audit j kvs = Inl audit_panic" using assms(13,14) by (cases v) (simp_all add: push_audit_def)
  ultimately have "merge_record en path merged (entry, record) = Inl audit_panic"
    using same assms(9,12) by (simp add: merge_record_def)
  then have "merge_audit en path (before @ (entry, record) # after) out = Inl audit_panic"
    using assms(8) by (simp add: merge_audit_append)
  moreover have "out \<noteq> []" using assms(10) by auto
  ultimately show ?thesis using assms(1-7) by (simp add: score_pick_def Let_def ok_or_def)
qed

theorem audit_key_in_metadata_panics_witness:
  "score_pick (engine_of (script_returning clashing_picks clashing_records))
     (prepared_cache (script_returning clashing_picks clashing_records)) ''/a'' plain_inputs (fixed_dice 0) plain_pool (grants_from_names []) =
     Inl audit_panic"
proof -
  let ?pl = "script_returning clashing_picks clashing_records"
  let ?en = "engine_of ?pl"
  have meta: "en_carrier ?en (DynMap [(''audit'', DynInt 1)]) = Inr (Some (JObject [(''audit'', JInt 1)]))"
    by (simp add: engine_of_def)
  then have out: "collect_picks ?en ''/a'' 0 [] clashing_picks =
      Inr [\<lparr>pi_id = ''a'', pi_metadata = Some (JObject [(''audit'', JInt 1)]), pi_take = None\<rparr>]"
    by (simp add: clashing_picks_def parse_picked_item_def is_map_def record_field_def into_string_def ok_or_def)
  obtain j where j: "read_audit_record ?en ''/a'' ''a'' (snd (hd clashing_records)) = Inr j"
    by (simp add: clashing_records_def read_audit_record_def is_map_def record_string_def record_field_def
        ok_or_def into_string_def known_stages_def record_guide_def record_detail_def)
  have cs: "sc_entries (prepared_cache ?pl) (cache_key_of (prepared_cache ?pl) ''/a'' plain_pool) = Some \<lparr>cs_plugin = ?pl, cs_sets = []\<rparr>"
    by (simp add: cache_key_of_def prepared_cache_def plain_pool_def pool_narrowing_def profile_default_def)
  have config: "pool_config_dynamic ?en (p_config plain_pool) ''scorer'' ''/a'' (p_name plain_pool) = Inr (DynMap [])"
    by (simp add: pool_config_dynamic_def plain_pool_def)
  obtain ws where ws: "parse_pick_envelope ''/a'' (DynMap [(''picks'', DynArray clashing_picks)]) = Inr (clashing_picks, ws)"
    by (simp add: parse_pick_envelope_def is_map_def record_field_def into_array_def ok_or_def cong: if_cong)
  have records: "clashing_records = [] @ (''a'', snd (hd clashing_records)) # []" by (simp add: clashing_records_def)
  show ?thesis
    by (rule audit_key_in_metadata_panics [OF cs config _ ws out _ _ _ j, where before = "[]" and after = "[]"
          and merged = "[\<lparr>pi_id = ''a'', pi_metadata = Some (JObject [(''audit'', JInt 1)]), pi_take = None\<rparr>]"
          and item = "\<lparr>pi_id = ''a'', pi_metadata = Some (JObject [(''audit'', JInt 1)]), pi_take = None\<rparr>"
          and kvs = "[(''audit'', JInt 1)]" and v = "JInt 1"])
      (simp_all add: script_returning_def, simp add: clashing_records_def)
qed

end
