(* ===== verification/PoolSources.thy ===== *)
theory PoolSources
  imports PoolVisits Score
begin

text \<open>
  Where a pool's items come from (\<open>pattern.rs\<close>, from \<open>resolve_pool_sources\<close> on): its source
  query, show groups or plugin ranking with the lists frozen for a period, the adjacency pass
  over the list, the cut into series, the runtime the walk draws from, and a refill of a
  pool that has aired everything.
\<close>

section \<open>Show groups\<close>

record show_group =
  sg_name :: string
  sg_shows :: "string list"

definition named_group :: "string \<Rightarrow> show_group list \<Rightarrow> string \<Rightarrow> show_group result" where
  "named_group pool groups gname =
     ok_or (''pool '' @ debug_str pool @ '' references group '' @ debug_str gname @ '', which this channel does not declare'')
       (find (\<lambda>g. sg_name g = gname) groups)"

definition show_episodes :: "string \<Rightarrow> (string, string list) btree \<Rightarrow> string \<Rightarrow> string list result" where
  "show_episodes pool by_show title =
     (case bt_get by_show title of
        Some (i # is) \<Rightarrow> Inr (i # is)
      | _ \<Rightarrow> Inl (''pool '' @ debug_str pool @ '': show '' @ debug_str title @ '' is not in the catalog''))"

definition resolve_group_pool :: "catalog \<Rightarrow> pool \<Rightarrow> show_group list \<Rightarrow> string list result" where
  "resolve_group_pool cat cfg groups =
     bind_res (map_res (named_group (p_name cfg) groups) (p_groups cfg)) (\<lambda>gs.
     let titles = concat (map sg_shows gs) in
     bind_res (cat_episodes_for_shows cat titles) (\<lambda>by_show.
     bind_res (map_res (show_episodes (p_name cfg) by_show) titles) (\<lambda>idss. Inr (concat idss))))"

section \<open>Lists frozen for a period\<close>

type_synonym frozen_lists = "(string, frozen_list list) btree"

definition frozen_list_for :: "frozen_lists \<Rightarrow> string \<Rightarrow> string \<Rightarrow> frozen_list option" where
  "frozen_list_for frozen pool key = Option.bind (bt_get frozen pool) (find (\<lambda>l. fl_key l = key))"

definition frozen_extra_of :: "picked_item \<Rightarrow> frozen_extra" where
  "frozen_extra_of p = \<lparr>fe_metadata = pi_metadata p, fe_take = pi_take p\<rparr>"

definition freeze :: "string \<Rightarrow> picked_item list \<Rightarrow> frozen_list" where
  "freeze key picked =
     \<lparr>fl_key = key, fl_ids = map pi_id picked,
      fl_extras = fold (\<lambda>p. bt_insert (pi_id p) (frozen_extra_of p)) (filter has_extra picked) []\<rparr>"

definition store_frozen_list :: "string \<Rightarrow> string \<Rightarrow> picked_item list \<Rightarrow> frozen_lists \<Rightarrow> frozen_lists" where
  "store_frozen_list pool key picked frozen =
     (let kept = (case bt_get frozen pool of Some ls \<Rightarrow> ls | None \<Rightarrow> [])
      in bt_insert pool (filter (\<lambda>l. fl_key l \<noteq> key) kept @ [freeze key picked]) frozen)"

section \<open>Sources\<close>

definition source_path :: "engine \<Rightarrow> string \<Rightarrow> string" where
  "source_path en plugin = resolve_plugin_path (en_base_dir en) plugin"

definition dice_key :: "engine \<Rightarrow> dice \<Rightarrow> pool \<Rightarrow> string option" where
  "dice_key en d p = list_key (en_pool_json en) (en_f64 en) d p"

definition one_source_error :: "pool \<Rightarrow> string" where
  "one_source_error cfg = ''pool '' @ debug_str (p_name cfg) @ '' must set exactly one of `expr`, `plugin`, or `groups`''"

definition order_source :: "catalog \<Rightarrow> pool \<Rightarrow> dice \<Rightarrow> string list \<Rightarrow> string list result" where
  "order_source cat cfg d ids = (case p_order cfg of None \<Rightarrow> Inr ids | Some ord \<Rightarrow> resolve_order cat ids ord (dice_seed d))"

text \<open>Pass 1: a query's or a group's ids, or a hole left for a plugin whose script is prepared.\<close>

definition open_source ::
  "engine \<Rightarrow> catalog \<Rightarrow> show_group list \<Rightarrow> pool \<Rightarrow> dice \<Rightarrow> score_cache \<Rightarrow> (string list option \<times> score_cache) result" where
  "open_source en cat groups cfg d cache =
     (case (p_expr cfg, p_plugin cfg, p_groups cfg \<noteq> []) of
        (Some e, None, False) \<Rightarrow>
          bind_res (bind_res (cat_query cat e) (order_source cat cfg d)) (\<lambda>ids. Inr (Some ids, cache))
      | (None, Some plugin, False) \<Rightarrow>
          bind_res (map_err (pool_error (p_name cfg)) (prepare_pool en cat cfg (source_path en plugin) cache))
            (\<lambda>cache. Inr (None, cache))
      | (None, None, True) \<Rightarrow>
          bind_res (bind_res (resolve_group_pool cat cfg groups) (order_source cat cfg d)) (\<lambda>ids. Inr (Some ids, cache))
      | _ \<Rightarrow> Inl (one_source_error cfg))"

fun open_sources ::
  "engine \<Rightarrow> catalog \<Rightarrow> show_group list \<Rightarrow> (pool \<times> dice) list \<Rightarrow> score_cache \<Rightarrow>
     (string list option list \<times> score_cache) result" where
  "open_sources en cat groups [] cache = Inr ([], cache)"
| "open_sources en cat groups ((cfg, d) # pds) cache =
     bind_res (open_source en cat groups cfg d cache) (\<lambda>(slot, cache).
     bind_res (open_sources en cat groups pds cache) (\<lambda>(slots, cache). Inr (slot # slots, cache)))"

text \<open>
  Pass 2, one hole: the list frozen for the period when there is one, a fresh ranking frozen
  under the period's key otherwise. A pool with a hole and no plugin would panic; pass 1
  leaves a hole only for a plugin pool.
\<close>

definition rank_pool ::
  "engine \<Rightarrow> catalog \<Rightarrow> score_inputs \<Rightarrow> pool \<Rightarrow> dice \<Rightarrow> score_cache \<Rightarrow> picked_item list result" where
  "rank_pool en cat inputs cfg d cache =
     (case p_plugin cfg of
        None \<Rightarrow> Inl ''pass 1 leaves a hole only for a plugin pool''
      | Some plugin \<Rightarrow>
          bind_res (pool_grants en cat cfg) (\<lambda>g.
            map_err (pool_error (p_name cfg)) (score_pick en cache (source_path en plugin) inputs d cfg g)))"

definition fill_hole ::
  "engine \<Rightarrow> catalog \<Rightarrow> score_inputs \<Rightarrow> pool \<Rightarrow> dice \<Rightarrow> score_cache \<Rightarrow> frozen_lists \<Rightarrow>
     (string list \<times> score_cache \<times> frozen_lists) result" where
  "fill_hole en cat inputs cfg d cache frozen =
     (let key = dice_key en d cfg in
      case Option.bind key (frozen_list_for frozen (p_name cfg)) of
        Some l \<Rightarrow> Inr (fl_ids l, record_frozen (p_name cfg) l cache, frozen)
      | None \<Rightarrow>
          bind_res (rank_pool en cat inputs cfg d cache) (\<lambda>picked.
            Inr (map pi_id picked, record_picked (p_name cfg) picked cache,
                 case key of Some k \<Rightarrow> store_frozen_list (p_name cfg) k picked frozen | None \<Rightarrow> frozen)))"

fun fill_holes ::
  "engine \<Rightarrow> catalog \<Rightarrow> score_inputs \<Rightarrow> (pool \<times> dice) list \<Rightarrow> string list option list \<Rightarrow> score_cache \<Rightarrow> frozen_lists \<Rightarrow>
     (string list list \<times> score_cache \<times> frozen_lists) result" where
  "fill_holes en cat inputs ((cfg, d) # pds) (slot # slots) cache frozen =
     bind_res (case slot of
          Some ids \<Rightarrow> Inr (ids, cache, frozen)
        | None \<Rightarrow> fill_hole en cat inputs cfg d cache frozen)
       (\<lambda>(ids, cache, frozen).
     bind_res (fill_holes en cat inputs pds slots cache frozen) (\<lambda>(idss, cache, frozen). Inr (ids # idss, cache, frozen)))"
| "fill_holes en cat inputs _ _ cache frozen = Inr ([], cache, frozen)"

definition resolve_pool_sources ::
  "engine \<Rightarrow> catalog \<Rightarrow> show_group list \<Rightarrow> score_inputs \<Rightarrow> (pool \<times> dice) list \<Rightarrow> score_cache \<Rightarrow> frozen_lists \<Rightarrow>
     (string list list \<times> score_cache \<times> frozen_lists) result" where
  "resolve_pool_sources en cat groups inputs pds cache frozen =
     bind_res (open_sources en cat groups pds cache) (\<lambda>(slots, cache). fill_holes en cat inputs pds slots cache frozen)"

text \<open>The candidates of every pool for the generation fingerprint: pass 1 with a plugin's own queries.\<close>

definition fingerprint_source :: "engine \<Rightarrow> catalog \<Rightarrow> show_group list \<Rightarrow> pool \<Rightarrow> string list result" where
  "fingerprint_source en cat groups cfg =
     (case (p_expr cfg, p_plugin cfg, p_groups cfg \<noteq> []) of
        (Some e, None, False) \<Rightarrow> cat_query cat e
      | (None, Some plugin, False) \<Rightarrow>
          map_err (pool_error (p_name cfg)) (resolve_source_ids en cat (source_path en plugin) (p_sources cfg))
      | (None, None, True) \<Rightarrow> resolve_group_pool cat cfg groups
      | _ \<Rightarrow> Inl (one_source_error cfg))"

definition fingerprint_pool_sources :: "engine \<Rightarrow> catalog \<Rightarrow> show_group list \<Rightarrow> pool list \<Rightarrow> string list list result" where
  "fingerprint_pool_sources en cat groups pools = map_res (fingerprint_source en cat groups) pools"

section \<open>The list pass\<close>

definition constrain_pool :: "limits \<Rightarrow> pool_keys \<Rightarrow> string list \<Rightarrow> string list \<Rightarrow> string list" where
  "constrain_pool l keys seam ids =
     (if limits_is_unconstrained l \<or> ids = [] then ids
      else map ((!) ids)
        (ord_order (order_constrained (keys_many keys ids) (replicate (length ids) l) (keys_many keys seam))))"

definition tag_keys :: "catalog \<Rightarrow> string list \<Rightarrow> string option \<Rightarrow> string \<Rightarrow> pool_keys result" where
  "tag_keys cat ids field pool =
     (case field of
        None \<Rightarrow> Inr pool_keys_default
      | Some f \<Rightarrow>
          bind_res (map_err (pool_error pool) (for_separate_by f)) (\<lambda>ns.
          bind_res (map_res (\<lambda>i. bind_res
              (map_err (\<lambda>e. pool_error pool (''reading '' @ debug_str f @ '' for '' @ i @ '': '' @ e)) (cat_tags cat i ns))
              (\<lambda>values. Inr (i, values))) ids) (\<lambda>tagged.
          Inr (pool_keys_default\<lparr>pk_groups := fold (\<lambda>(i, values). bt_insert i values) tagged []\<rparr>))))"

section \<open>Cutting a list into series\<close>

text \<open>What the three catalog queries say of each id.\<close>

record placement =
  pl_show_ids :: "(string, string) btree"
  pl_seasons :: "(string, int) btree"
  pl_arcs :: "(string, string \<times> int) btree"

definition show_key_of :: "placement \<Rightarrow> string \<Rightarrow> string" where
  "show_key_of pl i = (case bt_get (pl_show_ids pl) i of Some sh \<Rightarrow> sh | None \<Rightarrow> i)"

definition arc_of :: "arcs option \<Rightarrow> placement \<Rightarrow> string \<Rightarrow> arc_bucket option" where
  "arc_of arcs pl i =
     (case (arcs, bt_get (pl_arcs pl) i) of
        (Some a, Some (title, absolute)) \<Rightarrow> bucket_of a title absolute
      | _ \<Rightarrow> None)"

definition series_key_of :: "arcs option \<Rightarrow> placement \<Rightarrow> string \<Rightarrow> string" where
  "series_key_of arcs pl i =
     (let show_key = show_key_of pl i in
      case (arc_of arcs pl i, bt_get (pl_seasons pl) i) of
        (Some (Named arc), _) \<Rightarrow> show_key @ ''|A:'' @ arc
      | (Some Trailing, _) \<Rightarrow> show_key @ ''|A+''
      | (None, Some season) \<Rightarrow> show_key @ ''|S'' @ dec_int season
      | (None, None) \<Rightarrow> show_key)"

definition open_series :: "string \<Rightarrow> string \<Rightarrow> string \<Rightarrow> series" where
  "open_series key show_key i =
     \<lparr>s_key = key, s_show_key = show_key, s_ids = [i], s_cursor = 0, s_finished = False\<rparr>"

text \<open>\<open>index\<close> holds where each key's series is; keys are not repeated, so a search finds the same place.\<close>

definition add_to_series :: "arcs option \<Rightarrow> placement \<Rightarrow> string \<Rightarrow> series list \<Rightarrow> series list" where
  "add_to_series arcs pl i ss =
     (let key = series_key_of arcs pl i in
      case position (\<lambda>s. s_key s = key) ss of
        Some k \<Rightarrow> ss[k := (ss ! k)\<lparr>s_ids := s_ids (ss ! k) @ [i]\<rparr>]
      | None \<Rightarrow> ss @ [open_series key (show_key_of pl i) i])"

definition group_series :: "arcs option \<Rightarrow> placement \<Rightarrow> string list \<Rightarrow> series list" where
  "group_series arcs pl ids = fold (add_to_series arcs pl) ids []"

text \<open>\<open>owner\<close>: the series an id landed in.\<close>

definition owner_of :: "series list \<Rightarrow> string \<Rightarrow> nat option" where
  "owner_of ss i = position (\<lambda>s. i \<in> set (s_ids s)) ss"

fun first_seen :: "nat list \<Rightarrow> nat list \<Rightarrow> nat list" where
  "first_seen seen [] = []"
| "first_seen seen (i # is) = (if i \<in> set seen then first_seen seen is else i # first_seen (i # seen) is)"

definition resequence :: "string list \<Rightarrow> series list \<Rightarrow> series list" where
  "resequence ordered ss =
     (let seq = first_seen [] (List.map_filter (owner_of ss) ordered)
      in map ((!) ss) (seq @ filter (\<lambda>i. i \<notin> set seq) [0..<length ss]))"

definition place_ids :: "catalog \<Rightarrow> pool \<Rightarrow> string list \<Rightarrow> placement result" where
  "place_ids cat cfg ids =
     bind_res (cat_show_ids cat ids) (\<lambda>shows.
     bind_res (case p_group_by cfg of ByShow \<Rightarrow> Inr [] | BySeason \<Rightarrow> cat_seasons cat ids) (\<lambda>seasons.
     bind_res (case (p_arcs cfg, p_group_by cfg) of
         (Some _, BySeason) \<Rightarrow> cat_arc_positions cat ids
       | _ \<Rightarrow> Inr []) (\<lambda>positions.
     Inr \<lparr>pl_show_ids = shows, pl_seasons = seasons, pl_arcs = positions\<rparr>)))"

record pool_series =
  psr_series :: "series list"
  psr_limits :: limits
  psr_keys :: pool_keys
  psr_runtimes :: "(string, duration) btree"
  psr_mean :: duration

definition needs_runtimes :: "limits \<Rightarrow> bool" where
  "needs_runtimes l = (case lim_no_repeat l of GapDuration _ \<Rightarrow> True | GapPositions _ \<Rightarrow> False)"

definition bucket_ordered :: "catalog \<Rightarrow> pool \<Rightarrow> u64 \<Rightarrow> series list \<Rightarrow> series list result" where
  "bucket_ordered cat cfg seed ss =
     (case p_bucket_order cfg of
        None \<Rightarrow> Inr ss
      | Some ord \<Rightarrow>
          bind_res (map_err (\<lambda>e. pool_error (p_name cfg) (''bucket_order: '' @ e))
                      (resolve_order cat (concat (map s_ids ss)) ord seed))
            (\<lambda>ordered. Inr (resequence ordered ss)))"

definition resolve_pool_series ::
  "catalog \<Rightarrow> pool \<Rightarrow> string list \<Rightarrow> constraints option \<Rightarrow> string list \<Rightarrow> bool \<Rightarrow> u64 \<Rightarrow> pool_series result" where
  "resolve_pool_series cat cfg ids block seam want_runtimes seed =
     (let c = pool_constraints cfg block; l = limits_of c in
      bind_res (if want_runtimes \<or> needs_runtimes l then pool_runtimes cat ids else Inr ([], 0)) (\<lambda>(durations, mean).
      bind_res (tag_keys cat ids (c_separate_by c) (p_name cfg)) (\<lambda>tagged.
      let keys = tagged\<lparr>pk_durations := durations, pk_mean_duration := mean\<rparr>;
          ids = constrain_pool l keys seam ids
      in bind_res (place_ids cat cfg ids) (\<lambda>pl.
         bind_res (bucket_ordered cat cfg seed (group_series (p_arcs cfg) pl ids)) (\<lambda>ss.
         Inr \<lparr>psr_series = ss, psr_limits = l, psr_keys = keys, psr_runtimes = durations, psr_mean = mean\<rparr>)))))"

section \<open>Opening a runtime\<close>

definition own_tail :: "string list \<Rightarrow> generation_state \<Rightarrow> string list" where
  "own_tail ids state = filter (\<lambda>i. i \<in> set ids) (gs_tail state)"

definition own_overrides :: "score_cache \<Rightarrow> string \<Rightarrow> string list \<Rightarrow> (string, nat) btree" where
  "own_overrides cache pool ids =
     fold (\<lambda>i m. case Option.bind (sc_extras cache (pool, i)) pe_take of Some t \<Rightarrow> bt_insert i t m | None \<Rightarrow> m) ids []"

definition entry_title :: "cat_entry \<Rightarrow> string" where
  "entry_title e = (case ce_show e of Some t \<Rightarrow> t | None \<Rightarrow> ce_title e)"

definition titles_of :: "catalog \<Rightarrow> pool \<Rightarrow> series list \<Rightarrow> (string, string) btree result" where
  "titles_of cat cfg ss =
     (case rotate_span (p_rotate cfg) of
        None \<Rightarrow> Inr []
      | Some _ \<Rightarrow>
          bind_res (cat_entries cat (List.map_filter (\<lambda>s. case s_ids s of i # _ \<Rightarrow> Some i | [] \<Rightarrow> None) ss)) (\<lambda>entries.
            Inr (fold (\<lambda>s m. case s_ids s of
                   i # _ \<Rightarrow> (case bt_get entries i of Some e \<Rightarrow> bt_insert (s_key s) (entry_title e) m | None \<Rightarrow> m)
                 | [] \<Rightarrow> m) ss [])))"

definition fresh_runtime ::
  "engine \<Rightarrow> pool \<Rightarrow> pool_series \<Rightarrow> (string, nat) btree \<Rightarrow> dice \<Rightarrow> hold option \<Rightarrow> (string, string) btree \<Rightarrow> pool_runtime" where
  "fresh_runtime en cfg ps overrides d hold titles =
     \<lparr>rt_cfg = cfg, rt_series = psr_series ps, rt_rotation = 0, rt_limits = psr_limits ps, rt_keys = psr_keys ps,
      rt_recent = [], rt_forced = 0, rt_runtimes = psr_runtimes ps, rt_mean_runtime = psr_mean ps,
      rt_take_overrides = overrides, rt_drawn = [], rt_exhausted = False, rt_refills = 0,
      rt_list_key = dice_key en d cfg, rt_lap = [], rt_visit_resumable = False,
      rt_hold = (if rotate_span (p_rotate cfg) \<noteq> None then hold else None), rt_series_titles = titles, rt_period = None\<rparr>"

text \<open>Where the ledger says a series stands: after the last item it aired, when that is still in it.\<close>

definition seat_series :: "(string, string) btree \<Rightarrow> series \<Rightarrow> series" where
  "seat_series cursor s =
     (case bt_get cursor (s_show_key s) of
        None \<Rightarrow> s
      | Some aired \<Rightarrow>
          (case position (\<lambda>i. i = aired) (s_ids s) of None \<Rightarrow> s | Some pos \<Rightarrow> advance_to (pos + 1) s))"

definition ledger_cursor :: "pool \<Rightarrow> generation_state \<Rightarrow> (string, string) btree" where
  "ledger_cursor cfg state = (case p_cursor_scope cfg of ChannelScope \<Rightarrow> gs_cursor state | GlobalScope \<Rightarrow> gs_global_cursor state)"

definition continue_from :: "pool_resume \<Rightarrow> pool_runtime \<Rightarrow> pool_runtime" where
  "continue_from p rt =
     (let rt = rt\<lparr>rt_lap := bset_of (pr_lap p)\<rparr>;
          rt = (if rt_list_key rt \<noteq> None \<and> pr_list p = rt_list_key rt
                then rt\<lparr>rt_drawn := remdups (filter (\<lambda>i. i \<in> set (pool_ids rt)) (pr_drawn p))\<rparr> else rt)
      in case Option.bind (pr_next p) (\<lambda>key. position (\<lambda>s. s_key s = key) (rt_series rt)) of
           Some pos \<Rightarrow> rt\<lparr>rt_rotation := pos\<rparr>
         | None \<Rightarrow> rt)"

definition seat_rotation :: "pool_resume option \<Rightarrow> pool_runtime \<Rightarrow> pool_runtime" where
  "seat_rotation prev rt =
     (case prev of
        None \<Rightarrow> rt
      | Some p \<Rightarrow>
          if pr_list p \<noteq> None \<and> pr_list p \<noteq> rt_list_key rt \<and> rt_list_key rt \<noteq> None then open_after_rollover p rt
          else continue_from p rt)"

definition resume_runtime :: "generation_state \<Rightarrow> pool_resume option \<Rightarrow> pool_runtime \<Rightarrow> pool_runtime" where
  "resume_runtime state prev rt =
     (if p_advance (rt_cfg rt) = ResumeAdvance
      then seat_rotation prev (rt\<lparr>rt_series := map (seat_series (ledger_cursor (rt_cfg rt) state)) (rt_series rt)\<rparr>)
      else rt)"

definition films_only_span_error :: "engine \<Rightarrow> pool \<Rightarrow> string" where
  "films_only_span_error en cfg =
     ''pool '' @ debug_str (p_name cfg) @ '' sets rotate: '' @
     span_label (en_humantime en) (case rotate_span (p_rotate cfg) of Some d \<Rightarrow> d | None \<Rightarrow> 0) @
     '', but every series it resolves is a single film '' @ em_dash @
     '' a span holds nothing on a films-only pool. Use rotate: visit or slot''"

definition open_runtime ::
  "engine \<Rightarrow> catalog \<Rightarrow> pool \<Rightarrow> string list \<Rightarrow> constraints option \<Rightarrow> generation_state \<Rightarrow> pool_resume option \<Rightarrow> dice \<Rightarrow>
     bool \<Rightarrow> score_cache \<Rightarrow> pool_runtime result" where
  "open_runtime en cat cfg ids block state prev d want_runtimes cache =
     (let seam = own_tail ids state in
      bind_res (resolve_pool_series cat cfg ids block seam want_runtimes (dice_seed d)) (\<lambda>ps.
      bind_res (titles_of cat cfg (psr_series ps)) (\<lambda>titles.
      let rt = fresh_runtime en cfg ps (own_overrides cache (p_name cfg) ids) d (Option.bind prev pr_hold) titles
      in if rotate_span (p_rotate cfg) \<noteq> None \<and> is_films_only rt then Inl (films_only_span_error en cfg)
         else Inr (resume_runtime state prev (rt_remember seam rt)))))"

definition resolve_fill_pool_ids ::
  "engine \<Rightarrow> catalog \<Rightarrow> pool \<Rightarrow> show_group list \<Rightarrow> constraints option \<Rightarrow> generation_state \<Rightarrow> variety \<Rightarrow> instant \<Rightarrow>
     score_inputs \<Rightarrow> score_cache \<Rightarrow> (string list \<times> score_cache) result" where
  "resolve_fill_pool_ids en cat cfg groups block state v window_start inputs cache =
     (let d = dice_at v window_start (Some cfg) in
      bind_res (resolve_pool_sources en cat groups inputs [(cfg, d)] cache (rm_lists (gs_resume state)))
        (\<lambda>(idss, cache, _).
      bind_res (open_runtime en cat cfg (if idss = [] then [] else last idss) block state
                  (resume_pool (gs_resume state) (p_name cfg)) d False cache) (\<lambda>rt.
      Inr (concat (map (\<lambda>s. drop (s_cursor s) (s_ids s) @ take (s_cursor s) (s_ids s)) (rt_series rt)), cache))))"

section \<open>Refilling a drained pool\<close>

definition max_refills :: nat where "max_refills = 8"
definition refill_step :: nat where "refill_step = 32"

definition picked_extras_for :: "picked_item list \<Rightarrow> string list \<Rightarrow> (string \<times> frozen_extra) list" where
  "picked_extras_for picked ids =
     map (\<lambda>p. (pi_id p, frozen_extra_of p)) (filter has_extra (filter (\<lambda>p. pi_id p \<in> set ids) picked))"

definition grow_list :: "picked_item list \<Rightarrow> string list \<Rightarrow> frozen_list \<Rightarrow> frozen_list" where
  "grow_list picked fresh l =
     l\<lparr>fl_extras := fold (\<lambda>(i, x). bt_insert i x) (picked_extras_for picked fresh) (fl_extras l),
       fl_ids := fl_ids l @ fresh\<rparr>"

definition grow_frozen :: "string \<Rightarrow> string option \<Rightarrow> picked_item list \<Rightarrow> string list \<Rightarrow> frozen_lists \<Rightarrow> frozen_lists" where
  "grow_frozen pool key picked fresh frozen =
     (case (key, bt_get frozen pool) of
        (Some k, Some ls) \<Rightarrow>
          (case position (\<lambda>l. fl_key l = k) ls of
             Some i \<Rightarrow> bt_insert pool (ls[i := grow_list picked fresh (ls ! i)]) frozen
           | None \<Rightarrow> frozen)
      | _ \<Rightarrow> frozen)"

text \<open>
  \<open>ctx.recent\<close> is extended by what the pool has drawn. The code iterates a hash set there, in
  an order the standard library leaves open; the model uses the order of \<open>rt_drawn\<close>.
\<close>

definition refill_inputs :: "pool_runtime \<Rightarrow> score_inputs \<Rightarrow> score_inputs" where
  "refill_inputs rt inputs =
     inputs\<lparr>si_recent := si_recent inputs @ rt_drawn rt, si_target_count := total_ids rt + refill_step\<rparr>"

definition refill_pool ::
  "engine \<Rightarrow> catalog \<Rightarrow> score_inputs \<Rightarrow> constraints option \<Rightarrow> generation_state \<Rightarrow> dice \<Rightarrow> bool \<Rightarrow> pool \<Rightarrow>
     pool_runtime \<Rightarrow> score_cache \<Rightarrow> frozen_lists \<Rightarrow> (nat \<times> pool_runtime \<times> score_cache \<times> frozen_lists) result" where
  "refill_pool en cat inputs block state d want_runtimes cfg rt cache frozen =
     (if p_plugin cfg = None \<or> rt_refills rt \<ge> max_refills then Inr (0, rt, cache, frozen)
      else
        let rt = rt\<lparr>rt_refills := rt_refills rt + 1\<rparr> in
        bind_res (rank_pool en cat (refill_inputs rt inputs) cfg d cache) (\<lambda>picked.
        let cache = record_picked (p_name cfg) picked cache;
            fresh = filter (\<lambda>i. i \<notin> set (pool_ids rt)) (map pi_id picked)
        in if fresh = [] then Inr (0, rt, cache, frozen)
           else
             let frozen = grow_frozen (p_name cfg) (rt_list_key rt) picked fresh frozen in
             bind_res (resolve_pool_series cat cfg fresh block (own_tail fresh state) want_runtimes (dice_seed d)) (\<lambda>ps.
             let (added, rt) = extend_with (psr_series ps) (psr_keys ps) (psr_runtimes ps) rt
             in Inr (added, rt, cache, frozen))))"

section \<open>Every pool keeps its own script\<close>

definition plugin_only :: "pool \<Rightarrow> bool" where
  "plugin_only cfg \<longleftrightarrow> p_expr cfg = None \<and> p_plugin cfg \<noteq> None \<and> p_groups cfg = []"

text \<open>The entry \<open>pick\<close> will find for a pool: compiled with its own sources under its own profile.\<close>

definition ranked_alone :: "engine \<Rightarrow> catalog \<Rightarrow> score_cache \<Rightarrow> pool \<Rightarrow> bool" where
  "ranked_alone en cat cache cfg \<longleftrightarrow>
     (\<exists>plugin pf s. p_plugin cfg = Some plugin \<and> en_profile en cfg = Inr pf \<and>
        compile_and_resolve en cat (source_path en plugin) (p_sources cfg) (pf_narrowing pf) = Inr s \<and>
        sc_entries cache (cache_key_of cache (source_path en plugin) cfg) = Some s)"

lemma open_source_spec:
  assumes "open_source en cat groups cfg d cache = Inr (slot, cache')" and "cache_ok en cat cache"
  shows "cache_ok en cat cache' \<and> (slot = None \<longleftrightarrow> plugin_only cfg) \<and> (plugin_only cfg \<longrightarrow> ranked_alone en cat cache' cfg) \<and>
         (\<forall>key s. sc_entries cache key = Some s \<longrightarrow> sc_entries cache' key = Some s) \<and>
         (\<forall>name. name \<noteq> p_name cfg \<longrightarrow> pool_narrowing cache' name = pool_narrowing cache name)"
proof (cases "plugin_only cfg")
  case False
  then have "slot \<noteq> None \<and> cache' = cache" using assms(1)
    by (auto simp: open_source_def plugin_only_def bind_res_Inr_iff split: option.splits bool.splits)
  then show ?thesis using False assms(2) by auto
next
  case True
  then obtain plugin where "p_expr cfg = None" "p_plugin cfg = Some plugin" "p_groups cfg = []"
    by (auto simp: plugin_only_def)
  then have slot: "slot = None" and prep: "prepare_pool en cat cfg (source_path en plugin) cache = Inr cache'"
    using assms(1) by (auto simp: open_source_def bind_res_Inr_iff)
  show ?thesis using prepare_pool_spec [OF assms(2) prep] \<open>p_plugin cfg = Some plugin\<close> True slot
    by (auto simp: ranked_alone_def)
qed

lemma ranked_alone_kept:
  assumes "ranked_alone en cat cache cfg"
    and "\<forall>key s. sc_entries cache key = Some s \<longrightarrow> sc_entries cache' key = Some s"
    and "pool_narrowing cache' (p_name cfg) = pool_narrowing cache (p_name cfg)"
  shows "ranked_alone en cat cache' cfg"
  using assms unfolding ranked_alone_def cache_key_of_def by metis

lemma open_sources_spec:
  "open_sources en cat groups pds cache = Inr (slots, cache') \<Longrightarrow> cache_ok en cat cache \<Longrightarrow> distinct (map (p_name \<circ> fst) pds) \<Longrightarrow>
     cache_ok en cat cache' \<and> length slots = length pds \<and>
     (\<forall>cfg\<in>fst ` set pds. plugin_only cfg \<longrightarrow> ranked_alone en cat cache' cfg) \<and>
     (\<forall>key s. sc_entries cache key = Some s \<longrightarrow> sc_entries cache' key = Some s) \<and>
     (\<forall>name. name \<notin> p_name ` fst ` set pds \<longrightarrow> pool_narrowing cache' name = pool_narrowing cache name) \<and>
     (\<forall>k < length pds. slots ! k = None \<longleftrightarrow> plugin_only (fst (pds ! k)))"
proof (induction en cat groups pds cache arbitrary: slots cache' rule: open_sources.induct)
  case (1 en cat groups cache)
  then show ?case by simp
next
  case (2 en cat groups cfg d pds cache)
  from "2.prems"(1) obtain slot mid rest where first: "open_source en cat groups cfg d cache = Inr (slot, mid)"
    and tail: "open_sources en cat groups pds mid = Inr (rest, cache')" and slots: "slots = slot # rest"
    by (auto simp: bind_res_Inr_iff split: prod.splits)
  note f = open_source_spec [OF first "2.prems"(2)]
  have names: "distinct (map (p_name \<circ> fst) pds)" "p_name cfg \<notin> p_name ` fst ` set pds"
    using "2.prems"(3) by (auto simp: image_image comp_def)
  note t = "2.IH" [OF tail _ names(1)]
  have ok: "cache_ok en cat mid" using f by simp
  have "plugin_only cfg \<longrightarrow> ranked_alone en cat cache' cfg"
    using f t [OF ok] names(2) ranked_alone_kept [of en cat mid cfg cache'] by blast
  moreover have "slots ! k = None \<longleftrightarrow> plugin_only (fst (((cfg, d) # pds) ! k))" if "k < length ((cfg, d) # pds)" for k
    using that f t [OF ok] by (cases k) (auto simp: slots)
  ultimately show ?case using f t [OF ok] by (auto simp: slots)
qed

text \<open>
  However many plugin pools one block prepares before any of them is ranked, and
  whatever the cache held, each is then ranked against the script compiled with its own
  \<open>sources\<close> under its own profile: no pool sees another's candidates, and no ranking finds
  its script missing.
\<close>

theorem pools_keep_their_own_script:
  assumes "open_sources en cat groups pds cache = Inr (slots, cache')" and "cache_ok en cat cache"
    and "distinct (map (p_name \<circ> fst) pds)" and "k < length pds"
  shows "(slots ! k = None \<longleftrightarrow> plugin_only (fst (pds ! k))) \<and>
         (slots ! k = None \<longrightarrow> ranked_alone en cat cache' (fst (pds ! k)))"
  using open_sources_spec [OF assms(1-3)] assms(4) by auto

theorem pools_keep_their_own_script_witness:
  "\<exists>cache'. open_sources (engine_of (script_returning [] [])) sample_catalog [] [(plain_pool, fixed_dice 0)] score_cache_new =
       Inr ([None], cache') \<and>
     ranked_alone (engine_of (script_returning [] [])) sample_catalog cache' plain_pool"
proof -
  let ?en = "engine_of (script_returning [] [])"
  obtain cache' where prep: "prepare_pool ?en sample_catalog plain_pool (source_path ?en ''/a'') score_cache_new = Inr cache'"
    by (simp add: prepare_pool_def engine_of_def pool_narrowing_def score_cache_new_def Let_def prepare_def profile_default_def
      compile_and_resolve_def declared_sources_def script_returning_def plain_pool_def)
  have "p_expr plain_pool = None" "p_plugin plain_pool = Some ''/a''" "p_groups plain_pool = []"
    by (simp_all add: plain_pool_def)
  then have opened: "open_sources ?en sample_catalog [] [(plain_pool, fixed_dice 0)] score_cache_new = Inr ([None], cache')"
    using prep by (simp add: open_source_def)
  show ?thesis using pools_keep_their_own_script [OF opened, of 0] opened by simp
qed

section \<open>The list pass and the cut into series\<close>

lemma mset_constrain_pool: "mset (constrain_pool l keys seam ids) = mset ids"
proof (cases "limits_is_unconstrained l \<or> ids = []")
  case True
  then show ?thesis by (auto simp: constrain_pool_def)
next
  case False
  have "mset (constrain_pool l keys seam ids) = image_mset ((!) ids)
      (mset (ord_order (order_constrained (keys_many keys ids) (replicate (length ids) l) (keys_many keys seam))))"
    using False by (auto simp: constrain_pool_def)
  also have "\<dots> = image_mset ((!) ids) (mset [0..<length ids])"
    by (simp add: mset_order_constrained keys_many_def)
  also have "\<dots> = mset ids" by (metis map_nth mset_map)
  finally show ?thesis .
qed

text \<open>Every series holds, in order, exactly the ids of its key.\<close>

definition cut_by :: "(string \<Rightarrow> string) \<Rightarrow> string list \<Rightarrow> series list \<Rightarrow> bool" where
  "cut_by key ids ss \<longleftrightarrow>
     distinct (map s_key ss) \<and> set (map s_key ss) = key ` set ids \<and>
     (\<forall>s\<in>set ss. s_ids s = filter (\<lambda>i. key i = s_key s) ids \<and> s_cursor s = 0 \<and> \<not> s_finished s)"

lemma cut_by_Nil [simp]: "cut_by key [] []"
  by (simp add: cut_by_def)

lemma add_to_series_cut:
  assumes "cut_by (series_key_of arcs pl) ids ss"
  shows "cut_by (series_key_of arcs pl) (ids @ [i]) (add_to_series arcs pl i ss)"
proof -
  let ?key = "series_key_of arcs pl"
  show ?thesis
  proof (cases "position (\<lambda>s. s_key s = ?key i) ss")
    case None
    then have new: "\<forall>s\<in>set ss. s_key s \<noteq> ?key i" by (simp add: position_None_iff)
    then have fresh: "?key i \<notin> ?key ` set ids" using assms by (force simp: cut_by_def)
    then have "filter (\<lambda>j. ?key j = ?key i) ids = []" by (metis (mono_tags, lifting) filter_False imageI)
    moreover have "\<forall>j\<in>set ids. ?key j \<noteq> ?key i" using fresh by (metis imageI)
    ultimately show ?thesis using assms None new
      by (auto simp: cut_by_def add_to_series_def Let_def open_series_def)
  next
    case (Some k)
    note k = position_SomeD [OF Some]
    let ?s = "(ss ! k)\<lparr>s_ids := s_ids (ss ! k) @ [i]\<rparr>"
    have keys: "map s_key (ss[k := ?s]) = map s_key ss" using k by (simp add: map_update list_update_same_conv)
    have in_keys: "?key i \<in> ?key ` set ids" using k assms by (metis cut_by_def image_eqI list.set_map nth_mem)
    have others: "s_key s \<noteq> ?key i" if mem: "s \<in> set (ss[k := ?s])" and ne: "s \<noteq> ?s" for s
    proof -
      obtain j where j: "j < length ss" "j \<noteq> k" "s = ss ! j" using mem ne k by (auto simp: in_set_conv_nth nth_list_update split: if_splits)
      then show ?thesis using k assms by (metis cut_by_def length_map nth_eq_iff_index_eq nth_map)
    qed
    have each: "s_ids s = filter (\<lambda>j. ?key j = s_key s) (ids @ [i]) \<and> s_cursor s = 0 \<and> \<not> s_finished s"
      if mem: "s \<in> set (ss[k := ?s])" for s
    proof (cases "s = ?s")
      case True
      then show ?thesis using assms k by (simp add: cut_by_def)
    next
      case False
      then have "s \<in> set ss" using mem set_update_subset_insert by fastforce
      then show ?thesis using others [OF mem False] assms by (auto simp: cut_by_def)
    qed
    show ?thesis unfolding cut_by_def
    proof (intro conjI ballI)
      show "distinct (map s_key (add_to_series arcs pl i ss))"
        using assms Some keys by (simp add: cut_by_def add_to_series_def Let_def)
      show "set (map s_key (add_to_series arcs pl i ss)) = ?key ` set (ids @ [i])"
        using assms Some keys in_keys by (simp add: cut_by_def add_to_series_def Let_def insert_absorb del: set_map)
    qed (use each Some in \<open>auto simp: add_to_series_def Let_def\<close>)
  qed
qed

lemma group_series_cut: "cut_by (series_key_of arcs pl) ids (group_series arcs pl ids)"
  unfolding group_series_def
  by (induction ids rule: rev_induct) (simp_all add: add_to_series_cut)

lemma mset_cut:
  assumes "cut_by key ids ss"
  shows "mset (concat (map s_ids ss)) = mset ids"
proof (rule multiset_eqI)
  fix x
  have "count (mset (concat (map s_ids ss))) x = sum_list (map (\<lambda>s. count (mset (s_ids s)) x) ss)"
    by (induction ss) auto
  also have "\<dots> = sum_list (map (\<lambda>s. if s_key s = key x then count (mset ids) x else 0) ss)"
    using assms by (intro arg_cong [of _ _ sum_list] map_cong) (auto simp: cut_by_def count_mset filter_filter intro!: arg_cong [of _ _ length] filter_cong)
  also have "\<dots> = sum_list (map (\<lambda>k. if k = key x then count (mset ids) x else 0) (map s_key ss))"
    by (simp add: comp_def)
  also have "\<dots> = (if key x \<in> set (map s_key ss) then count (mset ids) x else 0)"
    using assms by (simp add: cut_by_def sum_list_distinct_conv_sum_set del: map_map)
  also have "\<dots> = count (mset ids) x"
    using assms by (auto simp: cut_by_def count_eq_zero_iff)
  finally show "count (mset (concat (map s_ids ss))) x = count (mset ids) x" .
qed

lemma first_seen_spec: "distinct (first_seen seen is) \<and> set (first_seen seen is) = set is - set seen"
  by (induction seen "is" rule: first_seen.induct) auto

lemma owner_of_lt: "set (List.map_filter (owner_of ss) ids) \<subseteq> {0..<length ss}"
proof
  fix k assume "k \<in> set (List.map_filter (owner_of ss) ids)"
  then obtain i where "owner_of ss i = Some k" by (auto simp: map_filter_def)
  then show "k \<in> {0..<length ss}" using position_SomeD [of "\<lambda>s. i \<in> set (s_ids s)" ss k] by (simp add: owner_of_def)
qed

lemma mset_resequence: "mset (resequence ordered ss) = mset ss"
proof -
  define seq where "seq = first_seen [] (List.map_filter (owner_of ss) ordered)"
  have sub: "set seq \<subseteq> {0..<length ss}"
    using first_seen_spec [of "[]" "List.map_filter (owner_of ss) ordered"] owner_of_lt [of ss ordered]
    by (simp add: seq_def)
  have "mset (seq @ filter (\<lambda>i. i \<notin> set seq) [0..<length ss]) = mset [0..<length ss]"
  proof (rule set_eq_iff_mset_eq_distinct [THEN iffD1])
    show "distinct (seq @ filter (\<lambda>i. i \<notin> set seq) [0..<length ss])"
      using first_seen_spec [of "[]"] by (auto simp: seq_def)
    show "set (seq @ filter (\<lambda>i. i \<notin> set seq) [0..<length ss]) = set [0..<length ss]"
      using sub by auto
  qed simp
  then have "image_mset ((!) ss) (mset (seq @ filter (\<lambda>i. i \<notin> set seq) [0..<length ss])) = image_mset ((!) ss) (mset [0..<length ss])"
    by simp
  moreover have "mset (resequence ordered ss) = image_mset ((!) ss) (mset (seq @ filter (\<lambda>i. i \<notin> set seq) [0..<length ss]))"
    by (simp add: resequence_def Let_def seq_def)
  ultimately show ?thesis by (metis map_nth mset_map)
qed

lemma bucket_ordered_mset:
  "bucket_ordered cat cfg seed ss = Inr ss' \<Longrightarrow> mset ss' = mset ss"
  by (auto simp: bucket_ordered_def bind_res_Inr_iff mset_resequence split: option.splits)

lemma resolve_pool_series_InrE:
  assumes "resolve_pool_series cat cfg ids block seam want seed = Inr ps"
  obtains pl ids' where "mset ids' = mset ids" "mset (psr_series ps) = mset (group_series (p_arcs cfg) pl ids')"
    "psr_limits ps = limits_of (pool_constraints cfg block)"
proof -
  let ?l = "limits_of (pool_constraints cfg block)"
  from assms obtain keys pl ss where
    "bucket_ordered cat cfg seed (group_series (p_arcs cfg) pl (constrain_pool ?l keys seam ids)) = Inr ss"
    "psr_series ps = ss" "psr_limits ps = ?l"
    by (auto simp: resolve_pool_series_def Let_def bind_res_Inr_iff split: prod.splits)
  then show thesis
    using that [of "constrain_pool ?l keys seam ids" pl] mset_constrain_pool bucket_ordered_mset by metis
qed

lemma resolve_pool_series_facts:
  assumes "resolve_pool_series cat cfg ids block seam want seed = Inr ps"
  obtains pl where "place_ids cat cfg (constrain_pool (psr_limits ps) (psr_keys ps) seam ids) = Inr pl"
    "mset (psr_series ps) = mset (group_series (p_arcs cfg) pl (constrain_pool (psr_limits ps) (psr_keys ps) seam ids))"
    "psr_limits ps = limits_of (pool_constraints cfg block)"
proof -
  let ?l = "limits_of (pool_constraints cfg block)"
  from assms obtain keys pl ss where "place_ids cat cfg (constrain_pool ?l keys seam ids) = Inr pl"
    "bucket_ordered cat cfg seed (group_series (p_arcs cfg) pl (constrain_pool ?l keys seam ids)) = Inr ss"
    "psr_series ps = ss" "psr_limits ps = ?l" "psr_keys ps = keys"
    by (auto simp: resolve_pool_series_def Let_def bind_res_Inr_iff split: prod.splits)
  then show thesis using that [of pl] bucket_ordered_mset by simp
qed

lemma cut_by_mset:
  assumes "cut_by key ids ss" and "mset ss' = mset ss"
  shows "cut_by key ids ss'"
proof -
  have sets: "set ss' = set ss" using assms(2) by (rule mset_eq_setD)
  have "mset (map s_key ss') = mset (map s_key ss)" using assms(2) by simp
  then have "distinct (map s_key ss') = distinct (map s_key ss)" by (rule mset_eq_imp_distinct_iff)
  then show ?thesis using assms(1) sets by (simp add: cut_by_def)
qed

lemma cut_by_nonempty: "cut_by key ids ss \<Longrightarrow> s \<in> set ss \<Longrightarrow> s_ids s \<noteq> []"
proof -
  assume cut: "cut_by key ids ss" and s: "s \<in> set ss"
  then have "s_key s \<in> key ` set ids" by (metis cut_by_def image_eqI list.set_map)
  then show "s_ids s \<noteq> []" using cut s by (auto simp: cut_by_def filter_empty_conv)
qed

lemma pool_series_cut:
  assumes "resolve_pool_series cat cfg ids block seam want seed = Inr ps"
  obtains pl where "place_ids cat cfg (constrain_pool (psr_limits ps) (psr_keys ps) seam ids) = Inr pl"
    "cut_by (series_key_of (p_arcs cfg) pl) (constrain_pool (psr_limits ps) (psr_keys ps) seam ids) (psr_series ps)"
  using resolve_pool_series_facts [OF assms] group_series_cut cut_by_mset by metis

lemma pool_series_mset:
  assumes "resolve_pool_series cat cfg ids block seam want seed = Inr ps"
  shows "mset (concat (map s_ids (psr_series ps))) = mset ids"
  using pool_series_cut [OF assms] mset_cut mset_constrain_pool by metis

text \<open>
  A pool's list is cut into rotation series without losing, repeating or moving an
  id: every series holds, in list order, exactly the ids of its show, season or arc, none is
  empty, each starts at its first id, and no two share a key, whatever \<open>bucket_order\<close> does to
  the order of the series.
\<close>

theorem pool_is_cut_into_series:
  assumes "resolve_pool_series cat cfg ids block seam want seed = Inr ps"
  shows "mset (concat (map s_ids (psr_series ps))) = mset ids \<and> distinct (map s_key (psr_series ps)) \<and>
         (\<exists>pl. place_ids cat cfg (constrain_pool (psr_limits ps) (psr_keys ps) seam ids) = Inr pl \<and>
            (\<forall>s\<in>set (psr_series ps). s_ids s \<noteq> [] \<and> s_cursor s = 0 \<and> \<not> s_finished s \<and>
               s_ids s = filter (\<lambda>i. series_key_of (p_arcs cfg) pl i = s_key s)
                           (constrain_pool (psr_limits ps) (psr_keys ps) seam ids)))"
proof -
  obtain pl where pl: "place_ids cat cfg (constrain_pool (psr_limits ps) (psr_keys ps) seam ids) = Inr pl"
    and cut: "cut_by (series_key_of (p_arcs cfg) pl) (constrain_pool (psr_limits ps) (psr_keys ps) seam ids) (psr_series ps)"
    using assms by (rule pool_series_cut)
  show ?thesis using pl cut cut_by_nonempty [OF cut] pool_series_mset [OF assms]
    by (intro conjI exI [of _ pl] pl ballI) (simp_all add: cut_by_def)
qed

section \<open>What a runtime opens on\<close>

lemma concat_ids_nonempty: "s \<in> set ss \<Longrightarrow> i \<in> set (s_ids s) \<Longrightarrow> i \<in> set (concat (map s_ids ss))"
  by auto

lemma map_ids_seat [simp]: "map s_ids (map (seat_series cursor) ss) = map s_ids ss"
  by (induction ss) (simp_all add: seat_series_def advance_to_def Let_def split: option.splits)

lemma seat_series_keeps [simp]:
  "s_key (seat_series cursor s) = s_key s" "s_ids (seat_series cursor s) = s_ids s" "s_show_key (seat_series cursor s) = s_show_key s"
  by (simp_all add: seat_series_def advance_to_def Let_def split: option.splits)

lemma seat_series_cursor:
  "s_cursor (seat_series cursor s) =
     (case Option.bind (bt_get cursor (s_show_key s)) (\<lambda>aired. position (\<lambda>i. i = aired) (s_ids s)) of
        None \<Rightarrow> s_cursor s
      | Some pos \<Rightarrow> (pos + 1) mod length (s_ids s))"
proof (cases "Option.bind (bt_get cursor (s_show_key s)) (\<lambda>aired. position (\<lambda>i. i = aired) (s_ids s))")
  case None
  then show ?thesis by (auto simp: seat_series_def split: option.splits)
next
  case (Some pos)
  then obtain aired where a: "bt_get cursor (s_show_key s) = Some aired" "position (\<lambda>i. i = aired) (s_ids s) = Some pos"
    by (auto simp: bind_eq_Some_conv)
  have "pos < length (s_ids s)" using position_SomeD [OF a(2)] by simp
  then have "Suc pos = length (s_ids s) \<or> Suc pos < length (s_ids s)" by linarith
  then show ?thesis using a by (auto simp: seat_series_def advance_to_def)
qed

lemma open_after_rollover_keeps [simp]:
  "rt_series (open_after_rollover prev rt) = rt_series rt" "rt_drawn (open_after_rollover prev rt) = rt_drawn rt"
  "rt_refills (open_after_rollover prev rt) = rt_refills rt" "rt_cfg (open_after_rollover prev rt) = rt_cfg rt"
  "rt_list_key (open_after_rollover prev rt) = rt_list_key rt"
  by (simp_all add: open_after_rollover_def Let_def)

lemma open_after_rollover_rotation: "rt_series rt \<noteq> [] \<Longrightarrow> rt_rotation (open_after_rollover prev rt) < length (rt_series rt)"
  by (auto simp: open_after_rollover_def Let_def split: option.splits dest!: position_SomeD)

lemma continue_from_keeps [simp]:
  "rt_series (continue_from p rt) = rt_series rt" "rt_cfg (continue_from p rt) = rt_cfg rt"
  "rt_list_key (continue_from p rt) = rt_list_key rt" "rt_refills (continue_from p rt) = rt_refills rt"
  by (simp_all add: continue_from_def Let_def split: option.splits)

lemma continue_from_drawn:
  "rt_drawn rt = [] \<Longrightarrow> distinct (rt_drawn (continue_from p rt)) \<and> set (rt_drawn (continue_from p rt)) \<subseteq> set (pool_ids rt)"
  by (auto simp: continue_from_def Let_def pool_ids_def split: option.splits)

lemma continue_from_rotation:
  "rt_rotation rt < length (rt_series rt) \<Longrightarrow> rt_rotation (continue_from p rt) < length (rt_series rt)"
  by (auto simp: continue_from_def Let_def bind_eq_Some_conv split: option.splits dest!: position_SomeD)

lemma seat_rotation_keeps [simp]:
  "rt_series (seat_rotation prev rt) = rt_series rt" "rt_cfg (seat_rotation prev rt) = rt_cfg rt"
  "rt_list_key (seat_rotation prev rt) = rt_list_key rt" "rt_refills (seat_rotation prev rt) = rt_refills rt"
  by (auto simp: seat_rotation_def split: option.splits)

lemma seat_rotation_drawn:
  "rt_drawn rt = [] \<Longrightarrow> distinct (rt_drawn (seat_rotation prev rt)) \<and> set (rt_drawn (seat_rotation prev rt)) \<subseteq> set (pool_ids rt)"
  using continue_from_drawn [of rt] by (auto simp: seat_rotation_def split: option.splits)

lemma seat_rotation_rotation:
  "rt_series rt \<noteq> [] \<Longrightarrow> rt_rotation rt = 0 \<Longrightarrow> rt_rotation (seat_rotation prev rt) < length (rt_series rt)"
  using continue_from_rotation [of rt] open_after_rollover_rotation [of rt]
  by (auto simp: seat_rotation_def split: option.splits)

lemma resume_runtime_keeps [simp]:
  "rt_cfg (resume_runtime state prev rt) = rt_cfg rt" "rt_list_key (resume_runtime state prev rt) = rt_list_key rt"
  "rt_refills (resume_runtime state prev rt) = rt_refills rt" "pool_ids (resume_runtime state prev rt) = pool_ids rt"
  "map s_key (rt_series (resume_runtime state prev rt)) = map s_key (rt_series rt)"
  by (simp_all add: resume_runtime_def pool_ids_def) (simp add: comp_def)

definition ledger_seats :: "pool \<Rightarrow> generation_state \<Rightarrow> series \<Rightarrow> nat" where
  "ledger_seats cfg state s =
     (case Option.bind (bt_get (ledger_cursor cfg state) (s_show_key s)) (\<lambda>aired. position (\<lambda>i. i = aired) (s_ids s)) of
        Some pos \<Rightarrow> if p_advance cfg = ResumeAdvance then (pos + 1) mod length (s_ids s) else 0
      | None \<Rightarrow> 0)"

lemma resume_runtime_cursors:
  assumes "\<forall>s\<in>set (rt_series rt). s_cursor s = 0"
  shows "\<forall>s\<in>set (rt_series (resume_runtime state prev rt)). s_cursor s = ledger_seats (rt_cfg rt) state s"
  using assms by (auto simp: resume_runtime_def ledger_seats_def seat_series_cursor split: option.splits)

lemma open_runtime_InrE:
  assumes "open_runtime en cat cfg ids block state prev d want cache = Inr rt"
  obtains ps rt0 where "resolve_pool_series cat cfg ids block (own_tail ids state) want (dice_seed d) = Inr ps"
    "rt = resume_runtime state prev (rt_remember (own_tail ids state) rt0)"
    "rt_series rt0 = psr_series ps" "rt_drawn rt0 = []" "rt_rotation rt0 = 0" "rt_cfg rt0 = cfg" "rt_refills rt0 = 0"
    "rt_list_key rt0 = dice_key en d cfg" "rt_limits rt0 = psr_limits ps"
  using assms
  by (auto simp: open_runtime_def Let_def bind_res_Inr_iff fresh_runtime_def split: if_splits)

lemma open_runtime_facts:
  assumes "open_runtime en cat cfg ids block state prev d want cache = Inr rt"
  shows "rt_cfg rt = cfg \<and> pool_ok rt \<and> mset (pool_ids rt) = mset ids \<and> distinct (map s_key (rt_series rt)) \<and>
         (\<forall>s\<in>set (rt_series rt). s_cursor s = ledger_seats cfg state s) \<and>
         (ids \<noteq> [] \<longrightarrow> rt_rotation rt < length (rt_series rt)) \<and>
         distinct (rt_drawn rt) \<and> set (rt_drawn rt) \<subseteq> set ids"
proof -
  obtain ps rt0 where ps: "resolve_pool_series cat cfg ids block (own_tail ids state) want (dice_seed d) = Inr ps"
    and rt: "rt = resume_runtime state prev (rt_remember (own_tail ids state) rt0)"
    and rt0: "rt_series rt0 = psr_series ps" "rt_drawn rt0 = []" "rt_rotation rt0 = 0" "rt_cfg rt0 = cfg"
    using assms by (rule open_runtime_InrE)
  let ?rt = "rt_remember (own_tail ids state) rt0"
  have ids: "mset (pool_ids rt0) = mset ids" using pool_series_mset [OF ps] rt0 by (simp add: pool_ids_def)
  obtain key L where cut: "cut_by key L (psr_series ps)" using pool_series_cut [OF ps] by metis
  have cursors: "\<forall>s\<in>set (rt_series rt). s_cursor s = ledger_seats cfg state s"
    using resume_runtime_cursors [of ?rt state prev] cut rt0 by (simp add: rt cut_by_def)
  have "s_ids s \<noteq> []" if "s \<in> set (rt_series rt)" for s
  proof -
    have "s_ids s \<in> set (map s_ids (psr_series ps))"
      using that rt0 by (auto simp: rt resume_runtime_def split: if_splits)
    then obtain s' where "s' \<in> set (psr_series ps)" "s_ids s = s_ids s'" by auto
    then show ?thesis using cut_by_nonempty [OF cut] by simp
  qed
  then have "pool_ok rt" using cursors
    by (auto simp: pool_ok_def list_all_iff series_ok_def ledger_seats_def split: option.splits)
  moreover have "ids \<noteq> [] \<longrightarrow> rt_rotation rt < length (rt_series rt)"
  proof
    assume "ids \<noteq> []"
    then have "rt_series rt0 \<noteq> []" using ids by (auto simp: pool_ids_def)
    then show "rt_rotation rt < length (rt_series rt)"
      using seat_rotation_rotation [of "?rt\<lparr>rt_series := map (seat_series (ledger_cursor (rt_cfg ?rt) state)) (rt_series ?rt)\<rparr>" prev] rt0
      by (simp add: rt resume_runtime_def)
  qed
  moreover have "distinct (rt_drawn rt) \<and> set (rt_drawn rt) \<subseteq> set (pool_ids rt0)"
    using seat_rotation_drawn [of "?rt\<lparr>rt_series := map (seat_series (ledger_cursor (rt_cfg ?rt) state)) (rt_series ?rt)\<rparr>" prev] rt0
    by (simp add: rt resume_runtime_def pool_ids_def)
  moreover have "rt_cfg rt = cfg" using rt0 by (simp add: rt rt_remember_def)
  moreover have "distinct (map s_key (rt_series rt))" using cut rt0 by (simp add: rt cut_by_def)
  moreover have "pool_ids rt = pool_ids rt0" by (simp add: rt) (simp add: pool_ids_def)
  ultimately show ?thesis using cursors ids mset_eq_setD [OF ids] by simp
qed

text \<open>
  Claim C10. Whatever the sidecar and the ledger hold, stale names and removed items included,
  a runtime opens well formed on exactly the pool's list: each resuming series on the item
  after its show's last aired one, wrapping after the end, any other at its start; the
  rotation on a series that exists; and only ids the pool holds counted as drawn.
\<close>

theorem opened_runtime_ok:
  assumes "open_runtime en cat cfg ids block state prev d want cache = Inr rt"
  shows "pool_ok rt \<and> mset (pool_ids rt) = mset ids \<and> distinct (map s_key (rt_series rt)) \<and>
         (\<forall>s\<in>set (rt_series rt). s_cursor s = ledger_seats cfg state s) \<and>
         (ids \<noteq> [] \<longrightarrow> rt_rotation rt < length (rt_series rt)) \<and>
         distinct (rt_drawn rt) \<and> set (rt_drawn rt) \<subseteq> set ids"
  using open_runtime_facts [OF assms] by simp

section \<open>A period's list is ranked once\<close>

lemma get_record_frozen:
  "sc_extras (record_frozen name l cache) (name', i) =
     (case map_of (rev (fl_extras l)) i of
        Some x \<Rightarrow> if name' = name then Some \<lparr>pe_metadata = fe_metadata x, pe_take = fe_take x\<rparr> else sc_extras cache (name', i)
      | None \<Rightarrow> sc_extras cache (name', i))"
proof -
  have "fold (\<lambda>(i, x) m. m((name, i) \<mapsto> \<lparr>pe_metadata = fe_metadata x, pe_take = fe_take x\<rparr>)) xs m (name', i) =
      (case map_of (rev xs) i of
        Some x \<Rightarrow> if name' = name then Some \<lparr>pe_metadata = fe_metadata x, pe_take = fe_take x\<rparr> else m (name', i)
      | None \<Rightarrow> m (name', i))" for xs :: "(string \<times> frozen_extra) list" and m
    by (induction xs rule: rev_induct) (auto split: option.splits)
  then show ?thesis by (simp add: record_frozen_def)
qed

lemma map_of_rev_distinct:
  assumes "distinct (map fst xs)"
  shows "map_of (rev xs) i = map_of xs i"
proof (cases "map_of xs i")
  case None
  then have "i \<notin> fst ` set (rev xs)" by (simp add: map_of_eq_None_iff)
  then show ?thesis using None map_of_eq_None_iff [of "rev xs" i] by simp
next
  case (Some v)
  then show ?thesis using assms by (simp add: map_of_eq_Some_iff rev_map [symmetric])
qed

lemma bt_ok_freeze: "bt_ok (fold (\<lambda>p. bt_insert (f p) (g p)) xs m) = bt_ok (m :: (string, 'v) btree) \<or> \<not> bt_ok m"
proof -
  have "bt_ok m \<Longrightarrow> bt_ok (fold (\<lambda>p. bt_insert (f p) (g p)) xs m)"
    by (induction xs arbitrary: m) simp_all
  then show ?thesis by blast
qed

lemma freeze_records_the_same:
  assumes "sc_extras cache (name, i) = None" and "sc_extras cache2 (name, i) = None"
  shows "sc_extras (record_frozen name (freeze key picked) cache2) (name, i) = sc_extras (record_picked name picked cache) (name, i)"
proof -
  let ?extras = "\<lambda>picked. fold (\<lambda>p. bt_insert (pi_id p) (frozen_extra_of p)) (filter has_extra picked) []"
  have "bt_ok (?extras picked)" using bt_ok_freeze [of pi_id frozen_extra_of "filter has_extra picked" "[]"] by simp
  then have rev: "map_of (rev (?extras picked)) i = bt_get (?extras picked) i"
    by (simp add: bt_ok_distinct map_of_rev_distinct)
  have "(case bt_get (?extras picked) i of Some x \<Rightarrow> Some \<lparr>pe_metadata = fe_metadata x, pe_take = fe_take x\<rparr> | None \<Rightarrow> None) =
      sc_extras (record_picked name picked cache) (name, i)"
    using assms(1) by (induction picked rule: rev_induct) (auto simp: record_picked_def frozen_extra_of_def split: option.splits)
  then show ?thesis using assms(2) rev by (auto simp: get_record_frozen freeze_def split: option.splits)
qed

lemma frozen_list_for_store:
  "frozen_list_for (store_frozen_list pool key picked frozen) pool key = Some (freeze key picked)"
proof -
  have "find (\<lambda>l. fl_key l = key) (filter (\<lambda>l. fl_key l \<noteq> key) ls @ [freeze key picked]) = Some (freeze key picked)" for ls
    by (induction ls) (simp_all add: freeze_def)
  then show ?thesis by (simp add: frozen_list_for_def store_frozen_list_def Let_def)
qed

lemma freeze_ids [simp]: "fl_ids (freeze key picked) = map pi_id picked"
  by (simp add: freeze_def)

text \<open>
  Within a period a pool's list is settled by its first ranking: resolved again from
  the lists that ranking handed back, under dice with the same key, it yields the same ids with
  the same metadata and take overrides and leaves the lists alone, whatever the script, the
  catalog and the recency tail have become.
\<close>

theorem period_list_is_kept:
  assumes "fill_hole en cat inputs cfg d cache frozen = Inr (ids, cache', frozen')"
    and "dice_key en d cfg = Some k" and "dice_key en2 d2 cfg = Some k"
    and "\<forall>i. sc_extras cache (p_name cfg, i) = None" and "\<forall>i. sc_extras cache2 (p_name cfg, i) = None"
  shows "\<exists>again. fill_hole en2 cat2 inputs2 cfg d2 cache2 frozen' = Inr (ids, again, frozen') \<and>
           (\<forall>i. sc_extras again (p_name cfg, i) = sc_extras cache' (p_name cfg, i))"
proof (cases "frozen_list_for frozen (p_name cfg) k")
  case (Some l)
  then have "ids = fl_ids l" "cache' = record_frozen (p_name cfg) l cache" "frozen' = frozen"
    using assms(1,2) by (simp_all add: fill_hole_def Let_def)
  then show ?thesis using Some assms(3-5) by (auto simp: fill_hole_def Let_def get_record_frozen split: option.splits)
next
  case None
  then obtain picked where p: "ids = map pi_id picked" "cache' = record_picked (p_name cfg) picked cache"
      "frozen' = store_frozen_list (p_name cfg) k picked frozen"
    using assms(1,2) by (auto simp: fill_hole_def Let_def bind_res_Inr_iff)
  show ?thesis using assms(3-5) freeze_records_the_same [of cache "p_name cfg" _ cache2 k picked]
    by (simp add: fill_hole_def Let_def p frozen_list_for_store)
qed

section \<open>What a refill adds\<close>

lemma sum_length_concat: "sum_list (map (\<lambda>s. length (s_ids s)) ss) = length (concat (map s_ids ss))"
  by (simp add: length_concat comp_def)

lemma extend_with_spec:
  assumes "extend_with fresh keys runtimes rt = (added, rt')"
  shows "pool_ids rt' = pool_ids rt @ concat (map s_ids (filter (\<lambda>s. s_key s \<notin> s_key ` set (rt_series rt)) fresh)) \<and>
         rt_series rt' = rt_series rt @ filter (\<lambda>s. s_key s \<notin> s_key ` set (rt_series rt)) fresh \<and>
         added = length (concat (map s_ids (filter (\<lambda>s. s_key s \<notin> s_key ` set (rt_series rt)) fresh))) \<and>
         rt_take_overrides rt' = rt_take_overrides rt \<and> rt_drawn rt' = rt_drawn rt \<and> rt_refills rt' = rt_refills rt \<and>
         rt_cfg rt' = rt_cfg rt \<and> rt_list_key rt' = rt_list_key rt \<and> rt_limits rt' = rt_limits rt \<and>
         (added > 0 \<longrightarrow> rt_rotation rt' = length (rt_series rt))"
  using assms
  by (auto simp: extend_with_def Let_def pool_ids_def sum_length_concat split: if_splits)

lemma refill_cases:
  assumes "refill_pool en cat inputs block state d want cfg rt cache frozen = Inr (added, rt', cache', frozen')"
  obtains "added = 0" "rt' = rt" "p_plugin cfg = None \<or> rt_refills rt \<ge> max_refills" "cache' = cache" "frozen' = frozen"
  | "added = 0" "rt' = rt\<lparr>rt_refills := rt_refills rt + 1\<rparr>" "rt_refills rt < max_refills" "p_plugin cfg \<noteq> None"
  | picked ps fresh where "rt_refills rt < max_refills"
      "rank_pool en cat (refill_inputs (rt\<lparr>rt_refills := rt_refills rt + 1\<rparr>) inputs) cfg d cache = Inr picked"
      "fresh = filter (\<lambda>i. i \<notin> set (pool_ids rt)) (map pi_id picked)"
      "resolve_pool_series cat cfg fresh block (own_tail fresh state) want (dice_seed d) = Inr ps"
      "extend_with (psr_series ps) (psr_keys ps) (psr_runtimes ps) (rt\<lparr>rt_refills := rt_refills rt + 1\<rparr>) = (added, rt')"
      "p_plugin cfg \<noteq> None"
proof (cases "p_plugin cfg = None \<or> rt_refills rt \<ge> max_refills")
  case True
  then show thesis using assms that(1) by (simp add: refill_pool_def)
next
  case False
  define rt1 where "rt1 = rt\<lparr>rt_refills := rt_refills rt + 1\<rparr>"
  have ids: "pool_ids rt1 = pool_ids rt" by (simp add: rt1_def pool_ids_def)
  obtain picked where picked: "rank_pool en cat (refill_inputs rt1 inputs) cfg d cache = Inr picked"
    using assms False by (auto simp: refill_pool_def Let_def bind_res_Inr_iff rt1_def)
  define fresh where "fresh = filter (\<lambda>i. i \<notin> set (pool_ids rt)) (map pi_id picked)"
  show thesis
  proof (cases "fresh = []")
    case True
    then have "added = 0 \<and> rt' = rt1"
      using assms False picked ids unfolding refill_pool_def Let_def rt1_def [symmetric] fresh_def by simp
    then show thesis using that(2) False by (simp add: rt1_def)
  next
    case ne: False
    then obtain ps where "resolve_pool_series cat cfg fresh block (own_tail fresh state) want (dice_seed d) = Inr ps"
      "extend_with (psr_series ps) (psr_keys ps) (psr_runtimes ps) rt1 = (added, rt')"
      using assms False picked ids unfolding refill_pool_def Let_def rt1_def [symmetric] fresh_def
      by (auto simp: bind_res_Inr_iff case_prod_beta prod_eq_iff)
    then show thesis using that(3) [OF _ picked [unfolded rt1_def] fresh_def] False by (simp add: rt1_def)
  qed
qed

text \<open>
  Claim C11. A refill only ever adds: the pool keeps every series and cursor it had and gains
  ids it did not hold, as many as reported; when there are any, the rotation moves to the
  first arrival and the pool is no longer drained. Every ranking is counted, whether it adds anything or
  not, and a pool ranked again eight times is left as it is; the arrivals' own take overrides are not
  among what the runtime takes on.
\<close>

theorem refill_only_adds:
  assumes "refill_pool en cat inputs block state d want cfg rt cache frozen = Inr (added, rt', cache', frozen')"
    and "length (rt_drawn rt) \<le> total_ids rt"
  shows "(\<exists>arrivals.
      rt_series rt' = rt_series rt @ arrivals \<and> length (concat (map s_ids arrivals)) = added \<and>
      set (concat (map s_ids arrivals)) \<inter> set (pool_ids rt) = {} \<and>
      (added > 0 \<longrightarrow> rt_rotation rt' = length (rt_series rt) \<and> \<not> is_drained rt') \<and>
      rt_drawn rt' = rt_drawn rt \<and> rt_take_overrides rt' = rt_take_overrides rt) \<and>
    (if p_plugin cfg = None \<or> max_refills \<le> rt_refills rt
     then added = 0 \<and> rt' = rt \<and> cache' = cache \<and> frozen' = frozen
     else rt_refills rt' = rt_refills rt + 1)"
  using assms(1)
proof (cases rule: refill_cases)
  case 1
  then show ?thesis by auto
next
  case 2
  then show ?thesis by auto
next
  case (3 picked ps fresh)
  let ?arrivals = "filter (\<lambda>s. s_key s \<notin> s_key ` set (rt_series rt)) (psr_series ps)"
  have ext: "rt_series rt' = rt_series rt @ ?arrivals" "added = length (concat (map s_ids ?arrivals))"
    "rt_drawn rt' = rt_drawn rt" "rt_refills rt' = rt_refills rt + 1" "rt_take_overrides rt' = rt_take_overrides rt"
    "added > 0 \<longrightarrow> rt_rotation rt' = length (rt_series rt)"
    using extend_with_spec [OF 3(5)] by auto
  have "set (concat (map s_ids ?arrivals)) \<subseteq> set fresh"
    using mset_eq_setD [OF pool_series_mset [OF 3(4)]] by auto
  then have "set (concat (map s_ids ?arrivals)) \<inter> set (pool_ids rt) = {}" using 3(3) by auto
  moreover have "\<not> is_drained rt'" if "added > 0"
  proof -
    have "total_ids rt' = total_ids rt + added" using ext(1,2) by (simp add: total_ids_def sum_length_concat)
    then show ?thesis using that assms(2) ext(3) by (simp add: is_drained_def)
  qed
  ultimately show ?thesis using ext 3(1,6) by (intro conjI exI [of _ ?arrivals]) auto
qed

section \<open>A catalog of two shows\<close>

definition show_catalog :: catalog where
  "show_catalog = sample_catalog\<lparr>cat_show_ids := (\<lambda>_. Inr [(''a1'', ''A''), (''a2'', ''A''), (''b1'', ''B'')])\<rparr>"

definition show_ids :: "string list" where
  "show_ids = [''a1'', ''b1'', ''a2'']"

definition show_series :: "series list" where
  "show_series = [(new_series ''A'' [''a1'', ''a2'']), (new_series ''B'' [''b1''])]"

definition show_pool_series :: pool_series where
  "show_pool_series =
     \<lparr>psr_series = show_series, psr_limits = limits_default, psr_keys = pool_keys_default, psr_runtimes = [], psr_mean = 0\<rparr>"

lemma unconstrained_default [simp]:
  "limits_of constraints_default = limits_default" "limits_is_unconstrained limits_default"
  "c_separate_by constraints_default = None" "\<not> needs_runtimes limits_default"
  by (simp_all add: limits_of_def constraints_default_def no_repeat_gap_def separate_gap_def limits_is_unconstrained_def
      reach_is_unconstrained_def limits_reach_def limits_default_def needs_runtimes_def)

lemma unconstrained_pools [simp]:
  "pool_constraints sample_cfg None = constraints_default" "pool_constraints plain_pool None = constraints_default"
  by (simp_all add: sample_cfg_def plain_pool_def pool_constraints_def)

lemma group_shows:
  "group_series None \<lparr>pl_show_ids = [(''a1'', ''A''), (''a2'', ''A''), (''b1'', ''B'')], pl_seasons = [], pl_arcs = []\<rparr> show_ids = show_series"
  by (simp add: group_series_def show_ids_def show_series_def add_to_series_def series_key_of_def show_key_of_def arc_of_def
      open_series_def new_series_def Let_def)

lemma resolve_shows: "resolve_pool_series show_catalog sample_cfg show_ids None seam False 0 = Inr show_pool_series"
proof -
  have "constrain_pool limits_default (pool_keys_default\<lparr>pk_durations := [], pk_mean_duration := 0\<rparr>) seam show_ids = show_ids"
    by (simp add: constrain_pool_def)
  moreover have "place_ids show_catalog sample_cfg show_ids =
      Inr \<lparr>pl_show_ids = [(''a1'', ''A''), (''a2'', ''A''), (''b1'', ''B'')], pl_seasons = [], pl_arcs = []\<rparr>"
    by (simp add: place_ids_def show_catalog_def sample_cfg_def)
  moreover have "bucket_ordered show_catalog sample_cfg 0 show_series = Inr show_series" "p_arcs sample_cfg = None"
    by (simp_all add: bucket_ordered_def sample_cfg_def)
  moreover have "pool_keys_default\<lparr>pk_durations := [], pk_mean_duration := 0\<rparr> = pool_keys_default" by (simp add: pool_keys_default_def)
  ultimately show ?thesis
    by (simp add: resolve_pool_series_def Let_def tag_keys_def group_shows show_pool_series_def)
qed

theorem pool_is_cut_into_series_witness:
  "resolve_pool_series show_catalog sample_cfg show_ids None [] False 0 = Inr show_pool_series \<and>
     mset (concat (map s_ids (psr_series show_pool_series))) = mset show_ids"
  using pool_is_cut_into_series [OF resolve_shows [of "[]"]] resolve_shows [of "[]"] by blast

definition aired_a1 :: generation_state where
  "aired_a1 = generation_state_empty\<lparr>gs_cursor := [(''A'', ''a1'')]\<rparr>"

theorem opened_runtime_ok_witness:
  "\<exists>rt. open_runtime (engine_of (script_returning [] [])) show_catalog sample_cfg show_ids None aired_a1 None (fixed_dice 0) False score_cache_new = Inr rt \<and>
     pool_ok rt \<and> map (ledger_seats sample_cfg aired_a1) show_series = [1, 0]"
proof -
  let ?en = "engine_of (script_returning [] [])"
  have "dice_seed (fixed_dice 0) = 0" "rotate_span (p_rotate sample_cfg) = None"
    by (simp_all add: fixed_dice_def sample_cfg_def)
  then obtain rt where rt: "open_runtime ?en show_catalog sample_cfg show_ids None aired_a1 None (fixed_dice 0) False score_cache_new = Inr rt"
    by (simp add: open_runtime_def resolve_shows titles_of_def Let_def)
  have "map (ledger_seats sample_cfg aired_a1) show_series = [1, 0]"
    by (simp add: show_series_def new_series_def ledger_seats_def ledger_cursor_def sample_cfg_def aired_a1_def generation_state_empty_def)
  then show ?thesis using rt opened_runtime_ok [OF rt] by (intro exI [of _ rt]) simp
qed

text \<open>A plugin pool whose seed turns over, ranked by a script that returns two ids.\<close>

definition turning_dice :: dice where
  "turning_dice = (fixed_dice 0)\<lparr>dice_seed_period := Some 3\<rparr>"

definition two_picks :: "dyn list" where
  "two_picks = [DynString ''x'', DynString ''y'']"

definition ranked_two :: "picked_item list" where
  "ranked_two = map (\<lambda>i. \<lparr>pi_id = i, pi_metadata = None, pi_take = None\<rparr>) [''x'', ''y'']"

lemma pick_two:
  "score_pick (engine_of (script_returning two_picks [])) (prepared_cache (script_returning two_picks [])) ''/a'' inputs d plain_pool g =
     Inr ranked_two"
  using collect_bare [of "[''x'', ''y'']" "[]"]
  by (simp add: score_pick_def cache_key_of_def prepared_cache_def plain_pool_def pool_narrowing_def profile_default_def
      ok_or_def pool_config_dynamic_def script_returning_def parse_pick_envelope_def is_map_def record_field_def into_array_def
      Let_def two_picks_def ranked_two_def cong: if_cong)

lemma rank_two:
  "rank_pool (engine_of (script_returning two_picks [])) sample_catalog inputs plain_pool d (prepared_cache (script_returning two_picks [])) =
     Inr ranked_two"
proof -
  have "pool_grants (engine_of (script_returning two_picks [])) sample_catalog plain_pool = Inr (grants_from_names [])"
    by (simp add: pool_grants_def plain_pool_def with_entry_ids_def grants_from_names_def)
  moreover have "p_plugin plain_pool = Some ''/a''" by (simp add: plain_pool_def)
  moreover have "source_path (engine_of (script_returning two_picks [])) ''/a'' = ''/a''"
    by (simp add: source_path_def resolve_plugin_path_def)
  ultimately show ?thesis by (simp add: rank_pool_def pick_two)
qed

theorem period_list_is_kept_witness:
  "\<exists>c f again. fill_hole (engine_of (script_returning two_picks [])) sample_catalog plain_inputs plain_pool turning_dice
         (prepared_cache (script_returning two_picks [])) [] = Inr ([''x'', ''y''], c, f) \<and>
     fill_hole (engine_of (script_returning [] [])) show_catalog plain_inputs plain_pool turning_dice score_cache_new f =
         Inr ([''x'', ''y''], again, f)"
proof -
  let ?en = "engine_of (script_returning two_picks [])"
  obtain k where k: "dice_key ?en turning_dice plain_pool = Some k" "dice_key (engine_of (script_returning [] [])) turning_dice plain_pool = Some k"
    by (simp add: dice_key_def list_key_def turning_dice_def dice_rotates_def fixed_dice_def engine_of_def)
  obtain c f where first: "fill_hole ?en sample_catalog plain_inputs plain_pool turning_dice (prepared_cache (script_returning two_picks [])) [] =
      Inr ([''x'', ''y''], c, f)"
    by (simp add: fill_hole_def Let_def k rank_two frozen_list_for_def) (simp add: ranked_two_def)
  have "\<forall>i. sc_extras (prepared_cache (script_returning two_picks [])) (p_name plain_pool, i) = None"
    "\<forall>i. sc_extras score_cache_new (p_name plain_pool, i) = None"
    by (simp_all add: prepared_cache_def score_cache_new_def)
  from period_list_is_kept [OF first k this] first show ?thesis by blast
qed

definition drained_plain :: pool_runtime where
  "drained_plain = (sample_runtime plain_pool [new_series ''z'' [''z'']])\<lparr>rt_drawn := [''z'']\<rparr>"

lemma resolve_two: "resolve_pool_series sample_catalog plain_pool [''x'', ''y''] None seam False 0 =
    Inr \<lparr>psr_series = [new_series ''x'' [''x''], new_series ''y'' [''y'']], psr_limits = limits_default, psr_keys = pool_keys_default,
         psr_runtimes = [], psr_mean = 0\<rparr>"
proof -
  have "place_ids sample_catalog plain_pool [''x'', ''y''] = Inr \<lparr>pl_show_ids = [], pl_seasons = [], pl_arcs = []\<rparr>"
    by (simp add: place_ids_def sample_catalog_def plain_pool_def)
  moreover have "group_series None \<lparr>pl_show_ids = [], pl_seasons = [], pl_arcs = []\<rparr> [''x'', ''y''] =
      [new_series ''x'' [''x''], new_series ''y'' [''y'']]"
    by (simp add: group_series_def add_to_series_def series_key_of_def show_key_of_def arc_of_def open_series_def new_series_def Let_def)
  moreover have "bucket_ordered sample_catalog plain_pool 0 ss = Inr ss" "p_arcs plain_pool = None" for ss
    by (simp_all add: bucket_ordered_def plain_pool_def)
  moreover have "pool_keys_default\<lparr>pk_durations := [], pk_mean_duration := 0\<rparr> = pool_keys_default" by (simp add: pool_keys_default_def)
  ultimately show ?thesis by (simp add: resolve_pool_series_def Let_def tag_keys_def constrain_pool_def)
qed

theorem refill_only_adds_witness:
  "\<exists>rt' c f. refill_pool (engine_of (script_returning two_picks [])) sample_catalog plain_inputs None generation_state_empty (fixed_dice 0)
        False plain_pool drained_plain (prepared_cache (script_returning two_picks [])) [] = Inr (2, rt', c, f) \<and>
     \<not> is_drained rt' \<and> rt_refills rt' = 1"
proof -
  let ?en = "engine_of (script_returning two_picks [])"
  have shape: "p_plugin plain_pool \<noteq> None" "rt_refills drained_plain = 0" "rt_drawn drained_plain = [''z'']" "total_ids drained_plain = 1"
    "pool_ids drained_plain = [''z'']" "p_name plain_pool = ''p''" "rt_series drained_plain = [new_series ''z'' [''z'']]"
    "rt_list_key drained_plain = None" "dice_seed (fixed_dice 0) = 0"
    by (simp_all add: plain_pool_def drained_plain_def sample_runtime_def total_ids_def pool_ids_def new_series_def fixed_dice_def)
  have ids: "map pi_id ranked_two = [''x'', ''y'']" by (simp add: ranked_two_def)
  obtain rt' where ext: "extend_with [new_series ''x'' [''x''], new_series ''y'' [''y'']] pool_keys_default []
      (drained_plain\<lparr>rt_refills := Suc 0\<rparr>) = (2, rt')"
    by (simp add: extend_with_def Let_def drained_plain_def sample_runtime_def new_series_def)
  have "pool_ids (drained_plain\<lparr>rt_refills := Suc 0\<rparr>) = [''z'']" using shape by (simp add: pool_ids_def)
  then obtain c f where r: "refill_pool ?en sample_catalog plain_inputs None generation_state_empty (fixed_dice 0)
        False plain_pool drained_plain (prepared_cache (script_returning two_picks [])) [] = Inr (2, rt', c, f)"
    using rank_two ids resolve_two shape ext
    by (simp add: refill_pool_def Let_def max_refills_def)
  from refill_only_adds [OF r] r shape show ?thesis by (auto simp: max_refills_def)
qed

end
