(* ===== verification/PatternWalk.thy ===== *)
theory PatternWalk
  imports PoolSources
begin

text \<open>
  One block's pool walk (\<open>build_with_cache\<close> of \<open>pattern.rs\<close>): the pools are resolved to
  runtimes, the pattern is walked step by step and cycle by cycle until the asked airtime is
  laid or the cycle count is spent, and the walk hands back the drawn ids, the state of the
  rotation before every one of them, and the audit trail of every draw. With it \<open>rollover\<close>,
  \<open>pools_resume\<close>, \<open>derive_cycles\<close> and the record writers of \<open>audit.rs\<close>.
\<close>

section \<open>Audit records\<close>

definition stage_record :: "string \<Rightarrow> string \<Rightarrow> string \<Rightarrow> json option \<Rightarrow> json" where
  "stage_record stage by verdict detail =
     JObject (opt_field ''detail'' detail
       (bt_insert ''verdict'' (JString verdict) (bt_insert ''by'' (JString by) (bt_insert ''stage'' (JString stage) []))))"

definition push_record :: "json option \<Rightarrow> json \<Rightarrow> json option result" where
  "push_record metadata record =
     (case (case metadata of Some b \<Rightarrow> b | None \<Rightarrow> JObject []) of
        JObject kvs \<Rightarrow> bind_res (push_audit record kvs) (\<lambda>m. Inr (Some m))
      | b \<Rightarrow> Inr (Some b))"

definition push_stage :: "json option \<Rightarrow> string \<Rightarrow> string \<Rightarrow> string \<Rightarrow> json option \<Rightarrow> json option result" where
  "push_stage metadata stage by verdict detail = push_record metadata (stage_record stage by verdict detail)"

fun attach_audit :: "json option \<Rightarrow> json list \<Rightarrow> json option result" where
  "attach_audit metadata [] = Inr metadata"
| "attach_audit metadata (r # rs) = bind_res (push_record metadata r) (\<lambda>metadata. attach_audit metadata rs)"

text \<open>\<open>Path::file_stem\<close>: the last component, up to its last dot unless that dot opens it.\<close>

definition path_components :: "string \<Rightarrow> string list" where
  "path_components path = filter (\<lambda>c. c \<noteq> [] \<and> c \<noteq> ''.'') (split_on (CHR ''/'') path)"

definition file_name :: "string \<Rightarrow> string option" where
  "file_name path =
     (case rev (path_components path) of
        [] \<Rightarrow> None
      | c # _ \<Rightarrow> if c = ''..'' then None else Some c)"

definition stem_of :: "string \<Rightarrow> string" where
  "stem_of name =
     (let rest = dropWhile (\<lambda>c. c \<noteq> CHR ''.'') (rev name)
      in case rest of
           [] \<Rightarrow> name
         | _ # before \<Rightarrow> if before = [] then name else rev before)"

definition pool_source :: "pool \<Rightarrow> string" where
  "pool_source cfg =
     (case p_plugin cfg of
        Some plugin \<Rightarrow> ''plugin '' @ (case file_name plugin of Some n \<Rightarrow> stem_of n | None \<Rightarrow> plugin)
      | None \<Rightarrow>
          if p_expr cfg \<noteq> None then ''expression''
          else if p_groups cfg \<noteq> [] then dec (length (p_groups cfg)) @ '' show group(s)''
          else ''unknown'')"

fun describe_draw :: "draw \<Rightarrow> string" where
  "describe_draw (DrawCount n) = dec n"
| "describe_draw DrawAll = ''all''"

fun describe_take_from :: "take_from \<Rightarrow> string" where
  "describe_take_from FromStart = ''start (where the series left off)''"
| "describe_take_from FromEnd = ''end (the last items, ignoring the cursor)''"
| "describe_take_from FromRandom = ''random (a seeded offset, re-rolled per visit)''"

section \<open>State a pool walk keeps\<close>

definition stamped :: "string \<Rightarrow> pool_resume \<Rightarrow> pool_resume" where
  "stamped pid r = (if pr_step r > 0 \<or> pr_done r > 0 then r\<lparr>pr_pattern := Some pid\<rparr> else r)"

definition pools_resume :: "pool_runtime list \<Rightarrow> nat \<Rightarrow> nat \<Rightarrow> nat \<Rightarrow> string \<Rightarrow> (string, pool_resume) btree" where
  "pools_resume rts cycle step already pid =
     fold (\<lambda>rt. bt_insert (p_name (rt_cfg rt)) (stamped pid (to_resume cycle step already rt))) rts []"

text \<open>What a walk is given: the arguments of \<open>build\<close> and what it settles before the first step.\<close>

record walk_env =
  we_en :: engine
  we_cat :: catalog
  we_pools :: "pool list"
  we_groups :: "show_group list"
  we_pattern :: "pattern_step list"
  we_block :: "constraints option"
  we_state :: generation_state
  we_variety :: variety
  we_start :: instant
  we_inputs :: score_inputs
  we_budget :: "duration option"
  we_measure :: bool
  we_by_name :: "string \<Rightarrow> nat option"
  we_stop_at_visit :: bool
  we_first :: "nat \<times> nat \<times> nat"
  we_pattern_id :: string

record walk =
  wk_out :: "string list"
  wk_progress :: "(string, pool_resume) btree list"
  wk_guides :: "(string, json) btree"
  wk_tracks :: "(string, json) btree"
  wk_audits :: "json list list"
  wk_drawn_by :: "(string, nat) btree"
  wk_labelled_by :: "(string, nat) btree"
  wk_laid :: duration
  wk_runtimes :: "pool_runtime list"
  wk_channel :: channel_history
  wk_cache :: score_cache
  wk_lists :: frozen_lists
  wk_stopped :: "nat \<times> nat"

section \<open>A rollover inside the walk\<close>

definition last_ids :: "string list list \<Rightarrow> string list" where
  "last_ids idss = (if idss = [] then [] else last idss)"

definition rollover ::
  "engine \<Rightarrow> catalog \<Rightarrow> show_group list \<Rightarrow> constraints option \<Rightarrow> generation_state \<Rightarrow> score_inputs \<Rightarrow> dice \<Rightarrow> bool \<Rightarrow>
     string list \<Rightarrow> pool \<Rightarrow> pool_runtime \<Rightarrow> score_cache \<Rightarrow> frozen_lists \<Rightarrow> (pool_runtime \<times> score_cache \<times> frozen_lists) result" where
  "rollover en cat groups block state inputs d measured aired cfg rt cache frozen =
     bind_res (resolve_pool_sources en cat groups (inputs\<lparr>si_recent := si_recent inputs @ aired\<rparr>) [(cfg, d)] cache frozen)
       (\<lambda>(idss, cache, frozen).
     bind_res (open_runtime en cat cfg (last_ids idss) block state (Some (to_resume 0 0 0 rt)) d measured cache) (\<lambda>fresh.
     Inr (carry_into rt fresh, cache, frozen)))"

section \<open>One step\<close>

definition as_secs_f64 :: "duration \<Rightarrow> f64" where
  "as_secs_f64 d = f64_add (f64_round (of_nat (d div 10 ^ 9))) (f64_round (of_nat (d mod 10 ^ 9) / 10 ^ 9))"

definition airs_at :: "walk_env \<Rightarrow> walk \<Rightarrow> instant" where
  "airs_at env w = we_start env + en_seconds_f64 (we_en env) (as_secs_f64 (wk_laid w))"

definition step_dice :: "walk_env \<Rightarrow> nat \<Rightarrow> walk \<Rightarrow> dice" where
  "step_dice env idx w = dice_at (we_variety env) (airs_at env w) (Some (we_pools env ! idx))"

definition set_runtime :: "nat \<Rightarrow> pool_runtime \<Rightarrow> walk \<Rightarrow> walk" where
  "set_runtime idx rt w = w\<lparr>wk_runtimes := (wk_runtimes w)[idx := rt]\<rparr>"

definition roll_over :: "walk_env \<Rightarrow> nat \<Rightarrow> dice \<Rightarrow> walk \<Rightarrow> walk result" where
  "roll_over env idx d w =
     (let cfg = we_pools env ! idx; rt = wk_runtimes w ! idx in
      if dice_key (we_en env) d cfg = rt_list_key rt then Inr w
      else bind_res (rollover (we_en env) (we_cat env) (we_groups env) (we_block env) (we_state env) (we_inputs env) d
                       (we_measure env) (wk_out w) cfg rt (wk_cache w) (wk_lists w))
             (\<lambda>(rt, cache, frozen). Inr ((set_runtime idx rt w)\<lparr>wk_cache := cache, wk_lists := frozen\<rparr>)))"

definition set_period :: "walk_env \<Rightarrow> nat \<Rightarrow> instant \<Rightarrow> walk \<Rightarrow> walk" where
  "set_period env idx t w =
     set_runtime idx ((wk_runtimes w ! idx)\<lparr>rt_period :=
       map_option (span_period (we_variety env) t) (rotate_span (p_rotate (we_pools env ! idx)))\<rparr>) w"

definition roll_of :: "dice \<Rightarrow> nat \<Rightarrow> nat \<Rightarrow> roll_key" where
  "roll_of d cycle i = \<lparr>rk_seed = dice_seed d, rk_cycle = of_nat cycle, rk_step = of_nat i\<rparr>"

definition skips :: "pattern_step \<Rightarrow> roll_key \<Rightarrow> bool" where
  "skips st roll \<longleftrightarrow> ps_chance st < 1 \<and> unit_at roll (- 1) \<ge> ps_chance st"

definition refill_drained :: "walk_env \<Rightarrow> nat \<Rightarrow> dice \<Rightarrow> walk \<Rightarrow> walk result" where
  "refill_drained env idx d w =
     (let rt = wk_runtimes w ! idx in
      if is_drained rt \<and> \<not> rt_exhausted rt then
        bind_res (refill_pool (we_en env) (we_cat env) (we_inputs env) (we_block env) (we_state env) d (we_measure env)
                    (we_pools env ! idx) rt (wk_cache w) (wk_lists w))
          (\<lambda>(added, rt, cache, frozen).
            let rt = (if added = 0 then rt\<lparr>rt_exhausted := True\<rparr> else rt)
            in Inr ((set_runtime idx rt w)\<lparr>wk_cache := cache, wk_lists := frozen\<rparr>))
      else Inr w)"

text \<open>The position a generation resuming before this visit starts at.\<close>

definition position_before :: "walk_env \<Rightarrow> nat \<Rightarrow> nat \<Rightarrow> nat \<times> nat" where
  "position_before env cycle i = (if we_stop_at_visit env \<or> i = 0 then (cycle, i) else (cycle + 1, 0))"

definition resumed_at :: "walk_env \<Rightarrow> nat \<Rightarrow> nat \<Rightarrow> nat" where
  "resumed_at env cycle i =
     (let (first_cycle, first_step, first_done) = we_first env
      in if cycle = first_cycle \<and> i = first_step then first_done else 0)"

definition mid_visit :: "string \<Rightarrow> nat \<Rightarrow> (string, pool_resume) btree \<Rightarrow> (string, pool_resume) btree" where
  "mid_visit pid already ps = map (\<lambda>(k, p). (k, p\<lparr>pr_done := already, pr_pattern := Some pid\<rparr>)) ps"

definition visit_progress ::
  "walk_env \<Rightarrow> bool \<Rightarrow> nat \<Rightarrow> (string, pool_resume) btree \<Rightarrow> nat \<Rightarrow> (string, pool_resume) btree list" where
  "visit_progress env resumable resumed before n =
     map (\<lambda>k. if resumable \<and> k > 0 then mid_visit (we_pattern_id env) (resumed + k) before else before) [0..<n]"

section \<open>What a visit records\<close>

definition opt_entry :: "string \<Rightarrow> ('a \<Rightarrow> json) \<Rightarrow> 'a option \<Rightarrow> (string, json) btree \<Rightarrow> (string, json) btree" where
  "opt_entry k f v m = (case v of None \<Rightarrow> m | Some x \<Rightarrow> bt_insert k (f x) m)"

definition hold_detail :: "engine \<Rightarrow> hold option \<Rightarrow> (string, json) btree \<Rightarrow> (string, json) btree" where
  "hold_detail en h m =
     (case h of
        None \<Rightarrow> m
      | Some h \<Rightarrow>
          bt_insert ''held_until'' (JString (en_rfc3339 en (hold_period_end h)))
            (opt_entry ''held_title'' JString (hold_title h) (bt_insert ''held_series'' (JString (hold_series h)) m)))"

definition draw_detail :: "engine \<Rightarrow> pool_runtime \<Rightarrow> dice \<Rightarrow> pattern_step \<Rightarrow> roll_key \<Rightarrow> (string, json) btree" where
  "draw_detail en rt d st roll =
     (let cfg = rt_cfg rt;
          m = bt_insert ''pool'' (JString (p_name cfg)) [];
          m = bt_insert ''source'' (JString (pool_source cfg)) m;
          m = bt_insert ''take'' (JString (describe_draw (resolve_take (ps_take st) roll))) m;
          m = bt_insert ''from'' (JString (describe_take_from (ps_from st))) m;
          m = opt_entry ''expr'' JString (p_expr cfg) m;
          m = bt_insert ''seed'' (JInt (uint (dice_seed d))) m;
          m = bt_insert ''temperature'' (JFloat (dice_temperature d)) m;
          m = opt_entry ''seed_period'' JInt (dice_seed_period d) m;
          m = opt_entry ''temperature_period'' JInt (dice_temperature_period d) m
      in hold_detail en (rt_hold rt) m)"

definition ranked_list :: "pool_runtime \<Rightarrow> frozen_lists \<Rightarrow> string list option" where
  "ranked_list rt frozen =
     Option.bind (rt_list_key rt) (\<lambda>key. map_option fl_ids (frozen_list_for frozen (p_name (rt_cfg rt)) key))"

definition list_place :: "pool_runtime \<Rightarrow> frozen_lists \<Rightarrow> string \<Rightarrow> (nat \<times> nat) option" where
  "list_place rt frozen i =
     (case ranked_list rt frozen of
        Some ids \<Rightarrow> map_option (\<lambda>k. (k, length ids)) (position (\<lambda>x. x = i) ids)
      | None \<Rightarrow>
          if rt_list_key rt \<noteq> None
          then map_option (\<lambda>k. (k, length (rt_series rt))) (position (\<lambda>s. i \<in> set (s_ids s)) (rt_series rt))
          else None)"

definition place_detail :: "pool_runtime \<Rightarrow> frozen_lists \<Rightarrow> string \<Rightarrow> (string, json) btree \<Rightarrow> (string, json) btree" where
  "place_detail rt frozen i m =
     (case list_place rt frozen i of
        None \<Rightarrow> m
      | Some (k, n) \<Rightarrow>
          bt_insert ''list_length'' (JInt (int n)) (bt_insert ''list_position'' (JInt (int (k + 1))) m))"

definition select_record ::
  "engine \<Rightarrow> pool_runtime \<Rightarrow> frozen_lists \<Rightarrow> dice \<Rightarrow> pattern_step \<Rightarrow> roll_key \<Rightarrow> string \<Rightarrow> json" where
  "select_record en rt frozen d st roll i =
     stage_record ''select'' (''pool:'' @ p_name (rt_cfg rt)) (''drawn from pool '' @ debug_str (p_name (rt_cfg rt)))
       (Some (JObject (place_detail rt frozen i (draw_detail en rt d st roll))))"

definition push_at :: "nat \<Rightarrow> json \<Rightarrow> json list list \<Rightarrow> json list list" where
  "push_at at' r audits =
     (let audits = (if length audits \<le> at' then audits @ replicate (at' + 1 - length audits) [] else audits)
      in audits[at' := audits ! at' @ [r]])"

definition note_audits ::
  "engine \<Rightarrow> pool_runtime \<Rightarrow> frozen_lists \<Rightarrow> dice \<Rightarrow> pattern_step \<Rightarrow> roll_key \<Rightarrow> nat \<Rightarrow> string list \<Rightarrow> json list list \<Rightarrow> json list list" where
  "note_audits en rt frozen d st roll base drawn audits =
     fold (\<lambda>(n, i). push_at (base + n) (select_record en rt frozen d st roll i)) (zip [0..<length drawn] drawn) audits"

definition mark_all :: "string list \<Rightarrow> 'a option \<Rightarrow> (string, 'a) btree \<Rightarrow> (string, 'a) btree" where
  "mark_all ids v m = (case v of None \<Rightarrow> m | Some x \<Rightarrow> fold (\<lambda>i. bt_insert i x) ids m)"

definition record_visit ::
  "walk_env \<Rightarrow> nat \<Rightarrow> dice \<Rightarrow> pattern_step \<Rightarrow> roll_key \<Rightarrow> string list \<Rightarrow> walk \<Rightarrow> walk" where
  "record_visit env idx d st roll drawn w =
     (let rt = wk_runtimes w ! idx; cfg = rt_cfg rt in
      w\<lparr>wk_laid := (if we_measure env then wk_laid w + runtime_of rt drawn else wk_laid w),
        wk_guides := mark_all drawn (p_guide cfg) (wk_guides w),
        wk_tracks := mark_all drawn (p_tracks cfg) (wk_tracks w),
        wk_labelled_by := (if p_label cfg \<noteq> None then mark_all drawn (Some idx) (wk_labelled_by w) else wk_labelled_by w),
        wk_audits := note_audits (we_en env) rt (wk_lists w) d st roll (length (wk_out w)) drawn (wk_audits w),
        wk_drawn_by := mark_all drawn (Some idx) (wk_drawn_by w),
        wk_out := wk_out w @ drawn\<rparr>)"

definition draw_visit :: "walk_env \<Rightarrow> nat \<Rightarrow> nat \<Rightarrow> nat \<Rightarrow> dice \<Rightarrow> pattern_step \<Rightarrow> roll_key \<Rightarrow> walk \<Rightarrow> walk result" where
  "draw_visit env idx cycle i d st roll w =
     (let (at_cycle, at_step) = position_before env cycle i;
          resumed = resumed_at env cycle i;
          before = pools_resume (wk_runtimes w) at_cycle at_step resumed (we_pattern_id env)
      in bind_res (visit (ps_take st) (ps_from st) roll resumed (wk_runtimes w ! idx) (wk_channel w)) (\<lambda>(drawn, rt, ch).
         let resumable = (rt_visit_resumable rt \<and> we_stop_at_visit env);
             w = (set_runtime idx rt w)\<lparr>wk_channel := ch,
                    wk_progress := wk_progress w @ visit_progress env resumable resumed before (length drawn)\<rparr>
         in Inr (record_visit env idx d st roll drawn w)))"

definition unknown_pool :: "string \<Rightarrow> string" where
  "unknown_pool name = ''pattern step names unknown pool '' @ debug_str name"

definition walk_step :: "walk_env \<Rightarrow> nat \<Rightarrow> nat \<Rightarrow> pattern_step \<Rightarrow> walk \<Rightarrow> walk result" where
  "walk_step env cycle i st w =
     bind_res (ok_or (unknown_pool (ps_pool st)) (we_by_name env (ps_pool st))) (\<lambda>idx.
     let d = step_dice env idx w; roll = roll_of d cycle i in
     bind_res (roll_over env idx d w) (\<lambda>w'.
     let w' = set_period env idx (airs_at env w) w'
     in if skips st roll then Inr w'
        else bind_res (refill_drained env idx d w') (draw_visit env idx cycle i d st roll)))"

section \<open>The walk\<close>

definition budget_spent :: "walk_env \<Rightarrow> nat \<Rightarrow> walk \<Rightarrow> bool" where
  "budget_spent env i w \<longleftrightarrow>
     (i = 0 \<or> we_stop_at_visit env) \<and> (case we_budget env of Some fill \<Rightarrow> wk_laid w \<ge> fill | None \<Rightarrow> False)"

fun walk_steps :: "walk_env \<Rightarrow> nat \<Rightarrow> (nat \<times> pattern_step) list \<Rightarrow> walk \<Rightarrow> (bool \<times> walk) result" where
  "walk_steps env cycle [] w = Inr (False, w)"
| "walk_steps env cycle ((i, st) # steps) w =
     (let w = w\<lparr>wk_stopped := (cycle, i)\<rparr> in
      if budget_spent env i w then Inr (True, w)
      else bind_res (walk_step env cycle i st w) (walk_steps env cycle steps))"

definition steps_of_cycle :: "walk_env \<Rightarrow> nat \<Rightarrow> (nat \<times> pattern_step) list" where
  "steps_of_cycle env cycle =
     (let (first_cycle, first_step, _) = we_first env;
          skip = (if cycle = first_cycle then first_step else 0)
      in drop skip (List.enumerate 0 (we_pattern env)))"

fun walk_cycles :: "walk_env \<Rightarrow> nat list \<Rightarrow> walk \<Rightarrow> walk result" where
  "walk_cycles env [] w = Inr w"
| "walk_cycles env (cycle # cycles) w =
     bind_res (walk_steps env cycle (steps_of_cycle env cycle) w) (\<lambda>(stopped, w).
       if stopped then Inr w else walk_cycles env cycles (w\<lparr>wk_stopped := (cycle + 1, 0)\<rparr>))"

section \<open>How many cycles\<close>

fun take_per_cycle :: "take_spec \<Rightarrow> nat" where
  "take_per_cycle (Count n) = n"
| "take_per_cycle (Range lo hi) = lo"
| "take_per_cycle All = 0"

definition per_cycle :: "pattern_step list \<Rightarrow> (string \<Rightarrow> nat option) \<Rightarrow> nat \<Rightarrow> nat" where
  "per_cycle pattern by_name i = sum_list (map (\<lambda>st. if by_name (ps_pool st) = Some i then take_per_cycle (ps_take st) else 0) pattern)"

definition all_steps :: "pattern_step list \<Rightarrow> (string \<Rightarrow> nat option) \<Rightarrow> nat \<Rightarrow> nat" where
  "all_steps pattern by_name i = length (filter (\<lambda>st. by_name (ps_pool st) = Some i \<and> ps_take st = All) pattern)"

definition wanted_items :: "pool_runtime \<Rightarrow> nat" where
  "wanted_items rt =
     (let remaining = sum_list (map series_remaining (rt_series rt))
      in if remaining > 0 then remaining else total_ids rt)"

definition derive_cycles :: "pool_runtime list \<Rightarrow> pattern_step list \<Rightarrow> (string \<Rightarrow> nat option) \<Rightarrow> nat" where
  "derive_cycles rts pattern by_name =
     fold (\<lambda>(i, rt) cycles.
        let cycles = (if per_cycle pattern by_name i > 0
                      then max cycles (div_ceil (wanted_items rt) (per_cycle pattern by_name i)) else cycles)
        in if all_steps pattern by_name i > 0
           then max cycles (div_ceil (length (rt_series rt)) (all_steps pattern by_name i)) else cycles)
       (List.enumerate 0 rts) 0"

section \<open>Building a block\<close>

text \<open>Collecting names into a \<open>HashMap\<close>: the last runtime of a name wins.\<close>

definition index_names :: "pool list \<Rightarrow> string \<Rightarrow> nat option" where
  "index_names pools = map_of (rev (zip (map p_name pools) [0..<length pools]))"

definition resuming_records :: "pool list \<Rightarrow> generation_state \<Rightarrow> pool_resume list" where
  "resuming_records pools state =
     List.map_filter (\<lambda>p. resume_pool (gs_resume state) (p_name p)) (filter (\<lambda>p. p_advance p = ResumeAdvance) pools)"

definition stops_at_visit :: "pool list \<Rightarrow> bool" where
  "stops_at_visit pools = list_all (\<lambda>p. p_advance p = ResumeAdvance) pools"

definition first_cycle_of :: "pool_resume list \<Rightarrow> nat" where
  "first_cycle_of rs = fold max (map pr_cycle rs) 0"

definition first_step_of :: "pool_resume list \<Rightarrow> string \<Rightarrow> nat" where
  "first_step_of rs pid =
     fold max (map pr_step (filter (\<lambda>r. pr_cycle r = first_cycle_of rs \<and> pr_pattern r = Some pid) rs)) 0"

definition first_done_of :: "pool_resume list \<Rightarrow> string \<Rightarrow> nat" where
  "first_done_of rs pid =
     fold max (map pr_done (filter (\<lambda>r. pr_cycle r = first_cycle_of rs \<and> pr_step r = first_step_of rs pid \<and>
                                        pr_pattern r = Some pid) rs)) 0"

text \<open>Where the walk opens: cycle, step and how far into that step's visit.\<close>

definition opening_position :: "pool list \<Rightarrow> generation_state \<Rightarrow> string \<Rightarrow> nat \<times> nat \<times> nat" where
  "opening_position pools state pid =
     (let rs = resuming_records pools state
      in if stops_at_visit pools then (first_cycle_of rs, first_step_of rs pid, first_done_of rs pid)
         else (first_cycle_of rs, 0, 0))"

record block_build =
  bb_ids :: "string list"
  bb_resume :: "(string, pool_resume) btree"
  bb_progress :: "(string, pool_resume) btree list"
  bb_metadata :: "(string, json) btree"
  bb_audits :: "json list list"
  bb_guides :: "(string, json) btree"
  bb_tracks :: "(string, json) btree"
  bb_lists :: frozen_lists

fun open_runtimes ::
  "engine \<Rightarrow> catalog \<Rightarrow> constraints option \<Rightarrow> generation_state \<Rightarrow> bool \<Rightarrow> score_cache \<Rightarrow> (pool \<times> dice) list \<Rightarrow> string list list \<Rightarrow>
     pool_runtime list result" where
  "open_runtimes en cat block state measured cache ((cfg, d) # pds) (ids # idss) =
     bind_res (open_runtime en cat cfg ids block state (resume_pool (gs_resume state) (p_name cfg)) d measured cache) (\<lambda>rt.
     bind_res (open_runtimes en cat block state measured cache pds idss) (\<lambda>rts. Inr (rt # rts)))"
| "open_runtimes en cat block state measured cache _ _ = Inr []"

definition cycles_exceed :: "nat \<Rightarrow> string" where
  "cycles_exceed n = ''cycles = '' @ dec n @ '' exceeds the maximum of '' @ dec max_cycles"

definition cycle_count :: "nat option \<Rightarrow> pool_runtime list \<Rightarrow> pattern_step list \<Rightarrow> (string \<Rightarrow> nat option) \<Rightarrow> nat result" where
  "cycle_count cycles rts pattern by_name =
     (case cycles of
        Some n \<Rightarrow> if n > max_cycles then Inl (cycles_exceed n) else Inr n
      | None \<Rightarrow> Inr (derive_cycles rts pattern by_name))"

definition stamp_pool_display :: "(string, json) btree \<Rightarrow> string \<Rightarrow> pool \<Rightarrow> (string, json) btree" where
  "stamp_pool_display metadata i cfg =
     (let rest = filter (\<lambda>(k, _). k \<noteq> i) metadata
      in case stamp_display cfg (bt_get metadata i) of Some blob \<Rightarrow> bt_insert i blob rest | None \<Rightarrow> rest)"

definition drawn_metadata :: "walk_env \<Rightarrow> walk \<Rightarrow> (string, json) btree" where
  "drawn_metadata env w =
     List.map_filter (\<lambda>(i, idx). map_option (\<lambda>m. (i, m))
        (Option.bind (sc_extras (wk_cache w) (p_name (we_pools env ! idx), i)) pe_metadata)) (wk_drawn_by w)"

definition finish_build :: "walk_env \<Rightarrow> walk \<Rightarrow> block_build" where
  "finish_build env w =
     (let resume = pools_resume (wk_runtimes w) (fst (wk_stopped w)) (snd (wk_stopped w)) 0 (we_pattern_id env)
      in \<lparr>bb_ids = wk_out w, bb_resume = resume, bb_progress = wk_progress w @ [resume],
          bb_metadata = fold (\<lambda>(i, idx) m. stamp_pool_display m i (rt_cfg (wk_runtimes w ! idx))) (wk_labelled_by w) (drawn_metadata env w),
          bb_audits = take (length (wk_out w)) (wk_audits w) @ replicate (length (wk_out w) - length (wk_audits w)) [],
          bb_guides = wk_guides w, bb_tracks = wk_tracks w,
          bb_lists = filter (\<lambda>(name, _). name \<in> p_name ` set (we_pools env)) (wk_lists w)\<rparr>)"

definition opening_walk :: "walk_env \<Rightarrow> pool_runtime list \<Rightarrow> channel_history \<Rightarrow> score_cache \<Rightarrow> frozen_lists \<Rightarrow> walk" where
  "opening_walk env rts ch cache frozen =
     \<lparr>wk_out = [], wk_progress = [], wk_guides = [], wk_tracks = [], wk_audits = [], wk_drawn_by = [], wk_labelled_by = [],
      wk_laid = 0, wk_runtimes = rts, wk_channel = ch, wk_cache = cache, wk_lists = frozen,
      wk_stopped = (fst (we_first env), fst (snd (we_first env)))\<rparr>"

definition opening_dice :: "variety \<Rightarrow> instant \<Rightarrow> pool list \<Rightarrow> dice list" where
  "opening_dice v start pools = map (\<lambda>p. dice_at v start (Some p)) pools"

definition block_env ::
  "engine \<Rightarrow> catalog \<Rightarrow> pool list \<Rightarrow> show_group list \<Rightarrow> pattern_step list \<Rightarrow> nat option \<Rightarrow> constraints option \<Rightarrow> generation_state \<Rightarrow>
     variety \<Rightarrow> instant \<Rightarrow> score_inputs \<Rightarrow> duration option \<Rightarrow> walk_env" where
  "block_env en cat pools groups pattern cycles block state v start inputs fill =
     (let budget = (if cycles = None then fill else None);
          rotating = (list_ex dice_rotates (opening_dice v start pools) \<or> list_ex (\<lambda>p. rotate_span (p_rotate p) \<noteq> None) pools);
          pid = en_pattern_id en pattern
      in \<lparr>we_en = en, we_cat = cat, we_pools = pools, we_groups = groups, we_pattern = pattern, we_block = block,
          we_state = state, we_variety = v, we_start = start, we_inputs = inputs, we_budget = budget,
          we_measure = (budget \<noteq> None \<or> rotating), we_by_name = index_names pools,
          we_stop_at_visit = stops_at_visit pools, we_first = opening_position pools state pid, we_pattern_id = pid\<rparr>)"

definition build_with_cache ::
  "engine \<Rightarrow> catalog \<Rightarrow> pool list \<Rightarrow> show_group list \<Rightarrow> pattern_step list \<Rightarrow> nat option \<Rightarrow> constraints option \<Rightarrow> generation_state \<Rightarrow>
     variety \<Rightarrow> instant \<Rightarrow> score_inputs \<Rightarrow> duration option \<Rightarrow> channel_rule option \<Rightarrow> score_cache \<Rightarrow> (block_build \<times> score_cache) result" where
  "build_with_cache en cat pools groups pattern cycles block state v start inputs fill rule cache =
     (let env = block_env en cat pools groups pattern cycles block state v start inputs fill;
          (first_cycle, first_step, _) = we_first env;
          pds = zip pools (opening_dice v start pools)
      in bind_res (resolve_pool_sources en cat groups inputs pds (cache\<lparr>sc_extras := Map.empty\<rparr>) (rm_lists (gs_resume state)))
           (\<lambda>(idss, cache, frozen).
         bind_res (open_runtimes en cat block state (we_measure env) cache pds idss) (\<lambda>rts.
         bind_res (cycle_count cycles rts pattern (we_by_name env)) (\<lambda>n.
         let n = (if cycles = None \<and> first_step > 0 then n + 1 else n)
         in bind_res (walk_cycles env [first_cycle..<first_cycle + n] (opening_walk env rts (channel_history_new cat rule) cache frozen))
              (\<lambda>w. Inr (finish_build env w, wk_cache w))))))"

definition build ::
  "engine \<Rightarrow> catalog \<Rightarrow> pool list \<Rightarrow> show_group list \<Rightarrow> pattern_step list \<Rightarrow> nat option \<Rightarrow> constraints option \<Rightarrow> generation_state \<Rightarrow>
     variety \<Rightarrow> instant \<Rightarrow> score_inputs \<Rightarrow> duration option \<Rightarrow> channel_rule option \<Rightarrow> block_build result" where
  "build en cat pools groups pattern cycles block state v start inputs fill rule =
     bind_res (build_with_cache en cat pools groups pattern cycles block state v start inputs fill rule score_cache_new)
       (\<lambda>(b, _). Inr b)"

end
