(* ===== verification/PatternWalkFacts.thy ===== *)
theory PatternWalkFacts
  imports PatternWalk "HOL-Library.Product_Lexorder"
begin

text \<open>
  What the pool walk of PatternWalk guarantees. The walk is first shown to be a run of a small
  step relation (one visit, or the turn to the next cycle); what every run keeps is then proved
  by induction on it: well-formed runtimes, one recorded state and one audit record per drawn
  item, and positions that never go back.
\<close>

section \<open>The walk as a run of steps\<close>

type_synonym walk_at = "nat \<times> nat \<times> walk"

inductive walk_move :: "walk_env \<Rightarrow> walk_at \<Rightarrow> walk_at \<Rightarrow> bool" for env where
  visit_move: "i < length (we_pattern env) \<Longrightarrow> \<not> budget_spent env i w \<Longrightarrow>
     walk_step env c i (we_pattern env ! i) (w\<lparr>wk_stopped := (c, i)\<rparr>) = Inr w' \<Longrightarrow> walk_move env (c, i, w) (c, i + 1, w')"
| cycle_move: "length (we_pattern env) \<le> i \<Longrightarrow> walk_move env (c, i, w) (c + 1, 0, w\<lparr>wk_stopped := (c + 1, 0)\<rparr>)"

inductive_cases walk_moveE: "walk_move env (c, i, w) at'"

abbreviation walk_run :: "walk_env \<Rightarrow> walk_at \<Rightarrow> walk_at \<Rightarrow> bool" where
  "walk_run env \<equiv> (walk_move env)\<^sup>*\<^sup>*"

lemma budget_spent_stopped [simp]: "budget_spent env i (w\<lparr>wk_stopped := p\<rparr>) = budget_spent env i w"
  by (simp add: budget_spent_def split: option.splits)

lemma walk_steps_run:
  "walk_steps env c (drop i (List.enumerate 0 (we_pattern env))) w = Inr (stopped, w') \<Longrightarrow>
     \<exists>i' u. walk_run env (c, i, w) (c, i', u) \<and>
       (if stopped then budget_spent env i' u \<and> w' = u\<lparr>wk_stopped := (c, i')\<rparr>
        else w' = u \<and> length (we_pattern env) \<le> i')"
proof (induction "length (we_pattern env) - i" arbitrary: i w)
  case 0
  then have "w' = w \<and> \<not> stopped" by simp
  then show ?case using 0 by auto
next
  case (Suc n)
  then have i: "i < length (we_pattern env)" by simp
  then have "drop i (List.enumerate 0 (we_pattern env)) = (i, we_pattern env ! i) # drop (i + 1) (List.enumerate 0 (we_pattern env))"
    by (metis Cons_nth_drop_Suc Suc_eq_plus1 add_0 length_enumerate nth_enumerate_eq)
  then have run: "walk_steps env c ((i, we_pattern env ! i) # drop (i + 1) (List.enumerate 0 (we_pattern env))) w = Inr (stopped, w')"
    using Suc.prems by simp
  show ?case
  proof (cases "budget_spent env i w")
    case True
    then have "stopped \<and> w' = w\<lparr>wk_stopped := (c, i)\<rparr>" using run by (simp add: Let_def)
    then show ?thesis using True by auto
  next
    case False
    then obtain v where v: "walk_step env c i (we_pattern env ! i) (w\<lparr>wk_stopped := (c, i)\<rparr>) = Inr v"
      and rest: "walk_steps env c (drop (i + 1) (List.enumerate 0 (we_pattern env))) v = Inr (stopped, w')"
      using run by (auto simp: Let_def bind_res_Inr_iff)
    have move: "walk_move env (c, i, w) (c, i + 1, v)" using i False v by (rule visit_move)
    have "n = length (we_pattern env) - (i + 1)" using Suc.hyps(2) by simp
    from Suc.hyps(1) [OF this rest] move show ?thesis by (meson converse_rtranclp_into_rtranclp)
  qed
qed

definition opening_step :: "walk_env \<Rightarrow> nat \<Rightarrow> nat" where
  "opening_step env c = (if c = fst (we_first env) then fst (snd (we_first env)) else 0)"

lemma walk_cycles_run:
  "walk_cycles env [c..<c + n] w = Inr w' \<Longrightarrow> fst (we_first env) \<le> c \<Longrightarrow>
     \<exists>c' i' u. walk_run env (c, opening_step env c, w) (c', i', u) \<and>
       (budget_spent env i' u \<and> w' = u\<lparr>wk_stopped := (c', i')\<rparr> \<or>
        w' = u \<and> c' = c + n \<and> i' = opening_step env c' \<and> (n > 0 \<longrightarrow> i' = 0 \<and> wk_stopped w' = (c', 0)))"
proof (induction n arbitrary: c w)
  case 0
  then show ?case by auto
next
  case (Suc n)
  have steps: "steps_of_cycle env c = drop (opening_step env c) (List.enumerate 0 (we_pattern env))"
    by (simp add: steps_of_cycle_def opening_step_def Let_def split: prod.splits)
  have "[c..<c + Suc n] = c # [c + 1..<(c + 1) + n]" using upt_conv_Cons [of c "c + Suc n"] by (simp del: upt_Suc)
  then have "walk_cycles env (c # [c + 1..<(c + 1) + n]) w = Inr w'" using Suc.prems(1) by (simp only:)
  then obtain stopped v where first: "walk_steps env c (drop (opening_step env c) (List.enumerate 0 (we_pattern env))) w = Inr (stopped, v)"
    and rest: "(if stopped then Inr v else walk_cycles env [c + 1..<(c + 1) + n] (v\<lparr>wk_stopped := (c + 1, 0)\<rparr>)) = Inr w'"
    unfolding walk_cycles.simps(2) steps by (elim bind_res_InrE) (simp split: prod.splits)
  from walk_steps_run [OF first] obtain i u where run: "walk_run env (c, opening_step env c, w) (c, i, u)"
    and out: "if stopped then budget_spent env i u \<and> v = u\<lparr>wk_stopped := (c, i)\<rparr> else v = u \<and> length (we_pattern env) \<le> i"
    by auto
  show ?case
  proof (cases stopped)
    case True
    then show ?thesis using run out rest by auto
  next
    case False
    have later: "opening_step env (c + 1) = 0" "c + 1 \<noteq> fst (we_first env)" using Suc.prems(2) by (simp_all add: opening_step_def)
    have "v = u" using out False by simp
    have "walk_move env (c, i, u) (c + 1, 0, u\<lparr>wk_stopped := (c + 1, 0)\<rparr>)" using cycle_move [of env i c u] out False by simp
    from rtranclp.rtrancl_into_rtrancl [OF run this]
    have run': "walk_run env (c, opening_step env c, w) (c + 1, 0, v\<lparr>wk_stopped := (c + 1, 0)\<rparr>)" by (simp only: \<open>v = u\<close>)
    have walk: "walk_cycles env [c + 1..<(c + 1) + n] (v\<lparr>wk_stopped := (c + 1, 0)\<rparr>) = Inr w'" using rest False by simp
    show ?thesis
    proof (cases n)
      case 0
      then show ?thesis using walk run' later by (intro exI [of _ "c + 1"] exI [of _ 0] exI [of _ w']) auto
    next
      case (Suc k)
      have "fst (we_first env) \<le> c + 1" using Suc.prems(2) by simp
      with Suc.IH [OF walk] obtain c' i' u' where
        run2: "walk_run env (c + 1, opening_step env (c + 1), v\<lparr>wk_stopped := (c + 1, 0)\<rparr>) (c', i', u')"
        and out2: "budget_spent env i' u' \<and> w' = u'\<lparr>wk_stopped := (c', i')\<rparr> \<or>
          w' = u' \<and> c' = c + 1 + n \<and> i' = opening_step env c' \<and> (n > 0 \<longrightarrow> i' = 0 \<and> wk_stopped w' = (c', 0))"
        by auto
      have "walk_run env (c, opening_step env c, w) (c', i', u')"
        using run' run2 later(1) by (simp del: One_nat_def)
      then show ?thesis using out2 Suc by (intro exI [of _ c'] exI [of _ i'] exI [of _ u']) auto
    qed
  qed
qed

section \<open>Well-formed runtimes\<close>

definition env_ok :: "walk_env \<Rightarrow> bool" where
  "env_ok env \<longleftrightarrow> (\<forall>name idx. we_by_name env name = Some idx \<longrightarrow> idx < length (we_pools env))"

definition walk_ok :: "walk_env \<Rightarrow> walk \<Rightarrow> bool" where
  "walk_ok env w \<longleftrightarrow> length (wk_runtimes w) = length (we_pools env) \<and>
     (\<forall>k < length (we_pools env). rt_cfg (wk_runtimes w ! k) = we_pools env ! k \<and> pool_ok (wk_runtimes w ! k))"

lemma walk_ok_runtimes: "wk_runtimes w' = wk_runtimes w \<Longrightarrow> walk_ok env w' = walk_ok env w"
  by (simp add: walk_ok_def)

lemma walk_okD:
  "walk_ok env w \<Longrightarrow> idx < length (we_pools env) \<Longrightarrow> rt_cfg (wk_runtimes w ! idx) = we_pools env ! idx"
  "walk_ok env w \<Longrightarrow> idx < length (we_pools env) \<Longrightarrow> pool_ok (wk_runtimes w ! idx)"
  by (simp_all add: walk_ok_def)

lemma set_runtime_ok:
  "walk_ok env w \<Longrightarrow> idx < length (we_pools env) \<Longrightarrow> rt_cfg rt = we_pools env ! idx \<Longrightarrow> pool_ok rt \<Longrightarrow>
     walk_ok env (set_runtime idx rt w)"
  by (auto simp: walk_ok_def set_runtime_def nth_list_update)

lemma carry_into_ok:
  assumes "pool_ok fresh"
  shows "rt_cfg (carry_into old fresh) = rt_cfg fresh \<and> pool_ok (carry_into old fresh)"
proof -
  have "series_ok (carry_series ss s)" if "series_ok s" for ss s
    using that by (auto simp: carry_series_def series_ok_def Let_def split: option.splits)
  then show ?thesis using assms by (auto simp: carry_into_def pool_ok_def list_all_iff Let_def)
qed

lemma rollover_ok:
  "rollover en cat groups block state inputs d measured aired cfg rt cache frozen = Inr (rt', cache', frozen') \<Longrightarrow>
     rt_cfg rt' = cfg \<and> pool_ok rt'"
  using carry_into_ok open_runtime_facts
  by (fastforce simp: rollover_def bind_res_Inr_iff split: prod.splits)

lemma pool_ok_append: "pool_ok rt \<Longrightarrow> rt_series rt' = rt_series rt @ ss \<Longrightarrow> list_all series_ok ss \<Longrightarrow> pool_ok rt'"
  by (simp add: pool_ok_def)

lemma refill_ok:
  assumes "refill_pool en cat inputs block state d want cfg rt cache frozen = Inr (added, rt', cache', frozen')" and "pool_ok rt"
  shows "rt_cfg rt' = rt_cfg rt \<and> pool_ok rt'"
  using assms(1)
proof (cases rule: refill_cases)
  case (3 picked ps fresh)
  note ext = extend_with_spec [OF 3(5)]
  obtain key L where cut: "cut_by key L (psr_series ps)" using pool_series_cut [OF 3(4)] by metis
  have "list_all series_ok (filter (\<lambda>s. s_key s \<notin> s_key ` set (rt_series rt)) (psr_series ps))"
    using cut_by_nonempty [OF cut] cut by (auto simp: list_all_iff series_ok_def cut_by_def)
  then show ?thesis using ext assms(2) pool_ok_append by auto
qed (use assms(2) in \<open>auto simp: pool_ok_def\<close>)

section \<open>One step, taken apart\<close>

text \<open>What choosing, rolling over and refilling leave alone.\<close>

definition same_record :: "walk \<Rightarrow> walk \<Rightarrow> bool" where
  "same_record w w' \<longleftrightarrow> wk_out w' = wk_out w \<and> wk_progress w' = wk_progress w \<and> wk_audits w' = wk_audits w \<and>
     wk_laid w' = wk_laid w \<and> wk_stopped w' = wk_stopped w"

lemma same_record_trans: "same_record u v \<Longrightarrow> same_record v w \<Longrightarrow> same_record u w"
  by (simp add: same_record_def)

lemma set_runtime_record [simp]: "same_record w (set_runtime idx rt w)"
  "same_record w ((set_runtime idx rt w)\<lparr>wk_cache := cache, wk_lists := frozen\<rparr>)"
  by (simp_all add: same_record_def set_runtime_def)

lemma roll_over_keeps:
  assumes "roll_over env idx d w = Inr w'" and "walk_ok env w" and "idx < length (we_pools env)"
  shows "same_record w w' \<and> walk_ok env w'"
proof (cases "dice_key (we_en env) d (we_pools env ! idx) = rt_list_key (wk_runtimes w ! idx)")
  case True
  then show ?thesis using assms by (simp add: roll_over_def Let_def same_record_def)
next
  case False
  then obtain rt cache frozen where r: "rollover (we_en env) (we_cat env) (we_groups env) (we_block env) (we_state env) (we_inputs env) d
      (we_measure env) (wk_out w) (we_pools env ! idx) (wk_runtimes w ! idx) (wk_cache w) (wk_lists w) = Inr (rt, cache, frozen)"
    and w': "w' = (set_runtime idx rt w)\<lparr>wk_cache := cache, wk_lists := frozen\<rparr>"
    using assms(1) by (auto simp: roll_over_def Let_def bind_res_Inr_iff)
  have "walk_ok env (set_runtime idx rt w)" using set_runtime_ok assms(2,3) rollover_ok [OF r] by simp
  then show ?thesis using walk_ok_runtimes [of w' "set_runtime idx rt w" env] by (simp add: w')
qed

lemma set_period_keeps:
  assumes "walk_ok env w" and "idx < length (we_pools env)"
  shows "same_record w (set_period env idx t w) \<and> walk_ok env (set_period env idx t w)"
  using set_runtime_ok [OF assms] walk_okD [OF assms] by (simp add: set_period_def pool_ok_def)

lemma refill_drained_keeps:
  assumes "refill_drained env idx d w = Inr w'" and "walk_ok env w" and "idx < length (we_pools env)"
  shows "same_record w w' \<and> walk_ok env w'"
proof (cases "is_drained (wk_runtimes w ! idx) \<and> \<not> rt_exhausted (wk_runtimes w ! idx)")
  case False
  then show ?thesis using assms by (auto simp: refill_drained_def Let_def same_record_def)
next
  case True
  then obtain added rt cache frozen where r: "refill_pool (we_en env) (we_cat env) (we_inputs env) (we_block env) (we_state env) d
      (we_measure env) (we_pools env ! idx) (wk_runtimes w ! idx) (wk_cache w) (wk_lists w) = Inr (added, rt, cache, frozen)"
    and w': "w' = (set_runtime idx (if added = 0 then rt\<lparr>rt_exhausted := True\<rparr> else rt) w)\<lparr>wk_cache := cache, wk_lists := frozen\<rparr>"
    using assms(1) by (auto simp: refill_drained_def Let_def bind_res_Inr_iff)
  have "walk_ok env (set_runtime idx (if added = 0 then rt\<lparr>rt_exhausted := True\<rparr> else rt) w)"
    using set_runtime_ok [OF assms(2,3)] refill_ok [OF r] walk_okD [OF assms(2,3)] by (simp add: pool_ok_def)
  then show ?thesis using walk_ok_runtimes [of w' _ env] by (simp add: w')
qed

lemma walk_step_cases:
  assumes "walk_step env c i st w = Inr w'" and "walk_ok env w" and "env_ok env"
  obtains d where "same_record w w'" "walk_ok env w'" "skips st (roll_of d c i)"
  | idx d v where "idx < length (we_pools env)" "same_record w v" "walk_ok env v"
      "draw_visit env idx c i d st (roll_of d c i) v = Inr w'" "we_by_name env (ps_pool st) = Some idx"
proof -
  obtain idx where idx: "we_by_name env (ps_pool st) = Some idx"
    using assms(1) by (cases "we_by_name env (ps_pool st)") (simp_all add: walk_step_def ok_or_def)
  then have lt: "idx < length (we_pools env)" using assms(3) by (simp add: env_ok_def)
  define d where "d = step_dice env idx w"
  define t where "t = airs_at env w"
  obtain u where u: "roll_over env idx d w = Inr u"
    and rest: "(if skips st (roll_of d c i) then Inr (set_period env idx t u)
       else bind_res (refill_drained env idx d (set_period env idx t u)) (draw_visit env idx c i d st (roll_of d c i))) = Inr w'"
    using assms(1) idx unfolding d_def t_def by (auto simp: walk_step_def ok_or_def Let_def bind_res_Inr_iff)
  note roll = roll_over_keeps [OF u assms(2) lt]
  note per = set_period_keeps [OF conjunct2 [OF roll] lt, of t]
  have rec: "same_record w (set_period env idx t u)" using same_record_trans roll per by blast
  show thesis
  proof (cases "skips st (roll_of d c i)")
    case True
    then show thesis using that(1) [OF _ _ True] rest rec per by simp
  next
    case False
    then obtain v where v: "refill_drained env idx d (set_period env idx t u) = Inr v"
      and drawn: "draw_visit env idx c i d st (roll_of d c i) v = Inr w'"
      using rest by (auto simp: bind_res_Inr_iff)
    note ref = refill_drained_keeps [OF v conjunct2 [OF per] lt]
    show thesis using that(2) [OF lt _ _ drawn idx] ref rec same_record_trans by blast
  qed
qed

section \<open>What a visit adds\<close>

lemma push_at_end: "push_at (length audits) r audits = audits @ [[r]]"
  by (simp add: push_at_def Let_def list_update_append)

lemma note_audits_end:
  "length audits = base \<Longrightarrow>
     note_audits en rt frozen d st roll base drawn audits = audits @ map (\<lambda>i. [select_record en rt frozen d st roll i]) drawn"
proof -
  have "length audits = base + k \<Longrightarrow>
      fold (\<lambda>(n, i). push_at (base + n) (f i)) (zip [k..<k + length xs] xs) audits = audits @ map (\<lambda>i. [f i]) xs"
    for f :: "string \<Rightarrow> json" and k xs audits
  proof (induction xs arbitrary: k audits)
    case Nil
    then show ?case by simp
  next
    case (Cons x xs)
    have "[k..<k + length (x # xs)] = k # [k + 1..<(k + 1) + length xs]"
      using upt_conv_Cons [of k "k + length (x # xs)"] by (simp del: upt_Suc)
    then show ?case
      using Cons.IH [of "audits @ [[f x]]" "k + 1"] Cons.prems push_at_end [of audits "f x"] by (simp del: upt_Suc)
  qed
  from this [of audits 0 _ drawn] show "length audits = base \<Longrightarrow> ?thesis" by (simp add: note_audits_def)
qed

lemma outline_cfg: "outline rt' = outline rt \<Longrightarrow> rt_cfg rt' = rt_cfg rt"
  by (simp add: outline_def)

lemma draw_visit_InrE:
  assumes "draw_visit env idx c i d st roll v = Inr w'" and "walk_ok env v" and "idx < length (we_pools env)"
    and "length (wk_audits v) = length (wk_out v)"
  obtains drawn rt ch where
    "wk_out w' = wk_out v @ drawn" "walk_ok env w'" "wk_stopped w' = wk_stopped v"
    "wk_progress w' = wk_progress v @ visit_progress env (rt_visit_resumable rt \<and> we_stop_at_visit env) (resumed_at env c i)
       (pools_resume (wk_runtimes v) (fst (position_before env c i)) (snd (position_before env c i)) (resumed_at env c i) (we_pattern_id env))
       (length drawn)"
    "wk_audits w' = wk_audits v @ map (\<lambda>x. [select_record (we_en env) rt (wk_lists v) d st roll x]) drawn"
    "wk_laid w' = (if we_measure env then wk_laid v + runtime_of rt drawn else wk_laid v)"
    "rt_cfg rt = we_pools env ! idx" "set drawn \<subseteq> set (pool_ids (wk_runtimes v ! idx))"
    "visit (ps_take st) (ps_from st) roll (resumed_at env c i) (wk_runtimes v ! idx) (wk_channel v) = Inr (drawn, rt, ch)"
proof -
  obtain drawn rt ch where vis: "visit (ps_take st) (ps_from st) roll (resumed_at env c i) (wk_runtimes v ! idx) (wk_channel v) =
      Inr (drawn, rt, ch)"
    and w': "w' = record_visit env idx d st roll drawn ((set_runtime idx rt v)\<lparr>wk_channel := ch,
        wk_progress := wk_progress v @ visit_progress env (rt_visit_resumable rt \<and> we_stop_at_visit env) (resumed_at env c i)
          (pools_resume (wk_runtimes v) (fst (position_before env c i)) (snd (position_before env c i)) (resumed_at env c i) (we_pattern_id env))
          (length drawn)\<rparr>)"
    using assms(1) by (auto simp: draw_visit_def Let_def bind_res_Inr_iff split: prod.splits)
  note old = walk_okD [OF assms(2,3)]
  note keeps = visit_keeps [OF vis old(2)]
  have cfg: "rt_cfg rt = we_pools env ! idx" using keeps outline_cfg old(1) by metis
  have len: "idx < length (wk_runtimes v)" using assms(2,3) by (simp add: walk_ok_def)
  have ok: "walk_ok env (set_runtime idx rt v)" using set_runtime_ok [OF assms(2,3) cfg] keeps by simp
  have "walk_ok env w'" using ok walk_ok_runtimes [of w' "set_runtime idx rt v" env]
    by (simp add: w' record_visit_def Let_def set_runtime_def)
  moreover have "(wk_runtimes (set_runtime idx rt v)) ! idx = rt" using len by (simp add: set_runtime_def)
  ultimately show thesis
    using that [of drawn rt ch] vis keeps cfg assms(4) note_audits_end [of "wk_audits v" "length (wk_out v)"]
    by (simp add: w' record_visit_def Let_def set_runtime_def len)
qed

lemma visit_progress_length [simp]: "length (visit_progress env r k before n) = n"
  by (simp add: visit_progress_def)

section \<open>One recorded state and one record per item\<close>

definition recorded :: "walk \<Rightarrow> bool" where
  "recorded w \<longleftrightarrow> length (wk_progress w) = length (wk_out w) \<and> length (wk_audits w) = length (wk_out w) \<and>
     (\<forall>a\<in>set (wk_audits w). length a = 1)"

lemma same_record_recorded: "same_record w w' \<Longrightarrow> recorded w' = recorded w"
  by (simp add: same_record_def recorded_def)

lemma walk_step_recorded:
  assumes "walk_step env c i st w = Inr w'" and "walk_ok env w" and "env_ok env" and "recorded w"
  shows "walk_ok env w' \<and> recorded w'"
  using assms(1-3)
proof (cases rule: walk_step_cases)
  case 1
  then show ?thesis using same_record_recorded assms(4) by blast
next
  case (2 idx d v)
  have rec: "recorded v" using same_record_recorded 2(2) assms(4) by blast
  then have "length (wk_audits v) = length (wk_out v)" by (simp add: recorded_def)
  note len = this
  show ?thesis
  proof (rule draw_visit_InrE [OF 2(4,3,1) len])
    fix drawn rt
    assume out: "wk_out w' = wk_out v @ drawn" "walk_ok env w'"
      and progress: "wk_progress w' = wk_progress v @ visit_progress env (rt_visit_resumable rt \<and> we_stop_at_visit env) (resumed_at env c i)
        (pools_resume (wk_runtimes v) (fst (position_before env c i)) (snd (position_before env c i)) (resumed_at env c i) (we_pattern_id env))
        (length drawn)"
      and audits: "wk_audits w' = wk_audits v @ map (\<lambda>x. [select_record (we_en env) rt (wk_lists v) d st (roll_of d c i) x]) drawn"
    have "\<forall>a\<in>set (wk_audits w'). length a = 1" using rec by (auto simp: audits recorded_def)
    then show ?thesis using out progress audits rec by (simp add: recorded_def)
  qed
qed

lemma walk_run_recorded:
  assumes "walk_run env at0 at1" and "env_ok env" and "walk_ok env (snd (snd at0)) \<and> recorded (snd (snd at0))"
  shows "walk_ok env (snd (snd at1)) \<and> recorded (snd (snd at1))"
  using assms(1,3)
proof (induction rule: rtranclp_induct)
  case base
  then show ?case by simp
next
  case (step at1 at2)
  have irrelevant: "walk_ok env (w\<lparr>wk_stopped := p\<rparr>) = walk_ok env w" "recorded (w\<lparr>wk_stopped := p\<rparr>) = recorded w" for w p
    by (simp_all add: walk_ok_def recorded_def)
  show ?case using step.hyps(2) step.IH [OF step.prems]
    by (cases rule: walk_move.cases) (use walk_step_recorded [OF _ _ assms(2)] irrelevant in auto)
qed

section \<open>Positions\<close>

text \<open>Every pool of a recorded state stands at one cycle, step and offset into the step's visit.\<close>

definition at_position :: "string \<Rightarrow> string set \<Rightarrow> (string, pool_resume) btree \<Rightarrow> nat \<times> nat \<times> nat \<Rightarrow> bool" where
  "at_position pid names ps q \<longleftrightarrow> bt_ok ps \<and> fst ` set ps = names \<and>
     (\<forall>r\<in>snd ` set ps. (pr_cycle r, pr_step r, pr_done r) = q \<and> (pr_step r > 0 \<or> pr_done r > 0 \<longrightarrow> pr_pattern r = Some pid))"

lemma pools_resume_at:
  assumes "\<forall>rt\<in>set rts. p_advance (rt_cfg rt) = ResumeAdvance"
  shows "at_position pid (p_name ` rt_cfg ` set rts) (pools_resume rts c s d pid) (c, s, d)"
  using assms
proof (induction rts rule: rev_induct)
  case Nil
  then show ?case by (simp add: at_position_def pools_resume_def)
next
  case (snoc rt rts)
  let ?r = "stamped pid (to_resume c s d rt)"
  have split: "pools_resume (rts @ [rt]) c s d pid = bt_insert (p_name (rt_cfg rt)) ?r (pools_resume rts c s d pid)"
    by (simp add: pools_resume_def)
  have at: "at_position pid (p_name ` rt_cfg ` set rts) (pools_resume rts c s d pid) (c, s, d)" using snoc by simp
  have new: "(pr_cycle ?r, pr_step ?r, pr_done ?r) = (c, s, d) \<and> (pr_step ?r > 0 \<or> pr_done ?r > 0 \<longrightarrow> pr_pattern ?r = Some pid)"
    using snoc.prems by (simp add: stamped_def to_resume_def Let_def)
  have sub: "snd ` set (pools_resume (rts @ [rt]) c s d pid) \<subseteq> insert ?r (snd ` set (pools_resume rts c s d pid))"
    using set_bt_insert_subset [of "p_name (rt_cfg rt)" ?r "pools_resume rts c s d pid"] unfolding split by fastforce
  have "fst ` set (pools_resume (rts @ [rt]) c s d pid) = p_name ` rt_cfg ` set (rts @ [rt])"
    using at unfolding split by (simp add: keys_bt_insert at_position_def)
  moreover have "bt_ok (pools_resume (rts @ [rt]) c s d pid)" using at unfolding split by (simp add: at_position_def)
  moreover have "(pr_cycle r, pr_step r, pr_done r) = (c, s, d) \<and> (pr_step r > 0 \<or> pr_done r > 0 \<longrightarrow> pr_pattern r = Some pid)"
    if mem: "r \<in> snd ` set (pools_resume (rts @ [rt]) c s d pid)" for r
  proof (cases "r = ?r")
    case True
    then show ?thesis using new by simp
  next
    case False
    then have "r \<in> snd ` set (pools_resume rts c s d pid)" using mem sub by blast
    then show ?thesis using at unfolding at_position_def by blast
  qed
  ultimately show ?case unfolding at_position_def by blast
qed

lemma mid_visit_at:
  assumes "at_position pid names ps (c, s, d)"
  shows "at_position pid names (mid_visit pid already ps) (c, s, already)"
proof -
  have "fst ` set (mid_visit pid already ps) = fst ` set ps" by (simp add: mid_visit_def image_image case_prod_beta)
  moreover have "bt_ok (mid_visit pid already ps) = bt_ok ps" by (simp add: mid_visit_def)
  moreover have "\<forall>r\<in>snd ` set (mid_visit pid already ps). \<exists>r0\<in>snd ` set ps. r = r0\<lparr>pr_done := already, pr_pattern := Some pid\<rparr>"
    by (auto simp: mid_visit_def image_image case_prod_beta)
  ultimately show ?thesis using assms by (fastforce simp: at_position_def)
qed



text \<open>
  The visits a walk has made, apart from the walk: the ids they drew, for each id the position a
  generation resuming there reopens at, and the step that is due. A step is passed over on its
  chance, or visited; inside a visit the position counts the items the visit has drawn when one
  series serves it from its start, and stays at the head of the visit when it does not.
\<close>

inductive visited :: "pool list \<Rightarrow> pattern_step list \<Rightarrow> nat \<times> nat \<times> nat \<Rightarrow> string list \<Rightarrow> (nat \<times> nat \<times> nat) list \<Rightarrow> nat \<times> nat \<Rightarrow> bool"
  for pools pattern first where
  opens: "visited pools pattern first [] [] (fst first, fst (snd first))"
| passes: "visited pools pattern first ids qs (c, i) \<Longrightarrow> i < length pattern \<Longrightarrow> skips (pattern ! i) (roll_of d c i) \<Longrightarrow>
     visited pools pattern first ids qs (c, Suc i)"
| draws: "visited pools pattern first ids qs (c, i) \<Longrightarrow> i < length pattern \<Longrightarrow>
     index_names pools (ps_pool (pattern ! i)) = Some idx \<Longrightarrow> rt_cfg rt = pools ! idx \<Longrightarrow>
     aired = (if (c, i) = (fst first, fst (snd first)) then snd (snd first) else 0) \<Longrightarrow>
     visit (ps_take (pattern ! i)) (ps_from (pattern ! i)) (roll_of d c i) aired rt ch = Inr (drawn, rt', ch') \<Longrightarrow>
     visited pools pattern first (ids @ drawn)
       (qs @ map (\<lambda>k. (c, i, if rt_visit_resumable rt' then aired + k else aired)) [0..<length drawn]) (c, Suc i)"
| turns: "visited pools pattern first ids qs (c, i) \<Longrightarrow> length pattern \<le> i \<Longrightarrow> visited pools pattern first ids qs (Suc c, 0)"

definition placed :: "walk_env \<Rightarrow> nat \<times> nat \<Rightarrow> walk \<Rightarrow> bool" where
  "placed env due w \<longleftrightarrow> (\<exists>qs. visited (we_pools env) (we_pattern env) (we_first env) (wk_out w) qs due \<and>
     list_all2 (at_position (we_pattern_id env) (p_name ` set (we_pools env))) (wk_progress w) qs)"

lemma placed_cong: "placed env due w \<Longrightarrow> wk_progress w' = wk_progress w \<Longrightarrow> wk_out w' = wk_out w \<Longrightarrow> placed env due w'"
  by (simp add: placed_def)

lemma walk_ok_cfgs: "walk_ok env w \<Longrightarrow> map rt_cfg (wk_runtimes w) = we_pools env"
  by (intro nth_equalityI) (simp_all add: walk_ok_def)

lemma runtimes_at:
  assumes "walk_ok env w" and "stops_at_visit (we_pools env)"
  shows "at_position (we_pattern_id env) (p_name ` set (we_pools env)) (pools_resume (wk_runtimes w) c s d (we_pattern_id env)) (c, s, d)"
proof -
  have "rt_cfg ` set (wk_runtimes w) = set (we_pools env)" using walk_ok_cfgs [OF assms(1)] by (metis list.set_map)
  moreover from this have "\<forall>rt\<in>set (wk_runtimes w). p_advance (rt_cfg rt) = ResumeAdvance"
    using assms(2) by (auto simp: stops_at_visit_def list_all_iff)
  ultimately show ?thesis using pools_resume_at [of "wk_runtimes w" "we_pattern_id env" c s d] by simp
qed

lemma visit_progress_at:
  assumes "at_position (we_pattern_id env) names before (c, i, resumed)"
  shows "list_all2 (at_position (we_pattern_id env) names) (visit_progress env resumable resumed before n)
           (map (\<lambda>k. (c, i, if resumable then resumed + k else resumed)) [0..<n])"
  using assms mid_visit_at [OF assms]
  by (auto simp: visit_progress_def list_all2_conv_all_nth)

lemma walk_step_placed:
  assumes "walk_step env c i (we_pattern env ! i) w = Inr w'" and "walk_ok env w" and "env_ok env" and "recorded w"
    and "stops_at_visit (we_pools env)" and "we_stop_at_visit env" and "we_by_name env = index_names (we_pools env)"
    and "placed env (c, i) w" and "i < length (we_pattern env)"
  shows "placed env (c, i + 1) w'"
  using assms(1-3)
proof (cases rule: walk_step_cases)
  case (1 d)
  then show ?thesis using assms(8,9) by (auto simp: same_record_def placed_def intro: visited.passes)
next
  case (2 idx d v)
  have len: "length (wk_audits v) = length (wk_out v)"
    using 2(2) assms(4) same_record_recorded by (metis recorded_def)
  show ?thesis
  proof (rule draw_visit_InrE [OF 2(4,3,1) len])
    fix drawn :: "string list" and rt :: pool_runtime and ch :: channel_history
    let ?r = "resumed_at env c i"
    let ?new = "map (\<lambda>k. (c, i, if rt_visit_resumable rt then ?r + k else ?r)) [0..<length drawn]"
    assume out: "wk_out w' = wk_out v @ drawn"
      and progress: "wk_progress w' = wk_progress v @ visit_progress env (rt_visit_resumable rt \<and> we_stop_at_visit env) ?r
        (pools_resume (wk_runtimes v) (fst (position_before env c i)) (snd (position_before env c i)) ?r (we_pattern_id env)) (length drawn)"
      and vis: "visit (ps_take (we_pattern env ! i)) (ps_from (we_pattern env ! i)) (roll_of d c i) ?r (wk_runtimes v ! idx) (wk_channel v) =
        Inr (drawn, rt, ch)"
    have before: "position_before env c i = (c, i)" using assms(6) by (simp add: position_before_def)
    have here: "list_all2 (at_position (we_pattern_id env) (p_name ` set (we_pools env)))
        (visit_progress env (rt_visit_resumable rt) ?r (pools_resume (wk_runtimes v) c i ?r (we_pattern_id env)) (length drawn)) ?new"
      by (rule visit_progress_at [OF runtimes_at [OF 2(3) assms(5)]])
    obtain qs where qs: "visited (we_pools env) (we_pattern env) (we_first env) (wk_out v) qs (c, i)"
      "list_all2 (at_position (we_pattern_id env) (p_name ` set (we_pools env))) (wk_progress v) qs"
      using assms(8) 2(2) by (auto simp: placed_def same_record_def)
    have aired: "?r = (if (c, i) = (fst (we_first env), fst (snd (we_first env))) then snd (snd (we_first env)) else 0)"
      by (cases "we_first env") (simp add: resumed_at_def)
    have named: "index_names (we_pools env) (ps_pool (we_pattern env ! i)) = Some idx" using 2(5) assms(7) by simp
    from visited.draws [OF qs(1) assms(9) named walk_okD(1) [OF 2(3,1)] aired vis]
    have "visited (we_pools env) (we_pattern env) (we_first env) (wk_out w') (qs @ ?new) (c, i + 1)" by (simp add: out)
    moreover have "list_all2 (at_position (we_pattern_id env) (p_name ` set (we_pools env))) (wk_progress w') (qs @ ?new)"
      using qs(2) here assms(6) by (simp add: progress before list_all2_appendI)
    ultimately show ?thesis unfolding placed_def by blast
  qed
qed

lemma walk_run_placed:
  assumes "walk_run env at0 at1" and "env_ok env" and "walk_ok env (snd (snd at0)) \<and> recorded (snd (snd at0))"
    and "stops_at_visit (we_pools env)" and "we_stop_at_visit env" and "we_by_name env = index_names (we_pools env)"
    and "placed env (fst at0, fst (snd at0)) (snd (snd at0))"
  shows "placed env (fst at1, fst (snd at1)) (snd (snd at1))"
  using assms(1)
proof (induction rule: rtranclp_induct)
  case base
  then show ?case using assms(7) by simp
next
  case (step at1 at2)
  have ok: "walk_ok env (snd (snd at1)) \<and> recorded (snd (snd at1))"
    using walk_run_recorded [OF step.hyps(1) assms(2,3)] .
  have irrelevant: "walk_ok env (w\<lparr>wk_stopped := p\<rparr>) = walk_ok env w" "recorded (w\<lparr>wk_stopped := p\<rparr>) = recorded w"
    "placed env b (w\<lparr>wk_stopped := p\<rparr>) = placed env b w" for w p b
    by (simp_all add: walk_ok_def recorded_def placed_def)
  show ?case using step.hyps(2)
  proof (cases rule: walk_move.cases)
    case (visit_move j u k u')
    have "placed env (k, j + 1) u'"
      using walk_step_placed [OF visit_move(5) _ assms(2) _ assms(4-6) _ visit_move(3)] ok step.IH irrelevant visit_move(1) by simp
    then show ?thesis using visit_move(2) by simp
  next
    case (cycle_move j k u)
    then have "placed env (k, j) u" using step.IH by simp
    then show ?thesis using cycle_move irrelevant by (auto simp: placed_def intro: visited.turns)
  qed
qed

section \<open>A whole block\<close>

lemma fill_holes_length: "fill_holes en cat inputs pds slots cache frozen = Inr (idss, cache', frozen') \<Longrightarrow> length idss = min (length pds) (length slots)"
proof (induction en cat inputs pds slots cache frozen arbitrary: idss cache' frozen' rule: fill_holes.induct)
  case (1 en cat inputs cfg d pds slot slots cache frozen)
  then show ?case by (fastforce simp: bind_res_Inr_iff split: prod.splits)
qed simp_all

lemma open_sources_length: "open_sources en cat groups pds cache = Inr (slots, cache') \<Longrightarrow> length slots = length pds"
proof (induction en cat groups pds cache arbitrary: slots cache' rule: open_sources.induct)
  case (2 en cat groups cfg d pds cache)
  then show ?case by (fastforce simp: bind_res_Inr_iff split: prod.splits)
qed simp

lemma open_runtimes_ok:
  "open_runtimes en cat block state measured cache pds idss = Inr rts \<Longrightarrow> length idss = length pds \<Longrightarrow>
     map rt_cfg rts = map fst pds \<and> (\<forall>rt\<in>set rts. pool_ok rt)"
proof (induction en cat block state measured cache pds idss arbitrary: rts rule: open_runtimes.induct)
  case (1 en cat block state measured cache cfg d pds ids idss)
  then obtain rt rest where rt: "open_runtime en cat cfg ids block state (resume_pool (gs_resume state) (p_name cfg)) d measured cache = Inr rt"
    and rest: "open_runtimes en cat block state measured cache pds idss = Inr rest" and rts: "rts = rt # rest"
    by (auto simp: bind_res_Inr_iff)
  show ?case using open_runtime_facts [OF rt] "1.IH" [OF rest] "1.prems" by (simp add: rts)
qed simp_all

lemma build_InrE:
  assumes "build_with_cache en cat pools groups pattern cycles block state v start inputs fill rule cache = Inr (b, cache')"
  obtains env n w0 w where
    "walk_cycles env [fst (we_first env)..<fst (we_first env) + n] w0 = Inr w" "b = finish_build env w"
    "we_pools env = pools" "we_pattern env = pattern" "we_pattern_id env = en_pattern_id en pattern"
    "we_first env = opening_position pools state (en_pattern_id en pattern)" "we_stop_at_visit env = stops_at_visit pools"
    "we_budget env = (if cycles = None then fill else None)" "we_by_name env = index_names pools"
    "env_ok env" "walk_ok env w0" "wk_out w0 = []" "wk_progress w0 = []" "wk_audits w0 = []" "wk_laid w0 = 0"
    "wk_stopped w0 = (fst (we_first env), fst (snd (we_first env)))"
proof -
  define env where "env = block_env en cat pools groups pattern cycles block state v start inputs fill"
  define pds where "pds = zip pools (opening_dice v start pools)"
  obtain fc fs fd where first: "we_first env = (fc, fs, fd)" by (cases "we_first env")
  obtain idss c1 frozen rts n w where
    src: "resolve_pool_sources en cat groups inputs pds (cache\<lparr>sc_extras := Map.empty\<rparr>) (rm_lists (gs_resume state)) = Inr (idss, c1, frozen)"
    and rts: "open_runtimes en cat block state (we_measure env) c1 pds idss = Inr rts"
    and run: "walk_cycles env [fc..<fc + n] (opening_walk env rts (channel_history_new cat rule) c1 frozen) = Inr w"
    and b: "b = finish_build env w"
  proof -
    have "bind_res (resolve_pool_sources en cat groups inputs pds (cache\<lparr>sc_extras := Map.empty\<rparr>) (rm_lists (gs_resume state)))
        (\<lambda>(idss, cache, frozen). bind_res (open_runtimes en cat block state (we_measure env) cache pds idss) (\<lambda>rts.
           bind_res (cycle_count cycles rts pattern (we_by_name env)) (\<lambda>n.
             bind_res (walk_cycles env [fc..<fc + (if cycles = None \<and> fs > 0 then n + 1 else n)]
                 (opening_walk env rts (channel_history_new cat rule) cache frozen))
               (\<lambda>w. Inr (finish_build env w, wk_cache w))))) = Inr (b, cache')"
      using assms unfolding build_with_cache_def env_def [symmetric] pds_def [symmetric] by (simp add: Let_def first)
    then obtain r where "resolve_pool_sources en cat groups inputs pds (cache\<lparr>sc_extras := Map.empty\<rparr>) (rm_lists (gs_resume state)) = Inr r"
      and "(case r of (idss, cache, frozen) \<Rightarrow> bind_res (open_runtimes en cat block state (we_measure env) cache pds idss) (\<lambda>rts.
           bind_res (cycle_count cycles rts pattern (we_by_name env)) (\<lambda>n.
             bind_res (walk_cycles env [fc..<fc + (if cycles = None \<and> fs > 0 then n + 1 else n)]
                 (opening_walk env rts (channel_history_new cat rule) cache frozen))
               (\<lambda>w. Inr (finish_build env w, wk_cache w))))) = Inr (b, cache')"
      by (rule bind_res_InrE)
    then show thesis
      by (cases r) (auto elim!: bind_res_InrE intro: that)
  qed
  have len: "length idss = length pds"
    using src fill_holes_length open_sources_length by (fastforce simp: resolve_pool_sources_def bind_res_Inr_iff split: prod.splits)
  have ok: "map rt_cfg rts = pools" "\<forall>rt\<in>set rts. pool_ok rt"
    using open_runtimes_ok [OF rts len] by (simp_all add: pds_def opening_dice_def)
  have same: "length rts = length pools" using ok(1) by (metis length_map)
  then have each: "\<forall>k < length pools. rt_cfg (rts ! k) = pools ! k \<and> pool_ok (rts ! k)" using ok by (metis nth_map nth_mem)
  have names: "\<forall>name idx. index_names pools name = Some idx \<longrightarrow> idx < length pools"
    by (auto simp: index_names_def dest!: map_of_SomeD set_zip_rightD)
  have walk: "walk_cycles env [fst (we_first env)..<fst (we_first env) + n] (opening_walk env rts (channel_history_new cat rule) c1 frozen) = Inr w"
    using run by (simp add: first)
  have fields: "we_pools env = pools" "we_pattern env = pattern" "we_pattern_id env = en_pattern_id en pattern"
    "we_first env = opening_position pools state (en_pattern_id en pattern)" "we_stop_at_visit env = stops_at_visit pools"
    "we_budget env = (if cycles = None then fill else None)" "we_by_name env = index_names pools"
    by (simp_all add: env_def block_env_def Let_def)
  show thesis
    by (rule that [OF walk b fields]) (use same each names fields in \<open>simp_all add: env_ok_def walk_ok_def opening_walk_def\<close>)
qed

lemma finished_recorded:
  assumes "recorded w"
  shows "length (bb_progress (finish_build env w)) = length (bb_ids (finish_build env w)) + 1"
    "last (bb_progress (finish_build env w)) = bb_resume (finish_build env w)"
    "bb_audits (finish_build env w) = wk_audits w" "bb_ids (finish_build env w) = wk_out w"
    "bb_progress (finish_build env w) = wk_progress w @ [bb_resume (finish_build env w)]"
  using assms by (simp_all add: finish_build_def Let_def recorded_def)

lemma irrelevant_stop [simp]:
  "walk_ok env (w\<lparr>wk_stopped := p\<rparr>) = walk_ok env w" "recorded (w\<lparr>wk_stopped := p\<rparr>) = recorded w"
  "placed env b (w\<lparr>wk_stopped := p\<rparr>) = placed env b w"
  by (simp_all add: walk_ok_def recorded_def placed_def)

lemma walk_run_no_pools:
  assumes "walk_run env at0 at1" and "env_ok env" and "we_pools env = []"
  shows "wk_out (snd (snd at1)) = wk_out (snd (snd at0))"
  using assms(1)
proof (induction rule: rtranclp_induct)
  case base
  then show ?case by simp
next
  case (step at1 at2)
  have "walk_step env c i st w \<noteq> Inr w'" for c i st w w'
    using assms(2,3) by (cases "we_by_name env (ps_pool st)") (simp_all add: walk_step_def ok_or_def env_ok_def)
  note nothing_moves = this
  show ?case using step.hyps(2)
    by (cases rule: walk_move.cases) (use step.IH nothing_moves in auto)
qed

lemma build_walked:
  assumes "build_with_cache en cat pools groups pattern cycles block state v start inputs fill rule cache = Inr (b, cache')"
  obtains env w c i where "b = finish_build env w" "recorded w" "walk_ok env w" "env_ok env"
    "we_pools env = pools" "we_pattern_id env = en_pattern_id en pattern"
    "we_first env = opening_position pools state (en_pattern_id en pattern)"
    "we_pattern env = pattern" "stops_at_visit pools \<Longrightarrow> placed env (c, i) w" "bb_ids b \<noteq> [] \<Longrightarrow> wk_stopped w = (c, i) \<and> pools \<noteq> []"
proof -
  from build_InrE [OF assms] obtain env n w0 w where
    walk: "walk_cycles env [fst (we_first env)..<fst (we_first env) + n] w0 = Inr w" and b: "b = finish_build env w"
    and fields: "we_pools env = pools" "we_pattern_id env = en_pattern_id en pattern"
      "we_first env = opening_position pools state (en_pattern_id en pattern)" "we_stop_at_visit env = stops_at_visit pools"
      "we_by_name env = index_names pools" "we_pattern env = pattern"
    and start: "env_ok env" "walk_ok env w0" "wk_out w0 = []" "wk_progress w0 = []" "wk_audits w0 = []"
    by metis
  have open0: "opening_step env (fst (we_first env)) = fst (snd (we_first env))" by (simp add: opening_step_def)
  from walk_cycles_run [OF walk] obtain c i u where
    run: "walk_run env (fst (we_first env), fst (snd (we_first env)), w0) (c, i, u)"
    and out: "budget_spent env i u \<and> w = u\<lparr>wk_stopped := (c, i)\<rparr> \<or>
      w = u \<and> c = fst (we_first env) + n \<and> i = opening_step env c \<and> (n > 0 \<longrightarrow> i = 0 \<and> wk_stopped w = (c, 0))"
    unfolding open0 by auto
  have rec0: "recorded w0" using start by (simp add: recorded_def)
  have ok: "walk_ok env u \<and> recorded u" using walk_run_recorded [OF run start(1)] start(2) rec0 by simp
  then have okw: "walk_ok env w" "recorded w" using out by auto
  have "placed env (c, i) w" if "stops_at_visit pools"
  proof -
    have "placed env (fst (we_first env), fst (snd (we_first env))) w0" using start(3,4) by (auto simp: placed_def intro: visited.opens)
    with walk_run_placed [OF run start(1)] start(2) rec0 that fields have "placed env (c, i) u" by simp
    then show ?thesis using out by auto
  qed
  moreover have "wk_stopped w = (c, i)" if "bb_ids b \<noteq> []"
  proof (cases "n = 0")
    case True
    then have "w = w0" using walk by simp
    then show ?thesis using that finished_recorded(4) [OF okw(2)] b start(3) by simp
  next
    case False
    then show ?thesis using out by auto
  qed
  moreover have "pools \<noteq> []" if "bb_ids b \<noteq> []"
    using walk_run_no_pools [OF run start(1)] that out start(3) fields(1) finished_recorded(4) [OF okw(2), of env] by (auto simp: b)
  ultimately show thesis using that [of env w c i] okw b start(1) fields by simp
qed

lemma build_progress_length:
  assumes "build_with_cache en cat pools groups pattern cycles block state v start inputs fill rule cache = Inr (b, cache')"
  shows "length (bb_progress b) = length (bb_ids b) + 1"
proof -
  obtain env w where "b = finish_build env w" "recorded w" using build_walked [OF assms] by metis
  then show ?thesis using finished_recorded(1) by blast
qed

text \<open>
  Claim C3. For every item a block draws it records the state of its pools before that item
  and one audit record of the draw; the states number one more than the items and end on the
  state the next generation continues from.
\<close>

theorem generation_records_every_item:
  assumes "build_with_cache en cat pools groups pattern cycles block state v start inputs fill rule cache = Inr (b, cache')"
  shows "length (bb_progress b) = length (bb_ids b) + 1 \<and> last (bb_progress b) = bb_resume b \<and>
         length (bb_audits b) = length (bb_ids b) \<and> (\<forall>a\<in>set (bb_audits b). length a = 1)"
proof -
  obtain env w where b: "b = finish_build env w" and rec: "recorded w" using build_walked [OF assms] by metis
  show ?thesis using finished_recorded [OF rec, of env] rec by (simp add: b recorded_def)
qed


section \<open>When the walk stops\<close>

lemma overshoots_by_one_visit:
  assumes "walk_cycles env [c..<c + n] w = Inr w'" and "we_budget env = Some fill" and "we_stop_at_visit env"
    and "wk_laid w < fill" and "fst (we_first env) \<le> c" and "0 < n"
  shows "(wk_laid w' < fill \<longrightarrow> wk_stopped w' = (c + n, 0)) \<and>
         (fill \<le> wk_laid w' \<longrightarrow> (\<exists>c1 i u v. walk_run env (c, opening_step env c, w) (c1, i, u) \<and> wk_laid u < fill \<and>
            walk_step env c1 i (we_pattern env ! i) (u\<lparr>wk_stopped := (c1, i)\<rparr>) = Inr v \<and>
            wk_out w' = wk_out v \<and> wk_laid w' = wk_laid v))"
proof -
  define lays where "lays x \<longleftrightarrow> (\<exists>c1 i u v. walk_run env (c, opening_step env c, w) (c1, i, u) \<and> wk_laid u < fill \<and>
            walk_step env c1 i (we_pattern env ! i) (u\<lparr>wk_stopped := (c1, i)\<rparr>) = Inr v \<and>
            wk_out x = wk_out v \<and> wk_laid x = wk_laid v)" for x :: walk
  have inv: "walk_run env (c, opening_step env c, w) at1 \<Longrightarrow> fill \<le> wk_laid (snd (snd at1)) \<longrightarrow> lays (snd (snd at1))" for at1
  proof (induction rule: rtranclp_induct)
    case base
    then show ?case using assms(4) by simp
  next
    case (step at1 at2)
    show ?case using step.hyps(2)
    proof (cases rule: walk_move.cases)
      case (visit_move i u k v)
      have "wk_laid u < fill" using visit_move(4) assms(2,3) by (simp add: budget_spent_def)
      then show ?thesis using step.hyps(1) visit_move unfolding lays_def by auto
    next
      case (cycle_move i k u)
      then show ?thesis using step.IH by (simp add: lays_def)
    qed
  qed
  from walk_cycles_run [OF assms(1,5)] obtain c' i' u where run: "walk_run env (c, opening_step env c, w) (c', i', u)"
    and out: "budget_spent env i' u \<and> w' = u\<lparr>wk_stopped := (c', i')\<rparr> \<or>
      w' = u \<and> c' = c + n \<and> i' = opening_step env c' \<and> (n > 0 \<longrightarrow> i' = 0 \<and> wk_stopped w' = (c', 0))"
    by auto
  have lays_stop: "lays (x\<lparr>wk_stopped := p\<rparr>) = lays x" for x p by (simp add: lays_def)
  have "wk_laid w' < fill \<longrightarrow> wk_stopped w' = (c + n, 0)"
    using out assms(2,6) by (auto simp: budget_spent_def)
  moreover have "fill \<le> wk_laid w' \<longrightarrow> lays w'"
    using inv [OF run] out lays_stop by auto
  ultimately show ?thesis by (simp add: lays_def)
qed

lemma later_steps_never_stop:
  assumes "\<not> we_stop_at_visit env"
  shows "walk_steps env c steps w = Inr (b, v) \<Longrightarrow> 0 \<notin> fst ` set steps \<Longrightarrow> \<not> b"
proof (induction steps arbitrary: w)
  case (Cons x steps)
  obtain i st where x: "x = (i, st)" by (cases x)
  have "\<not> budget_spent env i u" for u using assms Cons.prems(2) by (auto simp: budget_spent_def x)
  then obtain u where "walk_steps env c steps u = Inr (b, v)"
    using Cons.prems(1) by (auto simp: x Let_def elim!: bind_res_InrE)
  then show ?case using Cons.IH Cons.prems(2) by simp
qed simp

lemma cycle_never_stops:
  assumes "\<not> we_stop_at_visit env" and "we_budget env = Some fill" and "wk_laid w < fill"
    and "walk_steps env c (drop i (List.enumerate 0 (we_pattern env))) w = Inr (b, v)"
  shows "\<not> b"
proof (cases "drop i (List.enumerate 0 (we_pattern env))")
  case Nil
  then show ?thesis using assms(4) by simp
next
  case (Cons x steps)
  have numbered: "map fst (drop i (List.enumerate 0 (we_pattern env))) = [i..<length (we_pattern env)]"
    by (simp add: drop_map [symmetric] enumerate_eq_zip)
  then have "i < length (we_pattern env)" using Cons by (metis list.distinct(1) list.simps(8,9) not_le upt_conv_Nil map_is_Nil_conv)
  then have nums: "fst x = i" "map fst steps = [Suc i..<length (we_pattern env)]" using numbered Cons by (simp_all add: upt_conv_Cons)
  have "0 \<notin> set (map fst steps)" unfolding nums(2) by simp
  then have later: "0 \<notin> fst ` set steps" by simp
  obtain st where x: "x = (i, st)" using nums(1) by (cases x) simp
  have "\<not> budget_spent env i w" using assms(2,3) by (simp add: budget_spent_def)
  then obtain u where "walk_steps env c steps u = Inr (b, v)"
    using assms(4) unfolding Cons by (auto simp: x Let_def elim!: bind_res_InrE)
  then show ?thesis using later_steps_never_stop [OF assms(1) _ later] by blast
qed

lemma overshoots_by_one_cycle:
  assumes "\<not> we_stop_at_visit env" and "we_budget env = Some fill"
  shows "walk_cycles env [c..<c + n] w = Inr w' \<Longrightarrow> fst (we_first env) \<le> c \<Longrightarrow> wk_laid w < fill \<Longrightarrow> fill \<le> wk_laid w' \<Longrightarrow>
    \<exists>c1 u v. c \<le> c1 \<and> walk_run env (c, opening_step env c, w) (c1, opening_step env c1, u) \<and> wk_laid u < fill \<and>
      walk_steps env c1 (steps_of_cycle env c1) u = Inr (False, v) \<and> wk_out w' = wk_out v \<and> wk_laid w' = wk_laid v"
proof (induction n arbitrary: c w)
  case 0
  then show ?case by simp
next
  case (Suc n)
  have steps: "steps_of_cycle env c = drop (opening_step env c) (List.enumerate 0 (we_pattern env))"
    by (simp add: steps_of_cycle_def opening_step_def Let_def split: prod.splits)
  have "[c..<c + Suc n] = c # [c + 1..<(c + 1) + n]" using upt_conv_Cons [of c "c + Suc n"] by (simp del: upt_Suc)
  then have "walk_cycles env (c # [c + 1..<(c + 1) + n]) w = Inr w'" using Suc.prems(1) by (simp only:)
  then obtain stopped v where first: "walk_steps env c (drop (opening_step env c) (List.enumerate 0 (we_pattern env))) w = Inr (stopped, v)"
    and rest: "(if stopped then Inr v else walk_cycles env [c + 1..<(c + 1) + n] (v\<lparr>wk_stopped := (c + 1, 0)\<rparr>)) = Inr w'"
    unfolding walk_cycles.simps(2) steps by (elim bind_res_InrE) (simp split: prod.splits)
  have "\<not> stopped" using cycle_never_stops [OF assms Suc.prems(3) first] .
  with first rest have first: "walk_steps env c (steps_of_cycle env c) w = Inr (False, v)"
    and rest: "walk_cycles env [c + 1..<(c + 1) + n] (v\<lparr>wk_stopped := (c + 1, 0)\<rparr>) = Inr w'" by (simp_all add: steps)
  have later: "opening_step env (c + 1) = 0" using Suc.prems(2) by (simp add: opening_step_def)
  from walk_steps_run [OF first [unfolded steps]] obtain i where
    run: "walk_run env (c, opening_step env c, w) (c, i, v)" "length (we_pattern env) \<le> i" by auto
  have run: "walk_run env (c, opening_step env c, w) (c + 1, opening_step env (c + 1), v\<lparr>wk_stopped := (c + 1, 0)\<rparr>)"
    using rtranclp.rtrancl_into_rtrancl [OF run(1) cycle_move [OF run(2)]] by (simp only: later)
  show ?case
  proof (cases "wk_laid v < fill")
    case True
    from Suc.IH [OF rest] Suc.prems(2,4) True obtain c1 u x where
      "c + 1 \<le> c1" "walk_run env (c + 1, opening_step env (c + 1), v\<lparr>wk_stopped := (c + 1, 0)\<rparr>) (c1, opening_step env c1, u)" "wk_laid u < fill"
      "walk_steps env c1 (steps_of_cycle env c1) u = Inr (False, x)" "wk_out w' = wk_out x" "wk_laid w' = wk_laid x" by auto
    then show ?thesis using run by (meson add_leD1 rtranclp_trans)
  next
    case False
    have "wk_out w' = wk_out v \<and> wk_laid w' = wk_laid v"
    proof (cases "n = 0 \<or> we_pattern env = []")
      case True
      have "steps_of_cycle env k = []" if "we_pattern env = []" for k using that by (simp add: steps_of_cycle_def Let_def split: prod.splits)
      moreover from this first have "v = w" if "we_pattern env = []" using that by simp
      ultimately show ?thesis using True rest False Suc.prems(3) by auto
    next
      case False
      then obtain st pat where pat: "we_pattern env = st # pat" by (cases "we_pattern env") auto
      have "steps_of_cycle env (c + 1) = (0, st) # List.enumerate 1 pat"
        using Suc.prems(2) by (cases "we_first env") (simp add: steps_of_cycle_def pat)
      moreover have "[c + 1..<(c + 1) + n] = (c + 1) # [c + 2..<(c + 1) + n]" using False by (simp add: upt_conv_Cons)
      moreover have "budget_spent env 0 (v\<lparr>wk_stopped := (c + 1, 0)\<rparr>)"
        using \<open>\<not> wk_laid v < fill\<close> assms(2) by (simp add: budget_spent_def)
      ultimately show ?thesis using rest by (auto simp: Let_def)
    qed
    then show ?thesis using first Suc.prems(3) by (intro exI [of _ c] exI [of _ w] exI [of _ v]) simp
  qed
qed

text \<open>
  Claim C4. A budgeted walk lays at least what was asked for or walks every cycle it was given. What
  it lays past the budget is its last visit when every pool of the block resumes (before that visit
  the budget was not yet covered), and its last cycle otherwise (when that cycle began the
  budget was not yet covered): a pool that does not resume could not take up a cycle in its middle.
\<close>

theorem walk_overshoots_by_one_visit:
  assumes "walk_cycles env [c..<c + n] w = Inr w'" and "we_budget env = Some fill"
    and "wk_laid w < fill" and "fst (we_first env) \<le> c" and "0 < n"
  shows "(wk_laid w' < fill \<longrightarrow> wk_stopped w' = (c + n, 0)) \<and>
         (fill \<le> wk_laid w' \<longrightarrow>
            (if we_stop_at_visit env
             then \<exists>c1 i u v. walk_run env (c, opening_step env c, w) (c1, i, u) \<and> wk_laid u < fill \<and>
                    walk_step env c1 i (we_pattern env ! i) (u\<lparr>wk_stopped := (c1, i)\<rparr>) = Inr v \<and>
                    wk_out w' = wk_out v \<and> wk_laid w' = wk_laid v
             else \<exists>c1 u v. c \<le> c1 \<and> walk_run env (c, opening_step env c, w) (c1, opening_step env c1, u) \<and> wk_laid u < fill \<and>
                    walk_steps env c1 (steps_of_cycle env c1) u = Inr (False, v) \<and>
                    wk_out w' = wk_out v \<and> wk_laid w' = wk_laid v))"
proof -
  from walk_cycles_run [OF assms(1,4)] have "wk_laid w' < fill \<longrightarrow> wk_stopped w' = (c + n, 0)"
    using assms(2,5) by (auto simp: budget_spent_def)
  then show ?thesis
    using overshoots_by_one_visit [OF assms(1,2) _ assms(3-5)] overshoots_by_one_cycle [OF _ assms(2,1,4,3)] by simp
qed

section \<open>The derived cycle count\<close>

lemma div_ceil_le_iff: "0 < b \<Longrightarrow> div_ceil a b \<le> n \<longleftrightarrow> a \<le> n * b"
  using div_less_iff_less_mult [of b "a + b - 1" "n + 1"] by (auto simp: div_ceil_def)

definition enough_cycles :: "pool_runtime list \<Rightarrow> pattern_step list \<Rightarrow> (string \<Rightarrow> nat option) \<Rightarrow> nat \<Rightarrow> bool" where
  "enough_cycles rts pattern by_name n \<longleftrightarrow>
     (\<forall>i < length rts. (0 < per_cycle pattern by_name i \<longrightarrow> wanted_items (rts ! i) \<le> n * per_cycle pattern by_name i) \<and>
        (0 < all_steps pattern by_name i \<longrightarrow> length (rt_series (rts ! i)) \<le> n * all_steps pattern by_name i))"

lemma derive_cycles_le_iff: "derive_cycles rts pattern by_name \<le> n \<longleftrightarrow> enough_cycles rts pattern by_name n"
proof -
  define f where "f = (\<lambda>(i, rt) cycles.
        let cycles = (if per_cycle pattern by_name i > 0
                      then max cycles (div_ceil (wanted_items rt) (per_cycle pattern by_name i)) else cycles)
        in if all_steps pattern by_name i > 0
           then max cycles (div_ceil (length (rt_series rt)) (all_steps pattern by_name i)) else cycles)"
  have step: "f (i, rt) m \<le> n \<longleftrightarrow> m \<le> n \<and> (0 < per_cycle pattern by_name i \<longrightarrow> wanted_items rt \<le> n * per_cycle pattern by_name i) \<and>
        (0 < all_steps pattern by_name i \<longrightarrow> length (rt_series rt) \<le> n * all_steps pattern by_name i)" for i rt m
    by (auto simp: f_def Let_def div_ceil_le_iff)
  have "fold f (List.enumerate k rts) m \<le> n \<longleftrightarrow> m \<le> n \<and> (\<forall>j < length rts.
        (0 < per_cycle pattern by_name (k + j) \<longrightarrow> wanted_items (rts ! j) \<le> n * per_cycle pattern by_name (k + j)) \<and>
        (0 < all_steps pattern by_name (k + j) \<longrightarrow> length (rt_series (rts ! j)) \<le> n * all_steps pattern by_name (k + j)))" for k m
  proof (induction rts arbitrary: k m)
    case Nil
    then show ?case by simp
  next
    case (Cons rt rts)
    show ?case by (auto simp: Cons.IH step less_Suc_eq_0_disj)
  qed
  from this [of 0 0] show ?thesis by (simp add: derive_cycles_def enough_cycles_def f_def)
qed

text \<open>
  The derived number of cycles is the least that drains every pool the pattern
  counts on: enough visits for what its series have left (for its whole list when nothing is
  left), a range counted at its smallest, and enough take-all visits to empty every series.
\<close>

theorem derived_cycles_are_least:
  "enough_cycles rts pattern by_name (derive_cycles rts pattern by_name) \<and>
   (\<forall>n. enough_cycles rts pattern by_name n \<longrightarrow> derive_cycles rts pattern by_name \<le> n)"
  using derive_cycles_le_iff by blast

theorem derived_cycles_are_least_witness:
  "derive_cycles [two_series] [\<lparr>ps_pool = ''p'', ps_take = Range 3 5, ps_from = FromStart, ps_chance = 1\<rparr>] (\<lambda>_. Some 0) = 2"
proof -
  let ?pat = "[\<lparr>ps_pool = ''p'', ps_take = Range 3 5, ps_from = FromStart, ps_chance = 1\<rparr>]"
  have enough: "enough_cycles [two_series] ?pat (\<lambda>_. Some 0) n \<longleftrightarrow> 4 \<le> n * 3" for n
    by (simp add: enough_cycles_def per_cycle_def all_steps_def wanted_items_def total_ids_def two_series_def sample_runtime_def
        new_series_def series_remaining_def) arith
  have "4 \<le> derive_cycles [two_series] ?pat (\<lambda>_. Some 0) * 3" "derive_cycles [two_series] ?pat (\<lambda>_. Some 0) \<le> 2"
    using derived_cycles_are_least [of "[two_series]" ?pat "\<lambda>_. Some 0"] by (simp_all add: enough)
  then show ?thesis by linarith
qed

section \<open>A block of steady pools\<close>

text \<open>
  Pools that no dice rotate and no plugin ranks: the runtime never changes its list (\<open>idss\<close> holds
  the lists the pools opened with), and a step of a plain count always draws.
\<close>

definition steady :: "walk_env \<Rightarrow> string list list \<Rightarrow> walk \<Rightarrow> bool" where
  "steady env idss w \<longleftrightarrow> walk_ok env w \<and>
     (\<forall>k < length (we_pools env). \<not> is_dry (wk_runtimes w ! k) \<and> rt_take_overrides (wk_runtimes w ! k) = [] \<and>
        rt_list_key (wk_runtimes w ! k) = None \<and> set (pool_ids (wk_runtimes w ! k)) = set (idss ! k))"

definition plain_block :: "walk_env \<Rightarrow> bool" where
  "plain_block env \<longleftrightarrow> snd (we_first env) = (0, 0) \<and>
     (\<forall>p\<in>set (we_pools env). p_plugin p = None \<and> (p_on_short p \<noteq> Short \<or> p_rotate p = Slot) \<and>
        (\<forall>t. \<not> dice_rotates (dice_at (we_variety env) t (Some p)))) \<and>
     (\<forall>st\<in>set (we_pattern env). \<exists>idx n. we_by_name env (ps_pool st) = Some idx \<and> idx < length (we_pools env) \<and>
        ps_take st = Count n \<and> n \<le> max_take \<and> 1 \<le> ps_chance st)"

definition step_count :: "pattern_step \<Rightarrow> nat" where
  "step_count st = (case ps_take st of Count n \<Rightarrow> n | Range lo hi \<Rightarrow> lo | All \<Rightarrow> 0)"

lemma steady_update:
  assumes "steady env idss w" and "idx < length (we_pools env)" and "rt_cfg rt = we_pools env ! idx" and "pool_ok rt"
    and "\<not> is_dry rt" and "rt_take_overrides rt = []" and "rt_list_key rt = None" and "set (pool_ids rt) = set (idss ! idx)"
    and "wk_runtimes w' = (wk_runtimes w)[idx := rt]"
  shows "steady env idss w'"
proof -
  have "walk_ok env (set_runtime idx rt w)" using assms(1-4) set_runtime_ok by (simp add: steady_def)
  then have "walk_ok env w'" using walk_ok_runtimes [of w' "set_runtime idx rt w" env] assms(9) by (simp add: set_runtime_def)
  then show ?thesis using assms unfolding steady_def by (auto simp: walk_ok_def nth_list_update)
qed

text \<open>A visit to a step: as many items as the step counts, all of the step's pool.\<close>

definition fills :: "(string \<Rightarrow> nat option) \<Rightarrow> string list list \<Rightarrow> pattern_step \<Rightarrow> string list \<Rightarrow> bool" where
  "fills by_name idss st out \<longleftrightarrow> length out = step_count st \<and> (\<exists>idx. by_name (ps_pool st) = Some idx \<and> set out \<subseteq> set (idss ! idx))"

lemma steady_step:
  assumes "plain_block env" and "steady env idss w" and "st \<in> set (we_pattern env)"
  shows "\<exists>w'. walk_step env c i st w = Inr w' \<and> steady env idss w' \<and>
    (\<exists>out. wk_out w' = wk_out w @ out \<and> fills (we_by_name env) idss st out)"
proof -
  obtain idx n where idx: "we_by_name env (ps_pool st) = Some idx" and lt: "idx < length (we_pools env)"
    and count: "ps_take st = Count n" "n \<le> max_take" "1 \<le> ps_chance st"
    using assms(1,3) by (fastforce simp: plain_block_def)
  have pool: "we_pools env ! idx \<in> set (we_pools env)" using lt by simp
  then have plain: "p_plugin (we_pools env ! idx) = None" "p_on_short (we_pools env ! idx) \<noteq> Short \<or> p_rotate (we_pools env ! idx) = Slot"
    "\<not> dice_rotates (dice_at (we_variety env) t (Some (we_pools env ! idx)))" for t
    using assms(1) by (auto simp: plain_block_def)
  have rt: "rt_cfg (wk_runtimes w ! idx) = we_pools env ! idx" "pool_ok (wk_runtimes w ! idx)" "\<not> is_dry (wk_runtimes w ! idx)"
    "rt_take_overrides (wk_runtimes w ! idx) = []" "rt_list_key (wk_runtimes w ! idx) = None"
    "set (pool_ids (wk_runtimes w ! idx)) = set (idss ! idx)" "length (wk_runtimes w) = length (we_pools env)"
    using assms(2) lt by (simp_all add: steady_def walk_ok_def)
  define d where "d = step_dice env idx w"
  have roll: "roll_over env idx d w = Inr w"
    using plain(3) rt(5) by (simp add: roll_over_def Let_def dice_key_def list_key_def d_def step_dice_def)
  define rt1 where "rt1 = (wk_runtimes w ! idx)\<lparr>rt_period :=
       map_option (span_period (we_variety env) (airs_at env w)) (rotate_span (p_rotate (we_pools env ! idx)))\<rparr>"
  define w1 where "w1 = set_period env idx (airs_at env w) w"
  have at1: "wk_runtimes w1 = (wk_runtimes w)[idx := rt1]" "wk_out w1 = wk_out w"
    by (simp_all add: w1_def rt1_def set_period_def set_runtime_def)
  have no_skip: "\<not> skips st (roll_of d c i)" using count(3) by (simp add: skips_def)
  obtain e where ref: "refill_drained env idx d w1 = Inr (w1\<lparr>wk_runtimes := (wk_runtimes w1)[idx := rt1\<lparr>rt_exhausted := e\<rparr>]\<rparr>)"
  proof (cases "is_drained rt1 \<and> \<not> rt_exhausted rt1")
    case True
    then have "refill_drained env idx d w1 = Inr (w1\<lparr>wk_runtimes := (wk_runtimes w1)[idx := rt1\<lparr>rt_exhausted := True\<rparr>]\<rparr>)"
      using plain(1) at1 rt(7) lt by (simp add: refill_drained_def refill_pool_def Let_def set_runtime_def)
    then show thesis by (rule that)
  next
    case False
    then have "refill_drained env idx d w1 = Inr (w1\<lparr>wk_runtimes := (wk_runtimes w1)[idx := rt1\<lparr>rt_exhausted := rt_exhausted rt1\<rparr>]\<rparr>)"
      using at1 rt(7) lt by (auto simp: refill_drained_def Let_def)
    then show thesis by (rule that)
  qed
  define rt2 where "rt2 = rt1\<lparr>rt_exhausted := e\<rparr>"
  define w2 where "w2 = w1\<lparr>wk_runtimes := (wk_runtimes w1)[idx := rt2]\<rparr>"
  have rt2: "rt_cfg rt2 = we_pools env ! idx" "pool_ok rt2" "\<not> is_dry rt2" "rt_take_overrides rt2 = []" "rt_list_key rt2 = None"
    "p_on_short (rt_cfg rt2) \<noteq> Short \<or> p_rotate (rt_cfg rt2) = Slot" "set (pool_ids rt2) = set (idss ! idx)"
    using rt plain(2) by (simp_all add: rt2_def rt1_def pool_ok_def is_dry_def pool_ids_def)
  have fresh: "resumed_at env c i = 0" using assms(1) by (cases "we_first env") (auto simp: resumed_at_def plain_block_def)
  have "resolve_take (Count n) (roll_of d c i) = DrawCount n" by (simp add: resolve_take_def)
  from visit_draws [OF rt2(2,3,4) this count(2) rt2(6), of "ps_from st" 0 "wk_channel w"]
  obtain out rt3 ch where vis: "visit (Count n) (ps_from st) (roll_of d c i) 0 rt2 (wk_channel w) = Inr (out, rt3, ch)"
    and out: "length out = n" by auto
  note keeps = visit_keeps [OF vis rt2(2)]
  have at2: "wk_runtimes w2 ! idx = rt2" "wk_channel w2 = wk_channel w" "wk_out w2 = wk_out w" "wk_runtimes w2 = (wk_runtimes w)[idx := rt2]"
    using rt(7) lt at1 by (simp_all add: w2_def w1_def set_period_def set_runtime_def)
  obtain w3 where step: "draw_visit env idx c i d st (roll_of d c i) w2 = Inr w3"
    and at3: "wk_runtimes w3 = (wk_runtimes w)[idx := rt3]" "wk_out w3 = wk_out w @ out"
    using vis at2 count(1) fresh
    by (simp add: draw_visit_def Let_def case_prod_beta record_visit_def set_runtime_def)
  have "steady env idss w3"
  proof (rule steady_update [OF assms(2) lt _ _ _ _ _ _ at3(1)])
    show "rt_cfg rt3 = we_pools env ! idx" "rt_take_overrides rt3 = []" "rt_list_key rt3 = None"
      using keeps rt2 by (auto simp: outline_def)
    show "pool_ok rt3" using keeps by simp
    show "set (pool_ids rt3) = set (idss ! idx)" using keeps rt2(7) outlineD(10) [of rt3 rt2] by simp
    show "\<not> is_dry rt3" using keeps rt2(3) is_dry_outline by blast
  qed
  moreover have "walk_step env c i st w = Inr w3"
    using idx roll no_skip ref step unfolding d_def [symmetric] w1_def rt2_def w2_def
    by (simp add: walk_step_def ok_or_def Let_def d_def)
  moreover have "fills (we_by_name env) idss st out"
    using idx out count(1) keeps rt2(7) by (auto simp: fills_def step_count_def)
  ultimately show ?thesis using at3(2) by blast
qed

lemma steady_steps:
  assumes "plain_block env" and "we_budget env = None"
  shows "snd ` set steps \<subseteq> set (we_pattern env) \<Longrightarrow> steady env idss w \<Longrightarrow>
    \<exists>w'. walk_steps env c steps w = Inr (False, w') \<and> steady env idss w' \<and>
       (\<exists>outs. wk_out w' = wk_out w @ concat outs \<and> list_all2 (fills (we_by_name env) idss) (map snd steps) outs)"
proof (induction steps arbitrary: w)
  case Nil
  then show ?case by simp
next
  case (Cons x steps)
  obtain i st where x: "x = (i, st)" by (cases x)
  have spent: "\<not> budget_spent env i w'" for w' using assms(2) by (simp add: budget_spent_def)
  have "steady env idss (w\<lparr>wk_stopped := (c, i)\<rparr>)" using Cons.prems(2) by (simp add: steady_def)
  from steady_step [OF assms(1) this, of st c i] Cons.prems(1) x obtain v out where
    v: "walk_step env c i st (w\<lparr>wk_stopped := (c, i)\<rparr>) = Inr v" "steady env idss v" "wk_out v = wk_out w @ out"
    "fills (we_by_name env) idss st out" by auto
  from Cons.IH [OF _ v(2)] Cons.prems(1) obtain w' outs where w': "walk_steps env c steps v = Inr (False, w')" "steady env idss w'"
    "wk_out w' = wk_out v @ concat outs" "list_all2 (fills (we_by_name env) idss) (map snd steps) outs" by auto
  have "wk_out w' = wk_out w @ concat (out # outs)" "list_all2 (fills (we_by_name env) idss) (map snd (x # steps)) (out # outs)"
    using v(3,4) w'(3,4) by (simp_all add: x)
  moreover have "walk_steps env c (x # steps) w = Inr (False, w')" using v(1) w'(1) spent by (simp add: x Let_def)
  ultimately show ?case using w'(2) by blast
qed

lemma steady_cycles:
  assumes "plain_block env" and "we_budget env = None"
  shows "steady env idss w \<Longrightarrow> \<exists>w'. walk_cycles env cs w = Inr w' \<and>
       (\<exists>outss. length outss = length cs \<and> wk_out w' = wk_out w @ concat (concat outss) \<and>
          (\<forall>outs\<in>set outss. list_all2 (fills (we_by_name env) idss) (we_pattern env) outs))"
proof (induction cs arbitrary: w)
  case Nil
  then show ?case by simp
next
  case (Cons c cs)
  have steps: "steps_of_cycle env c = List.enumerate 0 (we_pattern env)"
    using assms(1) by (cases "we_first env") (auto simp: steps_of_cycle_def plain_block_def)
  have sub: "snd ` set (List.enumerate 0 (we_pattern env)) \<subseteq> set (we_pattern env)" by (auto simp: in_set_enumerate_eq)
  from steady_steps [OF assms sub Cons.prems, of c] obtain v outs where v: "walk_steps env c (List.enumerate 0 (we_pattern env)) w = Inr (False, v)"
    "steady env idss v" "wk_out v = wk_out w @ concat outs" "list_all2 (fills (we_by_name env) idss) (we_pattern env) outs"
    unfolding map_snd_enumerate by blast
  have "steady env idss (v\<lparr>wk_stopped := (c + 1, 0)\<rparr>)" using v(2) by (simp add: steady_def)
  from Cons.IH [OF this] obtain w' outss where w': "walk_cycles env cs (v\<lparr>wk_stopped := (c + 1, 0)\<rparr>) = Inr w'"
    "length outss = length cs" "wk_out w' = wk_out v @ concat (concat outss)"
    "\<forall>outs\<in>set outss. list_all2 (fills (we_by_name env) idss) (we_pattern env) outs" by auto
  have "walk_cycles env (c # cs) w = Inr w'" using v(1) w'(1) steps by simp
  then show ?case using w'(2-4) v(3,4) by (intro exI [of _ w'] conjI exI [of _ "outs # outss"]) auto
qed

text \<open>
  A catalog that answers: no query fails, and a sort gives back the rows it was given.
\<close>

definition answers :: "catalog \<Rightarrow> bool" where
  "answers cat \<longleftrightarrow>
     (\<forall>terms ids. \<exists>out. cat_sort cat terms ids = Inr out \<and> mset out = mset ids) \<and>
     (\<forall>ids. \<exists>m. cat_durations cat ids = Inr m) \<and> (\<forall>ids. \<exists>m. cat_show_ids cat ids = Inr m) \<and>
     (\<forall>ids. \<exists>m. cat_seasons cat ids = Inr m) \<and> (\<forall>ids. \<exists>m. cat_arc_positions cat ids = Inr m) \<and>
     (\<forall>i ns. \<exists>tags. cat_tags cat i ns = Inr tags)"

lemma answered_order:
  assumes "answers cat"
  shows "\<exists>out. resolve_order cat ids ord seed = Inr out \<and> mset out = mset ids"
  using assms by (cases ord) (simp_all add: resolve_order_def answers_def)

lemma answered_source:
  assumes "answers cat" and "p_plugin cfg = None" and "fingerprint_source en cat groups cfg = Inr src"
  shows "\<exists>ids. open_source en cat groups cfg d cache = Inr (Some ids, cache) \<and> mset ids = mset src"
proof -
  have ord: "\<exists>ids. order_source cat cfg d src = Inr ids \<and> mset ids = mset src"
    using answered_order [OF assms(1)] by (simp add: order_source_def split: option.splits)
  show ?thesis using assms(2,3) ord
    by (auto simp: fingerprint_source_def open_source_def split: option.splits bool.splits)
qed

lemma answered_sources:
  assumes "answers cat" and "\<forall>p\<in>fst ` set pds. p_plugin p = None \<and> (\<exists>src. fingerprint_source en cat groups p = Inr src)"
  shows "\<exists>idss. resolve_pool_sources en cat groups inputs pds cache frozen = Inr (idss, cache, frozen) \<and>
    list_all2 (\<lambda>pd ids. \<exists>src. fingerprint_source en cat groups (fst pd) = Inr src \<and> mset ids = mset src) pds idss"
proof -
  have "\<exists>idss. open_sources en cat groups pds cache = Inr (map Some idss, cache) \<and>
      list_all2 (\<lambda>pd ids. \<exists>src. fingerprint_source en cat groups (fst pd) = Inr src \<and> mset ids = mset src) pds idss"
    using assms(2)
  proof (induction pds)
    case Nil
    then show ?case by simp
  next
    case (Cons pd pds)
    obtain p d where pd: "pd = (p, d)" by (cases pd)
    from Cons.prems obtain src where src: "p_plugin p = None" "fingerprint_source en cat groups p = Inr src" by (auto simp: pd)
    from answered_source [OF assms(1) this] obtain ids where ids: "open_source en cat groups p d cache = Inr (Some ids, cache)" "mset ids = mset src"
      by blast
    from Cons obtain idss where "open_sources en cat groups pds cache = Inr (map Some idss, cache)"
      "list_all2 (\<lambda>pd ids. \<exists>src. fingerprint_source en cat groups (fst pd) = Inr src \<and> mset ids = mset src) pds idss" by auto
    then show ?case using ids src(2) by (intro exI [of _ "ids # idss"]) (simp add: pd)
  qed
  then obtain idss where opened: "open_sources en cat groups pds cache = Inr (map Some idss, cache)"
    and lists: "list_all2 (\<lambda>pd ids. \<exists>src. fingerprint_source en cat groups (fst pd) = Inr src \<and> mset ids = mset src) pds idss"
    by blast
  have "fill_holes en cat inputs pds (map Some idss) cache frozen = Inr (idss, cache, frozen)" if "length pds = length idss" for pds idss
    using that
  proof (induction pds idss rule: list_induct2)
    case (Cons pd pds ids idss)
    then show ?case by (cases pd) simp
  qed simp
  then show ?thesis using opened lists by (auto simp: resolve_pool_sources_def dest: list_all2_lengthD)
qed

definition separable :: "pool \<Rightarrow> constraints option \<Rightarrow> bool" where
  "separable cfg block \<longleftrightarrow>
     (case c_separate_by (pool_constraints cfg block) of None \<Rightarrow> True | Some f \<Rightarrow> from_query_field f \<noteq> None)"

lemma map_res_total: "\<forall>x\<in>set xs. \<exists>y. f x = Inr y \<Longrightarrow> \<exists>ys. map_res f xs = Inr ys"
  by (induction xs) auto

lemma answered_runtime:
  assumes "answers cat" and "separable cfg block" and "rotate_span (p_rotate cfg) = None"
  shows "\<exists>rt. open_runtime en cat cfg ids block state prev d want cache = Inr rt"
proof -
  note yes = assms(1) [unfolded answers_def]
  have run: "\<exists>r. (if want \<or> needs_runtimes l then pool_runtimes cat xs else Inr ([], 0)) = Inr r" for l xs
    
  proof -
    obtain m where "cat_durations cat xs = Inr m" using yes by blast
    then show ?thesis by (simp add: pool_runtimes_def Let_def)
  qed
  have tag: "\<exists>k. tag_keys cat xs (c_separate_by (pool_constraints cfg block)) name = Inr k" for xs name
  proof (cases "c_separate_by (pool_constraints cfg block)")
    case None
    then show ?thesis by (simp add: tag_keys_def)
  next
    case (Some f)
    then obtain ns where ns: "for_separate_by f = Inr ns" using assms(2) by (auto simp: separable_def for_separate_by_def)
    have "\<exists>ys. map_res (\<lambda>i. bind_res (map_err (\<lambda>e. pool_error name (''reading '' @ debug_str f @ '' for '' @ i @ '': '' @ e)) (cat_tags cat i ns))
              (\<lambda>values. Inr (i, values))) xs = Inr ys"
    proof (intro map_res_total ballI)
      fix i
      obtain tags where "cat_tags cat i ns = Inr tags" using yes by blast
      then show "\<exists>y. bind_res (map_err (\<lambda>e. pool_error name (''reading '' @ debug_str f @ '' for '' @ i @ '': '' @ e)) (cat_tags cat i ns))
              (\<lambda>values. Inr (i, values)) = Inr y" by simp
    qed
    then show ?thesis using Some ns by (auto simp: tag_keys_def)
  qed
  have place: "\<exists>pl. place_ids cat cfg xs = Inr pl" for xs
  proof -
    obtain a b c where "cat_show_ids cat xs = Inr a" "cat_seasons cat xs = Inr b" "cat_arc_positions cat xs = Inr c" using yes by meson
    then show ?thesis by (simp add: place_ids_def split: group_by.splits option.splits)
  qed
  have bucket: "\<exists>ss'. bucket_ordered cat cfg seed ss = Inr ss'" for seed ss
  proof (cases "p_bucket_order cfg")
    case None
    then show ?thesis by (simp add: bucket_ordered_def)
  next
    case (Some ord)
    obtain out where "resolve_order cat (concat (map s_ids ss)) ord seed = Inr out" using answered_order [OF assms(1)] by blast
    then show ?thesis by (simp add: bucket_ordered_def Some)
  qed
  have "\<exists>ps. resolve_pool_series cat cfg xs block seam want seed = Inr ps" for xs seam seed
  proof -
    define l where "l = limits_of (pool_constraints cfg block)"
    obtain dur mean where r: "(if want \<or> needs_runtimes l then pool_runtimes cat xs else Inr ([], 0)) = Inr (dur, mean)"
      using run [of l xs] by auto
    obtain k where k: "tag_keys cat xs (c_separate_by (pool_constraints cfg block)) (p_name cfg) = Inr k" using tag by blast
    define ys where "ys = constrain_pool l (k\<lparr>pk_durations := dur, pk_mean_duration := mean\<rparr>) seam xs"
    obtain pl where pl: "place_ids cat cfg ys = Inr pl" using place by blast
    obtain ss where ss: "bucket_ordered cat cfg seed (group_series (p_arcs cfg) pl ys) = Inr ss" using bucket by blast
    show ?thesis
      unfolding resolve_pool_series_def Let_def l_def [symmetric] r k bind_res_simps prod.case ys_def [symmetric] pl ss by blast
  qed
  then obtain ps where ps: "resolve_pool_series cat cfg ids block (own_tail ids state) want (dice_seed d) = Inr ps" by blast
  have "titles_of cat cfg (psr_series ps) = Inr []" using assms(3) by (simp add: titles_of_def)
  then show ?thesis using ps assms(3) by (simp add: open_runtime_def Let_def)
qed

lemma empty_overrides: "sc_extras cache = Map.empty \<Longrightarrow> own_overrides cache name ids = []"
  by (induction ids) (simp_all add: own_overrides_def)

lemma resume_runtime_overrides [simp]: "rt_take_overrides (resume_runtime state prev rt) = rt_take_overrides rt"
  by (auto simp: resume_runtime_def seat_rotation_def open_after_rollover_def continue_from_def Let_def split: option.splits)

lemma open_runtime_overrides:
  assumes "open_runtime en cat cfg ids block state prev d want cache = Inr rt"
  shows "rt_take_overrides rt = own_overrides cache (p_name cfg) ids \<and> rt_list_key rt = dice_key en d cfg"
  using assms by (auto simp: open_runtime_def Let_def bind_res_Inr_iff fresh_runtime_def rt_remember_def split: if_splits)

lemma answered_runtimes:
  assumes "answers cat" and "sc_extras cache = Map.empty"
  shows "length pds = length idss \<Longrightarrow> \<forall>(p, d)\<in>set pds. separable p block \<and> rotate_span (p_rotate p) = None \<and> \<not> dice_rotates d \<Longrightarrow>
     [] \<notin> set idss \<Longrightarrow>
     \<exists>rts. open_runtimes en cat block state want cache pds idss = Inr rts \<and>
       list_all2 (\<lambda>rt ids. \<not> is_dry rt \<and> rt_take_overrides rt = [] \<and> rt_list_key rt = None \<and> set (pool_ids rt) = set ids) rts idss"
proof (induction pds idss rule: list_induct2)
  case Nil
  then show ?case by simp
next
  case (Cons pd pds ids idss)
  obtain p d where pd: "pd = (p, d)" by (cases pd)
  obtain rt where rt: "open_runtime en cat p ids block state (resume_pool (gs_resume state) (p_name p)) d want cache = Inr rt"
    using answered_runtime [OF assms(1)] Cons.prems(1) by (force simp: pd)
  have ids: "mset (pool_ids rt) = mset ids" using open_runtime_facts [OF rt] by simp
  then have "\<not> is_dry rt" using Cons.prems(2) by (auto simp: is_dry_def pool_ids_def)
  moreover have "rt_take_overrides rt = []" "rt_list_key rt = None"
    using open_runtime_overrides [OF rt] empty_overrides [OF assms(2)] Cons.prems(1) by (auto simp: dice_key_def list_key_def pd)
  moreover have "set (pool_ids rt) = set ids" using ids by (metis set_mset_mset)
  moreover obtain rts where "open_runtimes en cat block state want cache pds idss = Inr rts"
    "list_all2 (\<lambda>rt ids. \<not> is_dry rt \<and> rt_take_overrides rt = [] \<and> rt_list_key rt = None \<and> set (pool_ids rt) = set ids) rts idss"
    using Cons by auto
  ultimately show ?case using rt by (intro exI [of _ "rt # rts"]) (simp add: pd)
qed

text \<open>
  What a block asks of its pools and its pattern to be filled whatever the catalog holds: every pool
  is a query or group pool whose source names something; it rotates by visit or slot, on no dice,
  and passes on when a series runs short; every step names a pool and takes a plain count.
\<close>

definition fillable :: "engine \<Rightarrow> catalog \<Rightarrow> show_group list \<Rightarrow> constraints option \<Rightarrow> variety \<Rightarrow> pool \<Rightarrow> bool" where
  "fillable en cat groups block v p \<longleftrightarrow>
     p_plugin p = None \<and> (\<exists>src. fingerprint_source en cat groups p = Inr src \<and> src \<noteq> []) \<and> separable p block \<and>
     rotate_span (p_rotate p) = None \<and> (p_on_short p \<noteq> Short \<or> p_rotate p = Slot) \<and> (\<forall>t. \<not> dice_rotates (dice_at v t (Some p)))"

definition plain_step :: "pool list \<Rightarrow> pattern_step \<Rightarrow> bool" where
  "plain_step pools st \<longleftrightarrow> ps_pool st \<in> p_name ` set pools \<and> 1 \<le> ps_chance st \<and> (\<exists>n. ps_take st = Count n \<and> n \<le> max_take)"

text \<open>The items of one step of one cycle: as many as the step counts, all from the pool it names.\<close>

definition step_filled :: "engine \<Rightarrow> catalog \<Rightarrow> show_group list \<Rightarrow> pool list \<Rightarrow> pattern_step \<Rightarrow> string list \<Rightarrow> bool" where
  "step_filled en cat groups pools st out \<longleftrightarrow> ps_take st = Count (length out) \<and>
     (\<exists>p\<in>set pools. \<exists>src. p_name p = ps_pool st \<and> fingerprint_source en cat groups p = Inr src \<and> set out \<subseteq> set src)"

lemma index_names_Some: "index_names pools name = Some idx \<Longrightarrow> idx < length pools \<and> p_name (pools ! idx) = name"
  by (auto simp: index_names_def in_set_zip dest!: map_of_SomeD)

lemma index_names_total: "name \<in> p_name ` set pools \<Longrightarrow> \<exists>idx. index_names pools name = Some idx"
proof -
  assume "name \<in> p_name ` set pools"
  then have "name \<in> fst ` set (rev (zip (map p_name pools) [0..<length pools]))" by (simp add: set_map [symmetric] del: set_map)
  then show ?thesis unfolding index_names_def by (metis map_of_eq_None_iff not_None_eq)
qed

lemma fillable_block_fills:
  assumes "answers cat" and "\<forall>p\<in>set pools. fillable en cat groups block v p" and "\<forall>st\<in>set pattern. plain_step pools st"
    and "snd (opening_position pools state (en_pattern_id en pattern)) = (0, 0)" and "m \<le> max_cycles"
  shows "\<exists>b cache' outss. build_with_cache en cat pools groups pattern (Some m) block state v start inputs fill rule cache = Inr (b, cache') \<and>
           length outss = m \<and> bb_ids b = concat (concat outss) \<and> (\<forall>outs\<in>set outss. list_all2 (step_filled en cat groups pools) pattern outs)"
proof -
  define env where "env = block_env en cat pools groups pattern (Some m) block state v start inputs fill"
  define pds where "pds = zip pools (opening_dice v start pools)"
  define c0 where "c0 = cache\<lparr>sc_extras := Map.empty\<rparr>"
  have fields: "we_pools env = pools" "we_pattern env = pattern" "we_variety env = v" "we_budget env = None" "we_by_name env = index_names pools"
    "we_first env = opening_position pools state (en_pattern_id en pattern)"
    by (simp_all add: env_def block_env_def Let_def)
  obtain fc where first: "we_first env = (fc, 0, 0)" using assms(4) fields(6) by (metis prod.collapse)
  have pds: "map fst pds = pools" "length pds = length pools" by (simp_all add: pds_def opening_dice_def)
  have in_pds: "p \<in> set pools \<and> d = dice_at v start (Some p)" if "(p, d) \<in> set pds" for p d
    using that by (auto simp: pds_def opening_dice_def set_zip)
  have pools: "fst ` set pds = set pools" using pds(1) by (metis list.set_map)
  have "\<forall>p\<in>fst ` set pds. p_plugin p = None \<and> (\<exists>src. fingerprint_source en cat groups p = Inr src)"
    unfolding pools using assms(2) by (auto simp: fillable_def)
  from answered_sources [OF assms(1) this] obtain idss where
    src: "resolve_pool_sources en cat groups inputs pds c0 (rm_lists (gs_resume state)) = Inr (idss, c0, rm_lists (gs_resume state))"
    and lists: "list_all2 (\<lambda>pd ids. \<exists>src. fingerprint_source en cat groups (fst pd) = Inr src \<and> mset ids = mset src) pds idss"
    by blast
  have len: "length pds = length idss" using lists by (simp add: list_all2_lengthD)
  have from_src: "\<exists>src. fingerprint_source en cat groups (pools ! k) = Inr src \<and> mset (idss ! k) = mset src" if "k < length pools" for k
    using list_all2_nthD [OF lists, of k] that pds by (metis nth_map)
  have "idss ! k \<noteq> []" if k: "k < length pools" for k
  proof -
    have "fillable en cat groups block v (pools ! k)" using assms(2) k by simp
    then show ?thesis using from_src [OF k] by (auto simp: fillable_def)
  qed
  then have nonempty: "[] \<notin> set idss" using len pds(2) by (auto simp: in_set_conv_nth)
  have "\<forall>(p, d)\<in>set pds. separable p block \<and> rotate_span (p_rotate p) = None \<and> \<not> dice_rotates d"
    using in_pds assms(2) by (fastforce simp: fillable_def)
  from answered_runtimes [OF assms(1) _ len this nonempty, of c0 en state "we_measure env"] obtain rts where
    rts: "open_runtimes en cat block state (we_measure env) c0 pds idss = Inr rts"
    and each: "list_all2 (\<lambda>rt ids. \<not> is_dry rt \<and> rt_take_overrides rt = [] \<and> rt_list_key rt = None \<and> set (pool_ids rt) = set ids) rts idss"
    by (auto simp: c0_def)
  have cfgs: "map rt_cfg rts = pools" "\<forall>rt\<in>set rts. pool_ok rt" using open_runtimes_ok [OF rts] len pds by simp_all
  define w0 where "w0 = opening_walk env rts (channel_history_new cat rule) c0 (rm_lists (gs_resume state))"
  have lens: "length rts = length pools" using cfgs(1) by (metis length_map)
  have "\<forall>k < length pools. rt_cfg (rts ! k) = pools ! k" using cfgs(1) by (metis length_map nth_map)
  then have steady: "steady env idss w0"
    using list_all2_nthD [OF each] cfgs(2) lens nth_mem by (simp add: steady_def walk_ok_def fields w0_def opening_walk_def)
  have steps: "\<exists>idx n. index_names pools (ps_pool st) = Some idx \<and> idx < length pools \<and>
        ps_take st = Count n \<and> n \<le> max_take \<and> 1 \<le> ps_chance st" if "st \<in> set pattern" for st
  proof -
    have st: "plain_step pools st" using assms(3) that by blast
    then obtain idx where "index_names pools (ps_pool st) = Some idx" using index_names_total unfolding plain_step_def by blast
    then show ?thesis using index_names_Some st unfolding plain_step_def by blast
  qed
  have "p_plugin p = None \<and> (p_on_short p \<noteq> Short \<or> p_rotate p = Slot) \<and> (\<forall>t. \<not> dice_rotates (dice_at v t (Some p)))"
    if "p \<in> set pools" for p
    using assms(2) that unfolding fillable_def by blast
  then have plain: "plain_block env" using steps assms(4) unfolding plain_block_def fields by simp
  from steady_cycles [OF plain fields(4) steady, of "[fc..<fc + m]"] obtain w outss where
    walk: "walk_cycles env [fc..<fc + m] w0 = Inr w" and len': "length outss = m" and out: "wk_out w = concat (concat outss)"
    and outs: "\<forall>outs\<in>set outss. list_all2 (fills (index_names pools) idss) pattern outs"
    by (auto simp: fields w0_def opening_walk_def)
  have "step_filled en cat groups pools st out" if st: "st \<in> set pattern" and drawn: "fills (index_names pools) idss st out" for st out
  proof -
    obtain idx where idx: "index_names pools (ps_pool st) = Some idx" "set out \<subseteq> set (idss ! idx)" "length out = step_count st"
      using drawn by (auto simp: fills_def)
    note at = index_names_Some [OF idx(1)]
    obtain src where "fingerprint_source en cat groups (pools ! idx) = Inr src" "set (idss ! idx) = set src"
      using from_src at by (metis set_mset_mset)
    moreover have "ps_take st = Count (length out)"
      using assms(3) st idx(3) by (auto simp: plain_step_def step_count_def)
    ultimately show ?thesis using at idx(2) unfolding step_filled_def by (metis nth_mem)
  qed
  then have filled: "\<forall>outs\<in>set outss. list_all2 (step_filled en cat groups pools) pattern outs"
    using outs by (blast intro: list.rel_mono_strong)
  have "build_with_cache en cat pools groups pattern (Some m) block state v start inputs fill rule cache = Inr (finish_build env w, wk_cache w)"
    using assms(5) src rts walk unfolding build_with_cache_def env_def [symmetric] pds_def [symmetric] c0_def [symmetric]
    by (simp add: Let_def first cycle_count_def w0_def)
  then show ?thesis using out len' filled by (intro exI) (auto simp: finish_build_def Let_def)
qed


section \<open>A block of two films\<close>

definition film_catalog :: catalog where
  "film_catalog = sample_catalog\<lparr>cat_query := (\<lambda>_. Inr [''x'', ''y''])\<rparr>"

definition one_film :: pattern_step where
  "one_film = \<lparr>ps_pool = ''p'', ps_take = Count 1, ps_from = FromStart, ps_chance = 1\<rparr>"

abbreviation film_engine :: engine where
  "film_engine \<equiv> engine_of (script_returning [] [])"

definition film_block :: "nat \<Rightarrow> (block_build \<times> score_cache) result" where
  "film_block m =
     build_with_cache film_engine film_catalog [sample_cfg] [] [one_film] (Some m) None generation_state_empty (variety_fixed 0) 0
       plain_inputs None None score_cache_new"

lemma film_dice: "dice_at (variety_fixed 0) t (Some sample_cfg) = fixed_dice 0"
  by (simp add: dice_at_def variety_fixed_def sample_cfg_def seed_source_def temperature_source_def Let_def fixed_dice_def
      seed_for_def temperature_for_def)

lemma film_opening: "opening_position [sample_cfg] generation_state_empty pid = (0, 0, 0)"
proof -
  have "resuming_records [sample_cfg] generation_state_empty = []"
    by (simp add: resuming_records_def resume_pool_def generation_state_empty_def resume_default_def resume_new_def map_filter_def)
  then show ?thesis by (simp add: opening_position_def Let_def first_cycle_of_def first_step_of_def first_done_of_def)
qed

lemma film_fields: "p_plugin sample_cfg = None" "p_on_short sample_cfg = NextSeries" "p_rotate sample_cfg = Visit" "p_name sample_cfg = ''p''"
  "p_advance sample_cfg = ResumeAdvance" "\<not> dice_rotates (fixed_dice 0)" "dice_seed (fixed_dice 0) = 0"
  by (simp_all add: sample_cfg_def dice_rotates_def fixed_dice_def)

lemma film_answers: "answers film_catalog"
  by (simp add: answers_def film_catalog_def sample_catalog_def)

lemma film_fillable: "fillable film_engine film_catalog [] None (variety_fixed 0) sample_cfg"
proof -
  have "fingerprint_source film_engine film_catalog [] sample_cfg = Inr [''x'', ''y'']"
    by (simp add: fingerprint_source_def sample_cfg_def film_catalog_def)
  moreover have "c_separate_by (pool_constraints sample_cfg None) = None"
    by (simp add: pool_constraints_def sample_cfg_def constraints_default_def)
  ultimately show ?thesis by (simp add: fillable_def separable_def film_fields film_dice)
qed

lemma film_step: "plain_step [sample_cfg] one_film"
  by (simp add: plain_step_def film_fields one_film_def max_take_def)

lemma film_sources:
  "resolve_pool_sources film_engine film_catalog [] plain_inputs [(sample_cfg, d)] (score_cache_new\<lparr>sc_extras := Map.empty\<rparr>)
     (rm_lists (gs_resume generation_state_empty)) =
   Inr ([[''x'', ''y'']], score_cache_new\<lparr>sc_extras := Map.empty\<rparr>, rm_lists (gs_resume generation_state_empty))"
proof -
  have "p_expr sample_cfg = Some ''x''" "p_groups sample_cfg = []" "p_order sample_cfg = None" "cat_query film_catalog e = Inr [''x'', ''y'']" for e
    by (simp_all add: sample_cfg_def film_catalog_def)
  then show ?thesis by (simp add: resolve_pool_sources_def open_source_def order_source_def film_fields)
qed

lemma film_series: "resolve_pool_series film_catalog sample_cfg [''x'', ''y''] None seam False 0 =
    Inr \<lparr>psr_series = [new_series ''x'' [''x''], new_series ''y'' [''y'']], psr_limits = limits_default, psr_keys = pool_keys_default,
         psr_runtimes = [], psr_mean = 0\<rparr>"
proof -
  have "place_ids film_catalog sample_cfg [''x'', ''y''] = Inr \<lparr>pl_show_ids = [], pl_seasons = [], pl_arcs = []\<rparr>"
    by (simp add: place_ids_def film_catalog_def sample_catalog_def sample_cfg_def)
  moreover have "group_series None \<lparr>pl_show_ids = [], pl_seasons = [], pl_arcs = []\<rparr> [''x'', ''y''] =
      [new_series ''x'' [''x''], new_series ''y'' [''y'']]"
    by (simp add: group_series_def add_to_series_def series_key_of_def show_key_of_def arc_of_def open_series_def new_series_def Let_def)
  moreover have "bucket_ordered film_catalog sample_cfg 0 ss = Inr ss" "p_arcs sample_cfg = None" for ss
    by (simp_all add: bucket_ordered_def sample_cfg_def)
  moreover have "pool_keys_default\<lparr>pk_durations := [], pk_mean_duration := 0\<rparr> = pool_keys_default" by (simp add: pool_keys_default_def)
  ultimately show ?thesis by (simp add: resolve_pool_series_def Let_def tag_keys_def constrain_pool_def)
qed

lemma film_dices: "zip [sample_cfg] (opening_dice (variety_fixed 0) 0 [sample_cfg]) = [(sample_cfg, fixed_dice 0)]"
  by (simp add: opening_dice_def film_dice)

lemma filled_length: "list_all2 (step_filled en cat groups pools) pattern outs \<Longrightarrow> length (concat outs) = sum_list (map step_count pattern)"
  by (induction pattern outs rule: list_all2_induct) (auto simp: step_filled_def step_count_def)

lemma film_built:
  obtains b cache where "film_block 3 = Inr (b, cache)" "length (bb_ids b) = 3"
proof -
  have "snd (opening_position [sample_cfg] generation_state_empty (en_pattern_id film_engine [one_film])) = (0, 0)" by (simp add: film_opening)
  from fillable_block_fills [OF film_answers _ _ this, of "[]" None "variety_fixed 0" 3 0 plain_inputs None None score_cache_new] obtain b cache outss where
    b: "film_block 3 = Inr (b, cache)" "length outss = 3" "bb_ids b = concat (concat outss)"
    "\<forall>outs\<in>set outss. list_all2 (step_filled film_engine film_catalog [] [sample_cfg]) [one_film] outs"
    unfolding film_block_def using film_fillable film_step by (auto simp: max_cycles_def)
  have "length (concat outs) = 1" if "outs \<in> set outss" for outs
    using filled_length [OF bspec [OF b(4) that]] by (simp add: step_count_def one_film_def)
  then have "length (concat (concat outss)) = length outss" by (induction outss) auto
  then have "length (bb_ids b) = 3" using b(2,3) by simp
  then show thesis using that b(1) by blast
qed


theorem generation_records_every_item_witness:
  "\<exists>b cache. film_block 3 = Inr (b, cache) \<and> length (bb_progress b) = 4 \<and> length (bb_audits b) = 3"
proof -
  obtain b cache where b: "film_block 3 = Inr (b, cache)" "length (bb_ids b) = 3" by (rule film_built)
  show ?thesis using generation_records_every_item [OF b(1) [unfolded film_block_def]] b by auto
qed


definition budgeted_films :: walk_env where
  "budgeted_films =
     block_env film_engine film_catalog [sample_cfg] [] [one_film] None None generation_state_empty (variety_fixed 0) 0 plain_inputs (Some 1)"

theorem walk_overshoots_by_one_visit_witness:
  "\<exists>w'. walk_cycles budgeted_films [0..<0 + 1] (opening_walk budgeted_films [two_series] sample_history score_cache_new []) = Inr w' \<and>
     length (wk_out w') = 1 \<and> (wk_laid w' < 1 \<longrightarrow> wk_stopped w' = (1, 0))"
proof -
  let ?w = "opening_walk budgeted_films [two_series] sample_history score_cache_new []"
  have fields: "we_pools budgeted_films = [sample_cfg]" "we_pattern budgeted_films = [one_film]" "we_budget budgeted_films = Some 1"
    "we_stop_at_visit budgeted_films" "we_first budgeted_films = (0, 0, 0)"
    by (simp_all add: budgeted_films_def block_env_def Let_def film_opening stops_at_visit_def film_fields)
  have plain: "plain_block budgeted_films"
    by (simp add: budgeted_films_def plain_block_def block_env_def Let_def film_opening film_dice film_fields index_names_def one_film_def max_take_def)
  have laid: "wk_laid ?w = 0" by (simp add: opening_walk_def)
  have "steady budgeted_films [[''m'', ''e1'', ''e2'', ''e3'']] (?w\<lparr>wk_stopped := (0, 0)\<rparr>)"
    using two_series_ok by (simp add: steady_def walk_ok_def fields opening_walk_def two_series_def sample_runtime_def
        pool_ids_def new_series_def)
  from steady_step [OF plain this, of one_film 0 0] obtain v where
    v: "walk_step budgeted_films 0 0 one_film (?w\<lparr>wk_stopped := (0, 0)\<rparr>) = Inr v" and out: "length (wk_out v) = 1"
    by (auto simp: fields opening_walk_def one_film_def step_count_def fills_def)
  have "\<not> budget_spent budgeted_films 0 ?w" by (simp add: budget_spent_def fields laid)
  then have walk: "walk_cycles budgeted_films [0..<0 + 1] ?w = Inr (v\<lparr>wk_stopped := (1, 0)\<rparr>)"
    using v by (simp add: steps_of_cycle_def fields Let_def)
  from walk_overshoots_by_one_visit [OF walk fields(3)] show ?thesis
    using walk out by (simp add: fields laid)
qed

end
