(* ===== verification/Schedule.thy ===== *)
theory Schedule
  imports Config
begin

text \<open>
  \<open>config/schedule.rs\<close>: the clock ranges and date spans of \<open>rule.schedules\<close> with their parsers
  and printers, and which placement a schedule makes at a local minute. A local day of the
  \<open>time\<close> crate is its number of days since the Unix epoch in the proleptic Gregorian calendar.
\<close>

section \<open>The calendar of days\<close>

type_synonym date = int

definition is_leap :: "int \<Rightarrow> bool" where
  "is_leap y \<longleftrightarrow> y mod 4 = 0 \<and> (y mod 100 \<noteq> 0 \<or> y mod 400 = 0)"

definition month_length :: "int \<Rightarrow> nat \<Rightarrow> nat" where
  "month_length y m = (if m = 2 then (if is_leap y then 29 else 28) else if m \<in> {4, 6, 9, 11} then 30 else 31)"

text \<open>Days from 1 January of year 1 to 1 January of \<open>y\<close>.\<close>

definition days_before_year :: "int \<Rightarrow> int" where
  "days_before_year y = 365 * (y - 1) + (y - 1) div 4 - (y - 1) div 100 + (y - 1) div 400"

definition epoch_days :: int where "epoch_days = 719162"

fun days_before_month :: "int \<Rightarrow> nat \<Rightarrow> nat" where
  "days_before_month y 0 = 0"
| "days_before_month y (Suc 0) = 0"
| "days_before_month y (Suc (Suc m)) = days_before_month y (Suc m) + month_length y (Suc m)"

definition date_of :: "int \<Rightarrow> nat \<Rightarrow> nat \<Rightarrow> date" where
  "date_of y m d = days_before_year y - epoch_days + int (days_before_month y m) + int d - 1"

definition from_calendar_date :: "int \<Rightarrow> nat \<Rightarrow> nat \<Rightarrow> date option" where
  "from_calendar_date y m d =
     (if - 9999 \<le> y \<and> y \<le> 9999 \<and> 1 \<le> d \<and> d \<le> month_length y m then Some (date_of y m d) else None)"

definition date_min :: date where "date_min = date_of (- 9999) 1 1"
definition date_max :: date where "date_max = date_of 9999 12 31"

definition previous_day :: "date \<Rightarrow> date option" where
  "previous_day d = (if d \<le> date_min then None else Some (d - 1))"

definition next_day :: "date \<Rightarrow> date option" where
  "next_day d = (if date_max \<le> d then None else Some (d + 1))"

definition year_of :: "date \<Rightarrow> int" where
  "year_of d =
     (let n = d + epoch_days; y = n * 400 div 146097 + 1 in
      if n < days_before_year y then y - 1 else if days_before_year (y + 1) \<le> n then y + 1 else y)"

definition ordinal_of :: "date \<Rightarrow> nat" where
  "ordinal_of d = nat (d + epoch_days - days_before_year (year_of d))"

fun month_walk :: "int \<Rightarrow> nat \<Rightarrow> nat list \<Rightarrow> nat \<times> nat" where
  "month_walk y ord [] = (12, 31)"
| "month_walk y ord (m # ms) =
     (if ord < month_length y m then (m, ord + 1) else month_walk y (ord - month_length y m) ms)"

definition month_day :: "date \<Rightarrow> nat \<times> nat" where
  "month_day d = month_walk (year_of d) (ordinal_of d) [1..<13]"

subsection \<open>Days and dates correspond\<close>

lemma year_length: "days_before_year (y + 1) - days_before_year y = (if is_leap y then 366 else 365)"
proof -
  have d: "y div k - (y - 1) div k = (if y mod k = 0 then 1 else 0)" if k: "0 < k" for k :: int
  proof (cases "y mod k = 0")
    case True
    have "y - 1 = k * (y div k - 1) + (k - 1)" using True div_mult_mod_eq [of y k] by (simp add: algebra_simps)
    then have "(y - 1) div k = y div k - 1" by (rule int_div_pos_eq) (use k in simp_all)
    then show ?thesis using True by simp
  next
    case False
    have "y - 1 = k * (y div k) + (y mod k - 1)" using div_mult_mod_eq [of y k] by (simp add: algebra_simps)
    then have "(y - 1) div k = y div k"
      by (rule int_div_pos_eq) (use False pos_mod_sign [OF k, of y] pos_mod_bound [OF k, of y] in simp_all)
    then show ?thesis using False by simp
  qed
  have m: "y mod 100 = 0 \<Longrightarrow> y mod 4 = 0" "y mod 400 = 0 \<Longrightarrow> y mod 100 = 0"
    unfolding mod_eq_0_iff_dvd by (rule dvd_trans [rotated], assumption, simp)+
  have aux: "365 + (if p then 1 else 0) - (if q then 1 else 0) + (if r then 1 else 0) = (if p \<and> (\<not> q \<or> r) then 366 else 365 :: int)"
    if "q \<longrightarrow> p" "r \<longrightarrow> q" for p q r
    using that by (cases p; cases q; cases r) simp_all
  have "days_before_year (y + 1) - days_before_year y =
      365 + (y div 4 - (y - 1) div 4) - (y div 100 - (y - 1) div 100) + (y div 400 - (y - 1) div 400)"
    unfolding days_before_year_def add_diff_cancel_right' by (simp only: right_diff_distrib mult_1_right)
  also have "\<dots> = 365 + (if y mod 4 = 0 then 1 else 0) - (if y mod 100 = 0 then 1 else 0) + (if y mod 400 = 0 then 1 else 0)"
    by (simp only: d [OF zero_less_numeral] diff_add_eq)
  also have "\<dots> = (if is_leap y then 366 else 365)"
    unfolding is_leap_def by (rule aux) (use m in blast)+
  finally show ?thesis .
qed

lemma days_before_year_mono: "y \<le> z \<Longrightarrow> days_before_year y \<le> days_before_year z"
proof (induction z rule: int_ge_induct)
  case (step z)
  have "days_before_year z \<le> days_before_year (z + 1)"
    using year_length [of z] by (cases "is_leap z") simp_all
  with step show ?case by linarith
qed simp

lemma year_bounds:
  fixes d :: date
  defines "n \<equiv> d + epoch_days"
  shows "days_before_year (year_of d) \<le> n \<and> n < days_before_year (year_of d + 1)"
proof -
  have dv: "a div k * k \<le> a" "a < a div k * k + k" if "0 < k" for a k :: int
    using div_mult_mod_eq [of a k] pos_mod_bound [OF that, of a] pos_mod_sign [OF that, of a] by linarith+
  obtain y where y: "y = n * 400 div 146097 + 1" by simp
  have q: "(y - 1) * 146097 \<le> n * 400" "n * 400 < (y - 1) * 146097 + 146097"
    unfolding y add_diff_cancel by (rule dv, simp)+
  have lo: "400 * days_before_year z \<le> 146097 * (z - 1) + 400" for z
    using dv [of 4 "z - 1"] dv [of 100 "z - 1"] dv [of 400 "z - 1"] by (simp add: days_before_year_def)
  have hi: "146097 * (z - 1) - 700 \<le> 400 * days_before_year z" for z
    using dv [of 4 "z - 1"] dv [of 100 "z - 1"] dv [of 400 "z - 1"] by (simp add: days_before_year_def)
  have "days_before_year (y - 1) \<le> n" "n < days_before_year (y + 2)"
    using lo [of "y - 1"] hi [of "y + 2"] q unfolding right_diff_distrib distrib_left by (simp_all only: mult_1_right; simp)+
  then show ?thesis
    unfolding year_of_def Let_def n_def [symmetric] y [symmetric] by (auto simp: add.assoc)
qed

lemma year_unique:
  assumes "days_before_year y \<le> d + epoch_days" and "d + epoch_days < days_before_year (y + 1)"
  shows "year_of d = y"
proof (rule ccontr)
  assume "year_of d \<noteq> y"
  then consider "year_of d + 1 \<le> y" | "y + 1 \<le> year_of d" by linarith
  then show False
    using days_before_year_mono year_bounds [of d] assms by cases fastforce+
qed

lemma month_length_pos [simp]: "0 < month_length y m" "month_length y m \<le> 31" "28 \<le> month_length y m"
  by (simp_all add: month_length_def)

lemma days_before_month_step: "1 \<le> m \<Longrightarrow> days_before_month y (Suc m) = days_before_month y m + month_length y m"
  by (cases m) simp_all

lemma year_days: "days_before_month y 13 = (if is_leap y then 366 else 365)"
  by (simp add: numeral_eq_Suc month_length_def)

lemma days_before_month_mono: "1 \<le> m \<Longrightarrow> m \<le> n \<Longrightarrow> days_before_month y m \<le> days_before_month y n"
proof -
  assume m: "1 \<le> m" and "m \<le> n"
  from this(2) show ?thesis
  proof (induction n rule: dec_induct)
    case (step k)
    then show ?case using m by (simp add: days_before_month_step trans_le_add1)
  qed simp
qed

lemma date_of_year:
  assumes "1 \<le> m" and "m \<le> 12" and "1 \<le> d" and "d \<le> month_length y m"
  shows "year_of (date_of y m d) = y"
    and "ordinal_of (date_of y m d) = days_before_month y m + d - 1"
proof -
  have "days_before_month y m + d \<le> days_before_month y (Suc m)"
    using assms by (simp add: days_before_month_step)
  also have "\<dots> \<le> days_before_month y 13" using assms by (intro days_before_month_mono) simp_all
  finally have "int (days_before_month y m) + int d \<le> days_before_year (y + 1) - days_before_year y"
    using year_length [of y] year_days [of y] by (simp split: if_splits)
  then show y: "year_of (date_of y m d) = y"
    using assms by (intro year_unique) (simp_all add: date_of_def)
  show "ordinal_of (date_of y m d) = days_before_month y m + d - 1"
    using assms unfolding ordinal_of_def y by (simp add: date_of_def)
qed

lemma month_walk_from:
  assumes "1 \<le> m" and "m \<le> 12" and "1 \<le> d" and "d \<le> month_length y m"
    and "1 \<le> j" and "j \<le> m"
  shows "month_walk y (days_before_month y m - days_before_month y j + d - 1) [j..<13] = (m, d)"
  using assms(5,6)
proof (induction "m - j" arbitrary: j)
  case 0
  then have "j = m" by simp
  then show ?case using assms by (auto simp: upt_conv_Cons)
next
  case (Suc n)
  then have j: "Suc j \<le> m" by simp
  have le: "days_before_month y (Suc j) \<le> days_before_month y m" using j Suc.prems by (intro days_before_month_mono) simp_all
  then have "\<not> days_before_month y m - days_before_month y j + d - 1 < month_length y j"
    using assms(3) Suc.prems by (simp add: days_before_month_step)
  moreover have "days_before_month y m - days_before_month y j + d - 1 - month_length y j =
      days_before_month y m - days_before_month y (Suc j) + d - 1"
    using le Suc.prems by (simp add: days_before_month_step)
  moreover have "month_walk y (days_before_month y m - days_before_month y (Suc j) + d - 1) [Suc j..<13] = (m, d)"
    by (rule Suc.hyps(1)) (use Suc.hyps(2) j in simp_all)
  ultimately show ?case using j assms(2) by (simp add: upt_conv_Cons)
qed

lemma month_day_of_date:
  "1 \<le> m \<Longrightarrow> m \<le> 12 \<Longrightarrow> 1 \<le> d \<Longrightarrow> d \<le> month_length y m \<Longrightarrow> month_day (date_of y m d) = (m, d)"
  using month_walk_from [of m d y 1] by (simp add: month_day_def date_of_year)

section \<open>Days of the week\<close>

datatype day_name = Mon | Tue | Wed | Thu | Fri | Sat | Sun

text \<open>The first day of the epoch was a Thursday.\<close>

definition day_name_of :: "date \<Rightarrow> day_name" where
  "day_name_of d = [Mon, Tue, Wed, Thu, Fri, Sat, Sun] ! nat ((d + 3) mod 7)"

section \<open>Clock ranges\<close>

text \<open>\<open>str::split_once("..")\<close>.\<close>

fun split_dots :: "string \<Rightarrow> (string \<times> string) option" where
  "split_dots (c # d # cs) =
     (if c = CHR ''.'' \<and> d = CHR ''.'' then Some ([], cs)
      else map_option (\<lambda>(a, b). (c # a, b)) (split_dots (d # cs)))"
| "split_dots _ = None"

definition u16_max :: nat where "u16_max = 65535"
definition u8_max :: nat where "u8_max = 255"

datatype clock_range = ClockRange (cr_start: nat) (cr_end: nat)

text \<open>The derived order, by which \<open>hours\<close> is kept sorted.\<close>

instantiation clock_range :: linorder
begin

definition less_eq_clock_range :: "clock_range \<Rightarrow> clock_range \<Rightarrow> bool" where
  "r \<le> s \<longleftrightarrow> cr_start r < cr_start s \<or> (cr_start r = cr_start s \<and> cr_end r \<le> cr_end s)"

definition less_clock_range :: "clock_range \<Rightarrow> clock_range \<Rightarrow> bool" where
  "r < s \<longleftrightarrow> cr_start r < cr_start s \<or> (cr_start r = cr_start s \<and> cr_end r < cr_end s)"

instance
  by standard (auto simp: less_eq_clock_range_def less_clock_range_def clock_range.expand)

end

definition wraps :: "clock_range \<Rightarrow> bool" where
  "wraps r \<longleftrightarrow> cr_end r < cr_start r"

definition range_spans :: "clock_range \<Rightarrow> (nat \<times> nat) list" where
  "range_spans r = (if wraps r then [(cr_start r, 1440), (0, cr_end r)] else [(cr_start r, cr_end r)])"

definition parse_clock :: "string \<Rightarrow> nat result" where
  "parse_clock s =
     (let (h, m) = (case split_once (CHR '':'') s of Some (h, m) \<Rightarrow> (h, m) | None \<Rightarrow> (s, ''00''));
          bad = debug_str s @ '' is not a time; write HH or HH:MM'' in
      if length h \<noteq> 2 \<or> length m \<noteq> 2 then Inl bad
      else case (parse_uint u16_max h, parse_uint u16_max m) of
        (Some h, Some m) \<Rightarrow>
          if m > 59 \<or> h > 24 \<or> (h = 24 \<and> m \<noteq> 0)
          then Inl (debug_str s @ '' is not a time of day (00:00 to 24:00)'')
          else Inr (h * 60 + m)
      | _ \<Rightarrow> Inl bad)"

definition fmt_clock :: "nat \<Rightarrow> string" where
  "fmt_clock minute = dec2 (minute div 60) @ '':'' @ dec2 (minute mod 60)"

definition parse_clock_range :: "string \<Rightarrow> clock_range result" where
  "parse_clock_range s =
     (case split_dots s of
        None \<Rightarrow> Inl (debug_str s @ '' is not a range; write '' @ debug_str ''HH:MM..HH:MM'')
      | Some (a, b) \<Rightarrow>
          bind_res (parse_clock (trim a)) (\<lambda>start.
          bind_res (parse_clock (trim b)) (\<lambda>end.
          if start = 1440 then Inl (debug_str s @ '' starts at 24:00; write 00:00'')
          else if start = end
          then Inl (debug_str s @ '' is empty; write '' @ debug_str ''00..24'' @ '' for the whole day'')
          else Inr (ClockRange start end))))"

definition print_clock_range :: "clock_range \<Rightarrow> string" where
  "print_clock_range r = fmt_clock (cr_start r) @ ''..'' @ fmt_clock (cr_end r)"

section \<open>Date spans\<close>

datatype date_span =
    Annual "nat \<times> nat" "nat \<times> nat"
  | Fixed date date

definition md_le :: "nat \<times> nat \<Rightarrow> nat \<times> nat \<Rightarrow> bool" where
  "md_le a b \<longleftrightarrow> fst a < fst b \<or> (fst a = fst b \<and> snd a \<le> snd b)"

fun span_contains :: "date_span \<Rightarrow> date \<Rightarrow> bool" where
  "span_contains (Annual a b) date =
     (let md = month_day date in if md_le a b then md_le a md \<and> md_le md b else md_le a md \<or> md_le md b)"
| "span_contains (Fixed a b) date = (a \<le> date \<and> date \<le> b)"

datatype date_part = AnnualPart nat nat | FixedPart date

definition parse_month_day :: "string \<Rightarrow> string \<Rightarrow> (nat \<times> nat) result" where
  "parse_month_day s whole =
     (case split_once (CHR ''-'') s of
        None \<Rightarrow> Inl (debug_str whole @ '': '' @ debug_str s @ '' is not a date'')
      | Some (m, d) \<Rightarrow>
          let bad = debug_str whole @ '': '' @ debug_str s @ '' is not a date; write MM-DD or YYYY-MM-DD'' in
          if length m \<noteq> 2 \<or> length d \<noteq> 2 then Inl bad
          else case (parse_uint u8_max m, parse_uint u8_max d) of
            (Some m, Some d) \<Rightarrow>
              if m < 1 \<or> 12 < m then Inl bad
              else if d = 0 \<or> month_length 2024 m < d
              then Inl (debug_str whole @ '': '' @ debug_str s @ '' is not a day of the year'')
              else Inr (m, d)
          | _ \<Rightarrow> Inl bad)"

text \<open>Four bytes never overflow an \<open>i32\<close>, so parsing the year as an \<open>i64\<close> is the same.\<close>

definition parse_date_part :: "string \<Rightarrow> string \<Rightarrow> date_part result" where
  "parse_date_part s whole =
     (let s = trim s in
      if length s = 5 then bind_res (parse_month_day s whole) (\<lambda>(m, d). Inr (AnnualPart m d))
      else if length s = 10 \<and> s ! 4 = CHR ''-'' then
        (case parse_i64 (take 4 s) of
           None \<Rightarrow> Inl (debug_str whole @ '': '' @ debug_str s @ '' is not a date'')
         | Some year \<Rightarrow>
             bind_res (parse_month_day (drop 5 s) whole) (\<lambda>(m, d).
             case from_calendar_date year m d of
               None \<Rightarrow> Inl (debug_str whole @ '': '' @ debug_str s @ '' is not a day of '' @ dec_int year)
             | Some date \<Rightarrow> Inr (FixedPart date)))
      else Inl (debug_str whole @ '': '' @ debug_str s @ '' is not a date; write MM-DD or YYYY-MM-DD''))"

definition parse_date_span :: "string \<Rightarrow> date_span result" where
  "parse_date_span s =
     (let (a, b) = (case split_dots s of Some (a, b) \<Rightarrow> (a, b) | None \<Rightarrow> (s, s)) in
      bind_res (parse_date_part a s) (\<lambda>pa.
      bind_res (parse_date_part b s) (\<lambda>pb.
      case (pa, pb) of
        (AnnualPart m1 d1, AnnualPart m2 d2) \<Rightarrow> Inr (Annual (m1, d1) (m2, d2))
      | (FixedPart a, FixedPart b) \<Rightarrow>
          if b < a then Inl (debug_str s @ '' ends before it starts'') else Inr (Fixed a b)
      | _ \<Rightarrow> Inl (debug_str s @ '' mixes a yearly date with a dated one; give both ends a year or neither''))))"

text \<open>\<open>{:0w}\<close>: zeros up to the width, after the sign.\<close>

definition pad_zeros :: "nat \<Rightarrow> string \<Rightarrow> string" where
  "pad_zeros w s = replicate (w - length s) (CHR ''0'') @ s"

definition pad_int :: "nat \<Rightarrow> int \<Rightarrow> string" where
  "pad_int w i = (if i < 0 then ''-'' @ pad_zeros (w - 1) (dec (nat (- i))) else pad_zeros w (dec (nat i)))"

definition fixed_date :: "date \<Rightarrow> string" where
  "fixed_date d = (let (m, day) = month_day d in pad_int 4 (year_of d) @ ''-'' @ dec2 m @ ''-'' @ dec2 day)"

fun print_date_span :: "date_span \<Rightarrow> string" where
  "print_date_span (Annual a b) =
     dec2 (fst a) @ ''-'' @ dec2 (snd a) @ ''..'' @ dec2 (fst b) @ ''-'' @ dec2 (snd b)"
| "print_date_span (Fixed a b) = fixed_date a @ ''..'' @ fixed_date b"

section \<open>Schedules\<close>

record schedule =
  sc_name :: string
  sc_dates :: "date_span list"
  sc_weekdays :: "day_name list"
  sc_hours :: "(clock_range, string) btree"

definition schedule_rank :: "schedule \<Rightarrow> nat" where
  "schedule_rank s = (if sc_dates s \<noteq> [] then 2 else if sc_weekdays s \<noteq> [] then 1 else 0)"

definition matches_day :: "schedule \<Rightarrow> date \<Rightarrow> bool" where
  "matches_day s date \<longleftrightarrow>
     (sc_dates s = [] \<or> list_ex (\<lambda>d. span_contains d date) (sc_dates s)) \<and>
     (sc_weekdays s = [] \<or> day_name_of date \<in> set (sc_weekdays s))"

definition start_day :: "schedule \<Rightarrow> date \<Rightarrow> nat \<Rightarrow> clock_range \<Rightarrow> date option" where
  "start_day s date minute r =
     (let today = matches_day s date;
          yesterday = (case previous_day date of Some d \<Rightarrow> matches_day s d | None \<Rightarrow> False) in
      if wraps r then
        (if today \<and> cr_start r \<le> minute then Some date
         else if yesterday \<and> minute < cr_end r then previous_day date else None)
      else if today \<and> cr_start r \<le> minute \<and> minute < cr_end r then Some date else None)"

fun find_map :: "('a \<Rightarrow> 'b option) \<Rightarrow> 'a list \<Rightarrow> 'b option" where
  "find_map f [] = None"
| "find_map f (x # xs) = (case f x of Some y \<Rightarrow> Some y | None \<Rightarrow> find_map f xs)"

definition hit_at :: "schedule \<Rightarrow> date \<Rightarrow> nat \<Rightarrow> (string \<times> clock_range \<times> date) option" where
  "hit_at s date minute =
     find_map (\<lambda>(r, slot). map_option (\<lambda>d. (slot, r, d)) (start_day s date minute r)) (sc_hours s)"

definition slot_at :: "schedule \<Rightarrow> date \<Rightarrow> nat \<Rightarrow> string option" where
  "slot_at s date minute = map_option fst (hit_at s date minute)"

end
