(* ===== verification/RuleConfig.thy ===== *)
theory RuleConfig
  imports Schedule
begin

text \<open>
  A channel's rule: \<open>config/rule.rs\<close> with the block vocabulary of \<open>config/block.rs\<close>,
  \<open>entry.rs\<close>, \<open>filter.rs\<close>, \<open>fill.rs\<close>, \<open>mode.rs\<close> and \<open>source.rs\<close>, the block numbering, how much
  aired history a block's constraints reach back to, and the validation of rotations and
  schedules (\<open>config/validate.rs\<close>). A \<open>ConfigError::Validation\<close> is its message; its path only
  names the file. \<open>TrackRules\<close> and \<open>OverlayDecl\<close> are carried as the JSON they serialise to.
\<close>

section \<open>Entries\<close>

datatype source_config =
    LocalSource string
  | LavfiSource string
  | HttpSource string "string list option" "string option"

text \<open>\<open>ProgramMetadata\<close> of ETV-next and the \<open>guide:\<close> table.\<close>

record program_metadata =
  pm_title :: "string option"
  pm_sub_title :: "string option"
  pm_description :: "string option"
  pm_season :: "nat option"
  pm_episode :: "nat option"
  pm_categories :: "string list option"
  pm_content_rating :: "string option"
  pm_artwork_url :: "string option"
  pm_year :: "nat option"
  pm_credits :: "json option"
  pm_country :: "string list option"
  pm_star_rating :: "string option"

record guide_config =
  gc_title :: "string option"
  gc_sub_title :: "string option"
  gc_description :: "string option"
  gc_categories :: "string list option"

datatype mode = AllItems | CountItems nat

datatype season_sel = SeasonNumber nat | SeasonArc string

record filter_config =
  fc_seasons :: "season_sel list option"
  fc_episode_ids :: "string list option"
  fc_arcs :: "arcs option"

definition filter_is_empty :: "filter_config \<Rightarrow> bool" where
  "filter_is_empty f \<longleftrightarrow> fc_seasons f = None \<and> fc_episode_ids f = None"

definition filter_arc_names :: "filter_config \<Rightarrow> string list" where
  "filter_arc_names f =
     (case fc_seasons f of
        None \<Rightarrow> []
      | Some ss \<Rightarrow> List.map_filter (\<lambda>s. case s of SeasonArc name \<Rightarrow> Some name | SeasonNumber _ \<Rightarrow> None) ss)"

record item_entry =
  ie_source :: source_config
  ie_in_point :: "duration option"
  ie_out_point :: "duration option"
  ie_program :: "program_metadata option"
  ie_guide :: "guide_config option"
  ie_tracks :: "json option"

record query_entry =
  qe_query :: string
  qe_order :: "order option"

record chronology_ref =
  cr_position :: nat
  cr_show :: "string option"
  cr_season :: "nat option"
  cr_episode :: "nat option"
  cr_title :: "string option"
  cr_year :: "nat option"

record chronology =
  ch_name :: string
  ch_entries :: "chronology_ref list"

record chronology_entry =
  che_name :: string
  che_resolved :: "chronology option"

record include_entry =
  ine_block :: string
  ine_mode :: mode
  ine_order :: "order option"
  ine_filter :: "filter_config option"

datatype entry =
    ItemEntry item_entry
  | QueryEntry query_entry
  | CollectionEntry string
  | ChronologyEntry chronology_entry
  | IncludeEntry include_entry

fun kind_name :: "entry \<Rightarrow> string" where
  "kind_name (ItemEntry _) = ''item''"
| "kind_name (QueryEntry _) = ''query''"
| "kind_name (CollectionEntry _) = ''collection''"
| "kind_name (ChronologyEntry _) = ''chronology''"
| "kind_name (IncludeEntry _) = ''include''"

datatype fallback = QueryFallback query_entry | ItemFallback item_entry

section \<open>Align and fill\<close>

datatype align = AlignOff | AlignEvery duration

fun align_every :: "align \<Rightarrow> duration option" where
  "align_every AlignOff = None"
| "align_every (AlignEvery d) = Some d"

definition default_min_fill :: duration where "default_min_fill = dur_of_secs 2"

record fill_entry =
  fe_script :: "string option"
  fe_pool :: "string option"
  fe_weight :: nat
  fe_when :: "string option"
  fe_min_gap :: "duration option"
  fe_max_gap :: "duration option"
  fe_capabilities :: "string list"
  fe_config :: "json option"

section \<open>Blocks\<close>

datatype duplicates = Collapse | KeepAll

record block_include =
  bi_block :: "string option"
  bi_program :: "program_metadata option"
  bi_guide :: "guide_config option"
  bi_tracks :: "json option"
  bi_overlay :: "json option"
  bi_duplicates :: "duplicates option"
  bi_constraints :: "constraints option"
  bi_entries :: "entry list"
  bi_fallback :: "fallback option"
  bi_pools :: "pool list"
  bi_pattern :: "pattern_step list"
  bi_cycles :: "nat option"
  bi_sequencer :: "string option"
  bi_align :: "align option"
  bi_min_fill :: "duration option"
  bi_fill :: "fill_entry list"
  bi_mode :: mode
  bi_order :: "order option"
  bi_filter :: "filter_config option"
  bi_slots :: "string list"
  bi_select :: "select option"
  bi_weight :: "(string, f64) btree"

definition is_rotation :: "block_include \<Rightarrow> bool" where
  "is_rotation b \<longleftrightarrow> bi_slots b \<noteq> []"

definition is_pattern :: "block_include \<Rightarrow> bool" where
  "is_pattern b \<longleftrightarrow> (bi_pools b \<noteq> [] \<or> bi_pattern b \<noteq> []) \<and> bi_sequencer b = None"

definition is_sequencer :: "block_include \<Rightarrow> bool" where
  "is_sequencer b \<longleftrightarrow> bi_sequencer b \<noteq> None"

definition block_duplicates :: "block_include \<Rightarrow> duplicates" where
  "block_duplicates b =
     (if is_pattern b \<or> is_sequencer b then KeepAll
      else case bi_duplicates b of Some d \<Rightarrow> d | None \<Rightarrow> Collapse)"

definition block_constraints :: "block_include \<Rightarrow> constraints" where
  "block_constraints b = (case bi_constraints b of Some c \<Rightarrow> c | None \<Rightarrow> constraints_default)"

text \<open>\<open>BlockFile\<close>: the fields a path-form block splices into its include.\<close>

record block_file =
  bf_program :: "program_metadata option"
  bf_guide :: "guide_config option"
  bf_tracks :: "json option"
  bf_overlay :: "json option"
  bf_duplicates :: "duplicates option"
  bf_constraints :: "constraints option"
  bf_entries :: "entry list"
  bf_fallback :: "fallback option"
  bf_pools :: "pool list"
  bf_pattern :: "pattern_step list"
  bf_cycles :: "nat option"
  bf_sequencer :: "string option"
  bf_align :: "align option"
  bf_min_fill :: "duration option"
  bf_fill :: "fill_entry list"

definition apply_body :: "block_file \<Rightarrow> block_include \<Rightarrow> block_include" where
  "apply_body body b =
     b\<lparr>bi_program := bf_program body, bi_guide := bf_guide body, bi_tracks := bf_tracks body,
       bi_overlay := bf_overlay body, bi_duplicates := bf_duplicates body, bi_constraints := bf_constraints body,
       bi_entries := bf_entries body, bi_fallback := bf_fallback body, bi_pools := bf_pools body,
       bi_sequencer := bf_sequencer body, bi_align := bf_align body, bi_min_fill := bf_min_fill body,
       bi_fill := bf_fill body, bi_pattern := bf_pattern body, bi_cycles := bf_cycles body, bi_block := None\<rparr>"

section \<open>The rule and its block numbers\<close>

record rule_config =
  ru_blocks :: "block_include list"
  ru_slots :: "(string, block_include) btree"
  ru_schedules :: "schedule list"
  ru_no_repeat_within :: "no_repeat_within option"

definition all_blocks :: "rule_config \<Rightarrow> block_include list" where
  "all_blocks rule = ru_blocks rule @ map snd (ru_slots rule)"

definition slot_name :: "rule_config \<Rightarrow> nat \<Rightarrow> string option" where
  "slot_name rule idx =
     (if idx < length (ru_blocks rule) then None
      else let n = idx - length (ru_blocks rule); ks = map fst (ru_slots rule) in
        if n < length ks then Some (ks ! n) else None)"

definition block_label :: "rule_config \<Rightarrow> nat \<Rightarrow> string" where
  "block_label rule idx =
     (case slot_name rule idx of
        Some name \<Rightarrow> ''slot '' @ debug_str name
      | None \<Rightarrow> ''block #'' @ dec idx)"

definition slot_index :: "rule_config \<Rightarrow> string \<Rightarrow> nat option" where
  "slot_index rule name =
     map_option (\<lambda>n. length (ru_blocks rule) + n) (position (\<lambda>k. k = name) (map fst (ru_slots rule)))"

section \<open>How far back a block's constraints reach\<close>

definition usize_max :: nat where "usize_max = 2 ^ 64 - 1"

definition saturating_mul :: "nat \<Rightarrow> nat \<Rightarrow> nat" where
  "saturating_mul a b = min (a * b) usize_max"

text \<open>\<open>Iterator::max\<close> with \<open>unwrap_or(0)\<close>, and the items one walk of a pattern lays at most, or draws of a pool at least.\<close>

definition max_or_0 :: "nat list \<Rightarrow> nat" where
  "max_or_0 ns = foldr max ns 0"

definition cycle_total :: "pattern_step list \<Rightarrow> nat" where
  "cycle_total pattern = sum_list (List.map_filter (\<lambda>s. map_option snd (take_bounds (ps_take s))) pattern)"

definition least_per_cycle :: "pattern_step list \<Rightarrow> string \<Rightarrow> nat" where
  "least_per_cycle pattern name =
     sum_list (List.map_filter (\<lambda>s. map_option fst (take_bounds (ps_take s))) (filter (\<lambda>s. ps_pool s = name) pattern))"

definition pool_reach :: "block_include \<Rightarrow> pool \<Rightarrow> nat" where
  "pool_reach b p =
     (let per_cycle = least_per_cycle (bi_pattern b) (p_name p);
          reach = constraints_reach (pool_constraints p (bi_constraints b)) in
      if reach = 0 \<or> per_cycle = 0 then 0
      else saturating_mul (div_ceil reach per_cycle) (cycle_total (bi_pattern b)))"

definition block_adjacency_reach :: "block_include \<Rightarrow> nat" where
  "block_adjacency_reach b =
     (if is_sequencer b
      then max_or_0 (map (\<lambda>p. constraints_reach (pool_constraints p (bi_constraints b))) (bi_pools b))
      else if \<not> is_pattern b then constraints_reach (block_constraints b)
      else max_or_0 (map (pool_reach b) (bi_pools b)))"

definition channel_adjacency_reach :: "rule_config \<Rightarrow> nat" where
  "channel_adjacency_reach rule =
     (let channel = (case ru_no_repeat_within rule of Some gap \<Rightarrow> no_repeat_reach gap | None \<Rightarrow> 0) in
      max (max_or_0 (map block_adjacency_reach (all_blocks rule))) channel)"

section \<open>Validation of rotations\<close>

definition check :: "bool \<Rightarrow> string \<Rightarrow> unit result" where
  "check wrong message = (if wrong then Inl message else Inr ())"

text \<open>A list of checks in the order they are written: the first that fails is the error.\<close>

fun checks :: "(bool \<times> string) list \<Rightarrow> unit result" where
  "checks [] = Inr ()"
| "checks ((wrong, message) # cs) = bind_res (check wrong message) (\<lambda>_. checks cs)"

definition body_fields :: "block_include \<Rightarrow> (string \<times> bool) list" where
  "body_fields b =
     [(''entries'', bi_entries b \<noteq> []), (''pools'', bi_pools b \<noteq> []), (''pattern'', bi_pattern b \<noteq> []),
      (''sequencer'', bi_sequencer b \<noteq> None)]"

definition member_fields :: "block_include \<Rightarrow> (string \<times> bool) list" where
  "member_fields b =
     [(''filter'', bi_filter b \<noteq> None), (''duplicates'', bi_duplicates b \<noteq> None), (''align'', bi_align b \<noteq> None),
      (''min_fill'', bi_min_fill b \<noteq> None), (''fill'', bi_fill b \<noteq> []), (''overlay'', bi_overlay b \<noteq> None),
      (''program'', bi_program b \<noteq> None), (''guide'', bi_guide b \<noteq> None), (''tracks'', bi_tracks b \<noteq> None),
      (''fallback'', bi_fallback b \<noteq> None), (''cycles'', bi_cycles b \<noteq> None)]"

fun check_members :: "rule_config \<Rightarrow> (string \<Rightarrow> string) \<Rightarrow> string list \<Rightarrow> string list \<Rightarrow> string list result" where
  "check_members rule bad seen [] = Inr seen"
| "check_members rule bad seen (member # rest) =
     (if bt_get (ru_slots rule) member = None
      then Inl (bad (''lists member '' @ debug_str member @ '', which `rule.slots` does not declare''))
      else if member \<in> set seen then Inl (bad (''lists member '' @ debug_str member @ '' twice''))
      else check_members rule bad (member # seen) rest)"

fun check_weights :: "(f64 \<Rightarrow> string) \<Rightarrow> (string \<Rightarrow> string) \<Rightarrow> string list \<Rightarrow> (string, f64) btree \<Rightarrow> unit result" where
  "check_weights f64_str bad seen [] = Inr ()"
| "check_weights f64_str bad seen ((member, w) # rest) =
     (if member \<notin> set seen
      then Inl (bad (''weights '' @ debug_str member @ '', which is not one of its `slots`''))
      else if w \<le> 0
      then Inl (bad (''weights '' @ debug_str member @ '' at '' @ f64_str w @ ''; a weight is a number above 0''))
      else check_weights f64_str bad seen rest)"

definition select_of :: "block_include \<Rightarrow> select" where
  "select_of b = (case bi_select b of Some s \<Rightarrow> s | None \<Rightarrow> RoundRobin)"

definition check_order :: "(string \<Rightarrow> string) \<Rightarrow> block_include \<Rightarrow> unit result" where
  "check_order bad b =
     (case bi_order b of
        None \<Rightarrow> Inr ()
      | Some ord \<Rightarrow>
          checks [(select_of b \<noteq> RoundRobin, bad ''sets `order` without `select: round_robin`''),
                  (ord \<noteq> Random, bad ''`order` on a rotation is `random` (a seeded shuffle per cycle) or unset'')])"

definition validate_rotation ::
  "(f64 \<Rightarrow> string) \<Rightarrow> rule_config \<Rightarrow> nat \<Rightarrow> block_include \<Rightarrow> (string \<Rightarrow> string) \<Rightarrow> unit result" where
  "validate_rotation f64_str rule idx b bad =
     bind_res (check (idx < length (ru_blocks rule))
       (bad ''`slots` makes a rotation, which a schedule places; declare it under `rule.slots`'')) (\<lambda>_.
     bind_res (checks (map (\<lambda>(field, present). (present,
       bad (''sets both `slots:` and `'' @ field @ '':`; a rotation draws a member slot and airs no body of its own'')))
       (body_fields b))) (\<lambda>_.
     bind_res (checks (map (\<lambda>(field, present). (present,
       bad (''sets `'' @ field @ '':` on a rotation, which reads none of it; set `'' @ field @ '':` on the member slots instead'')))
       (member_fields b))) (\<lambda>_.
     bind_res (check_members rule bad [] (bi_slots b)) (\<lambda>seen.
     bind_res (if bi_weight b = [] then Inr ()
               else bind_res (check (bi_select b \<noteq> Some SelectRandom) (bad ''sets `weight` without `select: random`''))
                 (\<lambda>_. check_weights f64_str bad seen (bi_weight b))) (\<lambda>_.
     bind_res (check_order bad b) (\<lambda>_.
     check (case bi_constraints b of
              Some c \<Rightarrow> c_separate_by c \<noteq> None \<or> c_separate_min_gap c \<noteq> None
            | None \<Rightarrow> False) (bad ''a rotation takes only `constraints.no_repeat_within`'')))))))"

text \<open>
  The walk of \<open>validate_rotation_cycles\<close>: the names still to visit under the slots on the stack,
  and the ones found free of a loop.
\<close>

definition slot_members :: "rule_config \<Rightarrow> string \<Rightarrow> string list" where
  "slot_members rule name = (case bt_get (ru_slots rule) name of Some b \<Rightarrow> bi_slots b | None \<Rightarrow> [])"

definition loop_message :: "string list \<Rightarrow> nat \<Rightarrow> string \<Rightarrow> string" where
  "loop_message stack i name =
     ''slot '' @ debug_str name @ '' contains itself: '' @ join '' -> '' (drop i stack @ [name])"

function visit_slots :: "rule_config \<Rightarrow> string list \<Rightarrow> string list \<Rightarrow> string list \<Rightarrow> string list result" where
  "visit_slots rule stack done [] = Inr done"
| "visit_slots rule stack done (name # rest) =
     (case position (\<lambda>s. s = name) stack of
        Some i \<Rightarrow> Inl (loop_message stack i name)
      | None \<Rightarrow>
          if name \<in> set done then visit_slots rule stack done rest
          else bind_res (if bt_get (ru_slots rule) name = None then Inr done
                         else visit_slots rule (stack @ [name]) done (slot_members rule name)) (\<lambda>done.
               visit_slots rule stack (name # done) rest))"
  by pat_completeness auto

termination
proof (relation "measures [\<lambda>(rule, stack, done, names). card (fst ` set (ru_slots rule) - set stack), \<lambda>(rule, stack, done, names). length names]", goal_cases)
  case (3 rule stack "done" name rest)
  then have "name \<notin> set stack" "name \<in> fst ` set (ru_slots rule)"
    by (auto simp: position_None_iff map_of_eq_None_iff)
  then have "card (fst ` set (ru_slots rule) - set (stack @ [name])) < card (fst ` set (ru_slots rule) - set stack)"
    by (intro psubset_card_mono) auto
  then show ?case by simp
qed simp_all

definition validate_rotation_cycles :: "rule_config \<Rightarrow> unit result" where
  "validate_rotation_cycles rule = bind_res (visit_slots rule [] [] (map fst (ru_slots rule))) (\<lambda>_. Inr ())"

section \<open>Validation of schedules\<close>

definition ranges_overlap :: "clock_range \<Rightarrow> clock_range \<Rightarrow> bool" where
  "ranges_overlap a b \<longleftrightarrow>
     list_ex (\<lambda>(s1, e1). list_ex (\<lambda>(s2, e2). s1 < e2 \<and> s2 < e1) (range_spans b)) (range_spans a)"

fun check_ranges :: "(string \<Rightarrow> string) \<Rightarrow> clock_range list \<Rightarrow> unit result" where
  "check_ranges bad [] = Inr ()"
| "check_ranges bad (a # rs) =
     (case find (ranges_overlap a) rs of
        Some b \<Rightarrow> Inl (bad (''places '' @ print_clock_range a @ '' and '' @ print_clock_range b @
                         '', which overlap; a minute airs one slot''))
      | None \<Rightarrow> check_ranges bad rs)"

fun check_placed :: "rule_config \<Rightarrow> (string \<Rightarrow> string) \<Rightarrow> string list \<Rightarrow> unit result" where
  "check_placed rule bad [] = Inr ()"
| "check_placed rule bad (slot # slots) =
     (if bt_get (ru_slots rule) slot = None
      then Inl (bad (''places slot '' @ debug_str slot @ '', which `rule.slots` does not declare''))
      else check_placed rule bad slots)"

fun check_schedules :: "rule_config \<Rightarrow> nat \<Rightarrow> string list \<Rightarrow> schedule list \<Rightarrow> unit result" where
  "check_schedules rule idx names [] = Inr ()"
| "check_schedules rule idx names (s # rest) =
     (let label = ''schedule '' @ debug_str (sc_name s);
          bad = (\<lambda>m. label @ '' '' @ m) in
      bind_res (checks
        [(trim (sc_name s) = [], ''schedule #'' @ dec idx @ '' has no name''),
         (sc_name s \<in> set names, label @ '' is declared twice''),
         (sc_hours s = [], bad (''places no hours; give it `hours: {'' @ debug_str ''20..23'' @ '': <slot>}`''))]) (\<lambda>_.
      bind_res (check_placed rule bad (map snd (sc_hours s))) (\<lambda>_.
      bind_res (check_ranges bad (map fst (sc_hours s))) (\<lambda>_.
      check_schedules rule (idx + 1) (sc_name s # names) rest))))"

definition placed_slots :: "rule_config \<Rightarrow> string list" where
  "placed_slots rule = concat (map (\<lambda>s. map snd (sc_hours s)) (ru_schedules rule))"

definition drawn_slots :: "rule_config \<Rightarrow> string list" where
  "drawn_slots rule = concat (map (\<lambda>(_, b). bi_slots b) (ru_slots rule))"

definition validate_schedules :: "rule_config \<Rightarrow> unit result" where
  "validate_schedules rule =
     bind_res (case (if ru_schedules rule = [] then None else position (\<lambda>b. bi_cycles b \<noteq> None) (all_blocks rule)) of
         Some idx \<Rightarrow> Inl (block_label rule idx @
           '' sets `cycles`, which would run it past the next schedule boundary; a channel with `rule.schedules` bounds every block by the schedule instead'')
       | None \<Rightarrow> Inr ()) (\<lambda>_.
     bind_res (check_schedules rule 0 [] (ru_schedules rule)) (\<lambda>_.
     case find (\<lambda>name. name \<notin> set (placed_slots rule) \<and> name \<notin> set (drawn_slots rule)) (map fst (ru_slots rule)) of
       Some name \<Rightarrow> Inl (''slot '' @ debug_str name @ '' is placed by no schedule, so it would never air'')
     | None \<Rightarrow> Inr ()))"

end
