(* ===== verification/Rotation.thy ===== *)
theory Rotation
  imports RuleConfig Resume Variety
begin

text \<open>
  Slot rotations (\<open>rotation.rs\<close>): a slot that lists other slots and airs one of them per
  placement. The draw is a function of the rule, the channel seed at the placement's start and
  the rotation's state in the sidecar. A chain of rotations is followed until a slot with a
  body of its own; on a rule that lists a slot inside itself the chain would not end, so
  \<open>resolve_slot\<close> is partial. The \<open>expect\<close>s of the code are the \<open>Inl\<close> branches.
\<close>

section \<open>One draw's account\<close>

definition recent_cap :: nat where "recent_cap = 64"

record draw_reason =
  dr_rotation :: string
  dr_member :: string
  dr_reused :: bool
  dr_select :: string
  dr_detail :: string
  dr_skipped :: "string list"
  dr_relaxed :: bool

definition describe_reason :: "draw_reason \<Rightarrow> string" where
  "describe_reason r =
     (if dr_reused r then dr_select r @ '', placement already drawn'' else dr_select r @ '' '' @ dr_detail r) @
     (if dr_skipped r = [] then [] else ''; skipped by no_repeat_within: '' @ join '', '' (dr_skipped r)) @
     (if dr_relaxed r then ''; no_repeat_within relaxed, least recently drawn airs'' else [])"

definition drawn_leaf :: "draw_reason list \<Rightarrow> string result" where
  "drawn_leaf chain = (if chain = [] then Inl ''a draw has at least one step'' else Inr (dr_member (last chain)))"

section \<open>Eligibility and order\<close>

fun is_eligible :: "rotation_draw list \<Rightarrow> string \<Rightarrow> no_repeat_within \<Rightarrow> instant \<Rightarrow> bool" where
  "is_eligible recent member (Positions n) now \<longleftrightarrow>
     n = 0 \<or> \<not> list_ex (\<lambda>d. rd_member d = member) (take n (rev recent))"
| "is_eligible recent member (WithinDuration d) now \<longleftrightarrow>
     \<not> list_ex (\<lambda>r. rd_member r = member \<and> rd_at r \<le> now \<and> nat (now - rd_at r) < d) recent"

definition recency :: "rotation_draw list \<Rightarrow> string \<Rightarrow> nat" where
  "recency recent member = (case rposition (\<lambda>d. rd_member d = member) recent of None \<Rightarrow> 0 | Some i \<Rightarrow> i + 1)"

definition least_recent :: "rotation_draw list \<Rightarrow> string list \<Rightarrow> string result" where
  "least_recent recent members =
     (case min_by_key (recency recent) members of
        Some m \<Rightarrow> Inr m
      | None \<Rightarrow> Inl ''a rotation has members'')"

definition cycle_order :: "block_include \<Rightarrow> u64 \<Rightarrow> nat \<Rightarrow> string list" where
  "cycle_order b base cycle =
     (if bi_order b = Some Random then keyed_shuffle (bi_slots b) (mix_seed base (of_nat cycle)) else bi_slots b)"

section \<open>The draw\<close>

text \<open>\<open>{:.4}\<close> of a number in \<open>[0, 1)\<close>: the exact value rounded to four decimals, ties to even.\<close>

definition fixed4 :: "f64 \<Rightarrow> string" where
  "fixed4 x = (let n = nat (round_half_even (x * 10000)) in dec (n div 10000) @ ''.'' @ pad_zeros 4 (dec (n mod 10000)))"

definition select_name :: "select \<Rightarrow> string" where
  "select_name s = (case s of RoundRobin \<Rightarrow> ''round_robin'' | SelectRandom \<Rightarrow> ''random'')"

definition rotation_gap :: "block_include \<Rightarrow> no_repeat_within" where
  "rotation_gap b =
     (case bi_constraints b of
        Some c \<Rightarrow> (case c_no_repeat_within c of Some gap \<Rightarrow> gap | None \<Rightarrow> Positions 0)
      | None \<Rightarrow> Positions 0)"

definition already_drawn :: "block_include \<Rightarrow> rotation_resume \<Rightarrow> instant \<Rightarrow> string option" where
  "already_drawn b state now =
     map_option rd_member (find (\<lambda>d. rd_at d = now \<and> rd_member d \<in> set (bi_slots b)) (rr_recent state))"

text \<open>What a \<open>select\<close> hands back: the member, the detail, the members passed over, relaxed, and the state.\<close>

type_synonym drawing = "string \<times> string \<times> string list \<times> bool \<times> rotation_resume"

definition open_cycle :: "block_include \<Rightarrow> rotation_resume \<Rightarrow> rotation_resume" where
  "open_cycle b state =
     (if list_all (\<lambda>m. m \<in> set (rr_drawn state)) (bi_slots b)
      then state\<lparr>rr_cycle := rr_cycle state + 1, rr_drawn := []\<rparr> else state)"

definition draw_round_robin :: "block_include \<Rightarrow> rotation_resume \<Rightarrow> u64 \<Rightarrow> (string \<Rightarrow> bool) \<Rightarrow> drawing result" where
  "draw_round_robin b state base eligible =
     (let state = open_cycle b state;
          ord = cycle_order b base (rr_cycle state);
          remaining = filter (\<lambda>m. m \<notin> set (rr_drawn state)) ord;
          finish = (\<lambda>pick skipped relaxed.
            (pick, ''cursor '' @ dec (length (rr_drawn state) + 1) @ ''/'' @ dec (length (bi_slots b)) @ '' of cycle '' @
                   dec (rr_cycle state), skipped, relaxed, state\<lparr>rr_drawn := rr_drawn state @ [pick]\<rparr>)) in
      case position eligible remaining of
        Some i \<Rightarrow> Inr (finish (remaining ! i) (take i remaining) False)
      | None \<Rightarrow> bind_res (least_recent (rr_recent state) remaining) (\<lambda>pick. Inr (finish pick [] True)))"

definition member_weight :: "block_include \<Rightarrow> string \<Rightarrow> f64" where
  "member_weight b m = (case bt_get (bi_weight b) m of Some w \<Rightarrow> w | None \<Rightarrow> 1)"

fun spin :: "(string \<Rightarrow> f64) \<Rightarrow> string \<Rightarrow> f64 \<Rightarrow> string list \<Rightarrow> string" where
  "spin weight pick target [] = pick"
| "spin weight pick target (m # ms) =
     (let target = f64_sub target (weight m) in if target < 0 then m else spin weight pick target ms)"

definition draw_random :: "block_include \<Rightarrow> rotation_resume \<Rightarrow> u64 \<Rightarrow> int \<Rightarrow> (string \<Rightarrow> bool) \<Rightarrow> drawing result" where
  "draw_random b state base start eligible =
     (let candidates = filter eligible (bi_slots b);
          skipped = filter (\<lambda>m. m \<notin> set candidates) (bi_slots b) in
      if candidates = [] then
        bind_res (least_recent (rr_recent state) (bi_slots b)) (\<lambda>pick.
          Inr (pick, ''draw, every member within no_repeat_within'', [], True, state))
      else
        let total = foldl (\<lambda>acc m. f64_add acc (member_weight b m)) 0 candidates;
            roll = unit_of (mix_seed base (word_of_int start));
            pick = spin (member_weight b) (last candidates) (f64_mul roll total) candidates in
        Inr (pick, ''draw '' @ fixed4 roll @ '' of '' @ dec (length candidates) @ '' eligible'', skipped, False, state))"

fun drop_stale :: "nat \<Rightarrow> instant option \<Rightarrow> rotation_draw list \<Rightarrow> rotation_draw list" where
  "drop_stale keep horizon [] = []"
| "drop_stale keep horizon (r # rs) =
     (if recent_cap < length (r # rs) \<and>
         (keep < length (r # rs) \<or> (case horizon of Some h \<Rightarrow> rd_at r < h | None \<Rightarrow> False))
      then drop_stale keep horizon rs else r # rs)"

definition recent_after :: "no_repeat_within \<Rightarrow> instant \<Rightarrow> rotation_draw list \<Rightarrow> rotation_draw list" where
  "recent_after gap now recent =
     (let keep = (case gap of Positions n \<Rightarrow> max recent_cap n | WithinDuration _ \<Rightarrow> usize_max);
          horizon = (case gap of WithinDuration d \<Rightarrow> Some (now - int d) | Positions _ \<Rightarrow> None) in
      drop_stale keep horizon recent)"

definition draw_slot ::
  "string \<Rightarrow> block_include \<Rightarrow> rotation_resume \<Rightarrow> u64 \<Rightarrow> int \<Rightarrow> instant \<Rightarrow> (draw_reason \<times> rotation_resume) result" where
  "draw_slot name b state seed start now =
     (case already_drawn b state now of
        Some member \<Rightarrow>
          Inr (\<lparr>dr_rotation = name, dr_member = member, dr_reused = True, dr_select = select_name (select_of b),
                dr_detail = [], dr_skipped = [], dr_relaxed = False\<rparr>, state)
      | None \<Rightarrow>
          let gap = rotation_gap b;
              eligible = (\<lambda>member. is_eligible (rr_recent state) member gap now);
              base = mix_seed seed (rotation_fnv1a name) in
          bind_res (case select_of b of
              RoundRobin \<Rightarrow> draw_round_robin b state base eligible
            | SelectRandom \<Rightarrow> draw_random b state base start eligible) (\<lambda>(member, detail, skipped, relaxed, state).
          Inr (\<lparr>dr_rotation = name, dr_member = member, dr_reused = False, dr_select = select_name (select_of b),
                dr_detail = detail, dr_skipped = skipped, dr_relaxed = relaxed\<rparr>,
               state\<lparr>rr_recent := recent_after gap now (rr_recent state @ [\<lparr>rd_member = member, rd_at = now\<rparr>])\<rparr>)))"

section \<open>Following a chain of rotations\<close>

type_synonym rotations = "(string, rotation_resume) btree"

definition rotation_block :: "rule_config \<Rightarrow> string \<Rightarrow> block_include option" where
  "rotation_block rule name =
     (case bt_get (ru_slots rule) name of Some b \<Rightarrow> if is_rotation b then Some b else None | None \<Rightarrow> None)"

definition rotation_state :: "rotations \<Rightarrow> string \<Rightarrow> rotation_resume" where
  "rotation_state rots name = (case bt_get rots name of Some s \<Rightarrow> s | None \<Rightarrow> rotation_resume_default)"

partial_function (option) resolve_chain ::
  "rule_config \<Rightarrow> string \<Rightarrow> u64 \<Rightarrow> int \<Rightarrow> instant \<Rightarrow> draw_reason list \<Rightarrow> rotations
     \<Rightarrow> (draw_reason list \<times> rotations) result option" where
  "resolve_chain rule current seed start now chain rots =
     (case rotation_block rule current of
        None \<Rightarrow> Some (Inr (chain, rots))
      | Some b \<Rightarrow>
          (case draw_slot current b (rotation_state rots current) seed start now of
             Inl e \<Rightarrow> Some (Inl e)
           | Inr (reason, state) \<Rightarrow>
               if dr_member reason \<in> set (bi_slots b)
               then resolve_chain rule (dr_member reason) seed start now (chain @ [reason]) (bt_insert current state rots)
               else Some (Inl (''a draw names one of the rotation'' @ apos @ ''s members''))))"

definition placement_instant :: "int \<Rightarrow> instant" where
  "placement_instant start = (case from_unix_timestamp start of Some t \<Rightarrow> t | None \<Rightarrow> 0)"

definition resolve_slot ::
  "rule_config \<Rightarrow> string \<Rightarrow> int \<Rightarrow> (instant \<Rightarrow> u64) \<Rightarrow> rotations
     \<Rightarrow> (draw_reason list \<times> rotations) result option" where
  "resolve_slot rule slot start seed_at rots =
     (let now = placement_instant start in
      resolve_chain rule slot (seed_at now) start now [] rots)"

end
