(* ===== verification/Tz.thy ===== *)
theory Tz
  imports Rotation
begin

text \<open>
  \<open>tz.rs\<close>: local midnights and the chunk grid in the station's time zone. A zone is its offset
  at an instant and its primary offset, in whole seconds east of UTC (the \<open>time_tz\<close> database, a
  parameter). The walk to the chunk under an instant takes as long as the grid advances, so it
  is a partial function.
\<close>

record zone =
  zn_offset :: "instant \<Rightarrow> int"
  zn_primary :: int

section \<open>Local time\<close>

abbreviation zone_secs :: "zone \<Rightarrow> instant \<Rightarrow> int" where
  "zone_secs tz t \<equiv> local_secs (zn_offset tz) t"

definition local_date :: "zone \<Rightarrow> instant \<Rightarrow> date" where
  "local_date tz t = zone_secs tz t div 86400"

definition local_hour :: "zone \<Rightarrow> instant \<Rightarrow> nat" where
  "local_hour tz t = nat (zone_secs tz t mod 86400 div 3600)"

text \<open>\<open>hour * 60 + minute\<close> of the local clock.\<close>

definition local_minute :: "zone \<Rightarrow> instant \<Rightarrow> nat" where
  "local_minute tz t = nat (zone_secs tz t mod 86400 div 60)"

definition to_utc_assume_local :: "date \<Rightarrow> int \<Rightarrow> zone \<Rightarrow> instant" where
  "to_utc_assume_local date secs tz =
     (let naive = at_unix (date * 86400 + secs);
          approx = naive - at_unix (zn_primary tz)
      in naive - at_unix (zn_offset tz approx))"

definition local_midnight_at_or_before :: "instant \<Rightarrow> zone \<Rightarrow> instant result" where
  "local_midnight_at_or_before now tz =
     (let date = local_date tz now;
          candidate = to_utc_assume_local date 0 tz in
      if now < candidate
      then (case previous_day date of
              None \<Rightarrow> Inl ''not min date''
            | Some d \<Rightarrow> Inr (to_utc_assume_local d 0 tz))
      else Inr candidate)"

section \<open>The chunk grid\<close>

text \<open>The \<open>u32\<close> hours are cast to \<open>u8\<close>; a multiple of 256 divides by zero.\<close>

definition add_chunk :: "instant \<Rightarrow> nat \<Rightarrow> zone \<Rightarrow> instant result" where
  "add_chunk start hours tz =
     (let h = max hours 1 mod 256 in
      if h = 0 then Inl ''attempt to divide by zero''
      else let next_hour = (local_hour tz start div h + 1) * h in
        if 24 \<le> next_hour
        then (case next_day (local_date tz start) of
                None \<Rightarrow> Inl ''not max date''
              | Some d \<Rightarrow> Inr (to_utc_assume_local d 0 tz))
        else Inr (to_utc_assume_local (local_date tz start) (int next_hour * 3600) tz))"

partial_function (option) chunk_walk :: "instant \<Rightarrow> nat \<Rightarrow> zone \<Rightarrow> instant \<Rightarrow> instant result option" where
  "chunk_walk now hours tz boundary =
     (case add_chunk boundary hours tz of
        Inl e \<Rightarrow> Some (Inl e)
      | Inr later \<Rightarrow> if now < later then Some (Inr boundary) else chunk_walk now hours tz later)"

definition chunk_boundary_at_or_before :: "instant \<Rightarrow> nat \<Rightarrow> zone \<Rightarrow> instant result option" where
  "chunk_boundary_at_or_before now hours tz =
     (case local_midnight_at_or_before now tz of
        Inl e \<Rightarrow> Some (Inl e)
      | Inr midnight \<Rightarrow> chunk_walk now hours tz midnight)"

section \<open>The walk to the chunk under an instant\<close>

text \<open>What the documentation of \<open>add_chunk\<close> promises, up to an instant: the next boundary is strictly later.\<close>

definition grid_advances :: "instant \<Rightarrow> nat \<Rightarrow> zone \<Rightarrow> bool" where
  "grid_advances now hours tz \<longleftrightarrow> (\<forall>t\<le>now. \<exists>t'. add_chunk t hours tz = Inr t' \<and> t < t')"

lemma chunk_walk_returns:
  assumes adv: "grid_advances now hours tz" and "b \<le> now"
  shows "\<exists>c c'. chunk_walk now hours tz b = Some (Inr c) \<and> add_chunk c hours tz = Inr c' \<and> b \<le> c \<and> c \<le> now \<and> now < c'"
  using assms(2)
proof (induction "nat (now - b)" arbitrary: b rule: less_induct)
  case less
  obtain b' where b': "add_chunk b hours tz = Inr b'" "b < b'"
    using adv less.prems unfolding grid_advances_def by blast
  show ?case
  proof (cases "now < b'")
    case True
    then show ?thesis using b' less.prems by (subst chunk_walk.simps) auto
  next
    case False
    then have "nat (now - b') < nat (now - b)" "b' \<le> now" using b'(2) by auto
    from less.hyps [OF this] b' False show ?thesis by (subst chunk_walk.simps) force
  qed
qed

text \<open>A zone with one offset all the time.\<close>

definition fixed_zone :: "int \<Rightarrow> zone" where
  "fixed_zone off = \<lparr>zn_offset = (\<lambda>_. off), zn_primary = off\<rparr>"

lemma fixed_zone_simps [simp]: "zn_offset (fixed_zone off) = (\<lambda>_. off)" "zn_primary (fixed_zone off) = off"
  by (simp_all add: fixed_zone_def)

lemma to_utc_fixed: "zn_offset tz = (\<lambda>_. off) \<Longrightarrow> to_utc_assume_local d s tz = at_unix (d * 86400 + s - off)"
  by (simp add: to_utc_assume_local_def Let_def at_unix_def algebra_simps)

lemma local_date_to_utc:
  "zn_offset tz = (\<lambda>_. off) \<Longrightarrow> 0 \<le> s \<Longrightarrow> s < 86400 \<Longrightarrow> local_date tz (to_utc_assume_local d s tz) = d"
  by (simp add: to_utc_fixed local_date_def local_secs_def)

lemma zone_secs_split: "zone_secs tz t = local_date tz t * 86400 + zone_secs tz t mod 86400"
  by (simp add: local_date_def)

lemma midnight_fixed:
  "zn_offset tz = (\<lambda>_. off) \<Longrightarrow> local_midnight_at_or_before now tz = Inr (at_unix (local_date tz now * 86400 - off)) \<and>
     at_unix (local_date tz now * 86400 - off) \<le> now"
proof -
  assume off: "zn_offset tz = (\<lambda>_. off)"
  have "local_date tz now * 86400 - off \<le> unix_timestamp now"
    using zone_secs_split [of tz now] pos_mod_sign [of 86400 "zone_secs tz now"] by (simp add: local_secs_def off)
  then have le: "at_unix (local_date tz now * 86400 - off) \<le> now" by (simp add: at_unix_le_iff_timestamp)
  then show ?thesis by (simp add: local_midnight_at_or_before_def Let_def to_utc_fixed [OF off] not_less [symmetric])
qed

lemma less_next_multiple: "0 < k \<Longrightarrow> x < (x div k + 1) * k" for x k :: int
proof -
  assume "0 < k"
  then have "x mod k < k" by (rule pos_mod_bound)
  moreover have "x = x div k * k + x mod k" by (rule div_mult_mod_eq [symmetric])
  ultimately show "x < (x div k + 1) * k" unfolding distrib_right mult_1 by linarith
qed

lemma add_chunk_fixed:
  assumes off: "zn_offset tz = (\<lambda>_. off)" and h: "0 < h" "h \<le> 24" and day: "local_date tz t < date_max"
  shows "\<exists>t'. add_chunk t h tz = Inr t' \<and> t < t'"
proof -
  let ?m = "zone_secs tz t mod 86400"
  have m: "0 \<le> ?m" "?m < 86400" by simp_all
  have hour: "local_hour tz t = nat (?m div 3600)" by (simp add: local_hour_def)
  have "?m < (?m div 3600 + 1) * 3600" by (rule less_next_multiple) simp
  moreover have "int (local_hour tz t) = ?m div 3600" using m by (simp add: hour pos_imp_zdiv_nonneg_iff)
  ultimately have mh: "?m < (int (local_hour tz t) + 1) * 3600" by simp
  have "local_hour tz t < (local_hour tz t div h + 1) * h"
    using h(1) by (simp add: dividend_less_div_times)
  then have "int (local_hour tz t) + 1 \<le> int ((local_hour tz t div h + 1) * h)" by linarith
  then have "(int (local_hour tz t) + 1) * 3600 \<le> int ((local_hour tz t div h + 1) * h) * 3600"
    by (rule mult_right_mono) simp
  with mh have next_h: "?m < int ((local_hour tz t div h + 1) * h) * 3600" by (rule less_le_trans)
  have t: "t < at_unix (local_date tz t * 86400 + s - off)" if "?m < s" for s
    using that zone_secs_split [of tz t] by (simp add: less_at_unix_iff local_secs_def off)
  have h': "max h 1 mod 256 = h" using h by simp
  show ?thesis
    using t [OF next_h] t [OF m(2)] day h
    by (simp add: add_chunk_def Let_def h' to_utc_fixed [OF off] next_day_def algebra_simps)
qed

lemma local_date_mono: "zn_offset tz = (\<lambda>_. off) \<Longrightarrow> t \<le> now \<Longrightarrow> local_date tz t \<le> local_date tz now"
  by (simp add: local_date_def local_secs_def unix_timestamp_mono zdiv_mono1)

text \<open>
  In a zone that keeps one offset, every instant lies in a chunk: the walk up the grid
  of \<open>chunk_hours\<close> returns, at a boundary at or before the instant whose successor is after it.
\<close>

theorem chunk_contains_instant:
  assumes "zn_offset tz = (\<lambda>_. off)" and "0 < hours" and "hours \<le> 24" and "local_date tz now < date_max"
  shows "\<exists>c c'. chunk_boundary_at_or_before now hours tz = Some (Inr c) \<and> add_chunk c hours tz = Inr c' \<and> c \<le> now \<and> now < c'"
proof -
  have "grid_advances now hours tz"
    unfolding grid_advances_def using add_chunk_fixed [OF assms(1-3)] local_date_mono [OF assms(1)] assms(4) by (meson le_less_trans)
  with chunk_walk_returns [OF this] midnight_fixed [OF assms(1)] show ?thesis
    unfolding chunk_boundary_at_or_before_def by fastforce
qed

theorem chunk_contains_instant_witness:
  "\<exists>c c'. chunk_boundary_at_or_before (at_unix 1776105791) 6 (fixed_zone (- 18000)) = Some (Inr c) \<and>
     add_chunk c 6 (fixed_zone (- 18000)) = Inr c' \<and> c \<le> at_unix 1776105791 \<and> at_unix 1776105791 < c'"
proof -
  have "local_date (fixed_zone (- 18000)) (at_unix 1776105791) < date_max"
    by (simp add: local_date_def local_secs_def date_max_def date_of_def days_before_year_def epoch_days_def)
  then show ?thesis by (intro chunk_contains_instant [where off = "- 18000"]) simp_all
qed

section \<open>When the clock skips an hour\<close>

text \<open>A zone of standard offset \<open>s\<close> whose clock goes from 02:00 to 03:00 on day \<open>d\<close>, of primary offset \<open>p\<close>.\<close>

definition spring_zone :: "date \<Rightarrow> int \<Rightarrow> int \<Rightarrow> zone" where
  "spring_zone d s p =
     \<lparr>zn_offset = (\<lambda>t. if t < at_unix (d * 86400 + 7200 - s) then s else s + 3600), zn_primary = p\<rparr>"

lemma spring_early:
  assumes "x < 7200"
  shows "zone_secs (spring_zone d s p) (at_unix (d * 86400 + x - s)) = d * 86400 + x"
  using assms by (simp add: spring_zone_def local_secs_def)

lemma spring_to_utc:
  "x - p < 7200 - s \<Longrightarrow> to_utc_assume_local d x (spring_zone d s p) = at_unix (d * 86400 + x - s)"
  "7200 - s \<le> x - p \<Longrightarrow> to_utc_assume_local d x (spring_zone d s p) = at_unix (d * 86400 + (x - 3600) - s)"
  by (simp_all add: to_utc_assume_local_def spring_zone_def Let_def at_unix_def nanos_per_sec_def)

lemma spring_chunks:
  assumes "s - 3600 < p" and "p \<le> s" and "hours = 1 \<or> hours = 2"
  shows "add_chunk (at_unix (d * 86400 - s)) hours (spring_zone d s p) = Inr (at_unix (d * 86400 + 3600 - s))"
    and "add_chunk (at_unix (d * 86400 + 3600 - s)) hours (spring_zone d s p) = Inr (at_unix (d * 86400 + 3600 - s))"
  using assms spring_early [of 0 d s p] spring_early [of 3600 d s p] spring_to_utc(1) [of 3600 p s d] spring_to_utc(2) [of s 7200 p d]
  by (auto simp: add_chunk_def Let_def local_hour_def local_date_def)

lemma chunk_walk_stuck:
  assumes "add_chunk b hours tz = Inr b" and "b \<le> now"
  shows "chunk_walk now hours tz b = None"
proof (rule ccontr)
  assume "chunk_walk now hours tz b \<noteq> None"
  then obtain y where "chunk_walk now hours tz b = Some y" by auto
  let ?P = "\<lambda>n h z x (y :: instant result). \<not> (n = now \<and> h = hours \<and> z = tz \<and> x = b)"
  have "?P now hours tz b y"
  proof (rule chunk_walk.raw_induct [where P = ?P, OF _ \<open>chunk_walk now hours tz b = Some y\<close>], goal_cases)
    case (1 f n h z x y)
    show ?case
    proof
      assume "n = now \<and> h = hours \<and> z = tz \<and> x = b"
      then have "f now hours tz b = Some y" using "1"(2) assms by simp
      then show False using "1"(1) by blast
    qed
  qed
  then show False by simp
qed

text \<open>
  Claim C27. On the day the clock skips from 02:00 to 03:00, in a zone whose primary offset is its
  standard offset or less (by under an hour), with chunks of one hour or two, \<open>add_chunk\<close> of the instant
  01:00 is that instant itself, so the walk to the chunk under 01:00 or any later instant of
  that day never returns. (Chunks of other lengths have no boundary in the skipped hour.)
\<close>

theorem chunk_walk_hangs_in_spring:
  assumes "s - 3600 < p" and "p \<le> s" and "hours = 1 \<or> hours = 2"
    and "at_unix (d * 86400 + 3600 - s) \<le> now" and "local_date (spring_zone d s p) now = d"
  shows "chunk_boundary_at_or_before now hours (spring_zone d s p) = None"
proof -
  have "to_utc_assume_local d 0 (spring_zone d s p) = at_unix (d * 86400 - s)"
    using spring_to_utc(1) [of 0 p s d] assms(1) by simp
  moreover have "at_unix (d * 86400 - s) \<le> now"
    using assms(4) by (rule order_trans [rotated]) simp
  ultimately have "local_midnight_at_or_before now (spring_zone d s p) = Inr (at_unix (d * 86400 - s))"
    using assms(5) by (simp add: local_midnight_at_or_before_def)
  moreover have "chunk_walk now hours (spring_zone d s p) (at_unix (d * 86400 - s)) = None"
    using spring_chunks(1) [OF assms(1-3), of d] chunk_walk_stuck [OF spring_chunks(2) [OF assms(1-3)] assms(4)] assms(4)
    by (subst chunk_walk.simps) simp
  ultimately show ?thesis by (simp add: chunk_boundary_at_or_before_def)
qed

text \<open>Berlin on 29 March 2026, at noon, with chunks of two hours.\<close>

theorem chunk_walk_hangs_in_spring_witness:
  "chunk_boundary_at_or_before (at_unix (date_of 2026 3 29 * 86400 + 36000)) 2 (spring_zone (date_of 2026 3 29) 3600 3208) = None"
  by (rule chunk_walk_hangs_in_spring) (simp_all add: local_date_def local_secs_def spring_zone_def)

end
