(* ===== verification/ScheduleFacts.thy ===== *)
theory ScheduleFacts
  imports RuleConfig
begin

text \<open>
  What the schedule forms of Schedule guarantee: the one placement a validated schedule makes
  at a local minute, and that every clock range and date span survives printing and parsing.
\<close>

section \<open>Placements\<close>

definition range_ok :: "clock_range \<Rightarrow> bool" where
  "range_ok r \<longleftrightarrow> cr_start r < 1440 \<and> cr_end r \<le> 1440 \<and> cr_start r \<noteq> cr_end r"

text \<open>A minute counted from midnight of the day the placement starts on.\<close>

definition runs_at :: "clock_range \<Rightarrow> nat \<Rightarrow> bool" where
  "runs_at r m \<longleftrightarrow> cr_start r \<le> m \<and> m < (if wraps r then cr_end r + 1440 else cr_end r)"

definition covers_minute :: "clock_range \<Rightarrow> nat \<Rightarrow> bool" where
  "covers_minute r m \<longleftrightarrow> list_ex (\<lambda>(a, b). a \<le> m \<and> m < b) (range_spans r)"

lemma ranges_overlap_shared: "covers_minute a m \<Longrightarrow> covers_minute b m \<Longrightarrow> ranges_overlap a b"
  by (auto simp: covers_minute_def ranges_overlap_def range_spans_def)

lemma start_day_iff:
  assumes "date_min < date" and "minute < 1440" and "range_ok r"
  shows "start_day s date minute r = Some d \<longleftrightarrow>
    matches_day s d \<and> d \<le> date \<and> runs_at r (minute + 1440 * nat (date - d))"
proof -
  have far: "\<not> runs_at r (minute + 1440 * nat (date - d))" if "d \<noteq> date" "d \<noteq> date - 1" "d \<le> date"
  proof -
    have "2 \<le> nat (date - d)" using that by simp
    then have "2880 \<le> 1440 * nat (date - d)" by simp
    then show ?thesis using assms(3) by (auto simp: runs_at_def range_ok_def wraps_def)
  qed
  consider "d = date" | "d = date - 1" | "date < d" | "d \<noteq> date" "d \<noteq> date - 1" "d \<le> date" by linarith
  then show ?thesis
  proof cases
    case 4
    then show ?thesis
      using far assms(1) by (auto simp: start_day_def previous_day_def Let_def split: if_splits)
  qed (use assms in \<open>auto simp: start_day_def previous_day_def runs_at_def range_ok_def wraps_def Let_def split: if_splits\<close>)
qed

lemma start_day_covers: "start_day s date minute r = Some d \<Longrightarrow> minute < 1440 \<Longrightarrow> covers_minute r minute"
  by (auto simp: start_day_def covers_minute_def range_spans_def Let_def split: if_splits)

lemma find_map_SomeD: "find_map f xs = Some y \<Longrightarrow> \<exists>x\<in>set xs. f x = Some y"
  by (induction xs) (auto split: option.splits)

lemma find_map_unique:
  "x \<in> set xs \<Longrightarrow> f x = Some y \<Longrightarrow> \<forall>x'\<in>set xs. f x' \<noteq> None \<longrightarrow> x' = x \<Longrightarrow> find_map f xs = Some y"
proof (induction xs)
  case (Cons z zs)
  show ?case
  proof (cases "z = x")
    case True
    then show ?thesis by (simp add: Cons.prems(2))
  next
    case False
    then have "f z = None" using bspec [OF Cons.prems(3), of z] by (metis list.set_intros(1))
    moreover have "find_map f zs = Some y"
      by (rule Cons.IH) (use False Cons.prems(1) in simp, rule Cons.prems(2),
          rule ballI, rule bspec [OF Cons.prems(3)], rule list.set_intros(2))
    ultimately show ?thesis by simp
  qed
qed simp

lemma find_map_None_iff: "find_map f xs = None \<longleftrightarrow> (\<forall>x\<in>set xs. f x = None)"
  by (induction xs) (auto split: option.splits)

lemma sorted_wrt_apart:
  "sorted_wrt (\<lambda>a b. \<not> R a b) xs \<Longrightarrow> x \<in> set xs \<Longrightarrow> y \<in> set xs \<Longrightarrow> R x y \<Longrightarrow> R y x \<Longrightarrow> x = y"
proof (induction xs)
  case (Cons z zs)
  then consider "x = z" "y = z" | "x = z" "y \<in> set zs" | "x \<in> set zs" "y = z" | "x \<in> set zs" "y \<in> set zs" by auto
  then show ?case using Cons by cases auto
qed simp

text \<open>The hours a loaded schedule has: proper ranges, no two over the same minute.\<close>

definition hours_ok :: "(clock_range, string) btree \<Rightarrow> bool" where
  "hours_ok hs \<longleftrightarrow> list_all (\<lambda>(r, _). range_ok r) hs \<and> sorted_wrt (\<lambda>(a, _) (b, _). \<not> ranges_overlap a b) hs"

lemma hit_at_iff:
  assumes hours: "hours_ok (sc_hours s)" and date: "date_min < date" "minute < 1440"
  shows "hit_at s date minute = Some (slot, r, d) \<longleftrightarrow>
    (r, slot) \<in> set (sc_hours s) \<and> matches_day s d \<and> d \<le> date \<and> runs_at r (minute + 1440 * nat (date - d))"
    (is "?hit \<longleftrightarrow> ?in \<and> ?on")
proof -
  let ?f = "\<lambda>(r, slot). map_option (\<lambda>d. (slot, r, d)) (start_day s date minute r)"
  have ok: "range_ok r'" if "(r', x) \<in> set (sc_hours s)" for r' x
    using hours that by (auto simp: hours_ok_def list_all_iff)
  show ?thesis
  proof
    assume ?hit
    then obtain x where x: "x \<in> set (sc_hours s)" "?f x = Some (slot, r, d)"
      unfolding hit_at_def using find_map_SomeD by fast
    then have "x = (r, slot)" "start_day s date minute r = Some d" by (auto split: prod.splits)
    then show "?in \<and> ?on" using x(1) start_day_iff [OF date ok] by blast
  next
    assume on: "?in \<and> ?on"
    then have start: "start_day s date minute r = Some d" using start_day_iff [OF date ok] by blast
    have uniq: "x' = (r, slot)" if x': "x' \<in> set (sc_hours s)" "?f x' \<noteq> None" for x'
    proof -
      obtain r' slot' d' where x: "x' = (r', slot')" "start_day s date minute r' = Some d'"
        using x'(2) by (cases x') auto
      then have "covers_minute r' minute" "covers_minute r minute"
        using start start_day_covers date(2) by blast+
      then show ?thesis
        using sorted_wrt_apart [of "\<lambda>(a, _) (b, _). ranges_overlap a b" "sc_hours s" x' "(r, slot)"] hours on x' x
        by (auto simp: hours_ok_def ranges_overlap_shared case_prod_unfold)
    qed
    show ?hit
      unfolding hit_at_def using on start uniq by (intro find_map_unique [where x = "(r, slot)"]) auto
  qed
qed

text \<open>
  A validated schedule makes exactly the placements it declares: at a local minute
  it airs slot \<open>slot\<close> from range \<open>r\<close> begun on day \<open>d\<close> if and only if it declares that range for that
  slot, applies on day \<open>d\<close> and the minute, counted from midnight of day \<open>d\<close>, lies in the range
  unwrapped past midnight. In particular a range that wraps belongs to the day it starts on,
  and the order of the map decides nothing.
\<close>

theorem schedule_places_what_it_declares:
  assumes "hours_ok (sc_hours s)" and "date_min < date" and "minute < 1440"
  shows "hit_at s date minute = Some (slot, r, d) \<longleftrightarrow>
    (r, slot) \<in> set (sc_hours s) \<and> matches_day s d \<and> d \<le> date \<and> runs_at r (minute + 1440 * nat (date - d))"
  using assms by (rule hit_at_iff)

definition late_fridays :: schedule where
  "late_fridays =
     \<lparr>sc_name = ''late'', sc_dates = [], sc_weekdays = [Fri],
      sc_hours = [(ClockRange 120 300, ''dawn''), (ClockRange 1260 120, ''late'')]\<rparr>"

theorem schedule_places_what_it_declares_witness:
  "hit_at late_fridays (date_of 2026 4 18) 60 = Some (''late'', ClockRange 1260 120, date_of 2026 4 17)"
proof -
  have ok: "hours_ok (sc_hours late_fridays)" "date_min < date_of 2026 4 18" "60 < (1440::nat)"
    by code_simp+
  have "(ClockRange 1260 120, ''late'') \<in> set (sc_hours late_fridays) \<and> matches_day late_fridays (date_of 2026 4 17) \<and>
      date_of 2026 4 17 \<le> date_of 2026 4 18 \<and>
      runs_at (ClockRange 1260 120) (60 + 1440 * nat (date_of 2026 4 18 - date_of 2026 4 17))"
    by code_simp
  then show ?thesis using schedule_places_what_it_declares [OF ok] by blast
qed

section \<open>Padded numbers\<close>

lemma digits_value_zero: "digits_value (CHR ''0'' # s) = digits_value s"
  by (simp add: digits_value_def digit_val_def)

lemma digits_value_zeros [simp]: "digits_value (replicate k (CHR ''0'') @ s) = digits_value s"
  by (induction k) (simp_all add: digits_value_zero)

lemma length_dec_le: "n < 10 ^ Suc k \<Longrightarrow> length (dec n) \<le> Suc k"
proof (induction k arbitrary: n)
  case 0
  then show ?case by (subst dec.simps) simp
next
  case (Suc k)
  then have "length (dec (n div 10)) \<le> Suc k" by (intro Suc.IH) (simp add: less_mult_imp_div_less)
  then show ?case by (subst dec.simps) simp
qed

lemma list_all_zeros [simp]: "list_all is_digit (replicate k (CHR ''0''))"
  by (simp add: list_all_iff is_digit_def)

lemma pad_zeros_digits [simp]: "list_all is_digit (pad_zeros w (dec n))"
  by (simp add: pad_zeros_def)

lemma length_pad_zeros: "length (pad_zeros w s) = max w (length s)"
  by (simp add: pad_zeros_def)

lemma length_pad_zeros_dec: "n < 10 ^ Suc k \<Longrightarrow> length (pad_zeros (Suc k) (dec n)) = Suc k"
  using length_dec_le [of n k] by (simp add: length_pad_zeros max_def)

lemma digits_value_pad [simp]: "digits_value (pad_zeros w (dec n)) = n"
  by (simp add: pad_zeros_def)

lemma dec2_pad: "n < 100 \<Longrightarrow> dec2 n = pad_zeros 2 (dec n)"
proof (cases "n < 10")
  case True
  then have "dec n = [digit_char n]" by (subst dec.simps) simp
  then show ?thesis using True by (simp add: dec2_def pad_zeros_def numeral_2_eq_2)
next
  case False
  then have "2 \<le> length (dec n)" by (subst dec.simps) (simp add: Suc_le_eq)
  then show ?thesis using False by (simp add: dec2_def pad_zeros_def)
qed

lemma digits_only:
  assumes "list_all is_digit s"
  shows "CHR ''-'' \<notin> set s" "CHR ''+'' \<notin> set s" "CHR '':'' \<notin> set s" "CHR ''.'' \<notin> set s" "c \<in> set s \<Longrightarrow> \<not> is_space c"
proof -
  show "c \<in> set s \<Longrightarrow> \<not> is_space c" using assms digit_not unfolding list_all_iff by blast
qed (use assms in \<open>auto simp: list_all_iff is_digit_def\<close>)

lemma parse_uint_digits: "list_all is_digit s \<Longrightarrow> s \<noteq> [] \<Longrightarrow> digits_value s \<le> hi \<Longrightarrow> parse_uint hi s = Some (digits_value s)"
  using digits_only(2) [of s] by (cases s) (auto simp: parse_uint_def Let_def)

lemma parse_i64_digits: "list_all is_digit s \<Longrightarrow> s \<noteq> [] \<Longrightarrow> digits_value s \<le> i64_max \<Longrightarrow> parse_i64 s = Some (int (digits_value s))"
  using digits_only(1) [of s] parse_uint_digits [of s i64_max] by (cases s) (auto simp: parse_i64_def)

lemma dec2_digits [simp]: "n < 100 \<Longrightarrow> list_all is_digit (dec2 n)"
  by (simp add: dec2_pad)

lemma length_dec2 [simp]: "n < 100 \<Longrightarrow> length (dec2 n) = 2"
  using length_pad_zeros_dec [of n 1] by (simp add: dec2_pad numeral_2_eq_2)

lemma dec2_nonempty [simp]: "dec2 n \<noteq> []"
  by (simp add: dec2_def)

lemma parse_uint_dec2 [simp]: "n < 100 \<Longrightarrow> n \<le> hi \<Longrightarrow> parse_uint hi (dec2 n) = Some n"
  using parse_uint_digits [of "dec2 n" hi] dec2_nonempty [of n] by (simp add: dec2_pad del: dec2_nonempty)

lemma dec2_free [simp]:
  assumes "n < 100"
  shows "CHR ''-'' \<notin> set (dec2 n)" "CHR '':'' \<notin> set (dec2 n)" "CHR ''.'' \<notin> set (dec2 n)"
  using digits_only [OF dec2_digits [OF assms]] by simp_all

lemma trimmed_ends: "list_all is_digit a \<Longrightarrow> list_all is_digit b \<Longrightarrow> a \<noteq> [] \<Longrightarrow> b \<noteq> [] \<Longrightarrow> trimmed (a @ m @ b)"
  using digits_only(5) [of a "hd a"] digits_only(5) [of b "last b"] by (simp add: trimmed_def)

lemma split_dots_append: "CHR ''.'' \<notin> set a \<Longrightarrow> split_dots (a @ CHR ''.'' # CHR ''.'' # b) = Some (a, b)"
proof (induction a)
  case (Cons c a)
  then show ?case by (cases a) auto
qed simp

section \<open>Clock ranges round trip\<close>

lemma parse_clock_le: "parse_clock s = Inr n \<Longrightarrow> n \<le> 1440"
  by (auto simp: parse_clock_def Let_def split: if_splits option.splits)

lemma clock_hours: "n \<le> 1440 \<Longrightarrow> n div 60 < 100 \<and> n div 60 \<le> 24 \<and> n mod 60 < 100 \<and> (n div 60 = 24 \<longrightarrow> n mod 60 = 0)" for n :: nat
  using div_mult_mod_eq [of n 60] mod_less_divisor [of 60 n] by linarith

lemma parse_fmt_clock:
  assumes "n \<le> 1440"
  shows "parse_clock (fmt_clock n) = Inr n"
proof -
  have "split_once (CHR '':'') (fmt_clock n) = Some (dec2 (n div 60), dec2 (n mod 60))"
    using clock_hours [OF assms] unfolding fmt_clock_def by (simp add: split_once_append)
  moreover have "parse_uint u16_max (dec2 (n div 60)) = Some (n div 60)" "parse_uint u16_max (dec2 (n mod 60)) = Some (n mod 60)"
    using clock_hours [OF assms] by (simp_all add: u16_max_def)
  moreover have "n mod 60 \<le> 59" by simp
  ultimately show ?thesis using clock_hours [OF assms] by (simp add: parse_clock_def)
qed

lemma fmt_clock_trimmed: "n \<le> 1440 \<Longrightarrow> trimmed (fmt_clock n)"
  using clock_hours [of n] trimmed_ends [of "dec2 (n div 60)" "dec2 (n mod 60)" "'':''"] by (simp add: fmt_clock_def)

lemma fmt_clock_dots: "n \<le> 1440 \<Longrightarrow> CHR ''.'' \<notin> set (fmt_clock n)"
  using clock_hours [of n] by (simp add: fmt_clock_def)

lemma parse_print_clock_range: "range_ok r \<Longrightarrow> parse_clock_range (print_clock_range r) = Inr r"
  by (cases r) (simp add: range_ok_def parse_clock_range_def print_clock_range_def split_dots_append fmt_clock_dots
      trim_idle fmt_clock_trimmed parse_fmt_clock)

lemma parse_clock_range_ok: "parse_clock_range s = Inr r \<Longrightarrow> range_ok r"
  by (auto simp: parse_clock_range_def range_ok_def bind_res_Inr_iff dest!: parse_clock_le split: option.splits if_splits)

text \<open>
  Whatever clock range the parser accepts is a proper one (it starts before midnight,
  ends by 24:00 and is not empty), and writing it and reading it back gives the same range.
\<close>

theorem clock_range_roundtrip:
  assumes "parse_clock_range s = Inr r"
  shows "range_ok r \<and> parse_clock_range (print_clock_range r) = Inr r"
  using parse_clock_range_ok [OF assms] parse_print_clock_range by simp

theorem clock_range_roundtrip_witness:
  "parse_clock_range (print_clock_range (ClockRange 1260 150)) = Inr (ClockRange 1260 150)"
proof -
  have "parse_clock_range '' 21 .. 02:30'' = Inr (ClockRange 1260 150)"
    by (simp add: parse_clock_range_def trim_def is_space_def parse_clock_def split_once_def parse_uint_def
        is_digit_def digits_value_def digit_val_def u16_max_def)
  from clock_range_roundtrip [OF this] show ?thesis by simp
qed

section \<open>Date spans round trip\<close>

fun print_part :: "date_part \<Rightarrow> string" where
  "print_part (AnnualPart m d) = dec2 m @ CHR ''-'' # dec2 d"
| "print_part (FixedPart t) = fixed_date t"

definition plain_date :: "int \<Rightarrow> nat \<Rightarrow> nat \<Rightarrow> bool" where
  "plain_date y m d \<longleftrightarrow> - 999 \<le> y \<and> y \<le> 9999 \<and> 1 \<le> m \<and> m \<le> 12 \<and> 1 \<le> d \<and> d \<le> month_length y m"

fun part_ok :: "date_part \<Rightarrow> bool" where
  "part_ok (AnnualPart m d) = plain_date 2024 m d"
| "part_ok (FixedPart t) = (\<exists>y m d. plain_date y m d \<and> t = date_of y m d)"

lemma digits_value_less: "list_all is_digit s \<Longrightarrow> digits_value s < 10 ^ length s"
proof (induction s rule: rev_induct)
  case (snoc c s)
  then have "digits_value s < 10 ^ length s" "digit_val c \<le> 9" by (auto simp: is_digit_def digit_val_def)
  then show ?case by (simp add: digits_value_snoc)
qed (simp add: digits_value_def)

lemma year_field:
  assumes "parse_i64 s = Some y" and "length s = 4"
  shows "- 999 \<le> y \<and> y \<le> 9999"
proof -
  obtain c cs where s: "s = c # cs" "length cs = 3" using assms(2) by (cases s) auto
  have "digits_value ds < 10 ^ length ds" if "list_all is_digit ds" for ds using that by (rule digits_value_less)
  from this [of cs] this [of s] show ?thesis
    using assms(1) s by (auto simp: parse_i64_def parse_uint_def Let_def split: if_splits)
qed

lemma month_day_field:
  assumes "parse_month_day s whole = Inr (m, d)"
  shows "plain_date 2024 m d"
  using assms by (auto simp: parse_month_day_def plain_date_def Let_def split: option.splits if_splits)

lemma parse_date_part_ok:
  assumes p: "parse_date_part s whole = Inr p"
  shows "part_ok p"
proof (cases "length (trim s) = 5")
  case True
  then show ?thesis using p by (auto simp: parse_date_part_def Let_def bind_res_Inr_iff dest!: month_day_field)
next
  case False
  then obtain y m d where y: "parse_i64 (take 4 (trim s)) = Some y" "length (trim s) = 10"
    and md: "parse_month_day (drop 5 (trim s)) whole = Inr (m, d)" and date: "from_calendar_date y m d = Some (date_of y m d)"
    and eq: "p = FixedPart (date_of y m d)"
    using p by (auto simp: parse_date_part_def Let_def bind_res_Inr_iff from_calendar_date_def split: if_splits option.splits)
  have "plain_date y m d"
    using year_field [OF y(1)] y(2) month_day_field [OF md] date
    by (auto simp: plain_date_def from_calendar_date_def split: if_splits)
  then show ?thesis using eq by auto
qed

lemma parse_month_day_print:
  assumes "plain_date 2024 m d"
  shows "parse_month_day (dec2 m @ CHR ''-'' # dec2 d) whole = Inr (m, d)"
proof -
  have b: "m < 100" "d < 100" using assms order_trans [OF _ month_length_pos(2) [of 2024 m], of d] by (auto simp: plain_date_def)
  have "split_once (CHR ''-'') (dec2 m @ CHR ''-'' # dec2 d) = Some (dec2 m, dec2 d)" using b by (simp add: split_once_append)
  then show ?thesis using assms b by (simp add: parse_month_day_def plain_date_def u8_max_def not_less)
qed

lemma pad_year:
  assumes "- 999 \<le> y" and "y \<le> 9999"
  shows "length (pad_int 4 y) = 4" and "parse_i64 (pad_int 4 y) = Some y" and "CHR ''.'' \<notin> set (pad_int 4 y)"
    and "\<not> is_space (hd (pad_int 4 y))"
proof -
  have l: "length (pad_zeros 4 (dec n)) = 4" if "n \<le> 9999" for n
    using that length_pad_zeros_dec [of n 3] by simp
  have l3: "length (pad_zeros 3 (dec n)) = 3" if "n \<le> 999" for n
    using that length_pad_zeros_dec [of n 2] by (simp add: numeral_3_eq_3)
  show "length (pad_int 4 y) = 4" using assms l l3 by (simp add: pad_int_def)
  have ne: "pad_zeros 4 (dec n) \<noteq> []" "pad_zeros 3 (dec n) \<noteq> []" for n by (simp_all add: pad_zeros_def)
  show "parse_i64 (pad_int 4 y) = Some y"
    using assms parse_i64_digits [OF pad_zeros_digits ne(1), of "nat y"] ne(2)
    by (auto simp: pad_int_def parse_i64_def i64_max_def)
  show "CHR ''.'' \<notin> set (pad_int 4 y)"
    using digits_only(4) [OF pad_zeros_digits] by (simp add: pad_int_def)
  show "\<not> is_space (hd (pad_int 4 y))"
    using digits_only(5) [OF pad_zeros_digits, OF hd_in_set, OF ne(1)] by (simp add: pad_int_def is_space_def)
qed

lemma plain_date_bounds: "plain_date y m d \<Longrightarrow> m < 100 \<and> d < 100"
  using order_trans [OF _ month_length_pos(2) [of y m], of d] by (auto simp: plain_date_def)

lemma fixed_date_of: "plain_date y m d \<Longrightarrow> fixed_date (date_of y m d) = pad_int 4 y @ CHR ''-'' # dec2 m @ CHR ''-'' # dec2 d"
  by (simp add: fixed_date_def month_day_of_date date_of_year plain_date_def)

lemma print_part_shape:
  assumes "part_ok p"
  shows "trimmed (print_part p)" and "CHR ''.'' \<notin> set (print_part p)"
proof -
  have "trimmed (print_part p) \<and> CHR ''.'' \<notin> set (print_part p)"
  proof (cases p)
    case (AnnualPart m d)
    then have "m < 100" "d < 100" using assms plain_date_bounds [of 2024 m d] by simp_all
    then show ?thesis using AnnualPart trimmed_ends [of "dec2 m" "dec2 d" "''-''"] by simp
  next
    case (FixedPart t)
    then obtain y m d where d: "plain_date y m d" "t = date_of y m d" using assms by auto
    then have b: "m < 100" "d < 100" and y: "- 999 \<le> y" "y \<le> 9999" using plain_date_bounds [of y m d] by (simp_all add: plain_date_def)
    have "pad_int 4 y \<noteq> []" using pad_year(1) [OF y] by auto
    moreover have "\<not> is_space (last (dec2 d))" using digits_only(5) [OF dec2_digits [OF b(2)] last_in_set] by simp
    ultimately show ?thesis
      using FixedPart d b pad_year(3,4) [OF y] by (simp add: fixed_date_of trimmed_def)
  qed
  then show "trimmed (print_part p)" and "CHR ''.'' \<notin> set (print_part p)" by simp_all
qed

lemma parse_print_part:
  assumes "part_ok p"
  shows "parse_date_part (print_part p) whole = Inr p"
proof (cases p)
  case (AnnualPart m d)
  then have "m < 100" "d < 100" using assms plain_date_bounds [of 2024 m d] by simp_all
  then show ?thesis
    using AnnualPart assms print_part_shape(1) [OF assms] parse_month_day_print [of m d whole]
    by (simp add: parse_date_part_def trim_idle)
next
  case (FixedPart t)
  then obtain y m d where d: "plain_date y m d" "t = date_of y m d" using assms by auto
  have y: "- 999 \<le> y" "y \<le> 9999" and v: "d \<le> month_length y m" "1 \<le> d" using d(1) by (simp_all add: plain_date_def)
  have b: "m < 100" "d < 100" using plain_date_bounds [OF d(1)] by simp_all
  have leap: "plain_date 2024 m d" using d(1) by (auto simp: plain_date_def month_length_def is_leap_def split: if_splits)
  have s: "trim (print_part p) = pad_int 4 y @ CHR ''-'' # dec2 m @ CHR ''-'' # dec2 d"
    using FixedPart d print_part_shape(1) [OF assms] by (simp add: trim_idle fixed_date_of)
  have "from_calendar_date y m d = Some t" using y v d(2) by (simp add: from_calendar_date_def)
  then show ?thesis
    unfolding parse_date_part_def s Let_def
    using pad_year(1,2) [OF y] b FixedPart parse_month_day_print [OF leap] by (simp add: nth_append)
qed

fun date_span_ok :: "date_span \<Rightarrow> bool" where
  "date_span_ok (Annual (m1, d1) (m2, d2)) = (plain_date 2024 m1 d1 \<and> plain_date 2024 m2 d2)"
| "date_span_ok (Fixed a b) = (a \<le> b \<and> part_ok (FixedPart a) \<and> part_ok (FixedPart b))"

lemma parse_date_span_ok:
  assumes "parse_date_span s = Inr sp"
  shows "date_span_ok sp"
proof -
  obtain a b pa pb where p: "parse_date_part a s = Inr pa" "parse_date_part b s = Inr pb"
    and sp: "(case (pa, pb) of (AnnualPart m1 d1, AnnualPart m2 d2) \<Rightarrow> Inr (Annual (m1, d1) (m2, d2))
      | (FixedPart a, FixedPart b) \<Rightarrow> if b < a then Inl (debug_str s @ '' ends before it starts'') else Inr (Fixed a b)
      | _ \<Rightarrow> Inl (debug_str s @ '' mixes a yearly date with a dated one; give both ends a year or neither'')) = Inr sp"
    using assms unfolding parse_date_span_def Let_def by (auto simp: bind_res_Inr_iff split: prod.splits)
  then show ?thesis
    using parse_date_part_ok [OF p(1)] parse_date_part_ok [OF p(2)] by (cases pa; cases pb) (auto simp del: part_ok.simps(2) split: if_splits)
qed

lemma parse_print_date_span: "date_span_ok sp \<Longrightarrow> parse_date_span (print_date_span sp) = Inr sp"
proof (induction sp rule: date_span_ok.induct)
  case (1 m1 d1 m2 d2)
  let ?a = "AnnualPart m1 d1" and ?b = "AnnualPart m2 d2"
  have ok: "part_ok ?a" "part_ok ?b" using "1" by simp_all
  have "print_date_span (Annual (m1, d1) (m2, d2)) = print_part ?a @ CHR ''.'' # CHR ''.'' # print_part ?b" by simp
  then show ?case
    using split_dots_append [OF print_part_shape(2) [OF ok(1)]] parse_print_part [OF ok(1)] parse_print_part [OF ok(2)]
    unfolding parse_date_span_def Let_def by simp
next
  case (2 a b)
  have ok: "part_ok (FixedPart a)" "part_ok (FixedPart b)" and le: "a \<le> b" using "2" by simp_all
  have "print_date_span (Fixed a b) = print_part (FixedPart a) @ CHR ''.'' # CHR ''.'' # print_part (FixedPart b)" by simp
  then show ?case
    using le split_dots_append [OF print_part_shape(2) [OF ok(1)]] parse_print_part [OF ok(1)] parse_print_part [OF ok(2)]
    unfolding parse_date_span_def Let_def by simp
qed

text \<open>
  Whatever date span the parser accepts names real days in order, and writing it
  and reading it back gives the same span, yearly spans that cross the new year included.
\<close>

theorem date_span_roundtrip:
  assumes "parse_date_span s = Inr sp"
  shows "date_span_ok sp \<and> parse_date_span (print_date_span sp) = Inr sp"
  using parse_date_span_ok [OF assms] parse_print_date_span by simp

theorem date_span_roundtrip_witness:
  "parse_date_span (print_date_span (Annual (12, 20) (1, 5))) = Inr (Annual (12, 20) (1, 5))"
proof -
  have "parse_date_span '' 12-20..01-05'' = Inr (Annual (12, 20) (1, 5))"
    by (simp add: parse_date_span_def parse_date_part_def trim_def is_space_def parse_month_day_def split_once_def
        parse_uint_def is_digit_def digits_value_def digit_val_def u8_max_def month_length_def)
  from date_span_roundtrip [OF this] show ?thesis by simp
qed

end
