(* ===== verification/Calendar.thy ===== *)
theory Calendar
  imports Tz ScheduleFacts
begin

text \<open>
  \<open>calendar.rs\<close>: which block is on air at an instant under a channel's schedules, when that
  next changes, and every instant at which it can; and the rotation preview of \<open>rotation.rs\<close>,
  which samples those instants.
\<close>

section \<open>What airs\<close>

record placed_slot =
  pl_slot :: string
  pl_index :: nat
  pl_schedule :: string
  pl_placement :: "int option"
  pl_rotation :: "string option"

datatype on_air_at = AnyTime | OnSlot placed_slot

fun same_block :: "on_air_at \<Rightarrow> on_air_at \<Rightarrow> bool" where
  "same_block AnyTime AnyTime = True"
| "same_block (OnSlot a) (OnSlot b) = (pl_index a = pl_index b \<and> pl_placement a = pl_placement b)"
| "same_block _ _ = False"

record calendar =
  cal_rule :: rule_config
  cal_order :: "schedule list"
  cal_zone :: zone

definition calendar_new :: "rule_config \<Rightarrow> zone \<Rightarrow> calendar option" where
  "calendar_new rule tz =
     (if ru_schedules rule = [] then None
      else Some \<lparr>cal_rule = rule, cal_order = sort_key (\<lambda>s. - int (schedule_rank s)) (ru_schedules rule), cal_zone = tz\<rparr>)"

text \<open>\<open>Time::from_hms\<close> of a minute of the day, or midnight when it is past the day's end.\<close>

definition clock_secs :: "nat \<Rightarrow> int" where
  "clock_secs minute = (if minute div 60 < 24 then int minute * 60 else 0)"

definition placement_of :: "calendar \<Rightarrow> string \<Rightarrow> clock_range \<Rightarrow> date \<Rightarrow> int option" where
  "placement_of cal slot r d =
     (case bt_get (ru_slots (cal_rule cal)) slot of
        Some b \<Rightarrow>
          if is_rotation b
          then Some (unix_timestamp (to_utc_assume_local d (clock_secs (cr_start r)) (cal_zone cal))) else None
      | None \<Rightarrow> None)"

definition placed_by :: "calendar \<Rightarrow> date \<Rightarrow> nat \<Rightarrow> schedule \<Rightarrow> placed_slot option" where
  "placed_by cal date minute s =
     (case hit_at s date minute of
        None \<Rightarrow> None
      | Some (slot, r, d) \<Rightarrow>
          (case slot_index (cal_rule cal) slot of
             None \<Rightarrow> None
           | Some index \<Rightarrow>
               Some \<lparr>pl_slot = slot, pl_index = index, pl_schedule = sc_name s,
                     pl_placement = placement_of cal slot r d, pl_rotation = None\<rparr>))"

definition on_air :: "calendar \<Rightarrow> instant \<Rightarrow> on_air_at" where
  "on_air cal t =
     (case find_map (placed_by cal (local_date (cal_zone cal) t) (local_minute (cal_zone cal) t)) (cal_order cal) of
        Some p \<Rightarrow> OnSlot p
      | None \<Rightarrow> AnyTime)"

text \<open>\<open>None\<close> is a chain of rotations that does not end; the \<open>Inl\<close> is the \<open>expect\<close> on the drawn member.\<close>

definition on_air_drawn ::
  "calendar \<Rightarrow> instant \<Rightarrow> (instant \<Rightarrow> u64) \<Rightarrow> rotations
     \<Rightarrow> (on_air_at \<times> draw_reason list option \<times> rotations) result option" where
  "on_air_drawn cal t seed_at rots =
     (case on_air cal t of
        OnSlot p \<Rightarrow>
          (case pl_placement p of
             None \<Rightarrow> Some (Inr (OnSlot p, None, rots))
           | Some start \<Rightarrow>
               map_option (\<lambda>res. bind_res res (\<lambda>(chain, rots).
                 bind_res (drawn_leaf chain) (\<lambda>leaf.
                 case slot_index (cal_rule cal) leaf of
                   None \<Rightarrow> Inl ''a drawn member is a declared slot''
                 | Some index \<Rightarrow>
                     Inr (OnSlot \<lparr>pl_slot = leaf, pl_index = index, pl_schedule = pl_schedule p,
                                  pl_placement = Some start, pl_rotation = Some (pl_slot p)\<rparr>, Some chain, rots))))
                 (resolve_slot (cal_rule cal) (pl_slot p) start seed_at rots))
      | AnyTime \<Rightarrow> Some (Inr (AnyTime, None, rots)))"

section \<open>The next change\<close>

definition minute_ns :: int where "minute_ns = 60 * nanos_per_sec"

text \<open>\<open>from\<close> with its nanoseconds and seconds dropped.\<close>

definition minute_floor :: "instant \<Rightarrow> instant" where
  "minute_floor t = at_unix (unix_timestamp t - unix_timestamp t mod 60)"

function change_from :: "calendar \<Rightarrow> on_air_at \<Rightarrow> instant \<Rightarrow> instant \<Rightarrow> instant option" where
  "change_from cal now until t =
     (if t < until
      then if \<not> same_block (on_air cal t) now then Some t else change_from cal now until (t + minute_ns)
      else None)"
  by pat_completeness auto
termination
  by (relation "measure (\<lambda>(cal, now, until, t). nat (until - t))") (auto simp: minute_ns_def nanos_per_sec_def)

declare change_from.simps [simp del]

definition next_change :: "calendar \<Rightarrow> instant \<Rightarrow> instant \<Rightarrow> instant option" where
  "next_change cal start until = change_from cal (on_air cal start) until (minute_floor start + minute_ns)"

section \<open>Every instant at which the answer can change\<close>

definition boundary_minutes :: "calendar \<Rightarrow> nat list" where
  "boundary_minutes cal =
     sort (remdups (filter (\<lambda>m. m < 1440)
       (0 # concat (map (\<lambda>s. concat (map (\<lambda>(r, _). [cr_start r, cr_end r]) (sc_hours s))) (cal_order cal)))))"

text \<open>The bisection for the first minute after a skipped local time, by its offset.\<close>

function gap_bisect :: "zone \<Rightarrow> instant \<Rightarrow> int \<Rightarrow> int \<Rightarrow> int \<Rightarrow> int" where
  "gap_bisect tz t off lo hi =
     (if hi - lo > 1
      then let mid = (lo + hi) div 2 in
        if zn_offset tz (t + mid * minute_ns) = off then gap_bisect tz t off mid hi else gap_bisect tz t off lo mid
      else hi)"
  by pat_completeness auto
termination
  by (relation "measure (\<lambda>(tz, t, off, lo, hi). nat (hi - lo))") auto

declare gap_bisect.simps [simp del]

definition boundaries_of :: "calendar \<Rightarrow> instant \<Rightarrow> instant \<Rightarrow> date \<Rightarrow> nat \<Rightarrow> instant list" where
  "boundaries_of cal start until day m =
     (let tz = cal_zone cal; t = to_utc_assume_local day (clock_secs m) tz in
      if until \<le> t then []
      else (if start < t then [t] else []) @
        (if local_minute tz t \<noteq> m
         then let after = t + gap_bisect tz t (zn_offset tz t) 0 60 * minute_ns in
           if start < after \<and> after < until then [after] else []
         else []))"

definition day_in_range :: "calendar \<Rightarrow> instant \<Rightarrow> date \<Rightarrow> bool" where
  "day_in_range cal until day \<longleftrightarrow>
     list_ex (\<lambda>m. to_utc_assume_local day (clock_secs m) (cal_zone cal) < until) (boundary_minutes cal)"

function days_from :: "calendar \<Rightarrow> instant \<Rightarrow> instant \<Rightarrow> date option \<Rightarrow> instant list" where
  "days_from cal start until None = []"
| "days_from cal start until (Some day) =
     concat (map (boundaries_of cal start until day) (boundary_minutes cal)) @
     (if day_in_range cal until day then days_from cal start until (next_day day) else [])"
  by pat_completeness auto
termination
  by (relation "measure (\<lambda>(cal, start, until, day). case day of None \<Rightarrow> 0 | Some d \<Rightarrow> Suc (nat (date_max - d)))")
    (auto simp: next_day_def)

definition boundaries :: "calendar \<Rightarrow> instant \<Rightarrow> instant \<Rightarrow> instant list" where
  "boundaries cal start until =
     sort (remdups (days_from cal start until (previous_day (local_date (cal_zone cal) start))))"

section \<open>The rotation preview\<close>

record preview_row =
  pv_rotation :: string
  pv_schedule :: string
  pv_start :: instant
  pv_member :: string
  pv_airs :: string
  pv_reason :: string

record preview_state =
  ps_rotations :: rotations
  ps_counts :: "(string, nat) btree"
  ps_seen :: "(string \<times> int) list"
  ps_rows :: "preview_row list"
  ps_finished :: nat

definition wanted_rotations :: "rule_config \<Rightarrow> string list" where
  "wanted_rotations rule =
     sort (remdups (filter (\<lambda>slot. rotation_block rule slot \<noteq> None) (placed_slots rule)))"

definition preview_row_of :: "string \<Rightarrow> string \<Rightarrow> int \<Rightarrow> draw_reason list \<Rightarrow> preview_row result" where
  "preview_row_of slot schedule start chain =
     bind_res (drawn_leaf chain) (\<lambda>leaf.
     Inr \<lparr>pv_rotation = slot, pv_schedule = schedule, pv_start = placement_instant start,
          pv_member = dr_member (hd chain), pv_airs = leaf, pv_reason = join '' -> '' (map describe_reason chain)\<rparr>)"

text \<open>One sampled instant: a placement not seen before, of a rotation with rows left, draws.\<close>

definition preview_at :: "rule_config \<Rightarrow> calendar \<Rightarrow> (instant \<Rightarrow> u64) \<Rightarrow> nat \<Rightarrow> instant \<Rightarrow> preview_state \<Rightarrow> preview_state result option" where
  "preview_at rule cal seed_at n t st =
     (case on_air cal t of
        AnyTime \<Rightarrow> Some (Inr st)
      | OnSlot p \<Rightarrow>
          (case pl_placement p of
             None \<Rightarrow> Some (Inr st)
           | Some start \<Rightarrow>
               if (pl_slot p, start) \<in> set (ps_seen st) then Some (Inr st)
               else let count = (case bt_get (ps_counts st) (pl_slot p) of Some c \<Rightarrow> c | None \<Rightarrow> 0);
                        st = st\<lparr>ps_seen := (pl_slot p, start) # ps_seen st\<rparr> in
                 if n \<le> count then Some (Inr (st\<lparr>ps_counts := bt_insert (pl_slot p) count (ps_counts st)\<rparr>))
                 else let st = st\<lparr>ps_counts := bt_insert (pl_slot p) (count + 1) (ps_counts st),
                                  ps_finished := ps_finished st + (if count + 1 = n then 1 else 0)\<rparr> in
                   map_option (\<lambda>res. bind_res res (\<lambda>(chain, rots).
                     bind_res (preview_row_of (pl_slot p) (pl_schedule p) start chain) (\<lambda>row.
                     Inr (st\<lparr>ps_rotations := rots, ps_rows := ps_rows st @ [row]\<rparr>))))
                     (resolve_slot rule (pl_slot p) start seed_at (ps_rotations st))))"

fun preview_walk ::
  "rule_config \<Rightarrow> calendar \<Rightarrow> (instant \<Rightarrow> u64) \<Rightarrow> nat \<Rightarrow> nat \<Rightarrow> instant list \<Rightarrow> preview_state \<Rightarrow> preview_state result option" where
  "preview_walk rule cal seed_at n wanted [] st = Some (Inr st)"
| "preview_walk rule cal seed_at n wanted (t # ts) st =
     (if wanted \<le> ps_finished st then Some (Inr st)
      else case preview_at rule cal seed_at n t st of
        None \<Rightarrow> None
      | Some (Inl e) \<Rightarrow> Some (Inl e)
      | Some (Inr st) \<Rightarrow> preview_walk rule cal seed_at n wanted ts st)"

definition preview ::
  "rule_config \<Rightarrow> calendar \<Rightarrow> (instant \<Rightarrow> u64) \<Rightarrow> rotations \<Rightarrow> instant \<Rightarrow> nat \<Rightarrow> preview_row list result option" where
  "preview rule cal seed_at rots start n =
     (let wanted = wanted_rotations rule in
      if n = 0 \<or> wanted = [] then Some (Inr [])
      else let horizon = start + 366 * 86400 * nanos_per_sec in
        map_option (\<lambda>res. bind_res res (\<lambda>st. Inr (ps_rows st)))
          (preview_walk rule cal seed_at n (length wanted) (start # boundaries cal start horizon)
             \<lparr>ps_rotations = rots, ps_counts = [], ps_seen = [], ps_rows = [], ps_finished = 0\<rparr>))"

definition preview_channel ::
  "rule_config \<Rightarrow> variety \<Rightarrow> zone \<Rightarrow> rotations \<Rightarrow> instant \<Rightarrow> nat \<Rightarrow> preview_row list result option" where
  "preview_channel rule v tz rots start n =
     (case calendar_new rule tz of
        None \<Rightarrow> Some (Inr [])
      | Some cal \<Rightarrow> preview rule cal (\<lambda>t. dice_seed (dice_at v t None)) rots start n)"

text \<open>\<open>rfc3339\<close> is the RFC 3339 text of an instant.\<close>

definition preview_json :: "(instant \<Rightarrow> string) \<Rightarrow> preview_row list \<Rightarrow> json" where
  "preview_json rfc3339 rows =
     JArray (map (\<lambda>r. JObject (fold (\<lambda>(k, v). bt_insert k v)
       [(''rotation'', JString (pv_rotation r)), (''schedule'', JString (pv_schedule r)),
        (''start'', JString (rfc3339 (pv_start r))), (''member'', JString (pv_member r)),
        (''airs'', JString (pv_airs r)), (''reason'', JString (pv_reason r))] [])) rows)"

end
