(* ===== verification/RotationFacts.thy ===== *)
theory RotationFacts
  imports Rotation
begin

text \<open>
  What the rotations of Rotation guarantee: the validated rules are exactly those whose chains
  of rotations end, a placement drawn again is the same draw, and a draw respects the
  rotation's \<open>no_repeat_within\<close> and its order.
\<close>

section \<open>Validated rotations are acyclic\<close>

definition slot_edges :: "rule_config \<Rightarrow> (string \<times> string) set" where
  "slot_edges rule = {(a, b). b \<in> set (slot_members rule a)}"

text \<open>What the walk has found free of a loop: every slot after its members.\<close>

fun settled :: "rule_config \<Rightarrow> string list \<Rightarrow> bool" where
  "settled rule [] = True"
| "settled rule (x # xs) \<longleftrightarrow> set (slot_members rule x) \<subseteq> set xs \<and> settled rule xs"

lemma slot_members_None: "bt_get (ru_slots rule) name = None \<Longrightarrow> slot_members rule name = []"
  by (simp add: slot_members_def)

lemma visit_slots_settles:
  "visit_slots rule stack ds names = Inr ds' \<Longrightarrow> settled rule ds \<Longrightarrow> set ds \<inter> set stack = {} \<Longrightarrow>
     settled rule ds' \<and> set ds \<union> set names \<subseteq> set ds' \<and> set ds' \<inter> set stack = {}"
proof (induction rule stack ds names arbitrary: ds' rule: visit_slots.induct)
  case (1 rule stack ds)
  then show ?case by simp
next
  case (2 rule stack ds name rest)
  have new: "position (\<lambda>s. s = name) stack = None" using "2.prems"(1) by (simp split: option.splits)
  show ?case
  proof (cases "name \<in> set ds")
    case True
    have "visit_slots rule stack ds rest = Inr ds'" using "2.prems"(1) new True by simp
    from "2.IH"(1) [OF new True this "2.prems"(2,3)] show ?thesis using True by auto
  next
    case False
    obtain ds1 where ds1: "(if bt_get (ru_slots rule) name = None then Inr ds
        else visit_slots rule (stack @ [name]) ds (slot_members rule name)) = Inr ds1"
      and rest: "visit_slots rule stack (name # ds1) rest = Inr ds'"
      using "2.prems"(1) new False by (simp add: bind_res_Inr_iff) blast
    have mid: "settled rule ds1 \<and> set ds \<union> set (slot_members rule name) \<subseteq> set ds1 \<and> set ds1 \<inter> set stack = {}"
    proof (cases "bt_get (ru_slots rule) name = None")
      case True
      then show ?thesis using ds1 "2.prems" by (simp add: slot_members_None)
    next
      case some: False
      have "visit_slots rule (stack @ [name]) ds (slot_members rule name) = Inr ds1" using ds1 some by simp
      moreover have "set ds \<inter> set (stack @ [name]) = {}" using "2.prems"(3) False by simp
      ultimately have "settled rule ds1 \<and> set ds \<union> set (slot_members rule name) \<subseteq> set ds1 \<and> set ds1 \<inter> set (stack @ [name]) = {}"
        by (intro "2.IH"(2) [OF new False some] "2.prems"(2))
      then show ?thesis by auto
    qed
    have "settled rule (name # ds1)" "set (name # ds1) \<inter> set stack = {}"
      using mid new by (auto simp: position_None_iff)
    from "2.IH"(3) [OF new False rest this] show ?thesis using mid by auto
  qed
qed

lemma settled_closed: "settled rule ds \<Longrightarrow> x \<in> set ds \<Longrightarrow> (x, y) \<in> slot_edges rule \<Longrightarrow> y \<in> set ds"
  by (induction ds) (auto simp: slot_edges_def)

lemma settled_reach: "(x, y) \<in> (slot_edges rule)\<^sup>+ \<Longrightarrow> settled rule ds \<Longrightarrow> x \<in> set ds \<Longrightarrow> y \<in> set ds"
  by (induction rule: trancl_induct) (auto dest: settled_closed)

lemma settled_no_loop: "settled rule ds \<Longrightarrow> x \<in> set ds \<Longrightarrow> (x, x) \<notin> (slot_edges rule)\<^sup>+"
proof (induction ds)
  case (Cons d ds)
  show ?case
  proof (cases "x \<in> set ds")
    case True
    then show ?thesis using Cons by simp
  next
    case False
    show ?thesis
    proof
      assume "(x, x) \<in> (slot_edges rule)\<^sup>+"
      then obtain y where y: "(x, y) \<in> slot_edges rule" "y = x \<or> (y, x) \<in> (slot_edges rule)\<^sup>+"
        by (auto elim: converse_tranclE)
      then have "y \<in> set ds" using Cons.prems False by (auto simp: slot_edges_def)
      then have "x \<in> set ds" using y(2) settled_reach Cons.prems(1) by auto
      then show False using False by simp
    qed
  qed
qed simp

lemma successively_reach: "successively (\<lambda>a b. (a, b) \<in> E) (x # xs) \<Longrightarrow> (x, last (x # xs)) \<in> E\<^sup>*"
proof (induction xs arbitrary: x)
  case (Cons y ys)
  then have "(x, y) \<in> E" "(y, last (y # ys)) \<in> E\<^sup>*" by simp_all
  then show ?case by (simp add: converse_rtrancl_into_rtrancl)
qed simp

lemma visit_slots_loop:
  "visit_slots rule stack ds names = Inl e \<Longrightarrow> successively (\<lambda>a b. (a, b) \<in> slot_edges rule) stack \<Longrightarrow>
     stack \<noteq> [] \<longrightarrow> (\<forall>n\<in>set names. (last stack, n) \<in> slot_edges rule) \<Longrightarrow> \<exists>x. (x, x) \<in> (slot_edges rule)\<^sup>+"
proof (induction rule stack ds names rule: visit_slots.induct)
  case (1 rule stack ds)
  then show ?case by simp
next
  case (2 rule stack ds name rest)
  show ?case
  proof (cases "position (\<lambda>s. s = name) stack")
    case (Some i)
    then have i: "i < length stack" "stack ! i = name" using position_SomeD by fast+
    then have d: "drop i stack = name # drop (Suc i) stack" by (simp add: Cons_nth_drop_Suc [symmetric])
    have "successively (\<lambda>a b. (a, b) \<in> slot_edges rule) (drop i stack)"
      using "2.prems"(2) successively_append_iff [of _ "take i stack" "drop i stack"] by simp
    then have "(name, last stack) \<in> (slot_edges rule)\<^sup>*"
      using successively_reach [of "slot_edges rule" name "drop (Suc i) stack"] i d by (metis last_drop)
    moreover have "(last stack, name) \<in> slot_edges rule" using "2.prems"(3) i by auto
    ultimately show ?thesis by (meson rtrancl_into_trancl1)
  next
    case None
    show ?thesis
    proof (cases "name \<in> set ds")
      case True
      have "visit_slots rule stack ds rest = Inl e" using "2.prems"(1) None True by simp
      from "2.IH"(1) [OF None True this "2.prems"(2)] show ?thesis using "2.prems"(3) by simp
    next
      case False
      let ?mid = "if bt_get (ru_slots rule) name = None then Inr ds else visit_slots rule (stack @ [name]) ds (slot_members rule name)"
      show ?thesis
      proof (cases ?mid)
        case (Inl e')
        then have some: "bt_get (ru_slots rule) name \<noteq> None"
          and v: "visit_slots rule (stack @ [name]) ds (slot_members rule name) = Inl e'" by (auto split: if_splits)
        have e: "e' = e" using "2.prems"(1) None False Inl by simp
        have "successively (\<lambda>a b. (a, b) \<in> slot_edges rule) (stack @ [name])"
          using "2.prems"(2,3) by (auto simp: successively_append_iff)
        then show ?thesis
          using "2.IH"(2) [OF None False some v [unfolded e]] by (simp add: slot_edges_def)
      next
        case (Inr ds1)
        then have "visit_slots rule stack (name # ds1) rest = Inl e" using "2.prems"(1) None False by simp
        from "2.IH"(3) [OF None False this "2.prems"(2)] show ?thesis using "2.prems"(3) by simp
      qed
    qed
  qed
qed

lemma validated_acyclic: "validate_rotation_cycles rule = Inr () \<longleftrightarrow> acyclic (slot_edges rule)"
proof (cases "visit_slots rule [] [] (map fst (ru_slots rule))")
  case (Inl e)
  then have "\<exists>x. (x, x) \<in> (slot_edges rule)\<^sup>+" by (intro visit_slots_loop [OF Inl]) simp_all
  then show ?thesis using Inl by (auto simp: validate_rotation_cycles_def acyclic_def)
next
  case (Inr ds)
  from visit_slots_settles [OF Inr] have ds: "settled rule ds" "fst ` set (ru_slots rule) \<subseteq> set ds" by simp_all
  have "(x, x) \<notin> (slot_edges rule)\<^sup>+" for x
  proof (cases "x \<in> set ds")
    case False
    then have "bt_get (ru_slots rule) x = None" using ds(2) by (auto simp: map_of_eq_None_iff)
    then have "(x, y) \<notin> slot_edges rule" for y by (simp add: slot_edges_def slot_members_None)
    then show ?thesis by (auto elim: converse_tranclE)
  qed (use ds(1) settled_no_loop in blast)
  then show ?thesis using Inr by (simp add: validate_rotation_cycles_def acyclic_def)
qed

text \<open>
  Claim C15. The loader's walk over the slots accepts a rule exactly when no rotation contains
  itself, directly or through a chain of members.
\<close>

theorem rotation_check_is_exact:
  "validate_rotation_cycles rule = Inr () \<longleftrightarrow> (\<nexists>slot. (slot, slot) \<in> (slot_edges rule)\<^sup>+)"
  by (simp add: validated_acyclic acyclic_def)

section \<open>A chain of rotations ends\<close>

lemma slot_edges_finite: "finite (slot_edges rule)"
proof (rule finite_subset)
  show "slot_edges rule \<subseteq> (\<Union>a\<in>fst ` set (ru_slots rule). {a} \<times> set (slot_members rule a))"
  proof clarify
    fix a c
    assume ac: "(a, c) \<in> slot_edges rule"
    then have "a \<in> fst ` set (ru_slots rule)"
      by (cases "bt_get (ru_slots rule) a")
        (auto simp: slot_edges_def slot_members_def dest!: map_of_SomeD intro: rev_image_eqI)
    with ac show "(a, c) \<in> (\<Union>a\<in>fst ` set (ru_slots rule). {a} \<times> set (slot_members rule a))"
      by (auto simp: slot_edges_def)
  qed
qed simp

lemma rotation_block_members: "rotation_block rule name = Some b \<Longrightarrow> slot_members rule name = bi_slots b \<and> bi_slots b \<noteq> []"
  by (auto simp: rotation_block_def slot_members_def is_rotation_def split: option.splits if_splits)

lemma least_recent_ok: "ms \<noteq> [] \<Longrightarrow> \<exists>m. least_recent recent ms = Inr m \<and> m \<in> set ms \<and> (\<forall>m'\<in>set ms. recency recent m \<le> recency recent m')"
  unfolding least_recent_def
  by (cases "min_by_key (recency recent) ms") (auto dest: min_by_key_SomeD)

lemma set_cycle_order [simp]: "set (cycle_order b base c) = set (bi_slots b)"
  by (simp add: cycle_order_def)

definition open_members :: "block_include \<Rightarrow> rotation_resume \<Rightarrow> string set" where
  "open_members b state = set (bi_slots b) - set (rr_drawn (open_cycle b state))"

lemma open_members_some: "bi_slots b \<noteq> [] \<Longrightarrow> open_members b state \<noteq> {}"
  by (cases "bi_slots b") (auto simp: open_members_def open_cycle_def list_all_iff)

lemma open_cycle_recent [simp]: "rr_recent (open_cycle b state) = rr_recent state"
  by (simp add: open_cycle_def)

lemma draw_round_robin_spec:
  assumes "bi_slots b \<noteq> []"
  shows "\<exists>pick detail skipped relaxed.
    draw_round_robin b state base eligible =
      Inr (pick, detail, skipped, relaxed, (open_cycle b state)\<lparr>rr_drawn := rr_drawn (open_cycle b state) @ [pick]\<rparr>) \<and>
    pick \<in> open_members b state \<and> (\<not> relaxed \<longrightarrow> eligible pick) \<and>
    (relaxed \<longrightarrow> (\<forall>m\<in>open_members b state. \<not> eligible m \<and> recency (rr_recent state) pick \<le> recency (rr_recent state) m))"
proof -
  let ?st = "open_cycle b state"
  let ?rem = "filter (\<lambda>m. m \<notin> set (rr_drawn ?st)) (cycle_order b base (rr_cycle ?st))"
  have rem: "set ?rem = open_members b state" by (auto simp: open_members_def)
  show ?thesis
  proof (cases "position eligible ?rem")
    case (Some i)
    then have "i < length ?rem" "eligible (?rem ! i)" using position_SomeD by fast+
    moreover from this(1) have "?rem ! i \<in> open_members b state" using rem nth_mem by blast
    ultimately show ?thesis using Some by (simp add: draw_round_robin_def Let_def exI [of _ False])
  next
    case None
    have "?rem \<noteq> []" using rem open_members_some [OF assms] by (metis list.set(1))
    from least_recent_ok [OF this, of "rr_recent state"] obtain m where
      m: "least_recent (rr_recent ?st) ?rem = Inr m" "m \<in> set ?rem" "\<forall>m'\<in>set ?rem. recency (rr_recent state) m \<le> recency (rr_recent state) m'"
      by auto
    have "\<forall>m\<in>set ?rem. \<not> eligible m" using None by (simp add: position_None_iff)
    then show ?thesis using None m unfolding rem by (simp add: draw_round_robin_def Let_def exI [of _ True])
  qed
qed

lemma spin_member: "pick \<in> S \<Longrightarrow> set ms \<subseteq> S \<Longrightarrow> spin weight pick target ms \<in> S"
  by (induction weight pick target ms rule: spin.induct) (auto simp: Let_def)

lemma draw_random_spec:
  assumes "bi_slots b \<noteq> []"
  shows "\<exists>pick detail skipped relaxed.
    draw_random b state base start eligible = Inr (pick, detail, skipped, relaxed, state) \<and>
    pick \<in> set (bi_slots b) \<and> (\<not> relaxed \<longrightarrow> eligible pick) \<and>
    (relaxed \<longrightarrow> (\<forall>m\<in>set (bi_slots b). \<not> eligible m \<and> recency (rr_recent state) pick \<le> recency (rr_recent state) m))"
proof (cases "filter eligible (bi_slots b) = []")
  case True
  then have "\<forall>m\<in>set (bi_slots b). \<not> eligible m" by (simp add: filter_empty_conv)
  then show ?thesis using True least_recent_ok [OF assms, of "rr_recent state"] by (auto simp: draw_random_def Let_def)
next
  case False
  let ?c = "filter eligible (bi_slots b)"
  have "last ?c \<in> set ?c" using False by (rule last_in_set)
  then have "spin w (last ?c) t ?c \<in> set ?c" for w t by (rule spin_member) simp
  then have "spin w (last ?c) t ?c \<in> set (bi_slots b)" "eligible (spin w (last ?c) t ?c)" for w t by simp_all
  then show ?thesis using False by (simp add: draw_random_def Let_def exI [of _ False])
qed

text \<open>The members a draw chooses among, and the state it leaves the cursor in.\<close>

definition draw_pool :: "block_include \<Rightarrow> rotation_resume \<Rightarrow> string set" where
  "draw_pool b state = (case select_of b of RoundRobin \<Rightarrow> open_members b state | SelectRandom \<Rightarrow> set (bi_slots b))"

definition cursor_after :: "block_include \<Rightarrow> rotation_resume \<Rightarrow> string \<Rightarrow> rotation_resume" where
  "cursor_after b state pick =
     (case select_of b of
        RoundRobin \<Rightarrow> (open_cycle b state)\<lparr>rr_drawn := rr_drawn (open_cycle b state) @ [pick]\<rparr>
      | SelectRandom \<Rightarrow> state)"

lemma cursor_after_recent [simp]: "rr_recent (cursor_after b state pick) = rr_recent state"
  by (simp add: cursor_after_def split: select.splits)

lemma draw_pool_slots: "draw_pool b state \<subseteq> set (bi_slots b)"
  by (auto simp: draw_pool_def open_members_def split: select.splits)

lemma draw_slot_new:
  assumes "bi_slots b \<noteq> []" and "already_drawn b state now = None"
  shows "\<exists>r. draw_slot name b state seed start now =
      Inr (r, (cursor_after b state (dr_member r))\<lparr>rr_recent :=
        recent_after (rotation_gap b) now (rr_recent state @ [\<lparr>rd_member = dr_member r, rd_at = now\<rparr>])\<rparr>) \<and>
    dr_rotation r = name \<and> \<not> dr_reused r \<and> dr_member r \<in> draw_pool b state \<and> dr_select r = select_name (select_of b) \<and>
    (\<not> dr_relaxed r \<longrightarrow> is_eligible (rr_recent state) (dr_member r) (rotation_gap b) now) \<and>
    (dr_relaxed r \<longrightarrow> (\<forall>m\<in>draw_pool b state. \<not> is_eligible (rr_recent state) m (rotation_gap b) now \<and>
       recency (rr_recent state) (dr_member r) \<le> recency (rr_recent state) m))"
proof (cases "select_of b")
  case RoundRobin
  from draw_round_robin_spec [OF assms(1), of state "mix_seed seed (rotation_fnv1a name)" "\<lambda>m. is_eligible (rr_recent state) m (rotation_gap b) now"]
  show ?thesis
    using assms(2) RoundRobin by (elim exE) (simp add: draw_slot_def Let_def draw_pool_def cursor_after_def)
next
  case SelectRandom
  from draw_random_spec [OF assms(1), of state "mix_seed seed (rotation_fnv1a name)" start "\<lambda>m. is_eligible (rr_recent state) m (rotation_gap b) now"]
  show ?thesis
    using assms(2) SelectRandom by (elim exE) (simp add: draw_slot_def Let_def draw_pool_def cursor_after_def)
qed

lemma already_drawn_member: "already_drawn b state now = Some m \<Longrightarrow> m \<in> set (bi_slots b)"
  by (auto simp: already_drawn_def dest!: find_SomeD)

lemma draw_slot_total:
  assumes "bi_slots b \<noteq> []"
  shows "\<exists>r state'. draw_slot name b state seed start now = Inr (r, state') \<and> dr_rotation r = name \<and> dr_member r \<in> set (bi_slots b)"
proof (cases "already_drawn b state now")
  case None
  from draw_slot_new [OF assms None, of name seed start] show ?thesis using draw_pool_slots [of b state] by blast
next
  case (Some m)
  then show ?thesis using already_drawn_member [OF Some] by (simp add: draw_slot_def)
qed

text \<open>What a finished chain looks like from the slot it began at.\<close>

fun chain_links :: "rule_config \<Rightarrow> string \<Rightarrow> draw_reason list \<Rightarrow> bool" where
  "chain_links rule current [] \<longleftrightarrow> rotation_block rule current = None"
| "chain_links rule current (r # rs) \<longleftrightarrow>
     dr_rotation r = current \<and> (\<exists>b. rotation_block rule current = Some b \<and> dr_member r \<in> set (bi_slots b)) \<and>
     chain_links rule (dr_member r) rs"

lemma member_edge: "rotation_block rule current = Some b \<Longrightarrow> m \<in> set (bi_slots b) \<Longrightarrow> (current, m) \<in> slot_edges rule"
  using rotation_block_members by (fastforce simp: slot_edges_def)

lemma wf_slot_edges: "acyclic (slot_edges rule) \<Longrightarrow> wf ((slot_edges rule)\<inverse>)"
  by (simp add: finite_acyclic_wf_converse slot_edges_finite)

lemma resolve_chain_returns:
  assumes "acyclic (slot_edges rule)"
  shows "\<exists>rs rots'. resolve_chain rule current seed start now chain rots = Some (Inr (chain @ rs, rots')) \<and> chain_links rule current rs"
proof (induction current arbitrary: chain rots rule: wf_induct_rule [OF wf_slot_edges [OF assms]])
  case (1 current)
  show ?case
  proof (cases "rotation_block rule current")
    case None
    then show ?thesis by (subst resolve_chain.simps) simp
  next
    case (Some b)
    then have "bi_slots b \<noteq> []" using rotation_block_members by blast
    from draw_slot_total [OF this, of current "rotation_state rots current" seed start now] obtain r st where
      d: "draw_slot current b (rotation_state rots current) seed start now = Inr (r, st)"
        "dr_rotation r = current" "dr_member r \<in> set (bi_slots b)" by blast
    have "(dr_member r, current) \<in> (slot_edges rule)\<inverse>" using member_edge [OF Some d(3)] by simp
    from "1.IH" [OF this, of "chain @ [r]" "bt_insert current st rots"] obtain rs rots' where
      "resolve_chain rule (dr_member r) seed start now (chain @ [r]) (bt_insert current st rots) = Some (Inr (chain @ r # rs, rots'))"
      "chain_links rule (dr_member r) rs" by auto
    then show ?thesis
      using Some d by (subst resolve_chain.simps) (auto intro!: exI [of _ "r # rs"])
  qed
qed

text \<open>
  On a rule that validates, a placement of any slot resolves: the chain of rotations
  ends, no draw fails, every draw names a member of its rotation, and the last one names a slot
  that is no rotation.
\<close>

theorem rotation_resolves:
  assumes "validate_rotation_cycles rule = Inr ()"
  shows "\<exists>chain rots'. resolve_slot rule slot start seed_at rots = Some (Inr (chain, rots')) \<and> chain_links rule slot chain"
  using resolve_chain_returns [of rule slot _ start _ "[]" rots] assms
  by (simp add: resolve_slot_def Let_def validated_acyclic)

section \<open>A placement drawn again\<close>

definition reuse :: "draw_reason \<Rightarrow> draw_reason" where
  "reuse r = r\<lparr>dr_reused := True, dr_detail := [], dr_skipped := [], dr_relaxed := False\<rparr>"

lemma drop_stale_snoc: "\<exists>ys. drop_stale keep horizon (xs @ [x]) = ys @ [x] \<and> set ys \<subseteq> set xs"
proof (induction xs)
  case Nil
  show ?case by (simp add: recent_cap_def)
next
  case (Cons y ys)
  from Cons obtain zs where z: "drop_stale keep horizon (ys @ [x]) = zs @ [x]" "set zs \<subseteq> set ys" by blast
  show ?case
  proof (cases "drop_stale keep horizon ((y # ys) @ [x]) = (y # ys) @ [x]")
    case True
    then show ?thesis by (intro exI [of _ "y # ys"]) simp
  next
    case False
    then have "drop_stale keep horizon ((y # ys) @ [x]) = zs @ [x]" using z(1) by (auto split: if_splits)
    then show ?thesis using z(2) by auto
  qed
qed

lemma find_snoc_None: "find P xs = None \<Longrightarrow> set ys \<subseteq> set xs \<Longrightarrow> find P (ys @ [x]) = (if P x then Some x else None)"
proof -
  assume a: "find P xs = None" "set ys \<subseteq> set xs"
  have g: "find P (zs @ [x]) = (if P x then Some x else None)" if "\<forall>z\<in>set zs. \<not> P z" for zs
    using that by (induction zs) auto
  show "find P (ys @ [x]) = (if P x then Some x else None)"
    using a by (intro g) (auto simp: find_None_iff)
qed

lemma draw_slot_again:
  assumes b: "bi_slots b \<noteq> []" and d: "draw_slot name b state seed start now = Inr (r, state')"
  shows "draw_slot name b state' seed' start' now = Inr (reuse r, state')"
proof (cases "already_drawn b state now")
  case (Some m)
  then show ?thesis using d by (auto simp: draw_slot_def reuse_def)
next
  case None
  let ?x = "\<lparr>rd_member = dr_member r, rd_at = now\<rparr>"
  from draw_slot_new [OF b None, of name seed start] d
  have st: "state' = (cursor_after b state (dr_member r))\<lparr>rr_recent := recent_after (rotation_gap b) now (rr_recent state @ [?x])\<rparr>"
    and r: "dr_rotation r = name" "dr_member r \<in> draw_pool b state" "dr_select r = select_name (select_of b)" by auto
  obtain ys where ys: "rr_recent state' = ys @ [?x]" "set ys \<subseteq> set (rr_recent state)"
    using drop_stale_snoc st unfolding recent_after_def Let_def by (metis rotation_resume.select_convs(3) rotation_resume.update_convs(3) rotation_resume.surjective)
  have "find (\<lambda>d. rd_at d = now \<and> rd_member d \<in> set (bi_slots b)) (rr_recent state) = None"
    using None by (simp add: already_drawn_def)
  from find_snoc_None [OF this ys(2), of ?x] have "already_drawn b state' now = Some (dr_member r)"
    using r(2) draw_pool_slots [of b state] by (auto simp: already_drawn_def ys(1))
  then show ?thesis using r by (simp add: draw_slot_def reuse_def)
qed

lemma bt_insert_same: "bt_ok m \<Longrightarrow> bt_get m k = Some v \<Longrightarrow> bt_insert k v m = m"
proof (induction k v m rule: bt_insert.induct)
  case (2 k v a b m)
  have "k \<noteq> a \<Longrightarrow> a < k" using "2.prems" by (auto simp: bt_ok_def dest!: map_of_SomeD)
  then show ?case using "2" by (auto simp: bt_ok_def)
qed simp

lemma resolve_chain_frame:
  assumes ac: "acyclic (slot_edges rule)"
    and res: "resolve_chain rule current seed start now chain rots = Some (Inr (chain', rots'))"
    and x: "(current, x) \<notin> (slot_edges rule)\<^sup>*"
  shows "bt_get rots' x = bt_get rots x"
  using res x
proof (induction current arbitrary: chain rots rule: wf_induct_rule [OF wf_slot_edges [OF ac]])
  case (1 current)
  show ?case
  proof (cases "rotation_block rule current")
    case None
    then show ?thesis using "1.prems"(1) by (subst (asm) resolve_chain.simps) simp
  next
    case (Some b)
    from "1.prems"(1) obtain r st where d: "draw_slot current b (rotation_state rots current) seed start now = Inr (r, st)"
        "dr_member r \<in> set (bi_slots b)"
      and rest: "resolve_chain rule (dr_member r) seed start now (chain @ [r]) (bt_insert current st rots) = Some (Inr (chain', rots'))"
      by (subst (asm) resolve_chain.simps) (auto simp: Some split: sum.splits if_splits)
    have e: "(current, dr_member r) \<in> slot_edges rule" using member_edge [OF Some d(2)] .
    have "(dr_member r, x) \<notin> (slot_edges rule)\<^sup>*" using "1.prems"(2) e by (meson converse_rtrancl_into_rtrancl)
    from "1.IH" [OF _ rest this] e have "bt_get rots' x = bt_get (bt_insert current st rots) x" by simp
    moreover have "x \<noteq> current" using "1.prems"(2) by auto
    ultimately show ?thesis by simp
  qed
qed

lemma resolve_chain_ok: 
  assumes ac: "acyclic (slot_edges rule)"
    and res: "resolve_chain rule current seed start now chain rots = Some (Inr (chain', rots'))" and "bt_ok rots"
  shows "bt_ok rots'"
  using res assms(3)
proof (induction current arbitrary: chain rots rule: wf_induct_rule [OF wf_slot_edges [OF ac]])
  case (1 current)
  show ?case
  proof (cases "rotation_block rule current")
    case None
    then show ?thesis using "1.prems" by (subst (asm) resolve_chain.simps) simp
  next
    case (Some b)
    from "1.prems"(1) obtain r st where d: "dr_member r \<in> set (bi_slots b)"
      and rest: "resolve_chain rule (dr_member r) seed start now (chain @ [r]) (bt_insert current st rots) = Some (Inr (chain', rots'))"
      by (subst (asm) resolve_chain.simps) (auto simp: Some split: sum.splits if_splits)
    from "1.IH" [OF _ rest] member_edge [OF Some d] "1.prems"(2) show ?thesis by simp
  qed
qed

lemma resolve_chain_again:
  assumes ac: "acyclic (slot_edges rule)" and ok: "bt_ok rots"
    and res: "resolve_chain rule current seed start now chain rots = Some (Inr (chain', rots'))"
  shows "\<exists>rs. chain' = chain @ rs \<and>
    (\<forall>pre seed' start'. resolve_chain rule current seed' start' now pre rots' = Some (Inr (pre @ map reuse rs, rots')))"
  using res ok
proof (induction current arbitrary: chain rots rule: wf_induct_rule [OF wf_slot_edges [OF ac]])
  case (1 current)
  show ?case
  proof (cases "rotation_block rule current")
    case None
    moreover have "chain' = chain" using "1.prems"(1) None by (subst (asm) resolve_chain.simps) simp
    moreover have "resolve_chain rule current seed' start' now pre rots' = Some (Inr (pre, rots'))" for pre seed' start'
      by (subst resolve_chain.simps) (simp add: None)
    ultimately show ?thesis by simp
  next
    case (Some b)
    from "1.prems"(1) obtain r st where d: "draw_slot current b (rotation_state rots current) seed start now = Inr (r, st)"
        "dr_member r \<in> set (bi_slots b)"
      and rest: "resolve_chain rule (dr_member r) seed start now (chain @ [r]) (bt_insert current st rots) = Some (Inr (chain', rots'))"
      by (subst (asm) resolve_chain.simps) (auto simp: Some split: sum.splits if_splits)
    have e: "(current, dr_member r) \<in> slot_edges rule" using member_edge [OF Some d(2)] .
    then have far: "(dr_member r, current) \<notin> (slot_edges rule)\<^sup>*"
      using ac by (meson acyclic_def rtrancl_into_trancl2)
    have "bt_get rots' current = Some st" using resolve_chain_frame [OF ac rest far] by simp
    then have state: "rotation_state rots' current = st" and same: "bt_insert current st rots' = rots'"
      using bt_insert_same [OF resolve_chain_ok [OF ac rest]] "1.prems"(2) by (simp_all add: rotation_state_def)
    have b: "bi_slots b \<noteq> []" using rotation_block_members [OF Some] by simp
    from "1.IH" [OF _ rest] e "1.prems"(2) obtain rs where rs: "chain' = (chain @ [r]) @ rs"
        "\<And>pre seed' start'. resolve_chain rule (dr_member r) seed' start' now pre rots' = Some (Inr (pre @ map reuse rs, rots'))"
      by auto
    have "resolve_chain rule current seed' start' now pre rots' = Some (Inr (pre @ map reuse (r # rs), rots'))" for pre seed' start'
      using draw_slot_again [OF b d(1), of seed' start'] d(2) rs(2) [of seed' start' "pre @ [reuse r]"]
      by (subst resolve_chain.simps) (simp add: Some state same reuse_def)
    then show ?thesis using rs(1) by (intro exI [of _ "r # rs"]) simp
  qed
qed

text \<open>
  Claim C14. A placement draws once. Resolving the same placement again, from the state the
  first resolution left and under whatever seed the station has by then, airs the same members
  all along the chain, marks every one as drawn before, and changes nothing: a rerun, a restart
  and the preview agree.
\<close>

theorem placement_draws_once:
  assumes "validate_rotation_cycles rule = Inr ()" and "bt_ok rots"
    and "resolve_slot rule slot start seed_at rots = Some (Inr (chain, rots'))"
  shows "resolve_slot rule slot start seed_at' rots' = Some (Inr (map reuse chain, rots'))"
  using resolve_chain_again [OF assms(1) [unfolded validated_acyclic] assms(2) assms(3) [unfolded resolve_slot_def Let_def]]
  by (auto simp: resolve_slot_def Let_def)

section \<open>What a draw respects\<close>

text \<open>
  Claim C16. A new draw of a rotation airs one of its members (under \<open>round_robin\<close> one the
  cycle has not aired), and that member may air under \<open>no_repeat_within\<close>; only when no member
  may does the draw say it relaxed the rule, and then it airs the one drawn longest ago.
\<close>

theorem draw_respects_no_repeat:
  assumes "is_rotation b" and "already_drawn b state now = None"
  shows "\<exists>r state'. draw_slot name b state seed start now = Inr (r, state') \<and> dr_member r \<in> draw_pool b state \<and>
    (if dr_relaxed r
     then \<forall>m\<in>draw_pool b state. \<not> is_eligible (rr_recent state) m (rotation_gap b) now \<and>
       recency (rr_recent state) (dr_member r) \<le> recency (rr_recent state) m
     else is_eligible (rr_recent state) (dr_member r) (rotation_gap b) now)"
  using draw_slot_new [of b state now name seed start] assms unfolding is_rotation_def by fastforce

section \<open>A pass visits every member\<close>

text \<open>Placements of one rotation, each with the seed, the start and the instant it is drawn at.\<close>

fun placements ::
  "string \<Rightarrow> block_include \<Rightarrow> rotation_resume \<Rightarrow> (u64 \<times> int \<times> instant) list \<Rightarrow> (string list \<times> rotation_resume) result" where
  "placements name b state [] = Inr ([], state)"
| "placements name b state ((seed, start, now) # ps) =
     bind_res (draw_slot name b state seed start now) (\<lambda>(r, state).
     bind_res (placements name b state ps) (\<lambda>(ms, state). Inr (dr_member r # ms, state)))"

lemma drop_stale_suffix: "\<exists>pre. xs = pre @ drop_stale keep horizon xs"
  by (induction xs) (auto intro: exI [of _ "[]"] exI [of _ "_ # _"])

lemma set_recent_after: "set (recent_after gap now recent) \<subseteq> set recent"
proof -
  have "set (drop_stale keep horizon xs) \<subseteq> set xs" for keep horizon xs
    using drop_stale_suffix [of xs keep horizon] by (metis Un_upper2 set_append)
  then show ?thesis by (simp add: recent_after_def Let_def)
qed

lemma placements_pass:
  assumes b: "select_of b = RoundRobin" "bi_slots b \<noteq> []" "distinct (bi_slots b)"
    and drawn: "distinct (rr_drawn state)" "set (rr_drawn state) \<subseteq> set (bi_slots b)"
    and room: "length ps + length (rr_drawn state) \<le> length (bi_slots b)"
    and fresh: "distinct (map (\<lambda>(_, _, now). now) ps)" "(\<lambda>(_, _, now). now) ` set ps \<inter> rd_at ` set (rr_recent state) = {}"
  shows "\<exists>ms state'. placements name b state ps = Inr (ms, state') \<and> length ms = length ps \<and>
    distinct (rr_drawn state @ ms) \<and> set ms \<subseteq> set (bi_slots b)"
  using drawn room fresh
proof (induction ps arbitrary: state)
  case Nil
  then show ?case by simp
next
  case (Cons p ps)
  obtain seed start now where p: "p = (seed, start, now)" by (cases p)
  have none: "already_drawn b state now = None"
    using Cons.prems(5) by (auto simp: already_drawn_def find_None_iff p)
  have "\<not> set (bi_slots b) \<subseteq> set (rr_drawn state)"
    using Cons.prems(1,3) b(3) distinct_subset_length [of "bi_slots b" "rr_drawn state"] by auto
  then have same: "open_cycle b state = state" by (auto simp: open_cycle_def list_all_iff)
  from draw_slot_new [OF b(2) none, of name seed start] obtain r state1 where
    r: "draw_slot name b state seed start now = Inr (r, state1)" "dr_member r \<in> set (bi_slots b) - set (rr_drawn state)"
    and s1: "rr_drawn state1 = rr_drawn state @ [dr_member r]"
      "rr_recent state1 = recent_after (rotation_gap b) now (rr_recent state @ [\<lparr>rd_member = dr_member r, rd_at = now\<rparr>])"
    using b(1) same by (auto simp: draw_pool_def open_members_def cursor_after_def)
  have "rd_at ` set (rr_recent state1) \<subseteq> insert now (rd_at ` set (rr_recent state))"
    unfolding s1(2) using set_recent_after by fastforce
  moreover have "now \<notin> (\<lambda>(_, _, now). now) ` set ps" "(\<lambda>(_, _, now). now) ` set ps \<inter> rd_at ` set (rr_recent state) = {}"
    using Cons.prems(4,5) by (simp_all add: p)
  ultimately have "(\<lambda>(_, _, now). now) ` set ps \<inter> rd_at ` set (rr_recent state1) = {}" by blast
  with Cons.IH [of state1] Cons.prems r(2) obtain ms state' where
    "placements name b state1 ps = Inr (ms, state')" "length ms = length ps" "distinct (rr_drawn state1 @ ms)" "set ms \<subseteq> set (bi_slots b)"
    by (auto simp: s1(1))
  then show ?case using r by (auto simp: p s1(1))
qed

text \<open>
  Under \<open>round_robin\<close>, as many placements as the rotation has members, begun where a
  cycle begins, air every member exactly once, whatever \<open>no_repeat_within\<close>, the order and the
  seeds of the placements are.
\<close>

theorem round_robin_visits_all:
  assumes "select_of b = RoundRobin" and "bi_slots b \<noteq> []" and "distinct (bi_slots b)"
    and "rr_drawn state = []" and "length ps = length (bi_slots b)"
    and "distinct (map (\<lambda>(_, _, now). now) ps)" and "(\<lambda>(_, _, now). now) ` set ps \<inter> rd_at ` set (rr_recent state) = {}"
  shows "\<exists>ms state'. placements name b state ps = Inr (ms, state') \<and> mset ms = mset (bi_slots b)"
proof -
  from placements_pass [OF assms(1-3), of state ps name] assms(4-) obtain ms state' where
    ms: "placements name b state ps = Inr (ms, state')" "length ms = length (bi_slots b)" "distinct ms" "set ms \<subseteq> set (bi_slots b)"
    by auto
  have "set ms = set (bi_slots b)"
    using ms assms(3) by (intro card_subset_eq) (simp_all add: distinct_card)
  then have "mset ms = mset (bi_slots b)" using ms(3) assms(3) set_eq_iff_mset_eq_distinct by blast
  then show ?thesis using ms(1) by blast
qed

section \<open>What the draw record keeps\<close>

lemma drop_stale_keeps: "min (length xs) (max recent_cap n) \<le> length (drop_stale (max recent_cap n) None xs)"
  by (induction xs) auto

lemma drop_stale_full: "length xs \<le> recent_cap \<Longrightarrow> drop_stale keep horizon xs = xs"
  by (cases xs) simp_all

lemma drop_stale_past:
  "length xs \<le> keep \<Longrightarrow> \<exists>pre. xs = pre @ drop_stale keep (Some h) xs \<and> (\<forall>r\<in>set pre. rd_at r < h)"
proof (induction xs)
  case (Cons r xs)
  then obtain pre where pre: "xs = pre @ drop_stale keep (Some h) xs" "\<forall>r\<in>set pre. rd_at r < h" by auto
  show ?case
  proof (cases "recent_cap < length (r # xs) \<and> rd_at r < h")
    case True
    then show ?thesis using pre Cons.prems by (intro exI [of _ "r # pre"]) auto
  next
    case False
    then show ?thesis using Cons.prems by (intro exI [of _ "[]"]) auto
  qed
qed simp

text \<open>Trimming the record of draws never changes which members a later draw may air.\<close>

lemma recent_after_eligible:
  assumes "now \<le> later" and "length recent \<le> usize_max"
  shows "is_eligible (recent_after gap now recent) m gap later = is_eligible recent m gap later"
proof (cases gap)
  case (Positions n)
  let ?k = "max recent_cap n"
  obtain pre where pre: "recent = pre @ drop_stale ?k None recent" using drop_stale_suffix by blast
  have "take n (rev (drop_stale ?k None recent)) = take n (rev recent)"
  proof (cases "length recent \<le> ?k")
    case True
    have "drop_stale ?k None recent = recent" using True by (cases recent) auto
    then show ?thesis by simp
  next
    case False
    then have "n \<le> length (drop_stale ?k None recent)" using drop_stale_keeps [of recent n] by (simp add: min_def)
    moreover have "rev recent = rev (drop_stale ?k None recent) @ rev pre" using pre by (metis rev_append)
    ultimately show ?thesis by simp
  qed
  then show ?thesis using Positions by (simp add: recent_after_def)
next
  case (WithinDuration d)
  from drop_stale_past [OF assms(2), of "now - int d"] obtain pre where
    pre: "recent = pre @ drop_stale usize_max (Some (now - int d)) recent" "\<forall>r\<in>set pre. rd_at r < now - int d" by blast
  have "list_ex (\<lambda>r. rd_member r = m \<and> rd_at r \<le> later \<and> nat (later - rd_at r) < d) pre = False"
    using pre(2) assms(1) by (fastforce simp: list_ex_iff)
  then show ?thesis
    using WithinDuration arg_cong [OF pre(1), of "list_ex (\<lambda>r. rd_member r = m \<and> rd_at r \<le> later \<and> nat (later - rd_at r) < d)"]
    by (simp add: recent_after_def)
qed

section \<open>An example\<close>

definition plain_slot :: block_include where
  "plain_slot =
     \<lparr>bi_block = None, bi_program = None, bi_guide = None, bi_tracks = None, bi_overlay = None, bi_duplicates = None,
      bi_constraints = None, bi_entries = [], bi_fallback = None, bi_pools = [], bi_pattern = [], bi_cycles = None,
      bi_sequencer = None, bi_align = None, bi_min_fill = None, bi_fill = [], bi_mode = AllItems, bi_order = None,
      bi_filter = None, bi_slots = [], bi_select = None, bi_weight = []\<rparr>"

definition prime_slot :: block_include where
  "prime_slot = plain_slot\<lparr>bi_slots := [''crime'', ''space''], bi_order := Some Random\<rparr>"

definition prime_rule :: rule_config where
  "prime_rule =
     \<lparr>ru_blocks = [plain_slot],
      ru_slots = [(''crime'', plain_slot), (''prime'', prime_slot), (''space'', plain_slot)],
      ru_schedules = [], ru_no_repeat_within = None\<rparr>"

lemmas prime_defs = prime_rule_def prime_slot_def plain_slot_def

lemma prime_valid: "validate_rotation_cycles prime_rule = Inr ()"
  by (simp add: validate_rotation_cycles_def prime_defs slot_members_def)

theorem rotation_resolves_witness:
  "\<exists>chain rots'. resolve_slot prime_rule ''prime'' 0 (\<lambda>_. 7) [] = Some (Inr (chain, rots')) \<and> chain_links prime_rule ''prime'' chain"
  by (rule rotation_resolves [OF prime_valid])

theorem placement_draws_once_witness:
  "\<exists>chain rots'. resolve_slot prime_rule ''prime'' 0 (\<lambda>_. 7) [] = Some (Inr (chain, rots')) \<and>
     resolve_slot prime_rule ''prime'' 0 (\<lambda>_. 9) rots' = Some (Inr (map reuse chain, rots'))"
proof -
  from resolve_chain_returns [OF prime_valid [unfolded validated_acyclic], of "''prime''" 7 0 "placement_instant 0" "[]" "[]"]
  obtain chain rots' where "resolve_slot prime_rule ''prime'' 0 (\<lambda>_. 7) [] = Some (Inr (chain, rots'))"
    by (auto simp: resolve_slot_def)
  with placement_draws_once [OF prime_valid _ this] show ?thesis by auto
qed

theorem draw_respects_no_repeat_witness:
  "\<exists>r state'. draw_slot ''prime'' prime_slot rotation_resume_default 7 0 0 = Inr (r, state') \<and>
     dr_member r \<in> draw_pool prime_slot rotation_resume_default"
proof -
  have "is_rotation prime_slot" "already_drawn prime_slot rotation_resume_default 0 = None"
    by (simp_all add: is_rotation_def prime_defs already_drawn_def rotation_resume_default_def)
  from draw_respects_no_repeat [OF this, of "''prime''" 7 0] show ?thesis by blast
qed

theorem round_robin_visits_all_witness:
  "\<exists>ms state'. placements ''prime'' prime_slot rotation_resume_default [(7, 0, 0), (8, 3600, 5)] = Inr (ms, state') \<and>
     mset ms = mset [''crime'', ''space'']"
proof -
  have "select_of prime_slot = RoundRobin" "bi_slots prime_slot \<noteq> []" "distinct (bi_slots prime_slot)"
      "rr_drawn rotation_resume_default = []" "length [(7 :: u64, 0 :: int, 0 :: int), (8, 3600, 5)] = length (bi_slots prime_slot)"
      "distinct (map (\<lambda>(_, _, now). now) [(7 :: u64, 0 :: int, 0 :: int), (8, 3600, 5)])"
      "(\<lambda>(_, _, now). now) ` set [(7 :: u64, 0 :: int, 0 :: int), (8, 3600, 5)] \<inter> rd_at ` set (rr_recent rotation_resume_default) = {}"
    by (simp_all add: prime_defs select_of_def rotation_resume_default_def)
  from round_robin_visits_all [OF this, of "''prime''"] show ?thesis by (simp add: prime_defs)
qed

end
