(* ===== verification/CalendarFacts.thy ===== *)
theory CalendarFacts
  imports Calendar RotationFacts
begin

text \<open>
  What the calendar of Calendar answers: the schedule of highest rank wins, the next change is
  the first minute with another block, and the sampled boundaries miss no change in a zone of
  one offset.
\<close>

section \<open>The schedule that wins\<close>

lemma find_map_filter: "\<forall>x\<in>set xs. \<not> P x \<longrightarrow> f x = None \<Longrightarrow> find_map f (filter P xs) = find_map f xs"
  by (induction xs) (auto split: option.splits)

lemma find_map_first:
  "find_map f xs = Some y \<Longrightarrow> \<exists>i<length xs. f (xs ! i) = Some y \<and> (\<forall>j<i. f (xs ! j) = None)"
proof (induction xs)
  case (Cons x xs)
  show ?case
  proof (cases "f x")
    case None
    with Cons obtain i where i: "i < length xs" "f (xs ! i) = Some y" "\<forall>j<i. f (xs ! j) = None" by auto
    then have "\<forall>j<Suc i. f ((x # xs) ! j) = None" using None by (auto simp: nth_Cons split: nat.splits)
    with i show ?thesis by (intro exI [of _ "Suc i"]) simp
  next
    case (Some z)
    with Cons.prems show ?thesis by (intro exI [of _ 0]) simp
  qed
qed simp

text \<open>The first hit in descending order of rank is, among the hits, one of highest rank and the first of those as written.\<close>

lemma find_map_ranked:
  fixes rank :: "'a \<Rightarrow> int"
  assumes "find_map f (sort_key (\<lambda>x. - rank x) xs) = Some y"
  shows "\<exists>i<length xs. f (xs ! i) = Some y \<and>
    (\<forall>j<length xs. f (xs ! j) \<noteq> None \<longrightarrow> rank (xs ! j) < rank (xs ! i) \<or> (rank (xs ! j) = rank (xs ! i) \<and> i \<le> j))"
proof -
  let ?ys = "sort_key (\<lambda>x. - rank x) xs"
  from find_map_first [OF assms] obtain k where k: "k < length ?ys" "f (?ys ! k) = Some y" "\<forall>j<k. f (?ys ! j) = None" by blast
  define r where "r = rank (?ys ! k)"
  have sorted: "sorted (map (\<lambda>x. - rank x) ?ys)" by simp
  have top: "rank x \<le> r" if x: "x \<in> set xs" "f x \<noteq> None" for x
  proof -
    have "x \<in> set ?ys" using x(1) by simp
    then obtain j where j: "j < length ?ys" "?ys ! j = x" by (metis in_set_conv_nth)
    then have "k \<le> j" using k(3) x(2) by (metis not_le)
    then show ?thesis using sorted_nth_mono [OF sorted, of k j] j by (simp add: r_def)
  qed
  let ?P = "\<lambda>x. - rank x = - r"
  let ?zs = "filter ?P xs"
  have "find_map f (filter ?P ?ys) = Some y"
  proof -
    have "?ys = take k ?ys @ ?ys ! k # drop (Suc k) ?ys" using k(1) by (rule id_take_nth_drop)
    moreover have "find_map f (filter ?P (take k ?ys @ ?ys ! k # drop (Suc k) ?ys)) = Some y"
    proof -
      have none: "\<forall>x\<in>set (take k ?ys). f x = None" using k(3) by (auto simp: in_set_conv_nth)
      have app: "find_map f (us @ vs) = find_map f vs" if "\<forall>x\<in>set us. f x = None" for us vs
        using that by (induction us) auto
      have "find_map f (filter ?P (take k ?ys) @ filter ?P (?ys ! k # drop (Suc k) ?ys)) = find_map f (filter ?P (?ys ! k # drop (Suc k) ?ys))"
        using none by (intro app) auto
      then show ?thesis using k(2) by (simp add: r_def)
    qed
    ultimately show ?thesis by metis
  qed
  moreover have "filter ?P ?ys = ?zs" by (rule sort_key_stable)
  ultimately have "find_map f ?zs = Some y" by simp
  then have some: "find_map (\<lambda>x. if rank x = r then f x else None) xs = Some y"
    by (induction xs) (auto split: if_splits option.splits)
  from find_map_first [OF some] obtain i where
    i: "i < length xs" "rank (xs ! i) = r" "f (xs ! i) = Some y" "\<forall>j<i. rank (xs ! j) = r \<longrightarrow> f (xs ! j) = None"
    by (auto split: if_splits)
  have "\<forall>j<length xs. f (xs ! j) \<noteq> None \<longrightarrow> rank (xs ! j) < rank (xs ! i) \<or> (rank (xs ! j) = rank (xs ! i) \<and> i \<le> j)"
  proof (intro allI impI)
    fix j
    assume j: "j < length xs" "f (xs ! j) \<noteq> None"
    then have "rank (xs ! j) \<le> r" by (intro top) simp_all
    moreover have "rank (xs ! j) = r \<Longrightarrow> i \<le> j" using i(4) j(2) by (metis not_le)
    ultimately show "rank (xs ! j) < rank (xs ! i) \<or> (rank (xs ! j) = rank (xs ! i) \<and> i \<le> j)" using i(2) by auto
  qed
  then show ?thesis using i by blast
qed

abbreviation places_at :: "calendar \<Rightarrow> instant \<Rightarrow> schedule \<Rightarrow> placed_slot option" where
  "places_at cal t s \<equiv> placed_by cal (local_date (cal_zone cal) t) (local_minute (cal_zone cal) t) s"

text \<open>
  Claim C25. What airs is decided by rank, then by written order: when a slot is on air, some
  schedule places it, every other schedule that places anything at that instant ranks lower or is
  written later at the same rank, and the any-time blocks air exactly when no schedule places anything.
\<close>

theorem highest_schedule_airs:
  assumes "calendar_new rule tz = Some cal"
  shows "case on_air cal t of
      OnSlot p \<Rightarrow> \<exists>i<length (ru_schedules rule). places_at cal t (ru_schedules rule ! i) = Some p \<and>
        (\<forall>j<length (ru_schedules rule). places_at cal t (ru_schedules rule ! j) \<noteq> None \<longrightarrow>
          schedule_rank (ru_schedules rule ! j) < schedule_rank (ru_schedules rule ! i) \<or>
          (schedule_rank (ru_schedules rule ! j) = schedule_rank (ru_schedules rule ! i) \<and> i \<le> j))
    | AnyTime \<Rightarrow> \<forall>s\<in>set (ru_schedules rule). places_at cal t s = None"
proof -
  have cal: "cal_order cal = sort_key (\<lambda>s. - int (schedule_rank s)) (ru_schedules rule)"
    using assms by (auto simp: calendar_new_def split: if_splits)
  show ?thesis
  proof (cases "find_map (places_at cal t) (cal_order cal)")
    case None
    then have "on_air cal t = AnyTime" by (simp add: on_air_def)
    moreover have "\<forall>s\<in>set (ru_schedules rule). places_at cal t s = None"
      using None by (simp add: find_map_None_iff cal)
    ultimately have "on_air cal t = AnyTime" "\<forall>s\<in>set (ru_schedules rule). places_at cal t s = None" by simp_all
    then show ?thesis by simp
  next
    case (Some p)
    from find_map_ranked [OF Some [unfolded cal]] show ?thesis using Some by (simp add: on_air_def)
  qed
qed

section \<open>The next change\<close>

lemma minute_ns_pos [simp]: "0 < minute_ns"
  by (simp add: minute_ns_def nanos_per_sec_def)

lemma change_from_spec:
  "case change_from cal now until t of
     Some t' \<Rightarrow> \<exists>k. t' = t + int k * minute_ns \<and> t' < until \<and> \<not> same_block (on_air cal t') now \<and>
       (\<forall>j<k. same_block (on_air cal (t + int j * minute_ns)) now)
   | None \<Rightarrow> \<forall>j. t + int j * minute_ns < until \<longrightarrow> same_block (on_air cal (t + int j * minute_ns)) now"
proof (induction cal now until t rule: change_from.induct)
  case (1 cal now until t)
  show ?case
  proof (cases "t < until \<and> same_block (on_air cal t) now")
    case True
    have step: "change_from cal now until t = change_from cal now until (t + minute_ns)"
      using True by (subst change_from.simps) simp
    have shift: "t + minute_ns + int j * minute_ns = t + int (Suc j) * minute_ns" for j by (simp add: distrib_right)
    have IH: "case change_from cal now until (t + minute_ns) of
        Some t' \<Rightarrow> \<exists>k. t' = t + int (Suc k) * minute_ns \<and> t' < until \<and> \<not> same_block (on_air cal t') now \<and>
          (\<forall>j<k. same_block (on_air cal (t + int (Suc j) * minute_ns)) now)
      | None \<Rightarrow> \<forall>j. t + int (Suc j) * minute_ns < until \<longrightarrow> same_block (on_air cal (t + int (Suc j) * minute_ns)) now"
      using "1.IH" True unfolding shift by simp
    have first: "same_block (on_air cal (t + int 0 * minute_ns)) now" using True by simp
    show ?thesis
    proof (cases "change_from cal now until (t + minute_ns)")
      case None
      have "same_block (on_air cal (t + int j * minute_ns)) now" if "t + int j * minute_ns < until" for j
        using that IH None first by (cases j) auto
      then show ?thesis using step None by simp
    next
      case (Some t')
      then obtain k where k: "t' = t + int (Suc k) * minute_ns" "t' < until" "\<not> same_block (on_air cal t') now"
          "\<forall>j<k. same_block (on_air cal (t + int (Suc j) * minute_ns)) now" using IH by auto
      have "same_block (on_air cal (t + int j * minute_ns)) now" if "j < Suc k" for j
        using that k(4) first by (cases j) auto
      then show ?thesis using step Some k by (auto intro!: exI [of _ "Suc k"])
    qed
  next
    case False
    show ?thesis
    proof (cases "t < until")
      case True
      then have "change_from cal now until t = Some t" using False by (subst change_from.simps) simp
      then show ?thesis using True False by (auto intro!: exI [of _ 0])
    next
      case False
      then have "change_from cal now until t = None" by (subst change_from.simps) simp
      moreover have "t \<le> t + int j * minute_ns" for j
        by (simp add: minute_ns_def nanos_per_sec_def)
      then have "\<not> t + int j * minute_ns < until" for j using False by (meson le_less_trans)
      ultimately show ?thesis by simp
    qed
  qed
qed

text \<open>
  Claim C26. \<open>next_change\<close> always returns: the first whole UTC minute after \<open>start\<close> and before
  \<open>until\<close> at which another block (or another placement of a rotation) is on air than at \<open>start\<close>,
  and nothing exactly when every such minute airs the same.
\<close>

theorem next_change_is_first:
  "case next_change cal start until of
     Some t \<Rightarrow> \<exists>k. t = minute_floor start + int (Suc k) * minute_ns \<and> t < until \<and>
       \<not> same_block (on_air cal t) (on_air cal start) \<and>
       (\<forall>j<k. same_block (on_air cal (minute_floor start + int (Suc j) * minute_ns)) (on_air cal start))
   | None \<Rightarrow> \<forall>j. minute_floor start + int (Suc j) * minute_ns < until \<longrightarrow>
       same_block (on_air cal (minute_floor start + int (Suc j) * minute_ns)) (on_air cal start)"
proof -
  have shift: "minute_floor start + minute_ns + int j * minute_ns = minute_floor start + int (Suc j) * minute_ns" for j
    by (simp add: distrib_right)
  show ?thesis
    using change_from_spec [where cal = cal and now = "on_air cal start" and until = until and t = "minute_floor start + minute_ns"]
    unfolding next_change_def shift .
qed

section \<open>The boundaries miss no change\<close>

lemma find_map_cong: "(\<And>x. x \<in> set xs \<Longrightarrow> f x = g x) \<Longrightarrow> find_map f xs = find_map g xs"
  by (induction xs) (auto split: option.splits)

lemma placed_by_steady:
  assumes "0 < m" and "\<forall>(r, x)\<in>set (sc_hours s). cr_start r \<noteq> m \<and> cr_end r \<noteq> m"
  shows "placed_by cal d m s = placed_by cal d (m - 1) s"
proof -
  have "start_day s d m r = start_day s d (m - 1) r" if "(r, x) \<in> set (sc_hours s)" for r x
  proof -
    have ne: "cr_start r \<noteq> m" "cr_end r \<noteq> m" using assms(2) that by auto
    then have "cr_start r \<le> m \<longleftrightarrow> cr_start r \<le> m - 1" "m < cr_end r \<longleftrightarrow> m - 1 < cr_end r" using assms(1) by auto
    then show ?thesis by (simp only: start_day_def)
  qed
  then have "hit_at s d m = hit_at s d (m - 1)"
    unfolding hit_at_def by (intro find_map_cong) auto
  then show ?thesis by (simp add: placed_by_def)
qed

lemma boundary_minutes_iff:
  "m \<in> set (boundary_minutes cal) \<longleftrightarrow>
     m < 1440 \<and> (m = 0 \<or> (\<exists>s\<in>set (cal_order cal). \<exists>(r, x)\<in>set (sc_hours s). m = cr_start r \<or> m = cr_end r))"
  unfolding boundary_minutes_def set_sort set_remdups set_filter by (simp add: case_prod_beta) blast

lemma div_predecessor: "0 < k \<Longrightarrow> (t - 1) div k = t div k \<or> ((t - 1) div k = t div k - 1 \<and> t = t div k * k)" for t k :: int
proof (cases "t mod k = 0")
  case True
  assume k: "0 < k"
  have t: "t = t div k * k" using True div_mult_mod_eq [of t k] by simp
  then have "t - 1 = k * (t div k - 1) + (k - 1)" by (simp add: algebra_simps)
  then have "(t - 1) div k = t div k - 1" by (rule int_div_pos_eq) (use k in simp_all)
  then show ?thesis using t by simp
next
  case False
  assume k: "0 < k"
  have "t - 1 = k * (t div k) + (t mod k - 1)" using div_mult_mod_eq [of t k] by (simp add: algebra_simps)
  then have "(t - 1) div k = t div k"
    by (rule int_div_pos_eq) (use False pos_mod_sign [OF k, of t] pos_mod_bound [OF k, of t] in simp_all)
  then show ?thesis by simp
qed

lemma day_of_minutes: "x div 86400 = x div 60 div 1440" "x mod 86400 div 60 = x div 60 mod 1440" for x :: int
  using zdiv_zmult2_eq [of 1440 x 60] zmod_zmult2_eq [of 1440 x 60] by simp_all

lemma minute_steady: "x mod 60 \<noteq> 0 \<Longrightarrow> (x - 1) div 60 = x div 60" for x :: int
  using div_predecessor [of 60 x] by (metis mod_mult_self2_is_0 zero_less_numeral)

lemma minute_step:
  fixes x :: int
  assumes "x mod 60 = 0" and "0 < x mod 86400 div 60"
  shows "(x - 1) div 86400 = x div 86400" and "(x - 1) mod 86400 div 60 = x mod 86400 div 60 - 1"
proof -
  let ?y = "x div 60"
  have "x - 1 = 60 * (?y - 1) + 59" using assms(1) div_mult_mod_eq [of x 60] by (simp add: algebra_simps)
  then have prev: "(x - 1) div 60 = ?y - 1" by (rule int_div_pos_eq) simp_all
  have "0 < ?y mod 1440" using assms(2) by (simp add: day_of_minutes(2))
  then have d: "(?y - 1) div 1440 = ?y div 1440"
    using div_predecessor [of 1440 ?y] by (metis less_irrefl mod_mult_self2_is_0 zero_less_numeral)
  then have "(?y - 1) mod 1440 = ?y mod 1440 - 1"
    using div_mult_mod_eq [of "?y - 1" 1440] div_mult_mod_eq [of ?y 1440] by linarith
  with d prev show "(x - 1) div 86400 = x div 86400" "(x - 1) mod 86400 div 60 = x mod 86400 div 60 - 1"
    unfolding day_of_minutes by simp_all
qed

lemma local_minute_less: "local_minute tz t < 1440"
  by (simp add: local_minute_def)

text \<open>A change between two neighbouring nanoseconds falls on a local minute some range starts or ends at.\<close>

lemma change_on_boundary:
  assumes off: "zn_offset (cal_zone cal) = (\<lambda>_. off)" and change: "on_air cal t \<noteq> on_air cal (t - 1)"
  shows "local_minute (cal_zone cal) t \<in> set (boundary_minutes cal) \<and>
    t = at_unix (local_date (cal_zone cal) t * 86400 + int (local_minute (cal_zone cal) t) * 60 - off)"
proof -
  let ?tz = "cal_zone cal"
  let ?z = "zone_secs ?tz t" and ?z' = "zone_secs ?tz (t - 1)"
  have z: "?z = unix_timestamp t + off" "?z' = unix_timestamp (t - 1) + off" by (simp_all add: local_secs_def off)
  have step: "?z' = ?z \<or> (?z' = ?z - 1 \<and> t = at_unix (unix_timestamp t))"
    using div_predecessor [of nanos_per_sec t] by (auto simp: z unix_timestamp_def at_unix_def nanos_per_sec_def)
  have dm: "local_date ?tz t = ?z div 86400" "local_minute ?tz t = nat (?z mod 86400 div 60)"
    "local_date ?tz (t - 1) = ?z' div 86400" "local_minute ?tz (t - 1) = nat (?z' mod 86400 div 60)"
    by (simp_all add: local_date_def local_minute_def)
  have same: "on_air cal t = on_air cal (t - 1)"
    if "local_date ?tz t = local_date ?tz (t - 1)" "local_minute ?tz t = local_minute ?tz (t - 1)"
    unfolding on_air_def that by (rule refl)
  have "?z' \<noteq> ?z"
  proof
    assume "?z' = ?z"
    then have "on_air cal t = on_air cal (t - 1)" by (intro same) (simp_all only: dm)
    then show False using change by simp
  qed
  with step have moved: "?z' = ?z - 1" "t = at_unix (unix_timestamp t)" by blast+
  have whole: "?z mod 60 = 0"
  proof (rule ccontr)
    assume "?z mod 60 \<noteq> 0"
    from minute_steady [OF this]
    have "local_date ?tz t = local_date ?tz (t - 1)" "local_minute ?tz t = local_minute ?tz (t - 1)"
      unfolding dm moved(1) day_of_minutes by simp_all
    from same [OF this] show False using change by simp
  qed
  let ?m = "local_minute ?tz t"
  have t: "?z = local_date ?tz t * 86400 + int ?m * 60"
  proof -
    have "?z mod 86400 mod 60 = ?z mod 60" by (rule mod_mod_cancel) simp
    then have "?z mod 86400 div 60 * 60 = ?z mod 86400" using whole div_mult_mod_eq [of "?z mod 86400" 60] by simp
    moreover have "int ?m = ?z mod 86400 div 60" by (simp add: dm(2) pos_imp_zdiv_nonneg_iff)
    ultimately show ?thesis by (simp add: dm(1))
  qed
  have "?m \<in> set (boundary_minutes cal)"
  proof (rule ccontr)
    assume no: "?m \<notin> set (boundary_minutes cal)"
    then have pos: "0 < ?m" and quiet: "\<forall>s\<in>set (cal_order cal). \<forall>(r, x)\<in>set (sc_hours s). cr_start r \<noteq> ?m \<and> cr_end r \<noteq> ?m"
      using local_minute_less [of ?tz t] by (auto simp: boundary_minutes_iff case_prod_beta) (metis fst_conv)+
    have "0 < ?z mod 86400 div 60" using pos by (simp add: dm(2))
    from minute_step [OF whole this] have prior: "local_date ?tz (t - 1) = local_date ?tz t" "local_minute ?tz (t - 1) = ?m - 1"
      unfolding dm moved(1) by (simp_all add: nat_diff_distrib)
    have "places_at cal t s = places_at cal (t - 1) s" if "s \<in> set (cal_order cal)" for s
      unfolding prior by (rule placed_by_steady [OF pos]) (use quiet that in blast)
    then have "find_map (places_at cal t) (cal_order cal) = find_map (places_at cal (t - 1)) (cal_order cal)"
      by (rule find_map_cong)
    then show False using change by (simp add: on_air_def)
  qed
  moreover have "unix_timestamp t = local_date ?tz t * 86400 + int ?m * 60 - off" using t z by simp
  ultimately show ?thesis using moved(2) by metis
qed

lemma days_from_reaches:
  assumes off: "zn_offset (cal_zone cal) = (\<lambda>_. off)"
    and t: "t \<in> set (boundaries_of cal start until d m)" "m \<in> set (boundary_minutes cal)"
    and days: "a \<le> d" "d \<le> date_max" and until: "at_unix (d * 86400 - off) < until"
  shows "t \<in> set (days_from cal start until (Some a))"
  using days
proof (induction "nat (d - a)" arbitrary: a)
  case 0
  then show ?case using t by auto
next
  case (Suc n)
  have "at_unix (a * 86400 - off) < until"
    using until Suc.prems(1) by (simp add: less_at_unix_iff [symmetric] at_unix_def nanos_per_sec_def)
  then have "day_in_range cal until a"
    unfolding day_in_range_def list_ex_iff
    by (intro bexI [of _ 0]) (simp_all add: to_utc_fixed [OF off] clock_secs_def boundary_minutes_iff)
  moreover have "next_day a = Some (a + 1)" using Suc by (simp add: next_day_def)
  moreover have "t \<in> set (days_from cal start until (Some (a + 1)))"
    by (rule Suc.hyps(1)) (use Suc.hyps(2) Suc.prems in simp_all)
  ultimately show ?case by simp
qed

text \<open>
  In a zone of one offset the sampled boundaries miss no change: every instant strictly
  between \<open>start\<close> and \<open>until\<close> at which what airs differs from the nanosecond before is one of them,
  so between two boundaries the answer is constant.
\<close>

theorem boundaries_miss_nothing:
  assumes "zn_offset (cal_zone cal) = (\<lambda>_. off)" and "start < t" and "t < until"
    and "date_min < local_date (cal_zone cal) start" and "local_date (cal_zone cal) t \<le> date_max"
    and "on_air cal t \<noteq> on_air cal (t - 1)"
  shows "t \<in> set (boundaries cal start until)"
proof -
  let ?d = "local_date (cal_zone cal) t" and ?m = "local_minute (cal_zone cal) t"
  from change_on_boundary [OF assms(1,6)] have m: "?m \<in> set (boundary_minutes cal)"
    and t: "t = at_unix (?d * 86400 + int ?m * 60 - off)" by auto
  have "?m div 60 < 24" using local_minute_less [of "cal_zone cal" t] by simp
  then have "to_utc_assume_local ?d (clock_secs ?m) (cal_zone cal) = t"
    using t by (simp add: to_utc_fixed [OF assms(1)] clock_secs_def)
  then have b: "t \<in> set (boundaries_of cal start until ?d ?m)"
    using assms(2,3) by (simp add: boundaries_of_def Let_def)
  have le: "local_date (cal_zone cal) start \<le> ?d" using local_date_mono [OF assms(1)] assms(2) by simp
  have "at_unix (?d * 86400 - off) \<le> t" by (subst (2) t) simp
  then have "at_unix (?d * 86400 - off) < until" using assms(3) by simp
  from days_from_reaches [OF assms(1) b m _ assms(5) this, of "local_date (cal_zone cal) start - 1"] le assms(4)
  show ?thesis by (simp add: boundaries_def previous_day_def)
qed

section \<open>Drawing what airs\<close>

lemma chain_links_leaf: "chain_links rule slot chain \<Longrightarrow> chain \<noteq> [] \<Longrightarrow> rotation_block rule (dr_member (last chain)) = None"
proof (induction chain arbitrary: slot)
  case (Cons r rs)
  then show ?case by (cases rs) auto
qed simp

text \<open>Every member a rotation lists is a declared slot, as \<open>validate_rotation\<close> requires.\<close>

definition members_declared :: "rule_config \<Rightarrow> bool" where
  "members_declared rule \<longleftrightarrow> (\<forall>(name, b)\<in>set (ru_slots rule). \<forall>m\<in>set (bi_slots b). bt_get (ru_slots rule) m \<noteq> None)"

lemma slot_index_declared: "bt_get (ru_slots rule) name \<noteq> None \<Longrightarrow> \<exists>i. slot_index rule name = Some i"
proof -
  assume "bt_get (ru_slots rule) name \<noteq> None"
  then have "name \<in> set (map fst (ru_slots rule))" by (auto simp: map_of_eq_None_iff)
  then have "position (\<lambda>k. k = name) (map fst (ru_slots rule)) \<noteq> None" by (auto simp: position_None_iff simp del: set_map)
  then show ?thesis by (auto simp: slot_index_def)
qed

lemma chain_links_declared:
  "members_declared rule \<Longrightarrow> chain_links rule slot chain \<Longrightarrow> chain \<noteq> [] \<Longrightarrow> bt_get (ru_slots rule) (dr_member (last chain)) \<noteq> None"
proof (induction chain arbitrary: slot)
  case (Cons r rs)
  show ?case
  proof (cases rs)
    case Nil
    from Cons.prems(2) obtain b where "rotation_block rule slot = Some b" "dr_member r \<in> set (bi_slots b)" by auto
    then show ?thesis
      using Cons.prems(1) Nil
      by (fastforce simp: members_declared_def rotation_block_def split: option.splits if_splits dest: map_of_SomeD)
  qed (use Cons in auto)
qed simp

text \<open>
  On a rule that validates, asking what airs with the rotations drawn always answers:
  either the calendar's answer with the draws untouched, or a slot that is no rotation, under the
  index the rule gives it, on the schedule and for the placement the calendar named.
\<close>

theorem drawn_slot_airs:
  assumes "validate_rotation_cycles (cal_rule cal) = Inr ()" and "members_declared (cal_rule cal)"
  shows "\<exists>air chain rots'. on_air_drawn cal t seed_at rots = Some (Inr (air, chain, rots')) \<and>
    (case air of
       OnSlot p \<Rightarrow> pl_rotation p = None \<and> pl_placement p = None \<and> air = on_air cal t \<and> rots' = rots \<or>
         (\<exists>q. on_air cal t = OnSlot q \<and> pl_rotation p = Some (pl_slot q) \<and> pl_placement p = pl_placement q \<and>
            pl_schedule p = pl_schedule q \<and> slot_index (cal_rule cal) (pl_slot p) = Some (pl_index p) \<and>
            rotation_block (cal_rule cal) (pl_slot p) = None)
     | AnyTime \<Rightarrow> on_air cal t = AnyTime \<and> rots' = rots)"
proof (cases "on_air cal t")
  case AnyTime
  then show ?thesis by (simp add: on_air_drawn_def)
next
  case (OnSlot q)
  then obtain name slot r d index where q: "q = \<lparr>pl_slot = slot, pl_index = index, pl_schedule = name,
      pl_placement = placement_of cal slot r d, pl_rotation = None\<rparr>"
    by (auto simp: on_air_def placed_by_def split: option.splits dest!: find_map_SomeD)
  show ?thesis
  proof (cases "placement_of cal slot r d")
    case None
    then show ?thesis using OnSlot q by (simp add: on_air_drawn_def)
  next
    case (Some start)
    then have rot: "rotation_block (cal_rule cal) slot \<noteq> None"
      by (auto simp: placement_of_def rotation_block_def split: option.splits if_splits)
    from resolve_chain_returns [OF assms(1) [unfolded validated_acyclic], of slot "seed_at (placement_instant start)" start "placement_instant start" "[]" rots]
    obtain chain rots' where res: "resolve_slot (cal_rule cal) slot start seed_at rots = Some (Inr (chain, rots'))"
      and links: "chain_links (cal_rule cal) slot chain" by (auto simp: resolve_slot_def)
    have ne: "chain \<noteq> []" using links rot by auto
    obtain i where i: "slot_index (cal_rule cal) (dr_member (last chain)) = Some i"
      using slot_index_declared chain_links_declared [OF assms(2) links ne] by blast
    show ?thesis
      using OnSlot q Some res ne i chain_links_leaf [OF links ne] by (simp add: on_air_drawn_def drawn_leaf_def)
  qed
qed

section \<open>An example\<close>

definition evening_rule :: rule_config where
  "evening_rule = prime_rule\<lparr>ru_schedules :=
     [\<lparr>sc_name = ''evening'', sc_dates = [], sc_weekdays = [], sc_hours = [(ClockRange 1140 1380, ''prime'')]\<rparr>]\<rparr>"

definition evening :: calendar where
  "evening = \<lparr>cal_rule = evening_rule, cal_order = ru_schedules evening_rule, cal_zone = fixed_zone 0\<rparr>"

lemma evening_valid: "validate_rotation_cycles evening_rule = Inr ()" "members_declared evening_rule"
  by (simp_all add: validate_rotation_cycles_def evening_rule_def prime_defs slot_members_def members_declared_def)

theorem highest_schedule_airs_witness:
  "case on_air evening (at_unix 72000) of OnSlot p \<Rightarrow> pl_slot p = ''prime'' | AnyTime \<Rightarrow> False"
proof -
  have "calendar_new evening_rule (fixed_zone 0) = Some evening"
    by (simp add: calendar_new_def evening_def evening_rule_def prime_rule_def)
  from highest_schedule_airs [OF this, of "at_unix 72000"] show ?thesis
    by (auto simp: evening_rule_def prime_rule_def prime_slot_def plain_slot_def placed_by_def hit_at_def start_day_def
        local_date_def local_minute_def local_secs_def evening_def matches_day_def previous_day_def date_min_def date_of_def
        days_before_year_def epoch_days_def wraps_def slot_index_def split: on_air_at.splits)
qed

theorem drawn_slot_airs_witness:
  "\<exists>air chain rots'. on_air_drawn evening (at_unix 72000) (\<lambda>_. 5) [] = Some (Inr (air, chain, rots'))"
proof -
  have "validate_rotation_cycles (cal_rule evening) = Inr ()" "members_declared (cal_rule evening)"
    using evening_valid by (simp_all add: evening_def)
  from drawn_slot_airs [OF this] show ?thesis by blast
qed

theorem boundaries_miss_nothing_witness: "at_unix 68400 \<in> set (boundaries evening (at_unix 0) (at_unix 86400))"
proof -
  have a: "on_air evening (at_unix 68400) \<noteq> on_air evening (at_unix 68400 - 1)"
    by (simp add: on_air_def evening_rule_def prime_rule_def prime_slot_def plain_slot_def placed_by_def hit_at_def start_day_def
        local_date_def local_minute_def local_secs_def evening_def matches_day_def previous_day_def date_min_def date_of_def
        days_before_year_def epoch_days_def wraps_def slot_index_def at_unix_def unix_timestamp_def nanos_per_sec_def)
  show ?thesis
    by (rule boundaries_miss_nothing [where off = 0, OF _ _ _ _ _ a])
      (simp_all add: evening_def local_date_def local_secs_def date_min_def date_max_def date_of_def days_before_year_def epoch_days_def)
qed

text \<open>From midnight to midnight the evening changes what is on air.\<close>

theorem next_change_is_first_witness: "next_change evening (at_unix 0) (at_unix 86400) \<noteq> None"
proof
  assume none: "next_change evening (at_unix 0) (at_unix 86400) = None"
  have "minute_floor (at_unix 0) + int (Suc 1139) * minute_ns = at_unix 68400"
    by (simp add: minute_floor_def at_unix_def minute_ns_def nanos_per_sec_def unix_timestamp_def)
  then have "same_block (on_air evening (at_unix 68400)) (on_air evening (at_unix 0))"
    using next_change_is_first [where cal = evening and start = "at_unix 0" and until = "at_unix 86400"] none
    by (auto dest: spec [where x = 1139])
  then show False
    by (simp add: on_air_def evening_rule_def prime_rule_def prime_slot_def plain_slot_def placed_by_def hit_at_def start_day_def
        local_date_def local_minute_def local_secs_def evening_def matches_day_def previous_day_def date_min_def date_of_def
        days_before_year_def epoch_days_def wraps_def slot_index_def block_label_def placement_of_def)
qed

end
