(* ===== verification/Playout.thy ===== *)
theory Playout
  imports PatternWalk RuleConfig
begin

text \<open>
  \<open>rule.rs\<close>: a resolved list played once, end to end, from a given start; the window of playout
  items and of block spans it emits; and the phase a channel joins its list at. The playout schema
  is ETV-next's (\<open>ersatztv-playout\<close>). \<open>seconds_f64\<close>, the conversion of the \<open>time\<close> crate from
  seconds to a signed duration, is a parameter, as is decoding a bumper's stored JSON.
\<close>

section \<open>The playout schema\<close>

datatype playout_source =
    PlayLocal string "nat option" "nat option" "json option"
  | PlayLavfi string "json option"
  | PlayHttp string "bool option" "nat option" "nat option" "string list option" "string option"
      "nat option" "bool option" "nat option" "bool option" "json option"
  | PlayRtsp string "nat option" "json option"
  | PlayScript string "string list" "bool option" "json option"
  | PlayDynamic json

record track_selection =
  ts_source :: "playout_source option"
  ts_stream_index :: "nat option"

record playout_tracks =
  pt_audio :: "track_selection option"
  pt_video :: "track_selection option"
  pt_subtitle :: "track_selection option"

record playout_item =
  pi_id :: string
  pi_start :: instant
  pi_finish :: instant
  pi_source :: "playout_source option"
  pi_tracks :: "playout_tracks option"
  pi_watermark :: "json option"
  pi_program :: "program_metadata option"
  pi_metadata :: "json option"
  pi_overlay :: "json option"
  pi_normalize_loudness :: "bool option"

definition scheduled :: "string \<Rightarrow> instant \<Rightarrow> instant \<Rightarrow> playout_source \<Rightarrow> playout_item" where
  "scheduled i start finish source =
     \<lparr>pi_id = i, pi_start = start, pi_finish = finish, pi_source = Some source, pi_tracks = None,
      pi_watermark = None, pi_program = None, pi_metadata = None, pi_overlay = None,
      pi_normalize_loudness = None\<rparr>"

definition local_source :: "string \<Rightarrow> nat option \<Rightarrow> nat option \<Rightarrow> playout_source" where
  "local_source path in_ms out_ms = PlayLocal path in_ms out_ms None"

definition lavfi_source :: "string \<Rightarrow> playout_source" where
  "lavfi_source params = PlayLavfi params None"

definition http_source ::
  "string \<Rightarrow> nat option \<Rightarrow> nat option \<Rightarrow> string list option \<Rightarrow> string option \<Rightarrow> playout_source" where
  "http_source uri in_ms out_ms headers user_agent =
     PlayHttp uri None in_ms out_ms headers user_agent None None None None None"

section \<open>A resolved item\<close>

record guide_fields =
  gf_show :: "string option"
  gf_absolute_episode :: "int option"
  gf_release_date :: "string option"
  gf_studio :: "string option"
  gf_edition :: "string option"
  gf_library :: "string option"
  gf_duration :: "duration option"
  gf_genres :: "string list"
  gf_cast :: "string list"
  gf_directors :: "string list"
  gf_writers :: "string list"
  gf_countries :: "string list"
  gf_summary :: "string option"

record selected_tracks =
  st_audio :: "nat option"
  st_subtitle :: "nat option"
  st_subtitle_sidecar :: "string option"

record resolved_item =
  ri_id :: string
  ri_block :: nat
  ri_source :: source_config
  ri_in_point :: "duration option"
  ri_out_point :: "duration option"
  ri_program :: "program_metadata option"
  ri_catalog_duration :: "duration option"
  ri_error_card :: bool
  ri_metadata :: "json option"
  ri_guide :: "guide_config option"
  ri_guide_fields :: guide_fields
  ri_tracks :: "json option"
  ri_selected :: "selected_tracks option"
  ri_bumper :: "json option"

text \<open>\<open>d.as_millis() as u64\<close>.\<close>

definition millis_u64 :: "duration \<Rightarrow> nat" where
  "millis_u64 d = d div 1000000 mod 2 ^ 64"

definition to_playout_source :: "source_config \<Rightarrow> duration option \<Rightarrow> duration option \<Rightarrow> playout_source" where
  "to_playout_source s in_point out_point =
     (let in_ms = map_option millis_u64 in_point; out_ms = map_option millis_u64 out_point in
      case s of
        LocalSource path \<Rightarrow> local_source path in_ms out_ms
      | LavfiSource params \<Rightarrow> lavfi_source params
      | HttpSource uri headers user_agent \<Rightarrow> http_source uri in_ms out_ms headers user_agent)"

text \<open>The \<open>tracks\<close> block of a selection: the streams chosen, and a sidecar's own file for the subtitle.\<close>

definition playout_tracks_of :: "selected_tracks \<Rightarrow> resolved_item \<Rightarrow> playout_tracks option" where
  "playout_tracks_of selected item =
     (let pick = map_option (\<lambda>i. \<lparr>ts_source = None, ts_stream_index = Some i\<rparr>);
          audio = pick (st_audio selected);
          subtitle = (case (pick (st_subtitle selected), st_subtitle_sidecar selected) of
                        (Some track, Some path) \<Rightarrow>
                          Some (track\<lparr>ts_source := Some (local_source path (map_option millis_u64 (ri_in_point item))
                                                         (map_option millis_u64 (ri_out_point item)))\<rparr>)
                      | (track, _) \<Rightarrow> track)
      in if audio = None \<and> subtitle = None then None
         else Some \<lparr>pt_audio = audio, pt_video = None, pt_subtitle = subtitle\<rparr>)"

text \<open>\<open>decode\<close> is \<open>serde_json::from_value::<PlayoutItem>\<close>.\<close>

definition build_playout_item ::
  "(json \<Rightarrow> playout_item option) \<Rightarrow> resolved_item \<Rightarrow> instant \<Rightarrow> instant \<Rightarrow> playout_item" where
  "build_playout_item decode item start finish =
     (case Option.bind (ri_bumper item) decode of
        Some bumper \<Rightarrow> bumper\<lparr>pi_start := start, pi_finish := finish\<rparr>
      | None \<Rightarrow>
          (scheduled (ri_id item) start finish
             (to_playout_source (ri_source item) (ri_in_point item) (ri_out_point item)))
          \<lparr>pi_program := ri_program item, pi_metadata := ri_metadata item,
           pi_tracks := Option.bind (ri_selected item) (\<lambda>selected. playout_tracks_of selected item)\<rparr>)"

section \<open>The sequence\<close>

record block_span =
  bs_start :: instant
  bs_finish :: instant
  bs_block :: nat

record sequential =
  sq_items :: "resolved_item list"
  sq_durations :: "duration list"

definition sequential_new :: "resolved_item list \<Rightarrow> duration list \<Rightarrow> sequential result" where
  "sequential_new items durations =
     (if length items = length durations then Inr \<lparr>sq_items = items, sq_durations = durations\<rparr>
      else Inl ''items/durations length mismatch'')"

definition sum_secs :: "duration list \<Rightarrow> f64" where
  "sum_secs ds = foldl (\<lambda>acc d. f64_add acc (as_secs_f64 d)) 0 ds"

definition total_duration :: "(f64 \<Rightarrow> int) \<Rightarrow> sequential \<Rightarrow> int" where
  "total_duration seconds_f64 sq = seconds_f64 (sum_secs (sq_durations sq))"

fun spans_from :: "(f64 \<Rightarrow> int) \<Rightarrow> instant \<Rightarrow> duration list \<Rightarrow> (instant \<times> instant) list" where
  "spans_from seconds_f64 t [] = []"
| "spans_from seconds_f64 t (d # ds) =
     (let later = t + seconds_f64 (as_secs_f64 d) in (t, later) # spans_from seconds_f64 later ds)"

definition item_spans :: "(f64 \<Rightarrow> int) \<Rightarrow> sequential \<Rightarrow> instant \<Rightarrow> (instant \<times> instant) list" where
  "item_spans seconds_f64 sq start_utc = spans_from seconds_f64 start_utc (sq_durations sq)"

text \<open>
  Both walks read an item by the index of its span; \<open>sequential_new\<close> made the two lists equally
  long, so they are walked side by side. The walk breaks at the first item past the window.
\<close>

fun items_walk ::
  "(json \<Rightarrow> playout_item option) \<Rightarrow> instant \<Rightarrow> instant \<Rightarrow> (resolved_item \<times> instant \<times> instant) list \<Rightarrow> playout_item list" where
  "items_walk decode start until [] = []"
| "items_walk decode start until ((item, s, f) # rest) =
     (if until \<le> s then []
      else (if start < f then [build_playout_item decode item s f] else []) @ items_walk decode start until rest)"

definition items_covering ::
  "(f64 \<Rightarrow> int) \<Rightarrow> (json \<Rightarrow> playout_item option) \<Rightarrow> sequential \<Rightarrow> instant \<Rightarrow> instant \<Rightarrow> instant \<Rightarrow> playout_item list" where
  "items_covering seconds_f64 decode sq start_utc start until =
     (if sq_items sq = [] \<or> until \<le> start then []
      else items_walk decode start until (zip (sq_items sq) (item_spans seconds_f64 sq start_utc)))"

text \<open>The spans are pushed on the end of \<open>out\<close>, or its last one is extended.\<close>

definition push_span :: "block_span list \<Rightarrow> nat \<Rightarrow> instant \<Rightarrow> instant \<Rightarrow> block_span list" where
  "push_span out block s f =
     (if out \<noteq> [] \<and> bs_block (last out) = block \<and> bs_finish (last out) = s
      then butlast out @ [(last out)\<lparr>bs_finish := f\<rparr>]
      else out @ [\<lparr>bs_start = s, bs_finish = f, bs_block = block\<rparr>])"

fun spans_walk ::
  "instant \<Rightarrow> instant \<Rightarrow> (resolved_item \<times> instant \<times> instant) list \<Rightarrow> block_span list \<Rightarrow> block_span list" where
  "spans_walk start until [] out = out"
| "spans_walk start until ((item, s, f) # rest) out =
     (if until \<le> s then out
      else spans_walk start until rest (if start < f then push_span out (ri_block item) s f else out))"

definition block_spans_covering ::
  "(f64 \<Rightarrow> int) \<Rightarrow> sequential \<Rightarrow> instant \<Rightarrow> instant \<Rightarrow> instant \<Rightarrow> block_span list" where
  "block_spans_covering seconds_f64 sq start_utc start until =
     (if sq_items sq = [] \<or> until \<le> start then []
      else spans_walk start until (zip (sq_items sq) (item_spans seconds_f64 sq start_utc)) [])"

section \<open>Joining a list in progress\<close>

text \<open>
  \<open>as_seconds_f64\<close> of a positive signed duration is \<open>as_secs_f64\<close> of its length; the remainder of
  two floats is exact.
\<close>

definition f64_rem_euclid :: "f64 \<Rightarrow> f64 \<Rightarrow> f64" where
  "f64_rem_euclid x y = x - y * of_int \<lfloor>x / y\<rfloor>"

fun phase_walk :: "(f64 \<Rightarrow> int) \<Rightarrow> nat \<Rightarrow> f64 \<Rightarrow> duration list \<Rightarrow> nat \<times> int" where
  "phase_walk seconds_f64 i remaining [] = (0, 0)"
| "phase_walk seconds_f64 i remaining (d # ds) =
     (let secs = as_secs_f64 d in
      if remaining < secs then (i, seconds_f64 remaining)
      else phase_walk seconds_f64 (Suc i) (f64_sub remaining secs) ds)"

definition phase_at :: "(f64 \<Rightarrow> int) \<Rightarrow> instant \<Rightarrow> instant \<Rightarrow> duration list \<Rightarrow> nat \<times> int" where
  "phase_at seconds_f64 anchor now durations =
     (let total_secs = sum_secs durations in
      if total_secs \<le> 0 \<or> now \<le> anchor then (0, 0)
      else phase_walk seconds_f64 0 (f64_rem_euclid (as_secs_f64 (nat (now - anchor))) total_secs) durations)"

section \<open>A chained list\<close>

fun chained :: "instant \<Rightarrow> ('a \<times> instant \<times> instant) list \<Rightarrow> bool" where
  "chained t [] \<longleftrightarrow> True"
| "chained t ((x, s, f) # rest) \<longleftrightarrow> s = t \<and> s \<le> f \<and> chained f rest"

fun chain_end :: "instant \<Rightarrow> ('a \<times> instant \<times> instant) list \<Rightarrow> instant" where
  "chain_end t [] = t"
| "chain_end t ((x, s, f) # rest) = chain_end f rest"

lemma chained_bounds: "chained t ts \<Longrightarrow> (x, s, f) \<in> set ts \<Longrightarrow> t \<le> s \<and> s \<le> f"
  by (induction t ts rule: chained.induct) auto

lemma chain_end_ge: "chained t ts \<Longrightarrow> t \<le> chain_end t ts"
  by (induction t ts rule: chained.induct) auto

lemma chained_on_air:
  assumes "chained t ts"
  shows "length (filter (\<lambda>(x, s, f). s \<le> u \<and> u < f) ts) = (if t \<le> u \<and> u < chain_end t ts then 1 else 0)"
  using assms
proof (induction t ts rule: chained.induct)
  case (2 t x s f rest)
  then show ?case using chain_end_ge [of f rest] by auto
qed simp

text \<open>What the code relies on of \<open>time::Duration::seconds_f64\<close>: it does not turn a length into a step back.\<close>

definition keeps_sign :: "(f64 \<Rightarrow> int) \<Rightarrow> bool" where
  "keeps_sign seconds_f64 \<longleftrightarrow> (\<forall>x\<ge>0. 0 \<le> seconds_f64 x)"

lemma as_secs_f64_nonneg: "0 \<le> as_secs_f64 d"
  by (simp add: as_secs_f64_def f64_add_def f64_round_nonneg)

lemma zip_spans_chained:
  "keeps_sign seconds_f64 \<Longrightarrow> chained t (zip items (spans_from seconds_f64 t ds))"
proof (induction ds arbitrary: t items)
  case (Cons d ds)
  then show ?case by (cases items) (auto simp: keeps_sign_def as_secs_f64_nonneg Let_def)
qed simp

lemma zip_spans_end:
  "length items = length ds \<Longrightarrow>
     chain_end t (zip items (spans_from seconds_f64 t ds)) = t + sum_list (map (\<lambda>d. seconds_f64 (as_secs_f64 d)) ds)"
  by (induction items ds arbitrary: t rule: list_induct2) (simp_all add: Let_def)

section \<open>The window of items\<close>

lemma build_playout_item_times [simp]:
  "pi_start (build_playout_item decode item s f) = s" "pi_finish (build_playout_item decode item s f) = f"
  by (simp_all add: build_playout_item_def scheduled_def split: option.split)

lemma items_walk_filter:
  assumes "chained t ts"
  shows "items_walk decode start until ts =
    map (\<lambda>(item, s, f). build_playout_item decode item s f) (filter (\<lambda>(item, s, f). s < until \<and> start < f) ts)"
  using assms
proof (induction ts arbitrary: t)
  case (Cons a ts)
  obtain item s f where a: "a = (item, s, f)" by (cases a)
  with Cons.prems have c: "chained f ts" "s \<le> f" by auto
  show ?case
  proof (cases "until \<le> s")
    case True
    have "\<not> s' < until" if "(x, s', f') \<in> set ts" for x s' f'
      using chained_bounds [OF c(1) that] c(2) True by linarith
    then have none: "filter (\<lambda>(item, s, f). s < until \<and> start < f) ts = []" by (auto simp: filter_empty_conv)
    from True show ?thesis unfolding a by (simp add: none)
  qed (simp add: a Cons.IH [OF c(1)])
qed simp

definition laid :: "(f64 \<Rightarrow> int) \<Rightarrow> sequential \<Rightarrow> instant \<Rightarrow> (resolved_item \<times> instant \<times> instant) list" where
  "laid seconds_f64 sq start_utc = zip (sq_items sq) (item_spans seconds_f64 sq start_utc)"

definition sequence_end :: "(f64 \<Rightarrow> int) \<Rightarrow> sequential \<Rightarrow> instant \<Rightarrow> instant" where
  "sequence_end seconds_f64 sq start_utc = start_utc + sum_list (map (\<lambda>d. seconds_f64 (as_secs_f64 d)) (sq_durations sq))"

lemma laid_chained: "keeps_sign seconds_f64 \<Longrightarrow> chained start_utc (laid seconds_f64 sq start_utc)"
  by (simp add: laid_def item_spans_def zip_spans_chained)

lemma sequential_newD: "sequential_new items durations = Inr sq \<Longrightarrow> sq_items sq = items \<and> sq_durations sq = durations \<and> length items = length durations"
  by (auto simp: sequential_new_def split: if_splits)

lemma laid_end:
  "length (sq_items sq) = length (sq_durations sq) \<Longrightarrow> chain_end start_utc (laid seconds_f64 sq start_utc) = sequence_end seconds_f64 sq start_utc"
  by (simp add: laid_def item_spans_def zip_spans_end sequence_end_def)

lemma items_covering_filter:
  assumes "keeps_sign seconds_f64"
  shows "items_covering seconds_f64 decode sq start_utc start until =
    (if until \<le> start then [] else
     map (\<lambda>(item, s, f). build_playout_item decode item s f)
       (filter (\<lambda>(item, s, f). s < until \<and> start < f) (laid seconds_f64 sq start_utc)))"
  using items_walk_filter [OF laid_chained [OF assms]] by (simp add: items_covering_def laid_def)

text \<open>
  Claim C28. A window emits what airs in it: at every instant of the window, the emitted items
  playing there are exactly the items of the sequence playing there, built whole, and there is
  one of them from the start of the sequence to its end and none outside.
\<close>

theorem window_emits_what_airs:
  assumes "keeps_sign seconds_f64" and "sequential_new items durations = Inr sq" and "start \<le> t" and "t < until"
  shows "filter (\<lambda>p. pi_start p \<le> t \<and> t < pi_finish p) (items_covering seconds_f64 decode sq start_utc start until) =
      map (\<lambda>(item, s, f). build_playout_item decode item s f)
        (filter (\<lambda>(item, s, f). s \<le> t \<and> t < f) (zip items (item_spans seconds_f64 sq start_utc))) \<and>
    length (filter (\<lambda>p. pi_start p \<le> t \<and> t < pi_finish p) (items_covering seconds_f64 decode sq start_utc start until)) =
      (if start_utc \<le> t \<and> t < sequence_end seconds_f64 sq start_utc then 1 else 0)"
proof -
  note sq = sequential_newD [OF assms(2)]
  have meets: "filter (\<lambda>(item, s, f). s \<le> t \<and> t < f) (filter (\<lambda>(item, s, f). s < until \<and> start < f) ts)
      = filter (\<lambda>(item, s, f). s \<le> t \<and> t < f) ts" for ts :: "(resolved_item \<times> instant \<times> instant) list"
    using assms(3,4) by (auto simp: intro!: filter_cong)
  have comp: "((\<lambda>p. pi_start p \<le> t \<and> t < pi_finish p) \<circ> (\<lambda>(item, s, f). build_playout_item decode item s f))
      = (\<lambda>(item, s, f). s \<le> t \<and> t < f)" by (auto simp: fun_eq_iff)
  have eq: "filter (\<lambda>p. pi_start p \<le> t \<and> t < pi_finish p) (items_covering seconds_f64 decode sq start_utc start until) =
      map (\<lambda>(item, s, f). build_playout_item decode item s f)
        (filter (\<lambda>(item, s, f). s \<le> t \<and> t < f) (laid seconds_f64 sq start_utc))"
    using assms(3,4) by (simp add: items_covering_filter [OF assms(1)] filter_map comp meets del: filter_filter)
  moreover have "length (filter (\<lambda>(item, s, f). s \<le> t \<and> t < f) (laid seconds_f64 sq start_utc)) =
      (if start_utc \<le> t \<and> t < sequence_end seconds_f64 sq start_utc then 1 else 0)"
    using chained_on_air [OF laid_chained [OF assms(1), of start_utc sq], of t] sq by (simp only: laid_end)
  ultimately show ?thesis using sq by (simp only: laid_def length_map)
qed

text \<open>A one-hour film and a half-hour one under a conversion that rounds down to the nanosecond.\<close>

definition plain_item :: "string \<Rightarrow> nat \<Rightarrow> resolved_item" where
  "plain_item i block =
     \<lparr>ri_id = i, ri_block = block, ri_source = LocalSource i, ri_in_point = None, ri_out_point = None,
      ri_program = None, ri_catalog_duration = None, ri_error_card = False, ri_metadata = None,
      ri_guide = None,
      ri_guide_fields = \<lparr>gf_show = None, gf_absolute_episode = None, gf_release_date = None, gf_studio = None,
        gf_edition = None, gf_library = None, gf_duration = None, gf_genres = [], gf_cast = [],
        gf_directors = [], gf_writers = [], gf_countries = [], gf_summary = None\<rparr>,
      ri_tracks = None, ri_selected = None, ri_bumper = None\<rparr>"

definition floor_nanos :: "f64 \<Rightarrow> int" where
  "floor_nanos x = \<lfloor>x * 10 ^ 9\<rfloor>"

lemma floor_nanos_keeps_sign: "keeps_sign floor_nanos"
  by (simp add: keeps_sign_def floor_nanos_def)

definition two_films :: sequential where
  "two_films = \<lparr>sq_items = [plain_item ''a'' 0, plain_item ''b'' 1], sq_durations = [dur_of_secs 3600, dur_of_secs 1800]\<rparr>"

lemma two_films_new: "sequential_new [plain_item ''a'' 0, plain_item ''b'' 1] [dur_of_secs 3600, dur_of_secs 1800] = Inr two_films"
  by (simp add: sequential_new_def two_films_def)

theorem window_emits_what_airs_witness:
  "length (filter (\<lambda>p. pi_start p \<le> at_unix 10 \<and> at_unix 10 < pi_finish p)
      (items_covering floor_nanos (\<lambda>_. None) two_films (at_unix 0) (at_unix 5) (at_unix 20))) =
    (if at_unix 0 \<le> at_unix 10 \<and> at_unix 10 < sequence_end floor_nanos two_films (at_unix 0) then 1 else 0)"
  by (rule conjunct2 [OF window_emits_what_airs [OF floor_nanos_keeps_sign two_films_new]]) simp_all

section \<open>The spans of blocks\<close>

definition spans_meet :: "block_span list \<Rightarrow> bool" where
  "spans_meet = successively (\<lambda>a b. bs_finish a = bs_start b \<and> bs_block a \<noteq> bs_block b)"

definition block_at :: "nat \<Rightarrow> instant \<Rightarrow> block_span list \<Rightarrow> bool" where
  "block_at b u out \<longleftrightarrow> (\<exists>p\<in>set out. bs_block p = b \<and> bs_start p \<le> u \<and> u < bs_finish p)"

lemma block_at_append [simp]: "block_at b u (xs @ ys) \<longleftrightarrow> block_at b u xs \<or> block_at b u ys"
  by (auto simp: block_at_def)

lemma block_at_Cons [simp]: "block_at b u (p # ps) \<longleftrightarrow> bs_block p = b \<and> bs_start p \<le> u \<and> u < bs_finish p \<or> block_at b u ps"
  by (simp add: block_at_def)

lemma block_at_Nil [simp]: "\<not> block_at b u []"
  by (simp add: block_at_def)

text \<open>What the walk has pushed ends at \<open>t\<close>, in spans that run forward and meet.\<close>

definition spans_upto :: "instant \<Rightarrow> block_span list \<Rightarrow> bool" where
  "spans_upto t out \<longleftrightarrow>
     spans_meet out \<and> (\<forall>p\<in>set out. bs_start p \<le> bs_finish p) \<and> (out \<noteq> [] \<longrightarrow> bs_finish (last out) = t)"

lemma push_span_upto:
  assumes "spans_upto s out" and "s \<le> f"
  shows "spans_upto f (push_span out b s f)"
    and "block_at c u (push_span out b s f) \<longleftrightarrow> block_at c u out \<or> (b = c \<and> s \<le> u \<and> u < f)"
proof -
  have "spans_upto f (push_span out b s f) \<and> (block_at c u (push_span out b s f) \<longleftrightarrow> block_at c u out \<or> (b = c \<and> s \<le> u \<and> u < f))"
  proof (cases out rule: rev_cases)
    case Nil
    then show ?thesis using assms(2) by (simp add: push_span_def spans_upto_def spans_meet_def)
  next
    case (snoc ps p)
    have p: "bs_finish p = s" "bs_start p \<le> s" using assms(1) snoc by (auto simp: spans_upto_def)
    have meet: "spans_meet (ps @ [q])" if "bs_start q = bs_start p" "bs_block q = bs_block p" for q
      using assms(1) that unfolding snoc spans_upto_def spans_meet_def by (simp add: successively_append_iff)
    show ?thesis
      using assms p meet [of "p\<lparr>bs_finish := f\<rparr>"] unfolding snoc
      by (auto simp: push_span_def spans_upto_def spans_meet_def successively_append_iff)
  qed
  then show "spans_upto f (push_span out b s f)"
    and "block_at c u (push_span out b s f) \<longleftrightarrow> block_at c u out \<or> (b = c \<and> s \<le> u \<and> u < f)" by blast+
qed

lemma spans_walk_ok:
  assumes "chained t ts" and "spans_upto t out" and "out = [] \<or> start < t" and "start \<le> u" and "u < until"
  shows "spans_meet (spans_walk start until ts out) \<and>
    (block_at b u (spans_walk start until ts out) \<longleftrightarrow>
      block_at b u out \<or> (\<exists>(item, s, f)\<in>set ts. ri_block item = b \<and> s \<le> u \<and> u < f))"
  using assms(1-3)
proof (induction ts arbitrary: t out)
  case Nil
  then show ?case by (simp add: spans_upto_def)
next
  case (Cons a ts)
  obtain item s f where a: "a = (item, s, f)" by (cases a)
  with Cons.prems have c: "chained f ts" "s \<le> f" "s = t" by auto
  show ?case
  proof (cases "until \<le> s")
    case True
    have "\<not> s' \<le> u" if "(x, s', f') \<in> set (a # ts)" for x s' f'
      using chained_bounds [OF Cons.prems(1) that] c(3) True assms(5) by linarith
    then have "\<not> (\<exists>(item, s, f)\<in>set (a # ts). ri_block item = b \<and> s \<le> u \<and> u < f)" by auto
    moreover have "spans_walk start until (a # ts) out = out" using True by (simp add: a)
    ultimately show ?thesis using Cons.prems(2) by (simp only: spans_upto_def) blast
  next
    case False
    show ?thesis
    proof (cases "start < f")
      case True
      note pushed = push_span_upto [OF Cons.prems(2)[folded c(3)] c(2), where b = "ri_block item"]
      have walked: "spans_walk start until (a # ts) out = spans_walk start until ts (push_span out (ri_block item) s f)"
        using True False by (simp add: a)
      show ?thesis
        unfolding walked using Cons.IH [OF c(1) pushed(1)] True pushed(2) [where c = b and u = u] by (auto simp: a)
    next
      case over: False
      then have "out = []" "\<not> u < f" using Cons.prems(3) c assms(4) by auto
      then show ?thesis using Cons.IH [OF c(1), of out] over False
        unfolding a by (auto simp: spans_upto_def spans_meet_def)
    qed
  qed
qed

text \<open>
  The block spans of a window name, at every instant of it, the block of the item that
  is on air, and nothing where no item is; the spans meet end to start, and neighbours never
  carry the same block.
\<close>

theorem spans_name_the_block_on_air:
  assumes "keeps_sign seconds_f64" and "sequential_new items durations = Inr sq" and "start \<le> t" and "t < until"
  shows "((\<exists>p\<in>set (block_spans_covering seconds_f64 sq start_utc start until). bs_block p = b \<and> bs_start p \<le> t \<and> t < bs_finish p) \<longleftrightarrow>
      (\<exists>(item, s, f)\<in>set (zip items (item_spans seconds_f64 sq start_utc)). ri_block item = b \<and> s \<le> t \<and> t < f)) \<and>
    successively (\<lambda>p q. bs_finish p = bs_start q \<and> bs_block p \<noteq> bs_block q) (block_spans_covering seconds_f64 sq start_utc start until)"
proof -
  note sq = sequential_newD [OF assms(2)]
  have upto: "spans_upto start_utc []" by (simp add: spans_upto_def spans_meet_def)
  note walk = spans_walk_ok [OF laid_chained [OF assms(1), of start_utc sq] upto _ assms(3,4), of b]
  have "items = [] \<Longrightarrow> laid seconds_f64 sq start_utc = []" using sq by (simp add: laid_def)
  moreover have "block_spans_covering seconds_f64 sq start_utc start until =
      (if items = [] then [] else spans_walk start until (laid seconds_f64 sq start_utc) [])"
    using sq assms(3,4) by (simp add: block_spans_covering_def laid_def)
  ultimately have "block_spans_covering seconds_f64 sq start_utc start until = spans_walk start until (laid seconds_f64 sq start_utc) []"
    by simp
  with walk sq show ?thesis by (simp add: block_at_def spans_meet_def laid_def)
qed

theorem spans_name_the_block_on_air_witness:
  "successively (\<lambda>p q. bs_finish p = bs_start q \<and> bs_block p \<noteq> bs_block q)
     (block_spans_covering floor_nanos two_films (at_unix 0) (at_unix 0) (at_unix 5400))"
  by (rule conjunct2 [OF spans_name_the_block_on_air [OF floor_nanos_keeps_sign two_films_new, where t = "at_unix 10"]]) simp_all

section \<open>The phase of whole seconds\<close>

lemma f64_round_nat:
  assumes "n < 2 ^ 53"
  shows "f64_round (of_nat n) = of_nat n"
proof (cases "n = 0")
  case False
  have q: "quotient_of (of_nat n) = (int n, 1)" using quotient_of_int [of "int n"] by simp
  have f: "floorlog 2 n \<le> 53" "0 < floorlog 2 n"
    using False assms floorlog_eq_zero_iff [of 2 n] by (auto simp: floorlog_le_iff)
  have one: "floorlog 2 (Suc 0) = 1" by (simp add: floorlog_def)
  define e where "e = f64_exponent (of_nat n)"
  have e: "e \<le> 52" "- 1 \<le> e" using f by (auto simp: e_def f64_exponent_def q one Let_def)
  define quantum where "quantum = two_pow (max (e - 52) (- 1074))"
  have quantum: "quantum = 1 / 2 ^ nat (52 - e)" using e by (simp add: quantum_def two_pow_def max_def)
  then have "of_nat n / quantum = of_int (int n * 2 ^ nat (52 - e))" by simp
  then have "round_half_even (of_nat n / quantum) = int n * 2 ^ nat (52 - e)"
    by (simp add: round_half_even_def Let_def del: of_int_mult)
  then show ?thesis
    using False quantum unfolding f64_round_def Let_def e_def [symmetric] quantum_def [symmetric] by simp
qed simp

lemma as_secs_whole: "k < 2 ^ 53 \<Longrightarrow> as_secs_f64 (dur_of_secs k) = of_nat k"
  by (simp add: as_secs_f64_def dur_of_secs_def f64_add_def f64_round_nat)

lemma sum_secs_whole:
  "a + sum_list ks < 2 ^ 53 \<Longrightarrow>
     foldl (\<lambda>acc d. f64_add acc (as_secs_f64 d)) (of_nat a) (map dur_of_secs ks) = of_nat (a + sum_list ks)"
proof (induction ks arbitrary: a)
  case (Cons k ks)
  have "f64_add (of_nat a) (as_secs_f64 (dur_of_secs k)) = of_nat (a + k)"
    using Cons.prems f64_round_nat [of "a + k"] by (simp add: as_secs_whole f64_add_def)
  with Cons.IH [of "a + k"] Cons.prems show ?case by (simp add: add.assoc)
qed simp

lemma f64_rem_nat: "f64_rem_euclid (of_nat a) (of_nat b) = of_nat (a mod b)"
proof -
  have "(of_nat a :: rat) = of_nat (b * (a div b) + a mod b)" by simp
  then have "(of_nat a :: rat) = of_nat b * of_nat (a div b) + of_nat (a mod b)" by (simp only: of_nat_add of_nat_mult)
  moreover have "\<lfloor>of_nat a / of_nat b :: rat\<rfloor> = int (a div b)" by (rule floor_divide_of_nat_eq)
  ultimately show ?thesis unfolding f64_rem_euclid_def by (metis add_diff_cancel_left' of_int_of_nat_eq)
qed

lemma phase_walk_whole:
  assumes "r < sum_list ks" and "sum_list ks < 2 ^ 53"
  shows "\<exists>j q. phase_walk seconds_f64 i (of_nat r) (map dur_of_secs ks) = (i + j, seconds_f64 (of_nat q)) \<and>
    j < length ks \<and> q < ks ! j \<and> sum_list (take j ks) + q = r"
  using assms
proof (induction ks arbitrary: i r)
  case (Cons k ks)
  have k: "as_secs_f64 (dur_of_secs k) = of_nat k" using Cons.prems by (simp add: as_secs_whole)
  show ?case
  proof (cases "r < k")
    case True
    then show ?thesis by (intro exI [of _ 0] exI [of _ r]) (simp add: k)
  next
    case False
    have sub: "f64_sub (of_nat r) (of_nat k) = of_nat (r - k)"
      using False Cons.prems f64_round_nat [of "r - k"] by (simp add: f64_sub_def of_nat_diff)
    obtain j q where "phase_walk seconds_f64 (Suc i) (of_nat (r - k)) (map dur_of_secs ks) = (Suc i + j, seconds_f64 (of_nat q))"
      "j < length ks" "q < ks ! j" "sum_list (take j ks) + q = r - k"
      using Cons.IH [of "r - k" "Suc i"] Cons.prems False by fastforce
    then show ?thesis using False by (intro exI [of _ "Suc j"] exI [of _ q]) (simp add: k sub Let_def)
  qed
qed simp

text \<open>
  A channel that has played a list of whole-second lengths on repeat since its anchor
  joins it exactly where it would stand: the items skipped and the time into the next one add up
  to the time since the anchor modulo the length of the list.
\<close>

theorem phase_is_exact:
  assumes "0 < sum_list ks" and "sum_list ks < 2 ^ 53" and "0 < n" and "n < 2 ^ 53"
  shows "\<exists>i r. phase_at seconds_f64 anchor (anchor + int (dur_of_secs n)) (map dur_of_secs ks) = (i, seconds_f64 (of_nat r)) \<and>
    i < length ks \<and> r < ks ! i \<and> sum_list (take i ks) + r = n mod sum_list ks"
proof -
  have "sum_secs (map dur_of_secs ks) = of_nat (sum_list ks)"
    using sum_secs_whole [of 0 ks] assms(2) by (simp add: sum_secs_def)
  moreover have "0 < dur_of_secs n" using assms(3) by (simp add: dur_of_secs_def)
  moreover have "\<not> (of_nat (sum_list ks) :: rat) \<le> 0"
    unfolding not_le of_nat_0_less_iff by (rule assms(1))
  ultimately have "phase_at seconds_f64 anchor (anchor + int (dur_of_secs n)) (map dur_of_secs ks) =
      phase_walk seconds_f64 0 (of_nat (n mod sum_list ks)) (map dur_of_secs ks)"
    by (simp add: phase_at_def as_secs_whole [OF assms(4)] f64_rem_nat del: of_nat_le_0_iff)
  with phase_walk_whole [of "n mod sum_list ks" ks seconds_f64 0] assms show ?thesis by simp
qed

theorem phase_is_exact_witness:
  "\<exists>i r. phase_at floor_nanos (at_unix 0) (at_unix 0 + int (dur_of_secs 8000)) (map dur_of_secs [3600, 1800]) = (i, floor_nanos (of_nat r)) \<and>
    i < length [3600::nat, 1800] \<and> r < [3600, 1800] ! i \<and> sum_list (take i [3600, 1800]) + r = 8000 mod sum_list [3600, 1800]"
  by (rule phase_is_exact) simp_all

end
