(* ===== verification/Emit.thy ===== *)
theory Emit
  imports Playout Tz
begin

text \<open>
  \<open>emit.rs\<close> and \<open>scan.rs\<close>: the chunk files of a channel's timeline. A generation folds its items
  into the file of the chunk they fall in and names the file by what it covers; the sweep drops
  files off either end of the window; the scan finds the frontier and the first hole.

  The output folder is the list of its chunk files, in directory order: a name
  \<open>{start}_{finish}.json\<close> (nanosecond instants, so a name is its two instants) and the items of the
  file, \<open>None\<close> when it cannot be read as a playout. Files of other names are no candidates. A write
  or delete takes place; an error of the file system is not modelled.
\<close>

section \<open>The folder\<close>

record chunk_file =
  cf_start :: instant
  cf_finish :: instant
  cf_items :: "playout_item list option"

type_synonym output_folder = "chunk_file list"

definition scan_output_folder :: "output_folder \<Rightarrow> chunk_file list" where
  "scan_output_folder folder = sort_key cf_start folder"

definition same_path :: "chunk_file \<Rightarrow> chunk_file \<Rightarrow> bool" where
  "same_path f g \<longleftrightarrow> cf_start f = cf_start g \<and> cf_finish f = cf_finish g"

text \<open>A file of the same name is replaced.\<close>

definition put_file :: "chunk_file \<Rightarrow> output_folder \<Rightarrow> output_folder" where
  "put_file f folder = filter (\<lambda>g. \<not> same_path g f) folder @ [f]"

definition read_chunk_items :: "output_folder \<Rightarrow> instant \<Rightarrow> playout_item list result" where
  "read_chunk_items folder chunk_start =
     (case find (\<lambda>f. cf_start f = chunk_start) (scan_output_folder folder) of
        None \<Rightarrow> Inr []
      | Some f \<Rightarrow> (case cf_items f of None \<Rightarrow> Inl ''playout corrupt'' | Some items \<Rightarrow> Inr items))"

definition remove_other_chunk_files :: "output_folder \<Rightarrow> instant \<Rightarrow> chunk_file \<Rightarrow> output_folder" where
  "remove_other_chunk_files folder chunk_start keep =
     filter (\<lambda>f. \<not> (cf_start f = chunk_start \<and> \<not> same_path f keep)) folder"

section \<open>Writing a generation\<close>

text \<open>The file a chunk's items are written to: named by its end once they reach it, by their last finish before.\<close>

definition chunk_of_items :: "instant \<Rightarrow> instant \<Rightarrow> playout_item list \<Rightarrow> chunk_file" where
  "chunk_of_items chunk_start chunk_end items =
     (let content_end = (if items = [] then chunk_start else pi_finish (last items)) in
      \<lparr>cf_start = chunk_start, cf_finish = (if chunk_end \<le> content_end then chunk_end else content_end),
       cf_items = Some items\<rparr>)"

type_synonym rule_items = "instant \<Rightarrow> instant \<Rightarrow> instant \<Rightarrow> playout_item list"

text \<open>
  The loop returns the folder beside the written paths or the error; \<open>None\<close> is a loop that does not
  end. \<open>covering\<close> is the rule's \<open>items_covering\<close>.
\<close>

partial_function (option) emit_loop ::
  "rule_items \<Rightarrow> instant \<Rightarrow> zone \<Rightarrow> nat \<Rightarrow> instant \<Rightarrow> instant \<Rightarrow> output_folder \<Rightarrow> (instant \<times> instant) list
     \<Rightarrow> (output_folder \<times> (instant \<times> instant) list result) option" where
  "emit_loop covering anchor tz hours until cursor folder written =
     (if cursor < until
      then case chunk_boundary_at_or_before cursor hours tz of
          None \<Rightarrow> None
        | Some (Inl e) \<Rightarrow> Some (folder, Inl e)
        | Some (Inr chunk_start) \<Rightarrow>
            (case add_chunk chunk_start hours tz of
               Inl e \<Rightarrow> Some (folder, Inl e)
             | Inr chunk_end \<Rightarrow>
                 (case read_chunk_items folder chunk_start of
                    Inl e \<Rightarrow> Some (folder, Inl e)
                  | Inr old \<Rightarrow>
                      let items = old @ covering anchor cursor chunk_end in
                      if items = [] then Some (folder, Inr written)
                      else let f = chunk_of_items chunk_start chunk_end items in
                        emit_loop covering anchor tz hours until chunk_end
                          (remove_other_chunk_files (put_file f folder) chunk_start f)
                          (written @ [(cf_start f, cf_finish f)])))
      else Some (folder, Inr written))"

definition emit_window ::
  "rule_items \<Rightarrow> instant \<Rightarrow> zone \<Rightarrow> nat \<Rightarrow> instant \<Rightarrow> instant \<Rightarrow> output_folder
     \<Rightarrow> (output_folder \<times> (instant \<times> instant) list result) option" where
  "emit_window covering anchor tz hours start until folder = emit_loop covering anchor tz hours until start folder []"

section \<open>The frontier and the sweep\<close>

definition max_of :: "instant list \<Rightarrow> instant option" where
  "max_of ts = (if ts = [] then None else Some (fold max (tl ts) (hd ts)))"

text \<open>Only the last file is opened; one that cannot be read counts by its name.\<close>

definition highest_finish :: "chunk_file list \<Rightarrow> instant option" where
  "highest_finish files =
     (if files = [] then None
      else let f = last files;
               named = (case max_of (map cf_finish (butlast files)) of None \<Rightarrow> cf_finish f | Some m \<Rightarrow> m);
               last_finish = (case Option.bind (cf_items f) (\<lambda>items. max_of (map pi_finish items)) of
                                None \<Rightarrow> cf_finish f
                              | Some item_finish \<Rightarrow> if cf_finish f < item_finish then item_finish else cf_finish f)
        in Some (max named last_finish))"

record sweep_counts =
  sw_elapsed :: nat
  sw_unreachable :: nat

definition sweep_total :: "sweep_counts \<Rightarrow> nat" where
  "sweep_total c = sw_elapsed c + sw_unreachable c"

definition unreachable_after :: "instant \<Rightarrow> nat \<Rightarrow> zone \<Rightarrow> instant result option" where
  "unreachable_after target hours tz =
     map_option (\<lambda>res. bind_res res (\<lambda>target_chunk.
       bind_res (add_chunk target_chunk hours tz) (\<lambda>headroom. add_chunk headroom hours tz)))
       (chunk_boundary_at_or_before target hours tz)"

definition swept :: "instant \<Rightarrow> instant \<Rightarrow> chunk_file \<Rightarrow> bool" where
  "swept cutoff unreachable f \<longleftrightarrow> cf_finish f < cutoff \<or> unreachable \<le> cf_start f"

definition sweep_window :: "output_folder \<Rightarrow> nat \<Rightarrow> instant \<Rightarrow> instant \<Rightarrow> output_folder \<times> sweep_counts" where
  "sweep_window folder retention_days unreachable now =
     (let cutoff = now - int retention_days * 86400 * nanos_per_sec;
          gone = filter (swept cutoff unreachable) (scan_output_folder folder)
      in (filter (\<lambda>f. \<not> swept cutoff unreachable f) folder,
          \<lparr>sw_elapsed = length (filter (\<lambda>f. cf_finish f < cutoff) gone),
           sw_unreachable = length (filter (\<lambda>f. \<not> cf_finish f < cutoff) gone)\<rparr>))"

section \<open>The first hole\<close>

text \<open>The spans of the items of the files worth opening; a file that cannot be read ends the scan.\<close>

fun gather_spans :: "instant \<Rightarrow> instant \<Rightarrow> chunk_file list \<Rightarrow> (instant \<times> instant) list result" where
  "gather_spans now horizon [] = Inr []"
| "gather_spans now horizon (f # files) =
     (if cf_finish f \<le> now \<or> horizon \<le> cf_start f then gather_spans now horizon files
      else case cf_items f of
        None \<Rightarrow> Inl ''playout corrupt''
      | Some items \<Rightarrow>
          bind_res (gather_spans now horizon files) (\<lambda>spans.
            Inr (map (\<lambda>p. (pi_start p, pi_finish p)) (filter (\<lambda>p. now < pi_finish p \<and> pi_start p < horizon) items) @ spans)))"

fun hole_walk :: "instant \<Rightarrow> instant \<Rightarrow> (instant \<times> instant) list \<Rightarrow> instant option" where
  "hole_walk horizon covered_to [] = None"
| "hole_walk horizon covered_to ((s, f) # spans) =
     (if covered_to < s then Some covered_to
      else let covered_to = (if covered_to < f then f else covered_to) in
        if horizon \<le> covered_to then None else hole_walk horizon covered_to spans)"

definition first_coverage_gap :: "output_folder \<Rightarrow> instant \<Rightarrow> instant \<Rightarrow> instant option result" where
  "first_coverage_gap folder now horizon =
     (if horizon \<le> now then Inr None
      else bind_res (gather_spans now horizon (scan_output_folder folder)) (\<lambda>spans.
        Inr (hole_walk horizon now (sort_key fst spans))))"

end
