(* ===== verification/EmitFacts.thy ===== *)
theory EmitFacts
  imports Emit
begin

text \<open>
  The guarantees of the written timeline: the two-stage lookup of ETV-next (a file whose name
  spans the instant, then an item that does) finds every instant a generation covers, over a
  chunk grid stated as a locale; and the frontier, the sweep and the first hole are what their
  documentation says.
\<close>

section \<open>The chunk grid\<close>

locale chunk_grid =
  fixes cs :: "instant \<Rightarrow> instant" and ce :: "instant \<Rightarrow> instant"
  assumes within: "cs t \<le> t \<and> t < ce t"
    and same_chunk: "cs t \<le> u \<Longrightarrow> u < ce t \<Longrightarrow> cs u = cs t \<and> ce u = ce t"
begin

lemma cs_cs: "cs (cs t) = cs t" "ce (cs t) = ce t"
  using within [of t] same_chunk [of t "cs t"] by auto

lemma chunk_apart:
  assumes "cs t \<noteq> cs u" and "t < u"
  shows "ce t \<le> cs u"
proof (rule ccontr)
  assume "\<not> ce t \<le> cs u"
  define v where "v = max (cs u) (cs t)"
  have "cs t \<le> v" "v < ce t" using \<open>\<not> ce t \<le> cs u\<close> within [of t] by (auto simp: v_def)
  then have "cs v = cs t" using same_chunk by blast
  moreover have "cs u \<le> v" "v < ce u" using assms(2) within [of t] within [of u] by (auto simp: v_def)
  then have "cs v = cs u" using same_chunk by blast
  ultimately show False using assms(1) by simp
qed

lemma cs_ce: "cs (ce t) = ce t"
proof (cases "cs t = cs (ce t)")
  case True
  have "ce t = ce (ce t)" using cs_cs(2) [of t] cs_cs(2) [of "ce t"] True by simp
  then show ?thesis using within [of "ce t"] by simp
next
  case False
  then show ?thesis using chunk_apart [of t "ce t"] within [of t] within [of "ce t"] by simp
qed

end

text \<open>The grid of a zone of one offset.\<close>

definition grid_point :: "int \<Rightarrow> nat \<Rightarrow> date \<Rightarrow> nat \<Rightarrow> instant" where
  "grid_point off h d k = at_unix (d * 86400 + min 86400 (int (k * h) * 3600) - off)"

definition grid_index :: "int \<Rightarrow> nat \<Rightarrow> instant \<Rightarrow> nat" where
  "grid_index off h t = nat (((unix_timestamp t + off) mod 86400) div 3600) div h"

definition grid_start :: "int \<Rightarrow> nat \<Rightarrow> instant \<Rightarrow> instant" where
  "grid_start off hours t = grid_point off (max hours 1) ((unix_timestamp t + off) div 86400) (grid_index off (max hours 1) t)"

definition grid_end :: "int \<Rightarrow> nat \<Rightarrow> instant \<Rightarrow> instant" where
  "grid_end off hours t = grid_point off (max hours 1) ((unix_timestamp t + off) div 86400) (Suc (grid_index off (max hours 1) t))"

lemma next_hour_le: "a < b \<Longrightarrow> (int a + 1) * 3600 \<le> int b * 3600"
  by simp

lemma day_window:
  fixes s q m b :: int
  assumes "s = q * 86400 + m" and "m < 86400"
  shows "b \<le> m \<Longrightarrow> q * 86400 + min 86400 b \<le> s" and "m < b \<Longrightarrow> s < q * 86400 + min 86400 b"
  using assms by auto

lemma hour_split:
  fixes y :: int
  assumes "0 < h" and "0 \<le> y" and "y < 86400"
  defines "k \<equiv> nat (y div 3600) div h"
  shows "int (k * h) * 3600 \<le> y" "y < int (Suc k * h) * 3600" "k * h < 24"
proof -
  define H where "H = nat (y div 3600)"
  have H: "int H * 3600 \<le> y" "y < (int H + 1) * 3600"
    using assms(2) less_next_multiple [of 3600 y] by (simp_all add: H_def pos_imp_zdiv_nonneg_iff)
  have "k * h \<le> H" by (simp add: k_def H_def)
  then have kh: "int (k * h) * 3600 \<le> int H * 3600" by (simp only: mult_right_mono of_nat_le_iff)
  from kh H(1) show "int (k * h) * 3600 \<le> y" by (rule order_trans)
  then show "k * h < 24" using assms(3) by linarith
  have "H < Suc k * h" using assms(1) by (simp add: k_def H_def dividend_less_div_times)
  then have "(int H + 1) * 3600 \<le> int (Suc k * h) * 3600" by (rule next_hour_le)
  with H(2) show "y < int (Suc k * h) * 3600" by (rule less_le_trans)
qed

lemma grid_contains:
  assumes "0 < h"
  shows "grid_point off h ((unix_timestamp t + off) div 86400) (grid_index off h t) \<le> t"
    and "t < grid_point off h ((unix_timestamp t + off) div 86400) (Suc (grid_index off h t))"
    and "grid_index off h t * h < 24"
proof -
  define s where "s = unix_timestamp t + off"
  have s: "s = s div 86400 * 86400 + s mod 86400" by simp
  note split = hour_split [OF assms, of "s mod 86400", folded s_def]
  have idx: "grid_index off h t = nat (s mod 86400 div 3600) div h" by (simp add: grid_index_def s_def)
  show "grid_index off h t * h < 24" using split(3) by (simp add: idx)
  note win = day_window [OF s pos_mod_bound]
  have "s div 86400 * 86400 + min 86400 (int (grid_index off h t * h) * 3600) \<le> s"
    unfolding idx by (rule win(1) [OF _ split(1)]) simp_all
  then show "grid_point off h ((unix_timestamp t + off) div 86400) (grid_index off h t) \<le> t"
    unfolding grid_point_def at_unix_le_iff_timestamp s_def diff_le_eq .
  have "s < s div 86400 * 86400 + min 86400 (int (Suc (grid_index off h t) * h) * 3600)"
    unfolding idx by (rule win(2) [OF _ split(2)]) simp_all
  then show "t < grid_point off h ((unix_timestamp t + off) div 86400) (Suc (grid_index off h t))"
    unfolding grid_point_def less_at_unix_iff s_def less_diff_eq .
qed

lemma grid_point_mono: "j \<le> k \<Longrightarrow> grid_point off h d j \<le> grid_point off h d k"
proof -
  assume "j \<le> k"
  then have "int (j * h) * 3600 \<le> int (k * h) * 3600" by (simp only: mult_right_mono of_nat_le_iff mult_le_mono1)
  then have "min 86400 (int (j * h) * 3600) \<le> min 86400 (int (k * h) * 3600)" by linarith
  then show ?thesis by (simp add: grid_point_def)
qed

lemma grid_unique:
  assumes "0 < h" and "k * h < 24" and "grid_point off h d k \<le> u" and "u < grid_point off h d (Suc k)"
  shows "(unix_timestamp u + off) div 86400 = d" and "grid_index off h u = k"
proof -
  have bounds: "0 \<le> int (k * h) * 3600" "min 86400 (int (Suc k * h) * 3600) \<le> 86400" by simp_all
  have "d * 86400 + min 86400 (int (k * h) * 3600) - off \<le> unix_timestamp u"
    using assms(3) unfolding grid_point_def at_unix_le_iff_timestamp .
  moreover have "unix_timestamp u < d * 86400 + min 86400 (int (Suc k * h) * 3600) - off"
    using assms(4) unfolding grid_point_def less_at_unix_iff .
  ultimately show d: "(unix_timestamp u + off) div 86400 = d"
    using bounds by (intro int_div_pos_eq [of _ _ _ "unix_timestamp u + off - d * 86400"]) linarith+
  have "grid_point off h d (grid_index off h u) \<le> u" "u < grid_point off h d (Suc (grid_index off h u))"
    using grid_contains [OF assms(1), where off = off and t = u] unfolding d by simp_all
  then have "\<not> Suc k \<le> grid_index off h u" "\<not> Suc (grid_index off h u) \<le> k"
    using assms(3,4) grid_point_mono [of "Suc k" "grid_index off h u" off h d]
      grid_point_mono [of "Suc (grid_index off h u)" k off h d] by linarith+
  then show "grid_index off h u = k" by simp
qed

interpretation fixed_grid: chunk_grid "grid_start off hours" "grid_end off hours" for off hours
proof
  fix t u
  have h: "0 < max hours 1" by simp
  show "grid_start off hours t \<le> t \<and> t < grid_end off hours t"
    unfolding grid_start_def grid_end_def using grid_contains [OF h] by blast
  assume "grid_start off hours t \<le> u" "u < grid_end off hours t"
  then show "grid_start off hours u = grid_start off hours t \<and> grid_end off hours u = grid_end off hours t"
    unfolding grid_start_def grid_end_def using grid_unique [OF h grid_contains(3) [OF h, where t = t and off = off]]
    by (simp only: conj_commute)
qed

text \<open>What the chunk functions of a zone of one offset compute.\<close>

lemma grid_point_local:
  assumes "zn_offset tz = (\<lambda>_. off)" and "k * h < 24"
  shows "local_date tz (grid_point off h d k) = d" and "local_hour tz (grid_point off h d k) = k * h"
proof -
  have "int m \<le> 23" if "m < 24" for m using that by simp
  from this [OF assms(2)] have kh: "int (k * h) \<le> 23" .
  define x where "x = int (k * h)"
  have x: "0 \<le> x" "x \<le> 23" "nat x = k * h" using kh unfolding x_def by (simp_all only: nat_int of_nat_0_le_iff)
  then have "min 86400 (x * 3600) = x * 3600" by simp
  then have secs: "zone_secs tz (grid_point off h d k) = d * 86400 + x * 3600"
    by (simp add: grid_point_def local_secs_def assms(1) x_def [symmetric] del: of_nat_mult)
  have "(d * 86400 + x * 3600) div 86400 = d" "(d * 86400 + x * 3600) mod 86400 = x * 3600"
    using x by simp_all
  then show "local_date tz (grid_point off h d k) = d" "local_hour tz (grid_point off h d k) = k * h"
    using x(3) by (simp_all add: local_date_def local_hour_def secs)
qed

lemma grid_point_full: "24 \<le> k * h \<Longrightarrow> grid_point off h d k = at_unix (d * 86400 + 86400 - off)"
proof -
  have "min 86400 (int m * 3600) = 86400" if "24 \<le> m" for m using that by simp
  then show "24 \<le> k * h \<Longrightarrow> grid_point off h d k = at_unix (d * 86400 + 86400 - off)" unfolding grid_point_def by presburger
qed

lemma add_chunk_grid:
  assumes off: "zn_offset tz = (\<lambda>_. off)" and "0 < hours" and "hours \<le> 24" and "k * hours < 24" and "d < date_max"
  shows "add_chunk (grid_point off hours d k) hours tz = Inr (grid_point off hours d (Suc k))"
proof -
  note loc = grid_point_local [OF off assms(4), of d]
  have h: "max hours 1 mod 256 = hours" using assms(2,3) by simp
  have later: "grid_point off hours d (Suc k) =
      (if 24 \<le> Suc k * hours then at_unix ((d + 1) * 86400 - off) else at_unix (d * 86400 + int (Suc k * hours) * 3600 - off))"
  proof -
    have "min 86400 (int m * 3600) = (if 24 \<le> m then 86400 else int m * 3600)" for m by simp
    then show ?thesis by (simp add: grid_point_def algebra_simps del: of_nat_mult of_nat_Suc)
  qed
  show ?thesis
    using assms(2,5) unfolding add_chunk_def h loc Let_def later
    by (simp add: to_utc_fixed [OF off] next_day_def)
qed

lemma local_date_fixed: "zn_offset tz = (\<lambda>_. off) \<Longrightarrow> local_date tz t = (unix_timestamp t + off) div 86400"
  by (simp add: local_date_def local_secs_def)

lemma chunk_walk_grid:
  assumes off: "zn_offset tz = (\<lambda>_. off)" and h: "0 < hours" "hours \<le> 24" and day: "local_date tz now = d" "d < date_max"
    and "k * hours < 24" and "grid_point off hours d k \<le> now"
  shows "chunk_walk now hours tz (grid_point off hours d k) = Some (Inr (grid_start off hours now))"
  using assms(6,7)
proof (induction "24 - k * hours" arbitrary: k rule: less_induct)
  case less
  note step = add_chunk_grid [OF off h less.prems(1) day(2)]
  have d: "(unix_timestamp now + off) div 86400 = d" using day(1) local_date_fixed [OF off] by simp
  show ?case
  proof (cases "now < grid_point off hours d (Suc k)")
    case True
    then have "grid_index off hours now = k" using grid_unique(2) [OF h(1) less.prems] by simp
    moreover have "max hours 1 = hours" using h(1) by simp
    ultimately have "grid_start off hours now = grid_point off hours d k" using d by (simp add: grid_start_def)
    then show ?thesis using True step by (subst chunk_walk.simps) simp
  next
    case False
    have more: "Suc k * hours < 24"
    proof (rule ccontr)
      assume "\<not> Suc k * hours < 24"
      then have "24 \<le> Suc k * hours" by simp
      moreover from this have "24 \<le> Suc (grid_index off hours now + k) * hours" by (simp add: algebra_simps)
      ultimately have "grid_point off hours d (Suc k) = grid_point off hours d (Suc (grid_index off hours now + k))"
        by (simp only: grid_point_full)
      moreover have "now < grid_point off hours d (Suc (grid_index off hours now))"
        using grid_contains(2) [OF h(1), where off = off and t = now] d by simp
      ultimately show False
        using False grid_point_mono [of "Suc (grid_index off hours now)" "Suc (grid_index off hours now + k)" off hours d] by simp
    qed
    have "24 - Suc k * hours < 24 - k * hours" using h(1) less.prems(1) by simp
    from less.hyps [OF this more] False have "chunk_walk now hours tz (grid_point off hours d (Suc k)) = Some (Inr (grid_start off hours now))"
      by simp
    then show ?thesis using False step by (subst chunk_walk.simps) simp
  qed
qed

lemma chunk_of_instant:
  assumes off: "zn_offset tz = (\<lambda>_. off)" and h: "0 < hours" "hours \<le> 24" and day: "local_date tz t < date_max"
  shows "chunk_boundary_at_or_before t hours tz = Some (Inr (grid_start off hours t))"
    and "add_chunk (grid_start off hours t) hours tz = Inr (grid_end off hours t)"
proof -
  have start: "at_unix (local_date tz t * 86400 - off) = grid_point off hours (local_date tz t) 0" by (simp add: grid_point_def)
  with midnight_fixed [OF off, of t] chunk_walk_grid [OF off h refl day, of 0]
  show "chunk_boundary_at_or_before t hours tz = Some (Inr (grid_start off hours t))"
    by (simp add: chunk_boundary_at_or_before_def)
  have "max hours 1 = hours" using h(1) by simp
  then show "add_chunk (grid_start off hours t) hours tz = Inr (grid_end off hours t)"
    using add_chunk_grid [OF off h grid_contains(3) [OF h(1)] day] by (simp add: grid_start_def grid_end_def local_date_fixed [OF off])
qed

section \<open>Honest names\<close>

text \<open>
  A file is honest when it starts its chunk and is named by what it covers; ETV-next's lookup finds
  an instant when some file's name spans it and every such file holds an item spanning it.
\<close>

definition honest_file :: "(instant \<Rightarrow> instant) \<Rightarrow> (instant \<Rightarrow> instant) \<Rightarrow> chunk_file \<Rightarrow> bool" where
  "honest_file cs ce f \<longleftrightarrow>
     (case cf_items f of
        None \<Rightarrow> False
      | Some items \<Rightarrow> items \<noteq> [] \<and> cs (cf_start f) = cf_start f \<and>
          cf_finish f = min (ce (cf_start f)) (pi_finish (last items)))"

definition honest_folder :: "(instant \<Rightarrow> instant) \<Rightarrow> (instant \<Rightarrow> instant) \<Rightarrow> output_folder \<Rightarrow> bool" where
  "honest_folder cs ce folder \<longleftrightarrow> distinct (map cf_start folder) \<and> (\<forall>f\<in>set folder. honest_file cs ce f)"

definition airs :: "instant \<Rightarrow> playout_item \<Rightarrow> bool" where
  "airs t p \<longleftrightarrow> pi_start p \<le> t \<and> t < pi_finish p"

definition spans_instant :: "instant \<Rightarrow> chunk_file \<Rightarrow> bool" where
  "spans_instant t f \<longleftrightarrow> cf_start f \<le> t \<and> t < cf_finish f"

definition found :: "output_folder \<Rightarrow> instant \<Rightarrow> bool" where
  "found folder t \<longleftrightarrow>
     (\<exists>f\<in>set folder. spans_instant t f) \<and>
     (\<forall>f\<in>set folder. spans_instant t f \<longrightarrow> (\<exists>items. cf_items f = Some items \<and> (\<exists>p\<in>set items. airs t p)))"

text \<open>What the emission relies on of a rule: it covers its sequence, and its items run forward.\<close>

definition covers_sequence :: "rule_items \<Rightarrow> instant \<Rightarrow> instant \<Rightarrow> bool" where
  "covers_sequence covering anchor content_end \<longleftrightarrow>
     (\<forall>s u t. s \<le> t \<and> t < u \<and> anchor \<le> t \<and> t < content_end \<longrightarrow> (\<exists>p\<in>set (covering anchor s u). airs t p)) \<and>
     (\<forall>s u. \<forall>p\<in>set (covering anchor s u). s < pi_finish p \<and> pi_finish p \<le> pi_finish (last (covering anchor s u)))"

lemma find_start_iff:
  assumes "distinct (map cf_start folder)"
  shows "find (\<lambda>f. cf_start f = c) (scan_output_folder folder) = Some f \<longleftrightarrow> f \<in> set folder \<and> cf_start f = c"
proof
  assume "find (\<lambda>f. cf_start f = c) (scan_output_folder folder) = Some f"
  from find_SomeD [OF this] show "f \<in> set folder \<and> cf_start f = c" by (simp add: scan_output_folder_def)
next
  assume f: "f \<in> set folder \<and> cf_start f = c"
  then obtain g where g: "find (\<lambda>f. cf_start f = c) (scan_output_folder folder) = Some g"
    by (cases "find (\<lambda>f. cf_start f = c) (scan_output_folder folder)") (auto simp: find_None_iff scan_output_folder_def)
  then have "g \<in> set folder" "cf_start g = c" using find_SomeD [OF g] by (simp_all add: scan_output_folder_def)
  then have "g = f" using f assms by (auto simp: distinct_map inj_on_def)
  with g show "find (\<lambda>f. cf_start f = c) (scan_output_folder folder) = Some f" by simp
qed

context chunk_grid
begin

lemma span_in_chunk: "honest_file cs ce f \<Longrightarrow> spans_instant t f \<Longrightarrow> cf_start f = cs t"
  using same_chunk [of "cf_start f" t] by (auto simp: honest_file_def spans_instant_def split: option.splits)

lemma found_iff:
  assumes "honest_folder cs ce folder"
  shows "found folder t \<longleftrightarrow>
    (\<exists>f\<in>set folder. cf_start f = cs t \<and> t < cf_finish f \<and> (\<exists>items. cf_items f = Some items \<and> (\<exists>p\<in>set items. airs t p)))"
proof -
  have one: "f = g" if "f \<in> set folder" "g \<in> set folder" "spans_instant t f" "spans_instant t g" for f g
  proof -
    have "cf_start f = cf_start g"
      using span_in_chunk assms that unfolding honest_folder_def by metis
    then show ?thesis using assms that(1,2) by (auto simp: honest_folder_def distinct_map inj_on_def)
  qed
  have spans: "spans_instant t f \<longleftrightarrow> cf_start f = cs t \<and> t < cf_finish f" if "f \<in> set folder" for f
    using span_in_chunk [of f t] assms that within [of t] by (auto simp: honest_folder_def spans_instant_def)
  show ?thesis
  proof
    assume "found folder t"
    then obtain f where "f \<in> set folder" "spans_instant t f" "\<exists>items. cf_items f = Some items \<and> (\<exists>p\<in>set items. airs t p)"
      unfolding found_def by blast
    then show "\<exists>f\<in>set folder. cf_start f = cs t \<and> t < cf_finish f \<and> (\<exists>items. cf_items f = Some items \<and> (\<exists>p\<in>set items. airs t p))"
      using spans by blast
  next
    assume "\<exists>f\<in>set folder. cf_start f = cs t \<and> t < cf_finish f \<and> (\<exists>items. cf_items f = Some items \<and> (\<exists>p\<in>set items. airs t p))"
    then obtain f where f: "f \<in> set folder" "spans_instant t f" "\<exists>items. cf_items f = Some items \<and> (\<exists>p\<in>set items. airs t p)"
      using spans by blast
    then show "found folder t" unfolding found_def using one [OF f(1) _ f(2)] by blast
  qed
qed

text \<open>One turn of the loop: the chunk's file is replaced by the grown one.\<close>

lemma grown_folder:
  assumes "honest_folder cs ce folder" and "read_chunk_items folder (cs t) = Inr old" and "old @ new \<noteq> []"
  defines "f \<equiv> chunk_of_items (cs t) (ce t) (old @ new)"
  shows "remove_other_chunk_files (put_file f folder) (cs t) f = filter (\<lambda>g. cf_start g \<noteq> cs t) folder @ [f]"
    and "honest_folder cs ce (filter (\<lambda>g. cf_start g \<noteq> cs t) folder @ [f])"
proof -
  have f: "cf_start f = cs t" "cf_items f = Some (old @ new)" "cf_finish f = min (ce t) (pi_finish (last (old @ new)))"
    using assms(3) by (simp_all add: f_def chunk_of_items_def Let_def min_def del: append_is_Nil_conv)
  show "remove_other_chunk_files (put_file f folder) (cs t) f = filter (\<lambda>g. cf_start g \<noteq> cs t) folder @ [f]"
    by (auto simp: remove_other_chunk_files_def put_file_def same_path_def f(1) intro!: filter_cong)
  have "honest_file cs ce f" using f assms(3) cs_cs by (simp add: honest_file_def)
  moreover have "distinct (map cf_start (filter (\<lambda>g. cf_start g \<noteq> cs t) folder))"
    using assms(1) by (simp add: honest_folder_def distinct_map_filter)
  ultimately show "honest_folder cs ce (filter (\<lambda>g. cf_start g \<noteq> cs t) folder @ [f])"
    using assms(1) f(1) by (auto simp: honest_folder_def)
qed

lemma honest_reads: "honest_folder cs ce folder \<Longrightarrow> \<exists>old. read_chunk_items folder c = Inr old"
  using find_start_iff [of folder c]
  by (auto simp: read_chunk_items_def honest_folder_def honest_file_def split: option.split)

lemma read_file:
  "honest_folder cs ce folder \<Longrightarrow> f \<in> set folder \<Longrightarrow> cf_start f = c \<Longrightarrow> read_chunk_items folder c = Inr old \<Longrightarrow>
     cf_items f = Some old"
  using find_start_iff [of folder c f] by (auto simp: read_chunk_items_def honest_folder_def split: option.splits)

lemma grown_finds:
  assumes honest: "honest_folder cs ce folder" and covers: "covers_sequence covering anchor content_end" and "anchor \<le> cursor"
    and read: "read_chunk_items folder (cs cursor) = Inr old"
    and items: "items = old @ covering anchor cursor (ce cursor)" "items \<noteq> []"
  defines "folder' \<equiv> filter (\<lambda>g. cf_start g \<noteq> cs cursor) folder @ [chunk_of_items (cs cursor) (ce cursor) items]"
  shows "t < cursor \<Longrightarrow> found folder t \<Longrightarrow> found folder' t"
    and "cursor \<le> t \<Longrightarrow> t < ce cursor \<Longrightarrow> t < content_end \<Longrightarrow> found folder' t"
proof -
  let ?new = "covering anchor cursor (ce cursor)"
  define f where "f = chunk_of_items (cs cursor) (ce cursor) items"
  have f: "cf_start f = cs cursor" "cf_items f = Some items" "cf_finish f = min (ce cursor) (pi_finish (last items))" "f \<in> set folder'"
    using items(2) by (simp_all add: f_def folder'_def chunk_of_items_def Let_def min_def)
  have honest': "honest_folder cs ce folder'"
    using grown_folder(2) [OF honest read] items by (simp add: folder'_def)
  have ahead: "cursor < pi_finish (last ?new)" if "?new \<noteq> []"
    using covers last_in_set [OF that] unfolding covers_sequence_def by blast
  show "found folder' t" if past: "t < cursor" "found folder t"
  proof -
    obtain g its p where g: "g \<in> set folder" "cf_start g = cs t" "t < cf_finish g" "cf_items g = Some its" "p \<in> set its" "airs t p"
      using past(2) found_iff [OF honest] by blast
    show ?thesis
    proof (cases "cs t = cs cursor")
      case False
      then have "g \<in> set folder'" using g by (simp add: folder'_def)
      with g show ?thesis unfolding found_iff [OF honest'] by blast
    next
      case True
      then have its: "its = old" using read_file [OF honest g(1) _ read] g(2,4) by simp
      then have g': "cf_finish g = min (ce cursor) (pi_finish (last old))" "old \<noteq> []"
        using honest g(1,2,4) True cs_cs by (auto simp: honest_folder_def honest_file_def)
      have "t < pi_finish (last items)"
        using g(3) g' ahead past(1) items(1) by (cases "?new = []") auto
      then have "t < cf_finish f" using f(3) g(3) g'(1) by simp
      moreover have "p \<in> set items" using g(5) its items(1) by simp
      ultimately show ?thesis using f(1,2,4) g(6) True unfolding found_iff [OF honest'] by metis
    qed
  qed
  show "found folder' t" if t: "cursor \<le> t" "t < ce cursor" "t < content_end"
  proof -
    have "cs t = cs cursor" using same_chunk [of cursor t] within [of cursor] t by simp
    moreover obtain p where p: "p \<in> set ?new" "airs t p"
      using covers t assms(3) unfolding covers_sequence_def by (meson order_trans)
    then have "t < pi_finish (last ?new)"
      using covers unfolding covers_sequence_def airs_def by (meson less_le_trans)
    then have "t < cf_finish f" using f(3) t(2) p(1) items(1) by (cases "?new = []") auto
    moreover have "p \<in> set items" using p(1) items(1) by simp
    ultimately show ?thesis using f(1,2,4) p(2) unfolding found_iff [OF honest'] by metis
  qed
qed

lemma emit_loop_ok:
  assumes grid: "\<And>t. t < until \<Longrightarrow> chunk_boundary_at_or_before t hours tz = Some (Inr (cs t)) \<and> add_chunk (cs t) hours tz = Inr (ce t)"
    and covers: "covers_sequence covering anchor content_end" and "anchor \<le> cursor" and "honest_folder cs ce folder"
  shows "\<exists>folder' w. emit_loop covering anchor tz hours until cursor folder written = Some (folder', Inr w) \<and>
    honest_folder cs ce folder' \<and> (\<forall>t < cursor. found folder t \<longrightarrow> found folder' t) \<and>
    (\<forall>t. cursor \<le> t \<and> t < until \<and> t < content_end \<longrightarrow> found folder' t)"
  using assms(3,4)
proof (induction "nat (until - cursor)" arbitrary: cursor folder written rule: less_induct)
  case less
  show ?case
  proof (cases "cursor < until")
    case False
    then show ?thesis using less.prems by (subst emit_loop.simps) auto
  next
    case True
    obtain old where old: "read_chunk_items folder (cs cursor) = Inr old" using honest_reads [OF less.prems(2)] by blast
    define items where "items = old @ covering anchor cursor (ce cursor)"
    note ahead = within [of cursor]
    show ?thesis
    proof (cases "items = []")
      case none: True
      have "content_end \<le> cursor"
      proof (rule ccontr)
        assume "\<not> content_end \<le> cursor"
        then have "\<exists>p\<in>set (covering anchor cursor (ce cursor)). airs cursor p"
          using covers less.prems(1) ahead unfolding covers_sequence_def by simp
        then show False using none by (simp add: items_def)
      qed
      moreover have "emit_loop covering anchor tz hours until cursor folder written = Some (folder, Inr written)"
        using True none grid [OF True] old by (subst emit_loop.simps) (simp add: items_def)
      ultimately show ?thesis using less.prems by auto
    next
      case False
      define folder' where "folder' = filter (\<lambda>g. cf_start g \<noteq> cs cursor) folder @ [chunk_of_items (cs cursor) (ce cursor) items]"
      have grown: "remove_other_chunk_files (put_file (chunk_of_items (cs cursor) (ce cursor) items) folder) (cs cursor)
          (chunk_of_items (cs cursor) (ce cursor) items) = folder'" "honest_folder cs ce folder'"
        using grown_folder [OF less.prems(2) old, of "covering anchor cursor (ce cursor)"] False by (simp_all add: items_def folder'_def)
      note finds = grown_finds [OF less.prems(2) covers less.prems(1) old items_def False, folded folder'_def]
      define f where "f = chunk_of_items (cs cursor) (ce cursor) items"
      have step: "emit_loop covering anchor tz hours until cursor folder written = emit_loop covering anchor tz hours until (ce cursor) folder' (written @ [(cf_start f, cf_finish f)])"
        using True False grid [OF True] old grown(1)
        by (subst emit_loop.simps) (simp add: Let_def items_def [symmetric] f_def [symmetric])
      have "nat (until - ce cursor) < nat (until - cursor)" "anchor \<le> ce cursor" using True ahead less.prems(1) by auto
      from less.hyps [OF this grown(2), of "written @ [(cf_start f, cf_finish f)]"] finds show ?thesis unfolding step using ahead
        by (smt (verit, best))
    qed
  qed
qed

end

text \<open>A sequential rule covers its sequence.\<close>

lemma sequential_covers:
  assumes "keeps_sign seconds_f64" and "sequential_new items durations = Inr sq"
  shows "covers_sequence (items_covering seconds_f64 decode sq) anchor (sequence_end seconds_f64 sq anchor)"
proof -
  let ?ts = "laid seconds_f64 sq anchor"
  note covering = items_covering_filter [OF assms(1), of decode sq anchor]
  note chain = laid_chained [OF assms(1), of anchor sq]
  note sq = sequential_newD [OF assms(2)]
  have "\<exists>p\<in>set (items_covering seconds_f64 decode sq anchor s u). airs t p"
    if "s \<le> t" "t < u" "anchor \<le> t" "t < sequence_end seconds_f64 sq anchor" for s u t
  proof -
    have "length (filter (\<lambda>(x, a, b). a \<le> t \<and> t < b) ?ts) = 1"
      using chained_on_air [OF chain, of t] that laid_end [of sq anchor seconds_f64] sq by simp
    then obtain x a b where "(x, a, b) \<in> set ?ts" "a \<le> t" "t < b"
      by (cases "filter (\<lambda>(x, a, b). a \<le> t \<and> t < b) ?ts") (fastforce dest!: filter_eq_ConsD)+
    then have "build_playout_item decode x a b \<in> set (items_covering seconds_f64 decode sq anchor s u)"
      "airs t (build_playout_item decode x a b)"
      using that by (auto simp: covering airs_def intro!: rev_image_eqI [where x = "(x, a, b)"])
    then show ?thesis by blast
  qed
  moreover have "s < pi_finish p \<and> pi_finish p \<le> pi_finish (last (items_covering seconds_f64 decode sq anchor s u))"
    if "p \<in> set (items_covering seconds_f64 decode sq anchor s u)" for s u p
  proof -
    have "sorted (map (\<lambda>(x, a, b). b) ts)" if "chained t ts" for t and ts :: "(resolved_item \<times> instant \<times> instant) list"
      using that by (induction t ts rule: chained.induct) (auto dest: chained_bounds)
    then have "sorted (map (\<lambda>(x, a, b). b) ?ts)" using chain by blast
    then have "sorted (map pi_finish (items_covering seconds_f64 decode sq anchor s u))"
      by (auto simp: covering comp_def case_prod_unfold intro: sorted_filter)
    then have "pi_finish p \<le> pi_finish (last (items_covering seconds_f64 decode sq anchor s u))"
      using that by (cases "items_covering seconds_f64 decode sq anchor s u" rule: rev_cases) (auto simp: sorted_append)
    moreover have "s < pi_finish p" using that by (auto simp: covering split: if_splits)
    ultimately show ?thesis by blast
  qed
  ultimately show ?thesis unfolding covers_sequence_def by blast
qed

lemma emission_found:
  assumes "zn_offset tz = (\<lambda>_. off)" and "0 < hours" and "hours \<le> 24" and "local_date tz until < date_max"
    and "keeps_sign seconds_f64" and "sequential_new items durations = Inr sq" and "anchor \<le> start"
    and "honest_folder (grid_start off hours) (grid_end off hours) folder"
  shows "\<exists>folder' written. emit_window (items_covering seconds_f64 decode sq) anchor tz hours start until folder = Some (folder', Inr written) \<and>
    honest_folder (grid_start off hours) (grid_end off hours) folder' \<and>
    (\<forall>t < start. found folder t \<longrightarrow> found folder' t) \<and>
    (\<forall>t. start \<le> t \<and> t < until \<and> t < sequence_end seconds_f64 sq anchor \<longrightarrow> found folder' t)"
proof -
  have "chunk_boundary_at_or_before t hours tz = Some (Inr (grid_start off hours t)) \<and>
      add_chunk (grid_start off hours t) hours tz = Inr (grid_end off hours t)" if "t < until" for t
    using chunk_of_instant [OF assms(1-3)] local_date_mono [OF assms(1), of t until] that assms(4) by simp
  from fixed_grid.emit_loop_ok [OF this sequential_covers [OF assms(5,6)] assms(7,8)]
  show ?thesis unfolding emit_window_def by blast
qed

text \<open>
  Claim C29. The timeline a generation writes is the one it lays. On an honestly named folder and in a
  zone that keeps one offset, emitting a window returns, leaves an honest folder, keeps every instant
  before the window that the lookup found, and makes the two-stage lookup find every instant of the
  window that the sequence covers. (In a zone that skips an hour the walk to a chunk may not
  return at all, see Tz.)
\<close>

theorem emitted_timeline_is_found:
  assumes "zn_offset tz = (\<lambda>_. off)" and "0 < hours" and "hours \<le> 24" and "local_date tz until < date_max"
    and "keeps_sign seconds_f64" and "sequential_new items durations = Inr sq" and "anchor \<le> start"
    and "honest_folder (grid_start off hours) (grid_end off hours) folder"
  shows "\<exists>folder' written. emit_window (items_covering seconds_f64 decode sq) anchor tz hours start until folder = Some (folder', Inr written) \<and>
    honest_folder (grid_start off hours) (grid_end off hours) folder' \<and>
    (\<forall>t < start. found folder t \<longrightarrow> found folder' t) \<and>
    (\<forall>t. start \<le> t \<and> t < until \<and> t < sequence_end seconds_f64 sq anchor \<longrightarrow> found folder' t)"
  using emission_found [OF assms] .

text \<open>An hour and a half from midnight into an empty folder of six-hour chunks.\<close>

theorem emitted_timeline_is_found_witness:
  "\<exists>folder' written. emit_window (items_covering floor_nanos (\<lambda>_. None) two_films) (at_unix 0) (fixed_zone 0) 6 (at_unix 0) (at_unix 5400) []
     = Some (folder', Inr written) \<and> honest_folder (grid_start 0 6) (grid_end 0 6) folder' \<and>
    (\<forall>t < at_unix 0. found [] t \<longrightarrow> found folder' t) \<and>
    (\<forall>t. at_unix 0 \<le> t \<and> t < at_unix 5400 \<and> t < sequence_end floor_nanos two_films (at_unix 0) \<longrightarrow> found folder' t)"
proof -
  have "local_date (fixed_zone 0) (at_unix 5400) < date_max"
    by (simp add: local_date_def local_secs_def date_max_def date_of_def days_before_year_def epoch_days_def)
  moreover have "honest_folder (grid_start 0 6) (grid_end 0 6) []" by (simp add: honest_folder_def)
  ultimately show ?thesis
    by (intro emitted_timeline_is_found [where items = "[plain_item ''a'' 0, plain_item ''b'' 1]" and durations = "[dur_of_secs 3600, dur_of_secs 1800]"])
      (simp_all add: floor_nanos_keeps_sign two_films_new [simplified])
qed

section \<open>The first hole\<close>

definition opened_spans :: "output_folder \<Rightarrow> instant \<Rightarrow> instant \<Rightarrow> (instant \<times> instant) set" where
  "opened_spans folder now horizon =
     (\<Union>f\<in>{f \<in> set folder. now < cf_finish f \<and> cf_start f < horizon}.
        (\<lambda>p. (pi_start p, pi_finish p)) `
          {p \<in> set (case cf_items f of None \<Rightarrow> [] | Some items \<Rightarrow> items). now < pi_finish p \<and> pi_start p < horizon})"

lemma opened_spans_Cons:
  "opened_spans (f # files) now horizon =
     (if cf_finish f \<le> now \<or> horizon \<le> cf_start f then {}
      else (\<lambda>p. (pi_start p, pi_finish p)) `
          {p \<in> set (case cf_items f of None \<Rightarrow> [] | Some items \<Rightarrow> items). now < pi_finish p \<and> pi_start p < horizon})
     \<union> opened_spans files now horizon"
proof -
  have "{g \<in> set (f # files). now < cf_finish g \<and> cf_start g < horizon} =
      (if cf_finish f \<le> now \<or> horizon \<le> cf_start f then {} else {f}) \<union> {g \<in> set files. now < cf_finish g \<and> cf_start g < horizon}"
    by auto
  then show ?thesis unfolding opened_spans_def by (simp only: UN_Un) simp
qed

lemma gather_spans_set:
  "gather_spans now horizon files = Inr spans \<Longrightarrow> set spans = opened_spans files now horizon"
proof (induction files arbitrary: spans)
  case (Cons f files)
  then show ?case by (auto simp: opened_spans_Cons bind_res_Inr_iff split: option.splits if_splits)
qed (simp add: opened_spans_def)

definition covered_by :: "(instant \<times> instant) set \<Rightarrow> instant \<Rightarrow> bool" where
  "covered_by spans u \<longleftrightarrow> (\<exists>(s, f)\<in>spans. s \<le> u \<and> u < f)"

definition content_after :: "(instant \<times> instant) set \<Rightarrow> instant \<Rightarrow> bool" where
  "content_after spans u \<longleftrightarrow> (\<exists>(s, f)\<in>spans. u < s)"

lemma covered_insert [simp]:
  "covered_by (insert (s, f) spans) u \<longleftrightarrow> s \<le> u \<and> u < f \<or> covered_by spans u" "\<not> covered_by {} u"
  "content_after (insert (s, f) spans) u \<longleftrightarrow> u < s \<or> content_after spans u" "\<not> content_after {} u"
  by (simp_all add: covered_by_def content_after_def)

lemma not_covered_before: "\<forall>x\<in>spans. u < fst x \<Longrightarrow> \<not> covered_by spans u"
  by (auto simp: covered_by_def)

definition hole_spec :: "(instant \<times> instant) set \<Rightarrow> instant \<Rightarrow> instant \<Rightarrow> instant option \<Rightarrow> bool" where
  "hole_spec spans c horizon result \<longleftrightarrow>
     (case result of
        Some g \<Rightarrow> c \<le> g \<and> (\<forall>u. c \<le> u \<and> u < g \<longrightarrow> covered_by spans u) \<and> \<not> covered_by spans g \<and> content_after spans g
      | None \<Rightarrow> \<forall>u. c \<le> u \<and> u < horizon \<longrightarrow> covered_by spans u \<or> \<not> content_after spans u)"

lemma hole_spec_Cons:
  assumes "hole_spec spans c' horizon result" and "s \<le> c" and "c' = (if c < f then f else c)"
  shows "hole_spec (insert (s, f) spans) c horizon result"
proof -
  have c': "c \<le> c'" "f \<le> c'" using assms(3) by auto
  have near: "s \<le> u \<and> u < f" if "c \<le> u" "u < c'" for u using that assms(2,3) by (auto split: if_splits)
  show ?thesis
  proof (cases result)
    case None
    have "covered_by spans u \<or> \<not> content_after spans u" if "c' \<le> u" "u < horizon" for u
      using assms(1) that unfolding hole_spec_def None by simp
    then show ?thesis using near assms(2) unfolding hole_spec_def None by (auto simp: not_le [symmetric])
  next
    case (Some g)
    have g: "c' \<le> g" "\<not> covered_by spans g" "content_after spans g" "covered_by spans u" if "c' \<le> u" "u < g" for u
      using assms(1) that unfolding hole_spec_def Some by simp_all
    have g': "c' \<le> g" "\<not> covered_by spans g" "content_after spans g"
      using assms(1) unfolding hole_spec_def Some by simp_all
    have "covered_by (insert (s, f) spans) u" if "c \<le> u" "u < g" for u
      using near [OF that(1)] g(4) [of u] that(2) by (cases "u < c'") auto
    then show ?thesis using g' c' unfolding hole_spec_def Some by auto
  qed
qed

lemma hole_walk_spec:
  "sorted (map fst spans) \<Longrightarrow> hole_spec (set spans) c horizon (hole_walk horizon c spans)"
proof (induction horizon c spans rule: hole_walk.induct)
  case (1 horizon c)
  then show ?case by (simp add: hole_spec_def)
next
  case (2 horizon c s f spans)
  define c' where "c' = (if c < f then f else c)"
  show ?case
  proof (cases "c < s")
    case True
    then have "\<forall>x\<in>set spans. c < fst x" using "2.prems" by force
    then have "\<not> covered_by (set spans) c" by (rule not_covered_before)
    with True show ?thesis by (simp add: hole_spec_def)
  next
    case False
    then have "hole_spec (set spans) c' horizon (if horizon \<le> c' then None else hole_walk horizon c' spans)"
      using "2.IH" [OF False c'_def] "2.prems" by (auto simp: hole_spec_def)
    from hole_spec_Cons [OF this _ c'_def, of s] False
    have "hole_spec (set ((s, f) # spans)) c horizon (if horizon \<le> c' then None else hole_walk horizon c' spans)" by simp
    moreover have "hole_walk horizon c ((s, f) # spans) = (if horizon \<le> c' then None else hole_walk horizon c' spans)"
      using False unfolding c'_def by (simp only: hole_walk.simps Let_def if_False)
    ultimately show ?thesis by (simp only:)
  qed
qed

text \<open>
  The scan finds the first hole exactly: over the items of the files it opens, a reported
  instant is covered by none, every instant from now up to it is covered, and content follows it;
  and when nothing is reported, every instant up to the horizon is covered or has nothing after it.
\<close>

theorem coverage_gap_is_first_hole:
  assumes "now < horizon" and "first_coverage_gap folder now horizon = Inr result"
  shows "case result of
      Some g \<Rightarrow> now \<le> g \<and> (\<forall>u. now \<le> u \<and> u < g \<longrightarrow> covered_by (opened_spans folder now horizon) u) \<and>
        \<not> covered_by (opened_spans folder now horizon) g \<and> content_after (opened_spans folder now horizon) g
    | None \<Rightarrow> \<forall>u. now \<le> u \<and> u < horizon \<longrightarrow>
        covered_by (opened_spans folder now horizon) u \<or> \<not> content_after (opened_spans folder now horizon) u"
proof -
  obtain spans where spans: "gather_spans now horizon (scan_output_folder folder) = Inr spans"
    "result = hole_walk horizon now (sort_key fst spans)"
    using assms by (auto simp: first_coverage_gap_def bind_res_Inr_iff)
  have "opened_spans (scan_output_folder folder) now horizon = opened_spans folder now horizon"
    by (simp add: opened_spans_def scan_output_folder_def)
  with gather_spans_set [OF spans(1)] hole_walk_spec [of "sort_key fst spans" now horizon] spans(2)
  show ?thesis by (simp add: hole_spec_def)
qed

theorem coverage_gap_is_first_hole_witness:
  "content_after (opened_spans
     [\<lparr>cf_start = 0, cf_finish = 10, cf_items = Some [scheduled ''a'' 0 4 (lavfi_source ''x''), scheduled ''b'' 6 10 (lavfi_source ''x'')]\<rparr>] 1 9) 4"
proof -
  let ?folder = "[\<lparr>cf_start = 0, cf_finish = 10, cf_items = Some [scheduled ''a'' 0 4 (lavfi_source ''x''), scheduled ''b'' 6 10 (lavfi_source ''x'')]\<rparr>]"
  have "first_coverage_gap ?folder 1 9 = Inr (Some 4)"
    by (simp add: first_coverage_gap_def scan_output_folder_def scheduled_def)
  from coverage_gap_is_first_hole [OF _ this] show ?thesis by simp
qed

section \<open>The frontier\<close>

lemma max_of_Max: "ts \<noteq> [] \<Longrightarrow> max_of ts = Some (Max (set ts))"
  by (cases ts) (simp_all add: max_of_def Max.set_eq_fold del: set_simps)

lemma last_scanned:
  assumes "distinct (map cf_start folder)" and "f \<in> set folder" and "\<forall>g\<in>set folder. cf_start g \<le> cf_start f"
  shows "last (scan_output_folder folder) = f"
proof -
  let ?s = "scan_output_folder folder"
  have set: "set ?s = set folder" by (simp add: scan_output_folder_def)
  have ne: "?s \<noteq> []" using set assms(2) by (metis empty_iff empty_set)
  have "sorted (map cf_start ?s)" by (simp add: scan_output_folder_def)
  then have "cf_start f \<le> cf_start (last ?s)"
    using assms(2) ne unfolding set [symmetric] by (cases ?s rule: rev_cases) (auto simp: sorted_append)
  moreover have "last ?s \<in> set folder" using last_in_set [OF ne] set by simp
  ultimately have "cf_start f = cf_start (last ?s)" using assms(3) by (simp add: order_antisym)
  then show ?thesis using \<open>last ?s \<in> set folder\<close> assms(1,2) by (auto simp: distinct_map inj_on_def)
qed

lemma highest_finish_of_last:
  assumes "distinct (map cf_start folder)" and f: "f \<in> set folder" "cf_items f = Some items" "items \<noteq> []"
    and top: "\<forall>g\<in>set folder. cf_start g \<le> cf_start f \<and> cf_finish g \<le> pi_finish (last items)"
    and max: "\<forall>p\<in>set items. pi_finish p \<le> pi_finish (last items)"
  shows "highest_finish (scan_output_folder folder) = Some (pi_finish (last items))"
proof -
  let ?s = "scan_output_folder folder"
  have last: "last ?s = f" using last_scanned [OF assms(1) f(1)] top by blast
  have set: "set ?s = set folder" by (simp add: scan_output_folder_def)
  have ne: "?s \<noteq> []" using set f(1) by (metis empty_iff empty_set)
  have "Max (pi_finish ` set items) = pi_finish (last items)"
    using max f(3) by (intro Max_eqI) auto
  then have items_max: "max_of (map pi_finish items) = Some (pi_finish (last items))"
    using f(3) by (simp add: max_of_Max)
  have "Max (set (map cf_finish (butlast ?s))) \<le> pi_finish (last items)" if "butlast ?s \<noteq> []"
    using that top set by (auto dest: in_set_butlastD)
  then have "(case max_of (map cf_finish (butlast ?s)) of None \<Rightarrow> cf_finish f | Some m \<Rightarrow> m) \<le> pi_finish (last items)"
    using top f(1) max_of_Max [of "map cf_finish (butlast ?s)"] by (cases "butlast ?s = []") (simp_all add: max_of_def [of "[]"])
  moreover have "cf_finish f \<le> pi_finish (last items)" using top f(1) by blast
  ultimately show ?thesis
    using ne unfolding highest_finish_def last Let_def by (simp add: f(2) items_max max_def)
qed

definition finished_by :: "instant \<Rightarrow> chunk_file \<Rightarrow> bool" where
  "finished_by t f \<longleftrightarrow> cf_finish f \<le> t \<and> (\<forall>items p. cf_items f = Some items \<longrightarrow> p \<in> set items \<longrightarrow> pi_finish p \<le> t)"

context chunk_grid
begin

lemma emit_loop_frontier:
  assumes grid: "\<And>t. t < until \<Longrightarrow> chunk_boundary_at_or_before t hours tz = Some (Inr (cs t)) \<and> add_chunk (cs t) hours tz = Inr (ce t)"
    and covers: "covers_sequence covering anchor until" and stops: "\<And>s u p. p \<in> set (covering anchor s u) \<Longrightarrow> pi_finish p \<le> until"
    and "anchor \<le> cursor" and "cursor < until" and "honest_folder cs ce folder"
    and "\<forall>f\<in>set folder. finished_by until f \<and> cf_start f \<le> cs cursor"
    and "emit_loop covering anchor tz hours until cursor folder written = Some (folder', Inr w)"
  shows "highest_finish (scan_output_folder folder') = Some until"
  using assms(4-8)
proof (induction "nat (until - cursor)" arbitrary: cursor folder written rule: less_induct)
  case less
  obtain old where old: "read_chunk_items folder (cs cursor) = Inr old" using honest_reads [OF less.prems(3)] by blast
  let ?new = "covering anchor cursor (ce cursor)"
  define f where "f = chunk_of_items (cs cursor) (ce cursor) (old @ ?new)"
  define grown where "grown = filter (\<lambda>g. cf_start g \<noteq> cs cursor) folder @ [f]"
  note ahead = within [of cursor]
  have airing: "\<exists>p\<in>set ?new. airs t p" if "cursor \<le> t" "t < ce cursor" "t < until" for t
    using covers that less.prems(1) unfolding covers_sequence_def by (meson order_trans)
  then have ne: "?new \<noteq> []" using ahead less.prems(2) by force
  have new_max: "pi_finish p \<le> pi_finish (last ?new)" if "p \<in> set ?new" for p
    using covers that unfolding covers_sequence_def by blast
  have f: "cf_start f = cs cursor" "cf_items f = Some (old @ ?new)" "cf_finish f = min (ce cursor) (pi_finish (last ?new))"
    using ne by (simp_all add: f_def chunk_of_items_def Let_def min_def)
  have old_by: "\<forall>p\<in>set old. pi_finish p \<le> until"
  proof (cases "old = []")
    case False
    then obtain g where "g \<in> set folder" "cf_items g = Some old"
      using old find_start_iff [of folder "cs cursor"] less.prems(3)
      by (auto simp: read_chunk_items_def honest_folder_def split: option.splits)
    then show ?thesis using less.prems(4) by (auto simp: finished_by_def)
  qed simp
  have last_by: "pi_finish (last ?new) \<le> until" using stops last_in_set [OF ne] by blast
  then have "finished_by until f" using f old_by stops by (auto simp: finished_by_def)
  then have inv: "\<forall>g\<in>set grown. finished_by until g \<and> cf_start g \<le> cs cursor"
    using less.prems(4) f(1) by (auto simp: grown_def)
  have honest: "honest_folder cs ce grown"
    using grown_folder(2) [OF less.prems(3) old, of ?new] ne by (simp add: grown_def f_def)
  have step: "emit_loop covering anchor tz hours until cursor folder written = emit_loop covering anchor tz hours until (ce cursor) grown (written @ [(cf_start f, cf_finish f)])"
    using less.prems(2) grid [OF less.prems(2)] old ne grown_folder(1) [OF less.prems(3) old, of ?new]
    by (subst emit_loop.simps) (simp add: Let_def f_def [symmetric] grown_def)
  show ?case
  proof (cases "ce cursor < until")
    case True
    have "nat (until - ce cursor) < nat (until - cursor)" "anchor \<le> ce cursor" using less.prems(1,2) ahead by auto
    moreover have "\<forall>g\<in>set grown. finished_by until g \<and> cf_start g \<le> cs (ce cursor)"
      using inv ahead cs_ce [of cursor] by fastforce
    ultimately show ?thesis using less.hyps [OF _ _ True honest] less.prems(5) unfolding step by blast
  next
    case False
    have "folder' = grown" using less.prems(5) False unfolding step by (subst (asm) emit_loop.simps) simp
    obtain p where "p \<in> set ?new" "until - 1 < pi_finish p"
      using airing [of "until - 1"] less.prems(2) False by (auto simp: airs_def)
    then have until: "pi_finish (last (old @ ?new)) = until" using new_max [of p] last_by ne by simp
    have max: "\<forall>p\<in>set (old @ ?new). pi_finish p \<le> pi_finish (last (old @ ?new))"
      unfolding until using old_by stops by auto
    have "\<forall>g\<in>set grown. cf_start g \<le> cf_start f \<and> cf_finish g \<le> pi_finish (last (old @ ?new))"
      unfolding until using inv f(1) by (auto simp: finished_by_def)
    from highest_finish_of_last [OF _ _ f(2) _ this max] honest ne
    show ?thesis unfolding \<open>folder' = grown\<close> until by (simp add: honest_folder_def grown_def)
  qed
qed

lemma cs_mono: "t \<le> u \<Longrightarrow> cs t \<le> cs u"
  using chunk_apart [of t u] within [of t] by (cases "cs t = cs u") (auto simp: order_le_less)

end

lemma chain_finish_le: "chained t ts \<Longrightarrow> (x, s, f) \<in> set ts \<Longrightarrow> f \<le> chain_end t ts"
  by (induction t ts rule: chained.induct) (auto dest: chain_end_ge)

text \<open>
  Claim C30. The frontier read back from disk is where the generation ended: in a zone that keeps one
  offset, after a sequence has been emitted whole behind what an honestly named folder held, the highest finish the scan reports, with only
  the last file opened, is the end of the sequence.
\<close>

theorem frontier_is_sequence_end:
  assumes "zn_offset tz = (\<lambda>_. off)" and "0 < hours" and "hours \<le> 24"
    and "keeps_sign seconds_f64" and "sequential_new items durations = Inr sq"
    and "sequence_end seconds_f64 sq anchor = until" and "anchor < until" and "local_date tz until < date_max"
    and "honest_folder (grid_start off hours) (grid_end off hours) folder"
    and "\<forall>f\<in>set folder. cf_start f \<le> anchor \<and> finished_by anchor f"
  shows "\<exists>folder' written. emit_window (items_covering seconds_f64 decode sq) anchor tz hours anchor until folder = Some (folder', Inr written) \<and>
    highest_finish (scan_output_folder folder') = Some until"
proof -
  obtain folder' written where emitted:
    "emit_window (items_covering seconds_f64 decode sq) anchor tz hours anchor until folder = Some (folder', Inr written)"
    using emission_found [OF assms(1-3,8,4,5) order_refl assms(9)] by blast
  have grid: "chunk_boundary_at_or_before t hours tz = Some (Inr (grid_start off hours t)) \<and>
      add_chunk (grid_start off hours t) hours tz = Inr (grid_end off hours t)" if "t < until" for t
    using chunk_of_instant [OF assms(1-3)] local_date_mono [OF assms(1), of t until] that assms(8) by simp
  have covers: "covers_sequence (items_covering seconds_f64 decode sq) anchor until"
    using sequential_covers [OF assms(4,5)] assms(6) by metis
  have stops: "pi_finish p \<le> until" if "p \<in> set (items_covering seconds_f64 decode sq anchor s u)" for s u p
    using that chain_finish_le [OF laid_chained [OF assms(4), of anchor sq]] laid_end [of sq anchor seconds_f64] sequential_newD [OF assms(5)] assms(6)
    by (auto simp: items_covering_filter [OF assms(4)] split: if_splits)
  have inv: "\<forall>f\<in>set folder. finished_by until f \<and> cf_start f \<le> grid_start off hours anchor"
  proof
    fix f assume f: "f \<in> set folder"
    then have "grid_start off hours (cf_start f) = cf_start f"
      using assms(9) by (auto simp: honest_folder_def honest_file_def split: option.splits)
    moreover have "grid_start off hours (cf_start f) \<le> grid_start off hours anchor"
      using fixed_grid.cs_mono assms(10) f by blast
    ultimately show "finished_by until f \<and> cf_start f \<le> grid_start off hours anchor"
      using assms(7,10) f by (fastforce simp: finished_by_def)
  qed
  have "highest_finish (scan_output_folder folder') = Some until"
    by (rule fixed_grid.emit_loop_frontier [OF _ covers _ order_refl assms(7,9) inv emitted [unfolded emit_window_def]])
      (use grid stops in blast)+
  with emitted show ?thesis by blast
qed

lemma two_films_end: "sequence_end floor_nanos two_films (at_unix 0) = at_unix 5400"
  by (simp add: sequence_end_def two_films_def as_secs_whole floor_nanos_def at_unix_def nanos_per_sec_def)

theorem frontier_is_sequence_end_witness:
  "\<exists>folder' written. emit_window (items_covering floor_nanos (\<lambda>_. None) two_films) (at_unix 0) (fixed_zone 0) 6 (at_unix 0) (at_unix 5400) []
     = Some (folder', Inr written) \<and> highest_finish (scan_output_folder folder') = Some (at_unix 5400)"
proof -
  have "local_date (fixed_zone 0) (at_unix 5400) < date_max"
    by (simp add: local_date_def local_secs_def date_max_def date_of_def days_before_year_def epoch_days_def)
  moreover have "honest_folder (grid_start 0 6) (grid_end 0 6) []" by (simp add: honest_folder_def)
  ultimately show ?thesis
    by (intro frontier_is_sequence_end [OF _ _ _ floor_nanos_keeps_sign two_films_new two_films_end]) simp_all
qed

section \<open>The sweep\<close>

text \<open>
  The sweep is safe and settles: no file a window up to \<open>target\<close> may write, unless it
  elapsed past the retention horizon, is removed; every file left is within both ends; and a second
  sweep finds nothing to remove.
\<close>

theorem sweep_spares_the_window:
  assumes "zn_offset tz = (\<lambda>_. off)" and "0 < hours" and "hours \<le> 24" and "local_date tz (grid_end off hours target) < date_max"
    and "unreachable_after target hours tz = Some (Inr unreachable)"
    and "sweep_window folder days unreachable now = (folder', counts)"
  shows "(\<forall>f\<in>set folder. now - int days * 86400 * nanos_per_sec \<le> cf_finish f \<and> cf_start f \<le> grid_end off hours target \<longrightarrow> f \<in> set folder') \<and>
    (\<forall>f\<in>set folder'. now - int days * 86400 * nanos_per_sec \<le> cf_finish f \<and> cf_start f < unreachable) \<and>
    sweep_window folder' days unreachable now = (folder', \<lparr>sw_elapsed = 0, sw_unreachable = 0\<rparr>) \<and>
    length folder = length folder' + sweep_total counts"
proof -
  define cutoff where "cutoff = now - int days * 86400 * nanos_per_sec"
  have same_length: "length (filter P (scan_output_folder fs)) = length (filter P fs)" for P fs
    unfolding scan_output_folder_def by (metis mset_filter mset_sort size_mset)
  have folder': "folder' = filter (\<lambda>f. \<not> swept cutoff unreachable f) folder"
    and counts: "sweep_total counts = length (filter (swept cutoff unreachable) folder)"
    using assms(6) sum_length_filter_compl [of "\<lambda>f. cf_finish f < cutoff" "filter (swept cutoff unreachable) (scan_output_folder folder)"]
    by (auto simp: sweep_window_def Let_def cutoff_def sweep_total_def same_length simp del: filter_filter)
  have "target \<le> grid_end off hours target" using fixed_grid.within less_imp_le by blast
  then have "local_date tz target < date_max" using local_date_mono [OF assms(1)] assms(4) by (meson le_less_trans)
  then have "add_chunk (grid_end off hours target) hours tz = Inr unreachable"
    using assms(5) by (simp add: unreachable_after_def chunk_of_instant [OF assms(1-3)])
  then have "grid_end off hours (grid_end off hours target) = unreachable"
    using chunk_of_instant(2) [OF assms(1-4)] fixed_grid.cs_ce by simp
  then have beyond: "grid_end off hours target < unreachable" using fixed_grid.within by metis
  have "filter (swept cutoff unreachable) (scan_output_folder folder') = []"
    by (auto simp: filter_empty_conv folder' scan_output_folder_def)
  then have "sweep_window folder' days unreachable now = (folder', \<lparr>sw_elapsed = 0, sw_unreachable = 0\<rparr>)"
    unfolding sweep_window_def cutoff_def [symmetric] Let_def by (simp add: folder' del: filter_filter)
  moreover have "length folder = length folder' + sweep_total counts"
    using sum_length_filter_compl [of "swept cutoff unreachable" folder] by (simp add: folder' counts)
  ultimately show ?thesis using beyond by (auto simp: folder' swept_def cutoff_def)
qed

text \<open>A folder with a file of last week, one of today and one years out, swept at noon.\<close>

theorem sweep_spares_the_window_witness:
  "\<lparr>cf_start = at_unix 864000, cf_finish = at_unix 885600, cf_items = None\<rparr> \<in>
     set (fst (sweep_window
       [\<lparr>cf_start = at_unix 0, cf_finish = at_unix 21600, cf_items = None\<rparr>,
        \<lparr>cf_start = at_unix 864000, cf_finish = at_unix 885600, cf_items = None\<rparr>,
        \<lparr>cf_start = at_unix 86400000, cf_finish = at_unix 86421600, cf_items = None\<rparr>]
       2 (grid_end 0 6 (grid_end 0 6 (at_unix 907200))) (at_unix 907200)))"
    (is "?f \<in> set (fst (sweep_window ?folder 2 ?u ?now))")
proof -
  have gone: "local_date (fixed_zone 0) ?u < date_max" "at_unix 864000 \<le> grid_end 0 6 ?now"
    by (simp_all add: local_date_def local_secs_def grid_end_def grid_index_def grid_point_def
        date_max_def date_of_def days_before_year_def epoch_days_def)
  have le: "grid_end 0 6 ?now \<le> ?u" using fixed_grid.within less_imp_le by blast
  then have day: "local_date (fixed_zone 0) (grid_end 0 6 ?now) < date_max"
    using gone(1) local_date_mono [of "fixed_zone 0" 0 "grid_end 0 6 ?now" ?u] by simp
  have now: "local_date (fixed_zone 0) ?now < date_max"
    by (simp add: local_date_def local_secs_def date_max_def date_of_def days_before_year_def epoch_days_def)
  have zone: "zn_offset (fixed_zone 0) = (\<lambda>_. 0)" by simp
  have "unreachable_after ?now 6 (fixed_zone 0) = Some (Inr ?u)"
    using chunk_of_instant [OF zone _ _ now, of 6] chunk_of_instant(2) [OF zone _ _ day, of 6]
    by (simp add: unreachable_after_def fixed_grid.cs_ce)
  from sweep_spares_the_window [OF zone _ _ day this prod.collapse [symmetric], where folder = ?folder and days = 2 and now = ?now]
  have "\<forall>f\<in>set ?folder. ?now - int 2 * 86400 * nanos_per_sec \<le> cf_finish f \<and> cf_start f \<le> grid_end 0 6 ?now \<longrightarrow>
      f \<in> set (fst (sweep_window ?folder 2 ?u ?now))" by simp
  then show ?thesis using gone(2) by (auto simp: at_unix_def nanos_per_sec_def)
qed

end
