(* ===== verification/Guide.thy ===== *)
theory Guide
  imports Playout Strings
begin

text \<open>
  The \<open>guide:\<close> templates (\<open>guide.rs\<close>) and the pass that renders them over a generation
  (\<open>render_guide\<close> of \<open>daemon.rs\<close>). RFC 3339 text, \<open>humantime\<close> text, \<open>seconds_f64\<close> and the upper
  case of one character are parameters; the clock read at generation time is an argument.
\<close>

section \<open>The cascade\<close>

definition guide_is_empty :: "guide_config \<Rightarrow> bool" where
  "guide_is_empty g \<longleftrightarrow> gc_title g = None \<and> gc_sub_title g = None \<and> gc_description g = None \<and> gc_categories g = None"

definition or_else :: "'a option \<Rightarrow> 'a option \<Rightarrow> 'a option" where
  "or_else a b = (case a of None \<Rightarrow> b | Some x \<Rightarrow> Some x)"

definition guide_pick ::
  "(guide_config \<Rightarrow> 'a option) \<Rightarrow> guide_config option \<Rightarrow> guide_config option \<Rightarrow> guide_config option \<Rightarrow> 'a option" where
  "guide_pick field item block channel =
     or_else (Option.bind item field) (or_else (Option.bind block field) (Option.bind channel field))"

definition guide_cascade ::
  "guide_config option \<Rightarrow> guide_config option \<Rightarrow> guide_config option \<Rightarrow> guide_config option" where
  "guide_cascade item block channel =
     (let merged = \<lparr>gc_title = guide_pick gc_title item block channel, gc_sub_title = guide_pick gc_sub_title item block channel,
                    gc_description = guide_pick gc_description item block channel,
                    gc_categories = guide_pick gc_categories item block channel\<rparr>
      in if guide_is_empty merged then None else Some merged)"

section \<open>Template validation\<close>

definition item_scalar_fields :: "string list" where
  "item_scalar_fields =
     [''title'', ''show'', ''season'', ''episode'', ''absolute_episode'', ''year'', ''release_date'', ''studio'',
      ''edition'', ''content_rating'', ''duration'', ''library'', ''summary'']"

definition item_multi_fields :: "string list" where
  "item_multi_fields = [''genres'', ''cast'', ''directors'', ''writers'', ''countries'']"

definition other_scalar_fields :: "string list" where
  "other_scalar_fields =
     [''channel_identity'', ''channel_name'', ''program_title'', ''next_title'', ''next_start'', ''prev_title'',
      ''start'', ''stop'', ''now'']"

definition known_fields :: "string list" where
  "known_fields = item_scalar_fields @ item_multi_fields @ other_scalar_fields"

definition is_known_field :: "string \<Rightarrow> bool" where
  "is_known_field name \<longleftrightarrow>
     name \<in> set item_scalar_fields \<or> name \<in> set item_multi_fields \<or> name \<in> set other_scalar_fields"

definition is_multi_valued :: "string \<Rightarrow> bool" where
  "is_multi_valued name \<longleftrightarrow> name \<in> set item_multi_fields"

definition placeholder_branches :: "string \<Rightarrow> string list" where
  "placeholder_branches inner = map trim (split_on CHR ''|'' inner)"

abbreviation open_brace :: char where "open_brace \<equiv> CHR 0x7B"
abbreviation close_brace :: char where "close_brace \<equiv> CHR 0x7D"

lemma split_once_shorter: "split_once c s = Some (a, b) \<Longrightarrow> length b < length s"
  by (auto dest: split_once_SomeD)

function extract_placeholders :: "string \<Rightarrow> string list" where
  "extract_placeholders [] = []"
| "extract_placeholders (c # cs) =
     (if c = open_brace
      then (case split_once close_brace cs of
              Some (inner, rest) \<Rightarrow> inner # extract_placeholders rest
            | None \<Rightarrow> extract_placeholders cs)
      else extract_placeholders cs)"
  by pat_completeness auto
termination
  by (relation "measure length") (auto dest: split_once_shorter)

fun validate_branches :: "string \<Rightarrow> string list \<Rightarrow> unit result" where
  "validate_branches template [] = Inr ()"
| "validate_branches template (branch # branches) =
     (if branch = [] then Inl (''empty field name in template '' @ debug_str template)
      else if \<not> is_known_field branch
      then Inl (''unknown guide field '' @ debug_str branch @ '' in template '' @ debug_str template @
                '' (known fields: '' @ join '', '' known_fields @ '')'')
      else validate_branches template branches)"

definition validate_template :: "string \<Rightarrow> unit result" where
  "validate_template template =
     validate_branches template (concat (map placeholder_branches (extract_placeholders template)))"

section \<open>Rendering\<close>

record guide_text =
  gt_rfc3339 :: "instant \<Rightarrow> string"
  gt_humantime :: "duration \<Rightarrow> string"

record render_context =
  rc_text :: guide_text
  rc_fields :: guide_fields
  rc_base_title :: "string option"
  rc_base_season :: "nat option"
  rc_base_episode :: "nat option"
  rc_base_year :: "nat option"
  rc_base_content_rating :: "string option"
  rc_channel_identity :: string
  rc_channel_name :: string
  rc_program_title :: "string option"
  rc_next_title :: "string option"
  rc_next_start :: "instant option"
  rc_prev_title :: "string option"
  rc_start :: instant
  rc_stop :: instant
  rc_now :: instant

definition or_empty :: "string option \<Rightarrow> string" where
  "or_empty v = (case v of None \<Rightarrow> [] | Some s \<Rightarrow> s)"

definition opt_num :: "nat option \<Rightarrow> string" where
  "opt_num v = or_empty (map_option dec v)"

definition round_to_secs :: "duration \<Rightarrow> duration" where
  "round_to_secs d = dur_of_secs (dur_as_secs d)"

definition scalar :: "render_context \<Rightarrow> string \<Rightarrow> string" where
  "scalar ctx name =
     (let f = rc_fields ctx; time = gt_rfc3339 (rc_text ctx) in
      if name = ''title'' then or_empty (rc_base_title ctx)
      else if name = ''show'' then or_empty (gf_show f)
      else if name = ''season'' then opt_num (rc_base_season ctx)
      else if name = ''episode'' then opt_num (rc_base_episode ctx)
      else if name = ''absolute_episode'' then or_empty (map_option dec_int (gf_absolute_episode f))
      else if name = ''year'' then opt_num (rc_base_year ctx)
      else if name = ''release_date'' then or_empty (gf_release_date f)
      else if name = ''studio'' then or_empty (gf_studio f)
      else if name = ''edition'' then or_empty (gf_edition f)
      else if name = ''content_rating'' then or_empty (rc_base_content_rating ctx)
      else if name = ''duration'' then or_empty (map_option (\<lambda>d. gt_humantime (rc_text ctx) (round_to_secs d)) (gf_duration f))
      else if name = ''library'' then or_empty (gf_library f)
      else if name = ''summary'' then or_empty (gf_summary f)
      else if name = ''genres'' then join '', '' (gf_genres f)
      else if name = ''cast'' then join '', '' (gf_cast f)
      else if name = ''directors'' then join '', '' (gf_directors f)
      else if name = ''writers'' then join '', '' (gf_writers f)
      else if name = ''countries'' then join '', '' (gf_countries f)
      else if name = ''channel_identity'' then rc_channel_identity ctx
      else if name = ''channel_name'' then rc_channel_name ctx
      else if name = ''program_title'' then or_empty (rc_program_title ctx)
      else if name = ''next_title'' then or_empty (rc_next_title ctx)
      else if name = ''next_start'' then or_empty (map_option time (rc_next_start ctx))
      else if name = ''prev_title'' then or_empty (rc_prev_title ctx)
      else if name = ''start'' then time (rc_start ctx)
      else if name = ''stop'' then time (rc_stop ctx)
      else if name = ''now'' then time (rc_now ctx)
      else [])"

definition multi :: "render_context \<Rightarrow> string \<Rightarrow> string list" where
  "multi ctx name =
     (let f = rc_fields ctx in
      if name = ''genres'' then gf_genres f
      else if name = ''cast'' then gf_cast f
      else if name = ''directors'' then gf_directors f
      else if name = ''writers'' then gf_writers f
      else if name = ''countries'' then gf_countries f
      else [])"

text \<open>The first branch with a value, or the last one.\<close>

fun resolve_branches :: "(string \<Rightarrow> string) \<Rightarrow> string list \<Rightarrow> string" where
  "resolve_branches value [] = []"
| "resolve_branches value [b] = value b"
| "resolve_branches value (b # b' # bs) = (if value b \<noteq> [] then value b else resolve_branches value (b' # bs))"

text \<open>
  One turn of the loop takes a placeholder, or the text up to the next brace; an opening brace that
  nothing closes is text too.
\<close>

datatype template_piece = PieceText string | PieceField string

definition next_piece :: "char \<Rightarrow> string \<Rightarrow> template_piece \<times> string" where
  "next_piece c cs =
     (case (if c = open_brace then split_once close_brace cs else None) of
        Some (inner, rest) \<Rightarrow> (PieceField inner, rest)
      | None \<Rightarrow>
          (let literal = takeWhile (\<lambda>x. x \<noteq> open_brace) (c # cs); rest = dropWhile (\<lambda>x. x \<noteq> open_brace) (c # cs) in
           if rest \<noteq> [] \<and> close_brace \<notin> set rest then (PieceText (literal @ [open_brace]), tl rest)
           else (PieceText literal, rest)))"

lemma next_piece_shorter:
  assumes "next_piece c cs = (p, rest)"
  shows "length rest < length (c # cs)"
proof (cases "if c = open_brace then split_once close_brace cs else None")
  case (Some q)
  then show ?thesis using assms by (cases q) (auto simp: next_piece_def dest: split_once_shorter split: if_splits)
next
  case None
  let ?rest = "dropWhile (\<lambda>x. x \<noteq> open_brace) (c # cs)"
  have le: "length ?rest \<le> length (c # cs)" by (rule length_dropWhile_le)
  show ?thesis
  proof (cases "?rest \<noteq> [] \<and> close_brace \<notin> set ?rest")
    case True
    then have "rest = tl ?rest" using assms None by (auto simp: next_piece_def Let_def)
    moreover have "length (tl ?rest) < length ?rest" using True by (cases ?rest) simp_all
    ultimately show ?thesis using le by (simp only:)
  next
    case False
    then have "c \<noteq> open_brace" using None by (auto simp: split_once_def split: if_splits)
    moreover have "rest = ?rest" using assms None False unfolding next_piece_def by (simp only: Let_def option.case if_False prod.inject)
    ultimately show ?thesis using length_dropWhile_le [of "\<lambda>x. x \<noteq> open_brace" cs] by (simp add: le_imp_less_Suc)
  qed
qed

function pieces :: "string \<Rightarrow> template_piece list" where
  "pieces [] = []"
| "pieces (c # cs) = (case next_piece c cs of (p, rest) \<Rightarrow> p # pieces rest)"
  by pat_completeness auto
termination
  by (relation "measure length") (auto dest!: next_piece_shorter [OF sym])

fun render_piece :: "(string \<Rightarrow> string) \<Rightarrow> template_piece \<Rightarrow> string" where
  "render_piece value (PieceText text) = text"
| "render_piece value (PieceField inner) = resolve_branches value (placeholder_branches inner)"

definition render_with :: "(string \<Rightarrow> string) \<Rightarrow> string \<Rightarrow> string" where
  "render_with value template = concat (map (render_piece value) (pieces template))"

definition render :: "string \<Rightarrow> render_context \<Rightarrow> string" where
  "render template ctx = render_with (scalar ctx) template"

text \<open>An entry that is exactly one multi-valued placeholder fans out; any other renders as one string.\<close>

definition fan_out_field :: "string \<Rightarrow> string option" where
  "fan_out_field template =
     (case trim template of
        c # cs \<Rightarrow>
          if c = open_brace \<and> cs \<noteq> [] \<and> last cs = close_brace \<and> is_multi_valued (butlast cs)
          then Some (butlast cs) else None
      | [] \<Rightarrow> None)"

definition render_category :: "render_context \<Rightarrow> string \<Rightarrow> string list" where
  "render_category ctx template =
     (case fan_out_field template of
        Some field \<Rightarrow> filter (\<lambda>v. v \<noteq> []) (multi ctx field)
      | None \<Rightarrow> (let rendered = render template ctx in if rendered \<noteq> [] then [rendered] else []))"

definition render_categories :: "string list \<Rightarrow> render_context \<Rightarrow> string list" where
  "render_categories templates ctx = concat (map (render_category ctx) templates)"

section \<open>The pass over a generation\<close>

record guide_env =
  ge_text :: guide_text
  ge_seconds_f64 :: "f64 \<Rightarrow> int"
  ge_upper :: "string \<Rightarrow> string"

text \<open>\<open>upper\<close> is the text with its first character in upper case.\<close>

definition capitalize_first :: "guide_env \<Rightarrow> string \<Rightarrow> string" where
  "capitalize_first env s = (if s = [] then [] else ge_upper env s)"

definition json_field :: "json \<Rightarrow> string \<Rightarrow> json option" where
  "json_field j key = (case j of JObject m \<Rightarrow> map_of m key | _ \<Rightarrow> None)"

definition json_as_str :: "json \<Rightarrow> string option" where
  "json_as_str j = (case j of JString s \<Rightarrow> Some s | _ \<Rightarrow> None)"

definition explain_line_for :: "guide_env \<Rightarrow> json option \<Rightarrow> string option" where
  "explain_line_for env metadata =
     Option.bind metadata (\<lambda>m. Option.bind (json_field m ''audit'') (\<lambda>a.
       case a of
         JArray audit \<Rightarrow>
           (case List.map_filter (\<lambda>r. Option.bind (json_field r ''guide'') json_as_str) audit of
              guide # _ \<Rightarrow> Some guide
            | [] \<Rightarrow>
                Option.bind (find (\<lambda>r. Option.bind (json_field r ''stage'') json_as_str = Some ''pool'') audit) (\<lambda>r.
                Option.bind (Option.bind (json_field r ''verdict'') json_as_str) (\<lambda>verdict.
                Some (''Why: '' @ capitalize_first env verdict))))
       | _ \<Rightarrow> None))"

definition trim_end :: "string \<Rightarrow> string" where
  "trim_end s = rev (dropWhile is_space (rev s))"

definition append_to_description :: "string option \<Rightarrow> string \<Rightarrow> string" where
  "append_to_description existing line =
     (case existing of
        Some text \<Rightarrow> if trim text \<noteq> [] then trim_end text @ [CHR 0x0A, CHR 0x0A] @ line else line
      | None \<Rightarrow> line)"

definition program_default :: program_metadata where
  "program_default =
     \<lparr>pm_title = None, pm_sub_title = None, pm_description = None, pm_season = None, pm_episode = None,
      pm_categories = None, pm_content_rating = None, pm_artwork_url = None, pm_year = None,
      pm_credits = None, pm_country = None, pm_star_rating = None\<rparr>"

definition item_title :: "resolved_item \<Rightarrow> string option" where
  "item_title item = Option.bind (ri_program item) pm_title"

definition is_programme :: "resolved_item \<Rightarrow> bool" where
  "is_programme item \<longleftrightarrow> ri_bumper item = None"

definition next_programme :: "resolved_item list \<Rightarrow> nat \<Rightarrow> nat \<Rightarrow> nat option" where
  "next_programme items n i = find (\<lambda>j. is_programme (items ! j)) [Suc i..<n]"

definition prev_programme :: "resolved_item list \<Rightarrow> nat \<Rightarrow> nat option" where
  "prev_programme items i = find (\<lambda>j. is_programme (items ! j)) (rev [0..<i])"

definition non_empty :: "string \<Rightarrow> string option" where
  "non_empty s = (if s = [] then None else Some s)"

definition explained :: "string option \<Rightarrow> program_metadata \<Rightarrow> program_metadata" where
  "explained explain program =
     (case explain of
        None \<Rightarrow> program
      | Some line \<Rightarrow> program\<lparr>pm_description := Some (append_to_description (pm_description program) line)\<rparr>)"

text \<open>The rebuilt program: title, sub-title, description, the explain line, then the categories.\<close>

definition guided_program ::
  "guide_config \<Rightarrow> render_context \<Rightarrow> string option \<Rightarrow> program_metadata \<Rightarrow> program_metadata" where
  "guided_program guide ctx explain base =
     (let program = (case gc_title guide of None \<Rightarrow> base | Some t \<Rightarrow> base\<lparr>pm_title := Some (render t ctx)\<rparr>);
          program = (case gc_sub_title guide of None \<Rightarrow> program | Some t \<Rightarrow> program\<lparr>pm_sub_title := non_empty (render t ctx)\<rparr>);
          program = (case gc_description guide of None \<Rightarrow> program | Some t \<Rightarrow> program\<lparr>pm_description := non_empty (render t ctx)\<rparr>);
          program = explained explain program
      in case gc_categories guide of
           None \<Rightarrow> program
         | Some cats \<Rightarrow> (let rendered = render_categories cats ctx in
             program\<lparr>pm_categories := (if rendered = [] then None else Some rendered)\<rparr>))"

definition guide_context ::
  "guide_env \<Rightarrow> resolved_item list \<Rightarrow> (instant \<times> instant) list \<Rightarrow> string \<Rightarrow> string \<Rightarrow> instant \<Rightarrow> nat \<Rightarrow> render_context" where
  "guide_context env items spans identity name now i =
     (let item = items ! i;
          base = (case ri_program item of None \<Rightarrow> program_default | Some p \<Rightarrow> p);
          next_i = next_programme items (length spans) i
      in \<lparr>rc_text = ge_text env, rc_fields = ri_guide_fields item, rc_base_title = pm_title base,
          rc_base_season = pm_season base, rc_base_episode = pm_episode base, rc_base_year = pm_year base,
          rc_base_content_rating = pm_content_rating base, rc_channel_identity = identity, rc_channel_name = name,
          rc_program_title = pm_title base,
          rc_next_title = Option.bind next_i (\<lambda>j. item_title (items ! j)),
          rc_next_start = map_option (\<lambda>j. fst (spans ! j)) next_i,
          rc_prev_title = Option.bind (prev_programme items i) (\<lambda>j. item_title (items ! j)),
          rc_start = fst (spans ! i), rc_stop = snd (spans ! i), rc_now = now\<rparr>)"

definition guided_item ::
  "guide_env \<Rightarrow> resolved_item list \<Rightarrow> (instant \<times> instant) list \<Rightarrow> string \<Rightarrow> string \<Rightarrow> bool \<Rightarrow> instant \<Rightarrow> nat \<Rightarrow> resolved_item" where
  "guided_item env items spans identity name explain_wanted now i =
     (let item = items ! i in
      if ri_bumper item \<noteq> None then item
      else let explain = (if explain_wanted then explain_line_for env (ri_metadata item) else None);
               base = (case ri_program item of None \<Rightarrow> program_default | Some p \<Rightarrow> p) in
        case ri_guide item of
          None \<Rightarrow> (if explain = None then item else item\<lparr>ri_program := Some (explained explain base)\<rparr>)
        | Some guide \<Rightarrow>
            item\<lparr>ri_program := Some (guided_program guide (guide_context env items spans identity name now i) explain base)\<rparr>)"

text \<open>
  Every item is rewritten from the snapshot of the titles taken first, so the loop is a map over
  the indices of the durations; an index past the items panics.
\<close>

definition render_guide ::
  "guide_env \<Rightarrow> resolved_item list \<Rightarrow> duration list \<Rightarrow> instant \<Rightarrow> string \<Rightarrow> string option \<Rightarrow> bool \<Rightarrow> instant
     \<Rightarrow> resolved_item list result" where
  "render_guide env items durations start identity display explain_wanted now =
     (let name = (case display of None \<Rightarrow> identity | Some d \<Rightarrow> d);
          spans = spans_from (ge_seconds_f64 env) start durations in
      if length items < length durations then Inl ''index out of bounds''
      else Inr (map (guided_item env items spans identity name explain_wanted now) [0..<length durations] @
                drop (length durations) items))"

section \<open>What validation covers\<close>

fun field_of :: "template_piece \<Rightarrow> string list" where
  "field_of (PieceText text) = []"
| "field_of (PieceField inner) = [inner]"

lemma extract_text: "open_brace \<notin> set lit \<Longrightarrow> extract_placeholders (lit @ rest) = extract_placeholders rest"
  by (induction lit) auto

lemma extract_split_text:
  "extract_placeholders s = extract_placeholders (dropWhile (\<lambda>x. x \<noteq> open_brace) s)"
proof -
  have "open_brace \<notin> set (takeWhile (\<lambda>x. x \<noteq> open_brace) s)" by (auto dest: set_takeWhileD)
  from extract_text [OF this, of "dropWhile (\<lambda>x. x \<noteq> open_brace) s"] show ?thesis by simp
qed

lemma next_piece_extract:
  assumes "next_piece c cs = (p, rest)"
  shows "extract_placeholders (c # cs) = field_of p @ extract_placeholders rest"
proof (cases "if c = open_brace then split_once close_brace cs else None")
  case (Some q)
  then show ?thesis using assms by (cases q) (auto simp: next_piece_def split: if_splits)
next
  case None
  let ?rest = "dropWhile (\<lambda>x. x \<noteq> open_brace) (c # cs)"
  show ?thesis
  proof (cases "?rest \<noteq> [] \<and> close_brace \<notin> set ?rest")
    case True
    then obtain ds where ds: "?rest = open_brace # ds" using hd_dropWhile [of "\<lambda>x. x \<noteq> open_brace" "c # cs"]
      by (cases ?rest) auto
    have rest: "rest = tl ?rest" "field_of p = []" using assms None True by (auto simp: next_piece_def Let_def)
    have "close_brace \<notin> set ds" using True unfolding ds by simp
    then have "extract_placeholders ?rest = extract_placeholders ds" unfolding ds by (simp add: split_once_free)
    then show ?thesis using extract_split_text [of "c # cs"] rest unfolding ds by simp
  next
    case False
    have "rest = ?rest" "field_of p = []"
      using assms None False unfolding next_piece_def by (auto simp only: Let_def option.case if_False prod.inject field_of.simps)
    then show ?thesis using extract_split_text [of "c # cs"] by simp
  qed
qed

lemma pieces_extract: "concat (map field_of (pieces s)) = extract_placeholders s"
proof (induction s rule: pieces.induct)
  case (2 c cs)
  obtain p rest where next_one: "next_piece c cs = (p, rest)" by fastforce
  show ?case using "2.IH" [OF next_one [symmetric]] next_piece_extract [OF next_one] next_one
    by (simp del: extract_placeholders.simps)
qed simp

lemma validate_branches_known: "validate_branches t bs = Inr () \<Longrightarrow> b \<in> set bs \<Longrightarrow> is_known_field b"
  by (induction bs) (auto split: if_splits)

lemma resolve_branches_cong:
  "\<forall>b\<in>set bs. v b = v' b \<Longrightarrow> resolve_branches v bs = resolve_branches v' bs"
  by (induction v bs rule: resolve_branches.induct) auto

text \<open>
  Validation covers what rendering reads: a template the loader accepts renders the same
  under any two valuations that agree on the known fields, so the defensive empty value for an
  unknown name is never reached.
\<close>

theorem validated_template_reads_known_fields:
  assumes "validate_template template = Inr ()" and "\<forall>f\<in>set known_fields. value f = value' f"
  shows "render_with value template = render_with value' template"
proof -
  have "render_piece value p = render_piece value' p" if "p \<in> set (pieces template)" for p
  proof (cases p)
    case (PieceField inner)
    then have "inner \<in> set (extract_placeholders template)"
      using that pieces_extract [of template] by (auto simp flip: pieces_extract intro!: bexI [of _ p])
    then have "is_known_field b" if "b \<in> set (placeholder_branches inner)" for b
      using validate_branches_known [OF assms(1) [unfolded validate_template_def], of b] that by auto
    then have "\<forall>b\<in>set (placeholder_branches inner). value b = value' b"
      using assms(2) by (auto simp: is_known_field_def known_fields_def)
    then show ?thesis using PieceField by (simp add: resolve_branches_cong)
  qed simp
  then show ?thesis by (simp add: render_with_def cong: map_cong)
qed

theorem validated_template_reads_known_fields_witness:
  "render_with (\<lambda>f. if f = ''typo'' then ''x'' else f) ''a {title}'' = render_with (\<lambda>f. f) ''a {title}''"
  by (rule validated_template_reads_known_fields)
    (auto simp: validate_template_def split_once_def placeholder_branches_def trim_def is_space_def
      is_known_field_def known_fields_def item_scalar_fields_def item_multi_fields_def other_scalar_fields_def)

section \<open>What the pass touches\<close>

lemma guided_item_program: "\<exists>p. guided_item env items spans identity name explain now i = (items ! i)\<lparr>ri_program := p\<rparr>"
proof -
  have "\<exists>p. x = x\<lparr>ri_program := p\<rparr>" for x :: resolved_item
    by (intro exI [of _ "ri_program x"]) simp
  then show ?thesis by (auto simp: guided_item_def Let_def split: option.splits)
qed

text \<open>
  The guide pass rewrites programs and nothing else: the items keep their number, order
  and every field but the program; a bumper is untouched, and so is an item with no guide template
  on a channel that shows no explanation.
\<close>

theorem guide_pass_rewrites_programs_only:
  assumes "render_guide env items durations start identity display explain_wanted now = Inr items'"
  shows "length items' = length items \<and>
    (\<forall>i<length items. (\<exists>p. items' ! i = (items ! i)\<lparr>ri_program := p\<rparr>) \<and>
       (ri_bumper (items ! i) \<noteq> None \<or> ri_guide (items ! i) = None \<and> \<not> explain_wanted \<longrightarrow> items' ! i = items ! i))"
proof -
  define name where "name = (case display of None \<Rightarrow> identity | Some d \<Rightarrow> d)"
  define spans where "spans = spans_from (ge_seconds_f64 env) start durations"
  have le: "length durations \<le> length items" and items': "items' = map (guided_item env items spans identity name explain_wanted now) [0..<length durations] @ drop (length durations) items"
    using assms by (auto simp: render_guide_def Let_def name_def spans_def split: if_splits)
  have nth: "items' ! i = (if i < length durations then guided_item env items spans identity name explain_wanted now i else items ! i)"
    if "i < length items" for i
    using that le by (auto simp: items' nth_append)
  have rewritten: "\<exists>p. items' ! i = (items ! i)\<lparr>ri_program := p\<rparr>" if "i < length items" for i
  proof (cases "i < length durations")
    case False
    then have "items' ! i = (items ! i)\<lparr>ri_program := ri_program (items ! i)\<rparr>" using nth [OF that] by simp
    then show ?thesis by (rule exI)
  qed (use nth [OF that] guided_item_program in simp)
  have same: "guided_item env items spans identity name explain_wanted now i = items ! i"
    if "ri_bumper (items ! i) \<noteq> None \<or> ri_guide (items ! i) = None \<and> \<not> explain_wanted" for i
    using that by (auto simp: guided_item_def Let_def)
  have idle: "items' ! i = items ! i"
    if "i < length items" "ri_bumper (items ! i) \<noteq> None \<or> ri_guide (items ! i) = None \<and> \<not> explain_wanted" for i
    using nth [OF that(1)] same [OF that(2)] by simp
  have "length items' = length items" using le by (simp add: items')
  with rewritten idle show ?thesis by blast
qed

theorem guide_pass_rewrites_programs_only_witness:
  "ri_source (hd (case render_guide \<lparr>ge_text = \<lparr>gt_rfc3339 = (\<lambda>_. []), gt_humantime = (\<lambda>_. [])\<rparr>, ge_seconds_f64 = floor_nanos, ge_upper = (\<lambda>s. s)\<rparr>
      [plain_item ''a'' 0] [dur_of_secs 60] 0 ''diehard'' None True 0 of Inr items' \<Rightarrow> items' | Inl _ \<Rightarrow> [])) = LocalSource ''a''"
proof -
  let ?env = "\<lparr>ge_text = \<lparr>gt_rfc3339 = (\<lambda>_. []), gt_humantime = (\<lambda>_. [])\<rparr>, ge_seconds_f64 = floor_nanos, ge_upper = (\<lambda>s. s)\<rparr>"
  obtain items' where r: "render_guide ?env [plain_item ''a'' 0] [dur_of_secs 60] 0 ''diehard'' None True 0 = Inr items'"
    by (simp add: render_guide_def Let_def)
  from guide_pass_rewrites_programs_only [OF r] obtain p where
    "length items' = 1" "items' ! 0 = plain_item ''a'' 0\<lparr>ri_program := p\<rparr>" by auto
  then show ?thesis using r by (cases items') (simp_all add: plain_item_def)
qed

end
