(* ===== verification/Items.thy ===== *)
theory Items
  imports Guide Catalog
begin

text \<open>
  The items of a channel (\<open>resolve.rs\<close>): how an inline source and a catalog row become a
  \<open>ResolvedItem\<close>, the identity of a file (\<open>catalog/identity.rs\<close>), which of an entry's provenance
  rows is played, and the list operations of an entries block (duplicates, filter, order).
\<close>

section \<open>Identity\<close>

datatype external_ns = ExtImdb | ExtTmdb | ExtTvdb | ExtPlex

fun external_ns_name :: "external_ns \<Rightarrow> string" where
  "external_ns_name ExtImdb = ''imdb''"
| "external_ns_name ExtTmdb = ''tmdb''"
| "external_ns_name ExtTvdb = ''tvdb''"
| "external_ns_name ExtPlex = ''plex''"

definition ns_priority :: "external_ns list" where
  "ns_priority = [ExtImdb, ExtTmdb, ExtTvdb, ExtPlex]"

text \<open>Blank in the sense of Python: the four separators count as space.\<close>

definition is_blank_guid_value :: "string \<Rightarrow> bool" where
  "is_blank_guid_value v \<longleftrightarrow> list_all (\<lambda>c. is_space c \<or> of_char c \<in> {28, 29, 30, 31 :: nat}) v"

definition derive_entry_id :: "(external_ns \<times> string) list \<Rightarrow> string \<Rightarrow> string" where
  "derive_entry_id external_ids canonical =
     (case List.map_filter (\<lambda>ns. map_option (\<lambda>(_, v). external_ns_name ns @ '':'' @ v)
                              (find (\<lambda>(n, v). n = ns \<and> \<not> is_blank_guid_value v) external_ids)) ns_priority of
        i # _ \<Rightarrow> i
      | [] \<Rightarrow> ''fs:'' @ hex16 (fnv1a_64 canonical))"

definition slashed :: "string \<Rightarrow> string" where
  "slashed = map (\<lambda>c. if c = CHR 0x5C then CHR ''/'' else c)"

definition strip_slash :: "string \<Rightarrow> string" where
  "strip_slash r = (if r \<noteq> [] \<and> last r = CHR ''/'' then butlast r else r)"

definition strip_prefix :: "string \<Rightarrow> string \<Rightarrow> string option" where
  "strip_prefix p s = (if take (length p) s = p then Some (drop (length p) s) else None)"

fun strip_roots :: "string list \<Rightarrow> string \<Rightarrow> string" where
  "strip_roots [] path = path"
| "strip_roots (r # roots) path =
     (case strip_prefix r path of
        Some rest \<Rightarrow>
          (if rest = [] then []
           else case strip_prefix ''/'' rest of Some under_root \<Rightarrow> under_root | None \<Rightarrow> strip_roots roots path)
      | None \<Rightarrow> strip_roots roots path)"

definition canonical_path :: "string \<Rightarrow> string list \<Rightarrow> string" where
  "canonical_path raw roots =
     strip_roots (sort_key (\<lambda>r. - int (length r)) (map (strip_slash \<circ> slashed) roots)) (slashed raw)"

section \<open>What the catalog stores of an entry\<close>

datatype catalog_source = SourcePlex | SourceLocalFs | SourceExtras

record catalog_entry =
  en_id :: string
  en_kind :: string
  en_title :: string
  en_show :: "string option"
  en_season :: "int option"
  en_episode :: "int option"
  en_absolute_episode :: "int option"
  en_edition :: "string option"
  en_studio :: "string option"
  en_year :: "int option"
  en_release_date :: "string option"
  en_duration_ms :: "int option"
  en_content_rating :: "string option"
  en_summary :: "string option"
  en_library :: "string option"
  en_artwork_cache_path :: "string option"

record entry_source =
  es_source :: catalog_source
  es_playback_path :: string
  es_missing_since :: "string option"
  es_unairable_reason :: "string option"

text \<open>The queries an entries block makes beside those of the pattern walk; SQL, so a parameter.\<close>

record item_catalog =
  ic_base :: catalog
  ic_entry :: "string \<Rightarrow> catalog_entry option result"
  ic_entries :: "string list \<Rightarrow> (string, catalog_entry) btree result"
  ic_sources :: "string list \<Rightarrow> (string, entry_source list) btree result"
  ic_tags :: "string list \<Rightarrow> tag_ns \<Rightarrow> (string, string list) btree result"
  ic_sources_of :: "string \<Rightarrow> entry_source list result"
  ic_collections :: "string \<Rightarrow> string list result"
  ic_members :: "string \<Rightarrow> string list result"
  ic_all_episodes :: "string list \<Rightarrow> bool result"

definition airable :: "entry_source \<Rightarrow> bool" where
  "airable s \<longleftrightarrow> es_missing_since s = None \<and> es_unairable_reason s = None"

definition pick_playback_source :: "entry_source list \<Rightarrow> entry_source option" where
  "pick_playback_source sources =
     (let live = (\<lambda>s. es_missing_since s = None); local = (\<lambda>s. es_source s = SourceLocalFs) in
      or_else (find (\<lambda>s. local s \<and> airable s) sources)
      (or_else (find airable sources)
      (or_else (find (\<lambda>s. local s \<and> live s) sources)
      (or_else (find live sources)
      (or_else (find local sources) (if sources = [] then None else Some (hd sources)))))))"

section \<open>Building an item\<close>

definition merge_program :: "program_metadata option \<Rightarrow> program_metadata option \<Rightarrow> program_metadata option" where
  "merge_program item defaults =
     (if item = None \<and> defaults = None then None
      else Some
        \<lparr>pm_title = or_else (Option.bind item pm_title) (Option.bind defaults pm_title),
         pm_sub_title = or_else (Option.bind item pm_sub_title) (Option.bind defaults pm_sub_title),
         pm_description = or_else (Option.bind item pm_description) (Option.bind defaults pm_description),
         pm_season = or_else (Option.bind item pm_season) (Option.bind defaults pm_season),
         pm_episode = or_else (Option.bind item pm_episode) (Option.bind defaults pm_episode),
         pm_categories = or_else (Option.bind item pm_categories) (Option.bind defaults pm_categories),
         pm_content_rating = or_else (Option.bind item pm_content_rating) (Option.bind defaults pm_content_rating),
         pm_artwork_url = or_else (Option.bind item pm_artwork_url) (Option.bind defaults pm_artwork_url),
         pm_year = or_else (Option.bind item pm_year) (Option.bind defaults pm_year),
         pm_credits = or_else (Option.bind item pm_credits) (Option.bind defaults pm_credits),
         pm_country = or_else (Option.bind item pm_country) (Option.bind defaults pm_country),
         pm_star_rating = or_else (Option.bind item pm_star_rating) (Option.bind defaults pm_star_rating)\<rparr>)"

definition guide_fields_default :: guide_fields where
  "guide_fields_default =
     \<lparr>gf_show = None, gf_absolute_episode = None, gf_release_date = None, gf_studio = None, gf_edition = None,
      gf_library = None, gf_duration = None, gf_genres = [], gf_cast = [], gf_directors = [], gf_writers = [],
      gf_countries = [], gf_summary = None\<rparr>"

text \<open>A catalog length counts between one millisecond and a day.\<close>

definition usable_ms :: "int \<Rightarrow> duration option" where
  "usable_ms ms = (if 0 < ms \<and> ms \<le> max_catalog_duration_ms then Some (dur_of_millis (nat ms)) else None)"

definition as_u32 :: "int option \<Rightarrow> nat option" where
  "as_u32 v = Option.bind v (\<lambda>n. if 0 \<le> n \<and> n < 2 ^ 32 then Some (nat n) else None)"

record catalog_tags =
  ct_genres :: "string list"
  ct_cast :: "string list"
  ct_directors :: "string list"
  ct_writers :: "string list"
  ct_countries :: "string list"

text \<open>\<open>Credits\<close> as it serialises: empty lists are left out.\<close>

definition credits_json :: "catalog_tags \<Rightarrow> json" where
  "credits_json tags =
     JObject (filter (\<lambda>(_, v). v \<noteq> JArray [])
       [(''actor'', JArray (map (\<lambda>n. JObject [(''name'', JString n)]) (ct_cast tags))),
        (''director'', JArray (map JString (ct_directors tags))), (''writer'', JArray (map JString (ct_writers tags)))])"

definition catalog_program :: "catalog_entry \<Rightarrow> catalog_tags \<Rightarrow> program_metadata option \<Rightarrow> program_metadata" where
  "catalog_program e tags defaults =
     (let is_episode = en_kind e = ''episode'' in
      \<lparr>pm_title = Some (if is_episode then (case en_show e of Some s \<Rightarrow> s | None \<Rightarrow> en_title e) else en_title e),
       pm_sub_title = (if is_episode then Some (en_title e) else None),
       pm_description = en_summary e, pm_season = as_u32 (en_season e), pm_episode = as_u32 (en_episode e),
       pm_categories = (if ct_genres tags = [] then None else Some (ct_genres tags)),
       pm_content_rating = en_content_rating e,
       pm_artwork_url = map_option (\<lambda>f. ''/artwork/'' @ f) (en_artwork_cache_path e), pm_year = as_u32 (en_year e),
       pm_credits =
         (if Option.bind defaults pm_credits \<noteq> None \<or> ct_cast tags = [] \<and> ct_directors tags = [] \<and> ct_writers tags = []
          then None else Some (credits_json tags)),
       pm_country = (if Option.bind defaults pm_country \<noteq> None \<or> ct_countries tags = [] then None else Some (ct_countries tags)),
       pm_star_rating = None\<rparr>)"

definition bare_item :: "string \<Rightarrow> source_config \<Rightarrow> resolved_item" where
  "bare_item i source =
     \<lparr>ri_id = i, ri_block = 0, ri_source = source, ri_in_point = None, ri_out_point = None, ri_program = None,
      ri_catalog_duration = None, ri_error_card = False, ri_metadata = None, ri_guide = None,
      ri_guide_fields = guide_fields_default, ri_tracks = None, ri_selected = None, ri_bumper = None\<rparr>"

definition build_catalog_item ::
  "catalog_entry \<Rightarrow> entry_source list \<Rightarrow> catalog_tags \<Rightarrow> program_metadata option \<Rightarrow> guide_config option \<Rightarrow> resolved_item option" where
  "build_catalog_item e sources tags defaults guide_defaults =
     map_option (\<lambda>source. (bare_item (en_id e) (LocalSource (es_playback_path source)))
       \<lparr>ri_program := merge_program (Some (catalog_program e tags defaults)) defaults,
        ri_catalog_duration := Option.bind (en_duration_ms e) usable_ms,
        ri_guide := guide_defaults,
        ri_guide_fields :=
          \<lparr>gf_show = en_show e, gf_absolute_episode = en_absolute_episode e, gf_release_date = en_release_date e,
           gf_studio = en_studio e, gf_edition = en_edition e, gf_library = en_library e,
           gf_duration = Option.bind (en_duration_ms e) (\<lambda>ms. if 0 < ms then Some (dur_of_millis (nat ms)) else None),
           gf_genres = ct_genres tags, gf_cast = ct_cast tags, gf_directors = ct_directors tags,
           gf_writers = ct_writers tags, gf_countries = ct_countries tags, gf_summary = en_summary e\<rparr>\<rparr>)
       (pick_playback_source sources)"

definition catalog_tags_of :: "item_catalog \<Rightarrow> string \<Rightarrow> catalog_tags result" where
  "catalog_tags_of cat i =
     bind_res (cat_tags (ic_base cat) i NsGenre) (\<lambda>g.
     bind_res (cat_tags (ic_base cat) i NsCast) (\<lambda>c.
     bind_res (cat_tags (ic_base cat) i NsDirector) (\<lambda>d.
     bind_res (cat_tags (ic_base cat) i NsWriter) (\<lambda>w.
     bind_res (cat_tags (ic_base cat) i NsCountry) (\<lambda>n.
     Inr \<lparr>ct_genres = g, ct_cast = c, ct_directors = d, ct_writers = w, ct_countries = n\<rparr>)))))"

text \<open>A row nothing can play is \<open>None\<close>.\<close>

definition catalog_item ::
  "item_catalog \<Rightarrow> string \<Rightarrow> program_metadata option \<Rightarrow> guide_config option \<Rightarrow> resolved_item option result" where
  "catalog_item cat i defaults guide_defaults =
     bind_res (ic_entry cat i) (\<lambda>row.
       case row of
         None \<Rightarrow> Inl (''resolved entry '' @ i @ '' vanished from the catalog'')
       | Some e \<Rightarrow>
           bind_res (ic_sources_of cat i) (\<lambda>sources.
           bind_res (catalog_tags_of cat i) (\<lambda>tags.
           Inr (build_catalog_item e sources tags defaults guide_defaults))))"

text \<open>
  Many at once, from one bulk read of rows, provenance and tags. Each table gives up an id's row to
  its first occurrence, so a repeated id is read from the catalog again.
\<close>

record bulk_tables =
  bk_entries :: "(string, catalog_entry) btree"
  bk_sources :: "(string, entry_source list) btree"
  bk_genres :: "(string, string list) btree"
  bk_cast :: "(string, string list) btree"
  bk_directors :: "(string, string list) btree"
  bk_writers :: "(string, string list) btree"
  bk_countries :: "(string, string list) btree"

definition bulk_read :: "item_catalog \<Rightarrow> string list \<Rightarrow> bulk_tables result" where
  "bulk_read cat ids =
     bind_res (ic_entries cat ids) (\<lambda>es.
     bind_res (ic_sources cat ids) (\<lambda>ss.
     bind_res (ic_tags cat ids NsGenre) (\<lambda>g.
     bind_res (ic_tags cat ids NsCast) (\<lambda>c.
     bind_res (ic_tags cat ids NsDirector) (\<lambda>d.
     bind_res (ic_tags cat ids NsWriter) (\<lambda>w.
     bind_res (ic_tags cat ids NsCountry) (\<lambda>n.
     Inr \<lparr>bk_entries = es, bk_sources = ss, bk_genres = g, bk_cast = c, bk_directors = d, bk_writers = w,
          bk_countries = n\<rparr>)))))))"

definition without :: "string \<Rightarrow> (string, 'v) btree \<Rightarrow> (string, 'v) btree" where
  "without i m = filter (\<lambda>(k, _). k \<noteq> i) m"

definition get_tags :: "(string, string list) btree \<Rightarrow> string \<Rightarrow> string list" where
  "get_tags m i = (case bt_get m i of Some ts \<Rightarrow> ts | None \<Rightarrow> [])"

definition bulk_tags :: "bulk_tables \<Rightarrow> string \<Rightarrow> catalog_tags" where
  "bulk_tags t i =
     \<lparr>ct_genres = get_tags (bk_genres t) i, ct_cast = get_tags (bk_cast t) i,
      ct_directors = get_tags (bk_directors t) i, ct_writers = get_tags (bk_writers t) i,
      ct_countries = get_tags (bk_countries t) i\<rparr>"

definition take_rows :: "string \<Rightarrow> bulk_tables \<Rightarrow> bulk_tables" where
  "take_rows i t = t\<lparr>bk_entries := without i (bk_entries t), bk_sources := without i (bk_sources t)\<rparr>"

definition take_tags :: "string \<Rightarrow> bulk_tables \<Rightarrow> bulk_tables" where
  "take_tags i t =
     t\<lparr>bk_genres := without i (bk_genres t), bk_cast := without i (bk_cast t),
       bk_directors := without i (bk_directors t), bk_writers := without i (bk_writers t),
       bk_countries := without i (bk_countries t)\<rparr>"

definition list_of_option :: "'a option \<Rightarrow> 'a list" where
  "list_of_option v = (case v of None \<Rightarrow> [] | Some x \<Rightarrow> [x])"

fun items_from ::
  "item_catalog \<Rightarrow> program_metadata option \<Rightarrow> guide_config option \<Rightarrow> bulk_tables \<Rightarrow> string list \<Rightarrow> resolved_item list result" where
  "items_from cat defaults guide t [] = Inr []"
| "items_from cat defaults guide t (i # is) =
     (case (bt_get (bk_entries t) i, bt_get (bk_sources t) i) of
        (Some e, Some src) \<Rightarrow>
          bind_res (items_from cat defaults guide (take_tags i (take_rows i t)) is) (\<lambda>rest.
          Inr (list_of_option (build_catalog_item e src (bulk_tags t i) defaults guide) @ rest))
      | _ \<Rightarrow>
          bind_res (catalog_item cat i defaults guide) (\<lambda>item.
          bind_res (items_from cat defaults guide (take_rows i t) is) (\<lambda>rest. Inr (list_of_option item @ rest))))"

definition catalog_items ::
  "item_catalog \<Rightarrow> string list \<Rightarrow> program_metadata option \<Rightarrow> guide_config option \<Rightarrow> resolved_item list result" where
  "catalog_items cat ids defaults guide = bind_res (bulk_read cat ids) (\<lambda>t. items_from cat defaults guide t ids)"

definition derive_item_id :: "source_config \<Rightarrow> string list \<Rightarrow> (string \<Rightarrow> string option) option \<Rightarrow> string" where
  "derive_item_id source identity_roots path_index =
     (case source of
        LocalSource path \<Rightarrow>
          (let canonical = canonical_path path identity_roots in
           case Option.bind path_index (\<lambda>idx. idx canonical) of
             Some i \<Rightarrow> i | None \<Rightarrow> derive_entry_id [] canonical)
      | LavfiSource params \<Rightarrow> ''lavfi:'' @ params
      | HttpSource uri _ _ \<Rightarrow> ''http:'' @ uri)"

definition resolve_item ::
  "item_entry \<Rightarrow> program_metadata option \<Rightarrow> guide_config option \<Rightarrow> string list \<Rightarrow> (string \<Rightarrow> string option) option \<Rightarrow> resolved_item" where
  "resolve_item item defaults guide_defaults identity_roots path_index =
     (bare_item (derive_item_id (ie_source item) identity_roots path_index) (ie_source item))
       \<lparr>ri_in_point := ie_in_point item, ri_out_point := ie_out_point item,
        ri_program := merge_program (ie_program item) defaults,
        ri_guide := guide_cascade (ie_guide item) guide_defaults None, ri_tracks := ie_tracks item\<rparr>"

section \<open>Duplicates, filter and order\<close>

fun collapse_from :: "string set \<Rightarrow> resolved_item list \<Rightarrow> resolved_item list" where
  "collapse_from seen [] = []"
| "collapse_from seen (x # xs) =
     (if ri_id x \<in> seen then collapse_from seen xs else x # collapse_from (insert (ri_id x) seen) xs)"

definition collapse_duplicates :: "resolved_item list \<Rightarrow> resolved_item list" where
  "collapse_duplicates items = collapse_from {} items"

text \<open>Which ids fall in a wanted arc, of those the catalog gives a show and an absolute number.\<close>

definition in_named_arc :: "arcs \<Rightarrow> string list \<Rightarrow> string \<times> int \<Rightarrow> bool" where
  "in_named_arc arcs names p =
     (case bucket_of arcs (fst p) (snd p) of Some (Named arc) \<Rightarrow> arc \<in> set names | _ \<Rightarrow> False)"

definition filter_arc_ids :: "item_catalog \<Rightarrow> filter_config \<Rightarrow> string list \<Rightarrow> string list result" where
  "filter_arc_ids cat f ids =
     (let names = filter_arc_names f in
      if names = [] then Inr []
      else case fc_arcs f of
        None \<Rightarrow> Inl (''filter.seasons names an arc, which only a station load can resolve; '' @
                     ''list the arcs file under `arcs:` in the station config'')
      | Some arcs \<Rightarrow>
          bind_res (cat_arc_positions (ic_base cat) ids) (\<lambda>positions.
          Inr (map fst (filter (\<lambda>(i, p). in_named_arc arcs names p) positions))))"

definition wanted_numbers :: "season_sel list \<Rightarrow> int list" where
  "wanted_numbers ss = List.map_filter (\<lambda>s. case s of SeasonNumber n \<Rightarrow> Some (int n) | SeasonArc _ \<Rightarrow> None) ss"

text \<open>The test \<open>filter.seasons\<close> makes of an id.\<close>

definition season_test :: "item_catalog option \<Rightarrow> filter_config \<Rightarrow> string list \<Rightarrow> (string \<Rightarrow> bool) result" where
  "season_test catalog f ids =
     (case fc_seasons f of
        None \<Rightarrow> Inr (\<lambda>_. True)
      | Some wanted \<Rightarrow>
          (case catalog of
             None \<Rightarrow> Inl ''filter.seasons needs the catalog, which is not available''
           | Some cat \<Rightarrow>
               bind_res (cat_seasons (ic_base cat) ids) (\<lambda>by_id.
               bind_res (filter_arc_ids cat f ids) (\<lambda>in_arc.
               Inr (\<lambda>i. i \<in> set in_arc \<or>
                        (case bt_get by_id i of None \<Rightarrow> False | Some season \<Rightarrow> season \<in> set (wanted_numbers wanted)))))))"

definition apply_filter :: "item_catalog option \<Rightarrow> resolved_item list \<Rightarrow> filter_config \<Rightarrow> resolved_item list result" where
  "apply_filter catalog items f =
     bind_res (season_test catalog f (map ri_id items)) (\<lambda>season_ok.
     Inr (filter (\<lambda>item. season_ok (ri_id item) \<and>
                   (case fc_episode_ids f of None \<Rightarrow> True | Some wanted \<Rightarrow> ri_id item \<in> set wanted)) items))"

text \<open>
  Each ranked id takes its first item not yet taken; the items the ranking did not consume follow
  in authored order.
\<close>

fun take_ranked :: "resolved_item list \<Rightarrow> string list \<Rightarrow> resolved_item list \<times> resolved_item list" where
  "take_ranked items [] = ([], items)"
| "take_ranked items (i # is) =
     (case position (\<lambda>x. ri_id x = i) items of
        None \<Rightarrow> take_ranked items is
      | Some k \<Rightarrow> (let (ranked, rest) = take_ranked (remove_at k items) is in (items ! k # ranked, rest)))"

definition reorder_to :: "resolved_item list \<Rightarrow> string list \<Rightarrow> resolved_item list" where
  "reorder_to items ordered_ids = (let (ranked, rest) = take_ranked items ordered_ids in ranked @ rest)"

definition apply_order :: "item_catalog \<Rightarrow> resolved_item list \<Rightarrow> order \<Rightarrow> u64 \<Rightarrow> resolved_item list result" where
  "apply_order cat items ord seed =
     bind_res (resolve_order (ic_base cat) (map ri_id items) ord seed) (\<lambda>ordered. Inr (reorder_to items ordered))"

end
