(* ===== verification/ChannelWindow.thy ===== *)
theory ChannelWindow
  imports Items
begin

text \<open>
  Seating a channel's entries list and accounting for what of it airs (\<open>resolve.rs\<close>): how long an
  item is expected to run, how many items cover a span, the cut of the list where the last
  generation stopped, the keys of the adjacency pass, and the state entering each item.
\<close>

section \<open>Expected runtimes\<close>

definition mean_of :: "duration list \<Rightarrow> duration \<Rightarrow> duration" where
  "mean_of ds nominal = (if ds = [] then nominal else sum_list ds div length ds)"

text \<open>An item's own in and out points, else the catalog length it carries.\<close>

definition own_runtime :: "resolved_item \<Rightarrow> duration option" where
  "own_runtime item =
     (let in_p = (case ri_in_point item of None \<Rightarrow> 0 | Some d \<Rightarrow> d) in
      case ri_out_point item of
        Some out_p \<Rightarrow> if in_p < out_p then Some (out_p - in_p) else ri_catalog_duration item
      | None \<Rightarrow> ri_catalog_duration item)"

text \<open>The holes filled by one query; a read that fails leaves them.\<close>

definition fill_runtimes :: "item_catalog option \<Rightarrow> resolved_item list \<Rightarrow> duration option list \<Rightarrow> duration option list" where
  "fill_runtimes catalog items known =
     (case catalog of
        None \<Rightarrow> known
      | Some cat \<Rightarrow>
          (case cat_durations (ic_base cat) (map (ri_id \<circ> fst) (filter (\<lambda>(_, k). k = None) (zip items known))) of
             Inl _ \<Rightarrow> known
           | Inr raw \<Rightarrow>
               map (\<lambda>(item, k). case k of Some d \<Rightarrow> Some d | None \<Rightarrow> Option.bind (bt_get raw (ri_id item)) usable_ms)
                 (zip items known)))"

definition estimated_runtimes :: "resolved_item list \<Rightarrow> item_catalog option \<Rightarrow> duration \<Rightarrow> duration list" where
  "estimated_runtimes items catalog nominal =
     (let known = fill_runtimes catalog items (map own_runtime items);
          stand_in = mean_of (List.map_filter id known) nominal
      in map (\<lambda>d. case d of Some d \<Rightarrow> d | None \<Rightarrow> stand_in) known)"

definition estimated_durations_for_ids :: "string list \<Rightarrow> item_catalog option \<Rightarrow> duration \<Rightarrow> string \<Rightarrow> duration option" where
  "estimated_durations_for_ids ids catalog nominal =
     (let known = (case catalog of
                     None \<Rightarrow> []
                   | Some cat \<Rightarrow> (case cat_durations (ic_base cat) ids of
                       Inl _ \<Rightarrow> []
                     | Inr raw \<Rightarrow> List.map_filter (\<lambda>(i, ms). map_option (Pair i) (usable_ms ms)) raw));
          stand_in = mean_of (map snd known) nominal
      in (\<lambda>i. if i \<in> set ids then Some (case map_of known i of Some d \<Rightarrow> d | None \<Rightarrow> stand_in) else None))"

section \<open>Seating the entries list\<close>

fun covering_from :: "duration \<Rightarrow> duration list \<Rightarrow> duration \<Rightarrow> nat option" where
  "covering_from lain [] fill = None"
| "covering_from lain (d # ds) fill =
     (if fill \<le> lain + d then Some 1 else map_option Suc (covering_from (lain + d) ds fill))"

definition items_to_cover :: "duration list \<Rightarrow> duration \<Rightarrow> nat" where
  "items_to_cover runtimes fill =
     (case covering_from 0 runtimes fill of Some n \<Rightarrow> n | None \<Rightarrow> max (length runtimes) 1)"

text \<open>The caller never asks about an empty span: the code divides by its length.\<close>

definition entries_window ::
  "resolved_item list \<Rightarrow> nat \<Rightarrow> duration option \<Rightarrow> item_catalog option \<Rightarrow> duration \<Rightarrow> nat \<times> nat" where
  "entries_window items list_position fill catalog nominal =
     (let total_items = length items; start = list_position mod total_items in
      (start,
       (case fill of
          Some fill \<Rightarrow> items_to_cover (rotate start (estimated_runtimes items catalog nominal)) fill
        | None \<Rightarrow> total_items)))"

datatype step = PoolStep nat nat | EntryStep nat

record entries_seat =
  es_start :: nat
  es_total :: nat
  es_laid :: nat

definition entries_position :: "entries_seat \<Rightarrow> nat \<Rightarrow> nat" where
  "entries_position seat aired = (es_start seat + aired) mod es_total seat"

text \<open>The four parallel vectors the resolver keeps.\<close>

record channel_rows =
  rw_items :: "resolved_item list"
  rw_limits :: "limits list"
  rw_fields :: "string option list"
  rw_steps :: "step list"

definition put_span :: "nat \<Rightarrow> nat \<Rightarrow> 'a list \<Rightarrow> 'a list \<Rightarrow> 'a list" where
  "put_span first past new xs = take first xs @ new @ drop past xs"

definition span_of :: "nat \<Rightarrow> nat \<Rightarrow> 'a list \<Rightarrow> 'a list" where
  "span_of first past xs = take (past - first) (drop first xs)"

definition cut_entries_window ::
  "channel_rows \<Rightarrow> nat \<Rightarrow> nat \<Rightarrow> nat \<Rightarrow> duration option \<Rightarrow> item_catalog option \<Rightarrow> duration \<Rightarrow> channel_rows \<times> entries_seat option" where
  "cut_entries_window rows first past list_position fill catalog nominal =
     (if past - first = 0 then (rows, None)
      else let items = span_of first past (rw_items rows);
               (start, lain) = entries_window items list_position fill catalog nominal
        in (\<lparr>rw_items = put_span first past (take lain (rotate start items)) (rw_items rows),
             rw_limits = put_span first past (take lain (rotate start (span_of first past (rw_limits rows)))) (rw_limits rows),
             rw_fields = put_span first past (take lain (rotate start (span_of first past (rw_fields rows)))) (rw_fields rows),
             rw_steps = put_span first past (map EntryStep [0..<lain]) (rw_steps rows)\<rparr>,
            Some \<lparr>es_start = start, es_total = past - first, es_laid = lain\<rparr>))"

definition permute :: "'a list \<Rightarrow> nat list \<Rightarrow> 'a list" where
  "permute items perm = map (\<lambda>i. items ! i) perm"

section \<open>The adjacency pass\<close>

definition adjacency_key ::
  "item_catalog option \<Rightarrow> string \<Rightarrow> string option \<Rightarrow> duration \<Rightarrow> item_keys result" where
  "adjacency_key catalog i field d =
     (case field of
        None \<Rightarrow> Inr \<lparr>ik_id = i, ik_group = [], ik_duration = d\<rparr>
      | Some f \<Rightarrow>
          bind_res (for_separate_by f) (\<lambda>ns.
          case catalog of
            None \<Rightarrow> Inl (''separate_by = '' @ debug_str f @ '' needs the catalog, which is not available'')
          | Some cat \<Rightarrow>
              bind_res (map_err (\<lambda>e. ''reading '' @ debug_str f @ '' for '' @ i @ '': '' @ e) (cat_tags (ic_base cat) i ns))
                (\<lambda>group. Inr \<lparr>ik_id = i, ik_group = group, ik_duration = d\<rparr>)))"

definition adjacency_keys ::
  "string list \<Rightarrow> string option list \<Rightarrow> duration list \<Rightarrow> item_catalog option \<Rightarrow> item_keys list result" where
  "adjacency_keys ids apart durations catalog =
     map_res (\<lambda>(k, i, field). adjacency_key catalog i field (if k < length durations then durations ! k else 0))
       (zip [0..<length ids] (zip ids apart))"

section \<open>The state entering each item\<close>

definition pools_entering :: "(string, pool_resume) btree list list \<Rightarrow> nat list \<Rightarrow> (string, pool_resume) btree" where
  "pools_entering pool_progress aired =
     fold (\<lambda>(recorded, n) m. if n < length recorded then bt_extend m (recorded ! n) else m) (zip pool_progress aired) []"

text \<open>Each block has advanced just past the furthest of its items in the prefix.\<close>

fun progress_walk ::
  "(string, pool_resume) btree list list \<Rightarrow> entries_seat option \<Rightarrow> nat \<Rightarrow> step list \<Rightarrow> nat list \<Rightarrow> nat \<Rightarrow> progress list" where
  "progress_walk pool_progress seat idle [] pool_aired entries_aired = []"
| "progress_walk pool_progress seat idle (step # steps) pool_aired entries_aired =
     \<lparr>st_pools = pools_entering pool_progress pool_aired,
      st_position = (case seat of None \<Rightarrow> idle | Some s \<Rightarrow> entries_position s entries_aired),
      st_slot_positions = [], st_rotations = []\<rparr> #
     (case step of
        PoolStep block seq \<Rightarrow>
          progress_walk pool_progress seat idle steps (pool_aired[block := max (pool_aired ! block) (seq + 1)]) entries_aired
      | EntryStep offset \<Rightarrow>
          progress_walk pool_progress seat idle steps pool_aired (max entries_aired (offset + 1)))"

definition progress_per_item ::
  "step list \<Rightarrow> (string, pool_resume) btree list list \<Rightarrow> entries_seat option \<Rightarrow> nat \<Rightarrow> progress list" where
  "progress_per_item steps pool_progress seat idle =
     progress_walk pool_progress seat idle steps (replicate (length pool_progress) 0) 0"

end
