(* ===== verification/Sequence.thy ===== *)
theory Sequence
  imports PatternWalk Tz
begin

text \<open>
  A sequencer block (\<open>sequence.rs\<close>): its pools resolved as a pattern's are, the script asked to
  arrange them, the timeline checked against the pools and cut at the window, and the resume state
  read off what came back. The script is a parameter.
\<close>

section \<open>What the script sees\<close>

record seq_window =
  sw_from :: int
  sw_fill :: "duration option"

record clock_reading =
  cl_weekday :: string
  cl_hour :: nat
  cl_minute :: nat

fun weekday_name :: "day_name \<Rightarrow> string" where
  "weekday_name Mon = ''mon''"
| "weekday_name Tue = ''tue''"
| "weekday_name Wed = ''wed''"
| "weekday_name Thu = ''thu''"
| "weekday_name Fri = ''fri''"
| "weekday_name Sat = ''sat''"
| "weekday_name Sun = ''sun''"

definition local_time_map :: "zone \<Rightarrow> int \<Rightarrow> clock_reading" where
  "local_time_map z secs =
     (let utc = (case from_unix_timestamp secs of Some t \<Rightarrow> t | None \<Rightarrow> 0) in
      \<lparr>cl_weekday = weekday_name (day_name_of (local_date z utc)), cl_hour = local_hour z utc,
       cl_minute = local_minute z utc mod 60\<rparr>)"

record arrange_ctx =
  ac_pools :: "(string, dyn) btree"
  ac_pool_config :: "(string, dyn) btree"
  ac_from :: int
  ac_fill_secs :: "int option"
  ac_resume :: "(string, string option) btree"
  ac_cursor :: "(string, string) btree"
  ac_now :: int
  ac_seed :: int
  ac_temperature :: f64
  ac_local_time :: "int \<Rightarrow> clock_reading"

text \<open>Reading and compiling a script, and calling its \<open>arrange\<close>; the wording of a range error is the \<open>time\<close> crate's.\<close>

type_synonym arranger = "string \<Rightarrow> (arrange_ctx \<Rightarrow> dyn list result) result"

definition seq_error :: "string \<Rightarrow> string \<Rightarrow> string" where
  "seq_error path e = ''sequencer plugin '' @ path @ '': '' @ e"

definition resume_next :: "generation_state \<Rightarrow> pool \<Rightarrow> string option" where
  "resume_next state cfg = Option.bind (resume_pool (gs_resume state) (p_name cfg)) pr_next"

definition arrange_context ::
  "(string, dyn) btree \<Rightarrow> (string, dyn) btree \<Rightarrow> pool list \<Rightarrow> generation_state \<Rightarrow> score_inputs \<Rightarrow> zone \<Rightarrow> seq_window \<Rightarrow> dice \<Rightarrow> arrange_ctx" where
  "arrange_context pools_ctx config_ctx pools state inputs z window d =
     \<lparr>ac_pools = pools_ctx, ac_pool_config = config_ctx, ac_from = sw_from window,
      ac_fill_secs = map_option (int \<circ> dur_as_secs) (sw_fill window),
      ac_resume = fold (\<lambda>cfg. bt_insert (p_name cfg) (resume_next state cfg)) pools [],
      ac_cursor = gs_cursor state, ac_now = si_now inputs,
      ac_seed = uint (dice_seed d AND 0x7FFFFFFFFFFFFFFF), ac_temperature = dice_temperature d,
      ac_local_time = local_time_map z\<rparr>"

definition call_arrange :: "arranger \<Rightarrow> string \<Rightarrow> arrange_ctx \<Rightarrow> string list result" where
  "call_arrange ar path ctx =
     bind_res (ar path) (\<lambda>arrange.
     bind_res (map_err (\<lambda>e. seq_error path (''arrange(): '' @ e)) (arrange ctx)) (\<lambda>picked.
     map_res (\<lambda>(i, v). map_err (\<lambda>actual. seq_error path (''arrange() item #'' @ dec i @
                        '' must be an entry_id string, got '' @ actual)) (into_string v))
       (zip [0..<length picked] picked)))"

section \<open>The window\<close>

fun lay_ids :: "(string \<Rightarrow> duration) \<Rightarrow> duration \<Rightarrow> duration \<Rightarrow> string list \<Rightarrow> string list" where
  "lay_ids runtime fill lain [] = []"
| "lay_ids runtime fill lain (i # is) = (if fill \<le> lain then [] else i # lay_ids runtime fill (lain + runtime i) is)"

text \<open>An unmeasured id is charged the mean of the measured ones.\<close>

definition truncate_to_window :: "catalog \<Rightarrow> string list \<Rightarrow> duration option \<Rightarrow> string list result" where
  "truncate_to_window cat ids fill =
     (case fill of
        None \<Rightarrow> Inr ids
      | Some fill \<Rightarrow>
          if ids = [] then Inr ids
          else bind_res (pool_runtimes cat ids) (\<lambda>(durations, mean).
            Inr (lay_ids (\<lambda>i. case bt_get durations i of Some d \<Rightarrow> d | None \<Rightarrow> mean) fill 0 ids)))"

section \<open>The pools\<close>

record seq_pool =
  sp_cfg :: pool
  sp_list_key :: "string option"
  sp_series :: "series list"
  sp_items :: "dyn list"
  sp_config :: dyn

definition open_seq_pool ::
  "engine \<Rightarrow> catalog \<Rightarrow> string \<Rightarrow> constraints option \<Rightarrow> generation_state \<Rightarrow> (pool \<times> dice) \<times> string list \<Rightarrow> seq_pool result" where
  "open_seq_pool en cat path block state pool =
     (case pool of ((cfg, d), ids) \<Rightarrow>
        bind_res (resolve_pool_series cat cfg ids block (own_tail ids state) False (dice_seed d)) (\<lambda>ps.
        bind_res (map_err (pool_error (p_name cfg)) (en_items en (concat (map s_ids (psr_series ps))))) (\<lambda>items.
        bind_res (pool_config_dynamic en (p_config cfg) ''sequencer'' path (p_name cfg)) (\<lambda>config.
        Inr \<lparr>sp_cfg = cfg, sp_list_key = dice_key en d cfg, sp_series = psr_series ps, sp_items = items,
             sp_config = config\<rparr>))))"

text \<open>Every id's pool and series; an id in several is where it was seen last.\<close>

definition locations :: "seq_pool list \<Rightarrow> (string \<times> nat \<times> nat) list" where
  "locations sps =
     concat (map (\<lambda>(k, sp). concat (map (\<lambda>(si, s). map (\<lambda>i. (i, k, si)) (s_ids s))
                                       (zip [0..<length (sp_series sp)] (sp_series sp))))
              (zip [0..<length sps] sps))"

definition item_location :: "seq_pool list \<Rightarrow> string \<Rightarrow> (nat \<times> nat) option" where
  "item_location sps = map_of (rev (locations sps))"

definition foreign_id :: "string \<Rightarrow> string \<Rightarrow> string" where
  "foreign_id path i =
     seq_error path (''arrange() returned '' @ debug_str i @ '', which is not in any of this block'' @ apos @ ''s pools'')"

definition check_ids :: "string \<Rightarrow> seq_pool list \<Rightarrow> string list \<Rightarrow> unit result" where
  "check_ids path sps ids =
     (case find (\<lambda>i. item_location sps i = None) ids of Some i \<Rightarrow> Inl (foreign_id path i) | None \<Rightarrow> Inr ())"

section \<open>The state left behind\<close>

definition seq_next :: "seq_pool \<Rightarrow> nat option \<Rightarrow> string option" where
  "seq_next sp last_series =
     Option.bind last_series (\<lambda>si.
       if sp_series sp = [] then None else Some (s_key (sp_series sp ! ((si + 1) mod length (sp_series sp)))))"

definition seq_resume :: "seq_pool list \<Rightarrow> (nat \<Rightarrow> nat option) \<Rightarrow> (string, pool_resume) btree" where
  "seq_resume sps last_series =
     fold (\<lambda>(k, sp). bt_insert (p_name (sp_cfg sp))
            (pool_resume_default\<lparr>pr_next := seq_next sp (last_series k), pr_list := sp_list_key sp\<rparr>))
       (zip [0..<length sps] sps) []"

fun seq_progress :: "seq_pool list \<Rightarrow> (nat \<Rightarrow> nat option) \<Rightarrow> string list \<Rightarrow> (string, pool_resume) btree list" where
  "seq_progress sps last_series [] = [seq_resume sps last_series]"
| "seq_progress sps last_series (i # is) =
     seq_resume sps last_series #
     seq_progress sps (case item_location sps i of Some (k, si) \<Rightarrow> last_series(k := Some si) | None \<Rightarrow> last_series) is"

definition seq_metadata :: "seq_pool list \<Rightarrow> score_cache \<Rightarrow> string list \<Rightarrow> (string, json) btree" where
  "seq_metadata sps cache ids =
     (let picked = fold (\<lambda>i m. case item_location sps i of
                 None \<Rightarrow> m
               | Some (k, _) \<Rightarrow>
                   (case Option.bind (sc_extras cache (p_name (sp_cfg (sps ! k)), i)) pe_metadata of
                      Some v \<Rightarrow> bt_insert i v m | None \<Rightarrow> m)) ids []
      in fold (\<lambda>i m. case item_location sps i of
                 Some (k, _) \<Rightarrow> stamp_pool_display m i (sp_cfg (sps ! k)) | None \<Rightarrow> m) ids picked)"

definition seq_marks :: "seq_pool list \<Rightarrow> (pool \<Rightarrow> json option) \<Rightarrow> string list \<Rightarrow> (string, json) btree" where
  "seq_marks sps mark ids =
     fold (\<lambda>i m. case item_location sps i of
             Some (k, _) \<Rightarrow> (case mark (sp_cfg (sps ! k)) of Some v \<Rightarrow> bt_insert i v m | None \<Rightarrow> m)
           | None \<Rightarrow> m) ids []"

section \<open>Building the block\<close>

definition finish_sequence :: "seq_pool list \<Rightarrow> score_cache \<Rightarrow> frozen_lists \<Rightarrow> string list \<Rightarrow> block_build" where
  "finish_sequence sps cache frozen ids =
     (let progress = seq_progress sps Map.empty ids in
      \<lparr>bb_ids = ids, bb_resume = last progress, bb_progress = progress, bb_metadata = seq_metadata sps cache ids,
       bb_audits = replicate (length ids) [], bb_guides = seq_marks sps p_guide ids, bb_tracks = seq_marks sps p_tracks ids,
       bb_lists = filter (\<lambda>(name, _). name \<in> (p_name \<circ> sp_cfg) ` set sps) frozen\<rparr>)"

definition build_sequence ::
  "engine \<Rightarrow> arranger \<Rightarrow> catalog \<Rightarrow> pool list \<Rightarrow> show_group list \<Rightarrow> constraints option \<Rightarrow> string \<Rightarrow> generation_state \<Rightarrow>
     variety \<Rightarrow> score_inputs \<Rightarrow> zone \<Rightarrow> seq_window \<Rightarrow> block_build result" where
  "build_sequence en ar cat pools groups block path state v inputs z window =
     bind_res (ok_or (''window start '' @ dec_int (sw_from window) @ '': timestamp must be in the range -377705116800..=253402300799'')
                 (from_unix_timestamp (sw_from window))) (\<lambda>opens.
     let pds = zip pools (opening_dice v opens pools) in
     bind_res (resolve_pool_sources en cat groups inputs pds score_cache_new (rm_lists (gs_resume state)))
       (\<lambda>(idss, cache, frozen).
     bind_res (map_res (open_seq_pool en cat path block state) (zip pds idss)) (\<lambda>sps.
     let put = (\<lambda>f. fold (\<lambda>sp. bt_insert (p_name (sp_cfg sp)) (f sp)) sps []);
         ctx = arrange_context (put (DynArray \<circ> sp_items)) (put sp_config) pools state inputs z window (dice_at v opens None)
     in bind_res (call_arrange ar path ctx) (\<lambda>ids.
        bind_res (check_ids path sps ids) (\<lambda>_.
        bind_res (truncate_to_window cat ids (sw_fill window)) (\<lambda>ids.
        Inr (finish_sequence sps cache frozen ids)))))))"

end
