(* ===== verification/Blocks.thy ===== *)
theory Blocks
  imports ChannelWindow Sequence
begin

text \<open>
  Resolving one block (\<open>resolve.rs\<close>, \<open>config/chronology.rs\<close>): the entries of a flat block with its
  fallback, filter, duplicates, order and mode; the stand-ins its catalog items are until the window
  is cut, and their hydration; and the items of a pattern or sequencer block.
\<close>

section \<open>Chronology references\<close>

definition or_zero :: "nat option \<Rightarrow> nat" where
  "or_zero n = (case n of Some n \<Rightarrow> n | None \<Rightarrow> 0)"

definition cr_describe :: "chronology_ref \<Rightarrow> string" where
  "cr_describe r =
     (case (cr_show r, cr_title r) of
        (Some show, _) \<Rightarrow> show @ '' S'' @ dec (or_zero (cr_season r)) @ ''E'' @ dec (or_zero (cr_episode r))
      | (None, Some title) \<Rightarrow>
          (case cr_year r of Some year \<Rightarrow> title @ '' ('' @ dec year @ '')'' | None \<Rightarrow> title)
      | (None, None) \<Rightarrow> ''(empty reference)'')"

definition quote_char :: char where "quote_char = CHR 0x22"

definition cel_char :: "char \<Rightarrow> string" where
  "cel_char c =
     (if c = CHR 0x5C then [CHR 0x5C, CHR 0x5C] else if c = quote_char then [CHR 0x5C, quote_char]
      else if c = CHR 0x0A then [CHR 0x5C, CHR ''n''] else [c])"

definition cel_string :: "string \<Rightarrow> string" where
  "cel_string s = quote_char # concat (map cel_char s) @ [quote_char]"

definition cr_query :: "chronology_ref \<Rightarrow> string" where
  "cr_query r =
     (case cr_show r of
        Some show \<Rightarrow>
          ''item.show == '' @ cel_string show @ '' && item.season == '' @ dec (or_zero (cr_season r)) @
          '' && item.episode == '' @ dec (or_zero (cr_episode r))
      | None \<Rightarrow>
          ''item.type == '' @ cel_string ''movie'' @ '' && item.title == '' @
          cel_string (case cr_title r of Some t \<Rightarrow> t | None \<Rightarrow> []) @
          (case cr_year r of Some year \<Rightarrow> '' && item.year == '' @ dec year | None \<Rightarrow> []))"

section \<open>Stand-ins\<close>

definition pending_path :: string where
  "pending_path = CHR 0x00 # ''pending-catalog-item''"

definition pending_item :: "string \<Rightarrow> resolved_item" where
  "pending_item i = bare_item i (LocalSource pending_path)"

definition is_pending :: "resolved_item \<Rightarrow> bool" where
  "is_pending item \<longleftrightarrow> (case ri_source item of LocalSource path \<Rightarrow> path = pending_path | _ \<Rightarrow> False)"

fun pending_of :: "item_catalog \<Rightarrow> (string, entry_source list) btree \<Rightarrow> string list \<Rightarrow> resolved_item list result" where
  "pending_of cat sources [] = Inr []"
| "pending_of cat sources (i # is) =
     (if bt_get sources i \<noteq> None
      then bind_res (pending_of cat sources is) (\<lambda>rest. Inr (pending_item i # rest))
      else bind_res (ic_entry cat i) (\<lambda>e.
             if e = None then Inl (''resolved entry '' @ i @ '' vanished from the catalog'')
             else pending_of cat sources is))"

definition pending_items :: "item_catalog \<Rightarrow> string list \<Rightarrow> resolved_item list result" where
  "pending_items cat ids = bind_res (ic_sources cat ids) (\<lambda>sources. pending_of cat sources ids)"

section \<open>Entries\<close>

definition resolve_query :: "item_catalog \<Rightarrow> query_entry \<Rightarrow> u64 \<Rightarrow> resolved_item list result" where
  "resolve_query cat q seed =
     bind_res (cat_query (ic_base cat) (qe_query q)) (\<lambda>ids.
     bind_res (case qe_order q of None \<Rightarrow> Inr ids | Some ord \<Rightarrow> resolve_order (ic_base cat) ids ord seed)
       (pending_items cat))"

definition resolve_collection :: "item_catalog \<Rightarrow> string \<Rightarrow> resolved_item list result" where
  "resolve_collection cat name =
     bind_res (ic_collections cat name) (\<lambda>ids.
       case ids of
         [] \<Rightarrow> Inl (''no collection named '' @ debug_str name @ '' in the catalog'')
       | [c] \<Rightarrow>
           bind_res (ic_members cat c) (\<lambda>members.
             if members = [] then Inl (''collection '' @ debug_str name @ '' ('' @ c @ '') has no members'')
             else pending_items cat members)
       | _ \<Rightarrow> Inl (dec (length ids) @ '' collections are named '' @ debug_str name @ '' '' @ em_dash @
                   '' a collection entry must name exactly one (conflicting ids: '' @ join '', '' ids @
                   ''); rename one in the source and re-ingest''))"

definition ref_place :: "chronology \<Rightarrow> chronology_ref \<Rightarrow> string" where
  "ref_place ch r = ''chronology '' @ debug_str (ch_name ch) @ '' position '' @ dec (cr_position r) @ '': '' @ cr_describe r"

text \<open>The one item each reference names, each item named once.\<close>

fun match_refs ::
  "item_catalog \<Rightarrow> chronology \<Rightarrow> (string \<times> chronology_ref) list \<Rightarrow> chronology_ref list \<Rightarrow> (string \<times> chronology_ref) list result" where
  "match_refs cat ch seen [] = Inr []"
| "match_refs cat ch seen (r # rs) =
     bind_res (cat_query (ic_base cat) (cr_query r)) (\<lambda>matched.
       case matched of
         [] \<Rightarrow> Inl (ref_place ch r @ '' matches no catalog item'')
       | [i] \<Rightarrow>
           (case map_of seen i of
              Some first \<Rightarrow>
                Inl (''chronology '' @ debug_str (ch_name ch) @ '': '' @ cr_describe first @ '' at position '' @
                     dec (cr_position first) @ '' and '' @ cr_describe r @ '' at position '' @ dec (cr_position r) @
                     '' name the same catalog item ('' @ i @ '')'')
            | None \<Rightarrow> bind_res (match_refs cat ch ((i, r) # seen) rs) (\<lambda>rest. Inr ((i, r) # rest)))
       | _ \<Rightarrow> Inl (ref_place ch r @ '' matches '' @ dec (length matched) @ '' catalog items ('' @ join '', '' matched @
                   ''); a reference must name exactly one''))"

definition resolve_chronology :: "item_catalog \<Rightarrow> chronology_entry \<Rightarrow> resolved_item list result" where
  "resolve_chronology cat entry =
     (case che_resolved entry of
        None \<Rightarrow> Inl (''chronology '' @ debug_str (che_name entry) @ '' was not attached; chronologies resolve '' @
                    ''only through a station load that lists them under `chronologies:`'')
      | Some ch \<Rightarrow>
          bind_res (match_refs cat ch [] (ch_entries ch)) (\<lambda>matched.
          bind_res (ic_sources cat (map fst matched)) (\<lambda>sources.
            case find (\<lambda>(i, _). bt_get sources i = None) matched of
              Some (i, r) \<Rightarrow> Inl (ref_place ch r @ '' ('' @ i @ '') has no playable file in the catalog'')
            | None \<Rightarrow> pending_items cat (map fst matched))))"

section \<open>What a generation resolves with\<close>

text \<open>
  \<open>re_order_dbg\<close> is \<open>{:?}\<close> of an order and \<open>re_guide\<close> reads back the JSON a pool's \<open>guide:\<close> is
  carried as.
\<close>

record resolve_env =
  re_en :: engine
  re_arranger :: arranger
  re_catalog :: "item_catalog option"
  re_identity_roots :: "string list"
  re_path_index :: "(string \<Rightarrow> string option) option"
  re_groups :: "show_group list"
  re_variety :: variety
  re_inputs :: score_inputs
  re_zone :: zone
  re_channel_guide :: "guide_config option"
  re_order_dbg :: "order \<Rightarrow> string"
  re_guide :: "json \<Rightarrow> guide_config"

definition block_error :: "nat \<Rightarrow> string \<Rightarrow> string" where
  "block_error idx m = ''block #'' @ dec idx @ '': '' @ m"

definition needs_catalog :: "resolve_env \<Rightarrow> nat \<Rightarrow> string \<Rightarrow> item_catalog result" where
  "needs_catalog env idx what = ok_or (block_error idx (what @ '' needs the catalog, which is not available'')) (re_catalog env)"

definition block_guide :: "resolve_env \<Rightarrow> block_include \<Rightarrow> guide_config option" where
  "block_guide env b = guide_cascade None (bi_guide b) (re_channel_guide env)"

definition stamp_select :: "string \<Rightarrow> string \<Rightarrow> json option \<Rightarrow> resolved_item list \<Rightarrow> resolved_item list result" where
  "stamp_select by verdict detail items =
     map_res (\<lambda>item. bind_res (push_stage (ri_metadata item) ''select'' by verdict detail) (\<lambda>m.
                Inr (item\<lparr>ri_metadata := m\<rparr>))) items"

definition json_detail :: "string \<Rightarrow> string \<Rightarrow> json option" where
  "json_detail key v = Some (JObject [(key, JString v)])"

definition resolve_fallback :: "resolve_env \<Rightarrow> block_include \<Rightarrow> u64 \<Rightarrow> fallback \<Rightarrow> resolved_item list result" where
  "resolve_fallback env b seed f =
     (case f of
        QueryFallback q \<Rightarrow>
          bind_res (ok_or ''a query fallback needs the catalog, which is not available'' (re_catalog env))
            (\<lambda>cat. resolve_query cat q seed)
      | ItemFallback item \<Rightarrow>
          Inr [resolve_item item (bi_program b) (block_guide env b) (re_identity_roots env) (re_path_index env)])"

definition resolve_entry :: "resolve_env \<Rightarrow> nat \<Rightarrow> block_include \<Rightarrow> u64 \<Rightarrow> entry \<Rightarrow> resolved_item list result" where
  "resolve_entry env idx b seed e =
     (case e of
        ItemEntry item \<Rightarrow>
          stamp_select ''entries:item'' ''listed as an item in the block's entries'' None
            [resolve_item item (bi_program b) (block_guide env b) (re_identity_roots env) (re_path_index env)]
      | QueryEntry q \<Rightarrow>
          bind_res (needs_catalog env idx ''a query entry'') (\<lambda>cat.
          bind_res (map_err (block_error idx) (resolve_query cat q seed))
            (stamp_select ''entries:query'' ''matched the block's query entry'' (json_detail ''query'' (qe_query q))))
      | CollectionEntry name \<Rightarrow>
          bind_res (needs_catalog env idx ''a collection entry'') (\<lambda>cat.
          bind_res (map_err (block_error idx) (resolve_collection cat name))
            (stamp_select ''entries:collection'' (''member of collection '' @ debug_str name) (json_detail ''collection'' name)))
      | ChronologyEntry ch \<Rightarrow>
          bind_res (needs_catalog env idx ''a chronology entry'') (\<lambda>cat.
          bind_res (map_err (block_error idx) (resolve_chronology cat ch))
            (stamp_select ''entries:chronology'' (''entry of chronology '' @ debug_str (che_name ch))
               (json_detail ''chronology'' (che_name ch))))
      | IncludeEntry _ \<Rightarrow> Inl (block_error idx ''include entries are not implemented yet (#69)''))"

section \<open>A flat block\<close>

record block_items =
  bk_items :: "resolved_item list"
  bk_steps :: "step list"
  bk_progress :: "(string, pool_resume) btree list"

definition with_fallback :: "resolve_env \<Rightarrow> nat \<Rightarrow> block_include \<Rightarrow> u64 \<Rightarrow> resolved_item list \<Rightarrow> resolved_item list result" where
  "with_fallback env idx b seed items =
     (case (items, bi_fallback b) of
        ([], Some f) \<Rightarrow>
          bind_res (map_err (\<lambda>m. block_error idx (''fallback: '' @ m)) (resolve_fallback env b seed f))
            (stamp_select ''entries:fallback'' ''the block's entries resolved to nothing, so its fallback aired'' None)
      | _ \<Rightarrow> Inr items)"

definition filtered :: "resolve_env \<Rightarrow> nat \<Rightarrow> block_include \<Rightarrow> resolved_item list \<Rightarrow> resolved_item list result" where
  "filtered env idx b items =
     (case bi_filter b of
        Some f \<Rightarrow> if filter_is_empty f then Inr items
                  else map_err (block_error idx) (apply_filter (re_catalog env) items f)
      | None \<Rightarrow> Inr items)"

definition effective_order :: "resolve_env \<Rightarrow> nat \<Rightarrow> block_include \<Rightarrow> resolved_item list \<Rightarrow> order result" where
  "effective_order env idx b items =
     (case (bi_order b, re_catalog env) of
        (Some ord, _) \<Rightarrow> Inr ord
      | (None, Some cat) \<Rightarrow>
          bind_res (map_err (block_error idx) (ic_all_episodes cat (map ri_id items))) (\<lambda>eps.
            Inr (if eps then episode_default else Manual))
      | (None, None) \<Rightarrow> Inr Manual)"

definition in_order :: "resolve_env \<Rightarrow> nat \<Rightarrow> u64 \<Rightarrow> order \<Rightarrow> resolved_item list \<Rightarrow> resolved_item list result" where
  "in_order env idx seed ord items =
     (if ord = Manual then Inr items
      else bind_res (needs_catalog env idx (''order '' @ re_order_dbg env ord)) (\<lambda>cat.
           map_err (block_error idx) (apply_order cat items ord seed)))"

definition take_mode :: "mode \<Rightarrow> 'a list \<Rightarrow> 'a list" where
  "take_mode m xs = (case m of AllItems \<Rightarrow> xs | CountItems n \<Rightarrow> take n xs)"

definition resolve_entries :: "resolve_env \<Rightarrow> nat \<Rightarrow> block_include \<Rightarrow> u64 \<Rightarrow> block_items result" where
  "resolve_entries env idx b seed =
     bind_res (map_res (resolve_entry env idx b seed) (bi_entries b)) (\<lambda>itemss.
     bind_res (with_fallback env idx b seed (concat itemss)) (\<lambda>items.
     bind_res (filtered env idx b items) (\<lambda>items.
     let items = (if block_duplicates b = Collapse then collapse_duplicates items else items) in
     bind_res (effective_order env idx b items) (\<lambda>ord.
     bind_res (in_order env idx seed ord items) (\<lambda>items.
     let items = take_mode (bi_mode b) items in
     Inr \<lparr>bk_items = items, bk_steps = map EntryStep [0..<length items], bk_progress = []\<rparr>)))))"

section \<open>A pool block\<close>

definition pool_item ::
  "resolve_env \<Rightarrow> item_catalog \<Rightarrow> block_include \<Rightarrow> block_build \<Rightarrow> string \<times> json list \<Rightarrow> resolved_item option result" where
  "pool_item env cat b built drawn =
     (let (i, audit) = drawn;
          guide = guide_cascade None (map_option (re_guide env) (bt_get (bb_guides built) i)) (block_guide env b)
      in bind_res (catalog_item cat i (bi_program b) guide) (\<lambda>item.
           case item of
             None \<Rightarrow> Inr None
           | Some item \<Rightarrow>
               bind_res (attach_audit (bt_get (bb_metadata built) i) audit) (\<lambda>m.
               Inr (Some (item\<lparr>ri_tracks := bt_get (bb_tracks built) i, ri_metadata := m\<rparr>)))))"

text \<open>An unplayable row is skipped but still counts as drawn: its step keeps the index of the draw.\<close>

definition resolve_pool_block_items ::
  "resolve_env \<Rightarrow> item_catalog \<Rightarrow> nat \<Rightarrow> block_include \<Rightarrow> block_build \<Rightarrow> block_items result" where
  "resolve_pool_block_items env cat idx b built =
     bind_res (map_err (block_error idx) (map_res (pool_item env cat b built) (zip (bb_ids built) (bb_audits built)))) (\<lambda>items.
     let kept = List.map_filter (\<lambda>(seq, item). map_option (\<lambda>item. (item, PoolStep idx seq)) item) (zip [0..<length items] items)
     in Inr \<lparr>bk_items = take_mode (bi_mode b) (map fst kept), bk_steps = take_mode (bi_mode b) (map snd kept),
             bk_progress = bb_progress built\<rparr>)"

text \<open>What the block leaves in the generation's resume map.\<close>

definition note_build :: "block_build \<Rightarrow> resume_map \<Rightarrow> resume_map" where
  "note_build built m =
     m\<lparr>st_pools := bt_extend (st_pools m) (bb_resume built), rm_lists := bt_extend (rm_lists m) (bb_lists built)\<rparr>"

definition resolve_block ::
  "resolve_env \<Rightarrow> block_include \<Rightarrow> nat \<Rightarrow> u64 \<Rightarrow> generation_state \<Rightarrow> duration option \<Rightarrow> instant \<Rightarrow> channel_rule option \<Rightarrow>
     resume_map \<Rightarrow> score_cache \<Rightarrow> (block_items \<times> resume_map \<times> score_cache) result" where
  "resolve_block env b idx seed state fill start rule out cache =
     (if is_pattern b
      then bind_res (needs_catalog env idx ''a pattern block'') (\<lambda>cat.
           bind_res (map_err (block_error idx)
             (build_with_cache (re_en env) (ic_base cat) (bi_pools b) (re_groups env) (bi_pattern b) (bi_cycles b)
                (bi_constraints b) state (re_variety env) start (re_inputs env) fill rule cache)) (\<lambda>(built, cache).
           bind_res (resolve_pool_block_items env cat idx b built) (\<lambda>items. Inr (items, note_build built out, cache))))
      else case bi_sequencer b of
        Some sequencer \<Rightarrow>
          bind_res (needs_catalog env idx ''a sequencer block'') (\<lambda>cat.
          bind_res (map_err (block_error idx)
            (build_sequence (re_en env) (re_arranger env) (ic_base cat) (bi_pools b) (re_groups env) (bi_constraints b)
               (source_path (re_en env) sequencer) state (re_variety env) (re_inputs env) (re_zone env)
               \<lparr>sw_from = unix_timestamp start, sw_fill = fill\<rparr>)) (\<lambda>built.
          bind_res (resolve_pool_block_items env cat idx b built) (\<lambda>items. Inr (items, note_build built out, cache))))
      | None \<Rightarrow> bind_res (resolve_entries env idx b seed) (\<lambda>items. Inr (items, out, cache)))"

section \<open>Hydration\<close>

definition ids_by_block :: "resolved_item list \<Rightarrow> (nat, string list) btree" where
  "ids_by_block items =
     fold (\<lambda>item m. bt_insert (ri_block item) ((case bt_get m (ri_block item) of Some is \<Rightarrow> is | None \<Rightarrow> []) @ [ri_id item]) m)
       (filter is_pending items) []"

definition hydrated_block ::
  "resolve_env \<Rightarrow> item_catalog \<Rightarrow> (nat \<Rightarrow> block_include option) \<Rightarrow> nat \<times> string list \<Rightarrow> (nat \<times> resolved_item) list result" where
  "hydrated_block env cat blocks entry =
     (let (idx, ids) = entry in
      bind_res (ok_or (''block #'' @ dec idx @ '' is not in this generation'') (blocks idx)) (\<lambda>b.
      bind_res (map_err (block_error idx) (catalog_items cat ids (bi_program b) (block_guide env b)))
        (\<lambda>items. Inr (map (Pair idx) items))))"

text \<open>Each stand-in takes the first item built for its block and id that is still there.\<close>

fun fill_in :: "(nat \<times> resolved_item) list \<Rightarrow> resolved_item list \<Rightarrow> resolved_item list result" where
  "fill_in built [] = Inr []"
| "fill_in built (item # items) =
     (if \<not> is_pending item then bind_res (fill_in built items) (\<lambda>rest. Inr (item # rest))
      else case position (\<lambda>(idx, full). idx = ri_block item \<and> ri_id full = ri_id item) built of
        None \<Rightarrow> Inl (block_error (ri_block item) (''entry '' @ ri_id item @ '' vanished from the catalog''))
      | Some k \<Rightarrow>
          bind_res (fill_in (remove_at k built) items) (\<lambda>rest.
          Inr ((snd (built ! k))\<lparr>ri_block := ri_block item, ri_metadata := ri_metadata item\<rparr> # rest)))"

definition hydrate_pending ::
  "resolve_env \<Rightarrow> (nat \<Rightarrow> block_include option) \<Rightarrow> resolved_item list \<Rightarrow> resolved_item list result" where
  "hydrate_pending env blocks items =
     (let by_block = ids_by_block items in
      if by_block = [] then Inr items
      else bind_res (ok_or ''a query entry needs the catalog, which is not available'' (re_catalog env)) (\<lambda>cat.
           bind_res (map_res (hydrated_block env cat blocks) by_block) (\<lambda>built. fill_in (concat built) items)))"

end
