(* ===== verification/Annotate.thy ===== *)
theory Annotate
  imports PatternWalk Playout
begin

text \<open>
  The annotate hook (\<open>annotate.rs\<close>): a script that may add metadata to the items of a built schedule.
  The script, and its HTTP capability, are a parameter.
\<close>

text \<open>Compiling a script, and what its \<open>annotate\<close> returns for a channel and an item.\<close>

type_synonym annotator = "string \<Rightarrow> (string \<Rightarrow> dyn \<Rightarrow> dyn result) result"

definition map_entry_id :: "dyn \<Rightarrow> (string \<times> (string \<times> dyn) list) option" where
  "map_entry_id d =
     (case d of
        DynMap kvs \<Rightarrow> (case map_of kvs ''entry_id'' of Some (DynString i) \<Rightarrow> Some (i, kvs) | _ \<Rightarrow> None)
      | _ \<Rightarrow> None)"

definition catalog_item_maps :: "engine \<Rightarrow> catalog option \<Rightarrow> resolved_item list \<Rightarrow> string \<Rightarrow> (string \<times> dyn) list option" where
  "catalog_item_maps en catalog items =
     (case catalog of
        None \<Rightarrow> Map.empty
      | Some cat \<Rightarrow>
          (let ids = remdups (sort (map ri_id items)) in
           case bind_res (cat_entries cat ids) (\<lambda>found. en_items en (filter (\<lambda>i. bt_get found i \<noteq> None) ids)) of
             Inl _ \<Rightarrow> Map.empty
           | Inr maps \<Rightarrow> map_of (rev (List.map_filter map_entry_id maps))))"

definition item_map :: "engine \<Rightarrow> resolved_item \<Rightarrow> (string \<times> dyn) list option \<Rightarrow> dyn" where
  "item_map en item from_catalog =
     (let m = (case from_catalog of Some m \<Rightarrow> m | None \<Rightarrow> [(''entry_id'', DynString (ri_id item))]);
          existing = (case ri_metadata item of
                        None \<Rightarrow> DynUnit
                      | Some v \<Rightarrow> (case en_config en v of Inr d \<Rightarrow> d | Inl _ \<Rightarrow> DynUnit))
      in DynMap (bt_insert ''metadata'' existing (bt_insert ''block'' (DynInt (int (ri_block item))) m)))"

definition patch_from :: "engine \<Rightarrow> dyn \<Rightarrow> (string \<times> json) list option result" where
  "patch_from en v =
     (case v of
        DynUnit \<Rightarrow> Inr None
      | DynMap _ \<Rightarrow>
          bind_res (map_err (\<lambda>e. ''annotate() metadata: '' @ e) (en_carrier en v)) (\<lambda>j.
            Inr (case j of Some (JObject kvs) \<Rightarrow> Some kvs | _ \<Rightarrow> None))
      | _ \<Rightarrow> Inl (''annotate() must return a map or (), got '' @ dyn_type v))"

text \<open>The merged metadata and the keys the patch could not set.\<close>

fun merge_keys :: "(string \<times> json) list \<Rightarrow> (string, json) btree \<Rightarrow> (string, json) btree \<times> string list" where
  "merge_keys [] held = (held, [])"
| "merge_keys ((k, v) # patch) held =
     (if bt_get held k \<noteq> None
      then (let (m, collided) = merge_keys patch held in (m, k # collided))
      else merge_keys patch (bt_insert k v held))"

definition merge_patch :: "json option \<Rightarrow> (string \<times> json) list \<Rightarrow> json option \<times> string list" where
  "merge_patch existing patch =
     (if patch = [] then (existing, [])
      else case existing of
        None \<Rightarrow> (Some (JObject patch), [])
      | Some (JObject held) \<Rightarrow> (let (m, collided) = merge_keys patch held in (Some (JObject m), collided))
      | Some b \<Rightarrow> (Some b, map fst patch))"

definition annotate_item ::
  "engine \<Rightarrow> (string \<Rightarrow> dyn \<Rightarrow> dyn result) \<Rightarrow> string \<Rightarrow> (string \<Rightarrow> (string \<times> dyn) list option) \<Rightarrow> resolved_item \<Rightarrow> resolved_item" where
  "annotate_item en script channel maps item =
     (case bind_res (script channel (item_map en item (maps (ri_id item)))) (patch_from en) of
        Inr (Some patch) \<Rightarrow> item\<lparr>ri_metadata := fst (merge_patch (ri_metadata item) patch)\<rparr>
      | _ \<Rightarrow> item)"

definition annotate_items ::
  "engine \<Rightarrow> annotator \<Rightarrow> string \<Rightarrow> string \<Rightarrow> catalog option \<Rightarrow> resolved_item list \<Rightarrow> resolved_item list" where
  "annotate_items en an path channel catalog items =
     (case an path of
        Inl _ \<Rightarrow> items
      | Inr script \<Rightarrow> map (annotate_item en script channel (catalog_item_maps en catalog items)) items)"

section \<open>Nothing is overwritten\<close>

lemma merge_keys_keeps: "bt_get held k = Some v \<Longrightarrow> bt_get (fst (merge_keys patch held)) k = Some v"
proof (induction patch held rule: merge_keys.induct)
  case (2 k' v' patch held)
  show ?case
  proof (cases "bt_get held k'")
    case None
    then have "bt_get (bt_insert k' v' held) k = Some v" using "2.prems" by (auto simp: bt_get_insert)
    then show ?thesis using 2 None by simp
  next
    case (Some x) then show ?thesis using 2 by (simp add: case_prod_beta Let_def)
  qed
qed simp

definition keeps_metadata :: "json option \<Rightarrow> json option \<Rightarrow> bool" where
  "keeps_metadata before after \<longleftrightarrow>
     (case before of
        None \<Rightarrow> True
      | Some (JObject held) \<Rightarrow>
          (\<exists>m. after = Some (JObject m) \<and> (\<forall>k v. bt_get held k = Some v \<longrightarrow> bt_get m k = Some v))
      | Some b \<Rightarrow> after = Some b)"

lemma merge_patch_keeps: "keeps_metadata b (fst (merge_patch b patch))"
  by (auto simp: keeps_metadata_def merge_patch_def case_prod_beta Let_def merge_keys_keeps split: option.split json.split)

lemma keeps_metadata_refl: "keeps_metadata b b"
  by (simp add: keeps_metadata_def split: option.split json.split)

text \<open>
  The annotate hook neither selects nor orders: whatever its script returns, the schedule
  has the same items in the same places, nothing of an item but its metadata can differ, and no key
  an item already carried loses its value.
\<close>

theorem annotate_only_adds:
  "length (annotate_items en an path channel catalog items) = length items \<and>
   (\<forall>i < length items. \<exists>m. annotate_items en an path channel catalog items ! i = (items ! i)\<lparr>ri_metadata := m\<rparr> \<and>
      keeps_metadata (ri_metadata (items ! i)) m)"
proof (cases "an path")
  case (Inl e)
  have "x = x\<lparr>ri_metadata := ri_metadata x\<rparr>" for x :: resolved_item by simp
  then have "\<exists>m. x = x\<lparr>ri_metadata := m\<rparr> \<and> keeps_metadata (ri_metadata x) m" for x :: resolved_item
    using keeps_metadata_refl by blast
  then show ?thesis using Inl by (simp add: annotate_items_def)
next
  case (Inr script)
  have "\<exists>m. annotate_item en script channel maps x = x\<lparr>ri_metadata := m\<rparr> \<and> keeps_metadata (ri_metadata x) m"
    for maps and x :: resolved_item
  proof (cases "annotate_item en script channel maps x = x")
    case True
    then have "annotate_item en script channel maps x = x\<lparr>ri_metadata := ri_metadata x\<rparr>" by simp
    then show ?thesis using keeps_metadata_refl by blast
  next
    case False
    then obtain p where "annotate_item en script channel maps x = x\<lparr>ri_metadata := fst (merge_patch (ri_metadata x) p)\<rparr>"
      by (auto simp: annotate_item_def split: sum.splits option.splits)
    then show ?thesis using merge_patch_keeps by blast
  qed
  then show ?thesis using Inr by (simp add: annotate_items_def)
qed

definition rated_item :: resolved_item where
  "rated_item = (plain_item ''a'' 10)\<lparr>ri_metadata := Some (JObject [(''rating'', JInt 7)])\<rparr>"

definition rating_script :: annotator where
  "rating_script = (\<lambda>_. Inr (\<lambda>_ _. Inr (DynMap [(''rating'', DynInt 1)])))"

theorem annotate_only_adds_witness:
  "\<exists>m. annotate_items (engine_of (script_returning [] [])) rating_script ''/a'' ''ch'' None [rated_item] ! 0 =
     rated_item\<lparr>ri_metadata := m\<rparr> \<and> m = Some (JObject [(''rating'', JInt 7)])"
proof -
  obtain m where m: "annotate_items (engine_of (script_returning [] [])) rating_script ''/a'' ''ch'' None [rated_item] ! 0 =
      rated_item\<lparr>ri_metadata := m\<rparr>"
    using annotate_only_adds[of "engine_of (script_returning [] [])" rating_script "''/a''" "''ch''" None "[rated_item]"] by auto
  moreover have "ri_metadata (annotate_items (engine_of (script_returning [] [])) rating_script ''/a'' ''ch'' None [rated_item] ! 0) =
      Some (JObject [(''rating'', JInt 7)])"
    by (simp add: annotate_items_def rating_script_def annotate_item_def patch_from_def engine_of_def merge_patch_def rated_item_def)
  ultimately show ?thesis by auto
qed

end
