(* ===== verification/Resolve.thy ===== *)
theory Resolve
  imports Blocks Annotate Calendar
begin

text \<open>
  Resolving a channel for one generation (\<open>resolve.rs\<close>): the span the dice and the schedules leave
  it, the blocks on air resolved one after the other, the entries list cut and hydrated, the
  adjacency pass over the whole, the state entering each item, and the state of the blocks that did
  not air carried through. Also the candidate fingerprint and the pools of \<open>fill:\<close> entries.
\<close>

section \<open>The channel\<close>

text \<open>The fields resolution reads; \<open>cg_nominal_secs\<close> is \<open>scoring.nominal_item_secs\<close>.\<close>

record channel_config =
  cg_name :: string
  cg_rule :: rule_config
  cg_groups :: "show_group list"
  cg_guide :: "guide_config option"
  cg_seed :: "seed_spec option"
  cg_temperature :: "temperature_spec option"
  cg_nominal_secs :: "nat option"
  cg_annotate :: "string option"

definition nominal_item_runtime :: "channel_config \<Rightarrow> duration" where
  "nominal_item_runtime cfg = dur_of_secs (max (case cg_nominal_secs cfg of Some n \<Rightarrow> n | None \<Rightarrow> 1800) 1)"

text \<open>What the caller hands in beside the configuration.\<close>

record resolver =
  rs_en :: engine
  rs_arranger :: arranger
  rs_annotator :: annotator
  rs_catalog :: "item_catalog option"
  rs_identity_roots :: "string list"
  rs_path_index :: "(string \<Rightarrow> string option) option"
  rs_inputs :: score_inputs
  rs_zone :: zone
  rs_order_dbg :: "order \<Rightarrow> string"
  rs_guide :: "json \<Rightarrow> guide_config"

definition channel_variety :: "channel_config \<Rightarrow> zone \<Rightarrow> variety" where
  "channel_variety cfg z = variety_new (cg_seed cfg) (cg_temperature cfg) (cg_name cfg) (zn_offset z)"

definition env_of :: "resolver \<Rightarrow> channel_config \<Rightarrow> resolve_env" where
  "env_of rs cfg =
     \<lparr>re_en = rs_en rs, re_arranger = rs_arranger rs, re_catalog = rs_catalog rs,
      re_identity_roots = rs_identity_roots rs, re_path_index = rs_path_index rs, re_groups = cg_groups cfg,
      re_variety = channel_variety cfg (rs_zone rs), re_inputs = rs_inputs rs, re_zone = rs_zone rs,
      re_channel_guide = cg_guide cfg, re_order_dbg = rs_order_dbg rs, re_guide = rs_guide rs\<rparr>"

section \<open>The span of a generation\<close>

definition is_random :: "order option \<Rightarrow> bool" where
  "is_random ord \<longleftrightarrow> ord = Some Random"

definition lays_seeded_list :: "block_include \<Rightarrow> bool" where
  "lays_seeded_list b \<longleftrightarrow>
     \<not> is_pattern b \<and>
     (is_sequencer b \<or> is_random (bi_order b) \<or>
      list_ex (\<lambda>e. case e of QueryEntry q \<Rightarrow> is_random (qe_order q) | _ \<Rightarrow> False) (bi_entries b) \<or>
      (case bi_fallback b of Some (QueryFallback q) \<Rightarrow> is_random (qe_order q) | _ \<Rightarrow> False))"

text \<open>\<open>(b - a).unsigned_abs()\<close>.\<close>

definition abs_between :: "instant \<Rightarrow> instant \<Rightarrow> duration" where
  "abs_between a b = nat \<bar>b - a\<bar>"

definition seeded_fill :: "rule_config \<Rightarrow> variety \<Rightarrow> instant \<Rightarrow> duration option \<Rightarrow> duration option" where
  "seeded_fill rule v start fill =
     (case fill of
        Some d \<Rightarrow>
          if list_ex lays_seeded_list (all_blocks rule)
          then case next_rollover v start (concat (map bi_pools (all_blocks rule))) of
                 Some boundary \<Rightarrow> Some (min d (abs_between start boundary))
               | None \<Rightarrow> Some d
          else Some d
      | None \<Rightarrow> None)"

definition scheduled_fill :: "calendar option \<Rightarrow> instant \<Rightarrow> duration option \<Rightarrow> duration option" where
  "scheduled_fill cal start fill =
     (case (cal, fill) of
        (Some cal, Some d) \<Rightarrow>
          (case next_change cal start (start + int d) of Some change \<Rightarrow> Some (abs_between start change) | None \<Rightarrow> Some d)
      | _ \<Rightarrow> fill)"

section \<open>What is on air\<close>

definition validate_groups_against_catalog :: "catalog \<Rightarrow> show_group list \<Rightarrow> unit result" where
  "validate_groups_against_catalog cat groups =
     (if groups = [] then Inr ()
      else bind_res (map_err (\<lambda>e. ''checking show groups against the catalog: '' @ e)
                       (cat_episodes_for_shows cat (concat (map sg_shows groups)))) (\<lambda>found.
           let bad = (\<lambda>show. case bt_get found show of None \<Rightarrow> True | Some ids \<Rightarrow> ids = []) in
           case find_map (\<lambda>g. map_option (\<lambda>show. (sg_name g, show)) (find bad (sg_shows g))) groups of
             Some (g, show) \<Rightarrow>
               Inl (''group '' @ debug_str g @ '' names show '' @ debug_str show @ '', which is not in the catalog'')
           | None \<Rightarrow> Inr ()))"

text \<open>\<open>None\<close> is a chain of rotations that does not end.\<close>

definition on_air_now ::
  "calendar option \<Rightarrow> instant \<Rightarrow> (instant \<Rightarrow> u64) \<Rightarrow> rotations \<Rightarrow> (on_air_at option \<times> rotations) result option" where
  "on_air_now cal start seed_at rots =
     (case cal of
        None \<Rightarrow> Some (Inr (None, rots))
      | Some c \<Rightarrow>
          map_option (\<lambda>r. bind_res r (\<lambda>(on, _, rots). Inr (Some on, rots))) (on_air_drawn c start seed_at rots))"

definition selected_blocks :: "rule_config \<Rightarrow> on_air_at option \<Rightarrow> (nat \<times> block_include) list" where
  "selected_blocks rule on =
     (case on of
        Some (OnSlot p) \<Rightarrow> filter (\<lambda>(i, _). i = pl_index p) (List.enumerate 0 (all_blocks rule))
      | _ \<Rightarrow> List.enumerate 0 (ru_blocks rule))"

text \<open>A slot's entries list continues from its own position.\<close>

definition slot_state :: "on_air_at option \<Rightarrow> generation_state \<Rightarrow> generation_state" where
  "slot_state on state =
     (case on of
        Some (OnSlot p) \<Rightarrow>
          state\<lparr>gs_resume := (gs_resume state)
            \<lparr>st_position := (case bt_get (st_slot_positions (gs_resume state)) (pl_slot p) of Some n \<Rightarrow> n | None \<Rightarrow> 0)\<rparr>\<rparr>
      | _ \<Rightarrow> state)"

section \<open>Laying the blocks\<close>

record lay =
  ly_rows :: channel_rows
  ly_progress :: "(string, pool_resume) btree list list"
  ly_spans :: "(nat \<times> nat \<times> bool) list"
  ly_out :: resume_map
  ly_cache :: score_cache

definition lay_start :: lay where
  "lay_start =
     \<lparr>ly_rows = \<lparr>rw_items = [], rw_limits = [], rw_fields = [], rw_steps = []\<rparr>, ly_progress = [], ly_spans = [],
      ly_out = resume_new, ly_cache = score_cache_new\<rparr>"

definition block_start :: "resolver \<Rightarrow> duration \<Rightarrow> instant \<Rightarrow> resolved_item list \<Rightarrow> instant" where
  "block_start rs nominal start items =
     (if items = [] then start
      else start + en_seconds_f64 (rs_en rs) (as_secs_f64 (sum_list (estimated_runtimes items (rs_catalog rs) nominal))))"

text \<open>The items of an earlier span that will air: all of a pattern's, the window of an entries list.\<close>

definition span_airs ::
  "resolver \<Rightarrow> duration \<Rightarrow> nat \<Rightarrow> duration option \<Rightarrow> resolved_item list \<Rightarrow> nat \<times> nat \<times> bool \<Rightarrow> string list" where
  "span_airs rs nominal pos fill items sp =
     (let (first, past, pattern) = sp; xs = span_of first past items in
      if pattern \<or> xs = [] then map ri_id xs
      else let (start, n) = entries_window xs pos fill (rs_catalog rs) nominal
        in map (\<lambda>k. ri_id (xs ! ((start + k) mod length xs))) [0..<n])"

definition channel_rule_for ::
  "resolver \<Rightarrow> channel_config \<Rightarrow> generation_state \<Rightarrow> duration option \<Rightarrow> block_include \<Rightarrow> lay \<Rightarrow> channel_rule option" where
  "channel_rule_for rs cfg state fill b ly =
     map_option (\<lambda>gap.
       \<lparr>cr_gap = gap,
        cr_aired = (if is_pattern b
          then gs_tail state @ concat (map (span_airs rs (nominal_item_runtime cfg) (st_position (gs_resume state)) fill
                                              (rw_items (ly_rows ly))) (ly_spans ly))
          else []),
        cr_nominal = nominal_item_runtime cfg\<rparr>) (ru_no_repeat_within (cg_rule cfg))"

definition renumber :: "nat \<Rightarrow> step \<Rightarrow> step" where
  "renumber pos s = (case s of PoolStep _ seq \<Rightarrow> PoolStep pos seq | EntryStep off \<Rightarrow> EntryStep off)"

definition add_block :: "nat \<Rightarrow> nat \<Rightarrow> block_include \<Rightarrow> block_items \<Rightarrow> lay \<Rightarrow> lay" where
  "add_block pos idx b items ly =
     (let pattern = (is_pattern b \<or> is_sequencer b);
          c = (if pattern then constraints_default else block_constraints b);
          rows = ly_rows ly; n = length (bk_items items); first = length (rw_items rows)
      in ly\<lparr>ly_rows :=
              \<lparr>rw_items = rw_items rows @ map (\<lambda>item. item\<lparr>ri_block := idx\<rparr>) (bk_items items),
               rw_limits = rw_limits rows @ replicate n (limits_of c),
               rw_fields = rw_fields rows @ replicate n (c_separate_by c),
               rw_steps = rw_steps rows @ map (renumber pos) (bk_steps items)\<rparr>,
            ly_progress := ly_progress ly @ [bk_progress items],
            ly_spans := ly_spans ly @ [(first, first + n, pattern)]\<rparr>)"

definition lay_block ::
  "resolver \<Rightarrow> channel_config \<Rightarrow> u64 \<Rightarrow> generation_state \<Rightarrow> duration option \<Rightarrow> instant \<Rightarrow> nat \<times> nat \<times> block_include \<Rightarrow> lay \<Rightarrow> lay result" where
  "lay_block rs cfg seed state fill start blk ly =
     (let (pos, idx, b) = blk in
      bind_res (resolve_block (env_of rs cfg) b idx seed state fill
                  (block_start rs (nominal_item_runtime cfg) start (rw_items (ly_rows ly)))
                  (channel_rule_for rs cfg state fill b ly) (ly_out ly) (ly_cache ly)) (\<lambda>(items, out, cache).
      Inr (add_block pos idx b items (ly\<lparr>ly_out := out, ly_cache := cache\<rparr>))))"

fun lay_blocks ::
  "resolver \<Rightarrow> channel_config \<Rightarrow> u64 \<Rightarrow> generation_state \<Rightarrow> duration option \<Rightarrow> instant \<Rightarrow> (nat \<times> nat \<times> block_include) list \<Rightarrow> lay \<Rightarrow> lay result" where
  "lay_blocks rs cfg seed state fill start [] ly = Inr ly"
| "lay_blocks rs cfg seed state fill start (blk # blks) ly =
     bind_res (lay_block rs cfg seed state fill start blk ly) (lay_blocks rs cfg seed state fill start blks)"

section \<open>Seating the entries spans\<close>

definition mixed_spans :: "nat \<Rightarrow> string" where
  "mixed_spans n =
     ''channel mixes a pattern block with '' @ dec n @ '' entries blocks: cutting several '' @
     ''entries blocks to the window is only supported today when no pattern '' @
     ''block shares the channel (see #190 on resume-position semantics for a fused multi-block cursor)''"

definition seat_entries ::
  "resolver \<Rightarrow> channel_config \<Rightarrow> generation_state \<Rightarrow> duration option \<Rightarrow> lay \<Rightarrow> (lay \<times> entries_seat option) result" where
  "seat_entries rs cfg state fill ly =
     (let spans = filter (\<lambda>(_, _, pattern). \<not> pattern) (ly_spans ly);
          any_pattern = list_ex (\<lambda>(_, _, pattern). pattern) (ly_spans ly);
          pos = st_position (gs_resume state);
          seat_span = (\<lambda>first past.
            let (rows, seat) = cut_entries_window (ly_rows ly) first past pos fill (rs_catalog rs) (nominal_item_runtime cfg)
            in (ly\<lparr>ly_rows := rows,
                   ly_out := (ly_out ly)\<lparr>st_position := (case seat of None \<Rightarrow> pos | Some s \<Rightarrow> entries_position s (es_laid s))\<rparr>\<rparr>,
                seat))
      in case spans of
           [] \<Rightarrow> Inr (ly, None)
         | [(first, past, _)] \<Rightarrow> Inr (if any_pattern then seat_span first past else seat_span 0 (length (rw_items (ly_rows ly))))
         | _ \<Rightarrow> if any_pattern then Inl (mixed_spans (length spans)) else Inr (seat_span 0 (length (rw_items (ly_rows ly)))))"

section \<open>The adjacency pass\<close>

definition measured_runtimes :: "limits list \<Rightarrow> bool" where
  "measured_runtimes lims \<longleftrightarrow> list_ex needs_runtimes lims"

definition constrain_rows ::
  "resolver \<Rightarrow> channel_config \<Rightarrow> generation_state \<Rightarrow> channel_rows \<Rightarrow> (resolved_item list \<times> step list) result" where
  "constrain_rows rs cfg state rows =
     (let items = rw_items rows; nominal = nominal_item_runtime cfg; catalog = rs_catalog rs; tail = gs_tail state;
          timed = measured_runtimes (rw_limits rows) in
      if \<not> any_constrained (rw_limits rows) then Inr (items, rw_steps rows)
      else bind_res (adjacency_keys (map ri_id items) (rw_fields rows)
                       (if timed then estimated_runtimes items catalog nominal else []) catalog) (\<lambda>keys.
           let field = find_map (\<lambda>f. f) (rw_fields rows);
               known = estimated_durations_for_ids tail catalog nominal in
           bind_res (adjacency_keys tail (replicate (length tail) field)
                       (if timed then map (\<lambda>i. case known i of Some d \<Rightarrow> d | None \<Rightarrow> 0) tail else []) catalog) (\<lambda>preceding.
           let perm = ord_order (order_constrained keys (rw_limits rows) preceding)
           in Inr (permute items perm, permute (rw_steps rows) perm))))"

section \<open>Blocks that did not air\<close>

definition pool_names :: "rule_config \<Rightarrow> string set" where
  "pool_names rule = p_name ` set (concat (map bi_pools (all_blocks rule)))"

definition entries_slot :: "rule_config \<Rightarrow> on_air_at \<Rightarrow> string option" where
  "entries_slot rule on =
     (case on of
        OnSlot p \<Rightarrow>
          if pl_index p < length (all_blocks rule) \<and> \<not> is_pattern (all_blocks rule ! pl_index p) \<and>
             \<not> is_sequencer (all_blocks rule ! pl_index p)
          then Some (pl_slot p) else None
      | AnyTime \<Rightarrow> None)"

definition carried_pools :: "rule_config \<Rightarrow> resume_map \<Rightarrow> (string, pool_resume) btree" where
  "carried_pools rule before = filter (\<lambda>(name, _). name \<in> pool_names rule) (st_pools before)"

definition carried_slots :: "rule_config \<Rightarrow> resume_map \<Rightarrow> (string, nat) btree" where
  "carried_slots rule before = filter (\<lambda>(name, _). bt_get (ru_slots rule) name \<noteq> None) (st_slot_positions before)"

definition kept_rotations :: "rule_config \<Rightarrow> rotations \<Rightarrow> rotations" where
  "kept_rotations rule rots =
     filter (\<lambda>(name, _). case bt_get (ru_slots rule) name of Some b \<Rightarrow> is_rotation b | None \<Rightarrow> False) rots"

text \<open>One end state or checkpoint; the aired list's count moves under the slot's name.\<close>

definition carry ::
  "rule_config \<Rightarrow> on_air_at \<Rightarrow> resume_map \<Rightarrow> rotations \<Rightarrow> 'z progress_scheme \<Rightarrow> 'z progress_scheme" where
  "carry rule on before rots p =
     p\<lparr>st_pools := bt_extend (carried_pools rule before) (st_pools p), st_rotations := kept_rotations rule rots,
       st_slot_positions := (case entries_slot rule on of
                               Some slot \<Rightarrow> bt_insert slot (st_position p) (carried_slots rule before)
                             | None \<Rightarrow> carried_slots rule before),
       st_position := (case on of OnSlot _ \<Rightarrow> st_position before | AnyTime \<Rightarrow> st_position p)\<rparr>"

definition carried_lists :: "rule_config \<Rightarrow> resume_map \<Rightarrow> frozen_lists \<Rightarrow> frozen_lists" where
  "carried_lists rule before aired =
     fold (\<lambda>(name, kept) m. if name \<in> pool_names rule \<and> bt_get m name = None then bt_insert name kept m else m)
       (rm_lists before) aired"

definition carry_unaired_state ::
  "rule_config \<Rightarrow> on_air_at \<Rightarrow> resume_map \<Rightarrow> rotations \<Rightarrow> resume_map \<times> progress list \<Rightarrow> resume_map \<times> progress list" where
  "carry_unaired_state rule on before rots laid_out =
     (let (out, progress) = laid_out; out = carry rule on before rots out in
      (out\<lparr>rm_lists := carried_lists rule before (rm_lists out)\<rparr>, map (carry rule on before rots) progress))"

section \<open>One generation\<close>

definition finish_generation ::
  "resolver \<Rightarrow> channel_config \<Rightarrow> generation_state \<Rightarrow> generation_state \<Rightarrow> on_air_at option \<Rightarrow> rotations \<Rightarrow> (nat \<times> block_include) list \<Rightarrow>
     lay \<times> entries_seat option \<Rightarrow> (resolved_item list \<times> resume_map \<times> progress list) result" where
  "finish_generation rs cfg original state on rots blocks set_lay =
     (let (ly, seat) = set_lay in
      bind_res (hydrate_pending (env_of rs cfg) (map_of blocks) (rw_items (ly_rows ly))) (\<lambda>items.
      if items = [] then Inl ''channel resolved to zero items''
      else bind_res (constrain_rows rs cfg state ((ly_rows ly)\<lparr>rw_items := items\<rparr>)) (\<lambda>(items, steps).
           let progress = progress_per_item steps (ly_progress ly) seat (st_position (ly_out ly));
               (out, progress) = (case on of
                   Some on \<Rightarrow> carry_unaired_state (cg_rule cfg) on (gs_resume original) rots (ly_out ly, progress)
                 | None \<Rightarrow> (ly_out ly, progress));
               items = (case cg_annotate cfg of
                   Some plugin \<Rightarrow> annotate_items (rs_en rs) (rs_annotator rs) (source_path (rs_en rs) plugin) (cg_name cfg)
                                    (map_option ic_base (rs_catalog rs)) items
                 | None \<Rightarrow> items)
           in Inr (items, out, progress))))"

definition numbered :: "(nat \<times> block_include) list \<Rightarrow> (nat \<times> nat \<times> block_include) list" where
  "numbered blocks = List.enumerate 0 blocks"

definition resolve_channel_with_cache ::
  "resolver \<Rightarrow> channel_config \<Rightarrow> generation_state \<Rightarrow> duration option \<Rightarrow> instant \<Rightarrow> score_cache \<Rightarrow>
     (resolved_item list \<times> resume_map \<times> progress list \<times> score_cache) result option" where
  "resolve_channel_with_cache rs cfg state fill start cache =
     (let rule = cg_rule cfg; v = channel_variety cfg (rs_zone rs); seed_at = (\<lambda>t. dice_seed (dice_at v t None));
          fill = seeded_fill rule v start fill;
          checked = (case rs_catalog rs of Some cat \<Rightarrow> validate_groups_against_catalog (ic_base cat) (cg_groups cfg) | None \<Rightarrow> Inr ());
          cal = calendar_new rule (rs_zone rs)
      in case checked of
           Inl e \<Rightarrow> Some (Inl e)
         | Inr _ \<Rightarrow>
             map_option (\<lambda>r. bind_res r (\<lambda>(on, rots).
               let fill = scheduled_fill cal start fill; blocks = selected_blocks rule on; st = slot_state on state in
               bind_res (lay_blocks rs cfg (seed_at start) st fill start (numbered blocks) (lay_start\<lparr>ly_cache := cache\<rparr>)) (\<lambda>ly.
               bind_res (seat_entries rs cfg st fill ly) (\<lambda>set_lay.
               bind_res (finish_generation rs cfg state st on rots blocks set_lay) (\<lambda>(items, out, progress).
               Inr (items, out, progress, ly_cache ly))))))
             (on_air_now cal start seed_at (st_rotations (gs_resume state))))"

definition resolve_channel_with_resume ::
  "resolver \<Rightarrow> channel_config \<Rightarrow> generation_state \<Rightarrow> duration option \<Rightarrow> instant \<Rightarrow>
     (resolved_item list \<times> resume_map \<times> progress list) result option" where
  "resolve_channel_with_resume rs cfg state fill start =
     map_option (\<lambda>r. bind_res r (\<lambda>(items, out, progress, _). Inr (items, out, progress)))
       (resolve_channel_with_cache rs cfg state fill start score_cache_new)"

definition resolve_channel :: "resolver \<Rightarrow> channel_config \<Rightarrow> instant \<Rightarrow> resolved_item list result option" where
  "resolve_channel rs cfg now =
     map_option (\<lambda>r. bind_res r (\<lambda>(items, _, _). Inr items))
       (resolve_channel_with_resume rs cfg generation_state_empty None now)"

section \<open>The candidate fingerprint\<close>

definition entry_candidates :: "resolve_env \<Rightarrow> nat \<Rightarrow> entry \<Rightarrow> string list result" where
  "entry_candidates env idx e =
     (let cat = (\<lambda>what. ok_or (block_error idx (what @ '' needs the catalog to fingerprint'')) (re_catalog env)) in
      case e of
        ItemEntry item \<Rightarrow> Inr [ri_id (resolve_item item None None (re_identity_roots env) (re_path_index env))]
      | QueryEntry q \<Rightarrow>
          bind_res (cat ''a query entry'') (\<lambda>c. map_err (block_error idx) (cat_query (ic_base c) (qe_query q)))
      | CollectionEntry name \<Rightarrow>
          bind_res (cat ''a collection entry'') (\<lambda>c.
          bind_res (map_err (block_error idx) (resolve_collection c name)) (\<lambda>items. Inr (map ri_id items)))
      | ChronologyEntry ch \<Rightarrow>
          bind_res (cat ''a chronology entry'') (\<lambda>c.
          bind_res (map_err (block_error idx) (resolve_chronology c ch)) (\<lambda>items. Inr (map ri_id items)))
      | IncludeEntry _ \<Rightarrow> Inl (block_error idx ''include entries are not implemented yet (#69)''))"

definition fallback_candidates :: "resolve_env \<Rightarrow> nat \<Rightarrow> fallback \<Rightarrow> string list result" where
  "fallback_candidates env idx f =
     map_err (\<lambda>m. block_error idx (''fallback: '' @ m))
       (case f of
          QueryFallback q \<Rightarrow>
            bind_res (ok_or ''a query fallback needs the catalog, which is not available'' (re_catalog env)) (\<lambda>cat.
            bind_res (resolve_query cat q 0) (\<lambda>items. Inr (map ri_id items)))
        | ItemFallback item \<Rightarrow> Inr [ri_id (resolve_item item None None (re_identity_roots env) (re_path_index env))])"

definition block_candidates :: "resolve_env \<Rightarrow> nat \<times> block_include \<Rightarrow> string list result" where
  "block_candidates env blk =
     (let (idx, b) = blk in
      if is_pattern b \<or> is_sequencer b
      then bind_res (ok_or (block_error idx ''a pattern/sequencer block needs the catalog to fingerprint'') (re_catalog env)) (\<lambda>cat.
           bind_res (map_err (block_error idx) (fingerprint_pool_sources (re_en env) (ic_base cat) (re_groups env) (bi_pools b)))
             (\<lambda>idss. Inr (concat idss)))
      else bind_res (map_res (entry_candidates env idx) (bi_entries b)) (\<lambda>idss.
           case (concat idss, bi_fallback b) of
             ([], Some f) \<Rightarrow> fallback_candidates env idx f
           | (ids, _) \<Rightarrow> Inr ids))"

definition resolve_channel_fingerprint_ids :: "resolver \<Rightarrow> channel_config \<Rightarrow> string list result" where
  "resolve_channel_fingerprint_ids rs cfg =
     bind_res (map_res (block_candidates (env_of rs cfg)) (List.enumerate 0 (all_blocks (cg_rule cfg)))) (\<lambda>idss.
     Inr (sort (remdups (concat idss))))"

section \<open>The pools of fill entries\<close>

record fill_pool =
  fp_block :: nat
  fp_name :: string
  fp_items :: "resolved_item list"

text \<open>An item longer than the grid step can never fit a gap.\<close>

definition fits_step :: "duration option \<Rightarrow> resolved_item \<Rightarrow> bool" where
  "fits_step step item \<longleftrightarrow> (case (ri_catalog_duration item, step) of (Some d, Some s) \<Rightarrow> d \<le> s | _ \<Rightarrow> True)"

definition fill_item :: "resolve_env \<Rightarrow> item_catalog \<Rightarrow> nat \<Rightarrow> block_include \<Rightarrow> string \<Rightarrow> resolved_item list" where
  "fill_item env cat idx b i =
     (case catalog_item cat i (bi_program b) (block_guide env b) of
        Inr (Some item) \<Rightarrow>
          if \<not> ri_error_card item \<and> fits_step (Option.bind (bi_align b) align_every) item
          then [item\<lparr>ri_block := idx\<rparr>] else []
      | _ \<Rightarrow> [])"

definition fill_verdict :: "string \<Rightarrow> string" where
  "fill_verdict name = ''drawn from pool '' @ debug_str name @ '' to fill a gap before the next grid line''"

text \<open>A pool that cannot be read is left out; what its attempt cached is not kept.\<close>

fun named_fill_pools ::
  "resolver \<Rightarrow> channel_config \<Rightarrow> item_catalog \<Rightarrow> generation_state \<Rightarrow> instant \<Rightarrow> nat \<Rightarrow> block_include \<Rightarrow> string list \<Rightarrow>
     fill_pool list \<times> score_cache \<Rightarrow> (fill_pool list \<times> score_cache) result" where
  "named_fill_pools rs cfg cat state start idx b [] acc = Inr acc"
| "named_fill_pools rs cfg cat state start idx b (name # names) (out, cache) =
     (if list_ex (\<lambda>p. fp_block p = idx \<and> fp_name p = name) out
      then named_fill_pools rs cfg cat state start idx b names (out, cache)
      else bind_res (ok_or (block_label (cg_rule cfg) idx @ '': fill pool '' @ debug_str name @ '' is not defined'')
                       (find (\<lambda>p. p_name p = name) (bi_pools b))) (\<lambda>pool.
           case resolve_fill_pool_ids (rs_en rs) (ic_base cat) pool (cg_groups cfg) (bi_constraints b) state
                  (channel_variety cfg (rs_zone rs)) start (rs_inputs rs) cache of
             Inl _ \<Rightarrow> named_fill_pools rs cfg cat state start idx b names (out, cache)
           | Inr (ids, cache) \<Rightarrow>
               bind_res (stamp_select ''fill:pool'' (fill_verdict name) None
                           (concat (map (fill_item (env_of rs cfg) cat idx b) ids))) (\<lambda>items.
               named_fill_pools rs cfg cat state start idx b names
                 (out @ [\<lparr>fp_block = idx, fp_name = name, fp_items = items\<rparr>], cache))))"

fun fill_pools_of ::
  "resolver \<Rightarrow> channel_config \<Rightarrow> item_catalog \<Rightarrow> generation_state \<Rightarrow> instant \<Rightarrow> (nat \<times> block_include) list \<Rightarrow>
     fill_pool list \<times> score_cache \<Rightarrow> (fill_pool list \<times> score_cache) result" where
  "fill_pools_of rs cfg cat state start [] acc = Inr acc"
| "fill_pools_of rs cfg cat state start ((idx, b) # blocks) acc =
     bind_res (named_fill_pools rs cfg cat state start idx b (List.map_filter fe_pool (bi_fill b)) acc)
       (fill_pools_of rs cfg cat state start blocks)"

definition resolve_fill_pools ::
  "resolver \<Rightarrow> channel_config \<Rightarrow> generation_state \<Rightarrow> instant \<Rightarrow> score_cache \<Rightarrow> (fill_pool list \<times> score_cache) result" where
  "resolve_fill_pools rs cfg state start cache =
     (case rs_catalog rs of
        None \<Rightarrow> Inr ([], cache)
      | Some cat \<Rightarrow> fill_pools_of rs cfg cat state start (List.enumerate 0 (all_blocks (cg_rule cfg))) ([], cache))"

end
