(* ===== verification/ChannelFacts.thy ===== *)
theory ChannelFacts
  imports ChannelWindow "HOL-Library.Sublist"
begin

text \<open>
  What seating an entries list promises: the generations of a channel walk its list in a loop and
  lay no more of it than the airtime wanted; reordering loses nothing; duplicates keep the first;
  and the state entering an item is past everything before it.
\<close>

section \<open>The source played\<close>

text \<open>Airable before merely present before gone, and a local file first within each.\<close>

definition source_rank :: "entry_source \<Rightarrow> nat" where
  "source_rank s =
     (if airable s then (if es_source s = SourceLocalFs then 0 else 1)
      else if es_missing_since s = None then (if es_source s = SourceLocalFs then 2 else 3)
      else (if es_source s = SourceLocalFs then 4 else 5))"

lemma min_by_key_find:
  assumes "\<And>y. y \<in> set xs \<Longrightarrow> k \<le> rank y" "find (\<lambda>y. rank y \<le> k) xs = Some s"
  shows "min_by_key rank xs = Some s"
  using assms
proof (induction xs)
  case (Cons x xs)
  show ?case
  proof (cases "rank x \<le> k")
    case True
    then have s: "s = x" and x: "rank x = k" using Cons.prems(1)[of x] Cons.prems(2) by auto
    have "y \<in> set xs \<Longrightarrow> rank x \<le> rank y" for y using Cons.prems(1)[of y] x by simp
    then show ?thesis by (auto simp: s split: option.split dest: min_by_key_SomeD)
  next
    case False
    then have f: "find (\<lambda>y. rank y \<le> k) xs = Some s" using Cons.prems(2) by simp
    have m: "min_by_key rank xs = Some s" using Cons.IH Cons.prems(1) f by simp
    have "rank s \<le> k" using f by (metis (mono_tags, lifting) find_Some_iff)
    then show ?thesis using m False by (auto dest: order_trans)
  qed
qed simp

lemma find_pick:
  assumes "find P xs = Some s" "\<And>y. y \<in> set xs \<Longrightarrow> P y = (rank y \<le> k)" "\<And>y. y \<in> set xs \<Longrightarrow> k \<le> rank y"
  shows "min_by_key rank xs = Some s"
proof (rule min_by_key_find[OF assms(3)])
  have "find P xs = find (\<lambda>y. rank y \<le> k) xs" by (rule find_cong) (auto simp: assms(2))
  then show "find (\<lambda>y. rank y \<le> k) xs = Some s" using assms(1) by simp
qed auto

lemma or_else_find:
  assumes "\<And>y. y \<in> set xs \<Longrightarrow> k \<le> rank y" "\<And>y. k \<le> rank y \<Longrightarrow> P y = (rank y \<le> k)"
    "(\<And>y. y \<in> set xs \<Longrightarrow> Suc k \<le> rank y) \<Longrightarrow> r = min_by_key rank xs"
  shows "or_else (find P xs) r = min_by_key rank xs"
proof (cases "find P xs")
  case None
  have "Suc k \<le> rank y" if y: "y \<in> set xs" for y
    using None assms(1)[OF y] assms(2)[of y] y by (auto simp: find_None_iff not_less_eq_eq)
  then show ?thesis using assms(3) None by (simp add: or_else_def)
next
  case (Some s)
  have "min_by_key rank xs = Some s" by (rule find_pick[OF Some, of _ k]) (use assms(1) assms(2) in \<open>auto simp: antisym\<close>)
  then show ?thesis using Some by (simp add: or_else_def)
qed

lemma unranked_head:
  assumes "\<And>y. y \<in> set xs \<Longrightarrow> 5 \<le> source_rank y"
  shows "(if xs = [] then None else Some (hd xs)) = min_by_key source_rank xs"
proof -
  have "source_rank y = 5" if "y \<in> set xs" for y
    using assms[OF that] by (auto simp: source_rank_def split: if_splits)
  then show ?thesis by (cases xs) (auto split: option.split dest: min_by_key_SomeD)
qed

text \<open>
  The provenance row played is the first of the best rank: one that can air, a local file
  before a remote one; failing that one not known missing; failing that any; and none only when the
  entry has no row at all.
\<close>

theorem playback_source_is_best: "pick_playback_source xs = min_by_key source_rank xs"
  unfolding pick_playback_source_def Let_def
  apply (rule or_else_find[where k = 0], simp, simp add: source_rank_def)
  apply (rule or_else_find[where k = 1], simp, simp add: source_rank_def split: if_splits)
  apply (rule or_else_find[where k = 2], simp add: numeral_2_eq_2, simp add: source_rank_def split: if_splits)
  apply (rule or_else_find[where k = 3], simp add: numeral_3_eq_3 numeral_2_eq_2, simp add: source_rank_def airable_def split: if_splits)
  apply (rule or_else_find[where k = 4], simp, simp add: source_rank_def split: if_splits)
  apply (rule unranked_head, simp)
  done

section \<open>Duplicates and order\<close>

lemma collapse_from_nths:
  "collapse_from seen xs =
     map ((!) xs) (filter (\<lambda>k. ri_id (xs ! k) \<notin> seen \<union> ri_id ` set (take k xs)) [0..<length xs])"
proof (induction xs arbitrary: seen)
  case (Cons x xs)
  have u: "[0..<Suc (length xs)] = 0 # map Suc [0..<length xs]"
    by (simp add: map_Suc_upt upt_conv_Cons del: upt_Suc)
  have t: "(\<lambda>k. ri_id (xs ! k) \<notin> insert (ri_id x) seen \<union> ri_id ` set (take k xs)) =
      (\<lambda>k. ri_id (xs ! k) \<notin> seen \<and> ri_id (xs ! k) \<noteq> ri_id x \<and> ri_id (xs ! k) \<notin> ri_id ` set (take k xs))" for xs x
    by auto
  have a: "ri_id x \<in> seen \<Longrightarrow> (ri_id y \<notin> seen \<and> ri_id y \<noteq> ri_id x \<and> Q) = (ri_id y \<notin> seen \<and> Q)" for y Q
    by auto
  show ?case
    by (cases "ri_id x \<in> seen") (simp_all only: collapse_from.simps if_True if_False list.size add_Suc_right add_0_right u Cons.IH t,
        simp_all add: filter_map comp_def a conj_ac)
qed simp

text \<open>
  Collapsing duplicates keeps, in order, exactly the items whose id no earlier item has.
\<close>

theorem collapse_keeps_first:
  "collapse_duplicates items =
     map ((!) items) (filter (\<lambda>k. \<not> (\<exists>j<k. ri_id (items ! j) = ri_id (items ! k))) [0..<length items])"
proof -
  have t: "ri_id (items ! k) \<in> ri_id ` set (take k items) \<longleftrightarrow> (\<exists>j<k. ri_id (items ! j) = ri_id (items ! k))"
    if k: "k < length items" for k
  proof -
    have "set (take k items) = (!) items ` {..<k}" using k by (simp add: nth_image lessThan_atLeast0)
    then show ?thesis by (auto simp: image_iff intro: sym bexI[rotated])
  qed
  have "filter (\<lambda>k. ri_id (items ! k) \<notin> {} \<union> ri_id ` set (take k items)) [0..<length items] =
      filter (\<lambda>k. \<not> (\<exists>j<k. ri_id (items ! j) = ri_id (items ! k))) [0..<length items]"
    by (rule filter_cong) (simp_all add: t)
  then show ?thesis unfolding collapse_duplicates_def collapse_from_nths by (rule arg_cong)
qed

lemma take_ranked_mset: "take_ranked items is = (ranked, rest) \<Longrightarrow> mset ranked + mset rest = mset items"
proof (induction items "is" arbitrary: ranked rest rule: take_ranked.induct)
  case (2 items i "is")
  show ?case
  proof (cases "position (\<lambda>x. ri_id x = i) items")
    case None then show ?thesis using 2 by simp
  next
    case (Some k)
    obtain r s where rs: "take_ranked (remove_at k items) is = (r, s)" by fastforce
    have m: "mset r + mset s = mset (remove_at k items)" using "2.IH"(2)[OF Some] rs by simp
    have k: "k < length items" using position_SomeD[OF Some] by simp
    show ?thesis using "2.prems" Some rs m mset_remove_at[OF k] by auto
  qed
qed simp

lemma subseq_remove_at: "k < length xs \<Longrightarrow> subseq (remove_at k xs) xs"
proof -
  assume k: "k < length xs"
  have "subseq (take k xs @ drop (Suc k) xs) (take k xs @ xs ! k # drop (Suc k) xs)"
    by (intro list_emb_append_mono) auto
  then show "subseq (remove_at k xs) xs" using k by (simp add: remove_at_def id_take_nth_drop[symmetric])
qed

lemma position_None: "position P xs = None \<Longrightarrow> x \<in> set xs \<Longrightarrow> \<not> P x"
  by (induction xs) (auto split: if_splits)

lemma take_ranked_order:
  "take_ranked items is = (ranked, rest) \<Longrightarrow>
     subseq rest items \<and> subseq (map ri_id ranked) is \<and>
     (\<forall>x \<in> set rest. count_list (map ri_id ranked) (ri_id x) = count_list is (ri_id x))"
proof (induction items "is" arbitrary: ranked rest rule: take_ranked.induct)
  case (2 items i "is")
  show ?case
  proof (cases "position (\<lambda>x. ri_id x = i) items")
    case None
    have h: "take_ranked items is = (ranked, rest)" using 2(3) None by simp
    note ih = "2.IH"(1)[OF None h]
    have "ri_id x \<noteq> i" if "x \<in> set rest" for x
      using position_None[OF None, of x] list_emb_set[OF conjunct1[OF ih] that] by auto
    then show ?thesis using ih by auto
  next
    case (Some k)
    obtain r s where rs: "take_ranked (remove_at k items) is = (r, s)" by fastforce
    note ih = "2.IH"(2)[OF Some rs]
    have k: "k < length items" "ri_id (items ! k) = i" using position_SomeD[OF Some] by auto
    have e: "ranked = items ! k # r" "rest = s" using "2.prems" Some rs by auto
    show ?thesis using ih k(2) subseq_order.trans[OF conjunct1[OF ih] subseq_remove_at[OF k(1)]] by (auto simp: e)
  qed
qed simp

text \<open>
  Reordering a block by a ranking loses and invents nothing: the ranked part follows the
  ranking, the items it does not consume follow in authored order, and an item only falls to that
  tail when every place the ranking gives its id is taken.
\<close>

theorem reorder_loses_nothing:
  "mset (reorder_to items ids) = mset items \<and>
   (\<exists>ranked rest. reorder_to items ids = ranked @ rest \<and> subseq rest items \<and> subseq (map ri_id ranked) ids \<and>
      (\<forall>x \<in> set rest. count_list (map ri_id ranked) (ri_id x) = count_list ids (ri_id x)))"
proof -
  obtain ranked rest where r: "take_ranked items ids = (ranked, rest)" by fastforce
  show ?thesis using take_ranked_mset[OF r] take_ranked_order[OF r] by (auto simp: reorder_to_def r)
qed

theorem reorder_loses_nothing_witness:
  "let a = bare_item ''a'' (LavfiSource ''x''); b = bare_item ''b'' (LavfiSource ''x'') in
   mset (reorder_to [a, b, a] [''b'', ''a'']) = mset [a, b, a] \<and> reorder_to [a, b, a] [''b'', ''a''] = [b, a, a]"
  using reorder_loses_nothing[of "[bare_item ''a'' (LavfiSource ''x''), bare_item ''b'' (LavfiSource ''x''), bare_item ''a'' (LavfiSource ''x'')]"
      "[''b'', ''a'']"]
  by (simp add: Let_def reorder_to_def bare_item_def remove_at_def)

section \<open>The entries list loops\<close>

lemma covering_from_least:
  "covering_from lain ds fill = Some n \<Longrightarrow>
     1 \<le> n \<and> n \<le> length ds \<and> fill \<le> lain + sum_list (take n ds) \<and>
     (\<forall>m. 1 \<le> m \<longrightarrow> m < n \<longrightarrow> lain + sum_list (take m ds) < fill)"
proof (induction ds arbitrary: lain n)
  case (Cons d ds)
  show ?case
  proof (cases "fill \<le> lain + d")
    case False
    then obtain n' where n': "covering_from (lain + d) ds fill = Some n'" "n = Suc n'" using Cons.prems by auto
    note ih = Cons.IH[OF n'(1)]
    have "lain + sum_list (take m (d # ds)) < fill" if "1 \<le> m" "m < n" for m
      using ih that False n'(2) by (cases m; cases "m - 1") (auto simp: add.assoc)
    then show ?thesis using ih n'(2) by (auto simp: add.assoc)
  qed (use Cons.prems in auto)
qed simp

lemma covering_from_None: "covering_from lain ds fill = None \<Longrightarrow> ds \<noteq> [] \<Longrightarrow> lain + sum_list ds < fill"
proof (induction ds arbitrary: lain)
  case (Cons d ds)
  have h: "lain + d < fill" "covering_from (lain + d) ds fill = None" using Cons.prems(1) by (auto split: if_splits)
  show ?case using h Cons.IH[OF h(2)] by (cases "ds = []") (simp_all add: add.assoc)
qed simp

lemma items_to_cover_least:
  assumes "ds \<noteq> []"
  shows "1 \<le> items_to_cover ds fill \<and> items_to_cover ds fill \<le> length ds \<and>
     (fill \<le> sum_list (take (items_to_cover ds fill) ds) \<or> items_to_cover ds fill = length ds) \<and>
     (\<forall>m. 1 \<le> m \<longrightarrow> m < items_to_cover ds fill \<longrightarrow> sum_list (take m ds) < fill)"
proof (cases "covering_from 0 ds fill")
  case None
  have n: "items_to_cover ds fill = length ds" using None assms by (cases ds) (simp_all add: items_to_cover_def max_def)
  have "sum_list (take m ds) \<le> sum_list ds" for m
    by (metis append_take_drop_id le_add1 sum_list_append)
  then show ?thesis using covering_from_None[OF None assms] n assms by (auto simp: Suc_le_eq intro: le_less_trans)
next
  case (Some n)
  then show ?thesis using covering_from_least[OF Some] by (simp add: items_to_cover_def)
qed

lemma estimated_runtimes_length: "length (estimated_runtimes items catalog nominal) = length items"
  by (simp add: estimated_runtimes_def fill_runtimes_def Let_def split: option.split sum.split)

lemma take_rotate:
  assumes "n \<le> length xs" "xs \<noteq> []"
  shows "take n (rotate k xs) = map (\<lambda>i. xs ! ((k + i) mod length xs)) [0..<n]"
  using assms by (intro nth_equalityI) (auto simp: nth_rotate add.commute)

text \<open>One generation's share of the list, and the position it leaves.\<close>

fun generations ::
  "channel_rows \<Rightarrow> duration \<Rightarrow> nat \<Rightarrow> (duration option \<times> item_catalog option) list \<Rightarrow> resolved_item list \<times> nat" where
  "generations rows nominal pos [] = ([], pos)"
| "generations rows nominal pos ((fill, catalog) # gens) =
     (case cut_entries_window rows 0 (length (rw_items rows)) pos fill catalog nominal of
        (_, None) \<Rightarrow> ([], pos)
      | (served, Some seat) \<Rightarrow>
          (let (rest, final) = generations rows nominal (entries_position seat (es_laid seat)) gens
           in (rw_items served @ rest, final)))"

lemma cut_laid:
  assumes c: "cut_entries_window rows first past pos fill catalog nominal = (rows', Some seat)"
    and p: "past \<le> length (rw_items rows)"
  shows "es_total seat = past - first \<and> first < past \<and> 1 \<le> es_laid seat \<and> es_laid seat \<le> past - first \<and>
    es_start seat = pos mod (past - first) \<and>
    rw_items rows' = put_span first past
      (map (\<lambda>i. span_of first past (rw_items rows) ! ((pos + i) mod (past - first))) [0..<es_laid seat]) (rw_items rows)"
proof -
  let ?items = "span_of first past (rw_items rows)"
  obtain start lain where w: "entries_window ?items pos fill catalog nominal = (start, lain)" by fastforce
  have ne: "first < past" using c by (auto simp: cut_entries_window_def split: if_splits)
  have len: "length ?items = past - first" using p by (simp add: span_of_def)
  then have ne': "?items \<noteq> []" using ne by auto
  have start: "start = pos mod (past - first)" using w len by (simp add: entries_window_def Let_def)
  have lain: "1 \<le> lain \<and> lain \<le> past - first"
    using w items_to_cover_least[of "rotate start (estimated_runtimes ?items catalog nominal)"] ne ne' len
    by (cases fill) (auto simp: entries_window_def Let_def estimated_runtimes_length start simp flip: length_0_conv)
  have "take lain (rotate start ?items) = map (\<lambda>i. ?items ! ((pos + i) mod (past - first))) [0..<lain]"
    using take_rotate[of lain ?items start] lain ne' len by (simp add: start mod_add_left_eq)
  then show ?thesis using c w ne start lain by (auto simp: cut_entries_window_def Let_def)
qed

lemma upt_shift: "map ((+) k) [0..<m] = [k..<k + m]"
  by (induction m) auto

text \<open>
  Claim C22. The generations of a channel play its list in a loop: whatever airtime each asks for,
  the items they lay, one generation after the other, are the list read cyclically from the first
  position, none skipped and none repeated at the seams; and the position left is where that stops.
\<close>

theorem entries_list_loops:
  assumes "rw_items rows \<noteq> []" "generations rows nominal pos gens = (played, final)"
  shows "played = map (\<lambda>i. rw_items rows ! ((pos + i) mod length (rw_items rows))) [0..<length played] \<and>
         length gens \<le> length played \<and> final mod length (rw_items rows) = (pos + length played) mod length (rw_items rows)"
  using assms(2)
proof (induction gens arbitrary: pos played final)
  case (Cons g gens)
  let ?n = "length (rw_items rows)" let ?at = "\<lambda>p i. rw_items rows ! ((p + i) mod ?n)"
  obtain fill catalog where g: "g = (fill, catalog)" by fastforce
  have "snd (cut_entries_window rows 0 ?n pos fill catalog nominal) \<noteq> None"
    using assms(1) by (simp add: cut_entries_window_def split_def Let_def)
  then obtain served seat where c: "cut_entries_window rows 0 ?n pos fill catalog nominal = (served, Some seat)"
    by (metis option.collapse prod.collapse)

  let ?pos = "entries_position seat (es_laid seat)" let ?k = "es_laid seat"
  obtain rest where r: "generations rows nominal ?pos gens = (rest, final)" "played = rw_items served @ rest"
    using Cons.prems by (cases "generations rows nominal ?pos gens") (simp add: g c)
  note laid = cut_laid[OF c order_refl]
  have served: "rw_items served = map (?at pos) [0..<?k]" using laid by (simp add: put_span_def span_of_def)
  have k: "1 \<le> ?k" using laid by blast
  have pos: "?pos mod ?n = (pos + ?k) mod ?n" using laid by (simp add: entries_position_def mod_add_left_eq)
  note ih = Cons.IH[OF r(1)]
  have shift: "(?pos + i) mod ?n = (pos + (?k + i)) mod ?n" for i
    using pos by (simp only: add.assoc[symmetric]) (rule mod_add_cong, simp_all)
  have "rest = map (?at ?pos) [0..<length rest]" using ih by (rule conjunct1)
  also have "\<dots> = map (?at pos) (map ((+) ?k) [0..<length rest])" by (simp add: shift)
  finally have rest: "rest = map (?at pos) [?k..<?k + length rest]"
    by (simp only: upt_shift)
  have "[0..<length played] = [0..<?k] @ [?k..<?k + length rest]"
    using r(2) served upt_add_eq_append[of 0 ?k "length rest"] by simp
  then have "played = map (?at pos) [0..<length played]" using rest r(2) served by simp
  moreover have "final mod ?n = (pos + length played) mod ?n" using ih shift[of "length rest"] r(2) served by (simp add: add.assoc)
  moreover have "length (g # gens) \<le> length played"
    using ih r(2) served k by simp
  ultimately show ?case by blast
qed simp

definition looped_rows :: channel_rows where
  "looped_rows =
     (let items = map (\<lambda>i. bare_item i (LavfiSource ''black'')) [''a'', ''b'', ''c''] in
      \<lparr>rw_items = items, rw_limits = replicate 3 limits_default,
       rw_fields = [None, None, None], rw_steps = map EntryStep [0, 1, 2]\<rparr>)"

theorem entries_list_loops_witness:
  "map ri_id (fst (generations looped_rows 10 2 [(Some 15, None), (Some 15, None)])) = [''c'', ''a'', ''b'', ''c'']"
proof -
  have ne: "rw_items looped_rows \<noteq> []" by (simp add: looped_rows_def)
  have len: "length (fst (generations looped_rows 10 2 [(Some 15, None), (Some 15, None)])) = 4" by code_simp
  have "fst (generations looped_rows 10 2 [(Some 15, None), (Some 15, None)]) =
      map (\<lambda>i. rw_items looped_rows ! ((2 + i) mod length (rw_items looped_rows))) [0..<4]"
    using conjunct1[OF entries_list_loops[OF ne prod.collapse[symmetric], of 10 2 "[(Some 15, None), (Some 15, None)]"]]
    unfolding len .
  moreover have "map ri_id (map (\<lambda>i. rw_items looped_rows ! ((2 + i) mod length (rw_items looped_rows))) [0..<4]) =
      [''c'', ''a'', ''b'', ''c'']" by code_simp
  ultimately show ?thesis by (simp only:)
qed

text \<open>
  A generation lays the fewest items, at least one, whose expected runtimes cover the
  airtime wanted, and one pass of the list when the whole of it does not.
\<close>

theorem entries_cut_is_least:
  assumes "items \<noteq> []"
    "entries_window items pos (Some fill) catalog nominal = (start, n)"
    "runtimes = rotate start (estimated_runtimes items catalog nominal)"
  shows "start = pos mod length items \<and> 1 \<le> n \<and> n \<le> length items \<and>
    (fill \<le> sum_list (take n runtimes) \<or> n = length items) \<and> (\<forall>m. 1 \<le> m \<longrightarrow> m < n \<longrightarrow> sum_list (take m runtimes) < fill)"
proof -
  have len: "length runtimes = length items" by (simp add: assms(3) estimated_runtimes_length)
  then have ne: "runtimes \<noteq> []" using assms(1) by auto
  have n: "n = items_to_cover runtimes fill" "start = pos mod length items"
    using assms(2,3) by (auto simp: entries_window_def Let_def)
  show ?thesis using items_to_cover_least[OF ne, of fill] n len by simp
qed

theorem entries_cut_is_least_witness:
  "entries_window (rw_items looped_rows) 5 (Some 15) None 10 = (2, 2) \<and>
   sum_list (take 1 (rotate 2 (estimated_runtimes (rw_items looped_rows) None 10))) < 15"
proof -
  have w: "entries_window (rw_items looped_rows) 5 (Some 15) None 10 = (2, 2)" by code_simp
  have ne: "rw_items looped_rows \<noteq> []" by (simp add: looped_rows_def)
  show ?thesis using entries_cut_is_least[OF ne w refl] w by simp
qed

section \<open>The state entering an item\<close>

text \<open>How far into block \<open>b\<close> the items \<open>ss\<close> reach: just past the furthest of them.\<close>

fun reach_of :: "nat \<Rightarrow> step list \<Rightarrow> nat" where
  "reach_of b [] = 0"
| "reach_of b (PoolStep b' seq # ss) = (if b' = b then max (seq + 1) (reach_of b ss) else reach_of b ss)"
| "reach_of b (EntryStep _ # ss) = reach_of b ss"

fun entries_reach :: "step list \<Rightarrow> nat" where
  "entries_reach [] = 0"
| "entries_reach (PoolStep _ _ # ss) = entries_reach ss"
| "entries_reach (EntryStep off # ss) = max (off + 1) (entries_reach ss)"

lemma reach_of_past: "PoolStep b seq \<in> set ss \<Longrightarrow> seq < reach_of b ss"
  by (induction b ss rule: reach_of.induct) (auto simp: less_max_iff_disj)

lemma entries_reach_past: "EntryStep off \<in> set ss \<Longrightarrow> off < entries_reach ss"
  by (induction ss rule: entries_reach.induct) (auto simp: less_max_iff_disj)

lemma upt_Suc_map: "[0..<Suc n] = 0 # map Suc [0..<n]"
  by (simp add: map_Suc_upt upt_conv_Cons del: upt_Suc)

definition reached :: "nat list \<Rightarrow> step list \<Rightarrow> nat list" where
  "reached aired ss = map (\<lambda>b. max (aired ! b) (reach_of b ss)) [0..<length aired]"

lemma reached_Nil: "reached aired [] = aired"
  by (simp add: reached_def map_nth)

lemma reached_PoolStep: "reached (aired[b := max (aired ! b) (Suc seq)]) ss = reached aired (PoolStep b seq # ss)"
  by (auto simp: reached_def nth_list_update max.assoc)

lemma reached_EntryStep: "reached aired (EntryStep off # ss) = reached aired ss"
  by (simp add: reached_def)

lemma reached_fresh: "reached (replicate n 0) ss = map (\<lambda>b. reach_of b ss) [0..<n]"
  by (simp add: reached_def)

lemma progress_walk_reach:
  "progress_walk pool_progress seat idle steps aired n =
     map (\<lambda>k. \<lparr>st_pools = pools_entering pool_progress (reached aired (take k steps)),
              st_position = (case seat of None \<Rightarrow> idle | Some s \<Rightarrow> entries_position s (max n (entries_reach (take k steps)))),
              st_slot_positions = [], st_rotations = []\<rparr>) [0..<length steps]"
proof (induction steps arbitrary: aired n)
  case (Cons step steps)
  show ?case
    by (cases step) (simp_all add: upt_Suc_map Cons.IH reached_Nil reached_PoolStep reached_EntryStep max.assoc
        del: upt_Suc split: option.split)
qed simp

text \<open>
  Claim C21. There is one state per item, and the one entering item \<open>k\<close> has every block just past the
  furthest of its items among the first \<open>k\<close>, and the entries list just past the furthest laid: nothing
  already aired is ahead of it, whatever order the adjacency pass left.
\<close>

theorem progress_never_goes_back:
  "progress_per_item steps pool_progress seat idle =
     map (\<lambda>k. \<lparr>st_pools = pools_entering pool_progress (map (\<lambda>b. reach_of b (take k steps)) [0..<length pool_progress]),
              st_position = (case seat of None \<Rightarrow> idle | Some s \<Rightarrow> entries_position s (entries_reach (take k steps))),
              st_slot_positions = [], st_rotations = []\<rparr>) [0..<length steps] \<and>
   (PoolStep b seq \<in> set (take k steps) \<longrightarrow> seq < reach_of b (take k steps)) \<and>
   (EntryStep off \<in> set (take k steps) \<longrightarrow> off < entries_reach (take k steps))"
  by (simp add: progress_per_item_def progress_walk_reach reached_fresh reach_of_past entries_reach_past max_0L
      split: option.split)

theorem progress_never_goes_back_witness:
  "(2 :: nat) < reach_of 0 (take 2 [PoolStep 0 2, EntryStep 0, PoolStep 0 1])"
  using progress_never_goes_back[where b = 0 and seq = 2 and k = 2 and steps = "[PoolStep 0 2, EntryStep 0, PoolStep 0 1]"]
  by simp

end
