(* ===== verification/SequenceFacts.thy ===== *)
theory SequenceFacts
  imports Sequence PatternWalkFacts
begin

text \<open>
  What a sequencer block promises whatever its script does: nothing outside its pools airs, the
  timeline is cut at the item that crosses the window, and the series whose turn is next is read
  off the items that came back.
\<close>

section \<open>The window\<close>

lemma lay_ids_spec:
  "\<exists>n. n \<le> length ids \<and> lay_ids f fill lain ids = take n ids \<and>
     (n = length ids \<or> fill \<le> lain + sum_list (map f (take n ids))) \<and>
     (\<forall>m<n. lain + sum_list (map f (take m ids)) < fill)"
proof (induction ids arbitrary: lain)
  case (Cons i ids)
  show ?case
  proof (cases "fill \<le> lain")
    case False
    obtain n where n: "n \<le> length ids" "lay_ids f fill (lain + f i) ids = take n ids"
      "n = length ids \<or> fill \<le> lain + f i + sum_list (map f (take n ids))"
      "\<forall>m<n. lain + f i + sum_list (map f (take m ids)) < fill" using Cons.IH[of "lain + f i"] by blast
    have "\<forall>m<Suc n. lain + sum_list (map f (take m (i # ids))) < fill"
      using n(4) False by (auto simp: less_Suc_eq_0_disj add.assoc)
    then show ?thesis using n(1,2,3) False by (intro exI[of _ "Suc n"]) (auto simp: add.assoc)
  qed (auto intro: exI[of _ 0])
qed simp

text \<open>
  A timeline is cut at the item that crosses the window: what airs is a prefix of what the
  script arranged, it covers the airtime asked for unless the script returned less, and without its
  last item it would not cover it.
\<close>

theorem timeline_is_cut_at_the_window:
  assumes "truncate_to_window cat ids (Some fill) = Inr out" "ids \<noteq> []" "pool_runtimes cat ids = Inr (durations, mean)"
    "runtime = (\<lambda>i. case bt_get durations i of Some d \<Rightarrow> d | None \<Rightarrow> mean)"
  shows "\<exists>n \<le> length ids. out = take n ids \<and> (n = length ids \<or> fill \<le> sum_list (map runtime out)) \<and>
           (\<forall>m<n. sum_list (map runtime (take m ids)) < fill)"
proof -
  have "out = lay_ids runtime fill 0 ids" using assms by (simp add: truncate_to_window_def)
  then show ?thesis using lay_ids_spec[of ids runtime fill 0] by auto
qed

section \<open>Nothing foreign airs\<close>

lemma location_pool:
  assumes "item_location sps i = Some (k, si)"
  shows "k < length sps \<and> si < length (sp_series (sps ! k)) \<and> i \<in> set (s_ids (sp_series (sps ! k) ! si))"
proof -
  have "(i, k, si) \<in> set (locations sps)"
    using map_of_SomeD[of "rev (locations sps)"] assms by (simp add: item_location_def)
  then show ?thesis by (auto simp: locations_def set_zip)
qed

lemma open_seq_pool_ids:
  assumes "open_seq_pool en cat path block state ((cfg, d), ids) = Inr sp"
  shows "sp_cfg sp = cfg \<and> mset (concat (map s_ids (sp_series sp))) = mset ids"
  using assms pool_series_mset by (fastforce simp: open_seq_pool_def bind_res_Inr_iff)

lemma lay_ids_prefix: "\<exists>n. lay_ids f fill lain ids = take n ids"
  using lay_ids_spec[of ids f fill lain] by blast

lemma truncated_prefix:
  assumes "truncate_to_window cat ids fill = Inr out"
  shows "\<exists>n. out = take n ids"
proof (cases "fill = None \<or> ids = []")
  case True
  then have "out = take (length ids) ids" using assms by (auto simp: truncate_to_window_def split: option.splits)
  then show ?thesis by blast
next
  case False
  then obtain f fl where "out = lay_ids f fl 0 ids"
    using assms by (auto simp: truncate_to_window_def bind_res_Inr_iff)
  then show ?thesis using lay_ids_prefix by simp
qed

lemma seq_progress_length [simp]: "length (seq_progress sps used ids) = length ids + 1"
  by (induction sps used ids rule: seq_progress.induct) simp_all

lemma build_sequence_InrE:
  assumes "build_sequence en ar cat pools groups block path state v inputs z window = Inr b"
  obtains opens idss cache frozen sps ctx picked ids where
    "from_unix_timestamp (sw_from window) = Some opens"
    "resolve_pool_sources en cat groups inputs (zip pools (opening_dice v opens pools)) score_cache_new (rm_lists (gs_resume state)) =
       Inr (idss, cache, frozen)"
    "map_res (open_seq_pool en cat path block state) (zip (zip pools (opening_dice v opens pools)) idss) = Inr sps"
    "call_arrange ar path ctx = Inr picked" "check_ids path sps picked = Inr ()"
    "truncate_to_window cat picked (sw_fill window) = Inr ids" "b = finish_sequence sps cache frozen ids"
  using assms by (auto simp: build_sequence_def Let_def bind_res_Inr_iff)

text \<open>
  Claim C24. Whatever its script returns, a sequencer block that builds airs only items its own pools
  resolved to, in the order of a prefix of what the script arranged, with one state per item
  boundary, the last of them the one it leaves behind.
\<close>

theorem sequence_airs_its_pools:
  assumes "build_sequence en ar cat pools groups block path state v inputs z window = Inr b"
  shows "\<exists>opens idss cache frozen ctx picked n.
      from_unix_timestamp (sw_from window) = Some opens \<and>
      resolve_pool_sources en cat groups inputs (zip pools (opening_dice v opens pools)) score_cache_new (rm_lists (gs_resume state)) =
        Inr (idss, cache, frozen) \<and>
      call_arrange ar path ctx = Inr picked \<and> bb_ids b = take n picked \<and> set picked \<subseteq> \<Union> (set ` set idss) \<and>
      length (bb_progress b) = length (bb_ids b) + 1 \<and> last (bb_progress b) = bb_resume b \<and>
      length (bb_audits b) = length (bb_ids b)"
proof -
  obtain opens idss cache frozen sps ctx picked ids where b:
    "from_unix_timestamp (sw_from window) = Some opens"
    "resolve_pool_sources en cat groups inputs (zip pools (opening_dice v opens pools)) score_cache_new (rm_lists (gs_resume state)) =
       Inr (idss, cache, frozen)"
    "map_res (open_seq_pool en cat path block state) (zip (zip pools (opening_dice v opens pools)) idss) = Inr sps"
    "call_arrange ar path ctx = Inr picked" "check_ids path sps picked = Inr ()"
    "truncate_to_window cat picked (sw_fill window) = Inr ids" "b = finish_sequence sps cache frozen ids"
    using assms by (rule build_sequence_InrE)
  have known: "i \<in> \<Union> (set ` set idss)" if i: "i \<in> set picked" for i
  proof -
    let ?args = "zip (zip pools (opening_dice v opens pools)) idss"
    obtain k si where l: "item_location sps i = Some (k, si)"
      using b(5) i by (fastforce simp: check_ids_def find_None_iff split: option.splits)
    note loc = location_pool[OF l]
    have k: "k < length ?args" using loc map_res_length[OF b(3)] by simp
    obtain cfg d where a: "?args ! k = ((cfg, d), idss ! k)" using k by simp
    have "open_seq_pool en cat path block state ((cfg, d), idss ! k) = Inr (sps ! k)"
      using map_res_nth[OF b(3) k] a by simp
    then have "mset (concat (map s_ids (sp_series (sps ! k)))) = mset (idss ! k)" using open_seq_pool_ids by blast
    then have "set (concat (map s_ids (sp_series (sps ! k)))) = set (idss ! k)" by (rule mset_eq_setD)
    moreover have "i \<in> set (concat (map s_ids (sp_series (sps ! k))))" using loc by auto
    moreover have "idss ! k \<in> set idss" using k by simp
    ultimately show ?thesis by blast
  qed
  obtain n where "ids = take n picked" using truncated_prefix[OF b(6)] by blast
  then show ?thesis using b(1,2,4,7) known
    by (intro exI[of _ opens] exI[of _ idss] exI[of _ cache] exI[of _ frozen] exI[of _ ctx] exI[of _ picked] exI[of _ n])
      (auto simp: finish_sequence_def Let_def)
qed

section \<open>Whose turn is next\<close>

text \<open>The series of pool \<open>p\<close> that the ids \<open>is\<close> were drawn from, in order.\<close>

definition series_used :: "seq_pool list \<Rightarrow> nat \<Rightarrow> string list \<Rightarrow> nat list" where
  "series_used sps p ids =
     List.map_filter (\<lambda>i. case item_location sps i of Some (k, si) \<Rightarrow> if k = p then Some si else None | None \<Rightarrow> None) ids"

definition last_used :: "seq_pool list \<Rightarrow> (nat \<Rightarrow> nat option) \<Rightarrow> string list \<Rightarrow> nat \<Rightarrow> nat option" where
  "last_used sps before ids p =
     (if series_used sps p ids = [] then before p else Some (last (series_used sps p ids)))"

lemma series_used_Nil: "series_used sps p [] = []"
  by (simp add: series_used_def List.map_filter_def)

lemma series_used_Cons:
  "series_used sps p (i # is) =
     (case item_location sps i of Some (k, si) \<Rightarrow> if k = p then si # series_used sps p is else series_used sps p is
      | None \<Rightarrow> series_used sps p is)"
  by (auto simp: series_used_def List.map_filter_def split: option.split)

lemma last_used_Cons:
  "last_used sps before (i # is) =
     last_used sps (case item_location sps i of Some (k, si) \<Rightarrow> before(k := Some si) | None \<Rightarrow> before) is"
  by (rule ext) (auto simp: last_used_def series_used_Cons split: option.split)

lemma seq_progress_used:
  "k \<le> length ids \<Longrightarrow> seq_progress sps before ids ! k = seq_resume sps (last_used sps before (take k ids))"
proof (induction sps before ids arbitrary: k rule: seq_progress.induct)
  case (1 sps before)
  then show ?case by (simp add: last_used_def series_used_Nil)
next
  case (2 sps before i "is")
  show ?case
  proof (cases k)
    case 0 then show ?thesis by (simp add: last_used_def series_used_Nil)
  next
    case (Suc k')
    then show ?thesis using 2 by (simp add: last_used_Cons)
  qed
qed

lemma seq_resume_get:
  assumes "distinct (map (p_name \<circ> sp_cfg) sps)" "p < length sps"
  shows "bt_get (seq_resume sps used) (p_name (sp_cfg (sps ! p))) =
    Some (pool_resume_default\<lparr>pr_next := seq_next (sps ! p) (used p), pr_list := sp_list_key (sps ! p)\<rparr>)"
proof -
  let ?kv = "\<lambda>(k, sp). (p_name (sp_cfg sp), pool_resume_default\<lparr>pr_next := seq_next sp (used k), pr_list := sp_list_key sp\<rparr>)"
  let ?kvs = "map ?kv (zip [0..<length sps] sps)"
  have "seq_resume sps used = bt.puts ?kvs []"
    by (simp add: seq_resume_def bt.puts_def fold_map comp_def case_prod_unfold)
  moreover have "map fst ?kvs = map (p_name \<circ> sp_cfg) sps"
    by (intro nth_equalityI) auto
  moreover have "?kv (p, sps ! p) \<in> set ?kvs"
    using assms(2) by (force simp: set_zip)
  ultimately show ?thesis using bt.get_puts_distinct[of ?kvs] assms(1) by simp
qed

text \<open>
  The turn in each of a sequencer's pools passes to the series after the one its last aired
  item came from, at every item boundary, and to none while the pool has aired nothing.
\<close>

theorem sequence_turn_passes:
  assumes "distinct (map (p_name \<circ> sp_cfg) sps)" "p < length sps" "k \<le> length ids"
    and "series = sp_series (sps ! p)" "used = series_used sps p (take k ids)"
  shows "bt_get (bb_progress (finish_sequence sps cache frozen ids) ! k) (p_name (sp_cfg (sps ! p))) =
    Some (pool_resume_default
      \<lparr>pr_next := (if used = [] then None else Some (s_key (series ! ((last used + 1) mod length series)))),
       pr_list := sp_list_key (sps ! p)\<rparr>)"
proof -
  have ne: "sp_series (sps ! p) \<noteq> []" if "used \<noteq> []"
  proof -
    from that obtain si where "si \<in> set used" by (cases used) auto
    then obtain i where "item_location sps i = Some (p, si)"
      by (auto simp: assms(5) series_used_def List.map_filter_def split: option.splits if_splits)
    then show ?thesis using location_pool by fastforce
  qed
  show ?thesis
    using assms(3) ne
    by (auto simp: finish_sequence_def Let_def seq_progress_used seq_resume_get[OF assms(1,2)] seq_next_def last_used_def
        assms(4,5) simp flip: assms(5))
qed

section \<open>Two films arranged\<close>

definition swap_films :: arranger where
  "swap_films = (\<lambda>_. Inr (\<lambda>_. Inr [DynString ''y'', DynString ''x'']))"

definition from_epoch :: seq_window where
  "from_epoch = \<lparr>sw_from = 0, sw_fill = None\<rparr>"

definition film_seq_pool :: seq_pool where
  "film_seq_pool =
     \<lparr>sp_cfg = sample_cfg, sp_list_key = None, sp_series = [new_series ''x'' [''x''], new_series ''y'' [''y'']],
      sp_items = [DynString ''x'', DynString ''y''], sp_config = DynMap []\<rparr>"

definition swapped_films :: "block_build result" where
  "swapped_films =
     build_sequence film_engine swap_films film_catalog [sample_cfg] [] None ''/s'' generation_state_empty (variety_fixed 0)
       plain_inputs (fixed_zone 0) from_epoch"

lemma film_epoch: "from_unix_timestamp 0 = Some 0"
  by (simp add: from_unix_timestamp_def at_unix_def)

lemma film_seq_sources:
  "resolve_pool_sources film_engine film_catalog [] plain_inputs [(sample_cfg, fixed_dice 0)] score_cache_new
     (rm_lists (gs_resume generation_state_empty)) =
   Inr ([[''x'', ''y'']], score_cache_new, rm_lists (gs_resume generation_state_empty))"
  using film_sources[of "fixed_dice 0"] by (simp add: score_cache_new_def)

lemma film_seq_open:
  "open_seq_pool film_engine film_catalog path None generation_state_empty ((sample_cfg, fixed_dice 0), [''x'', ''y'']) = Inr film_seq_pool"
proof -
  have "p_config sample_cfg = None" "dice_key film_engine (fixed_dice 0) sample_cfg = None"
    by (simp_all add: sample_cfg_def dice_key_def list_key_def film_fields)
  then show ?thesis
    by (simp add: open_seq_pool_def film_series film_fields pool_config_dynamic_def engine_of_def new_series_def film_seq_pool_def)
qed

lemma film_location: "item_location [film_seq_pool] = [''x'' \<mapsto> (0, 0), ''y'' \<mapsto> (0, 1)]"
  by (simp add: item_location_def locations_def film_seq_pool_def new_series_def upt_rec fun_upd_twist)

lemma swapped_films_built:
  "swapped_films = Inr (finish_sequence [film_seq_pool] score_cache_new (rm_lists (gs_resume generation_state_empty)) [''y'', ''x''])"
  by (simp add: swapped_films_def build_sequence_def from_epoch_def film_epoch film_dices film_seq_sources film_seq_open Let_def ok_or_def
      call_arrange_def swap_films_def into_string_def check_ids_def film_location truncate_to_window_def upt_rec)

theorem sequence_airs_its_pools_witness:
  "\<exists>b. swapped_films = Inr b \<and> length (bb_progress b) = 3 \<and> last (bb_progress b) = bb_resume b"
proof -
  note built = swapped_films_built[unfolded swapped_films_def]
  show ?thesis
    using sequence_airs_its_pools[OF built] by (auto simp: swapped_films_built finish_sequence_def Let_def)
qed

theorem sequence_turn_passes_witness:
  "bt_get (bb_progress (finish_sequence [film_seq_pool] score_cache_new [] [''y'', ''x'']) ! 1) ''p'' =
     Some (pool_resume_default\<lparr>pr_next := Some ''x'', pr_list := None\<rparr>)"
proof -
  have "series_used [film_seq_pool] 0 [''y''] = [1]"
    by (simp add: series_used_Cons series_used_Nil film_location)
  then show ?thesis
    using sequence_turn_passes[of "[film_seq_pool]" 0 1 "[''y'', ''x'']" _ _ score_cache_new "[]", OF _ _ _ refl refl]
    by (simp add: film_seq_pool_def film_fields new_series_def)
qed

definition timed_films :: catalog where
  "timed_films = film_catalog\<lparr>cat_durations := (\<lambda>_. Inr [(''x'', 1000), (''y'', 3000)])\<rparr>"

theorem timeline_is_cut_at_the_window_witness:
  "\<exists>out. truncate_to_window timed_films [''y'', ''x'', ''z'', ''x''] (Some (dur_of_secs 5)) = Inr out \<and>
     length out \<le> 4 \<and> out = [''y'', ''x'', ''z'']"
proof -
  have r: "pool_runtimes timed_films [''y'', ''x'', ''z'', ''x''] =
      Inr ([(''x'', dur_of_millis 1000), (''y'', dur_of_millis 3000)], dur_of_millis 2000)"
    by (simp add: pool_runtimes_def timed_films_def usable_runtimes_def max_catalog_duration_ms_def mean_duration_def dur_of_millis_def Let_def
        numeral_2_eq_2[symmetric])
  have t: "truncate_to_window timed_films [''y'', ''x'', ''z'', ''x''] (Some (dur_of_secs 5)) = Inr [''y'', ''x'', ''z'']"
    by (simp add: truncate_to_window_def r dur_of_millis_def dur_of_secs_def)
  show ?thesis using timeline_is_cut_at_the_window[OF t _ r refl] t by auto
qed

end
