(* ===== verification/BlockFacts.thy ===== *)
theory BlockFacts
  imports Blocks ChannelFacts SequenceFacts RotationFacts
begin

text \<open>
  What resolving a block promises: hydration keeps every item's place, the bulk read builds the items
  the single reads would, a chronology keeps each of its references, a collapsed block repeats
  nothing, and the items of a pool block keep the place of their draw.
\<close>

section \<open>Hydration\<close>

text \<open>One airing before and after: the same identity, block and audit trail.\<close>

definition same_place :: "resolved_item \<Rightarrow> resolved_item \<Rightarrow> bool" where
  "same_place a b \<longleftrightarrow>
     ri_id b = ri_id a \<and> ri_block b = ri_block a \<and> ri_metadata b = ri_metadata a \<and> (is_pending a \<or> b = a)"

lemma fill_in_places: "fill_in built items = Inr out \<Longrightarrow> list_all2 same_place items out"
proof (induction built items arbitrary: out rule: fill_in.induct)
  case (2 built item items)
  show ?case
  proof (cases "is_pending item")
    case False
    then show ?thesis using "2.prems" "2.IH"(1) by (auto simp: bind_res_Inr_iff same_place_def)
  next
    case True
    then obtain k where k: "position (\<lambda>(idx, full). idx = ri_block item \<and> ri_id full = ri_id item) built = Some k"
      using "2.prems" by (auto split: option.splits)
    then obtain rest where r: "fill_in (remove_at k built) items = Inr rest"
      "out = (snd (built ! k))\<lparr>ri_block := ri_block item, ri_metadata := ri_metadata item\<rparr> # rest"
      using "2.prems" True by (auto simp: bind_res_Inr_iff)
    have "ri_id (snd (built ! k)) = ri_id item" using position_SomeD[OF k] by (auto split: prod.splits)
    moreover have "list_all2 same_place items rest" using "2.IH"(2) True k r(1) by simp
    moreover have "same_place item ((snd (built ! k))\<lparr>ri_block := ri_block item, ri_metadata := ri_metadata item\<rparr>)"
      using True calculation(1) by (simp add: same_place_def)
    ultimately show ?thesis using r(2) by simp
  qed
qed simp







lemma get_without [simp]: "bt_get (without j m) i = (if i = j then None else bt_get m i)"
  by (induction m) (auto simp: without_def)









section \<open>The bulk read\<close>

text \<open>The rows of a bulk read are those the single reads give.\<close>

definition rows_agree :: "item_catalog \<Rightarrow> bulk_tables \<Rightarrow> bool" where
  "rows_agree cat t \<longleftrightarrow>
     (\<forall>i e src. bt_get (bk_entries t) i = Some e \<longrightarrow> bt_get (bk_sources t) i = Some src \<longrightarrow>
        ic_entry cat i = Inr (Some e) \<and> ic_sources_of cat i = Inr src \<and> catalog_tags_of cat i = Inr (bulk_tags t i))"

lemma rows_agree_take_rows: "rows_agree cat t \<Longrightarrow> rows_agree cat (take_rows i t)"
  by (simp add: rows_agree_def take_rows_def bulk_tags_def)

lemma rows_agree_take_tags: "rows_agree cat t \<Longrightarrow> rows_agree cat (take_tags i (take_rows i t))"
  by (simp add: rows_agree_def take_rows_def take_tags_def bulk_tags_def get_tags_def)

lemma items_from_single:
  "rows_agree cat t \<Longrightarrow>
     items_from cat d g t ids =
       bind_res (map_res (\<lambda>i. catalog_item cat i d g) ids) (\<lambda>items. Inr (concat (map list_of_option items)))"
proof (induction ids arbitrary: t)
  case (Cons i ids)
  note rows = Cons.IH[OF rows_agree_take_rows[OF Cons.prems, of i]]
  note both = Cons.IH[OF rows_agree_take_tags[OF Cons.prems, of i]]
  show ?case
  proof (cases "bt_get (bk_entries t) i = None \<or> bt_get (bk_sources t) i = None")
    case True
    then show ?thesis
      by (auto simp: rows bind_res_def split: option.split sum.split)
  next
    case False
    then obtain e src where es: "bt_get (bk_entries t) i = Some e" "bt_get (bk_sources t) i = Some src" by auto
    then have "catalog_item cat i d g = Inr (build_catalog_item e src (bulk_tags t i) d g)"
      using Cons.prems by (simp add: rows_agree_def catalog_item_def)
    then show ?thesis by (simp add: es both bind_res_def split: sum.split)
  qed
qed simp

text \<open>
  Building many items from one bulk read gives what reading each id on its own gives, item by
  item and error by error, also when an id repeats and its rows have been used up.
\<close>

theorem bulk_items_are_single_items:
  assumes "bulk_read cat ids = Inr t" "rows_agree cat t"
  shows "catalog_items cat ids d g =
    bind_res (map_res (\<lambda>i. catalog_item cat i d g) ids) (\<lambda>items. Inr (concat (map list_of_option items)))"
  using assms by (simp add: catalog_items_def items_from_single)

section \<open>Chronologies\<close>

lemma match_refs_spec:
  "match_refs cat ch seen rs = Inr out \<Longrightarrow>
     map snd out = rs \<and> (\<forall>(i, r) \<in> set out. cat_query (ic_base cat) (cr_query r) = Inr [i]) \<and>
     distinct (map fst out) \<and> fst ` set out \<inter> fst ` set seen = {}"
proof (induction cat ch seen rs arbitrary: out rule: match_refs.induct)
  case (2 cat ch seen r rs)
  obtain matched where m: "cat_query (ic_base cat) (cr_query r) = Inr matched"
    using "2.prems" by (auto simp: bind_res_Inr_iff)
  obtain i where i: "matched = [i]" using "2.prems" m by (auto split: list.splits)
  have s: "map_of seen i = None" using "2.prems" m i by (auto split: option.splits)
  obtain rest where rest: "match_refs cat ch ((i, r) # seen) rs = Inr rest" "out = (i, r) # rest"
    using "2.prems" m i s by (auto simp: bind_res_Inr_iff)
  note ih = "2.IH"[OF i refl s rest(1)]
  show ?case using ih rest(2) m i s by (auto simp: map_of_eq_None_iff)
qed simp

lemma pending_of_all:
  "pending_of cat sources ids = Inr out \<Longrightarrow> (\<And>i. i \<in> set ids \<Longrightarrow> bt_get sources i \<noteq> None) \<Longrightarrow> out = map pending_item ids"
  by (induction ids arbitrary: out) (auto simp: bind_res_Inr_iff)

text \<open>
  A chronology that resolves airs every one of its references, in its authored order: one
  item each, the only one its query matches, and no item twice.
\<close>

theorem chronology_keeps_its_order:
  assumes "resolve_chronology cat entry = Inr items"
  shows "\<exists>ch ids. che_resolved entry = Some ch \<and> items = map pending_item ids \<and> distinct ids \<and>
    list_all2 (\<lambda>r i. cat_query (ic_base cat) (cr_query r) = Inr [i]) (ch_entries ch) ids"
proof -
  obtain ch where ch: "che_resolved entry = Some ch" using assms by (auto simp: resolve_chronology_def split: option.splits)
  obtain matched where m: "match_refs cat ch [] (ch_entries ch) = Inr matched"
    using assms ch by (auto simp: resolve_chronology_def bind_res_Inr_iff)
  obtain sources where s: "ic_sources cat (map fst matched) = Inr sources"
    using assms ch m by (auto simp: resolve_chronology_def bind_res_Inr_iff)
  have f: "find (\<lambda>(i, _). bt_get sources i = None) matched = None" and p: "pending_items cat (map fst matched) = Inr items"
    using assms ch m s by (auto simp: resolve_chronology_def split: option.splits prod.splits)
  have "\<And>i. i \<in> set (map fst matched) \<Longrightarrow> bt_get sources i \<noteq> None" using f by (fastforce simp: find_None_iff)
  then have items: "items = map pending_item (map fst matched)"
    using p s pending_of_all[of cat sources "map fst matched" items] by (simp add: pending_items_def)
  note spec = match_refs_spec[OF m]
  have "list_all2 (\<lambda>r i. cat_query (ic_base cat) (cr_query r) = Inr [i]) (map snd matched) (map fst matched)"
    using conjunct1[OF conjunct2[OF spec]] by (auto simp: list.rel_map list_all2_same)
  then show ?thesis using ch items spec by (intro exI[of _ ch] exI[of _ "map fst matched"]) simp
qed

section \<open>Flat blocks\<close>

lemma collapse_from_distinct:
  "distinct (map ri_id (collapse_from seen xs)) \<and> seen \<inter> ri_id ` set (collapse_from seen xs) = {}"
  by (induction seen xs rule: collapse_from.induct) auto

lemma reorder_ids: "mset (map ri_id (reorder_to items ids)) = mset (map ri_id items)"
proof -
  have "mset (reorder_to items ids) = mset items"
    using take_ranked_mset[OF surjective_pairing] by (simp add: reorder_to_def case_prod_beta)
  then show ?thesis by simp
qed

lemma in_order_ids: "in_order env idx seed ord items = Inr out \<Longrightarrow> mset (map ri_id out) = mset (map ri_id items)"
  using reorder_ids by (auto simp: in_order_def apply_order_def bind_res_Inr_iff needs_catalog_def split: if_splits)

lemma take_mode_prefix: "\<exists>n. take_mode m xs = take n xs"
proof (cases m)
  case AllItems
  then have "take_mode m xs = take (length xs) xs" by (simp add: take_mode_def)
  then show ?thesis by blast
qed (auto simp: take_mode_def)

text \<open>
  A flat block that collapses duplicates never repeats an id, whatever its entries overlap
  in and whatever its order; \<open>count\<close> caps it; and it counts its items from the top.
\<close>

theorem collapsed_block_repeats_nothing:
  assumes "resolve_entries env idx b seed = Inr out" "block_duplicates b = Collapse"
  shows "distinct (map ri_id (bk_items out)) \<and> bk_steps out = map EntryStep [0..<length (bk_items out)] \<and>
    (\<forall>n. bi_mode b = CountItems n \<longrightarrow> length (bk_items out) \<le> n)"
proof -
  obtain items ord ordered where
    o: "in_order env idx seed ord (collapse_duplicates items) = Inr ordered"
       "out = \<lparr>bk_items = take_mode (bi_mode b) ordered, bk_steps = map EntryStep [0..<length (take_mode (bi_mode b) ordered)], bk_progress = []\<rparr>"
    using assms by (auto simp: resolve_entries_def bind_res_Inr_iff Let_def)
  have "distinct (map ri_id ordered)"
    using in_order_ids[OF o(1)] collapse_from_distinct[of "{}" items] mset_eq_imp_distinct_iff
    unfolding collapse_duplicates_def by blast
  moreover obtain n where "take_mode (bi_mode b) ordered = take n ordered" using take_mode_prefix by blast
  ultimately have "distinct (map ri_id (take_mode (bi_mode b) ordered))" by (simp add: take_map[symmetric])
  then show ?thesis using o(2) by (auto simp: take_mode_def)
qed

section \<open>Pool blocks\<close>

definition drawn_at :: "resolved_item option list \<Rightarrow> nat \<Rightarrow> resolved_item \<times> step \<Rightarrow> bool" where
  "drawn_at items idx p \<longleftrightarrow> (\<exists>seq < length items. items ! seq = Some (fst p) \<and> snd p = PoolStep idx seq)"

fun seq_of :: "step \<Rightarrow> nat" where
  "seq_of (PoolStep _ seq) = seq"
| "seq_of (EntryStep off) = off"

definition playable_draws :: "nat \<Rightarrow> resolved_item option list \<Rightarrow> (resolved_item \<times> step) list" where
  "playable_draws idx items =
     List.map_filter (\<lambda>(seq, item). map_option (\<lambda>item. (item, PoolStep idx seq)) item) (zip [0..<length items] items)"

lemma playable_snoc:
  "playable_draws idx (items @ [x]) =
     playable_draws idx items @ (case x of None \<Rightarrow> [] | Some item \<Rightarrow> [(item, PoolStep idx (length items))])"
  by (cases x) (simp_all add: playable_draws_def List.map_filter_def)

lemma playable_spec:
  "sorted_wrt (<) (map (seq_of \<circ> snd) (playable_draws idx items)) \<and>
   (\<forall>p \<in> set (playable_draws idx items). drawn_at items idx p) \<and>
   map fst (playable_draws idx items) = List.map_filter id items"
proof (induction items rule: rev_induct)
  case (snoc x items)
  have "drawn_at items idx p \<Longrightarrow> drawn_at (items @ [x]) idx p" for p
    by (auto simp: drawn_at_def nth_append less_Suc_eq)
  moreover have "drawn_at items idx p \<Longrightarrow> seq_of (snd p) < length items" for p
    by (auto simp: drawn_at_def)
  ultimately show ?case using snoc
    by (cases x) (auto simp: playable_snoc sorted_wrt_append drawn_at_def List.map_filter_def nth_append)
qed (simp add: playable_draws_def List.map_filter_def)

lemma take_mode_map: "take_mode m (map f xs) = map f (take_mode m xs)"
  by (simp add: take_mode_def take_map split: mode.split)

text \<open>
  The items of a pattern or sequencer block are its draws that have something to play, in draw
  order; each keeps the index of its own draw, so a row nothing can play still counts as drawn.
\<close>

theorem drawn_items_keep_their_place:
  assumes "resolve_pool_block_items env cat idx b blk = Inr out"
  shows "\<exists>drawn. map_res (pool_item env cat b blk) (zip (bb_ids blk) (bb_audits blk)) = Inr drawn \<and>
    bk_items out = take_mode (bi_mode b) (List.map_filter id drawn) \<and>
    length (bk_steps out) = length (bk_items out) \<and> sorted_wrt (<) (map seq_of (bk_steps out)) \<and>
    (\<forall>k < length (bk_items out). \<exists>seq < length drawn. bk_steps out ! k = PoolStep idx seq \<and> drawn ! seq = Some (bk_items out ! k))"
proof -
  obtain drawn where d: "map_res (pool_item env cat b blk) (zip (bb_ids blk) (bb_audits blk)) = Inr drawn"
    using assms by (auto simp: resolve_pool_block_items_def bind_res_Inr_iff)
  obtain kept where kept: "kept = take_mode (bi_mode b) (playable_draws idx drawn)" by blast
  have out: "bk_items out = map fst kept" "bk_steps out = map snd kept"
    using assms d by (auto simp: resolve_pool_block_items_def playable_draws_def take_mode_map Let_def kept)
  obtain n where n: "kept = take n (playable_draws idx drawn)" using take_mode_prefix kept by blast
  note spec = playable_spec[of idx drawn]
  have "take_mode (bi_mode b) (List.map_filter id drawn) = map fst kept"
    using spec by (simp add: kept take_mode_map[symmetric])
  moreover have "sorted_wrt (<) (map (seq_of \<circ> snd) kept)"
    using spec by (simp add: n take_map[symmetric] sorted_wrt_take)
  moreover have "\<forall>p \<in> set kept. drawn_at drawn idx p" using spec by (auto simp: n dest: in_set_takeD)
  ultimately show ?thesis
    using d by (intro exI[of _ drawn]) (auto simp: out drawn_at_def all_set_conv_all_nth)
qed

section \<open>A library of two films\<close>

definition film_row :: "string \<Rightarrow> catalog_entry" where
  "film_row i =
     \<lparr>en_id = i, en_kind = ''movie'', en_title = i, en_show = None, en_season = None, en_episode = None,
      en_absolute_episode = None, en_edition = None, en_studio = None, en_year = None, en_release_date = None,
      en_duration_ms = Some 1000, en_content_rating = None, en_summary = None, en_library = None,
      en_artwork_cache_path = None\<rparr>"

definition film_source :: entry_source where
  "film_source = \<lparr>es_source = SourceLocalFs, es_playback_path = ''/films/x.mkv'', es_missing_since = None, es_unairable_reason = None\<rparr>"

definition film_items :: item_catalog where
  "film_items =
     \<lparr>ic_base = film_catalog, ic_entry = (\<lambda>i. Inr (if i \<in> {''x'', ''y''} then Some (film_row i) else None)),
      ic_entries = (\<lambda>_. Inr [(''x'', film_row ''x''), (''y'', film_row ''y'')]),
      ic_sources = (\<lambda>_. Inr [(''x'', [film_source]), (''y'', [film_source])]), ic_tags = (\<lambda>_ _. Inr []),
      ic_sources_of = (\<lambda>_. Inr [film_source]), ic_collections = (\<lambda>_. Inr []), ic_members = (\<lambda>_. Inr []),
      ic_all_episodes = (\<lambda>_. Inr False)\<rparr>"

definition film_env :: resolve_env where
  "film_env =
     \<lparr>re_en = film_engine, re_arranger = swap_films, re_catalog = Some film_items, re_identity_roots = [],
      re_path_index = None, re_groups = [], re_variety = variety_fixed 0, re_inputs = plain_inputs,
      re_zone = fixed_zone 0, re_channel_guide = None, re_order_dbg = (\<lambda>_. []), re_guide = (\<lambda>_. undefined)\<rparr>"

definition film_tables :: bulk_tables where
  "film_tables =
     \<lparr>bk_entries = [(''x'', film_row ''x''), (''y'', film_row ''y'')],
      bk_sources = [(''x'', [film_source]), (''y'', [film_source])], bk_genres = [], bk_cast = [], bk_directors = [],
      bk_writers = [], bk_countries = []\<rparr>"

definition film_of :: "string \<Rightarrow> resolved_item option" where
  "film_of i = build_catalog_item (film_row i) [film_source] (bulk_tags film_tables i) None None"

lemma film_bulk: "bulk_read film_items ids = Inr film_tables"
  by (simp add: bulk_read_def film_items_def film_tables_def)

lemma film_agrees: "rows_agree film_items film_tables"
  by (simp add: rows_agree_def film_items_def film_tables_def film_catalog_def sample_catalog_def catalog_tags_of_def
      bulk_tags_def get_tags_def)

lemma film_single: "i \<in> {''x'', ''y''} \<Longrightarrow> catalog_item film_items i None None = Inr (film_of i)"
  by (auto simp: catalog_item_def film_items_def film_of_def catalog_tags_of_def film_catalog_def sample_catalog_def
      bulk_tags_def film_tables_def get_tags_def)

lemma film_of_some: "\<exists>item. film_of i = Some item \<and> ri_id item = i"
  by (simp add: film_of_def build_catalog_item_def pick_playback_source_def airable_def film_source_def or_else_def
      bare_item_def film_row_def)

theorem bulk_items_are_single_items_witness:
  "catalog_items film_items [''x'', ''y'', ''x''] None None =
     Inr (list_of_option (film_of ''x'') @ list_of_option (film_of ''y'') @ list_of_option (film_of ''x''))"
  using bulk_items_are_single_items[OF film_bulk film_agrees, of "[''x'', ''y'', ''x'']" None None]
  by (simp add: film_single)




definition films_in_order :: chronology_entry where
  "films_in_order =
     \<lparr>che_name = ''saga'', che_resolved = Some \<lparr>ch_name = ''saga'',
        ch_entries = [\<lparr>cr_position = 1, cr_show = None, cr_season = None, cr_episode = None, cr_title = Some ''x'', cr_year = None\<rparr>]\<rparr>\<rparr>"

definition one_match :: item_catalog where
  "one_match = film_items\<lparr>ic_base := film_catalog\<lparr>cat_query := (\<lambda>_. Inr [''x''])\<rparr>\<rparr>"

theorem chronology_keeps_its_order_witness:
  "\<exists>ids. resolve_chronology one_match films_in_order = Inr (map pending_item ids) \<and> length ids = 1 \<and> distinct ids"
proof -
  have r: "resolve_chronology one_match films_in_order = Inr [pending_item ''x'']"
    by (simp add: resolve_chronology_def films_in_order_def one_match_def film_items_def pending_items_def)
  obtain ch ids where c: "che_resolved films_in_order = Some ch" "[pending_item ''x''] = map pending_item ids" "distinct ids"
    "list_all2 (\<lambda>r i. cat_query (ic_base one_match) (cr_query r) = Inr [i]) (ch_entries ch) ids"
    using chronology_keeps_its_order[OF r] by (elim exE conjE)
  then have "length ids = 1" by (cases ids) auto
  then show ?thesis using r c(2,3) by metis
qed

definition film_pair :: block_include where
  "film_pair = plain_slot\<lparr>bi_entries := [QueryEntry \<lparr>qe_query = ''a'', qe_order = None\<rparr>, QueryEntry \<lparr>qe_query = ''b'', qe_order = None\<rparr>],
                          bi_mode := CountItems 3\<rparr>"

lemma film_pair_resolves:
  "\<exists>out. resolve_entries film_env 0 film_pair 0 = Inr out \<and> map ri_id (bk_items out) = [''x'', ''y'']"
  by (simp add: resolve_entries_def film_pair_def plain_slot_def resolve_entry_def needs_catalog_def ok_or_def film_env_def film_items_def
      resolve_query_def film_catalog_def pending_items_def stamp_select_def push_stage_def push_record_def push_audit_def
      stage_record_def pending_item_def bare_item_def with_fallback_def filtered_def block_duplicates_def is_pattern_def is_sequencer_def
      collapse_duplicates_def effective_order_def in_order_def take_mode_def Let_def)

theorem collapsed_block_repeats_nothing_witness:
  "\<exists>out. resolve_entries film_env 0 film_pair 0 = Inr out \<and> distinct (map ri_id (bk_items out)) \<and> length (bk_items out) \<le> 3"
proof -
  obtain out where o: "resolve_entries film_env 0 film_pair 0 = Inr out" using film_pair_resolves by blast
  have "block_duplicates film_pair = Collapse" "bi_mode film_pair = CountItems 3"
    by (simp_all add: film_pair_def plain_slot_def block_duplicates_def is_pattern_def is_sequencer_def)
  then show ?thesis using collapsed_block_repeats_nothing[OF o] o by auto
qed

definition film_draws :: block_build where
  "film_draws = finish_sequence [film_seq_pool] score_cache_new [] [''y'', ''x'']"

lemma film_no_guide: "guide_cascade None None (block_guide film_env plain_slot) = None"
  by (simp add: block_guide_def plain_slot_def film_env_def guide_cascade_def guide_pick_def guide_is_empty_def or_else_def)

lemma film_draws_fields: "bb_ids film_draws = [''y'', ''x'']" "bb_audits film_draws = [[], []]" "bb_guides film_draws = []"
proof -
  show "bb_guides film_draws = []"
    by (simp add: film_draws_def finish_sequence_def Let_def seq_marks_def film_location)
      (simp add: film_seq_pool_def sample_cfg_def)
qed (simp_all add: film_draws_def finish_sequence_def Let_def numeral_2_eq_2)

lemma film_pool_item:
  assumes "i \<in> {''x'', ''y''}"
  shows "\<exists>item. pool_item film_env film_items plain_slot film_draws (i, []) = Inr (Some item)"
proof -
  obtain item where item: "film_of i = Some item" using film_of_some by blast
  have "bi_program plain_slot = None" by (simp add: plain_slot_def)
  then show ?thesis by (simp add: pool_item_def film_draws_fields film_no_guide film_single[OF assms] item)
qed

theorem drawn_items_keep_their_place_witness:
  "\<exists>out. resolve_pool_block_items film_env film_items 0 plain_slot film_draws = Inr out \<and>
     (\<exists>seq. bk_steps out ! 0 = PoolStep 0 seq)"
proof -
  obtain x y where xy: "pool_item film_env film_items plain_slot film_draws (''x'', []) = Inr (Some x)"
    "pool_item film_env film_items plain_slot film_draws (''y'', []) = Inr (Some y)"
    using film_pool_item[of "''x''"] film_pool_item[of "''y''"] by auto
  have m: "bi_mode plain_slot = AllItems" by (simp add: plain_slot_def)
  have o: "resolve_pool_block_items film_env film_items 0 plain_slot film_draws =
      Inr \<lparr>bk_items = [y, x], bk_steps = [PoolStep 0 0, PoolStep 0 1], bk_progress = bb_progress film_draws\<rparr>"
    by (simp add: resolve_pool_block_items_def film_draws_fields xy m take_mode_def Let_def List.map_filter_def)
  have "length (bk_items \<lparr>bk_items = [y, x], bk_steps = [PoolStep 0 0, PoolStep 0 1], bk_progress = bb_progress film_draws\<rparr>) = 2"
    by simp
  then have "\<exists>seq. bk_steps \<lparr>bk_items = [y, x], bk_steps = [PoolStep 0 0, PoolStep 0 1], bk_progress = bb_progress film_draws\<rparr> ! 0 = PoolStep 0 seq"
    using drawn_items_keep_their_place[OF o] by (metis zero_less_numeral)
  then show ?thesis using o by blast
qed

end
