(* ===== verification/ResolveFacts.thy ===== *)
theory ResolveFacts
  imports Resolve BlockFacts CalendarFacts
begin

text \<open>
  What resolving a channel promises: a generation airs something, every item belongs to a block on
  air and has the state entering it; it never runs past the next change of schedule; and the state
  of what did not air comes through untouched.
\<close>

section \<open>Rows stay parallel\<close>

definition parallel :: "channel_rows \<Rightarrow> bool" where
  "parallel rows \<longleftrightarrow>
     length (rw_limits rows) = length (rw_items rows) \<and> length (rw_fields rows) = length (rw_items rows) \<and>
     length (rw_steps rows) = length (rw_items rows)"

definition blocks_of :: "channel_rows \<Rightarrow> nat set" where
  "blocks_of rows = ri_block ` set (rw_items rows)"

lemma length_put_span: "first \<le> past \<Longrightarrow> past \<le> length xs \<Longrightarrow> length (put_span first past new xs) = length xs - (past - first) + length new"
  by (simp add: put_span_def)

lemma set_put_span: "set (put_span first past new xs) \<subseteq> set xs \<union> set new"
  by (auto simp: put_span_def dest: in_set_takeD in_set_dropD)

lemma set_span_of: "set (span_of first past xs) \<subseteq> set xs"
  by (auto simp: span_of_def dest: in_set_takeD in_set_dropD)

lemma cut_keeps_rows:
  assumes "cut_entries_window rows first past pos fill catalog nominal = (rows', seat)" "parallel rows" "past \<le> length (rw_items rows)"
  shows "parallel rows' \<and> blocks_of rows' \<subseteq> blocks_of rows"
proof (cases "past - first = 0")
  case True
  then show ?thesis using assms by (simp add: cut_entries_window_def)
next
  case False
  let ?items = "span_of first past (rw_items rows)"
  obtain start n where w: "entries_window ?items pos fill catalog nominal = (start, n)" by fastforce
  have len: "length (span_of first past xs) = past - first" if "length xs = length (rw_items rows)" for xs :: "'z list"
    using that assms(3) by (simp add: span_of_def)
  have "?items \<noteq> []" using len[of "rw_items rows"] False by auto
  then have n: "n \<le> past - first"
    using w len[of "rw_items rows"] items_to_cover_least[of "rotate start (estimated_runtimes ?items catalog nominal)"]
    by (cases fill) (auto simp: entries_window_def Let_def estimated_runtimes_length simp flip: length_0_conv)
  have span: "first \<le> past" "past \<le> length (rw_items rows)" using False assms(3) by auto
  have rows': "rw_items rows' = put_span first past (take n (rotate start ?items)) (rw_items rows)"
    "rw_limits rows' = put_span first past (take n (rotate start (span_of first past (rw_limits rows)))) (rw_limits rows)"
    "rw_fields rows' = put_span first past (take n (rotate start (span_of first past (rw_fields rows)))) (rw_fields rows)"
    "rw_steps rows' = put_span first past (map EntryStep [0..<n]) (rw_steps rows)"
    using assms(1) False w by (auto simp: cut_entries_window_def Let_def)
  have "parallel rows'"
    using assms(2) span n by (simp add: parallel_def rows' length_put_span len)
  moreover have "set (rw_items rows') \<subseteq> set (rw_items rows)"
    using set_put_span[of first past "take n (rotate start ?items)" "rw_items rows"] set_span_of[of first past "rw_items rows"]
      set_take_subset[of n "rotate start ?items"] by (auto simp: rows')
  ultimately show ?thesis by (auto simp: blocks_of_def)
qed

definition lay_ok :: "nat set \<Rightarrow> lay \<Rightarrow> bool" where
  "lay_ok bs ly \<longleftrightarrow> parallel (ly_rows ly) \<and> blocks_of (ly_rows ly) \<subseteq> bs \<and>
     (\<forall>(first, past, p) \<in> set (ly_spans ly). first \<le> past \<and> past \<le> length (rw_items (ly_rows ly)))"

lemma add_block_ok:
  "lay_ok bs ly \<Longrightarrow> length (bk_steps items) = length (bk_items items) \<Longrightarrow> idx \<in> bs \<Longrightarrow> lay_ok bs (add_block pos idx b items ly)"
  by (fastforce simp: lay_ok_def add_block_def Let_def parallel_def blocks_of_def)

lemma resolve_entries_parallel: "resolve_entries env idx b seed = Inr out \<Longrightarrow> length (bk_steps out) = length (bk_items out)"
  by (auto simp: resolve_entries_def bind_res_Inr_iff Let_def)

lemma pool_block_parallel:
  assumes "resolve_pool_block_items env cat idx b blk = Inr out"
  shows "length (bk_steps out) = length (bk_items out)"
  using assms by (auto simp: resolve_pool_block_items_def bind_res_Inr_iff Let_def take_mode_map)

lemma resolve_block_parallel:
  assumes "resolve_block env b idx seed state fill start rule out cache = Inr (items, out', cache')"
  shows "length (bk_steps items) = length (bk_items items)"
  using assms pool_block_parallel resolve_entries_parallel
  by (fastforce simp: resolve_block_def bind_res_Inr_iff split: if_splits option.splits)

lemma lay_blocks_ok:
  "lay_blocks rs cfg seed state fill start blks ly = Inr ly' \<Longrightarrow> lay_ok bs ly \<Longrightarrow> (fst \<circ> snd) ` set blks \<subseteq> bs \<Longrightarrow> lay_ok bs ly'"
proof (induction blks arbitrary: ly)
  case (Cons blk blks)
  obtain pos idx b where blk: "blk = (pos, idx, b)" by (cases blk)
  obtain ly1 where ly1: "lay_block rs cfg seed state fill start blk ly = Inr ly1"
    "lay_blocks rs cfg seed state fill start blks ly1 = Inr ly'" using Cons.prems(1) by (auto simp: bind_res_Inr_iff)
  obtain items out cache where r: "resolve_block (env_of rs cfg) b idx seed state fill
      (block_start rs (nominal_item_runtime cfg) start (rw_items (ly_rows ly))) (channel_rule_for rs cfg state fill b ly)
      (ly_out ly) (ly_cache ly) = Inr (items, out, cache)"
    "ly1 = add_block pos idx b items (ly\<lparr>ly_out := out, ly_cache := cache\<rparr>)"
    using ly1(1) blk by (auto simp: lay_block_def bind_res_Inr_iff)
  have "lay_ok bs (ly\<lparr>ly_out := out, ly_cache := cache\<rparr>)" using Cons.prems(2) by (simp add: lay_ok_def)
  then have "lay_ok bs ly1" using add_block_ok resolve_block_parallel[OF r(1)] Cons.prems(3) blk r(2) by simp
  then show ?case using Cons.IH[OF ly1(2)] Cons.prems(3) by simp
qed simp

lemma seat_entries_ok:
  assumes "seat_entries rs cfg state fill ly = Inr (ly', seat)" "lay_ok bs ly"
  shows "parallel (ly_rows ly') \<and> blocks_of (ly_rows ly') \<subseteq> bs"
proof -
  have seat: "parallel rows' \<and> blocks_of rows' \<subseteq> bs"
    if "cut_entries_window (ly_rows ly) first past pos fill (rs_catalog rs) (nominal_item_runtime cfg) = (rows', s)"
      "past \<le> length (rw_items (ly_rows ly))" for first past pos rows' s
    using cut_keeps_rows[OF that(1) _ that(2)] assms(2) by (auto simp: lay_ok_def)
  have spans: "past \<le> length (rw_items (ly_rows ly))" if "filter P (ly_spans ly) = (first, past, p) # sps" for P first past p sps
  proof -
    have "(first, past, p) \<in> set (ly_spans ly)" using that by (metis filter_is_subset list.set_intros(1) subset_iff)
    then show ?thesis using assms(2) by (auto simp: lay_ok_def)
  qed
  show ?thesis using assms
    by (auto simp: seat_entries_def Let_def lay_ok_def split: list.splits if_splits prod.splits dest!: seat spans)
qed

section \<open>One generation\<close>

lemma permute_perm:
  assumes "mset perm = mset [0..<length xs]"
  shows "length (permute xs perm) = length xs \<and> set (permute xs perm) = set xs"
proof -
  have "set perm = {0..<length xs}" using assms by (metis set_mset_mset set_upt)
  then have "set (permute xs perm) = set xs" using nth_image[of "length xs" xs] by (simp add: permute_def)
  then show ?thesis using mset_eq_length[OF assms] by (simp add: permute_def)
qed

lemma adjacency_keys_length: "adjacency_keys ids apart ds catalog = Inr keys \<Longrightarrow> length apart = length ids \<Longrightarrow> length keys = length ids"
  by (auto simp: adjacency_keys_def dest!: map_res_length)

lemma constrain_rows_keeps:
  assumes "constrain_rows rs cfg state rows = Inr (items, steps)" "parallel rows"
  shows "length items = length (rw_items rows) \<and> length steps = length items \<and> set items = set (rw_items rows)"
proof (cases "any_constrained (rw_limits rows)")
  case False
  then show ?thesis using assms by (simp add: constrain_rows_def Let_def parallel_def)
next
  case True
  obtain keys preceding where k: "length keys = length (rw_items rows)"
    "items = permute (rw_items rows) (ord_order (order_constrained keys (rw_limits rows) preceding))"
    "steps = permute (rw_steps rows) (ord_order (order_constrained keys (rw_limits rows) preceding))"
    using assms True by (auto simp: constrain_rows_def Let_def bind_res_Inr_iff parallel_def dest!: adjacency_keys_length)
  have "mset (ord_order (order_constrained keys (rw_limits rows) preceding)) = mset [0..<length (rw_items rows)]"
    using mset_order_constrained k(1) by metis
  then show ?thesis using k permute_perm assms(2) by (metis parallel_def)
qed

lemma same_place_blocks: "list_all2 same_place xs ys \<Longrightarrow> length ys = length xs \<and> ri_block ` set ys = ri_block ` set xs"
proof (induction rule: list_all2_induct)
  case (Cons x xs y ys)
  then show ?case by (simp add: same_place_def)
qed simp

lemma annotate_keeps: "length (annotate_items en an path ch cat items) = length items \<and>
    ri_block ` set (annotate_items en an path ch cat items) = ri_block ` set items"
proof -
  have "ri_block (annotate_item en script ch maps x) = ri_block x" for script maps x
    by (simp add: annotate_item_def split: sum.split option.split)
  then show ?thesis by (auto simp: annotate_items_def image_image split: sum.split)
qed

lemma hydrate_places: "hydrate_pending env blocks items = Inr out \<Longrightarrow> list_all2 same_place items out"
  by (auto simp: hydrate_pending_def Let_def list_all2_refl same_place_def bind_res_Inr_iff fill_in_places split: if_splits)

lemma finish_generation_shape:
  assumes "finish_generation rs cfg original state on rots blocks (ly, seat) = Inr (items, out, progress)" "parallel (ly_rows ly)"
  shows "items \<noteq> [] \<and> length progress = length items \<and> ri_block ` set items = blocks_of (ly_rows ly)"
proof -
  obtain full where h: "hydrate_pending (env_of rs cfg) (map_of blocks) (rw_items (ly_rows ly)) = Inr full" "full \<noteq> []"
    using assms(1) by (auto simp: finish_generation_def bind_res_Inr_iff split: if_splits)
  note sp = same_place_blocks[OF hydrate_places[OF h(1)]]
  obtain ordered steps where c: "constrain_rows rs cfg state ((ly_rows ly)\<lparr>rw_items := full\<rparr>) = Inr (ordered, steps)"
    using assms(1) h by (auto simp: finish_generation_def bind_res_Inr_iff)
  have "parallel ((ly_rows ly)\<lparr>rw_items := full\<rparr>)" using assms(2) sp by (simp add: parallel_def)
  note ck = constrain_rows_keeps[OF c this]
  have len: "length (progress_per_item steps pp seat idle) = length steps" for pp idle
    using progress_walk_reach by (simp add: progress_per_item_def)
  have "length progress = length ordered"
    using assms(1) h c ck by (auto simp: finish_generation_def Let_def carry_unaired_state_def len split: option.splits)
  moreover have "items = ordered \<or> (\<exists>path cat. items = annotate_items (rs_en rs) (rs_annotator rs) path (cg_name cfg) cat ordered)"
    using assms(1) h c by (auto simp: finish_generation_def Let_def split: option.splits prod.splits)
  then have "length items = length ordered \<and> ri_block ` set items = ri_block ` set ordered"
    using annotate_keeps by (elim disjE exE) simp_all
  ultimately show ?thesis using ck sp h(2) by (auto simp: blocks_of_def)
qed

definition airing_blocks :: "rule_config \<Rightarrow> on_air_at option \<Rightarrow> nat set" where
  "airing_blocks rule on =
     (case on of Some (OnSlot p) \<Rightarrow> {pl_index p} | _ \<Rightarrow> {0..<length (ru_blocks rule)})"

lemma selected_airing: "fst ` set (selected_blocks rule on) \<subseteq> airing_blocks rule on"
  by (auto simp: selected_blocks_def airing_blocks_def set_zip enumerate_eq_zip split: option.split on_air_at.split)

lemma numbered_blocks: "(fst \<circ> snd) ` set (numbered blocks) = fst ` set blocks"
proof -
  have "set (map snd (numbered blocks)) = set blocks" by (simp add: numbered_def)
  then show ?thesis by (metis image_comp list.set_map)
qed

lemma resolve_channel_InrE:
  assumes "resolve_channel_with_cache rs cfg state fill start cache = Some (Inr (items, out, progress, cache'))"
  obtains on rots fill' ly seat ly0 where
    "on_air_now (calendar_new (cg_rule cfg) (rs_zone rs)) start (\<lambda>t. dice_seed (dice_at (channel_variety cfg (rs_zone rs)) t None))
       (st_rotations (gs_resume state)) = Some (Inr (on, rots))"
    "lay_blocks rs cfg (dice_seed (dice_at (channel_variety cfg (rs_zone rs)) start None)) (slot_state on state) fill' start
       (numbered (selected_blocks (cg_rule cfg) on)) (lay_start\<lparr>ly_cache := cache\<rparr>) = Inr ly0"
    "seat_entries rs cfg (slot_state on state) fill' ly0 = Inr (ly, seat)"
    "finish_generation rs cfg state (slot_state on state) on rots (selected_blocks (cg_rule cfg) on) (ly, seat) = Inr (items, out, progress)"
proof -
  let ?seed_at = "\<lambda>t. dice_seed (dice_at (channel_variety cfg (rs_zone rs)) t None)"
  let ?cal = "calendar_new (cg_rule cfg) (rs_zone rs)"
  let ?fill = "scheduled_fill ?cal start (seeded_fill (cg_rule cfg) (channel_variety cfg (rs_zone rs)) start fill)"
  obtain r where r: "on_air_now ?cal start ?seed_at (st_rotations (gs_resume state)) = Some r"
    using assms by (simp add: resolve_channel_with_cache_def Let_def split: sum.splits) (auto simp: map_option_case split: option.splits)
  have "\<exists>on rots. r = Inr (on, rots)"
    using assms r by (cases r) (auto simp: resolve_channel_with_cache_def Let_def split: sum.splits)
  then obtain on rots where on: "r = Inr (on, rots)" by blast
  let ?blocks = "selected_blocks (cg_rule cfg) on"
  have "bind_res (lay_blocks rs cfg (?seed_at start) (slot_state on state) ?fill start (numbered ?blocks) (lay_start\<lparr>ly_cache := cache\<rparr>)) (\<lambda>ly.
      bind_res (seat_entries rs cfg (slot_state on state) ?fill ly) (\<lambda>so_far.
      bind_res (finish_generation rs cfg state (slot_state on state) on rots ?blocks so_far) (\<lambda>(items, out, progress).
      Inr (items, out, progress, ly_cache ly)))) = Inr (items, out, progress, cache')"
    using assms by (simp add: resolve_channel_with_cache_def Let_def r on split: sum.splits)
  then obtain ly0 where l0: "lay_blocks rs cfg (?seed_at start) (slot_state on state) ?fill start (numbered ?blocks)
      (lay_start\<lparr>ly_cache := cache\<rparr>) = Inr ly0"
    and e0: "bind_res (seat_entries rs cfg (slot_state on state) ?fill ly0) (\<lambda>so_far.
      bind_res (finish_generation rs cfg state (slot_state on state) on rots ?blocks so_far) (\<lambda>(items, out, progress).
      Inr (items, out, progress, ly_cache ly0))) = Inr (items, out, progress, cache')"
    by (rule bind_res_InrE)
  from e0 obtain so_far where l1: "seat_entries rs cfg (slot_state on state) ?fill ly0 = Inr so_far"
    and e1: "bind_res (finish_generation rs cfg state (slot_state on state) on rots ?blocks so_far) (\<lambda>(items, out, progress).
      Inr (items, out, progress, ly_cache ly0)) = Inr (items, out, progress, cache')"
    by (rule bind_res_InrE)
  obtain ly seat where ls: "so_far = (ly, seat)" by fastforce
  have "finish_generation rs cfg state (slot_state on state) on rots ?blocks (ly, seat) = Inr (items, out, progress)"
    using e1 by (auto simp: ls bind_res_Inr_iff)
  then show thesis using that[of on rots ?fill ly0 ly seat] on r l0 l1 ls by simp
qed

text \<open>
  Claim C17. A generation that resolves is never empty, holds one resume state per item, and airs only
  blocks that are on: the block of the slot its schedule places at that instant, or the any-time
  blocks when none does.
\<close>

theorem generation_airs_what_is_on:
  assumes "resolve_channel_with_cache rs cfg state fill start cache = Some (Inr (items, out, progress, cache'))"
  shows "items \<noteq> [] \<and> length progress = length items \<and>
    (\<exists>on rots. on_air_now (calendar_new (cg_rule cfg) (rs_zone rs)) start
        (\<lambda>t. dice_seed (dice_at (channel_variety cfg (rs_zone rs)) t None)) (st_rotations (gs_resume state)) = Some (Inr (on, rots)) \<and>
       ri_block ` set items \<subseteq> airing_blocks (cg_rule cfg) on)"
proof -
  let ?seed_at = "\<lambda>t. dice_seed (dice_at (channel_variety cfg (rs_zone rs)) t None)"
  obtain on rots fill' ly seat ly0 where on: "on_air_now (calendar_new (cg_rule cfg) (rs_zone rs)) start ?seed_at (st_rotations (gs_resume state)) =
      Some (Inr (on, rots))"
    and l: "lay_blocks rs cfg (?seed_at start) (slot_state on state) fill' start (numbered (selected_blocks (cg_rule cfg) on)) (lay_start\<lparr>ly_cache := cache\<rparr>) = Inr ly0"
    "seat_entries rs cfg (slot_state on state) fill' ly0 = Inr (ly, seat)"
    "finish_generation rs cfg state (slot_state on state) on rots (selected_blocks (cg_rule cfg) on) (ly, seat) = Inr (items, out, progress)"
    using assms by (rule resolve_channel_InrE)
  let ?blocks = "selected_blocks (cg_rule cfg) on"
  have "lay_ok (fst ` set ?blocks) (lay_start\<lparr>ly_cache := cache\<rparr>)"
    by (simp add: lay_ok_def lay_start_def parallel_def blocks_of_def)
  moreover have "(fst \<circ> snd) ` set (numbered ?blocks) \<subseteq> fst ` set ?blocks"
    using numbered_blocks by blast
  ultimately have "lay_ok (fst ` set ?blocks) ly0" using lay_blocks_ok[OF l(1)] by blast
  then have rows: "parallel (ly_rows ly) \<and> blocks_of (ly_rows ly) \<subseteq> fst ` set ?blocks" using seat_entries_ok[OF l(2)] by blast
  note shape = finish_generation_shape[OF l(3) conjunct1[OF rows]]
  have "ri_block ` set items = blocks_of (ly_rows ly)" using shape by simp
  also have "\<dots> \<subseteq> fst ` set ?blocks" using rows by simp
  also have "\<dots> \<subseteq> airing_blocks (cg_rule cfg) on" by (rule selected_airing)
  finally show ?thesis using shape on by (intro conjI exI[of _ on] exI[of _ rots]) simp_all
qed

section \<open>Where a generation stops\<close>

lemma next_minute_later: "start < minute_floor start + minute_ns"
proof -
  have "start < at_unix (unix_timestamp start + 1)" by (simp add: less_at_unix_iff)
  also have "at_unix (unix_timestamp start + 1) \<le> at_unix (unix_timestamp start - unix_timestamp start mod 60 + 60)"
    by (simp only: at_unix_le_iff)
  finally show ?thesis by (simp add: minute_floor_def minute_ns_def at_unix_def distrib_right)
qed

text \<open>
  Claim C18. The schedule only ever shortens a generation: it stops at the first minute at which another
  block, or another placement of a rotation, is on air, and until then every minute airs what the
  generation opened on.
\<close>

theorem generation_stops_at_the_change:
  assumes "scheduled_fill (Some cal) start (Some d) = Some f"
  shows "f \<le> d \<and> (\<forall>j. minute_floor start + int (Suc j) * minute_ns < start + int f \<longrightarrow>
           same_block (on_air cal (minute_floor start + int (Suc j) * minute_ns)) (on_air cal start)) \<and>
         (f < d \<longrightarrow> \<not> same_block (on_air cal (start + int f)) (on_air cal start))"
proof -
  have shift: "minute_floor start + minute_ns + int j * minute_ns = minute_floor start + int (Suc j) * minute_ns" for j
    by (simp add: distrib_right)
  note spec = change_from_spec[where cal = cal and now = "on_air cal start" and until = "start + int d" and
      t = "minute_floor start + minute_ns", unfolded shift, folded next_change_def]
  show ?thesis
  proof (cases "next_change cal start (start + int d)")
    case None
    then show ?thesis using assms spec by (simp add: scheduled_fill_def)
  next
    case (Some change)
    then obtain k where k: "change = minute_floor start + int (Suc k) * minute_ns" "change < start + int d"
      "\<not> same_block (on_air cal change) (on_air cal start)"
      "\<forall>j<k. same_block (on_air cal (minute_floor start + int (Suc j) * minute_ns)) (on_air cal start)"
      using spec by auto
    have "0 \<le> int k * minute_ns" by (simp add: minute_ns_def nanos_per_sec_def)
    then have "start < change" using k(1) next_minute_later[of start] by (simp add: distrib_right)
    then have f: "start + int f = change" using assms Some by (simp add: scheduled_fill_def abs_between_def)
    have "j < k" if "minute_floor start + int (Suc j) * minute_ns < start + int f" for j
      using that f k(1) minute_ns_pos by simp
    then show ?thesis using f k by auto
  qed
qed

section \<open>The state of what did not air\<close>

lemma bt_extend_get:
  assumes "bt_ok extra"
  shows "bt_get (bt_extend m extra) k = (case bt_get extra k of Some v \<Rightarrow> Some v | None \<Rightarrow> bt_get m k)"
proof -
  have "bt_get (fold (\<lambda>(k, v). bt_insert k v) extra m) k = (case bt_get extra k of Some v \<Rightarrow> Some v | None \<Rightarrow> bt_get m k)"
    using bt_ok_distinct[OF assms]
  proof (induction extra arbitrary: m)
    case (Cons kv extra)
    obtain a b where kv: "kv = (a, b)" by fastforce
    have a: "bt_get extra a = None" using Cons.prems kv by (simp add: map_of_eq_None_iff)
    have "bt_get (fold (\<lambda>(k, v). bt_insert k v) extra (bt_insert a b m)) k =
        (case bt_get extra k of Some v \<Rightarrow> Some v | None \<Rightarrow> bt_get (bt_insert a b m) k)"
      using Cons by simp
    then show ?case using a by (auto simp: kv split: option.split)
  qed simp
  then show ?thesis by (simp add: bt_extend_def)
qed

lemma get_filter_keys: "bt_get (filter (\<lambda>(k, _). P k) m) k = (if P k then bt_get m k else None)"
  by (induction m) auto

text \<open>
  What a state carries of the one before the generation: every pool it did not draw from that the
  configuration still has, every other slot's position, and the any-time list's while a slot airs.
\<close>

definition unaired_kept :: "rule_config \<Rightarrow> on_air_at \<Rightarrow> resume_map \<Rightarrow> 'z progress_scheme \<Rightarrow> 'y progress_scheme \<Rightarrow> bool" where
  "unaired_kept rule on before aired carried \<longleftrightarrow>
     (\<forall>name. bt_get (st_pools carried) name =
        (case bt_get (st_pools aired) name of Some r \<Rightarrow> Some r
         | None \<Rightarrow> if name \<in> pool_names rule then bt_get (st_pools before) name else None)) \<and>
     (\<forall>slot. entries_slot rule on \<noteq> Some slot \<longrightarrow>
        bt_get (st_slot_positions carried) slot = (if bt_get (ru_slots rule) slot = None then None else bt_get (st_slot_positions before) slot)) \<and>
     (on \<noteq> AnyTime \<longrightarrow> st_position carried = st_position before)"

lemma carry_unaired:
  assumes "bt_ok (st_pools p)"
  shows "unaired_kept rule on before p (carry rule on before rots p)"
  using assms unfolding unaired_kept_def
  by (auto simp: carry_def bt_extend_get carried_pools_def carried_slots_def get_filter_keys split: option.split on_air_at.split)

lemma carried_lists_fold:
  "bt_get (fold (\<lambda>(name, kept) m. if P name \<and> bt_get m name = None then bt_insert name kept m else m) xs (m :: (string, 'v) btree)) name =
     (case bt_get m name of Some ls \<Rightarrow> Some ls | None \<Rightarrow> if P name then map_of xs name else None)"
proof (induction xs arbitrary: m)
  case Nil
  then show ?case by (simp split: option.split)
next
  case (Cons x xs)
  obtain k v where x: "x = (k, v)" by (cases x)
  show ?case by (cases "P k \<and> bt_get m k = None") (auto simp: x Cons.IH split: option.split)
qed

lemma carried_lists_get:
  "bt_get (carried_lists rule before aired) name =
     (case bt_get aired name of Some ls \<Rightarrow> Some ls | None \<Rightarrow> if name \<in> pool_names rule then bt_get (rm_lists before) name else None)"
  by (simp add: carried_lists_def carried_lists_fold)

text \<open>
  Claim C20. What a generation did not air comes through it unchanged, in its end state and in every
  checkpoint alike: a pool it did not draw from keeps its record, every other slot keeps its
  position, the any-time list keeps its own while a slot airs, and only names the configuration
  still has are kept. The end state also keeps the lists frozen for a period of every pool it did not rank.
\<close>

theorem unaired_state_is_carried:
  assumes "carry_unaired_state rule on before rots (out, progress) = (out', progress')"
    and "bt_ok (st_pools out)" and "\<forall>p\<in>set progress. bt_ok (st_pools p)"
  shows "unaired_kept rule on before out out' \<and> list_all2 (unaired_kept rule on before) progress progress' \<and>
    (\<forall>name. bt_get (rm_lists out') name =
       (case bt_get (rm_lists out) name of Some ls \<Rightarrow> Some ls
        | None \<Rightarrow> if name \<in> pool_names rule then bt_get (rm_lists before) name else None))"
proof -
  have out: "out' = (carry rule on before rots out)\<lparr>rm_lists := carried_lists rule before (rm_lists (carry rule on before rots out))\<rparr>"
    and progress: "progress' = map (carry rule on before rots) progress"
    using assms(1) by (simp_all add: carry_unaired_state_def Let_def)
  have "unaired_kept rule on before out out'"
    using carry_unaired [OF assms(2), of rule on before rots] by (simp add: out unaired_kept_def)
  moreover have "list_all2 (unaired_kept rule on before) progress progress'"
    unfolding progress list_all2_map2 using assms(3) carry_unaired by (blast intro: list.rel_refl_strong)
  moreover have "rm_lists (carry rule on before rots out) = rm_lists out" by (simp add: carry_def)
  ultimately show ?thesis by (simp add: out carried_lists_get)
qed


text \<open>
  Claim C19. A slot picks up its list where it stopped: the position a slot's airing reached is what the
  next generation of that slot opens at, even when a generation of another block comes between.
\<close>

theorem slot_resumes_where_it_stopped:
  assumes "on = OnSlot p" "entries_slot rule on = Some (pl_slot p)"
    and "carry_unaired_state rule on before rots (out, progress) = (left, progress1)"
    and "carry_unaired_state rule between left rots2 (out2, progress2) = (later, progress3)"
    and "entries_slot rule between \<noteq> Some (pl_slot p)" "bt_get (ru_slots rule) (pl_slot p) \<noteq> None"
  shows "st_position (gs_resume (slot_state (Some on) (state\<lparr>gs_resume := left\<rparr>))) = st_position out \<and>
         st_position (gs_resume (slot_state (Some on) (state\<lparr>gs_resume := later\<rparr>))) = st_position out"
proof -
  have left: "bt_get (st_slot_positions left) (pl_slot p) = Some (st_position out)"
    using assms(2,3) by (auto simp: carry_unaired_state_def carry_def Let_def)
  then have "bt_get (st_slot_positions later) (pl_slot p) = Some (st_position out)"
    using assms(4,5,6) by (auto simp: carry_unaired_state_def carry_def Let_def carried_slots_def get_filter_keys split: option.split)
  then show ?thesis using left by (simp add: assms(1) slot_state_def)
qed

section \<open>A channel of one test card\<close>

definition card_entry :: item_entry where
  "card_entry =
     \<lparr>ie_source = LavfiSource ''black'', ie_in_point = None, ie_out_point = Some 10, ie_program = None, ie_guide = None,
      ie_tracks = None\<rparr>"

definition card_block :: block_include where
  "card_block = plain_slot\<lparr>bi_entries := [ItemEntry card_entry]\<rparr>"

definition card_rule :: rule_config where
  "card_rule = \<lparr>ru_blocks = [card_block], ru_slots = [(''late'', card_block), (''noon'', card_block)], ru_schedules = [], ru_no_repeat_within = None\<rparr>"

definition card_channel :: channel_config where
  "card_channel =
     \<lparr>cg_name = ''card'', cg_rule = card_rule, cg_groups = [], cg_guide = None, cg_seed = None, cg_temperature = None,
      cg_nominal_secs = None, cg_annotate = None\<rparr>"

definition card_resolver :: resolver where
  "card_resolver =
     \<lparr>rs_en = film_engine, rs_arranger = swap_films, rs_annotator = rating_script, rs_catalog = None, rs_identity_roots = [],
      rs_path_index = None, rs_inputs = plain_inputs, rs_zone = fixed_zone 0, rs_order_dbg = (\<lambda>_. []), rs_guide = (\<lambda>_. undefined)\<rparr>"

lemmas card_defs = card_block_def plain_slot_def card_entry_def

lemma card_block_shape:
  "\<not> is_pattern card_block" "\<not> is_sequencer card_block" "bi_sequencer card_block = None" "\<not> lays_seeded_list card_block"
  "block_duplicates card_block = Collapse" "block_constraints card_block = constraints_default"
  by (simp_all add: card_defs is_pattern_def is_sequencer_def lays_seeded_list_def is_random_def block_duplicates_def block_constraints_def)

lemma card_entries:
  obtains item where
    "\<And>idx seed. resolve_entries (env_of card_resolver card_channel) idx card_block seed =
       Inr \<lparr>bk_items = [item], bk_steps = [EntryStep 0], bk_progress = []\<rparr>"
    "\<not> is_pending item" "ri_out_point item = Some 10" "ri_in_point item = None"
proof -
  let ?env = "env_of card_resolver card_channel"
  let ?bare = "resolve_item card_entry (bi_program card_block) (block_guide ?env card_block) (re_identity_roots ?env) (re_path_index ?env)"
  obtain m where m: "push_stage (ri_metadata ?bare) ''select'' ''entries:item'' ''listed as an item in the block's entries'' None = Inr m"
    by (simp add: resolve_item_def bare_item_def push_stage_def push_record_def push_audit_def)
  have entry: "resolve_entry ?env idx card_block seed (ItemEntry card_entry) = Inr [?bare\<lparr>ri_metadata := m\<rparr>]" for idx seed
    using m by (simp add: resolve_entry_def stamp_select_def)
  have "resolve_entries ?env idx card_block seed =
      Inr \<lparr>bk_items = [?bare\<lparr>ri_metadata := m\<rparr>], bk_steps = [EntryStep 0], bk_progress = []\<rparr>" for idx seed
    using entry[of idx seed] card_block_shape(5)
    by (simp add: resolve_entries_def with_fallback_def filtered_def effective_order_def in_order_def take_mode_def
        collapse_duplicates_def env_of_def card_resolver_def card_block_def plain_slot_def)
  then show thesis
    by (rule that) (simp_all add: is_pending_def resolve_item_def bare_item_def card_entry_def)
qed

lemma default_unconstrained: "limits_is_unconstrained limits_default"
  by (simp add: limits_is_unconstrained_def limits_reach_def reach_is_unconstrained_def limits_default_def)

lemma card_generation:
  "\<exists>items out progress cache. resolve_channel_with_cache card_resolver card_channel generation_state_empty None 0 score_cache_new =
     Some (Inr (items, out, progress, cache))"
proof -
  obtain item where item: "\<And>idx seed. resolve_entries (env_of card_resolver card_channel) idx card_block seed =
      Inr \<lparr>bk_items = [item], bk_steps = [EntryStep 0], bk_progress = []\<rparr>" "\<not> is_pending item"
    using card_entries by metis
  have cal: "calendar_new card_rule z = None" for z by (simp add: calendar_new_def card_rule_def)
  have blocks: "selected_blocks card_rule None = [(0, card_block)]" by (simp add: selected_blocks_def card_rule_def)
  let ?rows = "\<lparr>rw_items = [item\<lparr>ri_block := 0\<rparr>], rw_limits = [limits_default], rw_fields = [None],
    rw_steps = [EntryStep 0]\<rparr>"
  let ?ly = "lay_start\<lparr>ly_cache := score_cache_new, ly_rows := ?rows, ly_progress := [[]], ly_spans := [(0, Suc 0, False)]\<rparr>"
  have lay: "lay_blocks card_resolver card_channel seed st fill start (numbered [(0, card_block)]) (lay_start\<lparr>ly_cache := score_cache_new\<rparr>) =
      Inr ?ly" for seed st fill start
    by (simp add: numbered_def lay_block_def resolve_block_def card_block_shape item(1) add_block_def Let_def lay_start_def renumber_def)
  have cut: "cut_entries_window ?rows 0 (Suc 0) pos None (rs_catalog card_resolver) nominal =
      (?rows, Some \<lparr>es_start = 0, es_total = 1, es_laid = 1\<rparr>)" for pos nominal
    by (simp add: cut_entries_window_def Let_def entries_window_def span_of_def put_span_def)
  have seat: "\<exists>out. seat_entries card_resolver card_channel generation_state_empty None ?ly =
      Inr (?ly\<lparr>ly_out := out\<rparr>, Some \<lparr>es_start = 0, es_total = 1, es_laid = 1\<rparr>)"
    by (simp add: seat_entries_def Let_def cut generation_state_empty_def lay_start_def)
  have fin: "\<exists>items out progress. finish_generation card_resolver card_channel generation_state_empty generation_state_empty None []
      [(0, card_block)] (?ly\<lparr>ly_out := out'\<rparr>, seat) = Inr (items, out, progress)" for out' seat
    using item(2)
    by (simp add: finish_generation_def hydrate_pending_def ids_by_block_def is_pending_def constrain_rows_def Let_def
        any_constrained_def default_unconstrained card_channel_def)
  obtain out' where out': "seat_entries card_resolver card_channel generation_state_empty None ?ly =
      Inr (?ly\<lparr>ly_out := out'\<rparr>, Some \<lparr>es_start = 0, es_total = 1, es_laid = 1\<rparr>)" using seat by blast
  obtain items out progress where g: "finish_generation card_resolver card_channel generation_state_empty generation_state_empty None []
      [(0, card_block)] (?ly\<lparr>ly_out := out'\<rparr>, Some \<lparr>es_start = 0, es_total = 1, es_laid = 1\<rparr>) = Inr (items, out, progress)"
    using fin by blast
  have rule: "cg_rule card_channel = card_rule" "rs_catalog card_resolver = None" by (simp_all add: card_channel_def card_resolver_def)
  have state: "slot_state None st = st" "scheduled_fill None start None = None" "seeded_fill card_rule v start None = None"
    "st_rotations (gs_resume generation_state_empty) = []" for st start v
    by (simp_all add: slot_state_def scheduled_fill_def seeded_fill_def generation_state_empty_def resume_default_def resume_new_def)
  show ?thesis
    unfolding resolve_channel_with_cache_def Let_def rule cal on_air_now_def state option.case option.map sum.case bind_res_simps
      prod.case blocks lay out' g by simp
qed

text \<open>The card channel airs its one block.\<close>

theorem generation_airs_what_is_on_witness:
  "\<exists>items. (\<exists>out progress cache. resolve_channel_with_cache card_resolver card_channel generation_state_empty None 0 score_cache_new =
     Some (Inr (items, out, progress, cache))) \<and> items \<noteq> [] \<and> ri_block ` set items \<subseteq> {0}"
proof -
  obtain items out progress cache where r: "resolve_channel_with_cache card_resolver card_channel generation_state_empty None 0 score_cache_new =
     Some (Inr (items, out, progress, cache))" using card_generation by blast
  have cal: "calendar_new (cg_rule card_channel) z = None" for z by (simp add: calendar_new_def card_channel_def card_rule_def)
  have "ri_block ` set items \<subseteq> airing_blocks (cg_rule card_channel) None" "items \<noteq> []"
    using generation_airs_what_is_on[OF r] by (auto simp: cal on_air_now_def)
  then show ?thesis using r by (auto simp: airing_blocks_def card_channel_def card_rule_def)
qed

text \<open>From midnight, a day of the evening channel is cut at nineteen.\<close>

lemma evening_differs: "\<not> same_block (on_air evening (at_unix 68400)) (on_air evening (at_unix 0))"
  by (simp add: on_air_def evening_rule_def prime_rule_def prime_slot_def plain_slot_def placed_by_def hit_at_def start_day_def
      local_date_def local_minute_def local_secs_def evening_def matches_day_def previous_day_def date_min_def date_of_def
      days_before_year_def epoch_days_def wraps_def slot_index_def block_label_def placement_of_def)

theorem generation_stops_at_the_change_witness:
  "\<exists>f. scheduled_fill (Some evening) (at_unix 0) (Some (86400 * 1000000000)) = Some f \<and> f \<le> 68400 * 1000000000"
proof -
  obtain f where f: "scheduled_fill (Some evening) (at_unix 0) (Some (86400 * 1000000000)) = Some f"
    by (cases "next_change evening (at_unix 0) (at_unix 0 + int (86400 * 1000000000))") (simp_all add: scheduled_fill_def)
  have minute: "minute_floor (at_unix 0) + int (Suc 1139) * minute_ns = at_unix 68400"
    by (simp add: minute_floor_def at_unix_def minute_ns_def nanos_per_sec_def unix_timestamp_def)
  have "\<not> at_unix 68400 < at_unix 0 + int f"
    using generation_stops_at_the_change[OF f] evening_differs by (metis minute)
  then show ?thesis using f by (auto simp: at_unix_def nanos_per_sec_def)
qed

text \<open>A card generation leaves the position of the noon list and of the any-time list alone.\<close>

definition card_place :: placed_slot where
  "card_place = \<lparr>pl_slot = ''late'', pl_index = 1, pl_schedule = ''cards'', pl_placement = None, pl_rotation = None\<rparr>"

definition card_noon :: placed_slot where
  "card_noon = \<lparr>pl_slot = ''noon'', pl_index = 2, pl_schedule = ''cards'', pl_placement = None, pl_rotation = None\<rparr>"

definition card_before :: resume_map where
  "card_before = resume_new\<lparr>st_slot_positions := [(''late'', 1), (''noon'', 4)], st_position := 7\<rparr>"

lemma card_slots: "entries_slot card_rule (OnSlot card_place) = Some ''late''" "entries_slot card_rule (OnSlot card_noon) = Some ''noon''"
  by (simp_all add: entries_slot_def card_place_def card_noon_def card_rule_def card_block_shape all_blocks_def)

theorem unaired_state_is_carried_witness:
  "let (out, progress) = carry_unaired_state card_rule (OnSlot card_place) card_before [] (resume_new\<lparr>st_position := 2\<rparr>, [state_of (resume_new\<lparr>st_position := 1\<rparr>)])
   in bt_get (st_slot_positions out) ''noon'' = Some 4 \<and> st_position out = 7 \<and> map st_position progress = [7]"
proof -
  let ?in = "(resume_new\<lparr>st_position := 2\<rparr>, [state_of (resume_new\<lparr>st_position := 1\<rparr>)])"
  obtain out progress where c: "carry_unaired_state card_rule (OnSlot card_place) card_before [] ?in = (out, progress)" by fastforce
  have facts: "bt_get (st_slot_positions card_before) ''noon'' = Some 4" "st_position card_before = 7" "bt_get (ru_slots card_rule) ''noon'' \<noteq> None"
    "entries_slot card_rule (OnSlot card_place) \<noteq> Some ''noon''" "OnSlot card_place \<noteq> AnyTime"
    by (simp_all add: card_slots) (simp_all add: card_before_def resume_new_def card_rule_def)
  have kept: "unaired_kept card_rule (OnSlot card_place) card_before (resume_new\<lparr>st_position := 2\<rparr>) out"
    "list_all2 (unaired_kept card_rule (OnSlot card_place) card_before) [state_of (resume_new\<lparr>st_position := 1\<rparr>)] progress"
    using unaired_state_is_carried [OF c] by (simp_all add: resume_new_def state_of_def)
  have "st_position p = 7" if "unaired_kept card_rule (OnSlot card_place) card_before a p" for a p :: progress
    using that facts unfolding unaired_kept_def by simp
  then have "map st_position progress = [7]" using kept(2) by (auto simp: list_all2_Cons1)
  moreover have "bt_get (st_slot_positions out) ''noon'' = Some 4" "st_position out = 7"
    using kept(1) facts unfolding unaired_kept_def by auto
  ultimately show ?thesis unfolding c by simp
qed

lemma card_slot_names: "pl_slot card_place = ''late''" "bt_get (ru_slots card_rule) ''late'' \<noteq> None"
  by (simp_all add: card_place_def card_rule_def)

text \<open>The late list resumes at its third entry after an airing of the noon one.\<close>

theorem slot_resumes_where_it_stopped_witness:
  "let left = fst (carry_unaired_state card_rule (OnSlot card_place) card_before [] (resume_new\<lparr>st_position := 2\<rparr>, []));
       later = fst (carry_unaired_state card_rule (OnSlot card_noon) left [] (resume_new\<lparr>st_position := 5\<rparr>, []))
   in st_position (gs_resume (slot_state (Some (OnSlot card_place)) (generation_state_empty\<lparr>gs_resume := later\<rparr>))) = 2"
proof -
  obtain left p1 where l: "carry_unaired_state card_rule (OnSlot card_place) card_before [] (resume_new\<lparr>st_position := 2\<rparr>, []) = (left, p1)"
    by fastforce
  obtain later p2 where l2: "carry_unaired_state card_rule (OnSlot card_noon) left [] (resume_new\<lparr>st_position := 5\<rparr>, []) = (later, p2)"
    by fastforce
  have "st_position (gs_resume (slot_state (Some (OnSlot card_place)) (generation_state_empty\<lparr>gs_resume := later\<rparr>))) = 2"
    using slot_resumes_where_it_stopped[where p = card_place, OF refl _ l l2] by (simp add: card_slots card_slot_names)
  then show ?thesis by (simp add: l l2)
qed

end
