(* ===== verification/Float64.thy ===== *)
theory Float64
  imports Mixer
begin

text \<open>
  More of binary64 arithmetic: division, \<open>round\<close>, and what the frame grid relies on of rounding: it
  is monotone and leaves a representable number alone.
\<close>

definition f64_div :: "f64 \<Rightarrow> f64 \<Rightarrow> f64" where "f64_div a b = f64_round (a / b)"

text \<open>\<open>f64::round\<close>: the nearest integer, halves away from zero. It is exact.\<close>

definition round_away :: "f64 \<Rightarrow> int" where
  "round_away x = (if 0 \<le> x then \<lfloor>x + 1 / 2\<rfloor> else - \<lfloor>1 / 2 - x\<rfloor>)"

lemma round_away_mono:
  assumes "x \<le> y"
  shows "round_away x \<le> round_away y"
proof (cases "x < 0 \<and> 0 \<le> y")
  case True
  then have "0 \<le> \<lfloor>1 / 2 - x\<rfloor>" "0 \<le> \<lfloor>y + 1 / 2\<rfloor>" by simp_all
  then show ?thesis using True by (auto simp: round_away_def simp del: zero_le_floor)
next
  case False
  then show ?thesis using assms by (auto simp: round_away_def intro: floor_mono)
qed

lemma round_away_nonneg: "0 \<le> x \<Longrightarrow> 0 \<le> round_away x"
  by (simp add: round_away_def)

section \<open>The exponent\<close>

lemma two_pow_add: "two_pow (a + b) = two_pow a * two_pow b"
proof -
  have nat: "two_pow k = (2::rat) powi k" for k
    by (simp add: two_pow_def power_int_def divide_simps)
  show ?thesis by (simp add: nat power_int_add)
qed

lemma two_pow_powi: "two_pow k = (2::rat) powi k"
  by (simp add: two_pow_def power_int_def divide_simps)

lemma two_pow_mono: "a \<le> b \<Longrightarrow> two_pow a \<le> two_pow b"
  by (simp add: two_pow_powi power_int_increasing)

lemma two_pow_less: "two_pow a < two_pow b \<longleftrightarrow> a < b"
  by (metis linorder_not_less order_less_le two_pow_mono two_pow_powi power_int_strict_increasing one_less_numeral_iff semiring_norm(76))

lemma two_pow_nat: "two_pow (int n) = 2 ^ n"
  by (simp add: two_pow_def)

lemma f64_exponent_spec:
  assumes "x \<noteq> 0"
  shows "two_pow (f64_exponent x) \<le> \<bar>x\<bar> \<and> \<bar>x\<bar> < two_pow (f64_exponent x + 1)"
proof -
  obtain n d where nd: "quotient_of \<bar>x\<bar> = (n, d)" by fastforce
  have d: "0 < d" and x: "\<bar>x\<bar> = of_int n / of_int d"
    using quotient_of_denom_pos[OF nd] quotient_of_div[OF nd] by simp_all
  have "0 < of_int n / (of_int d :: rat)" using x assms by simp
  then have n: "0 < n" using d by (simp add: zero_less_divide_iff)
  let ?a = "floorlog 2 (nat n)" let ?b = "floorlog 2 (nat d)"
  have a: "2 ^ (?a - 1) \<le> nat n" "nat n < 2 ^ ?a" and b: "2 ^ (?b - 1) \<le> nat d" "nat d < 2 ^ ?b"
    using floorlog_bounds[of "nat n" 2] floorlog_bounds[of "nat d" 2] n d by simp_all
  have pos: "0 < ?a" "0 < ?b" using n d by (simp_all add: floorlog_def)
  have a': "two_pow (int ?a - 1) \<le> of_int n" "of_int n < two_pow (int ?a)"
    and b': "two_pow (int ?b - 1) \<le> of_int d" "of_int d < two_pow (int ?b)"
  proof -
    have c: "(of_nat (2 ^ k) :: rat) \<le> of_int m \<longleftrightarrow> 2 ^ k \<le> nat m" "of_int m < (of_nat (2 ^ k) :: rat) \<longleftrightarrow> nat m < 2 ^ k"
      if "0 < m" for k m using that by (metis of_int_of_nat_eq of_int_le_iff of_int_less_iff int_nat_eq less_imp_le of_nat_le_iff of_nat_less_iff)+
    have e: "two_pow (int k - 1) = of_nat (2 ^ (k - 1))" if "0 < k" for k
      using that two_pow_nat[of "k - 1"] by (simp add: of_nat_diff)
    show "two_pow (int ?a - 1) \<le> of_int n" "two_pow (int ?b - 1) \<le> of_int d"
      using a(1) b(1) c n d pos by (simp_all only: e)
    show "of_int n < two_pow (int ?a)" "of_int d < two_pow (int ?b)"
      using a(2) b(2) c(2)[OF n, of ?a] c(2)[OF d, of ?b] by (simp_all add: two_pow_nat)
  qed
  let ?e = "int ?a - int ?b"
  have dpos: "(0::rat) < of_int d" using d by simp
  have up: "\<bar>x\<bar> < two_pow (?e + 1)"
  proof -
    have "of_int n < two_pow (?e + 1) * two_pow (int ?b - 1)"
      using a'(2) by (simp flip: two_pow_add)
    also have "\<dots> \<le> two_pow (?e + 1) * of_int d" using b'(1) by (simp add: less_imp_le mult_left_mono)
    finally show ?thesis using dpos by (simp add: x divide_less_eq)
  qed
  have down: "two_pow (?e - 1) \<le> \<bar>x\<bar>"
  proof -
    have "two_pow (?e - 1) * of_int d \<le> two_pow (?e - 1) * two_pow (int ?b)"
      using b'(2) by (simp add: less_imp_le mult_left_mono)
    also have "\<dots> = two_pow (int ?a - 1)" by (simp flip: two_pow_add)
    finally show ?thesis using a'(1) dpos by (simp add: x le_divide_eq)
  qed
  show ?thesis using up down by (auto simp: f64_exponent_def nd Let_def)
qed

section \<open>Rounding is monotone\<close>

lemma round_half_even_mono:
  assumes "p \<le> q"
  shows "round_half_even p \<le> round_half_even q"
proof (cases "\<lfloor>p\<rfloor> = \<lfloor>q\<rfloor>")
  case True
  then show ?thesis using assms by (auto simp: round_half_even_def Let_def)
next
  case False
  then have "\<lfloor>p\<rfloor> + 1 \<le> \<lfloor>q\<rfloor>" using floor_mono[OF assms] by simp
  moreover have "round_half_even p \<le> \<lfloor>p\<rfloor> + 1" "\<lfloor>q\<rfloor> \<le> round_half_even q" by (auto simp: round_half_even_def Let_def)
  ultimately show ?thesis by simp
qed

lemma round_half_even_int [simp]: "round_half_even (of_int k) = k"
  by (simp add: round_half_even_def)

definition quantum_of :: "rat \<Rightarrow> rat" where
  "quantum_of x = two_pow (max (f64_exponent x - 52) (- 1074))"

lemma f64_round_quantum: "x \<noteq> 0 \<Longrightarrow> f64_round x = of_int (round_half_even (x / quantum_of x)) * quantum_of x"
  by (simp add: f64_round_def quantum_of_def Let_def)

lemma quantum_pos [simp]: "0 < quantum_of x"
  by (simp add: quantum_of_def)

lemma two_pow_multiple: "a \<le> b \<Longrightarrow> \<exists>k :: int. two_pow b = of_int k * two_pow a"
proof -
  assume "a \<le> b"
  then have "two_pow b = of_int (2 ^ nat (b - a)) * two_pow a"
    using two_pow_add[of "b - a" a] two_pow_nat[of "nat (b - a)"] by simp
  then show ?thesis by blast
qed

text \<open>A multiple of the quantum bounds the rounded number where it bounds the number.\<close>

lemma f64_round_le_multiple: "x \<noteq> 0 \<Longrightarrow> x \<le> of_int k * quantum_of x \<Longrightarrow> f64_round x \<le> of_int k * quantum_of x"
  using round_half_even_mono[of "x / quantum_of x" "of_int k"] by (simp add: f64_round_quantum divide_le_eq mult_right_mono)

lemma f64_round_ge_multiple: "x \<noteq> 0 \<Longrightarrow> of_int k * quantum_of x \<le> x \<Longrightarrow> of_int k * quantum_of x \<le> f64_round x"
  using round_half_even_mono[of "of_int k" "x / quantum_of x"] by (simp add: f64_round_quantum le_divide_eq mult_right_mono)

lemma f64_round_mono_pos:
  assumes "0 < x" "x \<le> y"
  shows "f64_round x \<le> f64_round y"
proof -
  note ex = f64_exponent_spec[of x] and ey = f64_exponent_spec[of y]
  have "two_pow (f64_exponent x) < two_pow (f64_exponent y + 1)" using ex ey assms by simp
  then have le: "f64_exponent x \<le> f64_exponent y" by (simp add: two_pow_less)
  show ?thesis
  proof (cases "quantum_of x = quantum_of y")
    case True
    have "x / quantum_of y \<le> y / quantum_of y" using assms by (simp add: divide_right_mono less_imp_le)
    then show ?thesis using assms True round_half_even_mono by (simp add: f64_round_quantum mult_right_mono less_imp_le)
  next
    case False
    then have lt: "f64_exponent x + 1 \<le> f64_exponent y" and big: "- 1074 < f64_exponent y - 52"
      using le by (cases "f64_exponent x = f64_exponent y"; auto simp: quantum_of_def max_def split: if_splits)+
    obtain k where k: "two_pow (f64_exponent y) = of_int k * quantum_of x"
      using two_pow_multiple[of "max (f64_exponent x - 52) (- 1074)" "f64_exponent y"] lt big by (auto simp: quantum_of_def)
    have "two_pow (f64_exponent x + 1) \<le> two_pow (f64_exponent y)" using lt by (rule two_pow_mono)
    then have "x \<le> of_int k * quantum_of x" using ex assms k by simp
    then have down: "f64_round x \<le> two_pow (f64_exponent y)" using f64_round_le_multiple assms k by simp
    obtain j where j: "two_pow (f64_exponent y) = of_int j * quantum_of y"
      using two_pow_multiple[of "max (f64_exponent y - 52) (- 1074)" "f64_exponent y"] big by (auto simp: quantum_of_def)
    then have "two_pow (f64_exponent y) \<le> f64_round y" using f64_round_ge_multiple[of y j] ey assms by simp
    then show ?thesis using down by simp
  qed
qed

lemma f64_round_mono: "0 \<le> x \<Longrightarrow> x \<le> y \<Longrightarrow> f64_round x \<le> f64_round y"
  using f64_round_mono_pos[of x y] f64_round_nonneg[of y] by (cases "x = 0") auto

lemma f64_add_ge: "f64_round a = a \<Longrightarrow> 0 \<le> a \<Longrightarrow> 0 \<le> b \<Longrightarrow> a \<le> f64_add a b"
  using f64_round_mono[of a "a + b"] by (simp add: f64_add_def)

lemma f64_round_multiple:
  assumes "y = of_int k * quantum_of y"
  shows "f64_round y = y"
proof (cases "y = 0")
  case False
  have "y / quantum_of y = of_int k" using assms by (metis nonzero_mult_div_cancel_right order_less_irrefl quantum_pos)
  then show ?thesis using f64_round_quantum[OF False] assms by simp
qed simp

text \<open>A number below half the least quantum rounds to zero.\<close>

lemma f64_round_tiny:
  assumes "0 < x" "f64_round x \<noteq> 0"
  shows "- 1075 \<le> f64_exponent x"
proof (rule ccontr)
  assume e: "\<not> - 1075 \<le> f64_exponent x"
  then have q: "quantum_of x = two_pow (- 1074)" by (simp add: quantum_of_def)
  have "x < two_pow (f64_exponent x + 1)" using f64_exponent_spec[of x] assms(1) by simp
  also have "\<dots> \<le> two_pow (- 1075)" using e by (intro two_pow_mono) simp
  also have "\<dots> = quantum_of x / 2" unfolding q using two_pow_add[of "- 1075" 1] two_pow_nat[of 1] by simp
  finally have "x / quantum_of x < 1 / 2" by (simp add: divide_less_eq)
  moreover have "0 \<le> x / quantum_of x" using assms(1) by (simp add: less_imp_le)
  then have "\<lfloor>x / quantum_of x\<rfloor> = 0" using calculation by (intro floor_unique) (simp, linarith)
  ultimately have "round_half_even (x / quantum_of x) = 0" by (simp add: round_half_even_def Let_def)
  then show False using assms f64_round_quantum[of x] by simp
qed

lemma f64_round_idem [simp]:
  assumes "0 \<le> x"
  shows "f64_round (f64_round x) = f64_round x"
proof (cases "f64_round x = 0")
  case False
  let ?q = "quantum_of x" let ?e = "f64_exponent x" define y where "y = f64_round x"
  have x: "0 < x" using assms False by (cases "x = 0") auto
  then obtain k where k: "y = of_int k * ?q" using f64_round_quantum[of x] by (auto simp: y_def)
  have y: "0 < y" using f64_round_nonneg[OF assms] False by (simp add: y_def)
  have "0 < k" using y k quantum_pos[of x] by (metis less_imp_not_less of_int_0_less_iff zero_less_mult_pos2)
  then have "1 * ?q \<le> of_int k * ?q" by (intro mult_right_mono) (simp_all add: less_imp_le)
  then have ge: "?q \<le> y" using k by simp
  note ey = f64_exponent_spec[of y]
  have "two_pow (- 1074) \<le> y" using ge two_pow_mono[of "- 1074" "max (?e - 52) (- 1074)"] by (simp add: quantum_of_def)
  then have "two_pow (- 1074) < two_pow (f64_exponent y + 1)" using ey y by simp
  then have low: "- 1074 \<le> f64_exponent y" by (simp add: two_pow_less)
  show ?thesis
  proof (cases "f64_exponent y \<le> ?e")
    case True
    then obtain j where "?q = of_int j * quantum_of y"
      using two_pow_multiple[of "max (f64_exponent y - 52) (- 1074)" "max (?e - 52) (- 1074)"] max.mono[of "f64_exponent y - 52" "?e - 52" "- 1074" "- 1074"]
      unfolding quantum_of_def by auto
    then have "y = of_int (k * j) * quantum_of y" using k by simp
    then show ?thesis using f64_round_multiple unfolding y_def[symmetric] by blast
  next
    case False
    have "x < two_pow (?e + 1)" using f64_exponent_spec[of x] x by simp
    moreover obtain n where n: "two_pow (?e + 1) = of_int n * ?q"
      using two_pow_multiple[of "max (?e - 52) (- 1074)" "?e + 1"] f64_round_tiny[of x] x \<open>f64_round x \<noteq> 0\<close> by (auto simp: quantum_of_def)
    ultimately have "y \<le> two_pow (?e + 1)" using f64_round_le_multiple[of x n] x by (simp add: y_def)
    moreover have "two_pow (?e + 1) \<le> two_pow (f64_exponent y)" using False by (intro two_pow_mono) simp
    ultimately have eq: "y = two_pow (f64_exponent y)" using ey y by simp
    obtain j where "two_pow (f64_exponent y) = of_int j * quantum_of y"
      using two_pow_multiple[of "max (f64_exponent y - 52) (- 1074)" "f64_exponent y"] low by (auto simp: quantum_of_def)
    then show ?thesis using f64_round_multiple eq unfolding y_def[symmetric] by metis
  qed
qed simp

end
