(* ===== verification/Timeline.thy ===== *)
theory Timeline
  imports Float64 Playout "HOL-Library.Product_Lexorder"
begin

text \<open>
  A bumper's timeline and its flex solver (\<open>bumper/timeline.rs\<close>): segments of fixed or flexible length
  resolved onto a gap, snapped to the frame grid. Lengths are milliseconds below \<open>2^63\<close>, so the casts
  to \<open>i64\<close> change nothing.
\<close>

section \<open>The model of a bumper\<close>

datatype segment_source =
    SegClip string nat nat
  | SegLavfi string
  | SegStill string
  | SegRender string string
  | SegPending string string
  | SegHttp string nat nat

definition seg_black :: segment_source where
  "seg_black = SegLavfi ''color=c=black''"

text \<open>A float a script hands in: infinite or NaN is refused, not computed with.\<close>

datatype float_in = Finite f64 | NotFinite

datatype seg_duration = FixedMs nat | FlexMs nat nat float_in

datatype seg_audio = AudioOwn | AudioBed | AudioMute | AudioDucked f64

record overlay_vars =
  ov_script :: string
  ov_vars :: "(string, json) btree"

datatype bed_source = BedFile string | BedLavfi string

record bed_audio =
  ba_source :: bed_source
  ba_gain_db :: f64
  ba_fade_in_ms :: nat
  ba_fade_out_ms :: nat

record segment =
  sg_name :: string
  sg_source :: segment_source
  sg_duration :: seg_duration
  sg_loop :: bool
  sg_optional :: bool
  sg_priority :: nat
  sg_overlay :: "overlay_vars option"
  sg_audio :: seg_audio

record timeline =
  tl_segments :: "segment list"
  tl_bed :: "bed_audio option"

record resolved_segment =
  rg_segment :: segment
  rg_start_ms :: nat
  rg_duration_ms :: nat
  rg_filler :: bool

record resolved_timeline =
  rt_segments :: "resolved_segment list"
  rt_bed :: "bed_audio option"
  rt_dropped :: "string list"

definition total_ms :: "resolved_timeline \<Rightarrow> nat" where
  "total_ms rt = sum_list (map rg_duration_ms (rt_segments rt))"

datatype fit_error =
    NoSegments
  | ZeroGap
  | BadFps float_in
  | BadFlex string nat nat
  | BadGrow string float_in
  | FixedExceedsGap nat nat

section \<open>What is asked of a timeline\<close>

definition segment_problem :: "segment \<Rightarrow> fit_error option" where
  "segment_problem seg =
     (case sg_duration seg of
        FixedMs _ \<Rightarrow> None
      | FlexMs min_ms max_ms grow \<Rightarrow>
          if max_ms < min_ms then Some (BadFlex (sg_name seg) min_ms max_ms)
          else (case grow of Finite g \<Rightarrow> if g < 0 then Some (BadGrow (sg_name seg) grow) else None
                 | NotFinite \<Rightarrow> Some (BadGrow (sg_name seg) grow)))"

fun fps_of :: "float_in \<Rightarrow> f64 option" where
  "fps_of (Finite f) = (if 0 < f then Some f else None)"
| "fps_of NotFinite = None"

section \<open>Dropping\<close>

text \<open>Live segments are indexes into the timeline, in its order.\<close>

fun least_ms :: "seg_duration \<Rightarrow> nat" where
  "least_ms (FixedMs ms) = ms"
| "least_ms (FlexMs min_ms _ _) = min_ms"

fun is_fixed :: "seg_duration \<Rightarrow> bool" where
  "is_fixed (FixedMs _) = True"
| "is_fixed (FlexMs _ _ _) = False"

definition feasible :: "segment list \<Rightarrow> nat list \<Rightarrow> nat \<Rightarrow> bool" where
  "feasible segs live gap \<longleftrightarrow> sum_list (map (\<lambda>i. least_ms (sg_duration (segs ! i))) live) \<le> gap"

text \<open>The optional of least priority, the later one on a tie.\<close>

definition victim :: "segment list \<Rightarrow> nat list \<Rightarrow> nat option" where
  "victim segs live =
     min_by_key (\<lambda>i. (sg_priority (segs ! i), - int i)) (filter (\<lambda>i. sg_optional (segs ! i)) live)"

lemma victim_live: "victim segs live = Some i \<Longrightarrow> i \<in> set live \<and> sg_optional (segs ! i)"
  by (auto simp: victim_def dest: min_by_key_SomeD)

function drop_optionals :: "segment list \<Rightarrow> nat \<Rightarrow> nat list \<Rightarrow> nat list \<times> nat list" where
  "drop_optionals segs gap live =
     (if feasible segs live gap then (live, [])
      else case victim segs live of
        None \<Rightarrow> (live, [])
      | Some i \<Rightarrow> (let (kept, dropped) = drop_optionals segs gap (filter (\<lambda>j. j \<noteq> i) live) in (kept, i # dropped)))"
  by auto

termination
  by (relation "measure (\<lambda>(segs, gap, live). length live)") (auto dest: victim_live intro: length_filter_less)

declare drop_optionals.simps [simp del]

text \<open>Still too short: only fixed segments stay, and the last one that may loop.\<close>

definition last_loop :: "segment list \<Rightarrow> nat list \<Rightarrow> nat option" where
  "last_loop segs live = find (\<lambda>i. sg_loop (segs ! i)) (rev live)"

definition stays :: "segment list \<Rightarrow> nat option \<Rightarrow> nat \<Rightarrow> bool" where
  "stays segs keep i \<longleftrightarrow> is_fixed (sg_duration (segs ! i)) \<or> Some i = keep"

definition drop_flex :: "segment list \<Rightarrow> nat list \<Rightarrow> nat list \<times> nat list" where
  "drop_flex segs live =
     (let keep = last_loop segs live in (filter (stays segs keep) live, filter (\<lambda>i. \<not> stays segs keep i) live))"

fun fixed_ms :: "seg_duration \<Rightarrow> nat" where
  "fixed_ms (FixedMs ms) = ms"
| "fixed_ms (FlexMs _ _ _) = 0"

section \<open>Growing\<close>

definition f64_sum :: "f64 list \<Rightarrow> f64" where
  "f64_sum xs = foldl f64_add 0 xs"

definition f64_of_nat :: "nat \<Rightarrow> f64" where
  "f64_of_nat n = f64_round (of_nat n)"

record flex_room =
  fx_pos :: nat
  fx_min :: f64
  fx_max :: f64
  fx_grow :: f64

fun flex_at :: "nat \<times> seg_duration \<Rightarrow> flex_room option" where
  "flex_at (k, FlexMs min_ms max_ms (Finite grow)) =
     Some \<lparr>fx_pos = k, fx_min = f64_of_nat min_ms, fx_max = f64_of_nat max_ms, fx_grow = grow\<rparr>"
| "flex_at _ = None"

text \<open>A flexible segment's share of the spare time.\<close>

definition grown :: "f64 \<Rightarrow> f64 \<Rightarrow> flex_room \<Rightarrow> f64" where
  "grown spare weight f = f64_add (fx_min f) (f64_div (f64_mul spare (fx_grow f)) weight)"

text \<open>
  One round: a segment whose share passes its maximum is frozen there, and what it took leaves the
  spare time of the segments after it. \<open>True\<close> says one was frozen.
\<close>

fun freeze_round ::
  "f64 \<Rightarrow> (flex_room \<times> bool) list \<Rightarrow> f64 \<Rightarrow> f64 list \<Rightarrow> (flex_room \<times> bool) list \<times> f64 \<times> f64 list \<times> bool" where
  "freeze_round weight [] spare durs = ([], spare, durs, False)"
| "freeze_round weight ((f, frozen) # fs) spare durs =
     (if \<not> frozen \<and> fx_max f < grown spare weight f
      then (let (fs', spare', durs', _) =
                  freeze_round weight fs (f64_sub spare (f64_sub (fx_max f) (fx_min f))) (durs[fx_pos f := fx_max f])
            in ((f, True) # fs', spare', durs', True))
      else (let (fs', spare', durs', over) = freeze_round weight fs spare durs in ((f, frozen) # fs', spare', durs', over)))"

definition free_rooms :: "(flex_room \<times> bool) list \<Rightarrow> flex_room list" where
  "free_rooms fs = map fst (filter (\<lambda>(_, frozen). \<not> frozen) fs)"

lemma freeze_round_frees:
  "freeze_round weight fs spare durs = (fs', spare', durs', over) \<Longrightarrow>
     length (free_rooms fs') \<le> length (free_rooms fs) \<and> (over \<longrightarrow> length (free_rooms fs') < length (free_rooms fs))"
  by (induction weight fs spare durs arbitrary: fs' spare' durs' over rule: freeze_round.induct)
    (force simp: free_rooms_def split: if_splits prod.splits)+

function share_rounds :: "(flex_room \<times> bool) list \<Rightarrow> f64 \<Rightarrow> f64 list \<Rightarrow> f64 list" where
  "share_rounds fs spare durs =
     (let weight = f64_sum (map fx_grow (free_rooms fs)) in
      if weight \<le> 0 \<or> spare \<le> 0 then durs
      else case freeze_round weight fs spare durs of (fs', spare', durs', over) \<Rightarrow>
        if over then share_rounds fs' spare' durs'
        else fold (\<lambda>f ds. ds[fx_pos f := grown spare weight f]) (free_rooms fs) durs)"
  by auto

termination
  by (relation "measure (\<lambda>(fs, spare, durs). length (free_rooms fs))")
    (auto dest: freeze_round_frees[OF sym])

declare share_rounds.simps [simp del]

definition grow_flex :: "seg_duration list \<Rightarrow> f64 list \<Rightarrow> f64 \<Rightarrow> f64 list" where
  "grow_flex live durs remaining =
     (let flex = List.map_filter flex_at (List.enumerate 0 live) in
      share_rounds (map (\<lambda>f. (f, False)) flex) (f64_sub remaining (f64_sum (map fx_min flex))) durs)"

section \<open>Snapping\<close>

definition snap_to_frame :: "f64 \<Rightarrow> f64 \<Rightarrow> nat" where
  "snap_to_frame ms fps =
     (let frames = of_int (round_away (f64_div (f64_mul ms fps) 1000))
      in nat (round_away (f64_div (f64_mul frames 1000) fps)))"

definition filler_segment :: segment where
  "filler_segment =
     \<lparr>sg_name = ''filler'', sg_source = seg_black, sg_duration = FixedMs 0, sg_loop = False, sg_optional = False,
      sg_priority = 0, sg_overlay = None, sg_audio = AudioMute\<rparr>"

text \<open>
  The segments that got a frame, and the names of those that snapped to nothing. The last boundary is
  the gap itself.
\<close>

fun place_segments ::
  "nat \<Rightarrow> f64 \<Rightarrow> (segment \<times> f64 \<times> bool) list \<Rightarrow> f64 \<Rightarrow> nat \<Rightarrow> resolved_segment list \<times> string list" where
  "place_segments gap fps [] cumulative before = ([], [])"
| "place_segments gap fps ((seg, dur, filler) # rest) cumulative before =
     (let cumulative = f64_add cumulative dur;
          boundary = (if rest = [] then gap else min (snap_to_frame cumulative fps) gap);
          (placed, gone) = place_segments gap fps rest cumulative boundary
      in if before < boundary
         then (\<lparr>rg_segment = seg, rg_start_ms = before, rg_duration_ms = boundary - before, rg_filler = filler\<rparr> # placed, gone)
         else (placed, sg_name seg # gone))"

section \<open>Fitting\<close>

text \<open>Step 3: the length each live segment gets, before what is still short of the gap.\<close>

definition solve_flex :: "seg_duration list \<Rightarrow> bool \<Rightarrow> nat \<Rightarrow> f64 list" where
  "solve_flex live fits room =
     (let durs = map (f64_of_nat \<circ> least_ms) live in
      if fits then grow_flex live durs (f64_of_nat room)
      else map (\<lambda>(d, ms). if is_fixed d then ms else f64_of_nat room) (zip live durs))"

text \<open>Step 4: the last segment that may loop takes the rest; else black does.\<close>

definition top_up :: "nat \<Rightarrow> segment list \<Rightarrow> f64 list \<Rightarrow> (segment \<times> f64 \<times> bool) list" where
  "top_up gap live durs =
     (let short = f64_sub (f64_of_nat gap) (f64_sum durs); plain = (\<lambda>ds. map (\<lambda>(seg, d). (seg, d, False)) (zip live ds)) in
      if 1 / 2 \<le> short
      then case rposition sg_loop live of
             Some k \<Rightarrow> plain (durs[k := f64_add (durs ! k) short])
           | None \<Rightarrow> plain durs @ [(filler_segment, short, True)]
      else plain durs)"

definition live_segments :: "segment list \<Rightarrow> nat \<Rightarrow> nat list \<times> nat list \<times> bool" where
  "live_segments segs gap =
     (let (live, dropped) = drop_optionals segs gap [0..<length segs];
          fits = feasible segs live gap;
          (kept, gone) = (if fits then (live, []) else drop_flex segs live)
      in (kept, dropped @ gone, fits))"

definition fit_live :: "timeline \<Rightarrow> nat \<Rightarrow> f64 \<Rightarrow> fit_error + resolved_timeline" where
  "fit_live line gap fps =
     (let segs = tl_segments line;
          (live, dropped, fits) = live_segments segs gap;
          lengths = map (\<lambda>i. sg_duration (segs ! i)) live;
          fixed = sum_list (map fixed_ms lengths)
      in if gap < fixed then Inl (FixedExceedsGap fixed gap)
         else let durs = solve_flex lengths fits (gap - fixed);
                  (placed, snapped) = place_segments gap fps (top_up gap (map ((!) segs) live) durs) 0 0
              in Inr \<lparr>rt_segments = placed, rt_bed = tl_bed line,
                      rt_dropped = map (\<lambda>i. sg_name (segs ! i)) dropped @ snapped\<rparr>)"

definition fit :: "timeline \<Rightarrow> nat \<Rightarrow> float_in \<Rightarrow> fit_error + resolved_timeline" where
  "fit line gap fps =
     (if tl_segments line = [] then Inl NoSegments
      else if gap = 0 then Inl ZeroGap
      else case fps_of fps of
        None \<Rightarrow> Inl (BadFps fps)
      | Some rate \<Rightarrow>
          (case find_map segment_problem (tl_segments line) of
             Some e \<Rightarrow> Inl e
           | None \<Rightarrow> fit_live line gap rate))"

end
