(* ===== verification/TimelineFacts.thy ===== *)
theory TimelineFacts
  imports Timeline ScheduleFacts "HOL-Library.Sublist"
begin

text \<open>
  What the solver promises: the placed segments fill the gap to the millisecond, one after the other
  and in the order authored; nothing is lost without being named; a flexible segment keeps to its
  range; and it fails only when what must air whole is longer than the gap.
\<close>

section \<open>The frame grid is monotone\<close>

lemma f64_mul_mono: "0 \<le> a \<Longrightarrow> a \<le> b \<Longrightarrow> 0 \<le> c \<Longrightarrow> f64_mul a c \<le> f64_mul b c"
  unfolding f64_mul_def by (rule f64_round_mono) (simp_all add: mult_right_mono)

lemma f64_div_mono: "0 \<le> a \<Longrightarrow> a \<le> b \<Longrightarrow> 0 \<le> c \<Longrightarrow> f64_div a c \<le> f64_div b c"
  unfolding f64_div_def by (rule f64_round_mono) (simp_all add: divide_right_mono)

lemma f64_mul_nonneg: "0 \<le> a \<Longrightarrow> 0 \<le> b \<Longrightarrow> 0 \<le> f64_mul a b"
  by (simp add: f64_mul_def f64_round_nonneg)

lemma f64_div_nonneg: "0 \<le> a \<Longrightarrow> 0 \<le> b \<Longrightarrow> 0 \<le> f64_div a b"
  by (simp add: f64_div_def f64_round_nonneg)

lemma f64_of_nat_nonneg [simp]: "0 \<le> f64_of_nat n"
  by (simp add: f64_of_nat_def f64_round_nonneg)

lemma f64_of_nat_round [simp]: "f64_round (f64_of_nat n) = f64_of_nat n"
  by (simp add: f64_of_nat_def)

lemma snap_mono:
  assumes "0 \<le> a" "a \<le> b" "0 < fps"
  shows "snap_to_frame a fps \<le> snap_to_frame b fps"
proof -
  have "round_away (f64_div (f64_mul a fps) 1000) \<le> round_away (f64_div (f64_mul b fps) 1000)"
    using assms by (intro round_away_mono f64_div_mono f64_mul_mono f64_mul_nonneg) simp_all
  moreover have "0 \<le> round_away (f64_div (f64_mul a fps) 1000)"
    using assms by (intro round_away_nonneg f64_div_nonneg f64_mul_nonneg) simp_all
  ultimately show ?thesis using assms unfolding snap_to_frame_def Let_def
    by (intro nat_mono round_away_mono f64_div_mono f64_mul_mono f64_mul_nonneg) simp_all
qed

section \<open>The gap is filled\<close>

fun consecutive :: "nat \<Rightarrow> resolved_segment list \<Rightarrow> nat \<Rightarrow> bool" where
  "consecutive t [] e \<longleftrightarrow> t = e"
| "consecutive t (s # ss) e \<longleftrightarrow> rg_start_ms s = t \<and> 0 < rg_duration_ms s \<and> consecutive (t + rg_duration_ms s) ss e"

lemma consecutive_total: "consecutive t ss e \<Longrightarrow> t + sum_list (map rg_duration_ms ss) = e"
  by (induction t ss e rule: consecutive.induct) auto

lemma place_consecutive:
  assumes "0 < fps" "list_all (\<lambda>(_, d, _). 0 \<le> d) rows" "rows \<noteq> []"
    and "0 \<le> c" "f64_round c = c" "before \<le> min (snap_to_frame c fps) gap"
  shows "consecutive before (fst (place_segments gap fps rows c before)) gap"
  using assms(2-)
proof (induction rows arbitrary: c before)
  case (Cons row rest)
  obtain seg dur filler where row: "row = (seg, dur, filler)" by (cases row)
  define c' where "c' = f64_add c dur"
  define boundary where "boundary = (if rest = [] then gap else min (snap_to_frame c' fps) gap)"
  have c': "c \<le> c'" "f64_round c' = c'" "0 \<le> c'"
    using Cons.prems f64_add_ge[of c dur] by (auto simp: c'_def f64_add_def row)
  have "snap_to_frame c fps \<le> snap_to_frame c' fps" using snap_mono[OF Cons.prems(3) c'(1) assms(1)] .
  then have le: "before \<le> boundary" using Cons.prems(5) by (auto simp: boundary_def)
  have rest: "consecutive boundary (fst (place_segments gap fps rest c' boundary)) gap"
  proof (cases "rest = []")
    case True then show ?thesis by (simp add: boundary_def)
  next
    case False then show ?thesis using Cons.IH[of c' boundary] Cons.prems(1) c' by (simp add: boundary_def row)
  qed
  have "place_segments gap fps (row # rest) c before = (let (placed, gone) = place_segments gap fps rest c' boundary
      in if before < boundary
         then (\<lparr>rg_segment = seg, rg_start_ms = before, rg_duration_ms = boundary - before, rg_filler = filler\<rparr> # placed, gone)
         else (placed, sg_name seg # gone))"
    by (simp only: row place_segments.simps Let_def c'_def boundary_def)
  then show ?case using le rest by (auto split: prod.splits)
qed simp

text \<open>Every row is placed, or named among those that snapped to nothing.\<close>

lemma place_names:
  "mset (map (sg_name \<circ> rg_segment) (fst (place_segments gap fps rows c before))) + mset (snd (place_segments gap fps rows c before)) =
     mset (map (sg_name \<circ> fst) rows)"
  by (induction gap fps rows c before rule: place_segments.induct) (auto simp: Let_def split: prod.splits)

lemma place_order:
  "subseq (map (\<lambda>r. (rg_segment r, rg_filler r)) (fst (place_segments gap fps rows c before))) (map (\<lambda>(s, _, f). (s, f)) rows)"
  by (induction gap fps rows c before rule: place_segments.induct) (auto simp: Let_def split: prod.splits)

section \<open>Growing stays in range\<close>

definition room_ok :: "flex_room \<Rightarrow> bool" where
  "room_ok f \<longleftrightarrow> 0 \<le> fx_min f \<and> fx_min f \<le> fx_max f \<and> f64_round (fx_min f) = fx_min f \<and> 0 \<le> fx_grow f"

definition in_room :: "flex_room set \<Rightarrow> f64 list \<Rightarrow> bool" where
  "in_room R ds \<longleftrightarrow> (\<forall>f\<in>R. fx_pos f < length ds \<and> fx_min f \<le> ds ! fx_pos f \<and> ds ! fx_pos f \<le> fx_max f)"

lemma in_room_update:
  assumes "inj_on fx_pos R" "f \<in> R" "in_room R ds" "fx_min f \<le> v" "v \<le> fx_max f"
  shows "in_room R (ds[fx_pos f := v])"
  using assms by (auto simp: in_room_def nth_list_update inj_on_def)

lemma update_other: "f \<in> R \<Longrightarrow> k \<notin> fx_pos ` R \<Longrightarrow> ds[fx_pos f := v] ! k = ds ! k"
  by (metis imageI nth_list_update_neq)

lemma freeze_round_keeps:
  assumes "freeze_round weight fs spare durs = (fs', spare', durs', over)" "inj_on fx_pos R" "fst ` set fs \<subseteq> R"
    "\<forall>f\<in>R. room_ok f" "in_room R durs"
  shows "map fst fs' = map fst fs \<and> in_room R durs' \<and> length durs' = length durs \<and>
    (\<forall>k. k \<notin> fx_pos ` R \<longrightarrow> durs' ! k = durs ! k) \<and>
    (\<not> over \<longrightarrow> (\<forall>f\<in>set (free_rooms fs). grown spare weight f \<le> fx_max f))"
  using assms
proof (induction weight fs spare durs arbitrary: fs' spare' durs' over rule: freeze_round.induct)
  case (2 weight f frozen fs spare durs)
  show ?case
  proof (cases "\<not> frozen \<and> fx_max f < grown spare weight f")
    case True
    have up: "in_room R (durs[fx_pos f := fx_max f])"
      using in_room_update[OF "2.prems"(2) _ "2.prems"(5)] "2.prems"(3,4) by (simp add: room_ok_def)
    obtain fs1 o1 where r: "freeze_round weight fs (f64_sub spare (f64_sub (fx_max f) (fx_min f))) (durs[fx_pos f := fx_max f]) =
        (fs1, spare', durs', o1)" "fs' = (f, True) # fs1" "over"
      using "2.prems"(1) True by (auto simp: Let_def split: prod.splits)
    have "f \<in> R" "fst ` set fs \<subseteq> R" using "2.prems"(3) by auto
    then show ?thesis using "2.IH"(1)[OF True r(1) "2.prems"(2) _ "2.prems"(4) up] r
      by (auto simp: update_other)
  next
    case False
    obtain fs1 where r: "freeze_round weight fs spare durs = (fs1, spare', durs', over)" "fs' = (f, frozen) # fs1"
      using "2.prems"(1) False by (auto simp: Let_def split: prod.splits)
    have "fst ` set fs \<subseteq> R" using "2.prems"(3) by auto
    then show ?thesis using "2.IH"(2)[OF False r(1) "2.prems"(2) _ "2.prems"(4,5)] r False
      by (auto simp: free_rooms_def)
  qed
qed (auto simp: free_rooms_def)

lemma f64_sum_nonneg: "\<forall>x\<in>set xs. 0 \<le> x \<Longrightarrow> 0 \<le> f64_sum xs"
proof -
  have "\<forall>x\<in>set xs. 0 \<le> x \<Longrightarrow> 0 \<le> a \<Longrightarrow> 0 \<le> foldl f64_add a xs" for a
    by (induction xs arbitrary: a) (auto simp: f64_add_def f64_round_nonneg)
  then show "\<forall>x\<in>set xs. 0 \<le> x \<Longrightarrow> 0 \<le> f64_sum xs" by (simp add: f64_sum_def)
qed

lemma share_all:
  assumes "inj_on fx_pos R" "set fs \<subseteq> R" "\<forall>f\<in>set fs. fx_min f \<le> v f \<and> v f \<le> fx_max f" "in_room R durs"
  shows "in_room R (fold (\<lambda>f ds. ds[fx_pos f := v f]) fs durs) \<and>
    length (fold (\<lambda>f ds. ds[fx_pos f := v f]) fs durs) = length durs \<and>
    (\<forall>k. k \<notin> fx_pos ` R \<longrightarrow> fold (\<lambda>f ds. ds[fx_pos f := v f]) fs durs ! k = durs ! k)"
  using assms(2-)
proof (induction fs arbitrary: durs)
  case (Cons f fs)
  have f: "f \<in> R" using Cons.prems by simp
  have "in_room R (durs[fx_pos f := v f])" using in_room_update[OF assms(1) f] Cons.prems by simp
  then show ?case using Cons.IH[of "durs[fx_pos f := v f]"] Cons.prems f by (simp add: update_other)
qed simp

lemma share_rounds_keeps:
  assumes "inj_on fx_pos R" "fst ` set fs \<subseteq> R" "\<forall>f\<in>R. room_ok f" "in_room R durs"
  shows "in_room R (share_rounds fs spare durs) \<and> length (share_rounds fs spare durs) = length durs \<and>
    (\<forall>k. k \<notin> fx_pos ` R \<longrightarrow> share_rounds fs spare durs ! k = durs ! k)"
  using assms(2,4)
proof (induction fs spare durs rule: share_rounds.induct)
  case (1 fs spare durs)
  define weight where "weight = f64_sum (map fx_grow (free_rooms fs))"
  have free: "set (free_rooms fs) \<subseteq> R" using "1.prems" by (auto simp: free_rooms_def)
  show ?case
  proof (cases "weight \<le> 0 \<or> spare \<le> 0")
    case True
    then show ?thesis using "1.prems" by (subst (1 2 3) share_rounds.simps) (simp add: Let_def weight_def[symmetric])
  next
    case False
    obtain fs' spare' durs' over where r: "freeze_round weight fs spare durs = (fs', spare', durs', over)" by (metis prod_cases4)
    note kept = freeze_round_keeps[OF r assms(1) "1.prems"(1) assms(3) "1.prems"(2)]
    have step: "share_rounds fs spare durs = (if over then share_rounds fs' spare' durs'
        else fold (\<lambda>f ds. ds[fx_pos f := grown spare weight f]) (free_rooms fs) durs)"
      using False by (subst share_rounds.simps) (simp add: Let_def weight_def[symmetric] r)
    show ?thesis
    proof (cases over)
      case True
      have "fst ` set fs' = fst ` set fs" using kept by (metis list.set_map)
      then show ?thesis using "1.IH"[OF weight_def False r[symmetric] refl refl True] kept step True "1.prems" by auto
    next
      case over: False
      have "fx_min f \<le> grown spare weight f" if "f \<in> R" for f
        using False that assms(3) f64_add_ge[of "fx_min f" "f64_div (f64_mul spare (fx_grow f)) weight"]
        by (simp add: grown_def room_ok_def f64_div_nonneg f64_mul_nonneg)
      then have "\<forall>f\<in>set (free_rooms fs). fx_min f \<le> grown spare weight f \<and> grown spare weight f \<le> fx_max f"
        using kept over free by auto
      then show ?thesis using share_all[OF assms(1) free _ "1.prems"(2), of "grown spare weight"] step over by simp
    qed
  qed
qed

section \<open>The lengths of the live segments\<close>

definition length_ok :: "seg_duration \<Rightarrow> bool" where
  "length_ok d \<longleftrightarrow> (case d of FixedMs _ \<Rightarrow> True | FlexMs a b grow \<Rightarrow> a \<le> b \<and> (case grow of Finite g \<Rightarrow> 0 \<le> g | NotFinite \<Rightarrow> False))"

lemma segment_problem_None: "segment_problem seg = None \<longleftrightarrow> length_ok (sg_duration seg)"
  by (auto simp: segment_problem_def length_ok_def split: seg_duration.split float_in.split)

definition rooms_of :: "seg_duration list \<Rightarrow> flex_room list" where
  "rooms_of live = List.map_filter flex_at (List.enumerate 0 live)"

lemma set_rooms_of:
  "set (rooms_of live) = {\<lparr>fx_pos = k, fx_min = f64_of_nat a, fx_max = f64_of_nat b, fx_grow = g\<rparr> | k a b g.
     k < length live \<and> live ! k = FlexMs a b (Finite g)}"
proof -
  have "flex_at (k, d) = Some f \<longleftrightarrow> (\<exists>a b g. d = FlexMs a b (Finite g) \<and>
      f = \<lparr>fx_pos = k, fx_min = f64_of_nat a, fx_max = f64_of_nat b, fx_grow = g\<rparr>)" for k d f
    by (cases "(k, d)" rule: flex_at.cases) auto
  then show ?thesis
    by (force simp: rooms_of_def map_filter_def set_zip enumerate_eq_zip image_iff)
qed

lemma f64_of_nat_mono: "a \<le> b \<Longrightarrow> f64_of_nat a \<le> f64_of_nat b"
  unfolding f64_of_nat_def by (rule f64_round_mono) simp_all

lemma rooms_ok: "\<forall>d\<in>set live. length_ok d \<Longrightarrow> f \<in> set (rooms_of live) \<Longrightarrow> room_ok f"
  unfolding set_rooms_of by (fastforce simp: room_ok_def length_ok_def f64_of_nat_mono dest: nth_mem)

lemma rooms_inj: "inj_on fx_pos (set (rooms_of live))"
  by (auto simp: set_rooms_of inj_on_def)

definition in_range :: "seg_duration \<Rightarrow> f64 \<Rightarrow> bool" where
  "in_range d ms \<longleftrightarrow> (case d of FixedMs n \<Rightarrow> ms = f64_of_nat n | FlexMs a b _ \<Rightarrow> f64_of_nat a \<le> ms \<and> ms \<le> f64_of_nat b)"

lemma grow_flex_range:
  assumes "\<forall>d\<in>set live. length_ok d" "durs = map (f64_of_nat \<circ> least_ms) live"
  shows "length (grow_flex live durs room) = length live \<and> (\<forall>k<length live. in_range (live ! k) (grow_flex live durs room ! k))"
proof -
  let ?R = "set (rooms_of live)"
  have "in_room ?R durs"
    using assms by (fastforce simp: in_room_def set_rooms_of length_ok_def f64_of_nat_mono dest: nth_mem)
  moreover have "fst ` set (map (\<lambda>f. (f, False)) (rooms_of live)) \<subseteq> ?R" by auto
  ultimately have k: "in_room ?R (grow_flex live durs room)" "length (grow_flex live durs room) = length durs"
    "\<And>k. k \<notin> fx_pos ` ?R \<Longrightarrow> grow_flex live durs room ! k = durs ! k"
    using share_rounds_keeps[OF rooms_inj _ _ , of "map (\<lambda>f. (f, False)) (rooms_of live)" live durs] rooms_ok[OF assms(1)]
    unfolding grow_flex_def Let_def rooms_of_def[symmetric] by auto
  have "in_range (live ! i) (grow_flex live durs room ! i)" if i: "i < length live" for i
  proof (cases "live ! i")
    case (FixedMs n)
    then have "i \<notin> fx_pos ` ?R" by (auto simp: set_rooms_of)
    then show ?thesis using k(3)[of i] FixedMs i assms(2) by (simp add: in_range_def)
  next
    case (FlexMs a b g)
    have "length_ok (FlexMs a b g)" using assms(1) i FlexMs nth_mem by metis
    then obtain g' where g: "g = Finite g'" by (cases g) (auto simp: length_ok_def)
    then have "\<lparr>fx_pos = i, fx_min = f64_of_nat a, fx_max = f64_of_nat b, fx_grow = g'\<rparr> \<in> ?R"
      using FlexMs i by (auto simp: set_rooms_of)
    then show ?thesis using k(1) FlexMs by (force simp: in_room_def in_range_def)
  qed
  then show ?thesis using k(2) assms(2) by simp
qed

text \<open>
  Claim C35. When the minimums fit, every segment still in is given a length its author allowed: a fixed
  one its own, a flexible one a length between its minimum and its maximum, however the spare time
  was shared.
\<close>

theorem flexible_segments_keep_their_range:
  assumes "\<forall>d\<in>set live. segment_problem (seg\<lparr>sg_duration := d\<rparr>) = None"
  shows "length (solve_flex live True room) = length live \<and>
    (\<forall>k < length live. in_range (live ! k) (solve_flex live True room ! k))"
  using grow_flex_range[of live _ "f64_of_nat room"] assms by (simp add: solve_flex_def Let_def segment_problem_None)

lemma solve_flex_ok:
  assumes "\<forall>d\<in>set live. length_ok d"
  shows "length (solve_flex live fits room) = length live \<and> (\<forall>ms\<in>set (solve_flex live fits room). 0 \<le> ms)"
proof (cases fits)
  case True
  have nonneg: "0 \<le> ms" if "in_range d ms" for d ms
    using that order_trans[OF f64_of_nat_nonneg] by (auto simp: in_range_def split: seg_duration.splits)
  have "0 \<le> ms" if "ms \<in> set (solve_flex live fits room)" for ms
    using that grow_flex_range[OF assms refl, of "f64_of_nat room"] True 
    by (auto simp: solve_flex_def Let_def in_set_conv_nth intro: nonneg)
  then show ?thesis using grow_flex_range[OF assms refl, of "f64_of_nat room"] True by (simp add: solve_flex_def Let_def)
next
  case False
  then show ?thesis by (auto simp: solve_flex_def Let_def set_zip)
qed

lemma top_up_rows:
  assumes "length durs = length live" "\<forall>ms\<in>set durs. 0 \<le> ms" "0 < gap" "top_up gap live durs = rows"
  shows "rows \<noteq> [] \<and> list_all (\<lambda>(_, d, _). 0 \<le> d) rows \<and>
    (map (\<lambda>(s, _, f). (s, f)) rows = map (\<lambda>s. (s, False)) live \<or>
     map (\<lambda>(s, _, f). (s, f)) rows = map (\<lambda>s. (s, False)) live @ [(filler_segment, True)] \<and> (\<forall>s\<in>set live. \<not> sg_loop s))"
proof -
  define short where "short = f64_sub (f64_of_nat gap) (f64_sum durs)"
  have sums: "0 \<le> f64_sum durs" using f64_sum_nonneg assms(2) by blast
  have plain: "list_all (\<lambda>(_, d, _). 0 \<le> d) (map (\<lambda>(s, d). (s, d, False)) (zip live ds))" "map (\<lambda>(s, _, f). (s, f)) (map (\<lambda>(s, d). (s, d, False)) (zip live ds)) = map (\<lambda>s. (s, False)) live"
    if "\<forall>ms\<in>set ds. 0 \<le> ms" "length ds = length live" for ds
  proof -
    show "list_all (\<lambda>(_, d, _). 0 \<le> d) (map (\<lambda>(s, d). (s, d, False)) (zip live ds))"
      using that by (auto simp: list_all_iff dest: set_zip_rightD)
    show "map (\<lambda>(s, _, f). (s, f)) (map (\<lambda>(s, d). (s, d, False)) (zip live ds)) = map (\<lambda>s. (s, False)) live"
      using that(2) by (intro nth_equalityI) auto
  qed
  consider (loop) k where "1 / 2 \<le> short" "rposition sg_loop live = Some k" | (black) "1 / 2 \<le> short" "rposition sg_loop live = None"
    | (full) "short < 1 / 2" by fastforce
  then show ?thesis
  proof cases
    case loop
    let ?ds = "durs[k := f64_add (durs ! k) short]"
    have k: "k < length live" using rposition_SomeD[OF loop(2)] by simp
    then have "0 \<le> f64_add (durs ! k) short" using loop(1) assms(1,2) by (simp add: f64_add_def f64_round_nonneg)
    then have "\<forall>ms\<in>set ?ds. 0 \<le> ms" using assms(2) set_update_subset_insert[of durs k "f64_add (durs ! k) short"] by auto
    moreover have "rows = map (\<lambda>(s, d). (s, d, False)) (zip live ?ds)"
      using assms(4) loop unfolding top_up_def Let_def short_def[symmetric] by simp
    ultimately show ?thesis using plain[of ?ds] k assms(1) by auto
  next
    case black
    then have "rows = map (\<lambda>(s, d). (s, d, False)) (zip live durs) @ [(filler_segment, short, True)]"
      using assms(4) unfolding top_up_def Let_def short_def[symmetric] by simp
    moreover have "\<forall>s\<in>set live. \<not> sg_loop s" using black(2) by (simp add: rposition_None_iff)
    ultimately show ?thesis using plain[OF assms(2,1)] black(1) by auto
  next
    case full
    then have rows: "rows = map (\<lambda>(s, d). (s, d, False)) (zip live durs)"
      using assms(4) unfolding top_up_def Let_def short_def[symmetric] by simp
    have "live \<noteq> []"
    proof
      assume "live = []"
      then have "short = f64_of_nat gap" using assms(1) by (simp add: short_def f64_sum_def f64_sub_def)
      moreover have "f64_of_nat 1 \<le> f64_of_nat gap" using assms(3) by (intro f64_of_nat_mono) simp
      moreover have "f64_of_nat 1 = 1" using f64_round_nat[of 1] by (simp add: f64_of_nat_def)
      ultimately show False using full by simp
    qed
    then show ?thesis using plain[OF assms(2,1)] rows assms(1) by auto
  qed
qed

section \<open>Dropping\<close>

lemma filter_not_remove1: "distinct xs \<Longrightarrow> filter (\<lambda>j. j \<noteq> i) xs = remove1 i xs"
  by (simp add: distinct_remove1_removeAll removeAll_filter_not_eq eq_commute[of i])

lemma mset_split: "mset (filter P xs) + mset (filter (\<lambda>x. \<not> P x) xs) = mset xs"
  by (induction xs) auto

lemma drop_optionals_spec:
  assumes "drop_optionals segs gap live = (kept, dropped)" "distinct live"
  shows "mset kept + mset dropped = mset live \<and> (\<forall>i\<in>set dropped. sg_optional (segs ! i)) \<and>
    (\<exists>P. kept = filter P live) \<and> (feasible segs kept gap \<or> (\<forall>i\<in>set kept. \<not> sg_optional (segs ! i)))"
  using assms
proof (induction segs gap live arbitrary: kept dropped rule: drop_optionals.induct)
  case (1 segs gap live)
  have all: "\<exists>P. live = filter P live" by (rule exI[of _ "\<lambda>_. True"]) simp
  consider (feasible) "feasible segs live gap" | (stuck) "\<not> feasible segs live gap" "victim segs live = None"
    | (drop) i where "\<not> feasible segs live gap" "victim segs live = Some i" by fastforce
  then show ?case
  proof cases
    case feasible
    then show ?thesis using "1.prems" all by (simp add: drop_optionals.simps[of segs gap live])
  next
    case stuck
    then have "\<forall>i\<in>set live. \<not> sg_optional (segs ! i)" by (simp add: victim_def filter_empty_conv)
    then show ?thesis using "1.prems" stuck all by (simp add: drop_optionals.simps[of segs gap live])
  next
    case drop
    obtain d where d: "drop_optionals segs gap (filter (\<lambda>j. j \<noteq> i) live) = (kept, d)" "dropped = i # d"
      using "1.prems"(1) drop by (auto simp: drop_optionals.simps[of segs gap live] split: prod.splits)
    note IH = "1.IH"[OF drop d(1)] 
    have i: "i \<in> set live" "sg_optional (segs ! i)" using victim_live[OF drop(2)] by auto
    have split: "mset live = add_mset i (mset (filter (\<lambda>j. j \<noteq> i) live))"
      using i(1) "1.prems"(2) filter_not_remove1[of live i] by (metis insert_DiffM mset_remove1 set_mset_mset)
    obtain P where P: "kept = filter P (filter (\<lambda>j. j \<noteq> i) live)" using IH "1.prems"(2) by (meson distinct_filter)
    have "kept = filter (\<lambda>j. j \<noteq> i \<and> P j) live" by (simp add: P conj_commute)
    then have sub: "\<exists>P. kept = filter P live" by (rule exI[of _ "\<lambda>j. j \<noteq> i \<and> P j"])
    have dist: "distinct (filter (\<lambda>j. j \<noteq> i) live)" using "1.prems"(2) by simp
    have m: "mset kept + mset d = mset (filter (\<lambda>j. j \<noteq> i) live)" using IH[OF dist] by (rule conjunct1)
    have "mset kept + mset dropped = mset live" by (simp only: d(2) mset.simps union_mset_add_mset_right m split)
    moreover have "\<forall>j\<in>set dropped. sg_optional (segs ! j)" using IH[OF dist] i(2) by (simp add: d(2))
    moreover have "feasible segs kept gap \<or> (\<forall>i\<in>set kept. \<not> sg_optional (segs ! i))" using IH[OF dist] by blast
    ultimately show ?thesis using sub by blast
  qed
qed

lemma drop_flex_spec:
  assumes "drop_flex segs live = (kept, gone)"
  shows "mset kept + mset gone = mset live \<and> kept = filter (stays segs (last_loop segs live)) live \<and>
    sum_list (map (fixed_ms \<circ> sg_duration \<circ> (!) segs) kept) = sum_list (map (fixed_ms \<circ> sg_duration \<circ> (!) segs) live)"
proof -
  have same: "sum_list (map (fixed_ms \<circ> sg_duration \<circ> (!) segs) (filter (stays segs keep) xs)) =
      sum_list (map (fixed_ms \<circ> sg_duration \<circ> (!) segs) xs)" for keep xs
  proof (induction xs)
    case (Cons x xs)
    then show ?case by (cases "sg_duration (segs ! x)") (auto simp: stays_def)
  qed simp
  have k: "kept = filter (stays segs (last_loop segs live)) live" "gone = filter (\<lambda>i. \<not> stays segs (last_loop segs live) i) live"
    using assms by (simp_all add: drop_flex_def Let_def)
  show ?thesis unfolding k by (simp only: mset_split same simp_thms)
qed

text \<open>What must air whole: the fixed segments that are not optional.\<close>

definition required_ms :: "segment list \<Rightarrow> nat" where
  "required_ms segs = sum_list (map (fixed_ms \<circ> sg_duration) (filter (\<lambda>s. \<not> sg_optional s) segs))"

lemma map_nth_filter: "map ((!) xs) (filter (\<lambda>i. P (xs ! i)) [0..<length xs]) = filter P xs"
  using filter_map[of P "(!) xs" "[0..<length xs]"] by (simp add: map_nth comp_def)

lemma fixed_le_least: "fixed_ms d \<le> least_ms d"
  by (cases d) simp_all

lemma live_segments_spec:
  assumes "live_segments segs gap = (live, dropped, fits)"
  shows "mset live + mset dropped = mset [0..<length segs] \<and> (\<exists>P. live = filter P [0..<length segs]) \<and>
    (let fixed = sum_list (map (\<lambda>i. fixed_ms (sg_duration (segs ! i))) live)
     in (fixed \<le> gap \<longleftrightarrow> required_ms segs \<le> gap) \<and> (gap < fixed \<longrightarrow> fixed = required_ms segs))"
proof -
  let ?fix = "\<lambda>i. fixed_ms (sg_duration (segs ! i))"
  obtain l d where l: "drop_optionals segs gap [0..<length segs] = (l, d)" by fastforce
  note spec = drop_optionals_spec[OF l distinct_upt]
  obtain P where P: "l = filter P [0..<length segs]" using spec by auto
  have req: "required_ms segs = sum_list (map ?fix (filter (\<lambda>i. \<not> sg_optional (segs ! i)) [0..<length segs]))"
    unfolding required_ms_def map_nth_filter[of segs "\<lambda>s. \<not> sg_optional s", symmetric] by (simp add: comp_def)
  have keepers: "P i" if "i < length segs" "\<not> sg_optional (segs ! i)" for i
  proof -
    have "i \<in># mset l + mset d" using spec that(1) by simp
    then show ?thesis using spec that(2) P by auto
  qed
  show ?thesis
  proof (cases "feasible segs l gap")
    case True
    have live: "live = l" "dropped = d" using assms True l by (simp_all add: live_segments_def)
    have "filter (\<lambda>i. \<not> sg_optional (segs ! i)) [0..<length segs] = filter (\<lambda>i. \<not> sg_optional (segs ! i)) l"
      using keepers by (auto simp: P intro!: filter_cong)
    then have "required_ms segs \<le> sum_list (map ?fix l)" using req by (metis sum_list_filter_le_nat)
    moreover have "sum_list (map ?fix l) \<le> gap"
      using True sum_list_mono[of l ?fix "\<lambda>i. least_ms (sg_duration (segs ! i))"] fixed_le_least by (auto simp: feasible_def intro: order_trans)
    ultimately show ?thesis using spec live P by (auto simp: Let_def)
  next
    case False
    obtain kept gone where k: "drop_flex segs l = (kept, gone)" by fastforce
    have live: "live = kept" "dropped = d @ gone" using assms False l k by (simp_all add: live_segments_def)
    note flex = drop_flex_spec[OF k]
    have "\<forall>i\<in>set l. \<not> sg_optional (segs ! i)" using spec False by auto
    then have "l = filter (\<lambda>i. \<not> sg_optional (segs ! i)) [0..<length segs]"
      using keepers unfolding P by (intro filter_cong) auto
    then have "required_ms segs = sum_list (map ?fix l)" using req by simp
    also have "\<dots> = sum_list (map ?fix live)" using conjunct2[OF conjunct2[OF flex]] live(1) by (simp add: comp_def)
    finally have "required_ms segs = sum_list (map ?fix live)" .
    moreover have "\<exists>P. live = filter P [0..<length segs]" using flex live(1) P by auto
    moreover have "mset live + mset dropped = mset [0..<length segs]" using flex spec live by (metis mset_append union_assoc union_commute)
    ultimately show ?thesis by (auto simp: Let_def)
  qed
qed

section \<open>Fitting\<close>

lemma map_nth_comp: "map (\<lambda>i. f (xs ! i)) [0..<length xs] = map f xs"
  by (rule nth_equalityI) simp_all

lemma fit_InrE:
  assumes "fit line gap fps = Inr rt"
  obtains rate live dropped fits where
    "tl_segments line \<noteq> []" "0 < gap" "fps_of fps = Some rate" "\<forall>s\<in>set (tl_segments line). segment_problem s = None"
    "live_segments (tl_segments line) gap = (live, dropped, fits)" "fit_live line gap rate = Inr rt"
proof -
  obtain rate where r: "fps_of fps = Some rate" using assms by (cases "fps_of fps") (auto simp: fit_def split: if_splits)
  have p: "find_map segment_problem (tl_segments line) = None"
    using assms r by (cases "find_map segment_problem (tl_segments line)") (auto simp: fit_def split: if_splits)
  obtain live dropped fits where l: "live_segments (tl_segments line) gap = (live, dropped, fits)" by (metis prod_cases3)
  have "\<forall>s\<in>set (tl_segments line). segment_problem s = None" using p by (simp add: find_map_None_iff)
  then show thesis using that[OF _ _ r _ l] assms r p by (auto simp: fit_def split: if_splits)
qed

lemma fit_live_Inr:
  assumes "fit_live line gap rate = Inr rt" "live_segments (tl_segments line) gap = (live, dropped, fits)" "0 < rate" "0 < gap"
    "\<forall>s\<in>set (tl_segments line). segment_problem s = None"
  obtains rows where
    "rows \<noteq> []" "list_all (\<lambda>(_, d, _). 0 \<le> d) rows"
    "map (\<lambda>(s, _, f). (s, f)) rows = map (\<lambda>i. (tl_segments line ! i, False)) live \<or>
     map (\<lambda>(s, _, f). (s, f)) rows = map (\<lambda>i. (tl_segments line ! i, False)) live @ [(filler_segment, True)]"
    "rt_segments rt = fst (place_segments gap rate rows 0 0)"
    "rt_dropped rt = map (\<lambda>i. sg_name (tl_segments line ! i)) dropped @ snd (place_segments gap rate rows 0 0)"
proof -
  let ?segs = "tl_segments line"
  let ?lengths = "map (\<lambda>i. sg_duration (?segs ! i)) live"
  let ?durs = "solve_flex ?lengths fits (gap - sum_list (map fixed_ms ?lengths))"
  have "i < length ?segs" if "i \<in> set live" for i
    using that live_segments_spec[OF assms(2)] by auto
  then have "\<forall>d\<in>set ?lengths. length_ok d" using assms(5) by (auto simp: segment_problem_None)
  note durs = solve_flex_ok[OF this, of fits "gap - sum_list (map fixed_ms ?lengths)"]
  define rows where "rows = top_up gap (map ((!) ?segs) live) ?durs"
  note shape = top_up_rows[OF _ _ assms(4) rows_def[symmetric]]
  have rt: "rt_segments rt = fst (place_segments gap rate rows 0 0)"
    "rt_dropped rt = map (\<lambda>i. sg_name (?segs ! i)) dropped @ snd (place_segments gap rate rows 0 0)"
    using assms(1,2) by (auto simp: fit_live_def Let_def rows_def split: if_splits prod.splits)
  show thesis using that[OF _ _ _ rt] shape durs by (auto simp: comp_def)
qed

lemma names_of_rows:
  assumes "map (\<lambda>(s, _, f). (s, f)) rows = map (\<lambda>s. (s, False)) live @ map (\<lambda>s. (s, True)) black"
  shows "map (sg_name \<circ> fst) rows = map sg_name (live @ black)"
proof -
  have "map (sg_name \<circ> fst) rows = map (sg_name \<circ> fst) (map (\<lambda>(s, _, f). (s, f)) rows)" by (simp add: case_prod_beta comp_def)
  then show ?thesis by (simp add: assms comp_def)
qed

lemma subseq_map: "subseq xs ys \<Longrightarrow> subseq (map f xs) (map f ys)"
  by (induction xs ys rule: list_emb.induct) auto

lemma subseq_filter: "subseq xs ys \<Longrightarrow> subseq (filter P xs) (filter P ys)"
  by (induction xs ys rule: list_emb.induct) auto

lemma fit_consecutive:
  assumes "fit line gap fps = Inr rt"
  shows "consecutive 0 (rt_segments rt) gap"
proof -
  obtain rate live dropped fits where f: "0 < gap" "fps_of fps = Some rate" "\<forall>s\<in>set (tl_segments line). segment_problem s = None"
    "live_segments (tl_segments line) gap = (live, dropped, fits)" "fit_live line gap rate = Inr rt"
    using assms by (rule fit_InrE)
  have rate: "0 < rate" using f(2) by (cases fps) (auto split: if_splits)
  obtain rows where r: "rows \<noteq> []" "list_all (\<lambda>(_, d, _). 0 \<le> d) rows" "rt_segments rt = fst (place_segments gap rate rows 0 0)"
    using f(5,4) rate f(1,3) by (rule fit_live_Inr)
  show ?thesis unfolding r(3) by (rule place_consecutive[OF rate r(2,1)]) simp_all
qed

text \<open>
  Claim C33. A timeline that fits fills its gap to the millisecond: its segments follow one another from
  the start of the gap to its end, each at least a millisecond long, in the order authored; every
  segment authored is among them or named as dropped, and the only one added is black filler.
\<close>

theorem fit_fills_the_gap:
  assumes "fit line gap fps = Inr rt"
  shows "consecutive 0 (rt_segments rt) gap \<and> total_ms rt = gap \<and>
    subseq (map rg_segment (filter (\<lambda>r. \<not> rg_filler r) (rt_segments rt))) (tl_segments line) \<and>
    (\<exists>black. (black = [] \<or> black = [''filler'']) \<and>
       mset (map (sg_name \<circ> rg_segment) (rt_segments rt)) + mset (rt_dropped rt) = mset (map sg_name (tl_segments line) @ black))"
proof -
  let ?segs = "tl_segments line"
  obtain rate live dropped fits where f: "0 < gap" "fps_of fps = Some rate" "\<forall>s\<in>set ?segs. segment_problem s = None"
    "live_segments ?segs gap = (live, dropped, fits)" "fit_live line gap rate = Inr rt"
    using assms by (rule fit_InrE)
  have rate: "0 < rate" using f(2) by (cases fps) (auto split: if_splits)
  obtain rows where r: "rows \<noteq> []" "list_all (\<lambda>(_, d, _). 0 \<le> d) rows"
    "map (\<lambda>(s, _, f). (s, f)) rows = map (\<lambda>i. (?segs ! i, False)) live \<or>
     map (\<lambda>(s, _, f). (s, f)) rows = map (\<lambda>i. (?segs ! i, False)) live @ [(filler_segment, True)]"
    "rt_segments rt = fst (place_segments gap rate rows 0 0)"
    "rt_dropped rt = map (\<lambda>i. sg_name (?segs ! i)) dropped @ snd (place_segments gap rate rows 0 0)"
    using f(5,4) rate f(1,3) by (rule fit_live_Inr)
  note cons = fit_consecutive[OF assms]
  obtain black where b: "map (\<lambda>(s, _, f). (s, f)) rows = map (\<lambda>s. (s, False)) (map ((!) ?segs) live) @ map (\<lambda>s. (s, True)) black"
    "black = [] \<or> black = [filler_segment]"
  proof (cases "map (\<lambda>(s, _, f). (s, f)) rows = map (\<lambda>i. (?segs ! i, False)) live")
    case True then show thesis using that[of "[]"] by (simp add: comp_def)
  next
    case False then show thesis using that[of "[filler_segment]"] r(3) by (simp add: comp_def)
  qed
  obtain P where P: "live = filter P [0..<length ?segs]" "mset live + mset dropped = mset [0..<length ?segs]"
    using live_segments_spec[OF f(4)] by auto
  have order: "subseq (map rg_segment (filter (\<lambda>r. \<not> rg_filler r) (rt_segments rt))) ?segs"
  proof -
    have "subseq (map fst (filter (\<lambda>(_, f). \<not> f) (map (\<lambda>r. (rg_segment r, rg_filler r)) (rt_segments rt))))
        (map fst (filter (\<lambda>(_, f). \<not> f) (map (\<lambda>(s, _, f). (s, f)) rows)))"
      unfolding r(4) by (intro subseq_map subseq_filter place_order)
    also have "map fst (filter (\<lambda>(_, f). \<not> f) (map (\<lambda>(s, _, f). (s, f)) rows)) = map ((!) ?segs) live"
      unfolding b(1) by (simp add: filter_map comp_def)
    also have "subseq \<dots> (map ((!) ?segs) [0..<length ?segs])" unfolding P(1) by (intro subseq_map) simp
    finally show ?thesis by (simp add: filter_map comp_def map_nth)
  qed
  have "mset (map (sg_name \<circ> rg_segment) (rt_segments rt)) + mset (rt_dropped rt) =
      mset (map (sg_name \<circ> fst) rows) + mset (map (\<lambda>i. sg_name (?segs ! i)) dropped)"
    using place_names[of gap rate rows 0 0] by (simp add: r(4,5) ac_simps)
  also have "\<dots> = image_mset (\<lambda>i. sg_name (?segs ! i)) (mset live + mset dropped) + mset (map sg_name black)"
    using names_of_rows[OF b(1)] by (simp add: comp_def ac_simps)
  also have "\<dots> = mset (map sg_name ?segs) + mset (map sg_name black)"
    unfolding P(2) mset_map[symmetric] map_nth_comp ..
  finally have "mset (map (sg_name \<circ> rg_segment) (rt_segments rt)) + mset (rt_dropped rt) = mset (map sg_name ?segs @ map sg_name black)"
    by simp
  then have "\<exists>black. (black = [] \<or> black = [''filler'']) \<and>
      mset (map (sg_name \<circ> rg_segment) (rt_segments rt)) + mset (rt_dropped rt) = mset (map sg_name ?segs @ black)"
    using b(2) by (intro exI[of _ "map sg_name black"]) (auto simp: filler_segment_def)
  then show ?thesis using cons consecutive_total[OF cons] order by (simp add: total_ms_def)
qed

text \<open>
  Claim C34. A timeline whose ranges are sound fails to fit exactly when the segments it may not drop
  or shorten are together longer than the gap, and the error names how long they are.
\<close>

theorem fit_fails_exactly:
  assumes "tl_segments line \<noteq> []" "0 < gap" "fps_of fps \<noteq> None" "\<forall>s\<in>set (tl_segments line). segment_problem s = None"
  shows "case fit line gap fps of
     Inl e \<Rightarrow> gap < required_ms (tl_segments line) \<and> e = FixedExceedsGap (required_ms (tl_segments line)) gap
   | Inr rt \<Rightarrow> required_ms (tl_segments line) \<le> gap"
proof -
  obtain rate where rate: "fps_of fps = Some rate" using assms(3) by blast
  obtain live dropped fits where l: "live_segments (tl_segments line) gap = (live, dropped, fits)" by (metis prod_cases3)
  have "find_map segment_problem (tl_segments line) = None" using assms(4) by (simp add: find_map_None_iff)
  then have "fit line gap fps = fit_live line gap rate" using assms(1,2) rate by (simp add: fit_def)
  then show ?thesis using conjunct2[OF conjunct2[OF live_segments_spec[OF l]]]
    by (auto simp: fit_live_def l Let_def comp_def split: prod.split)
qed

section \<open>An ident and a still\<close>

definition ident :: segment where
  "ident =
     \<lparr>sg_name = ''ident'', sg_source = SegClip ''/ident.mkv'' 0 1000, sg_duration = FixedMs 1000, sg_loop = False,
      sg_optional = False, sg_priority = 0, sg_overlay = None, sg_audio = AudioOwn\<rparr>"

definition poster :: segment where
  "poster =
     \<lparr>sg_name = ''poster'', sg_source = SegStill ''/poster.png'', sg_duration = FlexMs 500 5000 (Finite 1), sg_loop = False,
      sg_optional = True, sg_priority = 3, sg_overlay = None, sg_audio = AudioBed\<rparr>"

definition spot :: timeline where
  "spot = \<lparr>tl_segments = [ident, poster], tl_bed = None\<rparr>"

lemma spot_sound: "\<forall>s\<in>set (tl_segments spot). segment_problem s = None"
  by (simp add: spot_def ident_def poster_def segment_problem_def)

lemma spot_fits: "\<exists>rt. fit spot 4000 (Finite 30) = Inr rt"
proof -
  have "feasible (tl_segments spot) [0..<length (tl_segments spot)] 4000"
    by (simp add: feasible_def spot_def ident_def poster_def)
  then have "live_segments (tl_segments spot) 4000 = ([0..<length (tl_segments spot)], [], True)"
    by (simp add: live_segments_def drop_optionals.simps)
  moreover have "find_map segment_problem (tl_segments spot) = None" using spot_sound by (simp add: find_map_None_iff)
  ultimately show ?thesis
    by (simp add: fit_def fit_live_def Let_def spot_def ident_def poster_def split: prod.split)
qed

theorem fit_fills_the_gap_witness: "\<exists>rt. fit spot 4000 (Finite 30) = Inr rt \<and> total_ms rt = 4000"
  using spot_fits fit_fills_the_gap by metis

theorem fit_fails_exactly_witness: "fit spot 900 (Finite 30) = Inl (FixedExceedsGap 1000 900)"
proof -
  have "required_ms (tl_segments spot) = 1000" by (simp add: required_ms_def spot_def ident_def poster_def)
  then show ?thesis
    using fit_fails_exactly[of spot 900 "Finite 30"] spot_sound by (simp add: spot_def split: sum.splits)
qed

theorem flexible_segments_keep_their_range_witness:
  "solve_flex [FixedMs 1000, FlexMs 500 5000 (Finite 1)] True 3000 ! 0 = f64_of_nat 1000 \<and>
   solve_flex [FixedMs 1000, FlexMs 500 5000 (Finite 1)] True 3000 ! 1 \<le> f64_of_nat 5000"
proof -
  have "\<forall>d\<in>set [FixedMs 1000, FlexMs 500 5000 (Finite 1)]. segment_problem (ident\<lparr>sg_duration := d\<rparr>) = None"
    by (simp add: segment_problem_def)
  from flexible_segments_keep_their_range[OF this, of 3000] show ?thesis
    by (auto simp: in_range_def nth_Cons' dest: spec[of _ 0] spec[of _ 1])
qed

end
