(* ===== verification/BumperEmit.thy ===== *)
theory BumperEmit
  imports Timeline TimelineFacts
begin

text \<open>
  A resolved timeline as playout items (\<open>bumper/emit.rs\<close>): the item or items of each segment, the
  padding of a file that ends early, the sound and overlay each carries. Reading a file's length and
  the text of a float are parameters.
\<close>

section \<open>Parts of a segment\<close>

text \<open>\<open>ec_f64\<close> and \<open>ec_f32\<close> are \<open>Display\<close>; \<open>ec_media_len_ms\<close> is \<open>None\<close> for a file that cannot be read.\<close>

record emit_ctx =
  ec_channel :: string
  ec_fps :: f64
  ec_overlay_root :: string
  ec_media_len_ms :: "string \<Rightarrow> nat option"
  ec_f64 :: "f64 \<Rightarrow> string"
  ec_f32 :: "f64 \<Rightarrow> string"

definition ms_of :: "nat \<Rightarrow> int" where
  "ms_of n = int n * 1000000"

definition black_source :: playout_source where
  "black_source = lavfi_source ''color=c=black''"

text \<open>One item playing a file, cut at the file's end, and black after it.\<close>

definition local_padded :: "emit_ctx \<Rightarrow> string \<Rightarrow> string \<Rightarrow> nat \<Rightarrow> instant \<Rightarrow> nat \<Rightarrow> playout_item list" where
  "local_padded ctx i path in_ms begins duration_ms =
     (let file_ms = (case ec_media_len_ms ctx path of None \<Rightarrow> duration_ms | Some len \<Rightarrow> min (len - in_ms) duration_ms);
          at' = begins + ms_of file_ms
      in (if 0 < file_ms then [scheduled i begins at' (local_source path (Some in_ms) (Some (in_ms + file_ms)))] else []) @
         (if file_ms < duration_ms
          then [scheduled (if file_ms = 0 then i else i @ ''#pad'') (if 0 < file_ms then at' else begins)
                  (begins + ms_of duration_ms) black_source]
          else []))"

text \<open>A window repeated to fill a span: whole windows, then what is left.\<close>

definition loop_parts :: "nat \<Rightarrow> nat \<Rightarrow> nat list" where
  "loop_parts duration_ms window_ms =
     replicate (duration_ms div window_ms) window_ms @
     (if 0 < duration_ms mod window_ms then [duration_ms mod window_ms] else [])"

fun loop_items :: "string \<Rightarrow> string \<Rightarrow> nat \<Rightarrow> nat \<Rightarrow> instant \<Rightarrow> nat list \<Rightarrow> playout_item list" where
  "loop_items id_base path in_ms n t [] = []"
| "loop_items id_base path in_ms n t (len # parts) =
     scheduled (id_base @ ''#'' @ dec n) t (t + ms_of len) (local_source path (Some in_ms) (Some (in_ms + len))) #
     loop_items id_base path in_ms (Suc n) (t + ms_of len) parts"

definition local_span ::
  "emit_ctx \<Rightarrow> string \<Rightarrow> string \<Rightarrow> nat \<Rightarrow> nat \<Rightarrow> bool \<Rightarrow> instant \<Rightarrow> nat \<Rightarrow> playout_item list" where
  "local_span ctx id_base path in_ms window_ms loops begins duration_ms =
     (if loops \<and> 0 < window_ms \<and> window_ms < duration_ms
      then loop_items id_base path in_ms 0 begins (loop_parts duration_ms window_ms)
      else local_padded ctx id_base path in_ms begins duration_ms)"

section \<open>Sound\<close>

definition silence :: string where
  "silence = ''anullsrc=channel_layout=stereo:sample_rate=48000''"

definition quote_filter_arg :: "string \<Rightarrow> string" where
  "quote_filter_arg v =
     apos @ concat (map (\<lambda>c. if [c] = apos then apos @ [CHR 0x5C] @ apos @ apos else [c]) v) @ apos"

definition seconds_text :: "emit_ctx \<Rightarrow> nat \<Rightarrow> string" where
  "seconds_text ctx ms = ec_f64 ctx (f64_div (f64_of_nat ms) 1000)"

definition format_fps :: "emit_ctx \<Rightarrow> f64 \<Rightarrow> string" where
  "format_fps ctx fps =
     (case find (\<lambda>n. \<bar>f64_sub fps (f64_div (f64_mul (of_nat n) 1000) 1001)\<bar> < f64_round (5 / 1000)) [24, 30, 48, 60] of
        Some n \<Rightarrow> dec (n * 1000) @ ''/1001''
      | None \<Rightarrow> if fps = of_int \<lfloor>fps\<rfloor> then dec (nat \<lfloor>fps\<rfloor>) else ec_f64 ctx fps)"

definition bed_graph :: "emit_ctx \<Rightarrow> bed_audio \<Rightarrow> nat \<Rightarrow> bool \<Rightarrow> bool \<Rightarrow> string" where
  "bed_graph ctx bed duration_ms fst_item lst_item =
     (case ba_source bed of
        BedFile path \<Rightarrow> ''amovie='' @ quote_filter_arg path @ '':loop=0,volume='' @ ec_f32 ctx (ba_gain_db bed) @ ''dB''
      | BedLavfi filters \<Rightarrow> filters @ '',volume='' @ ec_f32 ctx (ba_gain_db bed) @ ''dB'') @
     (if fst_item \<and> 0 < ba_fade_in_ms bed
      then '',afade=t=in:st=0:d='' @ seconds_text ctx (ba_fade_in_ms bed) else []) @
     (if lst_item \<and> 0 < ba_fade_out_ms bed
      then '',afade=t=out:st='' @ seconds_text ctx (duration_ms - ba_fade_out_ms bed) @ '':d='' @
           seconds_text ctx (ba_fade_out_ms bed) else [])"

definition still_graph :: "emit_ctx \<Rightarrow> string \<Rightarrow> resolved_segment \<Rightarrow> bed_audio option \<Rightarrow> string" where
  "still_graph ctx picture seg bed =
     ''movie='' @ quote_filter_arg picture @ '',loop=loop=-1:size=1,fps='' @ format_fps ctx (ec_fps ctx) @ ''[out0];'' @
     (case (sg_audio (rg_segment seg), bed) of
        (AudioBed, Some b) \<Rightarrow> bed_graph ctx b (rg_duration_ms seg) True True
      | _ \<Rightarrow> silence) @ ''[out1]''"

definition ducked_graph :: "emit_ctx \<Rightarrow> string \<Rightarrow> nat \<Rightarrow> f64 \<Rightarrow> bed_audio \<Rightarrow> nat \<Rightarrow> bool \<Rightarrow> bool \<Rightarrow> string" where
  "ducked_graph ctx path in_ms gain_db bed duration_ms fst_item lst_item =
     ''amovie='' @ quote_filter_arg path @ '':seek_point='' @ seconds_text ctx in_ms @ '',volume='' @ ec_f64 ctx gain_db @
     ''dB,apad[own];'' @ bed_graph ctx bed duration_ms fst_item lst_item @
     ''[bed];[own][bed]amix=inputs=2:duration=first:normalize=0''"

text \<open>The file whose own sound a ducked segment mixes, and where it starts.\<close>

fun own_audio_file :: "segment_source \<Rightarrow> (string \<times> nat) option" where
  "own_audio_file (SegClip path in_ms _) = Some (path, in_ms)"
| "own_audio_file (SegRender _ path) = Some (path, 0)"
| "own_audio_file _ = None"

definition audio_override ::
  "emit_ctx \<Rightarrow> resolved_segment \<Rightarrow> bed_audio option \<Rightarrow> nat \<Rightarrow> bool \<times> bool \<Rightarrow> playout_source option" where
  "audio_override ctx seg bed len_ms edges =
     (case sg_audio (rg_segment seg) of
        AudioOwn \<Rightarrow> None
      | AudioMute \<Rightarrow> Some (lavfi_source silence)
      | AudioBed \<Rightarrow>
          Some (lavfi_source (case bed of Some b \<Rightarrow> bed_graph ctx b len_ms (fst edges) (snd edges) | None \<Rightarrow> silence))
      | AudioDucked gain_db \<Rightarrow>
          Some (lavfi_source (case (bed, own_audio_file (sg_source (rg_segment seg))) of
              (Some b, Some (path, in_ms)) \<Rightarrow> ducked_graph ctx path in_ms gain_db b len_ms (fst edges) (snd edges)
            | _ \<Rightarrow> silence)))"

section \<open>A segment's items\<close>

text \<open>\<open>ItemOverlay\<close> as it serialises.\<close>

definition overlay_for :: "overlay_vars option \<Rightarrow> string \<Rightarrow> json" where
  "overlay_for overlay base_dir =
     (case overlay of
        None \<Rightarrow> JString ''none''
      | Some ov \<Rightarrow> JObject [(''script'', JString (resolve_plugin_path base_dir (ov_script ov))), (''vars'', JObject (ov_vars ov))])"

definition segment_metadata :: "segment \<Rightarrow> json" where
  "segment_metadata seg =
     (let m = bt_insert ''bumper'' (JBool True) (bt_insert ''segment'' (JString (sg_name seg))
            (bt_insert ''vars'' (case sg_overlay seg of Some ov \<Rightarrow> JObject (ov_vars ov) | None \<Rightarrow> JNull) []))
      in JObject (case sg_source seg of
           SegPending path _ \<Rightarrow> bt_insert ''pending'' (JObject [(''loop'', JBool (sg_loop seg)), (''path'', JString path)]) m
         | _ \<Rightarrow> m))"

definition source_items :: "emit_ctx \<Rightarrow> resolved_timeline \<Rightarrow> string \<Rightarrow> instant \<Rightarrow> resolved_segment \<Rightarrow> playout_item list" where
  "source_items ctx rt id_base begins seg =
     (let dur = rg_duration_ms seg; ends = begins + ms_of dur in
      case sg_source (rg_segment seg) of
        SegClip path in_ms out_ms \<Rightarrow>
          (let window = (if sg_loop (rg_segment seg)
                         then (case ec_media_len_ms ctx path of Some len \<Rightarrow> min (out_ms - in_ms) (len - in_ms) | None \<Rightarrow> out_ms - in_ms)
                         else out_ms - in_ms)
           in local_span ctx id_base path in_ms window (sg_loop (rg_segment seg)) begins dur)
      | SegRender _ path \<Rightarrow> local_padded ctx id_base path 0 begins dur
      | SegPending _ stand_in \<Rightarrow> local_padded ctx id_base stand_in 0 begins dur
      | SegHttp url in_ms _ \<Rightarrow> [scheduled id_base begins ends (http_source url (Some in_ms) (Some (in_ms + dur)) None None)]
      | SegLavfi params \<Rightarrow> [scheduled id_base begins ends (lavfi_source params)]
      | SegStill picture \<Rightarrow> [scheduled id_base begins ends (lavfi_source (still_graph ctx picture seg (rt_bed rt)))])"

definition is_still :: "segment_source \<Rightarrow> bool" where
  "is_still s \<longleftrightarrow> (case s of SegStill _ \<Rightarrow> True | _ \<Rightarrow> False)"

text \<open>The sound, loudness, overlay and metadata of item \<open>n\<close> of \<open>parts\<close>.\<close>

definition dress_item :: "emit_ctx \<Rightarrow> resolved_timeline \<Rightarrow> resolved_segment \<Rightarrow> nat \<Rightarrow> nat \<times> playout_item \<Rightarrow> playout_item" where
  "dress_item ctx rt seg parts it =
     (let (n, item) = it;
          len_ms = nat ((pi_finish item - pi_start item) div 1000000);
          audio = (if is_still (sg_source (rg_segment seg)) then None
                   else audio_override ctx seg (rt_bed rt) len_ms (n = 0, n + 1 = parts))
      in item
        \<lparr>pi_tracks := (case audio of
             Some a \<Rightarrow> Some \<lparr>pt_audio = Some \<lparr>ts_source = Some a, ts_stream_index = None\<rparr>, pt_video = None, pt_subtitle = None\<rparr>
           | None \<Rightarrow> pi_tracks item),
         pi_normalize_loudness := (if sg_audio (rg_segment seg) \<noteq> AudioOwn then Some False else pi_normalize_loudness item),
         pi_overlay := Some (overlay_for (sg_overlay (rg_segment seg)) (ec_overlay_root ctx)),
         pi_metadata := Some (segment_metadata (rg_segment seg))\<rparr>)"

definition unix_ms :: "instant \<Rightarrow> int" where
  "unix_ms t = t div 1000000"

definition bumper_id :: "string \<Rightarrow> instant \<Rightarrow> string \<Rightarrow> string" where
  "bumper_id channel t name = ''bumper:'' @ channel @ '':'' @ dec_int (unix_ms t) @ '':'' @ name"

definition segment_items :: "emit_ctx \<Rightarrow> resolved_timeline \<Rightarrow> instant \<Rightarrow> nat \<times> resolved_segment \<Rightarrow> playout_item list" where
  "segment_items ctx rt start iseg =
     (let (index, seg) = iseg;
          items = source_items ctx rt (bumper_id (ec_channel ctx) start (dec index)) (start + ms_of (rg_start_ms seg)) seg
      in map (dress_item ctx rt seg (length items)) (List.enumerate 0 items))"

definition emit_timeline :: "emit_ctx \<Rightarrow> resolved_timeline \<Rightarrow> instant \<Rightarrow> playout_item list" where
  "emit_timeline ctx rt start = concat (map (segment_items ctx rt start) (List.enumerate 0 (rt_segments rt)))"

section \<open>The items follow one another\<close>

fun follow :: "instant \<Rightarrow> playout_item list \<Rightarrow> instant \<Rightarrow> bool" where
  "follow t [] e \<longleftrightarrow> t = e"
| "follow t (i # is) e \<longleftrightarrow> pi_start i = t \<and> t < pi_finish i \<and> follow (pi_finish i) is e"

lemma follow_append: "follow t xs u \<Longrightarrow> follow u ys e \<Longrightarrow> follow t (xs @ ys) e"
  by (induction t xs u rule: follow.induct) auto

lemma ms_of_add: "ms_of (a + b) = ms_of a + ms_of b"
  by (simp add: ms_of_def distrib_right)

lemma ms_of_pos [simp]: "0 < ms_of n \<longleftrightarrow> 0 < n"
  by (simp add: ms_of_def)

lemma ms_of_mono [simp]: "ms_of a < ms_of b \<longleftrightarrow> a < b"
  by (simp add: ms_of_def)

lemma follow_padded: "0 < d \<Longrightarrow> follow t (local_padded ctx i path in_ms t d) (t + ms_of d)"
  by (auto simp: local_padded_def Let_def scheduled_def min_def split: option.split)

lemma follow_loop: "\<forall>p\<in>set parts. 0 < p \<Longrightarrow> follow t (loop_items b path in_ms n t parts) (t + ms_of (sum_list parts))"
  by (induction b path in_ms n t parts rule: loop_items.induct) (auto simp: scheduled_def ms_of_add ac_simps, simp add: ms_of_def)

lemma loop_parts_sum: "0 < w \<Longrightarrow> sum_list (loop_parts d w) = d \<and> (\<forall>p\<in>set (loop_parts d w). 0 < p)"
  by (auto simp: loop_parts_def sum_list_replicate)

lemma follow_span: "0 < d \<Longrightarrow> follow t (local_span ctx b path in_ms w loops t d) (t + ms_of d)"
  using follow_loop[of "loop_parts d w" t b path in_ms 0] loop_parts_sum[of w d] follow_padded[of d t ctx b path in_ms]
  by (auto simp: local_span_def)

lemma follow_source: "0 < rg_duration_ms seg \<Longrightarrow> follow t (source_items ctx rt b t seg) (t + ms_of (rg_duration_ms seg))"
  using follow_span follow_padded
  by (auto simp: source_items_def Let_def scheduled_def split: segment_source.split)

lemma follow_map: "(\<And>n i. pi_start (f (n, i)) = pi_start i \<and> pi_finish (f (n, i)) = pi_finish i) \<Longrightarrow>
    follow t (map f (List.enumerate k is)) e = follow t is e"
  by (induction "is" arbitrary: t k) simp_all

lemma follow_segment:
  "0 < rg_duration_ms seg \<Longrightarrow> follow (start + ms_of (rg_start_ms seg)) (segment_items ctx rt start (k, seg))
     (start + ms_of (rg_start_ms seg + rg_duration_ms seg))"
  using follow_source[of seg "start + ms_of (rg_start_ms seg)" ctx rt "bumper_id (ec_channel ctx) start (dec k)"]
  by (simp add: segment_items_def Let_def follow_map dress_item_def ms_of_add add.assoc)

lemma follow_segments:
  "consecutive t segs e \<Longrightarrow>
     follow (start + ms_of t) (concat (map (segment_items ctx rt start) (List.enumerate k segs))) (start + ms_of e)"
proof (induction t segs e arbitrary: k rule: consecutive.induct)
  case (2 t s ss e)
  then show ?case using follow_segment[of s start ctx rt k] by (auto intro: follow_append)
qed simp

text \<open>
  Claim C36. The items emitted for a timeline that fits run from the start of the gap to its end with no
  hole and no overlap, whatever the files behind them turn out to last.
\<close>

theorem emitted_bumper_fills_the_gap:
  assumes "fit line gap fps = Inr rt"
  shows "follow start (emit_timeline ctx rt start) (start + ms_of gap)"
  using follow_segments[of 0 "rt_segments rt" gap start ctx rt 0] fit_consecutive[OF assms]
  by (simp add: emit_timeline_def ms_of_def)

section \<open>No file is overrun\<close>

text \<open>An item of a file plays a span of it as long as itself, which ends by the file's end when that is known.\<close>

definition within_file :: "emit_ctx \<Rightarrow> playout_item \<Rightarrow> bool" where
  "within_file ctx item \<longleftrightarrow>
     (case pi_source item of
        Some (PlayLocal path (Some a) (Some b) _) \<Rightarrow>
          a < b \<and> pi_finish item - pi_start item = ms_of (b - a) \<and>
          (case ec_media_len_ms ctx path of Some len \<Rightarrow> b \<le> len | None \<Rightarrow> True)
      | _ \<Rightarrow> True)"

lemma within_plain [simp]:
  "within_file ctx (scheduled i a b (lavfi_source params))"
  "within_file ctx (scheduled i a b (http_source url m n h u))"
  by (simp_all add: within_file_def scheduled_def lavfi_source_def http_source_def)

lemma within_local [simp]:
  "within_file ctx (scheduled i t (t + ms_of d) (local_source path (Some a) (Some (a + d)))) \<longleftrightarrow>
     0 < d \<and> (case ec_media_len_ms ctx path of Some len \<Rightarrow> a + d \<le> len | None \<Rightarrow> True)"
  by (simp add: within_file_def scheduled_def local_source_def)

lemma padded_within: "item \<in> set (local_padded ctx i path in_ms t d) \<Longrightarrow> within_file ctx item"
  by (auto simp: local_padded_def Let_def black_source_def split: option.splits if_splits)

lemma loop_within:
  assumes "item \<in> set (loop_items b path in_ms n t parts)" "\<forall>p\<in>set parts. 0 < p \<and> p \<le> w"
    "case ec_media_len_ms ctx path of Some len \<Rightarrow> in_ms + w \<le> len | None \<Rightarrow> True"
  shows "within_file ctx item"
  using assms
  by (induction b path in_ms n t parts rule: loop_items.induct)
    (auto split: option.splits)

lemma loop_parts_le: "0 < w \<Longrightarrow> p \<in> set (loop_parts d w) \<Longrightarrow> 0 < p \<and> p \<le> w"
  by (auto simp: loop_parts_def less_imp_le split: if_splits)

lemma span_within:
  assumes "item \<in> set (local_span ctx b path in_ms w loops t d)"
    "loops \<Longrightarrow> 0 < w \<Longrightarrow> case ec_media_len_ms ctx path of Some len \<Rightarrow> in_ms + w \<le> len | None \<Rightarrow> True"
  shows "within_file ctx item"
  using assms padded_within loop_within[of item b path in_ms 0 t "loop_parts d w" w ctx] loop_parts_le[of w _ d]
  by (auto simp: local_span_def split: if_splits)

lemma source_within: "item \<in> set (source_items ctx rt b t seg) \<Longrightarrow> within_file ctx item"
proof (cases "sg_source (rg_segment seg)")
  case (SegClip path in_ms out_ms)
  assume "item \<in> set (source_items ctx rt b t seg)"
  then show ?thesis unfolding source_items_def Let_def SegClip segment_source.case
    by (elim span_within) (auto split: option.splits)
qed (auto simp: source_items_def Let_def dest: padded_within)

lemma dress_keeps:
  "pi_source (dress_item ctx rt seg parts (n, item)) = pi_source item"
  "pi_start (dress_item ctx rt seg parts (n, item)) = pi_start item"
  "pi_finish (dress_item ctx rt seg parts (n, item)) = pi_finish item"
  by (simp_all add: dress_item_def Let_def)

lemma dress_within: "within_file ctx (dress_item ctx rt seg parts (n, item)) = within_file ctx item"
  by (simp only: within_file_def dress_keeps)

text \<open>
  Claim C37. No emitted item asks a file for more than it holds: each plays a span of its file exactly as
  long as the item, and that span ends by the end of the file when its length could be read, looped
  or padded as the segment has it.
\<close>

theorem bumper_files_are_not_overrun:
  assumes "item \<in> set (emit_timeline ctx rt start)"
  shows "within_file ctx item"
proof -
  obtain k seg where seg: "item \<in> set (segment_items ctx rt start (k, seg))" using assms by (auto simp: emit_timeline_def)
  let ?items = "source_items ctx rt (bumper_id (ec_channel ctx) start (dec k)) (start + ms_of (rg_start_ms seg)) seg"
  obtain n it where it: "(n, it) \<in> set (List.enumerate 0 ?items)" "item = dress_item ctx rt seg (length ?items) (n, it)"
    using seg by (auto simp: segment_items_def Let_def)
  have "it \<in> set ?items" using it(1) by (auto simp: enumerate_eq_zip dest: set_zip_rightD)
  then show ?thesis using source_within dress_within it(2) by metis
qed

section \<open>The spot, emitted\<close>

definition plain_ctx :: emit_ctx where
  "plain_ctx =
     \<lparr>ec_channel = ''one'', ec_fps = 30, ec_overlay_root = ''/o'', ec_media_len_ms = (\<lambda>_. Some 600), ec_f64 = (\<lambda>_. []), ec_f32 = (\<lambda>_. [])\<rparr>"

theorem emitted_bumper_fills_the_gap_witness:
  "\<exists>rt. fit spot 4000 (Finite 30) = Inr rt \<and> follow 0 (emit_timeline plain_ctx rt 0) (ms_of 4000)"
  using spot_fits emitted_bumper_fills_the_gap[of spot 4000 "Finite 30" _ 0 plain_ctx] by auto

text \<open>A second of a file that lasts 600 milliseconds.\<close>

definition short_clip :: resolved_timeline where
  "short_clip =
     \<lparr>rt_segments = [\<lparr>rg_segment = ident, rg_start_ms = 0, rg_duration_ms = 1000, rg_filler = False\<rparr>], rt_bed = None, rt_dropped = []\<rparr>"

theorem bumper_files_are_not_overrun_witness:
  "within_file plain_ctx (emit_timeline plain_ctx short_clip 0 ! 0) \<and> length (emit_timeline plain_ctx short_clip 0) = 2"
proof -
  have len: "length (emit_timeline plain_ctx short_clip 0) = 2"
    by (simp add: emit_timeline_def segment_items_def Let_def short_clip_def source_items_def ident_def local_span_def local_padded_def plain_ctx_def)
  then have "emit_timeline plain_ctx short_clip 0 ! 0 \<in> set (emit_timeline plain_ctx short_clip 0)" by (intro nth_mem) simp
  then show ?thesis using bumper_files_are_not_overrun len by blast
qed

end
