(* ===== verification/History.thy ===== *)
theory History
  imports Strings "HOL-Library.Sublist"
begin

text \<open>
  The play-history ledger (\<open>history.rs\<close>): one row per scheduled airing of every channel, and the reads
  that project it: where each series stands, what aired last, and the filtered rows. The table is the
  list of its rows in order of their ids. Instants fit 64-bit nanoseconds and clip offsets 63-bit
  milliseconds, so a row reads back as it was written; an error of SQLite is not modelled.
\<close>

section \<open>Rows\<close>

datatype airing_kind = Programme | Bumper

fun kind_str :: "airing_kind \<Rightarrow> string" where
  "kind_str Programme = ''programme''"
| "kind_str Bumper = ''bumper''"

definition kind_parse :: "string \<Rightarrow> airing_kind option" where
  "kind_parse s = (if s = ''programme'' then Some Programme else if s = ''bumper'' then Some Bumper else None)"

lemma kind_round_trip: "kind_parse (kind_str k) = Some k"
  by (cases k) (simp_all add: kind_parse_def)

record play_record =
  rec_entry_id :: string
  rec_show_id :: "string option"
  rec_start :: instant
  rec_played_at :: instant
  rec_error_card :: bool
  rec_kind :: airing_kind
  rec_source :: "string option"
  rec_in_ms :: "nat option"
  rec_out_ms :: "nat option"
  rec_produced_by :: "string option"

definition play_record_default :: play_record where
  "play_record_default =
     \<lparr>rec_entry_id = [], rec_show_id = None, rec_start = 0, rec_played_at = 0, rec_error_card = False, rec_kind = Programme,
      rec_source = None, rec_in_ms = None, rec_out_ms = None, rec_produced_by = None\<rparr>"

definition series_key :: "play_record \<Rightarrow> string" where
  "series_key r = (case rec_show_id r of Some s \<Rightarrow> s | None \<Rightarrow> rec_entry_id r)"

record ledger_row =
  lr_channel :: string
  lr_record :: play_record

text \<open>The database: its rows, and the channels whose sidecar was migrated.\<close>

record history_db =
  hd_rows :: "ledger_row list"
  hd_migrated :: "string list"

section \<open>Writing\<close>

definition insert_record :: "string \<Rightarrow> play_record \<Rightarrow> ledger_row list \<Rightarrow> ledger_row list" where
  "insert_record channel r rows = rows @ [\<lparr>lr_channel = channel, lr_record = r\<rparr>]"

definition record_airings :: "string \<Rightarrow> play_record list \<Rightarrow> ledger_row list \<Rightarrow> ledger_row list" where
  "record_airings channel records rows = fold (insert_record channel) records rows"

definition airing_keys :: "string \<Rightarrow> ledger_row list \<Rightarrow> (string \<times> instant) set" where
  "airing_keys channel rows =
     set (map (\<lambda>r. (rec_entry_id (lr_record r), rec_start (lr_record r))) (filter (\<lambda>r. lr_channel r = channel) rows))"

text \<open>Only the airings whose entry and instant the channel does not hold; how many were written.\<close>

fun insert_missing ::
  "string \<Rightarrow> play_record list \<Rightarrow> (string \<times> instant) set \<Rightarrow> ledger_row list \<Rightarrow> ledger_row list \<times> nat" where
  "insert_missing channel [] present rows = (rows, 0)"
| "insert_missing channel (r # records) present rows =
     (let key = (rec_entry_id r, rec_start r) in
      if key \<in> present then insert_missing channel records present rows
      else (let (rows', n) = insert_missing channel records (insert key present) (insert_record channel r rows) in (rows', Suc n)))"

definition record_missing :: "string \<Rightarrow> play_record list \<Rightarrow> ledger_row list \<Rightarrow> ledger_row list \<times> nat" where
  "record_missing channel records rows =
     (if records = [] then (rows, 0) else insert_missing channel records (airing_keys channel rows) rows)"

definition truncate_from :: "string \<Rightarrow> instant \<Rightarrow> ledger_row list \<Rightarrow> ledger_row list" where
  "truncate_from channel t rows = filter (\<lambda>r. \<not> (lr_channel r = channel \<and> t \<le> rec_start (lr_record r))) rows"

definition bumper_at :: "string \<Rightarrow> string \<Rightarrow> instant \<Rightarrow> ledger_row \<Rightarrow> bool" where
  "bumper_at channel entry_id start r \<longleftrightarrow>
     lr_channel r = channel \<and> rec_entry_id (lr_record r) = entry_id \<and> rec_kind (lr_record r) = Bumper \<and>
     start - 1000000000 \<le> rec_start (lr_record r) \<and> rec_start (lr_record r) \<le> start + 1000000000"

definition set_bumper_source ::
  "string \<Rightarrow> string \<Rightarrow> instant \<Rightarrow> string \<Rightarrow> ledger_row list \<Rightarrow> ledger_row list \<times> nat" where
  "set_bumper_source channel entry_id start source rows =
     (map (\<lambda>r. if bumper_at channel entry_id start r then r\<lparr>lr_record := (lr_record r)\<lparr>rec_source := Some source\<rparr>\<rparr> else r) rows,
      length (filter (bumper_at channel entry_id start) rows))"

section \<open>Reading\<close>

definition by_start :: "ledger_row list \<Rightarrow> ledger_row list" where
  "by_start rows = sort_key (\<lambda>r. rec_start (lr_record r)) rows"

definition programmes :: "string \<Rightarrow> ledger_row list \<Rightarrow> ledger_row list" where
  "programmes channel rows = filter (\<lambda>r. lr_channel r = channel \<and> rec_kind (lr_record r) = Programme) rows"

text \<open>The row of number one in its partition: the latest start, the later row on a tie.\<close>

definition newest :: "ledger_row list \<Rightarrow> ledger_row option" where
  "newest rows = (if rows = [] then None else Some (last (by_start rows)))"

definition cursor_by :: "(play_record \<Rightarrow> string option) \<Rightarrow> ledger_row list \<Rightarrow> (string, string) btree" where
  "cursor_by key rows =
     fold (\<lambda>k m. case newest (filter (\<lambda>r. key (lr_record r) = Some k) rows) of
             None \<Rightarrow> m | Some r \<Rightarrow> bt_insert k (rec_entry_id (lr_record r)) m)
       (remdups (List.map_filter (key \<circ> lr_record) rows)) []"

definition series_cursor :: "string \<Rightarrow> ledger_row list \<Rightarrow> (string, string) btree" where
  "series_cursor channel rows = cursor_by (Some \<circ> series_key) (programmes channel rows)"

definition cross_channel_show_cursor :: "ledger_row list \<Rightarrow> (string, string) btree" where
  "cross_channel_show_cursor rows = cursor_by rec_show_id (filter (\<lambda>r. rec_kind (lr_record r) = Programme) rows)"

definition history_tail :: "string \<Rightarrow> nat \<Rightarrow> ledger_row list \<Rightarrow> string list" where
  "history_tail channel n rows =
     rev (take n (map (rec_entry_id \<circ> lr_record) (rev (by_start (programmes channel rows)))))"

definition count_airings :: "string \<Rightarrow> ledger_row list \<Rightarrow> nat" where
  "count_airings channel rows = length (programmes channel rows)"

record airing_filter =
  af_channel :: "string option"
  af_kind :: "airing_kind option"
  af_entry_id :: "string option"
  af_show_id :: "string option"
  af_source :: "string option"
  af_produced_by :: "string option"
  af_from :: "instant option"
  af_to :: "instant option"
  af_newest_first :: bool
  af_limit :: nat

definition matches_filter :: "airing_filter \<Rightarrow> ledger_row \<Rightarrow> bool" where
  "matches_filter f row \<longleftrightarrow>
     (let r = lr_record row; is = (\<lambda>want have. case want of None \<Rightarrow> True | Some w \<Rightarrow> have = Some w) in
      is (af_channel f) (Some (lr_channel row)) \<and>
      (case af_kind f of None \<Rightarrow> True | Some k \<Rightarrow> rec_kind r = k) \<and>
      is (af_entry_id f) (Some (rec_entry_id r)) \<and> is (af_show_id f) (rec_show_id r) \<and>
      is (af_source f) (rec_source r) \<and> is (af_produced_by f) (rec_produced_by r) \<and>
      (case af_from f of None \<Rightarrow> True | Some t \<Rightarrow> t \<le> rec_start r) \<and>
      (case af_to f of None \<Rightarrow> True | Some t \<Rightarrow> rec_start r < t))"

definition filtered_airings :: "airing_filter \<Rightarrow> ledger_row list \<Rightarrow> ledger_row list" where
  "filtered_airings f rows =
     (let hits = by_start (filter (matches_filter f) rows) in
      take (af_limit f) (if af_newest_first f then rev hits else hits))"

section \<open>Migrating a sidecar\<close>

record migration_stats =
  mg_already_done :: bool
  mg_migrated :: nat
  mg_skipped :: nat

text \<open>\<open>parse\<close> reads a line of JSON; \<open>lines\<close> are those of the file, none for a missing one.\<close>

definition migrate_channel ::
  "(string \<Rightarrow> play_record option) \<Rightarrow> string \<Rightarrow> string list \<Rightarrow> history_db \<Rightarrow> history_db \<times> migration_stats" where
  "migrate_channel parse channel lines db =
     (if channel \<in> set (hd_migrated db)
      then (db, \<lparr>mg_already_done = True, mg_migrated = 0, mg_skipped = 0\<rparr>)
      else let parsed = map parse (filter (\<lambda>l. trim l \<noteq> []) lines); records = List.map_filter id parsed in
        (\<lparr>hd_rows = record_airings channel records (hd_rows db), hd_migrated = channel # hd_migrated db\<rparr>,
         \<lparr>mg_already_done = False, mg_migrated = length records, mg_skipped = length (filter (\<lambda>p. p = None) parsed)\<rparr>))"

section \<open>What a rewind undoes\<close>

lemma record_airings_eq: "record_airings channel records rows = rows @ map (\<lambda>r. \<lparr>lr_channel = channel, lr_record = r\<rparr>) records"
  by (induction records arbitrary: rows) (simp_all add: record_airings_def insert_record_def)

text \<open>
  Cutting the ledger at the instant a generation began leaves what cutting it there before
  the generation was recorded leaves, whatever it recorded, and every row of other channels.
\<close>

theorem rewind_undoes_recording:
  assumes "\<forall>r\<in>set records. t \<le> rec_start r"
  shows "truncate_from channel t (record_airings channel records rows) = truncate_from channel t rows \<and>
    filter (\<lambda>r. lr_channel r \<noteq> channel) (truncate_from channel t rows) = filter (\<lambda>r. lr_channel r \<noteq> channel) rows"
proof -
  have "filter (\<lambda>r. \<not> (lr_channel r = channel \<and> t \<le> rec_start (lr_record r)))
      (map (\<lambda>r. \<lparr>lr_channel = channel, lr_record = r\<rparr>) records) = []"
    using assms by (simp add: filter_empty_conv)
  then show ?thesis by (simp add: record_airings_eq truncate_from_def filter_filter conj_commute cong: conj_cong)
qed

section \<open>The cursor\<close>

text \<open>Row \<open>i\<close> is the latest of the rows \<open>P\<close> holds of: no later start, and no later row of the same start.\<close>

definition latest_row :: "(ledger_row \<Rightarrow> bool) \<Rightarrow> ledger_row list \<Rightarrow> nat \<Rightarrow> bool" where
  "latest_row P rows i \<longleftrightarrow> i < length rows \<and> P (rows ! i) \<and>
     (\<forall>j < length rows. P (rows ! j) \<longrightarrow>
        rec_start (lr_record (rows ! j)) < rec_start (lr_record (rows ! i)) \<or>
        rec_start (lr_record (rows ! j)) = rec_start (lr_record (rows ! i)) \<and> j \<le> i)"

lemma latest_row_unique: "latest_row P rows i \<Longrightarrow> latest_row P rows j \<Longrightarrow> i = j"
  by (auto simp: latest_row_def) (metis le_antisym less_asym order_less_irrefl)

lemma last_insort_key:
  "sorted (map f xs) \<Longrightarrow> xs \<noteq> [] \<Longrightarrow> last (insort_key f a xs) = (if f (last xs) < f a then a else last xs)"
proof (induction xs)
  case (Cons b xs)
  have le: "f b \<le> f (last (b # xs))" using Cons.prems(1) by (cases "xs = []") auto
  have ne: "insort_key f a xs \<noteq> []" by (cases xs) auto
  show ?case
  proof (cases "f a \<le> f b")
    case True
    then have "\<not> f (last (b # xs)) < f a" using le by (meson leD order_trans)
    then show ?thesis using True by simp
  next
    case False
    then show ?thesis using Cons ne by (cases "xs = []") auto
  qed
qed simp

lemma newest_Cons:
  "newest (a # rows) = Some (case newest rows of None \<Rightarrow> a
     | Some b \<Rightarrow> if rec_start (lr_record b) < rec_start (lr_record a) then a else b)"
proof (cases "rows = []")
  case False
  then have "by_start rows \<noteq> []" by (metis by_start_def set_empty set_sort)
  moreover have "sorted (map (\<lambda>r. rec_start (lr_record r)) (by_start rows))" by (simp add: by_start_def)
  ultimately have "last (by_start (a # rows)) = (if rec_start (lr_record (last (by_start rows))) < rec_start (lr_record a) then a else last (by_start rows))"
    using last_insort_key[of "\<lambda>r. rec_start (lr_record r)" "by_start rows" a] by (simp add: by_start_def)
  then show ?thesis using False by (simp add: newest_def)
qed (simp add: newest_def by_start_def)

lemma newest_latest:
  "case newest (filter P rows) of
     None \<Rightarrow> \<forall>r\<in>set rows. \<not> P r
   | Some r \<Rightarrow> \<exists>i. latest_row P rows i \<and> rows ! i = r"
proof (induction rows)
  case Nil
  then show ?case by (simp add: newest_def)
next
  case (Cons a rows)
  let ?start = "\<lambda>r. rec_start (lr_record r)"
  have shift: "latest_row P (a # rows) (Suc i) \<longleftrightarrow> latest_row P rows i \<and> (P a \<longrightarrow> ?start a \<le> ?start (rows ! i))" for i
    unfolding latest_row_def by (auto simp: less_Suc_eq_0_disj)
  have head: "latest_row P (a # rows) 0 \<longleftrightarrow> P a \<and> (\<forall>r\<in>set rows. P r \<longrightarrow> ?start r < ?start a)"
    by (auto simp: latest_row_def all_set_conv_all_nth less_Suc_eq_0_disj)
  show ?case
  proof (cases "newest (filter P rows)")
    case None
    then have none: "\<forall>r\<in>set rows. \<not> P r" using Cons.IH by simp
    show ?thesis
    proof (cases "P a")
      case True
      then have "latest_row P (a # rows) 0" using none head by blast
      then show ?thesis using True None by (auto simp: newest_Cons intro!: exI[of _ 0])
    qed (use None none in simp)
  next
    case (Some b)
    then obtain i where i: "latest_row P rows i" "rows ! i = b" using Cons.IH by auto
    show ?thesis
    proof (cases "P a \<and> ?start b < ?start a")
      case True
      have "?start r \<le> ?start b" if "r \<in> set rows" "P r" for r
        using that i by (auto simp: latest_row_def in_set_conv_nth)
      then have "latest_row P (a # rows) 0" unfolding head using True by force
      then show ?thesis using True Some by (simp add: newest_Cons) (metis nth_Cons_0)
    next
      case False
      then have "P a \<longrightarrow> ?start a \<le> ?start (rows ! i)" unfolding i(2) by (simp add: not_less)
      then have "latest_row P (a # rows) (Suc i)" unfolding shift using i(1) by blast
      moreover have "newest (filter P (a # rows)) = Some b" using False Some by (auto simp: newest_Cons)
      ultimately show ?thesis using i(2) by (simp del: filter.simps) (metis nth_Cons_Suc)
    qed
  qed
qed

lemma cursor_by_get:
  "bt_get (cursor_by key rows) k = map_option (\<lambda>r. rec_entry_id (lr_record r)) (newest (filter (\<lambda>r. key (lr_record r) = Some k) rows))"
proof -
  let ?entry = "\<lambda>k. map_option (\<lambda>r. rec_entry_id (lr_record r)) (newest (filter (\<lambda>r. key (lr_record r) = Some k) rows))"
  let ?put = "\<lambda>k m. case newest (filter (\<lambda>r. key (lr_record r) = Some k) rows) of
             None \<Rightarrow> m | Some r \<Rightarrow> bt_insert k (rec_entry_id (lr_record r)) m"
  have "bt_get (fold ?put ks m) k = (if k \<in> set ks \<and> ?entry k \<noteq> None then ?entry k else bt_get m k)" for ks m
    by (induction ks arbitrary: m) (auto split: option.splits)
  moreover have "?entry k = None" if "k \<notin> set (List.map_filter (key \<circ> lr_record) rows)"
  proof -
    have "filter (\<lambda>r. key (lr_record r) = Some k) rows = []" using that by (force simp: map_filter_def filter_empty_conv)
    then show ?thesis by (simp add: newest_def)
  qed
  ultimately show ?thesis by (auto simp: cursor_by_def)
qed

text \<open>
  Claim C32. Where a series stands is its programme of the latest start on that channel, the later row
  on a tie; a series with no programme there stands nowhere, and neither bumpers nor other channels count.
\<close>

theorem series_stands_at_its_latest_programme:
  "bt_get (series_cursor channel rows) k = Some e \<longleftrightarrow>
     (\<exists>i. latest_row (\<lambda>r. lr_channel r = channel \<and> rec_kind (lr_record r) = Programme \<and> series_key (lr_record r) = k) rows i \<and>
          rec_entry_id (lr_record (rows ! i)) = e)"
proof -
  let ?P = "\<lambda>r. lr_channel r = channel \<and> rec_kind (lr_record r) = Programme \<and> series_key (lr_record r) = k"
  have "bt_get (series_cursor channel rows) k = map_option (\<lambda>r. rec_entry_id (lr_record r)) (newest (filter ?P rows))"
    by (simp add: series_cursor_def cursor_by_get programmes_def filter_filter conj_commute conj_left_commute)
  then show ?thesis using newest_latest[where P = ?P and rows = rows] latest_row_unique[where P = ?P and rows = rows]
    by (auto split: option.splits) (auto simp: latest_row_def)
qed

section \<open>The tail\<close>

lemma sort_key_append_later:
  "\<forall>x\<in>set xs. \<forall>y\<in>set ys. f x \<le> f y \<Longrightarrow> sort_key f (xs @ ys) = sort_key f xs @ sort_key f ys"
proof (rule properties_for_sort_key)
  assume le: "\<forall>x\<in>set xs. \<forall>y\<in>set ys. f x \<le> f y"
  show "mset (sort_key f xs @ sort_key f ys) = mset (xs @ ys)" by simp
  show "filter (\<lambda>z. f k = f z) (sort_key f xs @ sort_key f ys) = filter (\<lambda>z. f k = f z) (xs @ ys)" if "k \<in> set (sort_key f xs @ sort_key f ys)" for k
    using sort_key_stable[of f "f k" xs] sort_key_stable[of f "f k" ys] by (simp add: eq_commute[of "f k"])
  show "sorted (map f (sort_key f xs @ sort_key f ys))" using le by (simp add: sorted_append)
qed

lemma keep_last_again: "keep_last n (keep_last n xs @ ys) = keep_last n (xs @ ys)"
  by (cases "n \<le> length ys"; cases "n \<le> length xs") (simp_all add: keep_last_def add.commute)

text \<open>
  After a generation is recorded in schedule order behind everything its channel has aired, the
  tail is the old tail with the programmes of the generation behind it, cut to its depth; bumpers leave
  no trace in it.
\<close>

theorem tail_grows_by_the_programmes:
  assumes "\<forall>row\<in>set (programmes channel rows). \<forall>r\<in>set records. rec_start (lr_record row) \<le> rec_start r"
    "sorted (map rec_start (filter (\<lambda>r. rec_kind r = Programme) records))"
  shows "history_tail channel n (record_airings channel records rows) =
    keep_last n (history_tail channel n rows @ map rec_entry_id (filter (\<lambda>r. rec_kind r = Programme) records))"
proof -
  let ?new = "map (\<lambda>r. \<lparr>lr_channel = channel, lr_record = r\<rparr>) (filter (\<lambda>r. rec_kind r = Programme) records)"
  let ?old = "map (rec_entry_id \<circ> lr_record) (by_start (programmes channel rows))"
  have tail: "history_tail channel n rs = keep_last n (map (rec_entry_id \<circ> lr_record) (by_start (programmes channel rs)))" for rs
    by (simp only: history_tail_def rev_keep_last[symmetric] rev_map[symmetric] rev_rev_ident)
  have "programmes channel (record_airings channel records rows) = programmes channel rows @ ?new"
    by (simp add: programmes_def record_airings_eq filter_map comp_def)
  moreover have "by_start (programmes channel rows @ ?new) = by_start (programmes channel rows) @ by_start ?new"
    unfolding by_start_def using assms(1) by (intro sort_key_append_later) auto
  moreover have "by_start ?new = ?new" unfolding by_start_def using assms(2) by (intro sort_key_id_if_sorted) (simp add: comp_def)
  ultimately have "history_tail channel n (record_airings channel records rows) =
      keep_last n (?old @ map rec_entry_id (filter (\<lambda>r. rec_kind r = Programme) records))"
    by (simp add: tail comp_def)
  then show ?thesis by (simp add: tail keep_last_again)
qed

section \<open>Repairing\<close>

definition airing_key :: "play_record \<Rightarrow> string \<times> instant" where
  "airing_key r = (rec_entry_id r, rec_start r)"

lemma insert_missing_spec:
  "insert_missing channel records present rows = (rows', n) \<Longrightarrow>
     \<exists>added. rows' = record_airings channel added rows \<and> length added = n \<and> subseq added records \<and>
       distinct (map airing_key added) \<and> airing_key ` set added = airing_key ` set records - present"
proof (induction channel records present rows arbitrary: rows' n rule: insert_missing.induct)
  case (1 channel present rows)
  then show ?case by (intro exI[of _ "[]"]) (simp add: record_airings_def)
next
  case (2 channel r records present rows)
  show ?case
  proof (cases "airing_key r \<in> present")
    case True
    then have key: "(rec_entry_id r, rec_start r) \<in> present" by (simp add: airing_key_def)
    then have "insert_missing channel records present rows = (rows', n)" using 2(3) by (simp add: Let_def)
    then obtain added where "rows' = record_airings channel added rows" "length added = n" "subseq added records"
      "distinct (map airing_key added)" "airing_key ` set added = airing_key ` set records - present"
      using 2(1)[OF refl key] by blast
    then show ?thesis using True by (intro exI[of _ added]) (auto intro: list_emb_Cons)
  next
    case False
    obtain m where m: "insert_missing channel records (insert (airing_key r) present) (insert_record channel r rows) = (rows', m)" "n = Suc m"
      using 2(3) False by (auto simp: airing_key_def Let_def split: prod.splits)
    obtain added where "rows' = record_airings channel added (insert_record channel r rows)" "length added = m" "subseq added records"
      "distinct (map airing_key added)" "airing_key ` set added = airing_key ` set records - insert (airing_key r) present"
      using 2(2)[OF refl, folded airing_key_def, OF False m(1)] by blast
    then show ?thesis using False m(2) by (intro exI[of _ "r # added"]) (auto simp: record_airings_def)
  qed
qed

lemma airing_keys_record: "airing_keys channel (record_airings channel rs rows) = airing_keys channel rows \<union> airing_key ` set rs"
  by (auto simp: airing_keys_def record_airings_eq airing_key_def image_def)

text \<open>
  A repair adds, in order, one row for each airing the channel lacked and no other, counts
  them, and repeated adds nothing.
\<close>

theorem repair_adds_what_is_missing:
  assumes "record_missing channel records rows = (rows', n)"
  shows "(\<exists>added. rows' = record_airings channel added rows \<and> length added = n \<and> subseq added records \<and>
      distinct (map airing_key added) \<and> airing_key ` set added = airing_key ` set records - airing_keys channel rows) \<and>
    record_missing channel records rows' = (rows', 0)"
proof -
  have spec: "\<exists>added. rows' = record_airings channel added rows \<and> length added = n \<and> subseq added records \<and>
      distinct (map airing_key added) \<and> airing_key ` set added = airing_key ` set records - airing_keys channel rows"
    using assms insert_missing_spec[of channel records "airing_keys channel rows" rows rows' n]
    by (auto simp: record_missing_def record_airings_def split: if_splits)
  then have "airing_key ` set records \<subseteq> airing_keys channel rows'" by (auto simp: airing_keys_record)
  moreover have "airing_key ` set rs \<subseteq> present \<Longrightarrow> insert_missing channel rs present rows' = (rows', 0)" for rs present
    by (induction rs) (auto simp: airing_key_def)
  ultimately show ?thesis using spec by (simp add: record_missing_def)
qed

section \<open>A film and a bumper\<close>

definition film_airing :: play_record where
  "film_airing = play_record_default\<lparr>rec_entry_id := ''f'', rec_start := 10\<rparr>"

definition bumper_airing :: play_record where
  "bumper_airing = play_record_default\<lparr>rec_entry_id := ''b'', rec_start := 20, rec_kind := Bumper\<rparr>"

theorem rewind_undoes_recording_witness:
  "truncate_from ''one'' 10 (record_airings ''one'' [film_airing, bumper_airing] []) = []"
  using rewind_undoes_recording[of "[film_airing, bumper_airing]" 10 "''one''" "[]"]
  by (simp add: film_airing_def bumper_airing_def truncate_from_def)

theorem tail_grows_by_the_programmes_witness:
  "history_tail ''one'' 5 (record_airings ''one'' [film_airing, bumper_airing] []) = [''f'']"
  using tail_grows_by_the_programmes[of "''one''" "[]" "[film_airing, bumper_airing]" 5]
  by (simp add: programmes_def film_airing_def bumper_airing_def play_record_default_def history_tail_def by_start_def keep_last_def)

theorem repair_adds_what_is_missing_witness:
  "record_missing ''one'' [film_airing, bumper_airing, film_airing] (fst (record_missing ''one'' [film_airing, bumper_airing, film_airing] [])) =
     (fst (record_missing ''one'' [film_airing, bumper_airing, film_airing] []), 0)"
  using repair_adds_what_is_missing[OF surjective_pairing] by blast

end
