(* ===== verification/GapFill.thy ===== *)
theory GapFill
  imports BumperEmit Tz Items History
begin

text \<open>
  Filling the gap between a programme's end and its block's next grid line (\<open>bumper/fill.rs\<close>,
  \<open>bumper/ledger.rs\<close>): the plan of a block, the draws that chain bumpers and pool items up to the
  line, and the pass over a whole generation. Building a script's timeline, CEL, a file's length and
  the JSON of a playout item are parameters, as is the clock. The ledger and the catalog a script
  reads are part of what builds it.
\<close>

section \<open>The plan of a block\<close>

datatype candidate_source =
    ScriptSource string "string list" "json option"
  | PoolSource string

record candidate =
  cd_source :: candidate_source
  cd_weight :: nat
  cd_when :: "string option"
  cd_min_gap_ms :: nat
  cd_max_gap_ms :: "nat option"

record fill_plan =
  fp_every :: duration
  fp_min_fill :: duration
  fp_entries :: "candidate list"

definition candidate_of :: "string \<Rightarrow> fill_entry \<Rightarrow> candidate option" where
  "candidate_of base_dir e =
     map_option (\<lambda>source.
        \<lparr>cd_source = source, cd_weight = fe_weight e, cd_when = fe_when e,
         cd_min_gap_ms = (case fe_min_gap e of None \<Rightarrow> 0 | Some d \<Rightarrow> millis_u64 d),
         cd_max_gap_ms = map_option millis_u64 (fe_max_gap e)\<rparr>)
       (case (fe_script e, fe_pool e) of
          (Some script, None) \<Rightarrow> Some (ScriptSource (resolve_plugin_path base_dir script) (fe_capabilities e) (fe_config e))
        | (None, Some name) \<Rightarrow> Some (PoolSource name)
        | _ \<Rightarrow> None)"

definition plan_from_block :: "string \<Rightarrow> block_include \<Rightarrow> fill_plan option" where
  "plan_from_block base_dir b =
     (case bi_align b of
        None \<Rightarrow> None
      | Some AlignOff \<Rightarrow> None
      | Some (AlignEvery d) \<Rightarrow>
          Some \<lparr>fp_every = d, fp_min_fill = (case bi_min_fill b of Some m \<Rightarrow> m | None \<Rightarrow> default_min_fill),
                fp_entries = List.map_filter (candidate_of base_dir) (bi_fill b)\<rparr>)"

section \<open>The rows of the ledger\<close>

fun aired_source :: "segment_source \<Rightarrow> string \<times> nat option \<times> nat option" where
  "aired_source (SegClip path in_ms out_ms) = (path, Some in_ms, Some out_ms)"
| "aired_source (SegHttp url in_ms out_ms) = (url, Some in_ms, Some out_ms)"
| "aired_source (SegLavfi params) = (params, None, None)"
| "aired_source (SegStill picture) = (picture, None, None)"
| "aired_source (SegRender _ path) = (path, None, None)"
| "aired_source (SegPending _ stand_in) = (stand_in, None, None)"

definition ledger_records :: "resolved_timeline \<Rightarrow> instant \<Rightarrow> instant \<Rightarrow> string \<Rightarrow> play_record list" where
  "ledger_records rt gap_start written_at produced_by =
     map (\<lambda>placed. let (source, in_ms, out_ms) = aired_source (sg_source (rg_segment placed)) in
       \<lparr>rec_entry_id = sg_name (rg_segment placed), rec_show_id = None, rec_start = gap_start + ms_of (rg_start_ms placed),
        rec_played_at = written_at, rec_error_card = False, rec_kind = Bumper, rec_source = Some source,
        rec_in_ms = in_ms, rec_out_ms = out_ms, rec_produced_by = Some produced_by\<rparr>)
       (rt_segments rt)"

section \<open>What a draw is given\<close>

record channel_info =
  ci_name :: string
  ci_number :: int
  ci_logo :: "string option"
  ci_vocabulary :: "string list"
  ci_tz :: "zone option"

record bumper_input =
  bn_gap_ms :: nat
  bn_next :: "(string \<times> dyn) list option"
  bn_prev :: "(string \<times> dyn) list option"
  bn_upcoming :: "(string \<times> dyn) list list"
  bn_config :: "json option"
  bn_channel :: channel_info
  bn_air_date :: string
  bn_draw :: nat
  bn_granted :: "string list"
  bn_pass :: "play_record list"

text \<open>What a CEL expression evaluates to.\<close>

datatype cel_value = CelBool bool | CelOther string

text \<open>
  \<open>fv_build\<close> runs a bumper script, \<open>fv_cel\<close> compiles and evaluates an expression over variables,
  \<open>fv_from_dynamic\<close> is \<open>rhai::serde::from_dynamic\<close> of a map, \<open>fv_encode\<close> \<open>serde_json::to_value\<close>,
  \<open>fv_date\<close> the text of a day, and \<open>fv_clock\<close> the wall clock at a draw of a gap.
\<close>

record fill_env =
  fv_channel :: channel_info
  fv_tz :: zone
  fv_overlay_root :: string
  fv_plans :: "fill_plan option list"
  fv_pools :: "nat \<times> string \<Rightarrow> (resolved_item \<times> duration) list option"
  fv_item_map :: "resolved_item \<Rightarrow> (string \<times> dyn) list"
  fv_build :: "string \<Rightarrow> bumper_input \<Rightarrow> timeline result"
  fv_cel :: "string \<Rightarrow> (string \<times> json) list \<Rightarrow> cel_value result"
  fv_from_dynamic :: "(string \<times> dyn) list \<Rightarrow> json option"
  fv_encode :: "playout_item \<Rightarrow> json option"
  fv_date :: "date \<Rightarrow> string"
  fv_clock :: "instant \<Rightarrow> nat \<Rightarrow> instant"
  fv_media_len_ms :: "string \<Rightarrow> nat option"
  fv_f64 :: "f64 \<Rightarrow> string"
  fv_f32 :: "f64 \<Rightarrow> string"
  fv_seconds_f64 :: "f64 \<Rightarrow> int"

record fill_piece =
  pc_item :: resolved_item
  pc_duration :: duration

text \<open>The rows of the bumpers placed so far, and the items of each pool that have aired.\<close>

record pass_state =
  ps_records :: "play_record list"
  ps_used :: "nat \<times> string \<Rightarrow> nat set"

section \<open>The grid\<close>

definition boundary_at_or_after :: "instant \<Rightarrow> duration \<Rightarrow> zone \<Rightarrow> instant result" where
  "boundary_at_or_after t every tz =
     bind_res (local_midnight_at_or_before t tz) (\<lambda>midnight.
       if 2 ^ 63 \<le> every div 10 ^ 9 then Inl ''an align fits in a time::Duration''
       else let step_ns = max 1 (int every);
                ns = t - midnight + step_ns - 1;
                lines = (if 0 \<le> ns then ns div step_ns else - (- ns div step_ns))
            in if - (2 ^ 31) \<le> lines \<and> lines < 2 ^ 31 then Inr (midnight + int every * lines) else Inl ''a day holds few grid lines'')"

definition length_ns :: "fill_env \<Rightarrow> duration \<Rightarrow> int" where
  "length_ns env d = fv_seconds_f64 env (as_secs_f64 d)"

definition advance_pieces :: "fill_env \<Rightarrow> instant \<Rightarrow> fill_piece list \<Rightarrow> instant" where
  "advance_pieces env t pcs = foldl (\<lambda>u p. u + length_ns env (pc_duration p)) t pcs"

definition round_ms :: "int \<Rightarrow> nat" where
  "round_ms ns = (nat (max 0 ns) + 500000) div 1000000"

section \<open>Pieces\<close>

definition piece_from :: "fill_env \<Rightarrow> nat \<Rightarrow> playout_item \<Rightarrow> fill_piece" where
  "piece_from env block item =
     (let (source, in_point, out_point) =
            (case pi_source item of
               Some (PlayLocal path in_ms out_ms _) \<Rightarrow>
                 (LocalSource path, map_option dur_of_millis in_ms, map_option dur_of_millis out_ms)
             | Some (PlayLavfi params _) \<Rightarrow> (LavfiSource params, None, None)
             | _ \<Rightarrow> (LavfiSource ''color=c=black'', None, None))
      in \<lparr>pc_item =
            \<lparr>ri_id = pi_id item, ri_block = block, ri_source = source, ri_in_point = in_point, ri_out_point = out_point,
             ri_program = None, ri_catalog_duration = None, ri_error_card = False, ri_metadata = pi_metadata item,
             ri_guide = None, ri_guide_fields = guide_fields_default, ri_tracks = None, ri_selected = None,
             ri_bumper = Some (case fv_encode env item of Some j \<Rightarrow> j | None \<Rightarrow> JNull)\<rparr>,
          pc_duration = nat (max 0 (pi_finish item - pi_start item))\<rparr>)"

definition black_piece :: "fill_env \<Rightarrow> nat \<Rightarrow> instant \<Rightarrow> int \<Rightarrow> string \<Rightarrow> fill_piece" where
  "black_piece env block t len why =
     piece_from env block
       ((scheduled (bumper_id (ci_name (fv_channel env)) t ''black'') t (t + len) black_source)
        \<lparr>pi_metadata := Some (JObject (bt_insert ''bumper'' (JBool True)
            (bt_insert ''segment'' (JString ''black'') (bt_insert ''why'' (JString why) []))))\<rparr>)"

section \<open>Pools\<close>

text \<open>The items of one scan, by index from \<open>i\<close> on: those not skipped that leave the least fill.\<close>

fun scan_pool :: "fill_env \<Rightarrow> duration \<Rightarrow> nat set \<Rightarrow> int \<Rightarrow> nat \<Rightarrow> (resolved_item \<times> duration) list \<Rightarrow> nat list" where
  "scan_pool env min_fill skip left i [] = []"
| "scan_pool env min_fill skip left i ((_, d) # items) =
     (let len = length_ns env d in
      if i \<notin> skip \<and> 0 < len \<and> len + int min_fill \<le> left
      then i # scan_pool env min_fill skip (left - len) (Suc i) items
      else scan_pool env min_fill skip left (Suc i) items)"

definition pool_picks ::
  "fill_env \<Rightarrow> fill_plan \<Rightarrow> nat \<Rightarrow> string \<Rightarrow> int \<Rightarrow> (nat \<times> string \<Rightarrow> nat set) \<Rightarrow> nat list \<times> bool" where
  "pool_picks env plan block name remaining used =
     (case fv_pools env (block, name) of
        None \<Rightarrow> ([], False)
      | Some items \<Rightarrow>
          (let aired = used (block, name); fresh = scan_pool env (fp_min_fill plan) aired remaining 0 items in
           if fresh \<noteq> [] \<or> aired = {} then (fresh, False)
           else (scan_pool env (fp_min_fill plan) {} remaining 0 items, True)))"

definition take_pool_items ::
  "fill_env \<Rightarrow> fill_plan \<Rightarrow> nat \<Rightarrow> string \<Rightarrow> int \<Rightarrow> pass_state \<Rightarrow> (fill_piece list \<times> pass_state) result" where
  "take_pool_items env plan block name remaining st =
     (let (picks, wrapped) = pool_picks env plan block name remaining (ps_used st);
          key = (block, name);
          aired = (if wrapped then {} else ps_used st key) \<union> set picks
      in case fv_pools env key of
           None \<Rightarrow> Inl ''no entry found for key''
         | Some items \<Rightarrow>
             Inr (map (\<lambda>i. \<lparr>pc_item = fst (items ! i), pc_duration = snd (items ! i)\<rparr>) picks,
                  st\<lparr>ps_used := (ps_used st)(key := aired)\<rparr>))"

section \<open>Scripts\<close>

definition rng_seed :: "string \<Rightarrow> string option \<Rightarrow> string \<Rightarrow> u64" where
  "rng_seed channel next_entry_id air_date =
     mix_seed (mix_seed (fnv1a_64 channel) (fnv1a_64 (case next_entry_id of Some i \<Rightarrow> i | None \<Rightarrow> [])))
       (fnv1a_64 air_date)"

definition black_timeline :: "nat \<Rightarrow> timeline" where
  "black_timeline gap_ms =
     \<lparr>tl_segments = [\<lparr>sg_name = ''black'', sg_source = seg_black, sg_duration = FixedMs gap_ms, sg_loop = False,
        sg_optional = False, sg_priority = 0, sg_overlay = None, sg_audio = AudioMute\<rparr>], tl_bed = None\<rparr>"

definition build_or_black :: "fill_env \<Rightarrow> string \<Rightarrow> bumper_input \<Rightarrow> timeline \<times> string option" where
  "build_or_black env script input =
     (case fv_build env script input of
        Inr built \<Rightarrow> (built, None)
      | Inl e \<Rightarrow> (black_timeline (bn_gap_ms input), Some e))"

record drawn =
  dn_script :: string
  dn_timeline :: timeline
  dn_resolved :: "resolved_timeline option"
  dn_error :: "string option"

text \<open>A gap being filled: where it leads, what is around it, and the seed of its draws.\<close>

record gap =
  gp_plan :: fill_plan
  gp_block :: nat
  gp_at :: instant
  gp_boundary :: instant
  gp_prev :: "(string \<times> dyn) list option"
  gp_next :: "(string \<times> dyn) list option"
  gp_upcoming :: "(string \<times> dyn) list list"
  gp_air_date :: string
  gp_seed :: u64

definition fill_fps :: f64 where
  "fill_fps = 30"

definition draw_one ::
  "fill_env \<Rightarrow> gap \<Rightarrow> string \<Rightarrow> string list \<Rightarrow> json option \<Rightarrow> nat \<Rightarrow> nat \<Rightarrow> play_record list \<Rightarrow> drawn" where
  "draw_one env g script granted config gap_ms draw pass =
     (let (built, error) = build_or_black env script
            \<lparr>bn_gap_ms = gap_ms, bn_next = gp_next g, bn_prev = gp_prev g, bn_upcoming = gp_upcoming g, bn_config = config,
             bn_channel = fv_channel env, bn_air_date = gp_air_date g, bn_draw = draw, bn_granted = granted, bn_pass = pass\<rparr>
      in \<lparr>dn_script = script, dn_timeline = built,
          dn_resolved = (case fit built gap_ms (Finite fill_fps) of Inr r \<Rightarrow> Some r | Inl _ \<Rightarrow> None), dn_error = error\<rparr>)"

fun most_ms :: "seg_duration \<Rightarrow> nat" where
  "most_ms (FixedMs ms) = ms"
| "most_ms (FlexMs _ max_ms _) = max_ms"

definition can_reach :: "timeline \<Rightarrow> nat \<Rightarrow> bool" where
  "can_reach line gap_ms \<longleftrightarrow>
     list_ex sg_loop (tl_segments line) \<or> gap_ms \<le> sum_list (map (most_ms \<circ> sg_duration) (tl_segments line))"

section \<open>Choosing an entry\<close>

text \<open>The first entry whose weight covers_gap what is left of the pick after those before it.\<close>

fun weighted_index :: "nat list \<Rightarrow> nat \<Rightarrow> nat option" where
  "weighted_index [] at_n = None"
| "weighted_index (w # ws) at_n = (if at_n < w then Some 0 else map_option Suc (weighted_index ws (at_n - w)))"

lemma weighted_index_less: "weighted_index ws n = Some i \<Longrightarrow> i < length ws"
  by (induction ws n arbitrary: i rule: weighted_index.induct) (auto split: if_splits)

definition next_weighted :: "candidate list \<Rightarrow> u64 \<Rightarrow> nat" where
  "next_weighted left roll =
     (let ws = map (\<lambda>e. max 1 (cd_weight e)) left in
      case weighted_index ws (unat roll mod sum_list ws) of Some i \<Rightarrow> i | None \<Rightarrow> 0)"

lemma next_weighted_less: "left \<noteq> [] \<Longrightarrow> next_weighted left roll < length left"
  by (auto simp: next_weighted_def Let_def dest: weighted_index_less split: option.split)

function weighted_from :: "u64 \<Rightarrow> nat \<Rightarrow> candidate list \<Rightarrow> candidate list" where
  "weighted_from seed n left =
     (if left = [] then []
      else let i = next_weighted left (mix_seed seed (of_nat n)) in left ! i # weighted_from seed (Suc n) (remove_at i left))"
  by auto

termination
  by (relation "measure (\<lambda>(seed, n, left). length left)") (simp_all add: length_remove_at next_weighted_less)

declare weighted_from.simps [simp del]

definition weighted_order :: "candidate list \<Rightarrow> u64 \<Rightarrow> candidate list" where
  "weighted_order entries seed = weighted_from seed 0 entries"

definition when_vars :: "fill_env \<Rightarrow> gap \<Rightarrow> nat \<Rightarrow> (string \<times> json) list" where
  "when_vars env g gap_ms =
     (let as_json = (\<lambda>m. case Option.bind m (fv_from_dynamic env) of Some j \<Rightarrow> j | None \<Rightarrow> JNull) in
      [(''next'', as_json (gp_next g)), (''prev'', as_json (gp_prev g)), (''gap_ms'', JInt (int gap_ms)),
       (''channel'', JObject [(''name'', JString (ci_name (fv_channel env))), (''number'', JInt (ci_number (fv_channel env)))])])"

definition when_holds :: "fill_env \<Rightarrow> gap \<Rightarrow> candidate \<Rightarrow> nat \<Rightarrow> bool" where
  "when_holds env g cand gap_ms =
     (case cd_when cand of
        None \<Rightarrow> True
      | Some src \<Rightarrow> (case fv_cel env src (when_vars env g gap_ms) of Inr (CelBool b) \<Rightarrow> b | _ \<Rightarrow> False))"

definition admits_gap :: "fill_env \<Rightarrow> gap \<Rightarrow> int \<Rightarrow> pass_state \<Rightarrow> candidate \<Rightarrow> bool" where
  "admits_gap env g remaining st e \<longleftrightarrow>
     cd_min_gap_ms e \<le> round_ms remaining \<and> when_holds env g e (round_ms remaining) \<and>
     (case cd_source e of
        ScriptSource _ _ _ \<Rightarrow> True
      | PoolSource name \<Rightarrow> fst (pool_picks env (gp_plan g) (gp_block g) name remaining (ps_used st)) \<noteq> [])"

definition covers_gap :: "nat \<Rightarrow> candidate \<Rightarrow> bool" where
  "covers_gap remaining_ms e \<longleftrightarrow> (case cd_max_gap_ms e of None \<Rightarrow> True | Some m \<Rightarrow> remaining_ms \<le> m)"

definition draw_ms :: "bool \<Rightarrow> nat \<Rightarrow> candidate \<Rightarrow> nat" where
  "draw_ms last_draw remaining_ms e =
     (if last_draw then remaining_ms else min (case cd_max_gap_ms e of Some m \<Rightarrow> m | None \<Rightarrow> remaining_ms) remaining_ms)"

text \<open>The first script that draws well in the order of the entries, else the first script.\<close>

fun choose_drawn :: "(candidate \<Rightarrow> drawn option) \<Rightarrow> (candidate \<Rightarrow> drawn \<Rightarrow> bool) \<Rightarrow> drawn option \<Rightarrow> candidate list \<Rightarrow> drawn option" where
  "choose_drawn draw_it good chosen [] = chosen"
| "choose_drawn draw_it good chosen (c # cs) =
     (case draw_it c of
        None \<Rightarrow> choose_drawn draw_it good chosen cs
      | Some d \<Rightarrow> if good c d then Some d else choose_drawn draw_it good (Some (case chosen of None \<Rightarrow> d | Some x \<Rightarrow> x)) cs)"

section \<open>One draw\<close>

text \<open>What a draw adds to the gap: pieces, or black for the rest of it, and why.\<close>

datatype draw_end = Aired "fill_piece list" | GoesBlack string

definition fill_ctx :: "fill_env \<Rightarrow> emit_ctx" where
  "fill_ctx env =
     \<lparr>ec_channel = ci_name (fv_channel env), ec_fps = fill_fps, ec_overlay_root = fv_overlay_root env,
      ec_media_len_ms = fv_media_len_ms env, ec_f64 = fv_f64 env, ec_f32 = fv_f32 env\<rparr>"

definition script_draw ::
  "fill_env \<Rightarrow> gap \<Rightarrow> bool \<Rightarrow> int \<Rightarrow> nat \<Rightarrow> play_record list \<Rightarrow> candidate \<Rightarrow> drawn option" where
  "script_draw env g last_draw remaining draw pass c =
     (case cd_source c of
        PoolSource _ \<Rightarrow> None
      | ScriptSource script granted config \<Rightarrow>
          Some (draw_one env g script granted config (draw_ms last_draw (round_ms remaining) c) draw pass))"

definition good_draw :: "bool \<Rightarrow> int \<Rightarrow> candidate \<Rightarrow> drawn \<Rightarrow> bool" where
  "good_draw last_draw remaining c d \<longleftrightarrow>
     dn_error d = None \<and> (last_draw \<longrightarrow> can_reach (dn_timeline d) (draw_ms last_draw (round_ms remaining) c))"

definition draw_script ::
  "fill_env \<Rightarrow> gap \<Rightarrow> candidate list \<Rightarrow> bool \<Rightarrow> int \<Rightarrow> nat \<Rightarrow> play_record list \<Rightarrow> drawn option" where
  "draw_script env g order last_draw remaining draw pass =
     choose_drawn (script_draw env g last_draw remaining draw pass) (good_draw last_draw remaining) None order"

definition air_drawn ::
  "fill_env \<Rightarrow> gap \<Rightarrow> instant \<Rightarrow> nat \<Rightarrow> pass_state \<Rightarrow> drawn option \<Rightarrow> (draw_end \<times> pass_state) result" where
  "air_drawn env g cursor draw st chosen =
     (case chosen of
        None \<Rightarrow> Inl ''a non-empty pool yields a draw''
      | Some d \<Rightarrow>
          (case dn_resolved d of
             None \<Rightarrow> Inr (GoesBlack ''unfittable'', st)
           | Some rt \<Rightarrow>
               Inr (Aired (map (piece_from env (gp_block g)) (emit_timeline (fill_ctx env) rt cursor)),
                    st\<lparr>ps_records := ps_records st @ ledger_records rt cursor (fv_clock env (gp_at g) draw) (dn_script d)\<rparr>)))"

text \<open>The entries in the order of this draw, and whether it is the last: an entry covers the rest of the gap.\<close>

definition admitted_entries :: "fill_env \<Rightarrow> gap \<Rightarrow> int \<Rightarrow> pass_state \<Rightarrow> candidate list" where
  "admitted_entries env g remaining st = filter (admits_gap env g remaining st) (fp_entries (gp_plan g))"

definition draw_order :: "gap \<Rightarrow> candidate list \<Rightarrow> int \<Rightarrow> nat \<Rightarrow> candidate list \<times> bool" where
  "draw_order g admitted remaining draw =
     (let covering = filter (covers_gap (round_ms remaining)) admitted; last_draw = covering \<noteq> []
      in (weighted_order (if last_draw then covering else admitted) (mix_seed (gp_seed g) (of_nat draw)), last_draw))"

definition fill_draw :: "fill_env \<Rightarrow> gap \<Rightarrow> instant \<Rightarrow> nat \<Rightarrow> pass_state \<Rightarrow> (draw_end \<times> pass_state) result" where
  "fill_draw env g cursor draw st =
     (let remaining = gp_boundary g - cursor;
          admitted = admitted_entries env g remaining st;
          (order, last_draw) = draw_order g admitted remaining draw
      in if admitted = [] then Inr (GoesBlack ''no_candidate'', st)
         else case map cd_source order of
           PoolSource name # _ \<Rightarrow>
             bind_res (take_pool_items env (gp_plan g) (gp_block g) name remaining st) (\<lambda>(ps, st'). Inr (Aired ps, st'))
         | _ \<Rightarrow> air_drawn env g cursor draw st (draw_script env g order last_draw remaining draw (ps_records st)))"

section \<open>One gap\<close>

definition max_draws_per_gap :: nat where
  "max_draws_per_gap = 400"

function fill_loop :: "fill_env \<Rightarrow> gap \<Rightarrow> instant \<Rightarrow> nat \<Rightarrow> pass_state \<Rightarrow> (fill_piece list \<times> pass_state) result" where
  "fill_loop env g cursor draw st =
     (let remaining = gp_boundary g - cursor;
          black = (\<lambda>why. black_piece env (gp_block g) cursor remaining why)
      in if remaining \<le> 0 \<or> round_ms remaining = 0 then Inr ([], st)
         else if nat remaining < fp_min_fill (gp_plan g) then Inr ([black ''under_min_fill''], st)
         else if max_draws_per_gap \<le> draw then Inr ([black ''draw_cap''], st)
         else bind_res (fill_draw env g cursor draw st) (\<lambda>(outcome, st').
           case outcome of
             GoesBlack why \<Rightarrow> Inr ([black why], st')
           | Aired ps \<Rightarrow>
               if advance_pieces env cursor ps \<le> cursor then Inr (ps @ [black ''empty_draw''], st')
               else bind_res (fill_loop env g (advance_pieces env cursor ps) (Suc draw) st') (\<lambda>(more_ps, st'').
                 Inr (ps @ more_ps, st''))))"
  by auto

termination
  by (relation "measure (\<lambda>(env, g, cursor, draw, st). max_draws_per_gap - draw)") simp_all

declare fill_loop.simps [simp del]

text \<open>The last piece takes what rounding left, in at most eight tries.\<close>

fun land_rounds :: "nat \<Rightarrow> fill_env \<Rightarrow> instant \<Rightarrow> instant \<Rightarrow> fill_piece list \<Rightarrow> fill_piece list" where
  "land_rounds 0 env t boundary pcs = pcs"
| "land_rounds (Suc n) env t boundary pcs =
     (let miss = boundary - advance_pieces env t pcs in
      if miss = 0 \<or> pcs = [] then pcs
      else land_rounds n env t boundary
             (butlast pcs @ [(last pcs)\<lparr>pc_duration := nat (max 0 (int (pc_duration (last pcs)) + miss))\<rparr>]))"

definition land_on :: "fill_env \<Rightarrow> instant \<Rightarrow> instant \<Rightarrow> fill_piece list \<Rightarrow> fill_piece list" where
  "land_on env t boundary pcs = land_rounds 8 env t boundary pcs"

definition upcoming_limit :: nat where
  "upcoming_limit = 12"

definition gap_at ::
  "fill_env \<Rightarrow> fill_plan \<Rightarrow> instant \<Rightarrow> resolved_item option \<Rightarrow> resolved_item list \<Rightarrow> nat \<Rightarrow> instant \<Rightarrow> gap" where
  "gap_at env plan t before ahead block boundary =
     (let air_date = fv_date env (local_date (fv_tz env) t) in
      \<lparr>gp_plan = plan, gp_block = block, gp_at = t, gp_boundary = boundary,
       gp_prev = map_option (fv_item_map env) before,
       gp_next = (case ahead of [] \<Rightarrow> None
         | item # _ \<Rightarrow> Some (bt_insert ''start'' (DynInt (unix_timestamp boundary)) (fv_item_map env item))),
       gp_upcoming = map (fv_item_map env) (take upcoming_limit (drop 1 ahead)),
       gp_air_date = air_date,
       gp_seed = rng_seed (ci_name (fv_channel env)) (case ahead of [] \<Rightarrow> None | item # _ \<Rightarrow> Some (ri_id item)) air_date\<rparr>)"

definition fill_gap ::
  "fill_env \<Rightarrow> fill_plan \<Rightarrow> instant \<Rightarrow> resolved_item option \<Rightarrow> resolved_item list \<Rightarrow> nat \<Rightarrow> pass_state \<Rightarrow>
     (fill_piece list \<times> pass_state) result" where
  "fill_gap env plan t before ahead block st =
     bind_res (boundary_at_or_after t (fp_every plan) (fv_tz env)) (\<lambda>boundary.
       if boundary \<le> t \<or> int (fp_every plan) - 1000000 < boundary - t then Inr ([], st)
       else bind_res (fill_loop env (gap_at env plan t before ahead block boundary) t 0 st) (\<lambda>(pcs, st').
         Inr (land_on env t boundary pcs, st')))"

section \<open>A generation\<close>

record laid_items =
  la_items :: "resolved_item list"
  la_durations :: "duration list"
  la_progress :: "progress list"
  la_bumper_records :: "play_record list"

definition plan_for :: "fill_env \<Rightarrow> resolved_item \<Rightarrow> fill_plan option" where
  "plan_for env item = (if ri_block item < length (fv_plans env) then fv_plans env ! ri_block item else None)"

text \<open>The pieces after each of these rows, the first of which begins at \<open>t\<close>.\<close>

fun gaps_after ::
  "fill_env \<Rightarrow> resolved_item list \<Rightarrow> instant \<Rightarrow> pass_state \<Rightarrow> (nat \<times> resolved_item \<times> duration) list \<Rightarrow>
     (fill_piece list list \<times> pass_state) result" where
  "gaps_after env items t st [] = Inr ([], st)"
| "gaps_after env items t st ((i, item, d) # rows) =
     (let t' = t + length_ns env d in
      bind_res (case plan_for env item of
                  None \<Rightarrow> Inr ([], st)
                | Some plan \<Rightarrow> fill_gap env plan t' (Some item) (drop (Suc i) items) (ri_block item) st) (\<lambda>(pcs, st').
      bind_res (gaps_after env items (advance_pieces env t' pcs) st' rows) (\<lambda>(more_ps, st'').
        Inr (pcs # more_ps, st''))))"

definition lead_gap :: "fill_env \<Rightarrow> laid_items \<Rightarrow> nat \<Rightarrow> instant \<Rightarrow> bool \<Rightarrow> (fill_piece list \<times> pass_state) result" where
  "lead_gap env l skip start fill_leading =
     (let st = \<lparr>ps_records = [], ps_used = (\<lambda>_. {})\<rparr>; head = la_items l ! skip in
      case (if fill_leading then plan_for env head else None) of
        None \<Rightarrow> Inr ([], st)
      | Some plan \<Rightarrow> fill_gap env plan start None (drop skip (la_items l)) (ri_block head) st)"

type_synonym row = "resolved_item \<times> duration \<times> progress"

definition piece_rows :: "fill_piece list \<Rightarrow> progress \<Rightarrow> row list" where
  "piece_rows pcs state = map (\<lambda>p. (pc_item p, pc_duration p, state)) pcs"

text \<open>The rows from row \<open>i\<close> on, each followed by its pieces, and \<open>lead\<close> before row \<open>skip\<close>.\<close>

fun weave ::
  "(nat \<Rightarrow> fill_piece list) \<Rightarrow> nat \<Rightarrow> fill_piece list \<Rightarrow> progress list \<Rightarrow> progress \<Rightarrow> nat \<Rightarrow> row list \<Rightarrow> row list" where
  "weave after skip lead states end_progress i [] = []"
| "weave after skip lead states end_progress i ((item, d, state) # rows) =
     (if i = skip then piece_rows lead state else []) @ (item, d, state) #
     piece_rows (after i) (if Suc i < length states then states ! Suc i else end_progress) @
     weave after skip lead states end_progress (Suc i) rows"

definition fill_gaps :: "fill_env \<Rightarrow> laid_items \<Rightarrow> nat \<Rightarrow> instant \<Rightarrow> bool \<Rightarrow> progress \<Rightarrow> laid_items result" where
  "fill_gaps env l skip start fill_leading end_progress =
     (if list_all (\<lambda>p. p = None) (fv_plans env) \<or> length (la_items l) \<le> skip then Inr l
      else bind_res (lead_gap env l skip start fill_leading) (\<lambda>(lead, st).
        bind_res (gaps_after env (la_items l) (advance_pieces env start lead) st
                   (drop skip (List.enumerate 0 (zip (la_items l) (la_durations l))))) (\<lambda>(pss, st').
          let after = (\<lambda>i. if skip \<le> i \<and> i - skip < length pss then pss ! (i - skip) else []);
              rows = weave after skip lead (la_progress l) end_progress 0
                       (zip (la_items l) (zip (la_durations l) (la_progress l)))
          in Inr \<lparr>la_items = map fst rows, la_durations = map (fst \<circ> snd) rows, la_progress = map (snd \<circ> snd) rows,
                  la_bumper_records = ps_records st'\<rparr>)))"

end
