(* ===== verification/Seconds.thy ===== *)
theory Seconds
  imports Float64 Playout
begin

text \<open>
  A length in seconds and back. The code turns a whole number of nanoseconds into seconds as a
  binary64 and \<open>time::Duration::seconds_f64\<close> turns it back; rounding to the nearest nanosecond makes
  that exact for every length below \<open>2^52\<close> nanoseconds, some 52 days.
\<close>

lemma f64_round_close:
  assumes "0 \<le> x" "x < two_pow k" "- 1021 \<le> k"
  shows "\<bar>f64_round x - x\<bar> \<le> two_pow (k - 54)"
proof (cases "x = 0")
  case False
  let ?q = "quantum_of x"
  have "two_pow (f64_exponent x) < two_pow k" using f64_exponent_spec[OF False] assms(1,2) by simp
  then have "f64_exponent x < k" by (simp add: two_pow_less)
  then have "?q \<le> two_pow (k - 53)" using assms(3) unfolding quantum_of_def by (intro two_pow_mono) simp
  then have q: "?q * (1 / 2) \<le> two_pow (k - 54)" using two_pow_add[of "k - 54" 1] two_pow_nat[of 1] by simp
  have "f64_round x - x = ?q * (of_int (round_half_even (x / ?q)) - x / ?q)"
    using less_imp_neq[OF quantum_pos[of x]] by (simp add: f64_round_quantum[OF False] right_diff_distrib)
  then have "\<bar>f64_round x - x\<bar> = ?q * \<bar>of_int (round_half_even (x / ?q)) - x / ?q\<bar>"
    using abs_of_pos[OF quantum_pos[of x]] by (simp only: abs_mult)
  also have "\<dots> \<le> ?q * (1 / 2)" using round_half_even_close[of "x / ?q"] by (intro mult_left_mono) (simp_all add: less_imp_le[OF quantum_pos[of x]])
  finally show ?thesis using q by simp
qed (simp add: less_imp_le)

definition seconds_nearest :: "f64 \<Rightarrow> int" where
  "seconds_nearest x = round_away (x * 10 ^ 9)"

lemma round_away_near:
  assumes "0 \<le> x" "\<bar>x - of_nat n\<bar> < 1 / 2"
  shows "round_away x = int n"
proof -
  have "of_nat n - 1 / 2 < x" "x < of_nat n + 1 / 2" using assms(2) by linarith+
  then have "\<lfloor>x + 1 / 2\<rfloor> = int n" by (intro floor_unique) simp_all
  then show ?thesis using assms(1) by (simp add: round_away_def)
qed

lemma as_secs_f64_close:
  assumes "d < 2 ^ 52"
  shows "\<bar>as_secs_f64 d * 10 ^ 9 - of_nat d\<bar> < 1 / 2"
proof -
  let ?s = "d div 10 ^ 9" and ?n = "of_nat (d mod 10 ^ 9) / 10 ^ 9 :: rat" and ?x = "of_nat (d div 10 ^ 9) + f64_round (of_nat (d mod 10 ^ 9) / 10 ^ 9) :: rat"
  have s: "?s < 2 ^ 23 - 1" using assms by (simp add: div_less_iff_less_mult)
  then have rs: "f64_round (of_nat ?s) = of_nat ?s" by (intro f64_round_nat) simp
  have n: "0 \<le> ?n" "?n < two_pow 0"
  proof -
    have "d mod 10 ^ 9 < 10 ^ 9" by simp
    then have "(of_nat (d mod 10 ^ 9) :: rat) < of_nat (10 ^ 9)" by (simp only: of_nat_less_iff)
    then show "?n < two_pow 0" by (simp add: two_pow_def)
  qed simp
  have cn: "\<bar>f64_round ?n - ?n\<bar> \<le> two_pow (- 54)" using f64_round_close[OF n] by simp
  have fn: "0 \<le> f64_round ?n" using n(1) by (rule f64_round_nonneg)
  have "f64_round ?n \<le> f64_round (of_nat 1)" using n by (intro f64_round_mono) (simp_all add: two_pow_def)
  then have fn': "f64_round ?n \<le> 1" using f64_round_nat[of 1] by simp
  have "(of_nat ?s :: rat) \<le> of_nat (2 ^ 23 - 2)" using s by (simp only: of_nat_le_iff)
  then have x: "0 \<le> ?x" "?x < two_pow 23" using fn fn' by (simp_all add: two_pow_def)
  have cx: "\<bar>f64_round ?x - ?x\<bar> \<le> two_pow (- 31)" using f64_round_close[OF x] by simp
  have split: "(of_nat d :: rat) = of_nat ?s * 10 ^ 9 + ?n * 10 ^ 9"
  proof -
    have "(of_nat d :: rat) = of_nat (?s * 10 ^ 9) + of_nat (d mod 10 ^ 9)" by (metis div_mult_mod_eq of_nat_add)
    moreover have "(of_nat (?s * 10 ^ 9) :: rat) = of_nat ?s * 10 ^ 9" by simp
    moreover have "?n * 10 ^ 9 = of_nat (d mod 10 ^ 9)" by simp
    ultimately show ?thesis by (simp only:)
  qed
  have "as_secs_f64 d = f64_round ?x" by (simp only: as_secs_f64_def f64_add_def rs)
  then have "as_secs_f64 d * 10 ^ 9 - of_nat d = (f64_round ?x - ?x) * 10 ^ 9 + (f64_round ?n - ?n) * 10 ^ 9"
    unfolding split by (simp add: algebra_simps)
  then have "\<bar>as_secs_f64 d * 10 ^ 9 - of_nat d\<bar> \<le> two_pow (- 31) * 10 ^ 9 + two_pow (- 54) * 10 ^ 9"
    using cx cn by (simp add: abs_le_iff)
  also have "\<dots> < 1 / 2" by (simp add: two_pow_def)
  finally show ?thesis .
qed

lemma seconds_nearest_exact: "d < 2 ^ 52 \<Longrightarrow> seconds_nearest (as_secs_f64 d) = int d"
  unfolding seconds_nearest_def
  using as_secs_f64_close[of d] by (intro round_away_near) (simp_all add: as_secs_f64_def f64_add_def f64_round_nonneg)

end
