(* ===== verification/GapFillFacts.thy ===== *)
theory GapFillFacts
  imports GapFill Seconds
begin

text \<open>
  What filling a gap guarantees: it ends on the grid line, the pool items it airs fit, and the pass
  over a generation inserts rows without touching the programmes. The conversion of a length to
  seconds and back is assumed exact for lengths below \<open>2^52\<close> nanoseconds, as rounding to the nearest
  nanosecond makes it.
\<close>

definition exact_seconds :: "(f64 \<Rightarrow> int) \<Rightarrow> bool" where
  "exact_seconds seconds_f64 \<longleftrightarrow> (\<forall>d < 2 ^ 52. seconds_f64 (as_secs_f64 d) = int d)"

lemma exact_nearest: "exact_seconds seconds_nearest"
  by (simp add: exact_seconds_def seconds_nearest_exact)

section \<open>The grid\<close>

lemma next_line:
  fixes x s :: int
  assumes "0 < s" "0 \<le> x"
  shows "x \<le> (x + s - 1) div s * s \<and> (x + s - 1) div s * s < x + s"
proof -
  have "(x + s - 1) div s * s = x + s - 1 - (x + s - 1) mod s" by (simp add: minus_mod_eq_div_mult)
  moreover have "0 \<le> (x + s - 1) mod s" "(x + s - 1) mod s < s" using assms(1) by simp_all
  ultimately show ?thesis by linarith
qed

text \<open>
  The boundary is the first line at or after the instant, counting whole steps from the local
  midnight: no line lies between the two.
\<close>

theorem boundary_is_the_next_line:
  assumes "boundary_at_or_after t every tz = Inr b" "0 < every" "local_midnight_at_or_before t tz = Inr m" "m \<le> t"
  shows "\<exists>k. b = m + k * int every \<and> t \<le> b \<and> (\<forall>j. t \<le> m + j * int every \<longrightarrow> b \<le> m + j * int every)"
proof -
  define k where "k = (t - m + int every - 1) div int every"
  have "0 \<le> t - m + int every - 1" using assms(2,4) by simp
  then have b: "b = m + k * int every"
    using assms(1-3) by (auto simp: boundary_at_or_after_def Let_def k_def max_def mult.commute split: if_splits)
  have k: "t - m \<le> k * int every" "k * int every < t - m + int every"
    using next_line[of "int every" "t - m"] assms(2,4) by (simp_all add: k_def)
  have "k \<le> j" if "t \<le> m + j * int every" for j
  proof (rule ccontr)
    assume "\<not> k \<le> j"
    then have "(j + 1) * int every \<le> k * int every" by (intro mult_right_mono) simp_all
    then show False using that k(2) by (simp add: distrib_right)
  qed
  then show ?thesis using b k(1) by (auto intro!: exI[of _ k] mult_right_mono)
qed

section \<open>Lengths\<close>

definition pieces_ns :: "fill_piece list \<Rightarrow> nat" where
  "pieces_ns pcs = sum_list (map pc_duration pcs)"

lemma pieces_ns_simps [simp]:
  "pieces_ns [] = 0" "pieces_ns (p # pcs) = pc_duration p + pieces_ns pcs" "pieces_ns (pcs @ qs) = pieces_ns pcs + pieces_ns qs"
  by (simp_all add: pieces_ns_def)

lemma pieces_ns_butlast: "pcs \<noteq> [] \<Longrightarrow> pieces_ns pcs = pieces_ns (butlast pcs) + pc_duration (last pcs)"
  by (induction pcs) auto

lemma piece_le_sum: "p \<in> set pcs \<Longrightarrow> pc_duration p \<le> pieces_ns pcs"
  unfolding pieces_ns_def by (induction pcs) auto

lemma advance_Cons: "advance_pieces env t (p # pcs) = advance_pieces env (t + length_ns env (pc_duration p)) pcs"
  by (simp add: advance_pieces_def)

lemma advance_exact:
  assumes "exact_seconds (fv_seconds_f64 env)" "pieces_ns pcs < 2 ^ 52"
  shows "advance_pieces env t pcs = t + int (pieces_ns pcs)"
  using assms(2)
proof (induction pcs arbitrary: t)
  case Nil
  then show ?case by (simp add: advance_pieces_def)
next
  case (Cons p pcs)
  then have "length_ns env (pc_duration p) = int (pc_duration p)" using assms(1) by (simp add: exact_seconds_def length_ns_def)
  then show ?case using Cons by (simp add: advance_Cons)
qed

lemma round_ms_bounds:
  assumes "0 < ns"
  shows "ms_of (round_ms ns) \<le> ns + 500000" "round_ms ns = 0 \<longleftrightarrow> ns < 500000"
proof -
  have "(nat ns + 500000) div 1000000 * 1000000 \<le> nat ns + 500000" by (rule div_times_less_eq_dividend)
  then have "int ((nat ns + 500000) div 1000000 * 1000000) \<le> int (nat ns + 500000)" by (simp only: of_nat_le_iff)
  then show "ms_of (round_ms ns) \<le> ns + 500000" using assms by (simp add: ms_of_def round_ms_def)
  have "round_ms ns = 0 \<longleftrightarrow> nat ns + 500000 < 1000000" using assms by (simp add: round_ms_def div_eq_0_iff)
  then show "round_ms ns = 0 \<longleftrightarrow> ns < 500000" using assms by linarith
qed

section \<open>Landing\<close>

lemma land_rounds_lands:
  assumes exact: "exact_seconds (fv_seconds_f64 env)" and ne: "pcs \<noteq> []"
    and small: "pieces_ns pcs < 2 ^ 52" "boundary - t < 2 ^ 52" and room: "int (pieces_ns (butlast pcs)) \<le> boundary - t"
  shows "advance_pieces env t (land_rounds (Suc (Suc n)) env t boundary pcs) = boundary"
proof (cases "boundary = advance_pieces env t pcs")
  case False
  let ?q = "(last pcs)\<lparr>pc_duration := nat (max 0 (int (pc_duration (last pcs)) + (boundary - advance_pieces env t pcs)))\<rparr>"
  have adv: "advance_pieces env t pcs = t + int (pieces_ns pcs)" using exact small(1) by (rule advance_exact)
  have len: "int (pieces_ns (butlast pcs @ [?q])) = boundary - t" using adv pieces_ns_butlast[OF ne] room by simp
  then have "int (pieces_ns (butlast pcs @ [?q])) < int (2 ^ 52)" using small(2) by simp
  then have "pieces_ns (butlast pcs @ [?q]) < 2 ^ 52" by (simp only: of_nat_less_iff)
  then have "advance_pieces env t (butlast pcs @ [?q]) = boundary" using advance_exact[OF exact] len by simp
  then show ?thesis using False ne by (simp add: Let_def)
qed simp

lemma land_rounds_Nil [simp]: "land_rounds n env t boundary pcs = [] \<longleftrightarrow> pcs = []"
  by (induction n env t boundary pcs rule: land_rounds.induct) (auto simp: Let_def)

section \<open>Pools\<close>

text \<open>An item fits a gap when it lasts and leaves the least fill.\<close>

definition fits_gap :: "fill_env \<Rightarrow> duration \<Rightarrow> int \<Rightarrow> duration \<Rightarrow> bool" where
  "fits_gap env min_fill left d \<longleftrightarrow> 0 < length_ns env d \<and> length_ns env d + int min_fill \<le> left"

definition picked_ns :: "fill_env \<Rightarrow> (resolved_item \<times> duration) list \<Rightarrow> nat list \<Rightarrow> int" where
  "picked_ns env items picks = sum_list (map (\<lambda>i. length_ns env (snd (items ! i))) picks)"

lemma scan_pool_spec:
  assumes "scan_pool env min_fill skip left i (drop i items) = picks" "i \<le> length items"
  shows "sorted_wrt (<) picks \<and> set picks \<subseteq> {i..<length items} - skip \<and>
    (\<forall>k\<in>set picks. 0 < length_ns env (snd (items ! k))) \<and>
    (picks \<noteq> [] \<longrightarrow> picked_ns env items picks + int min_fill \<le> left) \<and>
    (\<forall>k\<in>{i..<length items} - skip. fits_gap env min_fill left (snd (items ! k)) \<longrightarrow> picks \<noteq> [])"
  using assms
proof (induction "length items - i" arbitrary: i left picks)
  case 0
  then show ?case by simp
next
  case (Suc n)
  then have i: "i < length items" by simp
  obtain x d where xd: "items ! i = (x, d)" by fastforce
  have dr: "drop i items = (x, d) # drop (Suc i) items" using Cons_nth_drop_Suc[OF i] xd by simp
  have range: "{i..<length items} = insert i {Suc i..<length items}" using i by auto
  show ?case
  proof (cases "i \<notin> skip \<and> fits_gap env min_fill left d")
    case True
    then obtain rest where p: "picks = i # rest" "scan_pool env min_fill skip (left - length_ns env d) (Suc i) (drop (Suc i) items) = rest"
      using Suc.prems(1) by (auto simp: dr fits_gap_def Let_def)
    have "sorted_wrt (<) rest" "set rest \<subseteq> {Suc i..<length items} - skip" "\<forall>k\<in>set rest. 0 < length_ns env (snd (items ! k))"
      "rest \<noteq> [] \<longrightarrow> picked_ns env items rest + int min_fill \<le> left - length_ns env d"
      using Suc.hyps(1)[OF _ p(2)] Suc.hyps(2) i by auto
    moreover have "rest = [] \<longrightarrow> picked_ns env items rest = 0" by (simp add: picked_ns_def)
    ultimately show ?thesis using True xd i by (auto simp: p(1) picked_ns_def fits_gap_def)
  next
    case False
    then have p: "scan_pool env min_fill skip left (Suc i) (drop (Suc i) items) = picks"
      using Suc.prems(1) by (auto simp: dr fits_gap_def Let_def)
    have "sorted_wrt (<) picks \<and> set picks \<subseteq> {Suc i..<length items} - skip \<and>
      (\<forall>k\<in>set picks. 0 < length_ns env (snd (items ! k))) \<and> (picks \<noteq> [] \<longrightarrow> picked_ns env items picks + int min_fill \<le> left) \<and>
      (\<forall>k\<in>{Suc i..<length items} - skip. fits_gap env min_fill left (snd (items ! k)) \<longrightarrow> picks \<noteq> [])"
      using Suc.hyps(2) i by (intro Suc.hyps(1)[OF _ p]) simp_all
    then show ?thesis using False xd unfolding range by auto
  qed
qed

lemmas scan_from_start = scan_pool_spec[where i = 0, unfolded drop_0, OF _ le0]

text \<open>
  Claim C39. The items a pool airs in a gap are taken in the pool's order, each lasts, and together they
  leave the least fill. None has aired before in the pass, unless the pool starts over, which it does
  only when no unaired item fits; and nothing airs only when no item of the pool fits.
\<close>

theorem pool_picks_fit_the_gap:
  assumes "fv_pools env (block, name) = Some items" "pool_picks env plan block name remaining used = (picks, wrapped)"
  shows "sorted_wrt (<) picks \<and> (\<forall>k\<in>set picks. k < length items \<and> 0 < length_ns env (snd (items ! k))) \<and>
    (picks \<noteq> [] \<longrightarrow> picked_ns env items picks + int (fp_min_fill plan) \<le> remaining) \<and>
    (if wrapped then \<forall>k < length items. k \<notin> used (block, name) \<longrightarrow> \<not> fits_gap env (fp_min_fill plan) remaining (snd (items ! k))
     else set picks \<inter> used (block, name) = {}) \<and>
    (picks = [] \<longrightarrow> (\<forall>k < length items. \<not> fits_gap env (fp_min_fill plan) remaining (snd (items ! k))))"
proof -
  let ?fresh = "scan_pool env (fp_min_fill plan) (used (block, name)) remaining 0 items"
  let ?all = "scan_pool env (fp_min_fill plan) {} remaining 0 items"
  note f = scan_from_start[of env "fp_min_fill plan" "used (block, name)" remaining items ?fresh]
    and a = scan_from_start[of env "fp_min_fill plan" "{}" remaining items ?all]
  show ?thesis
  proof (cases "?fresh \<noteq> [] \<or> used (block, name) = {}")
    case True
    then have p: "picks = ?fresh" "wrapped = False" using assms by (auto simp: pool_picks_def Let_def)
    show ?thesis unfolding p using f True by fastforce
  next
    case False
    then have p: "picks = ?all" "wrapped = True" using assms by (auto simp: pool_picks_def Let_def)
    show ?thesis unfolding p using f a False by fastforce
  qed
qed

section \<open>The order of the entries\<close>

lemma mset_weighted_from [simp]: "mset (weighted_from seed n left) = mset left"
proof (induction seed n left rule: weighted_from.induct)
  case (1 seed n left)
  show ?case
  proof (cases "left = []")
    case False
    let ?i = "next_weighted left (mix_seed seed (of_nat n))"
    have "mset (weighted_from seed n left) = add_mset (left ! ?i) (mset (weighted_from seed (Suc n) (remove_at ?i left)))"
      using False by (subst weighted_from.simps) (simp add: Let_def)
    then show ?thesis using 1[OF False refl] mset_remove_at[OF next_weighted_less[OF False]] by simp
  qed (simp add: weighted_from.simps)
qed

lemma mset_weighted_order [simp]: "mset (weighted_order es seed) = mset es"
  by (simp add: weighted_order_def)

lemma set_weighted_order [simp]: "set (weighted_order es seed) = set es"
  by (metis mset_weighted_order set_mset_mset)

lemma weighted_order_Nil [simp]: "weighted_order es seed = [] \<longleftrightarrow> es = []"
  by (metis mset_weighted_order mset_zero_iff)

lemma choose_drawn_in:
  "choose_drawn draw_it good chosen cs = Some d \<Longrightarrow> chosen = Some d \<or> (\<exists>c\<in>set cs. draw_it c = Some d)"
  by (induction draw_it good chosen cs rule: choose_drawn.induct) (auto split: option.splits if_splits)

lemma choose_drawn_None:
  "choose_drawn draw_it good chosen cs = None \<longleftrightarrow> chosen = None \<and> (\<forall>c\<in>set cs. draw_it c = None)"
  by (induction draw_it good chosen cs rule: choose_drawn.induct) (auto split: option.splits)

section \<open>What a bumper adds\<close>

lemma follow_ns: "follow t items e \<Longrightarrow> t \<le> e \<and> int (pieces_ns (map (piece_from env block) items)) = e - t"
proof (induction t items e rule: follow.induct)
  case (2 t i items e)
  have "pc_duration (piece_from env block i) = nat (max 0 (pi_finish i - pi_start i))"
    by (simp add: piece_from_def Let_def split: prod.split)
  then show ?case using 2 by auto
qed simp

lemma follow_pos: "follow t items e \<Longrightarrow> i \<in> set items \<Longrightarrow> pi_start i < pi_finish i"
  by (induction t items e rule: follow.induct) auto

definition whole_ms :: "playout_item \<Rightarrow> bool" where
  "whole_ms item \<longleftrightarrow> (\<exists>k. pi_finish item = pi_start item + ms_of k)"

lemma whole_ms_scheduled [simp]: "whole_ms (scheduled i t (t + ms_of k) s)"
  by (auto simp: whole_ms_def scheduled_def)

lemma whole_ms_pad: "m \<le> n \<Longrightarrow> whole_ms (scheduled i (t + ms_of m) (t + ms_of n) s)"
  by (auto simp: whole_ms_def scheduled_def ms_of_def intro!: exI[of _ "n - m"])

lemma padded_whole: "item \<in> set (local_padded ctx i path in_ms t d) \<Longrightarrow> whole_ms item"
  by (auto simp: local_padded_def Let_def whole_ms_pad split: option.splits if_splits)

lemma loop_whole: "item \<in> set (loop_items b path in_ms n t parts) \<Longrightarrow> whole_ms item"
  by (induction b path in_ms n t parts rule: loop_items.induct) auto

lemma source_whole: "item \<in> set (source_items ctx rt b t seg) \<Longrightarrow> whole_ms item"
  by (auto simp: source_items_def local_span_def Let_def dest: padded_whole loop_whole split: segment_source.splits if_splits)

lemma emitted_whole:
  assumes "item \<in> set (emit_timeline ctx rt start)"
  shows "whole_ms item"
proof -
  obtain k seg where seg: "item \<in> set (segment_items ctx rt start (k, seg))" using assms by (auto simp: emit_timeline_def)
  let ?items = "source_items ctx rt (bumper_id (ec_channel ctx) start (dec k)) (start + ms_of (rg_start_ms seg)) seg"
  obtain n it where it: "(n, it) \<in> set (List.enumerate 0 ?items)" "item = dress_item ctx rt seg (length ?items) (n, it)"
    using seg by (auto simp: segment_items_def Let_def)
  have "it \<in> set ?items" using it(1) by (auto simp: enumerate_eq_zip dest: set_zip_rightD)
  then have "whole_ms it" by (rule source_whole)
  then show ?thesis by (simp add: it(2) whole_ms_def dress_keeps)
qed

lemma bumper_pieces:
  fixes env ctx start block
  assumes "fit line gap fps = Inr rt"
  defines "pcs \<equiv> map (piece_from env block) (emit_timeline ctx rt start)"
  shows "pcs \<noteq> [] \<and> int (pieces_ns pcs) = ms_of gap \<and> 1000000 \<le> pc_duration (last pcs) \<and> 0 < gap"
proof -
  have gap: "0 < gap" using assms(1) by (auto simp: fit_def split: if_splits)
  have f: "follow start (emit_timeline ctx rt start) (start + ms_of gap)"
    using follow_segments[of 0 "rt_segments rt" gap start ctx rt 0] fit_consecutive[OF assms(1)]
    by (simp add: emit_timeline_def ms_of_def)
  have ne: "emit_timeline ctx rt start \<noteq> []" using f gap by (auto simp: ms_of_def)
  let ?l = "last (emit_timeline ctx rt start)"
  have mem: "?l \<in> set (emit_timeline ctx rt start)" using ne by simp
  obtain k where "pi_finish ?l = pi_start ?l + ms_of k" using emitted_whole[OF mem] by (auto simp: whole_ms_def)
  moreover have "pi_start ?l < pi_finish ?l" using follow_pos[OF f mem] .
  ultimately have "1000000 \<le> pc_duration (piece_from env block ?l)"
    by (auto simp: piece_from_def Let_def ms_of_def split: prod.split)
  then show ?thesis using follow_ns[OF f] ne gap by (simp add: pcs_def last_map)
qed

section \<open>One draw\<close>

definition short_pools :: "fill_env \<Rightarrow> bool" where
  "short_pools env \<longleftrightarrow> (\<forall>key items. fv_pools env key = Some items \<longrightarrow> (\<forall>(_, d)\<in>set items. d < 2 ^ 52))"

text \<open>What pieces add in a gap that has \<open>remaining\<close> left: something, and no more than rounding past its end.\<close>

definition piece_room :: "int \<Rightarrow> fill_piece list \<Rightarrow> bool" where
  "piece_room remaining pcs \<longleftrightarrow>
     pcs \<noteq> [] \<and> 0 < pieces_ns pcs \<and> int (pieces_ns pcs) \<le> remaining + 500000 \<and> int (pieces_ns (butlast pcs)) \<le> remaining"

lemma pool_pieces:
  assumes pool: "fv_pools env (block, name) = Some items" and ne: "fst (pool_picks env plan block name remaining used) \<noteq> []"
    and exact: "exact_seconds (fv_seconds_f64 env)" "short_pools env"
  shows "piece_room remaining (map (\<lambda>i. \<lparr>pc_item = fst (items ! i), pc_duration = snd (items ! i)\<rparr>)
           (fst (pool_picks env plan block name remaining used)))"
proof -
  let ?picks = "fst (pool_picks env plan block name remaining used)"
  let ?pcs = "map (\<lambda>i. \<lparr>pc_item = fst (items ! i), pc_duration = snd (items ! i)\<rparr>) ?picks"
  define aired where "aired = used (block, name)"
  define fresh where "fresh = scan_pool env (fp_min_fill plan) aired remaining 0 items"
  have "?picks = (if fresh \<noteq> [] \<or> aired = {} then fresh else scan_pool env (fp_min_fill plan) {} remaining 0 items)"
    using pool by (simp add: pool_picks_def Let_def fresh_def aired_def)
  then obtain skip where skip: "scan_pool env (fp_min_fill plan) skip remaining 0 items = ?picks"
    unfolding fresh_def by metis
  note spec = scan_from_start[OF skip]
  have len: "length_ns env (snd (items ! i)) = int (snd (items ! i))" if "i \<in> set ?picks" for i
  proof -
    have "items ! i \<in> set items" using spec that by (auto intro!: nth_mem)
    then show ?thesis using exact pool by (force simp: exact_seconds_def short_pools_def length_ns_def)
  qed
  have ints: "sum_list (map (\<lambda>i. int (snd (items ! i))) ks) = int (sum_list (map (\<lambda>i. snd (items ! i)) ks))" for ks
    by (induction ks) simp_all
  have "map (\<lambda>i. length_ns env (snd (items ! i))) ?picks = map (\<lambda>i. int (snd (items ! i))) ?picks" using len by simp
  then have "picked_ns env items ?picks = int (pieces_ns ?pcs)" unfolding picked_ns_def pieces_ns_def by (simp only: ints) (simp add: comp_def)
  then have "int (pieces_ns ?pcs) + int (fp_min_fill plan) \<le> remaining" using spec ne by simp
  moreover have "pieces_ns (butlast ?pcs) \<le> pieces_ns ?pcs" using ne pieces_ns_butlast[of ?pcs] by simp
  moreover have "0 < pc_duration (last ?pcs)"
  proof -
    have l: "last ?picks \<in> set ?picks" using ne by simp
    then have "0 < length_ns env (snd (items ! last ?picks))" using spec by blast
    then show ?thesis using ne len[OF l] by (simp add: last_map)
  qed
  ultimately show ?thesis using ne pieces_ns_butlast[of ?pcs] by (simp add: piece_room_def)
qed

lemma draw_ms_le: "draw_ms last_draw n e \<le> n"
  by (simp add: draw_ms_def)

lemma script_pieces:
  assumes "draw_script env g order last_draw remaining draw pass = Some d" "dn_resolved d = Some rt" "0 < remaining"
  shows "piece_room remaining (map (piece_from env block) (emit_timeline ctx rt cursor))"
proof -
  let ?pcs = "map (piece_from env block) (emit_timeline ctx rt cursor)"
  obtain c where "script_draw env g last_draw remaining draw pass c = Some d"
    using choose_drawn_in[OF assms(1)[unfolded draw_script_def]] by blast
  then obtain script granted config where c: "d = draw_one env g script granted config (draw_ms last_draw (round_ms remaining) c) draw pass"
    by (cases "cd_source c") (simp_all add: script_draw_def, metis)
  define n where "n = draw_ms last_draw (round_ms remaining) c"
  obtain line where "fit line n (Finite fill_fps) = Inr rt"
    using assms(2) by (auto simp: c n_def draw_one_def Let_def split: prod.splits sum.splits)
  note b = bumper_pieces[OF this, of env block ctx cursor]
  have "ms_of n \<le> ms_of (round_ms remaining)" using draw_ms_le by (simp add: n_def ms_of_def)
  then have le: "ms_of n \<le> remaining + 500000" using round_ms_bounds(1)[OF assms(3)] by linarith
  have "int (pieces_ns ?pcs) = int (pieces_ns (butlast ?pcs)) + int (pc_duration (last ?pcs))" using b pieces_ns_butlast by simp
  then show ?thesis using b le by (simp add: piece_room_def)
qed

lemma draw_order_admits:
  assumes "draw_order g (admitted_entries env g remaining st) remaining draw = (order, last_draw)"
  shows "\<forall>c\<in>set order. admits_gap env g remaining st c" "order = [] \<longleftrightarrow> admitted_entries env g remaining st = []"
proof -
  let ?adm = "admitted_entries env g remaining st" let ?cov = "filter (covers_gap (round_ms remaining)) ?adm"
  have order: "order = weighted_order (if ?cov \<noteq> [] then ?cov else ?adm) (mix_seed (gp_seed g) (of_nat draw))"
    using assms by (auto simp: draw_order_def Let_def)
  show "\<forall>c\<in>set order. admits_gap env g remaining st c" unfolding order by (auto simp: admitted_entries_def)
  have "order = [] \<longleftrightarrow> (if ?cov \<noteq> [] then ?cov else ?adm) = []" unfolding order by (rule weighted_order_Nil)
  then show "order = [] \<longleftrightarrow> ?adm = []" by (cases "?cov = []") auto
qed

lemma fill_draw_room:
  assumes "fill_draw env g cursor draw st = Inr (Aired pcs, st')" "cursor < gp_boundary g"
    and exact: "exact_seconds (fv_seconds_f64 env)" "short_pools env"
  shows "piece_room (gp_boundary g - cursor) pcs"
proof -
  let ?rem = "gp_boundary g - cursor"
  obtain order last_draw where o: "draw_order g (admitted_entries env g ?rem st) ?rem draw = (order, last_draw)" by fastforce
  note adm = draw_order_admits[OF o]
  show ?thesis
  proof (cases "\<exists>c cs name. order = c # cs \<and> cd_source c = PoolSource name")
    case True
    then obtain c cs name where c: "order = c # cs" "cd_source c = PoolSource name" by blast
    obtain st2 where t: "take_pool_items env (gp_plan g) (gp_block g) name ?rem st = Inr (pcs, st2)"
      using assms(1) c adm(2) by (auto simp: fill_draw_def Let_def o bind_res_Inr_iff)
    have "fst (pool_picks env (gp_plan g) (gp_block g) name ?rem (ps_used st)) \<noteq> []"
      using adm(1) c by (simp add: admits_gap_def)
    moreover obtain items where "fv_pools env (gp_block g, name) = Some items"
        "pcs = map (\<lambda>i. \<lparr>pc_item = fst (items ! i), pc_duration = snd (items ! i)\<rparr>)
                 (fst (pool_picks env (gp_plan g) (gp_block g) name ?rem (ps_used st)))"
      using t by (auto simp: take_pool_items_def Let_def split: prod.splits option.splits)
    ultimately show ?thesis using pool_pieces exact by blast
  next
    case False
    then have "air_drawn env g cursor draw st (draw_script env g order last_draw ?rem draw (ps_records st)) = Inr (Aired pcs, st')"
      using assms(1) by (auto simp: fill_draw_def Let_def o split: if_splits list.splits candidate_source.splits)
    then show ?thesis using assms(2) script_pieces by (auto simp: air_drawn_def split: option.splits)
  qed
qed

lemma fill_draw_returns: "\<exists>r. fill_draw env g cursor draw st = Inr r"
proof -
  let ?rem = "gp_boundary g - cursor"
  obtain order last_draw where o: "draw_order g (admitted_entries env g ?rem st) ?rem draw = (order, last_draw)" by fastforce
  note adm = draw_order_admits[OF o]
  show ?thesis
  proof (cases order)
    case Nil
    then show ?thesis using adm(2) by (simp add: fill_draw_def Let_def o)
  next
    case (Cons c cs)
    show ?thesis
    proof (cases "cd_source c")
      case (ScriptSource script granted config)
      have "draw_script env g order last_draw ?rem draw (ps_records st) \<noteq> None"
        using ScriptSource unfolding Cons draw_script_def choose_drawn_None by (simp add: script_draw_def)
      then have "\<exists>r. air_drawn env g cursor draw st (draw_script env g order last_draw ?rem draw (ps_records st)) = Inr r"
        by (auto simp: air_drawn_def split: option.splits)
      then show ?thesis using Cons ScriptSource by (simp add: fill_draw_def Let_def o)
    next
      case (PoolSource name)
      have "fst (pool_picks env (gp_plan g) (gp_block g) name ?rem (ps_used st)) \<noteq> []"
        using adm(1) Cons PoolSource by (simp add: admits_gap_def)
      then have "\<exists>r. take_pool_items env (gp_plan g) (gp_block g) name ?rem st = Inr r"
        by (auto simp: take_pool_items_def pool_picks_def Let_def split: option.splits)
      then show ?thesis using Cons PoolSource by (auto simp: fill_draw_def Let_def o)
    qed
  qed
qed

section \<open>A gap\<close>

lemma fill_loop_returns: "\<exists>r. fill_loop env g cursor draw st = Inr r"
proof (induction env g cursor draw st rule: fill_loop.induct)
  case (1 env g cursor draw st)
  obtain outcome st' where d: "fill_draw env g cursor draw st = Inr (outcome, st')" using fill_draw_returns by fastforce
  show ?case
  proof (cases outcome)
    case (Aired ps)
    show ?thesis
    proof (cases "gp_boundary g \<le> cursor \<or> round_ms (gp_boundary g - cursor) = 0 \<or> nat (gp_boundary g - cursor) < fp_min_fill (gp_plan g) \<or>
        max_draws_per_gap \<le> draw \<or> advance_pieces env cursor ps \<le> cursor")
      case False
      then have "\<exists>r. fill_loop env g (advance_pieces env cursor ps) (Suc draw) st' = Inr r"
        by (intro 1[OF refl refl _ _ _ Aired]) simp_all
      then obtain r where "fill_loop env g (advance_pieces env cursor ps) (Suc draw) st' = Inr r" ..
      then show ?thesis using d Aired by (subst fill_loop.simps) (auto simp: Let_def split: prod.split)
    qed (subst fill_loop.simps, auto simp: Let_def d Aired)
  qed (subst fill_loop.simps, simp add: Let_def d)
qed

lemma black_ns [simp]: "pc_duration (black_piece env block t len why) = nat len"
  by (simp add: black_piece_def piece_from_def scheduled_def Let_def black_source_def lavfi_source_def)

lemma fill_loop_room:
  assumes "fill_loop env g cursor draw st = Inr (pcs, st')" "gp_boundary g - cursor < 2 ^ 51"
    and exact: "exact_seconds (fv_seconds_f64 env)" "short_pools env"
  shows "if 500000 \<le> gp_boundary g - cursor then
      pcs \<noteq> [] \<and> int (pieces_ns pcs) \<le> gp_boundary g - cursor + 500000 \<and> int (pieces_ns (butlast pcs)) \<le> gp_boundary g - cursor
    else pcs = []"
  using assms
proof (induction env g cursor draw st arbitrary: pcs st' rule: fill_loop.induct)
  case (1 env g cursor draw st)
  let ?rem = "gp_boundary g - cursor"
  note loop = 1(2)[unfolded fill_loop.simps[of env g cursor] Let_def]
  show ?case
  proof (cases "500000 \<le> ?rem")
    case False
    then show ?thesis using loop round_ms_bounds(2)[of ?rem] by (cases "?rem \<le> 0") simp_all
  next
    case True
    then have live: "\<not> (?rem \<le> 0 \<or> round_ms ?rem = 0)" using round_ms_bounds(2)[of ?rem] by simp
    obtain outcome st1 where d: "fill_draw env g cursor draw st = Inr (outcome, st1)" using fill_draw_returns by fastforce
    have black: "pcs = [black_piece env (gp_block g) cursor ?rem why] \<Longrightarrow> ?thesis" for why using True by simp
    show ?thesis
    proof (cases "nat ?rem < fp_min_fill (gp_plan g) \<or> max_draws_per_gap \<le> draw")
      case True
      then show ?thesis using loop live black[of "''under_min_fill''"] black[of "''draw_cap''"] by (simp split: if_splits)
    next
      case go: False
      show ?thesis
      proof (cases outcome)
        case (GoesBlack why)
        then have "pcs = [black_piece env (gp_block g) cursor ?rem why]" using loop live go d by simp
        then show ?thesis by (rule black)
      next
        case (Aired ps)
        have room: "piece_room ?rem ps"
          using d Aired True by (intro fill_draw_room[OF _ _ 1(4,5)]) simp_all
        have "int (pieces_ns ps) < int (2 ^ 52)" using room 1(3) by (simp add: piece_room_def)
        then have "advance_pieces env cursor ps = cursor + int (pieces_ns ps)" by (intro advance_exact 1(4)) (simp only: of_nat_less_iff)
        then have adv: "advance_pieces env cursor ps = cursor + int (pieces_ns ps)" "\<not> advance_pieces env cursor ps \<le> cursor"
          using room by (simp_all add: piece_room_def)
        then obtain rest where rest: "fill_loop env g (advance_pieces env cursor ps) (Suc draw) st1 = Inr (rest, st')" "pcs = ps @ rest"
          using loop live go d Aired by (auto simp: bind_res_Inr_iff)
        have ih: "if 500000 \<le> gp_boundary g - advance_pieces env cursor ps then rest \<noteq> [] \<and>
            int (pieces_ns rest) \<le> gp_boundary g - advance_pieces env cursor ps + 500000 \<and>
            int (pieces_ns (butlast rest)) \<le> gp_boundary g - advance_pieces env cursor ps
          else rest = []"
          using live go 1(3,4,5) adv rest(1) by (intro 1(1)[OF refl refl _ _ _ Aired]) simp_all
        show ?thesis using ih room rest(2) True adv(1) by (auto simp: piece_room_def butlast_append split: if_splits)
      qed
    qed
  qed
qed

text \<open>
  Claim C38. Filling a gap always returns. A gap of half a millisecond or more that is not a whole step
  short of the line gets pieces, and played one after another from its start they end exactly on the
  line, whatever the scripts build and however long the items of a pool are; any other gap gets none.
\<close>

theorem filled_gap_lands_on_the_line:
  assumes "boundary_at_or_after t (fp_every plan) (fv_tz env) = Inr b" "fp_every plan < 2 ^ 51"
    "exact_seconds (fv_seconds_f64 env)" "short_pools env"
  shows "\<exists>pcs st'. fill_gap env plan t before ahead block st = Inr (pcs, st') \<and>
    (if 500000 \<le> b - t \<and> b - t \<le> int (fp_every plan) - 1000000 then pcs \<noteq> [] \<and> advance_pieces env t pcs = b else pcs = [])"
proof (cases "b \<le> t \<or> int (fp_every plan) - 1000000 < b - t")
  case True
  then show ?thesis using assms(1) by (auto simp: fill_gap_def)
next
  case False
  let ?g = "gap_at env plan t before ahead block b"
  have g: "gp_boundary ?g = b" by (simp add: gap_at_def Let_def)
  obtain pcs st' where loop: "fill_loop env ?g t 0 st = Inr (pcs, st')" using fill_loop_returns by fastforce
  have small: "b - t < 2 ^ 51" using False assms(2) by simp
  note room = fill_loop_room[OF loop _ assms(3,4), unfolded g, OF small]
  have fill: "fill_gap env plan t before ahead block st = Inr (land_on env t b pcs, st')"
    using False assms(1) loop by (simp add: fill_gap_def)
  show ?thesis
  proof (cases "500000 \<le> b - t")
    case True
    then have pcs: "pcs \<noteq> []" "int (pieces_ns pcs) < int (2 ^ 52)" "int (pieces_ns (butlast pcs)) \<le> b - t"
      using room small by simp_all
    have "b - t < 2 ^ 52" using small by simp
    moreover have "pieces_ns pcs < 2 ^ 52" using pcs(2) by (simp only: of_nat_less_iff)
    moreover have "land_on env t b pcs = land_rounds (Suc (Suc 6)) env t b pcs" unfolding land_on_def by (rule arg_cong) simp
    ultimately have "advance_pieces env t (land_on env t b pcs) = b" using land_rounds_lands[OF assms(3) pcs(1) _ _ pcs(3), of 6] by simp
    moreover have "land_on env t b pcs \<noteq> []" unfolding land_on_def land_rounds_Nil by (rule pcs(1))
    ultimately show ?thesis using fill True False by simp
  next
    case short: False
    then show ?thesis using fill room by (simp add: land_on_def)
  qed
qed

section \<open>A generation keeps its programmes\<close>

text \<open>
  Rows with others inserted between them: each inserted row carries the state entering the next of the
  rows, or \<open>e\<close> after the last.
\<close>

fun woven :: "row list \<Rightarrow> progress \<Rightarrow> row list \<Rightarrow> bool" where
  "woven [] e out \<longleftrightarrow> (\<forall>r\<in>set out. snd (snd r) = e)"
| "woven (r # rows) e out \<longleftrightarrow>
     (\<exists>pre rest. out = pre @ r # rest \<and> (\<forall>p\<in>set pre. snd (snd p) = snd (snd r)) \<and> woven rows e rest)"

lemma woven_refl: "woven rows e rows"
proof (induction rows)
  case (Cons r rows)
  then show ?case unfolding woven.simps by (intro exI[of _ "[]"] exI[of _ rows]) simp
qed simp

definition rows_of :: "laid_items \<Rightarrow> row list" where
  "rows_of l = zip (la_items l) (zip (la_durations l) (la_progress l))"

definition parallel_rows :: "laid_items \<Rightarrow> bool" where
  "parallel_rows l \<longleftrightarrow> length (la_durations l) = length (la_items l) \<and> length (la_progress l) = length (la_items l)"

lemma piece_rows_state: "r \<in> set (piece_rows pcs state) \<Longrightarrow> snd (snd r) = state"
  by (auto simp: piece_rows_def)

lemma weave_woven:
  assumes "rows = drop i all" "states = map (snd \<circ> snd) all" "\<forall>r\<in>set extra. snd (snd r) = (case rows of [] \<Rightarrow> e | r # _ \<Rightarrow> snd (snd r))"
  shows "woven rows e (extra @ weave after skip lead states e i rows)"
  using assms
proof (induction rows arbitrary: i extra)
  case (Cons r rows)
  obtain item d s where r: "r = (item, d, s)" by (metis prod_cases3)
  have i: "i < length all" using Cons.prems(1) by (metis drop_eq_Nil leI list.distinct(1))
  have rows: "rows = drop (Suc i) all" using Cons.prems(1) by (metis drop_Suc list.sel(3) tl_drop)
  let ?enter = "if Suc i < length states then states ! Suc i else e"
  have enter: "?enter = (case rows of [] \<Rightarrow> e | r # _ \<Rightarrow> snd (snd r))"
  proof (cases "Suc i < length all")
    case True
    then show ?thesis unfolding rows by (simp add: Cons_nth_drop_Suc[symmetric] Cons.prems(2))
  qed (simp add: rows Cons.prems(2))
  have "woven rows e (piece_rows (after i) ?enter @ weave after skip lead states e (Suc i) rows)"
    using piece_rows_state enter by (intro Cons.IH rows Cons.prems(2)) auto
  then show ?case using Cons.prems(3) piece_rows_state[of _ lead s] unfolding r woven.simps weave.simps
    by (intro exI[of _ "extra @ (if i = skip then piece_rows lead s else [])"]
        exI[of _ "piece_rows (after i) ?enter @ weave after skip lead states e (Suc i) rows"]) auto
qed simp

lemma weave_before_skip:
  assumes "\<And>k. k < skip \<Longrightarrow> after k = []" "i \<le> skip"
  shows "take (skip - i) (weave after skip lead states e i rows) = take (skip - i) rows"
  using assms(2)
proof (induction rows arbitrary: i)
  case (Cons r rows)
  obtain item d s where r: "r = (item, d, s)" by (metis prod_cases3)
  show ?case
  proof (cases "i = skip")
    case False
    then have "skip - i = Suc (skip - Suc i)" "i < skip" using Cons.prems by simp_all
    then show ?thesis using Cons.IH[of "Suc i"] assms(1)[of i] by (simp add: r piece_rows_def)
  qed simp
qed simp

lemma zip_split_rows: "zip (map fst rows) (zip (map (fst \<circ> snd) rows) (map (snd \<circ> snd) rows)) = rows"
  by (induction rows) auto

text \<open>
  Claim C40. The pass keeps every programme of the generation, in order, with its length and the state
  entering it, and changes nothing before the row it starts at. What it inserts carries the state
  entering the next programme, so a wipe at a bumper rewinds to there.
\<close>

theorem fill_keeps_the_schedule:
  assumes "fill_gaps env l skip start fill_leading end_progress = Inr l'" "parallel_rows l"
  shows "parallel_rows l' \<and> woven (rows_of l) end_progress (rows_of l') \<and> take skip (rows_of l') = take skip (rows_of l)"
proof (cases "list_all (\<lambda>p. p = None) (fv_plans env) \<or> length (la_items l) \<le> skip")
  case True
  then show ?thesis using assms woven_refl by (auto simp: fill_gaps_def)
next
  case False
  obtain lead st where lead: "lead_gap env l skip start fill_leading = Inr (lead, st)"
    using assms(1) False by (auto simp: fill_gaps_def bind_res_Inr_iff)
  obtain pss st' where pss: "gaps_after env (la_items l) (advance_pieces env start lead) st
      (drop skip (List.enumerate 0 (zip (la_items l) (la_durations l)))) = Inr (pss, st')"
    using assms(1) False lead by (auto simp: fill_gaps_def bind_res_Inr_iff)
  define after where "after = (\<lambda>i. if skip \<le> i \<and> i - skip < length pss then pss ! (i - skip) else [])"
  define rows where "rows = weave after skip lead (la_progress l) end_progress 0 (rows_of l)"
  have l': "l' = \<lparr>la_items = map fst rows, la_durations = map (fst \<circ> snd) rows, la_progress = map (snd \<circ> snd) rows,
                  la_bumper_records = ps_records st'\<rparr>"
    using assms(1) False lead pss by (simp add: fill_gaps_def after_def rows_def rows_of_def Let_def)
  have rows': "rows_of l' = rows" by (simp add: l' rows_of_def zip_split_rows)
  have "la_progress l = map (snd \<circ> snd) (rows_of l)"
    unfolding rows_of_def using assms(2) by (intro nth_equalityI) (simp_all add: parallel_rows_def)
  then have "woven (rows_of l) end_progress ([] @ rows)" unfolding rows_def by (intro weave_woven) simp_all
  moreover have "take (skip - 0) rows = take (skip - 0) (rows_of l)"
    unfolding rows_def by (rule weave_before_skip) (simp_all add: after_def)
  moreover have "parallel_rows l'" by (simp add: l' parallel_rows_def)
  ultimately show ?thesis by (simp add: rows')
qed

section \<open>Reaching the line\<close>

text \<open>
  A timeline said to reach the line may still leave black: a flexible segment with no weight stays at its
  least length, and counts with its most.
\<close>

definition weightless :: timeline where
  "weightless = \<lparr>tl_segments = [ident\<lparr>sg_duration := FlexMs 1000 10000 (Finite 0)\<rparr>], tl_bed = None\<rparr>"

theorem reaching_timeline_leaves_black:
  "can_reach weightless 5000 \<and> (\<exists>rt. fit weightless 5000 (Finite 30) = Inr rt \<and> map rg_filler (rt_segments rt) = [False, True])"
proof -
  note exact = f64_round_nat[of 1000, simplified] f64_round_nat[of 5000, simplified] f64_round_nat[of 4000, simplified]
    f64_round_nat[of 30000, simplified] f64_round_nat[of 30, simplified]
  define seg where "seg = ident\<lparr>sg_duration := FlexMs 1000 10000 (Finite 0)\<rparr>"
  have segs: "tl_segments weightless = [seg]" by (simp add: weightless_def seg_def)
  have seg: "sg_duration seg = FlexMs 1000 10000 (Finite 0)" "\<not> sg_loop seg" "segment_problem seg = None"
    by (simp_all add: seg_def ident_def segment_problem_def)
  have live: "live_segments [seg] 5000 = ([0], [], True)"
    by (simp add: live_segments_def drop_optionals.simps feasible_def seg)
  have solved: "solve_flex [FlexMs 1000 10000 (Finite 0)] True 5000 = [1000]"
    by (simp add: solve_flex_def grow_flex_def map_filter_simps share_rounds.simps free_rooms_def f64_sum_def f64_add_def f64_of_nat_def exact)
  have top: "top_up 5000 [seg] [1000] = [(seg, 1000, False), (filler_segment, 4000, True)]"
    by (simp add: top_up_def seg f64_sum_def f64_add_def f64_sub_def f64_of_nat_def exact Let_def)
  have "\<lfloor>61 / 2 :: rat\<rfloor> = 30" "\<lfloor>2001 / 2 :: rat\<rfloor> = 1000" by (rule floor_unique; simp)+
  then have snap: "snap_to_frame 1000 30 = 1000"
    by (simp add: snap_to_frame_def f64_mul_def f64_div_def exact round_away_def Let_def)
  have "place_segments 5000 30 (top_up 5000 [seg] [1000]) 0 0 =
      ([\<lparr>rg_segment = seg, rg_start_ms = 0, rg_duration_ms = 1000, rg_filler = False\<rparr>,
        \<lparr>rg_segment = filler_segment, rg_start_ms = 1000, rg_duration_ms = 4000, rg_filler = True\<rparr>], [])"
    by (simp add: top f64_add_def exact snap)
  then have "\<exists>rt. fit weightless 5000 (Finite 30) = Inr rt \<and> map rg_filler (rt_segments rt) = [False, True]"
    by (simp add: fit_def fit_live_def segs live seg solved Let_def)
  moreover have "can_reach weightless 5000" by (simp add: can_reach_def segs seg)
  ultimately show ?thesis by blast
qed

section \<open>A quarter past, filled to the half hour\<close>

definition half_hours :: fill_plan where
  "half_hours =
     \<lparr>fp_every = dur_of_secs 1800, fp_min_fill = default_min_fill,
      fp_entries =
        [\<lparr>cd_source = ScriptSource ''/spot.rhai'' [] None, cd_weight = 1, cd_when = None, cd_min_gap_ms = 0, cd_max_gap_ms = None\<rparr>,
         \<lparr>cd_source = PoolSource ''shorts'', cd_weight = 3, cd_when = None, cd_min_gap_ms = 60000, cd_max_gap_ms = None\<rparr>]\<rparr>"

definition shorts :: "(resolved_item \<times> duration) list" where
  "shorts = [(plain_item ''a'' 0, dur_of_secs 1000), (plain_item ''b'' 0, dur_of_secs 300)]"

definition lobby :: fill_env where
  "lobby =
     \<lparr>fv_channel = \<lparr>ci_name = ''one'', ci_number = 1, ci_logo = None, ci_vocabulary = [], ci_tz = None\<rparr>, fv_tz = fixed_zone 0,
      fv_overlay_root = ''/o'', fv_plans = [Some half_hours], fv_pools = [(0, ''shorts'') \<mapsto> shorts],
      fv_item_map = (\<lambda>item. [(''entry_id'', DynString (ri_id item))]), fv_build = (\<lambda>_ _. Inr spot), fv_cel = (\<lambda>_ _. Inr (CelBool True)),
      fv_from_dynamic = (\<lambda>_. None), fv_encode = (\<lambda>_. None), fv_date = (\<lambda>_. []), fv_clock = (\<lambda>_ _. 0),
      fv_media_len_ms = (\<lambda>_. None), fv_f64 = (\<lambda>_. []), fv_f32 = (\<lambda>_. []), fv_seconds_f64 = seconds_nearest\<rparr>"

definition at_rest :: pass_state where
  "at_rest = \<lparr>ps_records = [], ps_used = (\<lambda>_. {})\<rparr>"

lemma lobby_midnight: "local_midnight_at_or_before (at_unix 900) (fixed_zone 0) = Inr (at_unix 0)"
  using midnight_fixed[of "fixed_zone 0" 0 "at_unix 900"] by (simp add: local_date_def local_secs_def)

lemma lobby_boundary: "boundary_at_or_after (at_unix 900) (dur_of_secs 1800) (fixed_zone 0) = Inr (at_unix 1800)"
  unfolding boundary_at_or_after_def lobby_midnight bind_res_simps
  by (simp add: at_unix_def dur_of_secs_def nanos_per_sec_def Let_def)

lemma lobby_exact: "exact_seconds (fv_seconds_f64 lobby)" "short_pools lobby"
  using exact_nearest by (simp_all add: lobby_def short_pools_def shorts_def dur_of_secs_def)

theorem boundary_is_the_next_line_witness:
  "\<exists>k. at_unix 1800 = k * int (dur_of_secs 1800) \<and> at_unix 900 \<le> at_unix 1800"
  using boundary_is_the_next_line[OF lobby_boundary _ lobby_midnight]
  by (auto simp: dur_of_secs_def at_unix_def nanos_per_sec_def)

theorem pool_picks_fit_the_gap_witness:
  "sorted_wrt (<) (fst (pool_picks lobby half_hours 0 ''shorts'' (at_unix 900) (\<lambda>_. {}))) \<and>
   fst (pool_picks lobby half_hours 0 ''shorts'' (at_unix 900) (\<lambda>_. {})) \<noteq> []"
proof -
  have pool: "fv_pools lobby (0, ''shorts'') = Some shorts" by (simp add: lobby_def)
  have "fits_gap lobby (fp_min_fill half_hours) (at_unix 900) (snd (shorts ! 1))"
    using lobby_exact(1)
    by (simp add: fits_gap_def half_hours_def default_min_fill_def shorts_def length_ns_def exact_seconds_def dur_of_secs_def at_unix_def nanos_per_sec_def)
  moreover have "1 < length shorts" by (simp add: shorts_def)
  ultimately show ?thesis
    using pool_picks_fit_the_gap[OF pool, of half_hours "at_unix 900" "\<lambda>_. {}", OF surjective_pairing] by blast
qed

theorem filled_gap_lands_on_the_line_witness:
  "\<exists>pcs st'. fill_gap lobby half_hours (at_unix 900) None [] 0 at_rest = Inr (pcs, st') \<and> pcs \<noteq> [] \<and>
     advance_pieces lobby (at_unix 900) pcs = at_unix 1800"
proof -
  have b: "boundary_at_or_after (at_unix 900) (fp_every half_hours) (fv_tz lobby) = Inr (at_unix 1800)"
    using lobby_boundary by (simp add: half_hours_def lobby_def)
  have "fp_every half_hours < 2 ^ 51" by (simp add: half_hours_def dur_of_secs_def)
  from filled_gap_lands_on_the_line[OF b this lobby_exact, of None "[]" 0 at_rest] show ?thesis
    by (simp add: half_hours_def dur_of_secs_def at_unix_def nanos_per_sec_def)
qed

definition lone_film :: laid_items where
  "lone_film =
     \<lparr>la_items = [plain_item ''f'' 0], la_durations = [dur_of_secs 900],
      la_progress = [\<lparr>st_pools = [], st_position = 0, st_slot_positions = [], st_rotations = []\<rparr>], la_bumper_records = []\<rparr>"

definition one_aired :: progress where
  "one_aired = \<lparr>st_pools = [], st_position = 1, st_slot_positions = [], st_rotations = []\<rparr>"

lemma film_filled: "\<exists>l'. fill_gaps lobby lone_film 0 (at_unix 0) False one_aired = Inr l'"
proof -
  have e: "at_unix 0 + length_ns lobby (dur_of_secs 900) = at_unix 900"
    using lobby_exact(1) by (simp add: length_ns_def exact_seconds_def dur_of_secs_def at_unix_def nanos_per_sec_def)
  have p: "fv_plans lobby = [Some half_hours]" "fv_tz lobby = fixed_zone 0" "fp_every half_hours = dur_of_secs 1800"
    by (simp_all add: lobby_def half_hours_def)
  have b: "ri_block (plain_item ''f'' 0) = 0" by (simp add: plain_item_def)
  obtain pcs st where "fill_loop lobby (gap_at lobby half_hours (at_unix 900) (Some (plain_item ''f'' 0)) [] 0 (at_unix 1800)) (at_unix 900) 0 at_rest = Inr (pcs, st)"
    using fill_loop_returns by fastforce
  then show ?thesis
    by (simp add: fill_gaps_def lead_gap_def lone_film_def plan_for_def fill_gap_def p b e lobby_boundary at_rest_def Let_def advance_pieces_def
      dur_of_secs_def[symmetric])
qed

theorem fill_keeps_the_schedule_witness:
  "\<exists>l'. fill_gaps lobby lone_film 0 (at_unix 0) False one_aired = Inr l' \<and> woven (rows_of lone_film) one_aired (rows_of l')"
proof -
  obtain l' where l: "fill_gaps lobby lone_film 0 (at_unix 0) False one_aired = Inr l'" using film_filled ..
  have "parallel_rows lone_film" by (simp add: parallel_rows_def lone_film_def)
  from fill_keeps_the_schedule[OF l this] l show ?thesis by blast
qed

end
