(* ===== verification/Rewind.thy ===== *)
theory Rewind
  imports EmitFacts Resume History
begin

text \<open>
  How the daemon throws a schedule away (\<open>daemon.rs\<close>): the wipe of the chunk files from an instant on,
  the frontier of what survives it, the rewind of resume state and ledger to that frontier, and the
  forced refresh. A write or delete takes place; an error of the file system is not modelled, one of
  a file that cannot be read is.
\<close>

section \<open>Wiping\<close>

definition remove_file :: "chunk_file \<Rightarrow> output_folder \<Rightarrow> output_folder" where
  "remove_file f folder = filter (\<lambda>g. \<not> same_path g f) folder"

text \<open>\<open>max\<close> of a list that is not empty.\<close>

definition last_finish :: "playout_item list \<Rightarrow> instant" where
  "last_finish items = fold max (map pi_finish (tl items)) (pi_finish (hd items))"

text \<open>The file is read where it lies now; the count is one for a file that is gone.\<close>

definition truncate_playout_at :: "chunk_file \<Rightarrow> instant \<Rightarrow> output_folder \<Rightarrow> output_folder \<times> nat result" where
  "truncate_playout_at f cut_at folder =
     (case find (\<lambda>g. same_path g f) folder of
        None \<Rightarrow> (folder, Inl ''io error'')
      | Some g \<Rightarrow>
          (case cf_items g of
             None \<Rightarrow> (folder, Inl ''playout corrupt'')
           | Some items \<Rightarrow>
               let kept = filter (\<lambda>i. pi_finish i \<le> cut_at) items in
               if length kept = length items then (folder, Inr 0)
               else if kept = [] then (remove_file f folder, Inr 1)
               else let h = \<lparr>cf_start = cf_start f, cf_finish = last_finish kept, cf_items = Some kept\<rparr>; written = put_file h folder
                    in (if same_path h f then written else remove_file f written, Inr 0)))"

fun truncate_files :: "chunk_file list \<Rightarrow> instant \<Rightarrow> nat \<Rightarrow> output_folder \<Rightarrow> output_folder \<times> nat result" where
  "truncate_files [] t removed folder = (folder, Inr removed)"
| "truncate_files (f # files) t removed folder =
     (case truncate_playout_at f t folder of
        (folder', Inl e) \<Rightarrow> (folder', Inl e)
      | (folder', Inr n) \<Rightarrow> truncate_files files t (removed + n) folder')"

definition wipe_playout_from :: "instant \<Rightarrow> output_folder \<Rightarrow> output_folder \<times> nat result" where
  "wipe_playout_from t folder =
     (let files = scan_output_folder folder;
          gone = filter (\<lambda>f. t \<le> cf_start f) files
      in truncate_files (filter (\<lambda>f. cf_start f < t \<and> t < cf_finish f) files) t (length gone) (fold remove_file gone folder))"

section \<open>Where to cut\<close>

definition cut_after_airing :: "(instant \<times> instant) list \<Rightarrow> instant \<Rightarrow> instant" where
  "cut_after_airing items now = foldl max now (map snd (filter (\<lambda>(start, finish). start \<le> now \<and> now < finish) items))"

fun airing_walk :: "instant \<Rightarrow> chunk_file list \<Rightarrow> instant \<Rightarrow> instant result" where
  "airing_walk now [] cut_at = Inr cut_at"
| "airing_walk now (f # files) cut_at =
     (case cf_items f of
        None \<Rightarrow> Inl ''playout corrupt''
      | Some items \<Rightarrow>
          airing_walk now files (max cut_at (cut_after_airing (map (\<lambda>i. (pi_start i, pi_finish i)) items) now)))"

definition airing_item_finish :: "output_folder \<Rightarrow> instant \<Rightarrow> instant result" where
  "airing_item_finish folder now =
     airing_walk now (filter (\<lambda>f. cf_start f \<le> now \<and> now \<le> cf_finish f) (scan_output_folder folder)) now"

definition regen_floor :: "output_folder \<Rightarrow> instant \<Rightarrow> instant result" where
  "regen_floor folder t =
     (case filter (\<lambda>f. cf_start f < t) (scan_output_folder folder) of
        [] \<Rightarrow> Inr t
      | f # files \<Rightarrow>
          (case cf_items (last (f # files)) of
             None \<Rightarrow> Inl ''playout corrupt''
           | Some items \<Rightarrow> Inr (max (if items = [] then t else pi_finish (last items)) t)))"

definition surviving_frontier :: "output_folder \<Rightarrow> instant \<Rightarrow> instant" where
  "surviving_frontier folder wiped_from =
     max (case highest_finish (scan_output_folder folder) of None \<Rightarrow> wiped_from | Some t \<Rightarrow> t) wiped_from"

section \<open>Rewinding\<close>

text \<open>What the daemon holds of a channel: its folder, the resume map and its saved copy, and the ledger.\<close>

record channel_state =
  dm_folder :: output_folder
  dm_resume :: resume_map
  dm_saved :: resume_map
  dm_rows :: "ledger_row list"

definition rewind_to_surviving :: "string \<Rightarrow> instant \<Rightarrow> channel_state \<Rightarrow> channel_state \<times> instant" where
  "rewind_to_surviving channel wiped_from st =
     (let frontier = surviving_frontier (dm_folder st) wiped_from; resume = rewind_or_forget frontier (dm_resume st)
      in (st\<lparr>dm_resume := resume, dm_rows := truncate_from channel frontier (dm_rows st), dm_saved := resume\<rparr>, frontier))"

text \<open>A wipe at an instant and the rewind after it, as every wipe of the daemon has them.\<close>

definition wipe_and_rewind :: "string \<Rightarrow> instant \<Rightarrow> channel_state \<Rightarrow> channel_state \<times> instant result" where
  "wipe_and_rewind channel t st =
     (case wipe_playout_from t (dm_folder st) of
        (folder, Inl e) \<Rightarrow> (st\<lparr>dm_folder := folder\<rparr>, Inl e)
      | (folder, Inr _) \<Rightarrow> (let (st', frontier) = rewind_to_surviving channel t (st\<lparr>dm_folder := folder\<rparr>) in (st', Inr frontier)))"

definition refresh_forward :: "string \<Rightarrow> instant \<Rightarrow> channel_state \<Rightarrow> channel_state \<times> instant result" where
  "refresh_forward channel now st =
     (case airing_item_finish (dm_folder st) now of
        Inl e \<Rightarrow> (st, Inl e)
      | Inr regen_from \<Rightarrow> wipe_and_rewind channel regen_from st)"

section \<open>What a wipe leaves\<close>

text \<open>Items of a file end in order, each after the start of its chunk.\<close>

definition ordered_file :: "chunk_file \<Rightarrow> bool" where
  "ordered_file f \<longleftrightarrow>
     (case cf_items f of None \<Rightarrow> True
      | Some items \<Rightarrow> sorted (map pi_finish items) \<and> (\<forall>i\<in>set items. cf_start f < pi_finish i))"

lemma last_finish_sorted: "items \<noteq> [] \<Longrightarrow> sorted (map pi_finish items) \<Longrightarrow> last_finish items = pi_finish (last items)"
proof (induction items rule: rev_induct)
  case (snoc x xs)
  show ?case
  proof (cases "xs = []")
    case False
    then have "last_finish (xs @ [x]) = max (pi_finish x) (last_finish xs)" by (simp add: last_finish_def)
    moreover have "last_finish xs = pi_finish (last xs)" using False snoc by (simp add: sorted_append)
    moreover have "pi_finish (last xs) \<le> pi_finish x" using False snoc.prems(2) by (simp add: sorted_append)
    ultimately show ?thesis by simp
  qed (simp add: last_finish_def)
qed simp

lemma same_path_refl [simp]: "same_path f f"
  by (simp add: same_path_def)

lemma same_path_start: "same_path f g \<Longrightarrow> cf_start f = cf_start g"
  by (simp add: same_path_def)

lemma fold_remove_files: "fold remove_file gone folder = filter (\<lambda>g. \<forall>f\<in>set gone. \<not> same_path g f) folder"
proof (induction gone arbitrary: folder)
  case (Cons f gone)
  then show ?case by (auto simp: remove_file_def intro!: filter_cong)
qed simp

lemma fold_remove_later:
  "fold remove_file (filter (\<lambda>f. t \<le> cf_start f) (scan_output_folder folder)) folder = filter (\<lambda>f. cf_start f < t) folder"
proof -
  have "(\<forall>f\<in>set (filter (\<lambda>f. t \<le> cf_start f) (scan_output_folder folder)). \<not> same_path g f) \<longleftrightarrow> cf_start g < t"
    (is "?all \<longleftrightarrow> _") if "g \<in> set folder" for g
  proof
    assume all: ?all
    show "cf_start g < t"
    proof (rule ccontr)
      assume "\<not> cf_start g < t"
      then have "g \<in> set (filter (\<lambda>f. t \<le> cf_start f) (scan_output_folder folder))" using that by (simp add: scan_output_folder_def)
      then show False using all same_path_refl by blast
    qed
  next
    assume "cf_start g < t"
    then show ?all using same_path_start[of g] by auto
  qed
  then show ?thesis unfolding fold_remove_files by (intro filter_cong refl)
qed

lemma distinct_all_equal:
  assumes "distinct xs" "\<forall>a\<in>set xs. \<forall>b\<in>set xs. a = b"
  shows "xs = [] \<or> (\<exists>a. xs = [a])"
proof (cases xs)
  case (Cons a ys)
  have "b = a" if "b \<in> set ys" for b using assms(2)[THEN bspec, THEN bspec, of b a] that Cons by simp
  then have "ys = []" using assms(1) Cons by (cases ys) auto
  then show ?thesis using Cons by simp
qed simp

context chunk_grid
begin

lemma honest_start_inj: "honest_folder cs ce folder \<Longrightarrow> f \<in> set folder \<Longrightarrow> g \<in> set folder \<Longrightarrow> cf_start f = cf_start g \<Longrightarrow> f = g"
  unfolding honest_folder_def by (meson distinct_map inj_onD)

text \<open>At most one file spans the cut.\<close>

lemma spanning_files:
  fixes t
  assumes "honest_folder cs ce folder"
  defines "fs \<equiv> filter (\<lambda>f. cf_start f < t \<and> t < cf_finish f) (scan_output_folder folder)"
  obtains "fs = []" | f where "fs = [f]"
proof -
  have "cf_start f = cs t" if "f \<in> set fs" for f
    using that assms(1) span_in_chunk[of f t] by (auto simp: fs_def scan_output_folder_def spans_instant_def honest_folder_def)
  then have "\<forall>f\<in>set fs. \<forall>g\<in>set fs. f = g"
    using honest_start_inj[OF assms(1)] by (metis (no_types, lifting) filter_is_subset fs_def scan_output_folder_def set_sort subsetD)
  moreover have "distinct fs" using assms(1) by (auto simp: fs_def scan_output_folder_def honest_folder_def distinct_map)
  ultimately show ?thesis using that distinct_all_equal by blast
qed

text \<open>A truncated file.\<close>

lemma truncate_honest:
  assumes honest: "honest_file cs ce f" and ord: "ordered_file f" and t: "t < cf_finish f"
    and items: "cf_items f = Some items" and kept: "kept = filter (\<lambda>i. pi_finish i \<le> t) items" "kept \<noteq> []"
  defines "h \<equiv> \<lparr>cf_start = cf_start f, cf_finish = last_finish kept, cf_items = Some kept\<rparr>"
  shows "honest_file cs ce h" "ordered_file h" "cf_finish h \<le> t" "length kept \<noteq> length items"
proof -
  have sorted: "sorted (map pi_finish items)" "sorted (map pi_finish kept)" and ne: "items \<noteq> []"
    using ord honest items by (auto simp: ordered_file_def honest_file_def kept(1) intro: sorted_filter)
  have fin: "last_finish kept = pi_finish (last kept)" using last_finish_sorted kept(2) sorted(2) .
  have "last kept \<in> set kept" using kept(2) by simp
  then have le: "pi_finish (last kept) \<le> t" by (simp add: kept(1))
  have past: "t < pi_finish (last items)" "t < ce (cf_start f)" using honest t items by (auto simp: honest_file_def)
  show "honest_file cs ce h" using honest items kept(2) fin le past(2) by (auto simp: honest_file_def h_def)
  show "ordered_file h" using ord items sorted(2) by (auto simp: ordered_file_def h_def kept(1))
  show "cf_finish h \<le> t" using fin le by (simp add: h_def)
  have "last items \<in> set items" "\<not> pi_finish (last items) \<le> t" using ne past(1) by simp_all
  then show "length kept \<noteq> length items" unfolding kept(1) by (metis length_filter_less less_irrefl)
qed

lemma wipe_shape:
  assumes honest: "honest_folder cs ce folder" and ord: "\<forall>f\<in>set folder. ordered_file f"
  obtains folder' n where "wipe_playout_from t folder = (folder', Inr n)" "distinct (map cf_start folder')"
    "\<forall>f\<in>set folder. cf_finish f \<le> t \<longrightarrow> f \<in> set folder'"
    "\<forall>g\<in>set folder'. honest_file cs ce g \<and> ordered_file g \<and> cf_finish g \<le> t \<and>
       (\<exists>f\<in>set folder. cf_start g = cf_start f \<and> (g = f \<or> t < cf_finish f \<and> cf_items g = map_option (filter (\<lambda>i. pi_finish i \<le> t)) (cf_items f)))"
    "\<forall>f\<in>set folder. cf_start f < t \<longrightarrow> t < cf_finish f \<longrightarrow> (\<exists>i\<in>set (the (cf_items f)). pi_finish i \<le> t) \<longrightarrow>
       (\<exists>g\<in>set folder'. cf_start g = cf_start f)"
proof -
  let ?base = "filter (\<lambda>f. cf_start f < t) folder"
  let ?fs = "filter (\<lambda>f. cf_start f < t \<and> t < cf_finish f) (scan_output_folder folder)"
  let ?n = "length (filter (\<lambda>f. t \<le> cf_start f) (scan_output_folder folder))"
  have wipe: "wipe_playout_from t folder = truncate_files ?fs t ?n ?base"
    by (simp add: wipe_playout_from_def fold_remove_later Let_def)
  have dist: "distinct (map cf_start folder)" "distinct (map cf_start ?base)"
    using honest by (simp_all add: honest_folder_def distinct_map_filter)
  have hon: "honest_file cs ce f" "ordered_file f" if "f \<in> set folder" for f using that honest ord by (auto simp: honest_folder_def)
  have early: "cf_start f < cf_finish f" if mem: "f \<in> set folder" for f
  proof -
    obtain items where i: "cf_items f = Some items" "items \<noteq> []" "cf_finish f = min (ce (cf_start f)) (pi_finish (last items))"
      using hon(1)[OF mem] by (auto simp: honest_file_def split: option.splits)
    have "cf_start f < pi_finish (last items)" using hon(2)[OF mem] i(1,2) by (simp add: ordered_file_def)
    then show ?thesis using i(3) within[of "cf_start f"] by simp
  qed
  have spans: "f \<in> set ?fs \<longleftrightarrow> f \<in> set folder \<and> cf_start f < t \<and> t < cf_finish f" for f by (auto simp: scan_output_folder_def)
  show thesis
  proof (cases rule: spanning_files[OF honest, of t])
    case 1
    then have "\<forall>f\<in>set folder. cf_start f < t \<longrightarrow> cf_finish f \<le> t" using spans by (metis empty_iff empty_set not_le)
    moreover have "wipe_playout_from t folder = (?base, Inr ?n)" unfolding wipe 1 by simp
    ultimately show thesis using that[of ?base ?n] dist(2) hon early by (fastforce dest: less_le_trans)
  next
    case (2 f)
    then have f: "f \<in> set folder" "cf_start f < t" "t < cf_finish f" using spans[of f] by simp_all
    have only: "g = f" if "g \<in> set folder" "cf_start g < t" "t < cf_finish g" for g using spans[of g] that unfolding 2 by simp
    have same: "g = f" if "g \<in> set folder" "cf_start g = cf_start f" for g using honest_start_inj[OF honest that(1) f(1) that(2)] .
    obtain items where items: "cf_items f = Some items" using hon(1)[OF f(1)] by (auto simp: honest_file_def split: option.splits)
    have "find (\<lambda>g. same_path g f) ?base = Some f"
    proof (cases "find (\<lambda>g. same_path g f) ?base")
      case None
      then show ?thesis using f by (auto simp: find_None_iff)
    next
      case (Some g)
      then show ?thesis using find_SomeD[OF Some] same same_path_start by auto
    qed
    note trunc = truncate_playout_at_def[of f t ?base, unfolded this option.case items Let_def]
    define kept where "kept = filter (\<lambda>i. pi_finish i \<le> t) items"
    have past: "length kept \<noteq> length items"
    proof -
      have "items \<noteq> []" "t < pi_finish (last items)" using hon(1)[OF f(1)] items f(3) by (auto simp: honest_file_def)
      then have "last items \<in> set items" "\<not> pi_finish (last items) \<le> t" by simp_all
      then show ?thesis unfolding kept_def by (metis length_filter_less less_irrefl)
    qed
    have path: "g \<in> set ?base \<Longrightarrow> same_path g f \<longleftrightarrow> g = f" for g using same[of g] same_path_start[of g f] by auto
    have others: "cf_finish g \<le> t" if "g \<in> set ?base" "g \<noteq> f" for g using only[of g] that by force
    show thesis
    proof (cases "kept = []")
      case True
      then have tr: "truncate_playout_at f t ?base = (remove_file f ?base, Inr 1)" using trunc past by (simp add: kept_def)
      have set: "g \<in> set (remove_file f ?base) \<longleftrightarrow> g \<in> set ?base \<and> g \<noteq> f" for g
        using path[of g] unfolding remove_file_def set_filter by blast
      have none: "\<not> (\<exists>i\<in>set items. pi_finish i \<le> t)" using True by (auto simp: kept_def filter_empty_conv)
      have "wipe_playout_from t folder = (remove_file f ?base, Inr (?n + 1))" unfolding wipe 2 by (simp add: tr)
      moreover have "distinct (map cf_start (remove_file f ?base))" using dist(1) by (simp add: remove_file_def distinct_map_filter)
      moreover have "\<forall>g\<in>set folder. cf_finish g \<le> t \<longrightarrow> g \<in> set (remove_file f ?base)"
      proof (intro ballI impI)
        fix g assume g: "g \<in> set folder" "cf_finish g \<le> t"
        then have "cf_start g < t" "g \<noteq> f" using early[OF g(1)] f(3) by auto
        then show "g \<in> set (remove_file f ?base)" unfolding set using g(1) by simp
      qed
      moreover have "g \<in> set (remove_file f ?base) \<Longrightarrow> g \<in> set folder \<and> cf_finish g \<le> t" for g using others[of g] unfolding set by simp
      moreover have "\<not> (\<exists>i\<in>set (the (cf_items g)). pi_finish i \<le> t)" if "g \<in> set folder" "cf_start g < t" "t < cf_finish g" for g
        using none items only[OF that] by simp
      ultimately show thesis using hon by (intro that) blast+
    next
      case False
      let ?h = "\<lparr>cf_start = cf_start f, cf_finish = last_finish kept, cf_items = Some kept\<rparr>"
      let ?new = "remove_file f (put_file ?h ?base)"
      note h = truncate_honest[OF hon[OF f(1)] f(3) items kept_def False]
      have diff: "\<not> same_path ?h f" using h(3) f(3) by (simp add: same_path_def)
      then have tr: "truncate_playout_at f t ?base = (?new, Inr 0)" using trunc past False by (simp add: kept_def)
      have set: "g \<in> set ?new \<longleftrightarrow> g = ?h \<or> g \<in> set ?base \<and> g \<noteq> f" for g
      proof (cases "g = ?h")
        case True
        then show ?thesis using diff by (simp add: remove_file_def put_file_def)
      next
        case False
        have "same_path g ?h \<Longrightarrow> g \<in> set ?base \<Longrightarrow> same_path g f"
          using same[of g] by (simp add: same_path_def)
        then have "g \<in> set ?new \<longleftrightarrow> g \<in> set ?base \<and> \<not> same_path g f"
          using False unfolding remove_file_def put_file_def by (auto simp del: set_filter simp: set_filter)
        then show ?thesis using False path[of g] by blast
      qed
      let ?rest = "filter (\<lambda>g. \<not> same_path g f) (filter (\<lambda>g. \<not> same_path g ?h) ?base)"
      have "cf_start f \<notin> cf_start ` set ?rest"
      proof
        assume "cf_start f \<in> cf_start ` set ?rest"
        then obtain g where g: "g \<in> set ?rest" "cf_start g = cf_start f" by auto
        then have "g = f" "\<not> same_path g f" using same[of g] by simp_all
        then show False by simp
      qed
      moreover have "distinct (map cf_start ?rest)"
        by (rule distinct_map_filter, rule distinct_map_filter, rule dist(2))
      moreover have "?new = ?rest @ [?h]" using diff by (simp add: remove_file_def put_file_def)
      ultimately have "distinct (map cf_start ?new)" by (simp del: filter_filter)
      moreover have "wipe_playout_from t folder = (?new, Inr (?n + 0))" unfolding wipe 2 by (simp add: tr)
      moreover have "\<forall>g\<in>set folder. cf_finish g \<le> t \<longrightarrow> g \<in> set ?new"
      proof (intro ballI impI)
        fix g assume g: "g \<in> set folder" "cf_finish g \<le> t"
        then have "cf_start g < t" "g \<noteq> f" using early[OF g(1)] f(3) by auto
        then show "g \<in> set ?new" unfolding set using g(1) by simp
      qed
      moreover have "honest_file cs ce g \<and> ordered_file g \<and> cf_finish g \<le> t \<and> (\<exists>f\<in>set folder. cf_start g = cf_start f \<and>
          (g = f \<or> t < cf_finish f \<and> cf_items g = map_option (filter (\<lambda>i. pi_finish i \<le> t)) (cf_items f)))"
        if g: "g \<in> set ?new" for g
      proof (cases "g = ?h")
        case True
        have "cf_start g = cf_start f" "cf_items g = map_option (filter (\<lambda>i. pi_finish i \<le> t)) (cf_items f)"
          unfolding True by (simp_all add: items kept_def)
        then show ?thesis using h(1-3) f(1,3) unfolding True by blast
      next
        case False
        then have "g \<in> set ?base" "g \<noteq> f" using g unfolding set by simp_all
        then show ?thesis using others[of g] hon[of g] by auto
      qed
      moreover have "\<exists>g'\<in>set ?new. cf_start g' = cf_start g" if "g \<in> set folder" "cf_start g < t" "t < cf_finish g" for g
        unfolding only[OF that] by (rule bexI[of _ ?h]) (simp_all only: set chunk_file.simps simp_thms)
      ultimately show thesis by (intro that) blast+
    qed
  qed
qed

text \<open>The wiped folder, as the lookup sees it.\<close>

lemma wipe_found:
  assumes honest: "honest_folder cs ce folder" and ord: "\<forall>f\<in>set folder. ordered_file f"
  shows "\<exists>folder' n. wipe_playout_from t folder = (folder', Inr n) \<and> honest_folder cs ce folder' \<and>
    (\<forall>f\<in>set folder'. ordered_file f \<and> cf_finish f \<le> t) \<and>
    (\<forall>u. found folder' u \<longrightarrow> u < t \<and> found folder u) \<and>
    (\<forall>u. found folder u \<longrightarrow> (\<forall>f\<in>set folder. \<forall>i\<in>set (the (cf_items f)). spans_instant u f \<longrightarrow> airs u i \<longrightarrow> pi_finish i \<le> t \<or> cf_finish f \<le> t) \<longrightarrow>
       found folder' u)"
proof -
  obtain folder' n where wipe: "wipe_playout_from t folder = (folder', Inr n)" and dist: "distinct (map cf_start folder')"
    and whole: "\<forall>f\<in>set folder. cf_finish f \<le> t \<longrightarrow> f \<in> set folder'"
    and shape: "\<forall>g\<in>set folder'. honest_file cs ce g \<and> ordered_file g \<and> cf_finish g \<le> t \<and>
       (\<exists>f\<in>set folder. cf_start g = cf_start f \<and> (g = f \<or> t < cf_finish f \<and> cf_items g = map_option (filter (\<lambda>i. pi_finish i \<le> t)) (cf_items f)))"
    and cut: "\<forall>f\<in>set folder. cf_start f < t \<longrightarrow> t < cf_finish f \<longrightarrow> (\<exists>i\<in>set (the (cf_items f)). pi_finish i \<le> t) \<longrightarrow>
       (\<exists>g\<in>set folder'. cf_start g = cf_start f)"
    by (rule wipe_shape [OF honest ord, of t])
  have honest': "honest_folder cs ce folder'" using dist shape by (simp add: honest_folder_def)
  have fewer: "u < t \<and> found folder u" if still: "found folder' u" for u
  proof -
    obtain g items i where g: "g \<in> set folder'" "cf_start g = cs u" "u < cf_finish g" "cf_items g = Some items" "i \<in> set items" "airs u i"
      using still unfolding found_iff [OF honest'] by blast
    then obtain f where f: "f \<in> set folder" "cf_start g = cf_start f"
      "g = f \<or> t < cf_finish f \<and> cf_items g = map_option (filter (\<lambda>i. pi_finish i \<le> t)) (cf_items f)" and early: "cf_finish g \<le> t"
      using shape by metis
    have "u < t" using early g(3) by simp
    then have "u < cf_finish f" using f(3) g(3) by auto
    moreover obtain all where "cf_items f = Some all" "i \<in> set all" using f(3) g(4,5) by (cases "cf_items f") auto
    ultimately have "found folder u" unfolding found_iff [OF honest] using f(1,2) g(2,6) by metis
    then show ?thesis using \<open>u < t\<close> by simp
  qed
  have kept: "found folder' u"
    if was: "found folder u" and ends: "\<forall>f\<in>set folder. \<forall>i\<in>set (the (cf_items f)). spans_instant u f \<longrightarrow> airs u i \<longrightarrow> pi_finish i \<le> t \<or> cf_finish f \<le> t" for u
  proof -
    obtain f items i where f: "f \<in> set folder" "cf_start f = cs u" "u < cf_finish f" "cf_items f = Some items" "i \<in> set items" "airs u i"
      using was unfolding found_iff [OF honest] by blast
    have spans: "spans_instant u f" using f(2,3) within [of u] by (simp add: spans_instant_def)
    then have end_i: "pi_finish i \<le> t \<or> cf_finish f \<le> t" using ends f by auto
    show ?thesis
    proof (cases "cf_finish f \<le> t")
      case True
      then show ?thesis unfolding found_iff [OF honest'] using whole f by blast
    next
      case False
      have "u < t" using f(6) end_i False by (simp add: airs_def)
      then have "cf_start f < t" using spans by (simp add: spans_instant_def)
      moreover have "\<exists>i\<in>set (the (cf_items f)). pi_finish i \<le> t" using f(4,5) end_i False by auto
      ultimately obtain g where g: "g \<in> set folder'" "cf_start g = cf_start f" using cut f(1) False by (metis not_le)
      obtain f' where f': "f' \<in> set folder" "cf_start g = cf_start f'" and gf: "g = f' \<or> cf_items g = map_option (filter (\<lambda>i. pi_finish i \<le> t)) (cf_items f')"
        and hg: "honest_file cs ce g" "ordered_file g" "cf_finish g \<le> t" using shape g(1) by metis
      have "f' = f" using honest_start_inj [OF honest f'(1) f(1)] f'(2) g(2) by simp
      moreover have "g \<noteq> f" using hg(3) False by auto
      ultimately have items: "cf_items g = Some (filter (\<lambda>i. pi_finish i \<le> t) items)" using gf f(4) by simp
      have i: "i \<in> set (filter (\<lambda>i. pi_finish i \<le> t) items)" using f(5) end_i False by simp
      have sorted: "sorted (map pi_finish (filter (\<lambda>i. pi_finish i \<le> t) items))" using hg(2) items by (simp add: ordered_file_def)
      have "pi_finish i \<le> pi_finish (last (filter (\<lambda>i. pi_finish i \<le> t) items))"
        using sorted i by (cases "filter (\<lambda>i. pi_finish i \<le> t) items" rule: rev_cases) (auto simp: sorted_append)
      then have "u < pi_finish (last (filter (\<lambda>i. pi_finish i \<le> t) items))" using f(6) by (simp add: airs_def)
      moreover have "u < ce (cf_start g)" using g(2) f(2) within [of u] cs_cs [of u] by simp
      moreover have "cf_finish g = min (ce (cf_start g)) (pi_finish (last (filter (\<lambda>i. pi_finish i \<le> t) items)))"
        using hg(1) items by (simp add: honest_file_def)
      ultimately have "u < cf_finish g" by simp
      then show ?thesis unfolding found_iff [OF honest'] using g items i f(2,6) by metis
    qed
  qed
  have "\<forall>f\<in>set folder'. ordered_file f \<and> cf_finish f \<le> t" using shape by blast
  then show ?thesis using wipe honest' fewer kept by blast
qed

text \<open>The forced refresh cuts past every item on air.\<close>

lemma foldl_max_ge: "a \<le> foldl max a xs \<and> (\<forall>x\<in>set xs. x \<le> foldl max (a :: instant) xs)"
  by (induction xs rule: rev_induct) (auto simp: max_def)

lemma cut_after_ge: "now \<le> cut_after_airing items now \<and> (\<forall>(s, f)\<in>set items. s \<le> now \<longrightarrow> now < f \<longrightarrow> f \<le> cut_after_airing items now)"
  unfolding cut_after_airing_def using foldl_max_ge [of now "map snd (filter (\<lambda>(start, finish). start \<le> now \<and> now < finish) items)"]
  by fastforce

lemma foldl_max_in: "foldl max a xs = a \<or> foldl max (a :: instant) xs \<in> set xs"
  by (induction xs rule: rev_induct) (auto simp: max_def)

lemma cut_after_in: "cut_after_airing items now = now \<or> (\<exists>(s, f)\<in>set items. s \<le> now \<and> now < f \<and> f = cut_after_airing items now)"
  unfolding cut_after_airing_def using foldl_max_in [of now "map snd (filter (\<lambda>(start, finish). start \<le> now \<and> now < finish) items)"]
  by fastforce

text \<open>The cut lies after every item on air in the files, and at the end of one unless none is.\<close>

lemma airing_walk_ge:
  "\<forall>f\<in>set files. cf_items f \<noteq> None \<Longrightarrow> now \<le> start \<Longrightarrow> \<exists>c. airing_walk now files start = Inr c \<and> start \<le> c \<and>
     (\<forall>f\<in>set files. \<forall>i\<in>set (the (cf_items f)). airs now i \<longrightarrow> pi_finish i \<le> c) \<and>
     (c = start \<or> (\<exists>f\<in>set files. \<exists>i\<in>set (the (cf_items f)). airs now i \<and> pi_finish i = c))"
proof (induction files arbitrary: start)
  case (Cons f files)
  obtain items where items: "cf_items f = Some items" using Cons.prems(1) by auto
  define mid where "mid = max start (cut_after_airing (map (\<lambda>i. (pi_start i, pi_finish i)) items) now)"
  have readable: "\<forall>f\<in>set files. cf_items f \<noteq> None" using Cons.prems(1) by simp
  have le: "now \<le> mid" using Cons.prems(2) by (simp add: mid_def)
  obtain c where c: "airing_walk now files mid = Inr c" "mid \<le> c" "\<forall>f\<in>set files. \<forall>i\<in>set (the (cf_items f)). airs now i \<longrightarrow> pi_finish i \<le> c"
    "c = mid \<or> (\<exists>f\<in>set files. \<exists>i\<in>set (the (cf_items f)). airs now i \<and> pi_finish i = c)"
    using Cons.IH [OF readable le] by blast
  have "pi_finish i \<le> c" if "i \<in> set items" "airs now i" for i
    using cut_after_ge [of now "map (\<lambda>i. (pi_start i, pi_finish i)) items"] that c(2) by (fastforce simp: mid_def airs_def)
  moreover have "mid = start \<or> (\<exists>i\<in>set items. airs now i \<and> pi_finish i = mid)"
    using cut_after_in [of "map (\<lambda>i. (pi_start i, pi_finish i)) items" now] Cons.prems(2) by (auto simp: mid_def airs_def max_def)
  moreover have "start \<le> c" using c(2) by (simp add: mid_def)
  moreover have "airing_walk now (f # files) start = Inr c" using c(1) items by (simp add: mid_def)
  ultimately show ?case using c(3,4) items by auto
qed simp

lemma refresh_found:
  assumes honest: "honest_folder cs ce (dm_folder st)" and ord: "\<forall>f\<in>set (dm_folder st). ordered_file f"
  shows "\<exists>st' cut_at frontier. refresh_forward channel now st = (st', Inr frontier) \<and>
    now \<le> cut_at \<and> (cut_at = now \<or> (\<exists>f\<in>set (dm_folder st). \<exists>i\<in>set (the (cf_items f)). airs now i \<and> pi_finish i = cut_at)) \<and>
    honest_folder cs ce (dm_folder st') \<and> (\<forall>f\<in>set (dm_folder st'). ordered_file f \<and> cf_finish f \<le> cut_at) \<and>
    (\<forall>u. found (dm_folder st') u \<longrightarrow> u < cut_at \<and> found (dm_folder st) u) \<and>
    (\<forall>u \<le> now. found (dm_folder st) u \<longrightarrow> found (dm_folder st') u) \<and>
    cut_at \<le> frontier \<and> frontier = surviving_frontier (dm_folder st') cut_at \<and>
    dm_resume st' = rewind_or_forget frontier (dm_resume st) \<and> dm_saved st' = dm_resume st' \<and>
    dm_rows st' = truncate_from channel frontier (dm_rows st)"
proof -
  let ?files = "filter (\<lambda>f. cf_start f \<le> now \<and> now \<le> cf_finish f) (scan_output_folder (dm_folder st))"
  have "\<forall>f\<in>set ?files. cf_items f \<noteq> None"
    using honest by (auto simp: honest_folder_def honest_file_def scan_output_folder_def split: option.splits)
  then obtain c where c: "airing_item_finish (dm_folder st) now = Inr c" "now \<le> c"
    "\<forall>f\<in>set ?files. \<forall>i\<in>set (the (cf_items f)). airs now i \<longrightarrow> pi_finish i \<le> c"
    "c = now \<or> (\<exists>f\<in>set ?files. \<exists>i\<in>set (the (cf_items f)). airs now i \<and> pi_finish i = c)"
    using airing_walk_ge [of ?files now now] by (auto simp: airing_item_finish_def)
  have ends: "c = now \<or> (\<exists>f\<in>set (dm_folder st). \<exists>i\<in>set (the (cf_items f)). airs now i \<and> pi_finish i = c)"
    using c(4) by (auto simp: scan_output_folder_def)
  obtain folder' n where wipe: "wipe_playout_from c (dm_folder st) = (folder', Inr n)" and honest': "honest_folder cs ce folder'"
    and ord': "\<forall>f\<in>set folder'. ordered_file f \<and> cf_finish f \<le> c"
    and fewer: "\<forall>u. found folder' u \<longrightarrow> u < c \<and> found (dm_folder st) u"
    and kept: "\<forall>u. found (dm_folder st) u \<longrightarrow>
       (\<forall>f\<in>set (dm_folder st). \<forall>i\<in>set (the (cf_items f)). spans_instant u f \<longrightarrow> airs u i \<longrightarrow> pi_finish i \<le> c \<or> cf_finish f \<le> c) \<longrightarrow> found folder' u"
    using wipe_found [OF honest ord, of c] by blast
  have past: "found folder' u" if u: "u \<le> now" and was: "found (dm_folder st) u" for u
  proof -
    have "pi_finish i \<le> c \<or> cf_finish f \<le> c"
      if f: "f \<in> set (dm_folder st)" and i: "i \<in> set (the (cf_items f))" and spans: "spans_instant u f" and air: "airs u i" for f i
    proof (rule ccontr)
      assume late: "\<not> (pi_finish i \<le> c \<or> cf_finish f \<le> c)"
      then have "airs now i" using air u c(2) by (simp add: airs_def)
      moreover have "f \<in> set ?files" using f spans u late c(2) by (simp add: scan_output_folder_def spans_instant_def)
      ultimately show False using c(3) i late by blast
    qed
    then show ?thesis using kept was by blast
  qed
  define frontier where "frontier = surviving_frontier folder' c"
  define st' where "st' = st\<lparr>dm_folder := folder', dm_resume := rewind_or_forget frontier (dm_resume st),
      dm_rows := truncate_from channel frontier (dm_rows st), dm_saved := rewind_or_forget frontier (dm_resume st)\<rparr>"
  have run: "refresh_forward channel now st = (st', Inr frontier)"
    using wipe c(1) by (simp add: refresh_forward_def wipe_and_rewind_def rewind_to_surviving_def Let_def frontier_def st'_def)
  have le: "c \<le> frontier" by (simp add: frontier_def surviving_frontier_def)
  have rest: "dm_folder st' = folder'" "dm_resume st' = rewind_or_forget frontier (dm_resume st)" "dm_saved st' = dm_resume st'"
    "dm_rows st' = truncate_from channel frontier (dm_rows st)" by (simp_all add: st'_def)
  show ?thesis
    by (rule exI [of _ st'], rule exI [of _ c], rule exI [of _ frontier], unfold rest(1))
      (use run c(2) ends honest' ord' fewer past le rest(2-4) in \<open>simp add: frontier_def\<close>)
qed

end

text \<open>
  Wiping the schedule from an instant on, in a folder of honest names over any chunk grid,
  returns, and leaves a folder of honest names in which nothing is found from that instant on,
  nothing is found that was not, and every instant found before it stays found unless the item on
  air there ends after the wiped instant.
\<close>

theorem wipe_keeps_what_ends_before:
  assumes "chunk_grid cs ce" and "honest_folder cs ce folder" and "\<forall>f\<in>set folder. ordered_file f"
  shows "\<exists>folder' n. wipe_playout_from t folder = (folder', Inr n) \<and> honest_folder cs ce folder' \<and>
    (\<forall>f\<in>set folder'. ordered_file f \<and> cf_finish f \<le> t) \<and>
    (\<forall>u. found folder' u \<longrightarrow> u < t \<and> found folder u) \<and>
    (\<forall>u. found folder u \<longrightarrow> (\<forall>f\<in>set folder. \<forall>i\<in>set (the (cf_items f)). spans_instant u f \<longrightarrow> airs u i \<longrightarrow> pi_finish i \<le> t \<or> cf_finish f \<le> t) \<longrightarrow>
       found folder' u)"
  using chunk_grid.wipe_found [OF assms] .

text \<open>
  Claim C31. A forced refresh keeps the past and cuts at the next item: over a folder of honest names
  with items in order it returns; it cuts at now or where an item on air now ends, nothing is found
  from the cut on, nothing is found that was not, and every instant up to now found before still is.
  The resume state and its saved copy are rewound, and the channel's ledger rows cut, at the frontier
  of what is left, which does not lie before the cut.
\<close>

theorem refresh_keeps_the_past:
  assumes "chunk_grid cs ce" and "honest_folder cs ce (dm_folder st)" and "\<forall>f\<in>set (dm_folder st). ordered_file f"
  shows "\<exists>st' cut_at frontier. refresh_forward channel now st = (st', Inr frontier) \<and>
    now \<le> cut_at \<and> (cut_at = now \<or> (\<exists>f\<in>set (dm_folder st). \<exists>i\<in>set (the (cf_items f)). airs now i \<and> pi_finish i = cut_at)) \<and>
    honest_folder cs ce (dm_folder st') \<and> (\<forall>f\<in>set (dm_folder st'). ordered_file f \<and> cf_finish f \<le> cut_at) \<and>
    (\<forall>u. found (dm_folder st') u \<longrightarrow> u < cut_at \<and> found (dm_folder st) u) \<and>
    (\<forall>u \<le> now. found (dm_folder st) u \<longrightarrow> found (dm_folder st') u) \<and>
    cut_at \<le> frontier \<and> frontier = surviving_frontier (dm_folder st') cut_at \<and>
    dm_resume st' = rewind_or_forget frontier (dm_resume st) \<and> dm_saved st' = dm_resume st' \<and>
    dm_rows st' = truncate_from channel frontier (dm_rows st)"
  using chunk_grid.refresh_found [OF assms] .

text \<open>A folder of one six-hour chunk that holds two films.\<close>

definition film_at :: "string \<Rightarrow> int \<Rightarrow> int \<Rightarrow> playout_item" where
  "film_at i s f = scheduled i (at_unix s) (at_unix f) (lavfi_source ''color'')"

definition two_aired :: output_folder where
  "two_aired = [\<lparr>cf_start = at_unix 0, cf_finish = at_unix 5400, cf_items = Some [film_at ''a'' 0 3600, film_at ''b'' 3600 5400]\<rparr>]"

lemma film_at_simps [simp]: "pi_start (film_at i s f) = at_unix s" "pi_finish (film_at i s f) = at_unix f"
  by (simp_all add: film_at_def scheduled_def)

lemma two_aired_shape:
  "honest_folder (grid_start 0 6) (grid_end 0 6) two_aired" "\<forall>f\<in>set two_aired. ordered_file f"
proof -
  have "grid_start 0 6 (at_unix 0) = at_unix 0" "grid_end 0 6 (at_unix 0) = at_unix 21600"
    by (simp_all add: grid_start_def grid_end_def grid_index_def grid_point_def)
  then show "honest_folder (grid_start 0 6) (grid_end 0 6) two_aired"
    by (simp add: honest_folder_def two_aired_def honest_file_def at_unix_def nanos_per_sec_def min_def)
  show "\<forall>f\<in>set two_aired. ordered_file f" by (simp add: two_aired_def ordered_file_def at_unix_def nanos_per_sec_def)
qed

lemma two_aired_found: "found two_aired (at_unix 100)"
  by (simp add: found_def two_aired_def spans_instant_def airs_def at_unix_def nanos_per_sec_def)

theorem wipe_keeps_what_ends_before_witness:
  "\<exists>folder' n. wipe_playout_from (at_unix 4000) two_aired = (folder', Inr n) \<and> found folder' (at_unix 100) \<and> \<not> found folder' (at_unix 4500)"
proof -
  obtain folder' n where w: "wipe_playout_from (at_unix 4000) two_aired = (folder', Inr n)"
    "\<forall>u. found folder' u \<longrightarrow> u < at_unix 4000 \<and> found two_aired u"
    "\<forall>u. found two_aired u \<longrightarrow> (\<forall>f\<in>set two_aired. \<forall>i\<in>set (the (cf_items f)). spans_instant u f \<longrightarrow> airs u i \<longrightarrow>
        pi_finish i \<le> at_unix 4000 \<or> cf_finish f \<le> at_unix 4000) \<longrightarrow> found folder' u"
    using wipe_keeps_what_ends_before [OF fixed_grid.chunk_grid_axioms two_aired_shape, of "at_unix 4000"] by blast
  have "\<forall>f\<in>set two_aired. \<forall>i\<in>set (the (cf_items f)). spans_instant (at_unix 100) f \<longrightarrow> airs (at_unix 100) i \<longrightarrow>
        pi_finish i \<le> at_unix 4000 \<or> cf_finish f \<le> at_unix 4000"
    by (simp add: two_aired_def airs_def at_unix_def nanos_per_sec_def)
  then have "found folder' (at_unix 100)" using w(3) two_aired_found by blast
  moreover have "\<not> at_unix 4500 < at_unix 4000" by (simp add: at_unix_def nanos_per_sec_def)
  ultimately show ?thesis using w(1,2) by blast
qed

theorem refresh_keeps_the_past_witness:
  "\<exists>st frontier. refresh_forward ''ch'' (at_unix 4000)
       \<lparr>dm_folder = two_aired, dm_resume = resume_new, dm_saved = resume_new, dm_rows = []\<rparr> = (st, Inr frontier) \<and>
     at_unix 4000 \<le> frontier \<and> found (dm_folder st) (at_unix 100)"
proof -
  let ?st = "\<lparr>dm_folder = two_aired, dm_resume = resume_new, dm_saved = resume_new, dm_rows = []\<rparr>"
  have "honest_folder (grid_start 0 6) (grid_end 0 6) (dm_folder ?st)" "\<forall>f\<in>set (dm_folder ?st). ordered_file f"
    using two_aired_shape by simp_all
  from refresh_keeps_the_past [OF fixed_grid.chunk_grid_axioms this, of "''ch''" "at_unix 4000"] obtain st cut_at frontier where
    r: "refresh_forward ''ch'' (at_unix 4000) ?st = (st, Inr frontier)" "at_unix 4000 \<le> cut_at" "cut_at \<le> frontier"
    "\<forall>u \<le> at_unix 4000. found (dm_folder ?st) u \<longrightarrow> found (dm_folder st) u" by blast
  have "at_unix 100 \<le> at_unix 4000" by (simp add: at_unix_def nanos_per_sec_def)
  then have "found (dm_folder st) (at_unix 100)" using r(4) two_aired_found by simp
  moreover have "at_unix 4000 \<le> frontier" using r(2,3) by (rule order_trans)
  ultimately show ?thesis using r(1) by blast
qed

end
