(* ===== verification/Spec2Isabelle.thy ===== *)
theory Spec2Isabelle
  imports PatternWalkFacts CalendarFacts EmitFacts ResolveFacts GapFillFacts Rewind
begin

text \<open>
  The scheduling core of etv-station: which programme a television channel airs next, and what
  it writes down so that the next generation, a restart or a wipe carries on from the same place.
  Everything modelled is under \<open>src/crates/etv-station/src/\<close>; file names below are relative to it.

  \<^bold>\<open>The program.\<close> A daemon fills a channel's timeline ahead of the clock. Each generation reads
  the channel's rule, picks the block that is on air, resolves that block to an ordered list of
  items, and lays them end to end. A pattern block interleaves pools: a pool is a list of catalog
  items (a query, show groups, or a script's ranking) cut into series that take turns. What the
  pools have aired is kept in a sidecar file with one checkpoint per item, so that wiping the end
  of the timeline can rewind the pools to where they stood.

  \<^bold>\<open>The theories, in import order.\<close>

  \<^item> Prelude: durations, instants, 64-bit words, results, list helpers, and the ordered map
    (\<open>BTreeMap\<close>) as a strictly sorted association list. The locale \<open>ordered_store\<close> is the contract
    its clients rely on; it is interpreted on that list.
  \<^item> Strings: the string operations of the standard library the parsers use.
  \<^item> Mixer: SplitMix64, seed mixing, FNV-1a, binary64 rounding, and the two Fisher-Yates shuffles
    (\<open>pattern.rs\<close>, \<open>catalog/order.rs\<close>, \<open>rotation.rs\<close>) over the locale \<open>partner_chooser\<close>.
  \<^item> Constrain (\<open>constrain.rs\<close>): when two items clash, the greedy ordering with its swap repair,
    and the recency window. The locale \<open>recency_window\<close> states what a window must keep.
  \<^item> Arcs, Config, Catalog (\<open>config/arcs.rs\<close>, \<open>pool.rs\<close>, \<open>order.rs\<close>, \<open>constraints.rs\<close>, \<open>variety.rs\<close>,
    \<open>catalog/\<close>): what an author writes, with the parsers and printers, and what is asked of the catalog.
  \<^item> Resume (\<open>resume.rs\<close>): the sidecar, its checkpoints, rewinds and frozen lists. The locale
    \<open>rewind_trail\<close> abstracts the trail to a function from an instant to the state holding there.
  \<^item> Variety (\<open>variety.rs\<close>): seeds and temperatures by day, and when they change.
  \<^item> PatternPool, PoolVisits (\<open>PoolRuntime\<close> of \<open>pattern.rs\<close>): a pool mid-walk, one visit to it, and
    what whole visits, resumptions and rollovers do.
  \<^item> Score (\<open>score.rs\<close>): which script a pool is ranked by, and what a ranking may return.
  \<^item> PoolSources (\<open>pattern.rs\<close>): from a pool's configuration to its runtime, and refills.
  \<^item> PatternWalk, PatternWalkFacts (\<open>build_with_cache\<close> of \<open>pattern.rs\<close>, \<open>audit.rs\<close>): the walk of
    a pattern with its per-item states and audit records, and its guarantees, proved over a step
    relation the walk is shown to be a run of.
  \<^item> Schedule, RuleConfig, ScheduleFacts (\<open>config/schedule.rs\<close>, \<open>config/rule.rs\<close>,
    \<open>config/validate.rs\<close>): clock ranges, date spans, placements, blocks and their numbering, and the
    load-time checks of schedules and rotations.
  \<^item> Rotation, RotationFacts (\<open>rotation.rs\<close>): slots that draw one of their members per placement.
  \<^item> Tz, Calendar, CalendarFacts (\<open>tz.rs\<close>, \<open>calendar.rs\<close>, the preview of \<open>rotation.rs\<close>): local
    midnights and the chunk grid, what airs at an instant, when that changes, and the sampled
    boundaries the preview reads.
  \<^item> Playout (\<open>rule.rs\<close>): a resolved list laid end to end, the playout items and block spans of a
    window, and the phase a channel joins its list at.
  \<^item> Guide (\<open>guide.rs\<close>, \<open>render_guide\<close> of \<open>daemon.rs\<close>): guide templates, their validation and
    rendering, and the pass that rewrites a generation's programs.
  \<^item> Items, ChannelWindow, ChannelFacts (\<open>resolve.rs\<close>, \<open>catalog/identity.rs\<close>): inline sources and
    catalog rows built into items, the identity of a file, duplicates, filters and order; the runtimes
    items are expected to have, the cut of an entries list where the last generation stopped, and the
    state entering each item.
  \<^item> Sequence, SequenceFacts (\<open>sequence.rs\<close>): a block whose script arranges its pools.
  \<^item> Blocks, BlockFacts (\<open>resolve.rs\<close>, \<open>config/chronology.rs\<close>): one block resolved: the entries of a
    flat block and its fallback, the items of a pool block, and the hydration of the stand-ins catalog
    items are until the window is cut.
  \<^item> Annotate (\<open>annotate.rs\<close>): the script that adds metadata to a built schedule.
  \<^item> Resolve, ResolveFacts (\<open>resolve_channel_with_cache\<close> of \<open>resolve.rs\<close>): one generation of a channel,
    composed of all the above, with the state of what did not air carried through it; the candidate
    fingerprint, and the pools of \<open>fill:\<close> entries.
  \<^item> Emit, EmitFacts (\<open>emit.rs\<close>, \<open>scan.rs\<close>): the chunk files a generation is folded into, the
    frontier, the sweep and the coverage scan. The locale \<open>chunk_grid\<close> states the tiling of time into
    chunks; it is interpreted on the grid of a zone of one offset, the chunks \<open>tz.rs\<close> computes there.
  \<^item> History (\<open>history.rs\<close>): the ledger of airings as the list of its rows, its writes, and the reads
    that project it: where each series stands, what aired last, and the filtered rows.
  \<^item> Rewind (\<open>daemon.rs\<close>): how a schedule is thrown away: the wipe of the chunk files from an instant
    on, the frontier of what survives, the rewind of resume state and ledger to it, and the forced refresh.
  \<^item> Float64: the rest of binary64 the bumpers use, and the bounds of its rounding.
  \<^item> Timeline, TimelineFacts (\<open>bumper/timeline.rs\<close>): a bumper's segments and the solver that drops,
    grows and snaps them onto a gap.
  \<^item> BumperEmit (\<open>bumper/emit.rs\<close>): the playout items of a fitted bumper, with their sound and overlay.
  \<^item> Seconds: a length below \<open>2^52\<close> nanoseconds survives the way through seconds as a binary64.
  \<^item> GapFill, GapFillFacts (\<open>bumper/fill.rs\<close>, \<open>bumper/ledger.rs\<close>): the gaps an aligned block leaves
    before its grid lines, filled draw by draw with bumpers and pool items, and the pass that weaves
    them into a generation with the resume state each carries.

  \<^bold>\<open>How the model reads.\<close> A struct is a record, an enum a datatype, a method taking \<open>&mut self\<close>
  a function returning the updated value beside its result. Errors and panics are the left side of
  a result, with the message the code formats. Logging is dropped. \<open>usize\<close> and cursors are natural
  numbers (lists shorter than the address space never make them wrap); seeds and hashes are 64-bit
  words with their wrap-around; a finite \<open>f64\<close> is the rational it stands for, every operation
  rounded. A \<open>HashMap\<close> whose iteration order shows nowhere is a sorted association list.

  \<^bold>\<open>Parameters.\<close> Code outside the repository is an argument of the definitions that use it: the
  catalog's SQL queries (\<open>catalog\<close>, \<open>item_catalog\<close>), the Rhai engine and compiled scripts (\<open>engine\<close>,
  \<open>arranger\<close>, \<open>annotator\<close>, the build of a bumper), CEL, the debug text of an order, the decoding of a pool's guide, SHA-256 of a
  pattern, \<open>serde_json\<close> text, \<open>humantime\<close> durations, the \<open>Display\<close> of \<open>f64\<close>, RFC 3339 text, the
  conversion of seconds to a \<open>time::Duration\<close>, the length of a media file,
  and the offset of the station's time zone at an instant (\<open>time_tz\<close>). The days of the \<open>time\<close> crate are day
  numbers of the Gregorian calendar.

  \<^bold>\<open>Loops.\<close> A visit's loop over series has fuel: its quota plus the number of series plus one
  rounds are enough, because every round draws at least one item or passes a drained series on. A
  refill runs at most eight rounds, a repair at most its round limit, as in the code. The walk over
  cycles is bounded by the cycle count. A chain of rotations is a partial function, proved to return
  on every rule the loader accepts. The walk to the chunk under an instant is a partial function too:
  it returns wherever the grid advances, and is proved not to on a day the grid stands still. The
  emission loop is a partial function over the same grid, proved to return in a zone of one offset.

  \<^bold>\<open>Not modelled.\<close> Reading and writing files, YAML and JSON decoding, HTTP and SQL (the catalog and
  its ingest), ffmpeg, the functions a bumper script calls, the overlay renderer and the web interface, which the core only calls; the
  asynchronous loop of \<open>daemon.rs\<close> around the modelled checkpoint, wipe and rewind steps; the connection, schema and errors of SQLite. The order in which a refill
  extends the channel's recent list (the order of a \<open>HashSet\<close>) is the order of the sidecar's list.
  A generation that lays no item writes no state for the middle of a visit; validation rules such a
  generation out. What a fill pool that failed to resolve had cached is dropped.
\<close>

end
